(* ===== verification/RPrelude.thy ===== *)
theory RPrelude
  imports Main "HOL-Library.Word" "HOL-Library.Monad_Syntax"
begin

text \<open>
  Shared vocabulary of the RhythmOS development: the C integer types as machine words, the
  option monad in which the kernel operations are written, and the generic facts on words,
  powers of two, options and lists that the component theories use.

  A kernel operation that can stop has a result of type \<open>'a option\<close>. The value \<open>None\<close> says that
  the C function does not return: a failed \<open>assert\<close> (whose handler \<open>__assert\<close> in interrupts.c
  loops forever), an access outside an array or an object, or an endless loop. Error codes such
  as \<open>-EBADF\<close> are ordinary return values.
\<close>

unbundle bit_operations_syntax

section \<open>Types\<close>

type_synonym u8 = "8 word"
type_synonym u16 = "16 word"
type_synonym u32 = "32 word"

named_theorems kdefs \<open>definitions of kernel operations that proofs unfold together\<close>

section \<open>Assertions and partial results\<close>

definition kassert :: "bool \<Rightarrow> unit option" where
  "kassert b = (if b then Some () else None)"

lemma kassert_simps [simp]:
  "kassert True = Some ()"
  "kassert False = None"
  by (simp_all add: kassert_def)

lemma kassert_eq_Some [simp]: "kassert b = Some u \<longleftrightarrow> b"
  by (simp add: kassert_def)

lemma bind_kassert [simp]: "Option.bind (kassert b) f = (if b then f () else None)"
  by (simp add: kassert_def)

section \<open>Lists\<close>

definition list_get :: "'a list \<Rightarrow> nat \<Rightarrow> 'a option" where
  "list_get xs i = (if i < length xs then Some (xs ! i) else None)"

definition list_put :: "'a list \<Rightarrow> nat \<Rightarrow> 'a \<Rightarrow> 'a list option" where
  "list_put xs i x = (if i < length xs then Some (xs[i := x]) else None)"

lemma list_get_Some [simp]: "i < length xs \<Longrightarrow> list_get xs i = Some (xs ! i)"
  by (simp add: list_get_def)

lemma list_put_Some [simp]: "i < length xs \<Longrightarrow> list_put xs i x = Some (xs[i := x])"
  by (simp add: list_put_def)

lemma list_get_eq_Some: "list_get xs i = Some x \<longleftrightarrow> i < length xs \<and> xs ! i = x"
  by (auto simp: list_get_def)

lemma list_put_eq_Some: "list_put xs i x = Some ys \<longleftrightarrow> i < length xs \<and> ys = xs[i := x]"
  by (auto simp: list_put_def)

lemma map_prefix_step:
  "x < length l \<Longrightarrow> (map f (take x l) @ drop x l)[x := f (l ! x)] = map f (take (Suc x) l) @ drop (Suc x) l"
  by (simp add: list_update_append Cons_nth_drop_Suc[symmetric] take_Suc_conv_app_nth)

section \<open>Loops over a range\<close>

text \<open>A \<open>for\<close> loop whose body may stop: the body is run for each element in turn.\<close>

primrec fold_opt :: "('a \<Rightarrow> 's \<Rightarrow> 's option) \<Rightarrow> 'a list \<Rightarrow> 's \<Rightarrow> 's option" where
  "fold_opt f [] s = Some s"
| "fold_opt f (x # xs) s = Option.bind (f x s) (fold_opt f xs)"

lemma fold_opt_append [simp]: "fold_opt f (xs @ ys) s = Option.bind (fold_opt f xs s) (fold_opt f ys)"
  by (induction xs arbitrary: s) (auto split: Option.bind_splits)

lemma fold_opt_inv:
  assumes "P 0 s" "\<And>i s. i < n \<Longrightarrow> P i s \<Longrightarrow> \<exists>s'. f i s = Some s' \<and> P (Suc i) s'"
  shows "\<exists>s'. fold_opt f [0..<n] s = Some s' \<and> P n s'"
proof -
  have "k \<le> n \<Longrightarrow> \<exists>s'. fold_opt f [0..<k] s = Some s' \<and> P k s'" for k
  proof (induction k)
    case (Suc k)
    then obtain t where "fold_opt f [0..<k] s = Some t" "P k t" by auto
    then show ?case using assms(2)[of k t] Suc.prems by auto
  qed (use assms(1) in simp)
  then show ?thesis by blast
qed

section \<open>Words and powers of two\<close>

lemma unat_u32_less: "unat (a::u32) < 2 ^ 32"
  using unsigned_less[of a] by simp

lemma unat_u32_inj: "unat (a::u32) = unat b \<longleftrightarrow> a = b"
  by (simp add: word_unat_eq_iff)

lemma unat_pred_u32: "(x::u32) \<noteq> 0 \<Longrightarrow> unat (x - 1) = unat x - 1"
proof -
  assume "x \<noteq> 0"
  then have "unat x \<noteq> 0" by (metis unat_u32_inj unsigned_0)
  then show ?thesis by (simp add: unat_sub word_le_nat_alt)
qed

lemma unat_pow2_u32 [simp]: "m < 32 \<Longrightarrow> unat (2 ^ m :: u32) = 2 ^ m"
proof -
  assume "m < 32"
  moreover have "unat (push_bit m 1 :: u32) = take_bit 32 (push_bit m 1)"
    by (simp only: unsigned_push_bit_eq unsigned_1) simp
  ultimately show ?thesis by simp
qed

lemma bit_u32_unat: "bit (w::u32) m = odd (unat w div 2 ^ m)"
proof -
  have "bit w m = bit (unat w) m"
    using bit_imp_le_length[of w m] by (auto simp: bit_unsigned_iff)
  then show ?thesis by (simp add: bit_iff_odd)
qed

lemma and_pow2_u32: "m < 32 \<Longrightarrow> (w AND 2 ^ m = (0::u32)) = (\<not> bit w m)"
proof
  assume m: "m < 32" and "w AND 2 ^ m = (0::u32)"
  then have "\<not> bit (w AND 2 ^ m) m" by simp
  with m show "\<not> bit w m" by (simp add: bit_simps)
next
  assume m: "m < 32" and "\<not> bit w m"
  then show "w AND 2 ^ m = (0::u32)"
    by (intro bit_eqI) (auto simp: bit_simps)
qed

lemma unat_and_not_pow2_u32:
  assumes "m < 32" and "bit (w::u32) m"
  shows "unat (w AND NOT (2 ^ m)) = unat w - 2 ^ m"
proof -
  have "(w AND NOT (2 ^ m)) + 2 ^ m = (w AND NOT (2 ^ m)) OR 2 ^ m"
    by (rule disjunctive_add) (auto simp: bit_simps)
  also have "\<dots> = w"
    using assms by (intro bit_eqI) (auto simp: bit_simps)
  finally have eq: "w AND NOT (2 ^ m) = w - 2 ^ m"
    by (simp add: eq_diff_eq)
  have "2 ^ m \<le> unat w"
  proof (rule ccontr)
    assume "\<not> 2 ^ m \<le> unat w"
    then have "unat w div 2 ^ m = 0" by simp
    with assms(2) show False by (simp add: bit_u32_unat)
  qed
  then show ?thesis
    using assms(1) by (simp add: eq unat_sub word_le_nat_alt)
qed

lemma unat_or_pow2_u32:
  assumes "m < 32" and "\<not> bit (w::u32) m"
  shows "unat (w OR 2 ^ m) = unat w + 2 ^ m"
proof -
  have "bit (w OR 2 ^ m) m" using assms(1) by (simp add: bit_simps)
  from unat_and_not_pow2_u32[OF assms(1) this]
  have "unat ((w OR 2 ^ m) AND NOT (2 ^ m)) = unat (w OR 2 ^ m) - 2 ^ m" .
  moreover have "(w OR 2 ^ m) AND NOT (2 ^ m) = w"
    using assms by (intro bit_eqI) (auto simp: bit_simps)
  moreover have "2 ^ m \<le> unat (w OR 2 ^ m)"
  proof (rule ccontr)
    assume "\<not> 2 ^ m \<le> unat (w OR 2 ^ m)"
    then have "unat (w OR 2 ^ m) div 2 ^ m = 0" by simp
    with \<open>bit (w OR 2 ^ m) m\<close> show False by (simp add: bit_u32_unat)
  qed
  ultimately show ?thesis by simp
qed

end
