(* ===== verification/Buddy.thy ===== *)
theory Buddy
  imports RPrelude
begin

text \<open>
  The buddy allocator of buddy.c and include/buddy.h: the memory area with its block table, its
  32 free lists threaded through the free blocks, and the operations \<open>buddy_init\<close>,
  \<open>buddy_alloc\<close> and \<open>buddy_free\<close> with their helpers, as written in the source. Offsets and sizes
  are 32-bit words; the exponents \<open>m\<close>, \<open>lower\<close> and \<open>upper\<close>, which never exceed 32, are
  natural numbers. Reads and writes of the block table, of the free-list heads and of the link
  words are checked against their bounds.
\<close>

section \<open>Data\<close>

definition EMPTY :: u32 where
  "EMPTY = 0xFFFFFFFF"

definition DEFAULT_LOWER :: nat where
  "DEFAULT_LOWER = 8"

record blockinfo =
  sizem :: nat    \<comment> \<open>a 7-bit field\<close>
  used :: bool

record memarea =
  lower :: nat
  upper :: nat
  mem :: u32
  blocks :: "blockinfo list"
  freelist :: "u32 list"
  heap :: "u32 \<Rightarrow> u32"  \<comment> \<open>the word \<open>*(unsigned int *)(mem + off)\<close>, by offset\<close>

section \<open>Access to the block table, the list heads and the link words\<close>

definition block_index :: "memarea \<Rightarrow> u32 \<Rightarrow> nat" where
  "block_index ma b = unat b div 2 ^ lower ma"

definition get_sizem :: "memarea \<Rightarrow> u32 \<Rightarrow> nat option" where
  "get_sizem ma b = map_option sizem (list_get (blocks ma) (block_index ma b))"

definition is_used :: "memarea \<Rightarrow> u32 \<Rightarrow> bool option" where
  "is_used ma b = map_option used (list_get (blocks ma) (block_index ma b))"

definition set_sizem :: "memarea \<Rightarrow> u32 \<Rightarrow> nat \<Rightarrow> memarea option" where
  "set_sizem ma b s = do {
     bi \<leftarrow> list_get (blocks ma) (block_index ma b);
     bs \<leftarrow> list_put (blocks ma) (block_index ma b) (bi\<lparr>sizem := s mod 128\<rparr>);
     Some (ma\<lparr>blocks := bs\<rparr>) }"

definition set_used :: "memarea \<Rightarrow> u32 \<Rightarrow> bool \<Rightarrow> memarea option" where
  "set_used ma b u = do {
     bi \<leftarrow> list_get (blocks ma) (block_index ma b);
     bs \<leftarrow> list_put (blocks ma) (block_index ma b) (bi\<lparr>used := u\<rparr>);
     Some (ma\<lparr>blocks := bs\<rparr>) }"

definition in_heap :: "memarea \<Rightarrow> u32 \<Rightarrow> bool" where
  "in_heap ma b = (unat b + 4 \<le> 2 ^ upper ma)"

definition load_link :: "memarea \<Rightarrow> u32 \<Rightarrow> u32 option" where
  "load_link ma b = (if in_heap ma b then Some (heap ma b) else None)"

definition store_link :: "memarea \<Rightarrow> u32 \<Rightarrow> u32 \<Rightarrow> memarea option" where
  "store_link ma b v = (if in_heap ma b then Some (ma\<lparr>heap := (heap ma)(b := v)\<rparr>) else None)"

definition get_freelist :: "memarea \<Rightarrow> nat \<Rightarrow> u32 option" where
  "get_freelist ma m = list_get (freelist ma) m"

definition set_freelist :: "memarea \<Rightarrow> nat \<Rightarrow> u32 \<Rightarrow> memarea option" where
  "set_freelist ma m v = do { fl \<leftarrow> list_put (freelist ma) m v; Some (ma\<lparr>freelist := fl\<rparr>) }"

section \<open>Operations\<close>

text \<open>
  The loop of \<open>mforsize\<close> doubles \<open>pow2\<close> as a 32-bit unsigned integer until it exceeds the
  request, so it is a loop that may not end.
\<close>

partial_function (option) mforsize_loop :: "u32 \<Rightarrow> u32 \<Rightarrow> nat \<Rightarrow> nat option" where
  "mforsize_loop nbytes pow2 m =
     (if pow2 \<le> nbytes then mforsize_loop nbytes (pow2 * 2) (Suc m) else Some m)"

declare mforsize_loop.simps [code]

definition mforsize :: "memarea \<Rightarrow> u32 \<Rightarrow> nat option" where
  "mforsize ma nbytes = do {
     m \<leftarrow> mforsize_loop nbytes 1 0;
     Some (if m \<ge> lower ma then m else lower ma) }"

definition get_buddy :: "memarea \<Rightarrow> u32 \<Rightarrow> u32 option" where
  "get_buddy ma block = do {
     m \<leftarrow> get_sizem ma block;
     kassert (lower ma \<le> m \<and> upper ma \<ge> m);
     Some (if block AND push_bit m 1 \<noteq> 0 then block AND NOT (push_bit m 1)
           else block OR push_bit m 1) }"

definition add_to_freelist :: "memarea \<Rightarrow> nat \<Rightarrow> u32 \<Rightarrow> memarea option" where
  "add_to_freelist ma m block = do {
     kassert (block + push_bit m 1 \<le> push_bit (upper ma) 1);
     old \<leftarrow> get_freelist ma m;
     ma1 \<leftarrow> store_link ma block old;
     set_freelist ma1 m block }"

text \<open>
  \<open>remove_from_freelist\<close> walks the list with a pointer to the cell that holds the current
  offset: first the list head \<open>&ma->freelist[m]\<close>, then the link word of each block.
\<close>

datatype flptr = FLHead nat | FLLink u32

fun flptr_get :: "memarea \<Rightarrow> flptr \<Rightarrow> u32 option" where
  "flptr_get ma (FLHead m) = get_freelist ma m"
| "flptr_get ma (FLLink b) = load_link ma b"

fun flptr_set :: "memarea \<Rightarrow> flptr \<Rightarrow> u32 \<Rightarrow> memarea option" where
  "flptr_set ma (FLHead m) v = set_freelist ma m v"
| "flptr_set ma (FLLink b) v = store_link ma b v"

partial_function (option) remove_loop :: "memarea \<Rightarrow> flptr \<Rightarrow> u32 \<Rightarrow> memarea option" where
  "remove_loop ma ptr block = do {
     v \<leftarrow> flptr_get ma ptr;
     if EMPTY = v then None
     else if v = block then do { nxt \<leftarrow> load_link ma v; flptr_set ma ptr nxt }
     else remove_loop ma (FLLink v) block }"

declare remove_loop.simps [code]

definition remove_from_freelist :: "memarea \<Rightarrow> nat \<Rightarrow> u32 \<Rightarrow> memarea option" where
  "remove_from_freelist ma m block = remove_loop ma (FLHead m) block"

function find_larger :: "memarea \<Rightarrow> nat \<Rightarrow> nat option" where
  "find_larger ma cm =
     (if cm \<le> upper ma then do {
        f \<leftarrow> get_freelist ma cm;
        if EMPTY \<noteq> f then Some cm else find_larger ma (Suc cm) }
      else Some cm)"
  by pat_completeness auto
termination
  by (relation "measure (\<lambda>(ma, cm). Suc (upper ma) - cm)") auto

definition split_block :: "memarea \<Rightarrow> nat \<Rightarrow> memarea option" where
  "split_block ma cm = do {
     block \<leftarrow> get_freelist ma cm;
     u \<leftarrow> is_used ma block; kassert (\<not> u);
     z \<leftarrow> get_sizem ma block; kassert (z = cm);
     ma1 \<leftarrow> remove_from_freelist ma cm block;
     let half1 = block;
     let half2 = block + push_bit (cm - 1) 1;
     ma2 \<leftarrow> set_sizem ma1 half1 (cm - 1);
     ma3 \<leftarrow> set_sizem ma2 half2 (cm - 1);
     u1 \<leftarrow> is_used ma3 half1; kassert (\<not> u1);
     u2 \<leftarrow> is_used ma3 half2; kassert (\<not> u2);
     ma4 \<leftarrow> add_to_freelist ma3 (cm - 1) half2;
     add_to_freelist ma4 (cm - 1) half1 }"

function split_loop :: "memarea \<Rightarrow> nat \<Rightarrow> nat \<Rightarrow> memarea option" where
  "split_loop ma cm m =
     (if cm > m then do { ma' \<leftarrow> split_block ma cm; split_loop ma' (cm - 1) m } else Some ma)"
  by pat_completeness auto
termination
  by (relation "measure (\<lambda>(ma, cm, m). cm)") auto

text \<open>
  The first part of \<open>buddy_alloc\<close>: if the free list of the wanted size is empty, split a larger
  block. The result \<open>Some None\<close> is the NULL return. When no block is large enough the \<open>USERLAND\<close> build returns NULL; the kernel
  and the user processes are built without it and stop at \<open>assert(0)\<close>.
\<close>

definition refill :: "bool \<Rightarrow> memarea \<Rightarrow> nat \<Rightarrow> memarea option option" where
  "refill userland ma m = do {
     f \<leftarrow> get_freelist ma m;
     if EMPTY = f then do {
       cm \<leftarrow> find_larger ma (m + 1);
       if cm > upper ma then (if userland then Some None else None)
       else map_option Some (split_loop ma cm m) }
     else Some (Some ma) }"

definition buddy_alloc :: "bool \<Rightarrow> memarea \<Rightarrow> u32 \<Rightarrow> (u32 \<times> memarea) option" where
  "buddy_alloc userland ma nbytes = do {
     m \<leftarrow> mforsize ma nbytes;
     r \<leftarrow> refill userland ma m;
     case r of
       None \<Rightarrow> Some (0, ma)
     | Some ma1 \<Rightarrow> do {
         block \<leftarrow> get_freelist ma1 m;
         kassert (EMPTY \<noteq> block);
         u \<leftarrow> is_used ma1 block; kassert (\<not> u);
         z \<leftarrow> get_sizem ma1 block; kassert (z = m);
         ma2 \<leftarrow> set_used ma1 block True;
         ma3 \<leftarrow> remove_from_freelist ma2 m block;
         Some (block + mem ma3, ma3) } }"

definition mergeable :: "memarea \<Rightarrow> nat \<Rightarrow> u32 \<Rightarrow> bool option" where
  "mergeable ma m buddy =
     (if m < upper ma then do {
        u \<leftarrow> is_used ma buddy;
        if \<not> u then do { z \<leftarrow> get_sizem ma buddy; Some (z = m) } else Some False }
      else Some False)"

definition merge_block :: "memarea \<Rightarrow> u32 \<Rightarrow> nat \<Rightarrow> u32 \<Rightarrow> (memarea \<times> u32) option" where
  "merge_block ma block m buddy = do {
     ma1 \<leftarrow> remove_from_freelist ma m buddy;
     let (block', buddy') = (if block > buddy then (buddy, block) else (block, buddy));
     ma2 \<leftarrow> set_sizem ma1 block' (m + 1);
     ma3 \<leftarrow> set_sizem ma2 buddy' 0;
     Some (ma3, block') }"

partial_function (option) free_loop ::
  "memarea \<Rightarrow> u32 \<Rightarrow> nat \<Rightarrow> u32 \<Rightarrow> (memarea \<times> u32 \<times> nat) option" where
  "free_loop ma block m buddy = do {
     c \<leftarrow> mergeable ma m buddy;
     if c then do {
       (ma1, block1) \<leftarrow> merge_block ma block m buddy;
       buddy1 \<leftarrow> get_buddy ma1 block1;
       free_loop ma1 block1 (m + 1) buddy1 }
     else Some (ma, block, m) }"

declare free_loop.simps [code]

definition buddy_free :: "memarea \<Rightarrow> u32 \<Rightarrow> memarea option" where
  "buddy_free ma ptr =
     (if ptr = 0 then Some ma
      else do {
        kassert (ptr \<ge> mem ma \<and> ptr < mem ma + push_bit (upper ma) 1);
        let block = ptr - mem ma;
        m \<leftarrow> get_sizem ma block;
        kassert (lower ma \<le> m \<and> upper ma \<ge> m);
        u \<leftarrow> is_used ma block; kassert u;
        ma1 \<leftarrow> set_used ma block False;
        buddy \<leftarrow> get_buddy ma1 block;
        (ma2, block2, m2) \<leftarrow> free_loop ma1 block m buddy;
        add_to_freelist ma2 m2 block2 })"

definition buddy_nblocks :: "nat \<Rightarrow> nat" where
  "buddy_nblocks sizepow2 = 2 ^ (sizepow2 - DEFAULT_LOWER)"

text \<open>
  \<open>buddy_init\<close> resets the structure; the heap words keep their contents, except for the link
  word of the one initial block.
\<close>

definition buddy_init :: "nat \<Rightarrow> u32 \<Rightarrow> (u32 \<Rightarrow> u32) \<Rightarrow> memarea option" where
  "buddy_init sizepow2 membase hp = do {
     let nblocks = 2 ^ (sizepow2 - DEFAULT_LOWER);
     bs \<leftarrow> list_put (replicate nblocks \<lparr>sizem = 0, used = False\<rparr>) 0
             \<lparr>sizem = sizepow2 mod 128, used = False\<rparr>;
     fl \<leftarrow> list_put (replicate 32 EMPTY) sizepow2 0;
     store_link \<lparr>lower = DEFAULT_LOWER, upper = sizepow2, mem = membase, blocks = bs,
                 freelist = fl, heap = hp\<rparr> 0 EMPTY }"

end
