(* ===== verification/Buddy_Layout.thy ===== *)
theory Buddy_Layout
  imports RPrelude
begin

text \<open>
  The abstract view of a memory area managed by the buddy allocator: a partition of
  \<open>{0..<2^up}\<close> into aligned blocks, each free or used. A layout maps the offset of a block to
  its exponent and its used flag. The theory holds the three moves of the allocator on layouts
  (split, merge, change of the flag), the well-formedness they keep, and the meaning of
  complete coalescing.
\<close>

type_synonym layout = "nat \<Rightarrow> (nat \<times> bool) option"

section \<open>Well-formed layouts\<close>

definition blocks_ok :: "nat \<Rightarrow> nat \<Rightarrow> layout \<Rightarrow> bool" where
  "blocks_ok lo up L \<longleftrightarrow>
     (\<forall>p m u. L p = Some (m, u) \<longrightarrow> lo \<le> m \<and> m \<le> up \<and> 2 ^ m dvd p \<and> p < 2 ^ up)"

definition blocks_disjoint :: "layout \<Rightarrow> bool" where
  "blocks_disjoint L \<longleftrightarrow>
     (\<forall>p m u q k v. L p = Some (m, u) \<longrightarrow> L q = Some (k, v) \<longrightarrow> p < q \<longrightarrow> p + 2 ^ m \<le> q)"

definition blocks_cover :: "nat \<Rightarrow> layout \<Rightarrow> bool" where
  "blocks_cover up L \<longleftrightarrow> (\<forall>x < 2 ^ up. \<exists>p m u. L p = Some (m, u) \<and> p \<le> x \<and> x < p + 2 ^ m)"

definition wf_layout :: "nat \<Rightarrow> nat \<Rightarrow> layout \<Rightarrow> bool" where
  "wf_layout lo up L \<longleftrightarrow> blocks_ok lo up L \<and> blocks_disjoint L \<and> blocks_cover up L"

definition used_of :: "layout \<Rightarrow> nat \<Rightarrow> nat option" where
  "used_of L p = (case L p of Some (m, True) \<Rightarrow> Some m | _ \<Rightarrow> None)"

definition free_of :: "layout \<Rightarrow> nat \<Rightarrow> nat option" where
  "free_of L p = (case L p of Some (m, False) \<Rightarrow> Some m | _ \<Rightarrow> None)"

definition buddy_of :: "nat \<Rightarrow> nat \<Rightarrow> nat" where
  "buddy_of p m = (if even (p div 2 ^ m) then p + 2 ^ m else p - 2 ^ m)"

lemma free_of_eq_Some [simp]: "free_of L p = Some m \<longleftrightarrow> L p = Some (m, False)"
  by (auto simp: free_of_def split: option.splits bool.splits)

lemma used_of_eq_Some [simp]: "used_of L p = Some m \<longleftrightarrow> L p = Some (m, True)"
  by (auto simp: used_of_def split: option.splits bool.splits)

lemma wf_layoutD:
  assumes "wf_layout lo up L" and "L p = Some (m, u)"
  shows "lo \<le> m" "m \<le> up" "2 ^ m dvd p" "p < 2 ^ up"
  using assms unfolding wf_layout_def blocks_ok_def by blast+

lemma wf_layout_disjoint:
  "\<lbrakk> wf_layout lo up L; L p = Some (m, u); L q = Some (k, v); p < q \<rbrakk> \<Longrightarrow> p + 2 ^ m \<le> q"
  unfolding wf_layout_def blocks_disjoint_def by blast

lemma wf_layout_cover:
  assumes "wf_layout lo up L" and "x < 2 ^ up"
  obtains p m u where "L p = Some (m, u)" "p \<le> x" "x < p + 2 ^ m"
  using assms unfolding wf_layout_def blocks_cover_def by blast

lemma wf_layout_inside:
  assumes "wf_layout lo up L" "L p = Some (m, u)" "p < q" "q < p + 2 ^ m"
  shows "L q = None"
proof (cases "L q")
  case (Some kv)
  then show ?thesis using wf_layout_disjoint[OF assms(1,2), of q "fst kv" "snd kv"] assms(3,4)
    by simp
qed

lemma aligned_end:
  assumes "2 ^ m dvd (p::nat)" "p < 2 ^ up" "m \<le> up"
  shows "p + 2 ^ m \<le> 2 ^ up"
proof -
  from assms(1) obtain k where k: "p = 2 ^ m * k" by (rule dvdE)
  have up: "(2::nat) ^ up = 2 ^ m * 2 ^ (up - m)" using assms(3) by (simp flip: power_add)
  with assms(2) k have "k < 2 ^ (up - m)" by simp
  then have "Suc k \<le> 2 ^ (up - m)" by simp
  then have "2 ^ m * Suc k \<le> 2 ^ m * 2 ^ (up - m)" by (rule mult_le_mono2)
  then show ?thesis by (simp add: k up)
qed

lemma wf_layout_end:
  "\<lbrakk> wf_layout lo up L; L p = Some (m, u) \<rbrakk> \<Longrightarrow> p + 2 ^ m \<le> 2 ^ up"
  by (meson aligned_end wf_layoutD)

section \<open>The moves of the allocator\<close>

lemma wf_layout_mark:
  assumes "wf_layout lo up L" "L p = Some (m, u)"
  shows "wf_layout lo up (L(p \<mapsto> (m, v)))"
proof -
  have "blocks_cover up (L(p \<mapsto> (m, v)))"
    unfolding blocks_cover_def
  proof (intro allI impI)
    fix x :: nat assume "x < 2 ^ up"
    then obtain q k w where q: "L q = Some (k, w)" "q \<le> x" "x < q + 2 ^ k"
      by (rule wf_layout_cover[OF assms(1)])
    then show "\<exists>q k w. (L(p \<mapsto> (m, v))) q = Some (k, w) \<and> q \<le> x \<and> x < q + 2 ^ k"
      using assms(2) by (cases "q = p") auto
  qed
  moreover have "blocks_ok lo up (L(p \<mapsto> (m, v)))"
    using wf_layoutD[OF assms(1)] assms(2) unfolding blocks_ok_def by (simp split: if_splits) blast
  moreover have "blocks_disjoint (L(p \<mapsto> (m, v)))"
    using wf_layout_disjoint[OF assms(1)] assms(2) unfolding blocks_disjoint_def
    by (simp split: if_splits) blast
  ultimately show ?thesis unfolding wf_layout_def by blast
qed

lemma half_pow2: "0 < m \<Longrightarrow> 2 ^ (m - 1) + 2 ^ (m - 1) = (2::nat) ^ m"
  by (cases m) simp_all

lemma wf_layout_split:
  assumes wf: "wf_layout lo up L" and p: "L p = Some (m, u)" and m: "lo < m"
  shows "wf_layout lo up (L(p \<mapsto> (m - 1, v), p + 2 ^ (m - 1) \<mapsto> (m - 1, w)))"
    (is "wf_layout lo up ?L")
proof -
  let ?h = "2 ^ (m - 1) :: nat"
  note pm = wf_layoutD[OF wf p]
  have two: "?h + ?h = 2 ^ m" using m by (intro half_pow2) simp
  have hpos: "0 < ?h" by simp
  have dvd: "?h dvd p" using pm(3) by (metis dvd_trans le_imp_power_dvd diff_le_self)
  have fin: "p + 2 ^ m \<le> 2 ^ up" by (rule wf_layout_end[OF wf p])
  have ends: "p < 2 ^ up" "p + ?h < 2 ^ up" using pm(4) fin two hpos by linarith+
  have "blocks_ok lo up ?L"
    unfolding blocks_ok_def
  proof (intro allI impI)
    fix q k x assume q: "?L q = Some (k, x)"
    show "lo \<le> k \<and> k \<le> up \<and> 2 ^ k dvd q \<and> q < 2 ^ up"
    proof (cases "q = p \<or> q = p + ?h")
      case True
      then have "k = m - 1" using q by (auto split: if_splits)
      then show ?thesis using True m pm(2) dvd ends by auto
    next
      case False
      then show ?thesis using q wf_layoutD[OF wf, of q k x] by simp
    qed
  qed
  moreover have "blocks_disjoint ?L"
    unfolding blocks_disjoint_def
  proof (intro allI impI)
    fix q k x r l y assume a: "?L q = Some (k, x)" "?L r = Some (l, y)" "q < r"
    show "q + 2 ^ k \<le> r"
    proof (cases "q = p \<or> q = p + ?h")
      case True
      then have k: "k = m - 1" using a(1) by (auto split: if_splits)
      show ?thesis
      proof (cases "r = p \<or> r = p + ?h")
        case True
        with \<open>q = p \<or> q = p + ?h\<close> a(3) k show ?thesis by auto
      next
        case False
        then have r: "L r = Some (l, y)" using a(2) by simp
        have "p < r" using True a(3) by auto
        from wf_layout_disjoint[OF wf p r this] True k two show ?thesis by auto
      qed
    next
      case False
      then have q: "L q = Some (k, x)" using a(1) by simp
      show ?thesis
      proof (cases "r = p \<or> r = p + ?h")
        case True
        have "q < p"
        proof (rule ccontr)
          assume "\<not> q < p"
          then have "p < q" using False by simp
          from wf_layout_disjoint[OF wf p q this] True a(3) two show False by auto
        qed
        from wf_layout_disjoint[OF wf q p this] True show ?thesis by auto
      next
        case False
        then have "L r = Some (l, y)" using a(2) by simp
        from wf_layout_disjoint[OF wf q this a(3)] show ?thesis .
      qed
    qed
  qed
  moreover have "blocks_cover up ?L"
    unfolding blocks_cover_def
  proof (intro allI impI)
    fix x :: nat assume "x < 2 ^ up"
    then obtain q k y where q: "L q = Some (k, y)" "q \<le> x" "x < q + 2 ^ k"
      by (rule wf_layout_cover[OF wf])
    show "\<exists>q k y. ?L q = Some (k, y) \<and> q \<le> x \<and> x < q + 2 ^ k"
    proof (cases "q = p")
      case True
      then have "k = m" using q(1) p by simp
      show ?thesis
      proof (cases "x < p + ?h")
        case True
        with q \<open>q = p\<close> have "?L p = Some (m - 1, v) \<and> p \<le> x \<and> x < p + ?h" by simp
        then show ?thesis by blast
      next
        case False
        with q \<open>q = p\<close> \<open>k = m\<close> two
        have "?L (p + ?h) = Some (m - 1, w) \<and> p + ?h \<le> x \<and> x < (p + ?h) + ?h" by simp
        then show ?thesis by blast
      qed
    next
      case False
      moreover have "q \<noteq> p + ?h"
        using wf_layout_inside[OF wf p, of "p + ?h"] q(1) m by auto
      ultimately have "?L q = Some (k, y) \<and> q \<le> x \<and> x < q + 2 ^ k" using q by simp
      then show ?thesis by blast
    qed
  qed
  ultimately show ?thesis unfolding wf_layout_def by blast
qed

lemma wf_layout_merge:
  assumes wf: "wf_layout lo up L" and p: "L p = Some (m, u)" and q: "L (p + 2 ^ m) = Some (m, v)"
    and al: "2 ^ Suc m dvd p" and m: "m < up"
  shows "wf_layout lo up (L(p \<mapsto> (Suc m, w), p + 2 ^ m := None))" (is "wf_layout lo up ?L")
proof -
  let ?q = "p + 2 ^ m"
  note pm = wf_layoutD[OF wf p]
  have qp: "?q \<noteq> p" by simp
  have "blocks_ok lo up ?L"
    unfolding blocks_ok_def
    using al m pm wf_layoutD[OF wf] by (auto split: if_splits)
  moreover have "blocks_disjoint ?L"
    unfolding blocks_disjoint_def
  proof (intro allI impI)
    fix a k x b l y assume ab: "?L a = Some (k, x)" "?L b = Some (l, y)" "a < b"
    show "a + 2 ^ k \<le> b"
    proof (cases "a = p")
      case True
      then have k: "k = Suc m" and b: "L b = Some (l, y)" "b \<noteq> ?q"
        using ab by (auto split: if_splits)
      have "?q \<le> b" using wf_layout_disjoint[OF wf p b(1)] True ab(3) by simp
      then have "?q < b" using b(2) by simp
      from wf_layout_disjoint[OF wf q b(1) this] show ?thesis by (simp add: True k)
    next
      case False
      then have a: "L a = Some (k, x)" using ab(1) by (auto split: if_splits)
      obtain l' y' where "L b = Some (l', y')" using ab(2) p by (auto split: if_splits)
      from wf_layout_disjoint[OF wf a this ab(3)] show ?thesis .
    qed
  qed
  moreover have "blocks_cover up ?L"
    unfolding blocks_cover_def
  proof (intro allI impI)
    fix x :: nat assume "x < 2 ^ up"
    then obtain r k y where r: "L r = Some (k, y)" "r \<le> x" "x < r + 2 ^ k"
      by (rule wf_layout_cover[OF wf])
    show "\<exists>r k y. ?L r = Some (k, y) \<and> r \<le> x \<and> x < r + 2 ^ k"
    proof (cases "r = p \<or> r = ?q")
      case True
      then have "k = m" using r(1) p q by auto
      with True r have "?L p = Some (Suc m, w) \<and> p \<le> x \<and> x < p + 2 ^ Suc m" by auto
      then show ?thesis by blast
    next
      case False
      with r have "?L r = Some (k, y) \<and> r \<le> x \<and> x < r + 2 ^ k" by simp
      then show ?thesis by blast
    qed
  qed
  ultimately show ?thesis unfolding wf_layout_def by blast
qed

section \<open>Buddies\<close>

lemma buddy_of_cases:
  assumes "2 ^ m dvd (p::nat)"
  shows "(2 ^ Suc m dvd p \<and> buddy_of p m = p + 2 ^ m) \<or>
         (2 ^ m \<le> p \<and> 2 ^ Suc m dvd p - 2 ^ m \<and> buddy_of p m = p - 2 ^ m)"
proof -
  from assms obtain k where k: "p = 2 ^ m * k" by (rule dvdE)
  then have d: "p div 2 ^ m = k" by simp
  show ?thesis
  proof (cases "even k")
    case True
    then have "2 ^ Suc m dvd p" using k by (auto elim!: evenE)
    then show ?thesis using True d by (simp add: buddy_of_def)
  next
    case False
    then obtain j where j: "k = 2 * j + 1" by (rule oddE)
    then have "2 ^ m \<le> p" "2 ^ Suc m dvd p - 2 ^ m" using k by (simp_all add: algebra_simps)
    then show ?thesis using False d by (simp add: buddy_of_def)
  qed
qed

lemma buddy_of_buddy_of:
  assumes "2 ^ m dvd (p::nat)" shows "buddy_of (buddy_of p m) m = p"
proof -
  from assms obtain k where k: "p = 2 ^ m * k" by (rule dvdE)
  show ?thesis
  proof (cases "even k")
    case True
    then show ?thesis using k by (simp add: buddy_of_def flip: mult_Suc_right)
  next
    case False
    then obtain j where j: "k = 2 * j + 1" by (rule oddE)
    then have "p - 2 ^ m = 2 ^ m * (2 * j)" using k by (simp add: algebra_simps)
    then show ?thesis using False k j by (simp add: buddy_of_def)
  qed
qed

lemma buddy_of_range:
  assumes "2 ^ m dvd p" "p < 2 ^ up" "m < up"
  shows "buddy_of p m < 2 ^ up" "2 ^ m dvd buddy_of p m" "buddy_of p m \<noteq> p"
proof -
  have "p + 2 ^ Suc m \<le> 2 ^ up" if "2 ^ Suc m dvd p"
    using that assms(2,3) by (intro aligned_end) simp_all
  moreover have "p - 2 ^ m < p" if "2 ^ m \<le> p"
    using that by (intro diff_less) (auto intro: less_le_trans[of 0 "2 ^ m"])
  ultimately show "buddy_of p m < 2 ^ up" "2 ^ m dvd buddy_of p m" "buddy_of p m \<noteq> p"
    using buddy_of_cases[OF assms(1)] assms(1,2) by (auto simp: dvd_diff_nat)
qed

section \<open>Coalescing\<close>

text \<open>No two free blocks are buddies of each other, except possibly the given block and its buddy.\<close>

definition coalesced :: "nat \<Rightarrow> layout \<Rightarrow> bool" where
  "coalesced up L \<longleftrightarrow>
     (\<forall>p m. L p = Some (m, False) \<longrightarrow> m < up \<longrightarrow> L (buddy_of p m) \<noteq> Some (m, False))"

definition coalesced_but :: "nat \<Rightarrow> nat \<Rightarrow> nat \<Rightarrow> layout \<Rightarrow> bool" where
  "coalesced_but up b k L \<longleftrightarrow>
     (\<forall>p m. L p = Some (m, False) \<longrightarrow> m < up \<longrightarrow> L (buddy_of p m) = Some (m, False) \<longrightarrow>
        m = k \<and> (p = b \<or> buddy_of p m = b))"

lemma coalesced_imp_but: "coalesced up L \<Longrightarrow> coalesced_but up b k L"
  by (auto simp: coalesced_def coalesced_but_def)

lemma coalesced_but_split:
  assumes wf: "wf_layout lo up L" and p: "L p = Some (m, False)" and m: "lo < m"
    and co: "coalesced_but up p m L"
  shows "coalesced_but up p (m - 1) (L(p \<mapsto> (m - 1, False), p + 2 ^ (m - 1) \<mapsto> (m - 1, False)))"
    (is "coalesced_but up p (m - 1) ?L")
  unfolding coalesced_but_def
proof (intro allI impI)
  let ?h = "2 ^ (m - 1) :: nat"
  fix q k assume q: "?L q = Some (k, False)" "k < up" "?L (buddy_of q k) = Some (k, False)"
  note pm = wf_layoutD[OF wf p]
  have al: "2 ^ Suc (m - 1) dvd p" using pm(3) m by simp
  then have hd: "?h dvd p" by (metis dvd_trans le_imp_power_dvd le_SucI order_refl)
  have bp: "buddy_of p (m - 1) = p + ?h"
  proof -
    from al obtain j where "p = 2 ^ Suc (m - 1) * j" by (rule dvdE)
    then have "p div ?h = 2 * j" by (simp add: mult.assoc)
    then show ?thesis by (simp add: buddy_of_def)
  qed
  then have bq: "buddy_of (p + ?h) (m - 1) = p"
    using buddy_of_buddy_of[OF hd] by simp
  show "k = m - 1 \<and> (q = p \<or> buddy_of q k = p)"
  proof (cases "q = p \<or> q = p + ?h")
    case True
    then have "k = m - 1" using q(1) by (auto split: if_splits)
    with True bq show ?thesis by auto
  next
    case False
    then have Lq: "L q = Some (k, False)" using q(1) by simp
    have "2 ^ k dvd q" by (rule wf_layoutD(3)[OF wf Lq])
    then have bb: "buddy_of (buddy_of q k) k = q" by (rule buddy_of_buddy_of)
    show ?thesis
    proof (cases "buddy_of q k = p \<or> buddy_of q k = p + ?h")
      case True
      then have "k = m - 1" using q(3) by (auto split: if_splits)
      with True bb bp bq False show ?thesis by metis
    next
      case False
      then have "L (buddy_of q k) = Some (k, False)" using q(3) by simp
      with co Lq q(2) have "k = m \<and> (q = p \<or> buddy_of q k = p)"
        unfolding coalesced_but_def by blast
      with False \<open>\<not> (q = p \<or> q = p + ?h)\<close> show ?thesis by blast
    qed
  qed
qed

lemma coalesced_mark_used:
  assumes wf: "wf_layout lo up L" and co: "coalesced_but up p m L"
  shows "coalesced up (L(p \<mapsto> (m, True)))"
  unfolding coalesced_def
proof (intro allI impI notI)
  fix q k assume "(L(p \<mapsto> (m, True))) q = Some (k, False)" "k < up"
    "(L(p \<mapsto> (m, True))) (buddy_of q k) = Some (k, False)"
  then show False using co unfolding coalesced_but_def by (auto split: if_splits)
qed

lemma coalesced_but_free:
  assumes wf: "wf_layout lo up L" and co: "coalesced up L"
  shows "coalesced_but up p m (L(p \<mapsto> (m, False)))"
  unfolding coalesced_but_def
proof (intro allI impI)
  fix q k
  assume q: "(L(p \<mapsto> (m, False))) q = Some (k, False)" "k < up"
    "(L(p \<mapsto> (m, False))) (buddy_of q k) = Some (k, False)"
  then have "q = p \<or> buddy_of q k = p"
    using co unfolding coalesced_def by (auto split: if_splits)
  moreover from this q have "k = m" by auto
  ultimately show "k = m \<and> (q = p \<or> buddy_of q k = p)" by simp
qed

lemma coalesced_but_done:
  assumes wf: "wf_layout lo up L" and co: "coalesced_but up p m L"
    and d: "m < up \<Longrightarrow> L (buddy_of p m) \<noteq> Some (m, False)"
  shows "coalesced up L"
  unfolding coalesced_def
proof (intro allI impI notI)
  fix q k assume q: "L q = Some (k, False)" "k < up" "L (buddy_of q k) = Some (k, False)"
  then have "k = m" and pq: "q = p \<or> buddy_of q k = p"
    using co unfolding coalesced_but_def by blast+
  have "buddy_of (buddy_of q k) k = q" by (rule buddy_of_buddy_of) (rule wf_layoutD(3)[OF wf q(1)])
  with pq q \<open>k = m\<close> d show False by auto
qed

lemma coalesced_but_merge:
  assumes wf: "wf_layout lo up L" and p: "L p = Some (m, False)" and q: "L q = Some (m, False)"
    and pq: "{b, buddy_of b m} = {p, q}" "p \<noteq> q"
    and co: "coalesced_but up b m L"
  shows "coalesced_but up p (Suc m) (L(p \<mapsto> (Suc m, False), q := None))"
  unfolding coalesced_but_def
proof (intro allI impI)
  let ?L = "L(p \<mapsto> (Suc m, False), q := None)"
  fix r k assume r: "?L r = Some (k, False)" "k < up" "?L (buddy_of r k) = Some (k, False)"
  then have nq: "r \<noteq> q" "buddy_of r k \<noteq> q" by auto
  show "k = Suc m \<and> (r = p \<or> buddy_of r k = p)"
  proof (cases "r = p \<or> buddy_of r k = p")
    case True
    then have "k = Suc m" using r(1,3) pq(2) by (auto split: if_splits)
    with True show ?thesis by simp
  next
    case False
    then have "L r = Some (k, False)" "L (buddy_of r k) = Some (k, False)"
      using r nq by simp_all
    with co r(2) have "r = b \<or> buddy_of r k = b" unfolding coalesced_but_def by blast
    moreover have "b = p \<or> b = q" using pq(1) by blast
    ultimately show ?thesis using False nq by auto
  qed
qed

text \<open>A block that is larger than the buddies and contains one of them contains both.\<close>

lemma buddy_in_larger:
  assumes p: "2 ^ m dvd p" and q: "2 ^ k dvd q" and mk: "m < k"
    and b: "q \<le> buddy_of p m" "buddy_of p m < q + 2 ^ k"
  shows "q \<le> p \<and> p < q + 2 ^ k"
proof -
  have d: "(2::nat) ^ Suc m dvd 2 ^ k" using mk by (intro le_imp_power_dvd) simp
  with q obtain i where i: "q = 2 ^ Suc m * i" by (meson dvdE dvd_trans)
  obtain j where j: "(2::nat) ^ k = 2 ^ Suc m * j" using d by (auto elim: dvdE)
  show ?thesis
    using buddy_of_cases[OF p]
  proof (elim disjE conjE)
    assume a: "2 ^ Suc m dvd p" "buddy_of p m = p + 2 ^ m"
    then obtain l where l: "p = 2 ^ Suc m * l" by (auto elim: dvdE)
    have "2 ^ Suc m * i \<le> 2 ^ Suc m * l + 2 ^ m" using b(1) a l i by simp
    also have "\<dots> < 2 ^ Suc m * Suc l" by simp
    finally have "i < Suc l" by (simp only: mult_less_cancel1)
    then have "q \<le> p" using i l by simp
    then show ?thesis using b(2) a by simp
  next
    assume a: "2 ^ m \<le> p" "2 ^ Suc m dvd p - 2 ^ m" "buddy_of p m = p - 2 ^ m"
    then obtain l where l: "p - 2 ^ m = 2 ^ Suc m * l" by (auto elim: dvdE)
    have "2 ^ Suc m * l < 2 ^ Suc m * (i + j)" using b(2) a l i j by (simp add: algebra_simps)
    then have "l < i + j" by (simp only: mult_less_cancel1)
    then have "2 ^ Suc m * Suc l \<le> 2 ^ Suc m * (i + j)" by (intro mult_le_mono2) simp
    moreover have "p = 2 ^ Suc m * l + 2 ^ m" using l a(1) by simp
    then have "p < 2 ^ Suc m * Suc l" by simp
    ultimately have "p < q + 2 ^ k" by (simp add: i j algebra_simps)
    then show ?thesis using b(1) a by simp
  qed
qed

lemma aligned_same:
  assumes "2 ^ m dvd (q::nat)" "2 ^ m dvd r" "q \<le> r" "r < q + 2 ^ m"
  shows "q = r"
proof -
  obtain i j where ij: "q = 2 ^ m * i" "r = 2 ^ m * j" using assms(1,2) by (auto elim!: dvdE)
  with assms(3,4) have "2 ^ m * i \<le> 2 ^ m * j" "2 ^ m * j < 2 ^ m * Suc i" by simp_all
  then have "i \<le> j" "j < Suc i" by (simp_all only: mult_less_cancel1 mult_le_cancel1)
  with ij show ?thesis by simp
qed

text \<open>When nothing is used, a coalesced layout is the single block that covers everything.\<close>

lemma coalesced_all_free_size:
  assumes wf: "wf_layout lo up L" and co: "coalesced up L"
    and free: "\<And>p m u. L p = Some (m, u) \<Longrightarrow> \<not> u" and Lp: "L p = Some (m, u)"
  shows "m = up"
  using Lp
proof (induction m arbitrary: p u rule: less_induct)
  case (less m)
  show ?case
  proof (rule ccontr)
    assume "m \<noteq> up"
    note pm = wf_layoutD[OF wf less.prems]
    with \<open>m \<noteq> up\<close> have mu: "m < up" by simp
    note b = buddy_of_range[OF pm(3,4) mu]
    obtain q k v where q: "L q = Some (k, v)" "q \<le> buddy_of p m" "buddy_of p m < q + 2 ^ k"
      by (rule wf_layout_cover[OF wf b(1)])
    note qk = wf_layoutD(3)[OF wf q(1)]
    have "\<not> k < m" using less.IH[of k q v] q(1) mu by auto
    then consider (same) "k = m" | (more) "m < k" by linarith
    then show False
    proof cases
      case same
      with qk b(2) q(2,3) have "q = buddy_of p m" by (auto intro: aligned_same[of m])
      with same co less.prems mu q(1) free[OF q(1)] free[OF less.prems] show False
        unfolding coalesced_def by simp
    next
      case more
      then have "q \<le> p \<and> p < q + 2 ^ k" by (rule buddy_in_larger[OF pm(3) qk _ q(2,3)])
      moreover have "p \<noteq> q" using more q(1) less.prems by auto
      ultimately show False
        using wf_layout_inside[OF wf q(1), of p] less.prems by simp
    qed
  qed
qed

lemma coalesced_all_free:
  assumes wf: "wf_layout lo up L" and co: "coalesced up L" and fr: "\<And>p. used_of L p = None"
  shows "L = [0 \<mapsto> (up, False)]"
proof -
  have free: "\<not> u" if "L p = Some (m, u)" for p m u
    using that fr[of p] by (auto simp: used_of_def split: bool.splits)
  have big: "m = up" if "L p = Some (m, u)" for p m u
    by (rule coalesced_all_free_size[OF wf co _ that]) (rule free)
  have at0: "p = 0" if "L p = Some (m, u)" for p m u
    using wf_layoutD(3,4)[OF wf that] big[OF that] by (auto elim!: dvdE)
  obtain p m u where p: "L p = Some (m, u)"
    by (rule wf_layout_cover[OF wf, of 0]) simp
  have "L q = [0 \<mapsto> (up, False)] q" for q
  proof (cases "L q")
    case None
    then show ?thesis using p at0[OF p] by (cases "q = 0") auto
  next
    case (Some kv)
    then obtain a b where "L q = Some (a, b)" by (cases kv) auto
    then show ?thesis using at0[of q a b] big[of q a b] free[of q a b] by simp
  qed
  then show ?thesis by (rule ext)
qed

end
