(* ===== verification/Allocator.thy ===== *)
theory Allocator
  imports RPrelude
begin

text \<open>
  The contract of a memory allocator as the rest of the kernel relies on it: a fresh non-null
  region for every successful request, larger than the request, disjoint from every live
  region; release succeeds for every live region and gives back exactly it. The kernel heap of
  buddy.c provides it (theory \<open>Buddy_Correct\<close>); pipes, file handles and mailboxes use it.
\<close>

locale kallocator =
  fixes alloc :: "'h \<Rightarrow> u32 \<Rightarrow> (u32 \<times> 'h) option"
    and release :: "'h \<Rightarrow> u32 \<Rightarrow> 'h option"
    and live :: "'h \<Rightarrow> u32 \<Rightarrow> nat option"
    and invar :: "'h \<Rightarrow> bool"
  assumes alloc_law: "\<lbrakk> invar h; alloc h n = Some (p, h') \<rbrakk> \<Longrightarrow>
      invar h' \<and> p \<noteq> 0 \<and> live h p = None \<and> (\<exists>k. live h' = (live h)(p \<mapsto> k) \<and> unat n < k)"
    and release_law: "\<lbrakk> invar h; live h p = Some k \<rbrakk> \<Longrightarrow>
      \<exists>h'. release h p = Some h' \<and> invar h' \<and> live h' = (live h)(p := None)"
    and disjoint_law: "\<lbrakk> invar h; live h p = Some k; live h q = Some l; p \<noteq> q \<rbrakk> \<Longrightarrow>
      unat p + k \<le> unat q \<or> unat q + l \<le> unat p"
begin

lemma alloc_invar: "\<lbrakk> invar h; alloc h n = Some (p, h') \<rbrakk> \<Longrightarrow> invar h'"
  using alloc_law by blast

lemma alloc_not_null: "\<lbrakk> invar h; alloc h n = Some (p, h') \<rbrakk> \<Longrightarrow> p \<noteq> 0"
  using alloc_law by blast

lemma alloc_fresh: "\<lbrakk> invar h; alloc h n = Some (p, h') \<rbrakk> \<Longrightarrow> p \<notin> dom (live h)"
  using alloc_law by (metis domIff)

lemma alloc_dom: "\<lbrakk> invar h; alloc h n = Some (p, h') \<rbrakk> \<Longrightarrow> dom (live h') = insert p (dom (live h))"
  using alloc_law by (metis dom_fun_upd option.discI)

lemma release_Some:
  assumes "invar h" "p \<in> dom (live h)"
  shows "\<exists>h'. release h p = Some h' \<and> invar h' \<and> dom (live h') = dom (live h) - {p}"
  using assms release_law by (metis domD dom_fun_upd)

lemma release_dom:
  assumes "invar h" "p \<in> dom (live h)" "release h p = Some h'"
  shows "invar h'" "dom (live h') = dom (live h) - {p}"
  using release_Some[OF assms(1,2)] assms(3) by auto

lemma alloc_release:
  assumes "invar h" "alloc h n = Some (p, h1)"
  shows "\<exists>h2. release h1 p = Some h2 \<and> invar h2 \<and> live h2 = live h"
proof -
  obtain k where k: "live h1 = (live h)(p \<mapsto> k)" "invar h1" "live h p = None"
    using alloc_law[OF assms] by blast
  then obtain h2 where "release h1 p = Some h2" "invar h2" "live h2 = (live h1)(p := None)"
    using release_law[of h1 p k] by auto
  then show ?thesis using k by auto
qed

text \<open>Two successive requests never overlap.\<close>

lemma alloc_twice_disjoint:
  assumes "invar h" "alloc h n = Some (p, h1)" "alloc h1 n' = Some (q, h2)"
  shows "p \<noteq> q \<and> (unat p + unat n < unat q \<or> unat q + unat n' < unat p)"
proof -
  obtain k where k: "live h1 = (live h)(p \<mapsto> k)" "unat n < k" "invar h1"
    using alloc_law[OF assms(1,2)] by blast
  obtain l where l: "live h2 = (live h1)(q \<mapsto> l)" "unat n' < l" "invar h2" "live h1 q = None"
    using alloc_law[OF k(3) assms(3)] by blast
  have pq: "p \<noteq> q" using k l by auto
  have "live h2 p = Some k" "live h2 q = Some l" using k l pq by simp_all
  from disjoint_law[OF l(3) this pq] k l pq show ?thesis by auto
qed

end

text \<open>
  The contract of a source of equal-sized pages: every allocation gives a page that is not live,
  as long as there is room; releasing a live page always succeeds. The page allocator of page.c
  provides it (theory \<open>Page_Correct\<close>).
\<close>

locale page_source =
  fixes alloc :: "'s \<Rightarrow> u32 \<times> 's"
    and release :: "u32 \<Rightarrow> 's \<Rightarrow> 's option"
    and pool :: "'s \<Rightarrow> u32 set \<Rightarrow> bool"
    and room :: "nat \<Rightarrow> 's \<Rightarrow> bool"
  assumes alloc_law: "\<lbrakk> pool s A; room (Suc k) s; alloc s = (p, s') \<rbrakk> \<Longrightarrow>
      p \<notin> A \<and> p \<noteq> 0 \<and> pool s' (insert p A) \<and> room k s'"
    and release_law: "\<lbrakk> pool s A; p \<in> A \<rbrakk> \<Longrightarrow>
      \<exists>s'. release p s = Some s' \<and> pool s' (A - {p}) \<and> (\<forall>k. room k s \<longrightarrow> room k s')"
begin

fun take_pages :: "nat \<Rightarrow> 's \<Rightarrow> u32 list \<times> 's" where
  "take_pages 0 s = ([], s)"
| "take_pages (Suc n) s = (let (p, s1) = alloc s; (ps, s2) = take_pages n s1 in (p # ps, s2))"

fun give_back :: "u32 list \<Rightarrow> 's \<Rightarrow> 's option" where
  "give_back [] s = Some s"
| "give_back (p # ps) s = (case release p s of None \<Rightarrow> None | Some s' \<Rightarrow> give_back ps s')"

lemma take_pages_ok:
  assumes "pool s A" "room n s" "take_pages n s = (ps, s')"
  shows "distinct ps \<and> length ps = n \<and> set ps \<inter> A = {} \<and> pool s' (A \<union> set ps)"
  using assms
proof (induction n arbitrary: s A ps)
  case (Suc n)
  obtain p s1 where p: "alloc s = (p, s1)" by fastforce
  obtain qs where q: "take_pages n s1 = (qs, s')" "ps = p # qs"
    using Suc.prems(3) p by (auto split: prod.splits)
  have l: "p \<notin> A" "pool s1 (insert p A)" "room n s1" using alloc_law[OF Suc.prems(1,2) p] by auto
  show ?case using Suc.IH[OF l(2,3) q(1)] l(1) q(2) by auto
qed simp

lemma give_back_ok:
  assumes "pool s A" "set ps \<subseteq> A" "distinct ps"
  shows "\<exists>s'. give_back ps s = Some s' \<and> pool s' (A - set ps)"
  using assms
proof (induction ps arbitrary: s A)
  case (Cons p ps)
  then obtain s1 where s1: "release p s = Some s1" "pool s1 (A - {p})" using release_law[of s A p] by auto
  have "A - {p} - set ps = A - set (p # ps)" by auto
  then show ?case using Cons.IH[OF s1(2)] s1(1) Cons.prems by auto
qed simp

lemma take_give_back:
  assumes "pool s A" "room n s" "take_pages n s = (ps, s1)" "set qs = set ps" "distinct qs"
  shows "\<exists>s2. give_back qs s1 = Some s2 \<and> pool s2 A"
proof -
  have ps: "set ps \<inter> A = {}" "pool s1 (A \<union> set ps)" using take_pages_ok[OF assms(1-3)] by auto
  then have "(A \<union> set ps) - set qs = A" using assms(4) by auto
  then show ?thesis using give_back_ok[OF ps(2), of qs] assms(4,5) by auto
qed

end

end
