(* ===== verification/Buddy_Correct.thy ===== *)
theory Buddy_Correct
  imports Buddy Buddy_Layout Allocator
begin

text \<open>
  Correctness of the buddy allocator: the block table is abstracted to a layout, the free lists
  to a map from free offsets to exponents, and every operation is shown to return, to keep the
  invariant and to perform its move on the layout.
\<close>

section \<open>Free lists as linked chains\<close>

primrec fl_chain :: "(u32 \<Rightarrow> u32) \<Rightarrow> u32 \<Rightarrow> u32 list \<Rightarrow> bool" where
  "fl_chain h p [] \<longleftrightarrow> p = EMPTY"
| "fl_chain h p (b # bs) \<longleftrightarrow> p = b \<and> b \<noteq> EMPTY \<and> fl_chain h (h b) bs"

lemma fl_chain_upd [simp]: "a \<notin> set xs \<Longrightarrow> fl_chain (h(a := v)) p xs = fl_chain h p xs"
  by (induction xs arbitrary: p) auto

lemma fl_chain_cong: "(\<And>x. x \<in> set xs \<Longrightarrow> h' x = h x) \<Longrightarrow> fl_chain h' p xs = fl_chain h p xs"
  by (induction xs arbitrary: p) auto

lemma fl_chain_EMPTY: "fl_chain h p xs \<Longrightarrow> p = EMPTY \<longleftrightarrow> xs = []"
  by (cases xs) auto

lemma fl_chain_not_EMPTY: "fl_chain h p xs \<Longrightarrow> EMPTY \<notin> set xs"
  by (induction xs arbitrary: p) auto

definition lists_ok :: "(u32 \<Rightarrow> u32) \<Rightarrow> u32 list \<Rightarrow> (u32 \<Rightarrow> nat option) \<Rightarrow> bool" where
  "lists_ok h fl F \<longleftrightarrow> length fl = 32 \<and>
     (\<forall>m < 32. \<exists>xs. fl_chain h (fl ! m) xs \<and> distinct xs \<and> (\<forall>b. b \<in> set xs \<longleftrightarrow> F b = Some m))"

lemma lists_okE:
  assumes "lists_ok h fl F" "m < 32"
  obtains xs where "fl_chain h (fl ! m) xs" "distinct xs" "\<forall>b. b \<in> set xs \<longleftrightarrow> F b = Some m"
  using assms unfolding lists_ok_def by blast

lemma lists_ok_head:
  assumes "lists_ok h fl F" "m < 32"
  shows "fl ! m = EMPTY \<longleftrightarrow> (\<forall>b. F b \<noteq> Some m)"
    and "fl ! m \<noteq> EMPTY \<Longrightarrow> F (fl ! m) = Some m"
proof -
  obtain xs where xs: "fl_chain h (fl ! m) xs" "distinct xs" "\<forall>b. b \<in> set xs \<longleftrightarrow> F b = Some m"
    by (rule lists_okE[OF assms])
  show "fl ! m = EMPTY \<longleftrightarrow> (\<forall>b. F b \<noteq> Some m)"
    using fl_chain_EMPTY[OF xs(1)] xs(3) by (metis list.set_intros(1) neq_Nil_conv empty_iff empty_set)
  show "F (fl ! m) = Some m" if "fl ! m \<noteq> EMPTY"
    using that xs by (cases xs) auto
qed

lemma lists_ok_change:
  assumes ok: "lists_ok h fl F" and m: "m < 32"
    and xs: "fl_chain h (fl ! m) xs" "\<forall>b. b \<in> set xs \<longleftrightarrow> F b = Some m"
    and ys: "fl_chain h' p' ys" "distinct ys" "\<And>b. b \<in> set ys \<longleftrightarrow> F' b = Some m"
    and h': "\<And>x. x \<notin> insert a (set xs) \<Longrightarrow> h' x = h x"
    and a: "F a = None \<or> F a = Some m"
    and F': "\<And>b k. k \<noteq> m \<Longrightarrow> F' b = Some k \<longleftrightarrow> F b = Some k"
  shows "lists_ok h' (fl[m := p']) F'"
  unfolding lists_ok_def
proof (intro conjI allI impI)
  show "length (fl[m := p']) = 32" using ok by (simp add: lists_ok_def)
  fix k :: nat assume k: "k < 32"
  show "\<exists>zs. fl_chain h' (fl[m := p'] ! k) zs \<and> distinct zs \<and> (\<forall>b. b \<in> set zs \<longleftrightarrow> F' b = Some k)"
  proof (cases "k = m")
    case True
    then show ?thesis using ys m ok by (auto simp: lists_ok_def)
  next
    case False
    obtain zs where zs: "fl_chain h (fl ! k) zs" "distinct zs" "\<forall>b. b \<in> set zs \<longleftrightarrow> F b = Some k"
      using k by (rule lists_okE[OF ok])
    have "fl_chain h' (fl ! k) zs = fl_chain h (fl ! k) zs"
    proof (rule fl_chain_cong, rule h')
      fix x assume "x \<in> set zs"
      then have "F x = Some k" using zs by simp
      then show "x \<notin> insert a (set xs)" using xs(2) a False by auto
    qed
    then show ?thesis using zs F' False by auto
  qed
qed

lemma remove_loop_link:
  assumes "fl_chain (heap ma) (heap ma c) xs" "b \<in> set xs" "distinct (c # xs)"
    "\<And>x. x \<in> set (c # xs) \<Longrightarrow> in_heap ma x"
  shows "\<exists>h'. remove_loop ma (FLLink c) b = Some (ma\<lparr>heap := h'\<rparr>) \<and>
     fl_chain h' (h' c) (remove1 b xs) \<and> (\<forall>x. x \<notin> set (c # xs) \<longrightarrow> h' x = heap ma x)"
  using assms
proof (induction xs arbitrary: c)
  case Nil
  then show ?case by simp
next
  case (Cons p bs)
  have p: "heap ma c = p" "p \<noteq> EMPTY" "fl_chain (heap ma) (heap ma p) bs"
    and inh: "in_heap ma c" "in_heap ma p"
    using Cons.prems by simp_all
  show ?case
  proof (cases "p = b")
    case True
    let ?h = "(heap ma)(c := heap ma p)"
    have "remove_loop ma (FLLink c) b = Some (ma\<lparr>heap := ?h\<rparr>)"
      using p inh True
      by (subst remove_loop.simps) (simp add: load_link_def store_link_def)
    moreover have "c \<notin> set bs" using Cons.prems(3) by auto
    then have "fl_chain ?h (?h c) (remove1 b (p # bs))" using p True by simp
    moreover have "\<forall>x. x \<notin> set (c # p # bs) \<longrightarrow> ?h x = heap ma x" by simp
    ultimately show ?thesis by blast
  next
    case False
    have eq: "remove_loop ma (FLLink c) b = remove_loop ma (FLLink p) b"
      using p inh False by (subst remove_loop.simps) (simp add: load_link_def)
    obtain h' where h': "remove_loop ma (FLLink p) b = Some (ma\<lparr>heap := h'\<rparr>)"
      "fl_chain h' (h' p) (remove1 b bs)" "\<forall>x. x \<notin> set (p # bs) \<longrightarrow> h' x = heap ma x"
      using Cons.IH[of p] Cons.prems p(3) False by auto
    moreover have "h' c = p" using h'(3) Cons.prems(3) p(1) by auto
    ultimately show ?thesis using eq False p(2) Cons.prems(3) by (intro exI[of _ h']) auto
  qed
qed

lemma remove_from_freelist_ok:
  assumes ok: "lists_ok (heap ma) (freelist ma) F" and b: "F b = Some m" and m: "m < 32"
    and inh: "\<forall>x k. F x = Some k \<longrightarrow> in_heap ma x"
  shows "\<exists>h' fl'. remove_from_freelist ma m b = Some (ma\<lparr>heap := h', freelist := fl'\<rparr>) \<and>
     lists_ok h' fl' (F(b := None))"
proof -
  obtain xs where xs: "fl_chain (heap ma) (freelist ma ! m) xs" "distinct xs"
    "\<forall>b. b \<in> set xs \<longleftrightarrow> F b = Some m"
    using m by (rule lists_okE[OF ok])
  have len: "length (freelist ma) = 32" using ok by (simp add: lists_ok_def)
  obtain p bs where pbs: "xs = p # bs" using b xs(3) by (cases xs) auto
  have p: "freelist ma ! m = p" "p \<noteq> EMPTY" "fl_chain (heap ma) (heap ma p) bs" "in_heap ma p"
    using xs pbs inh by auto
  have rem: "\<And>c. c \<in> set (remove1 b xs) \<longleftrightarrow> (F(b := None)) c = Some m"
    using xs(2,3) by (auto simp: set_remove1_eq)
  show ?thesis
  proof (cases "p = b")
    case True
    have "remove_from_freelist ma m b = Some (ma\<lparr>heap := heap ma, freelist := (freelist ma)[m := heap ma p]\<rparr>)"
      unfolding remove_from_freelist_def
      using p m len True
      by (subst remove_loop.simps) (simp add: get_freelist_def set_freelist_def load_link_def)
    moreover have "lists_ok (heap ma) ((freelist ma)[m := heap ma p]) (F(b := None))"
      by (rule lists_ok_change[OF ok m xs(1,3), where ys = bs and a = b])
        (use p xs pbs rem True b in auto)
    ultimately show ?thesis by blast
  next
    case False
    then have bbs: "b \<in> set bs" using spec[OF xs(3), of b] pbs b by simp
    have "remove_from_freelist ma m b = remove_loop ma (FLLink p) b"
      unfolding remove_from_freelist_def
      using p m len False by (subst remove_loop.simps) (simp add: get_freelist_def)
    moreover obtain h' where h': "remove_loop ma (FLLink p) b = Some (ma\<lparr>heap := h'\<rparr>)"
      "fl_chain h' (h' p) (remove1 b bs)" "\<forall>x. x \<notin> set (p # bs) \<longrightarrow> h' x = heap ma x"
      using remove_loop_link[OF p(3) bbs] xs pbs inh by auto
    moreover have "lists_ok h' ((freelist ma)[m := p]) (F(b := None))"
      by (rule lists_ok_change[OF ok m xs(1,3), where ys = "remove1 b xs" and a = b])
        (use p xs pbs rem h' False b in auto)
    moreover have "(freelist ma)[m := p] = freelist ma" using p(1) by auto
    ultimately show ?thesis by (intro exI[of _ h'] exI[of _ "freelist ma"]) simp
  qed
qed

lemma add_to_freelist_ok:
  assumes ok: "lists_ok (heap ma) (freelist ma) F" and b: "F b = None" and m: "m < 32"
    and up: "upper ma \<le> 30" "unat b + 2 ^ m \<le> 2 ^ upper ma" "2 \<le> m"
  shows "\<exists>h' fl'. add_to_freelist ma m b = Some (ma\<lparr>heap := h', freelist := fl'\<rparr>) \<and>
     lists_ok h' fl' (F(b \<mapsto> m)) \<and> fl' ! m = b"
proof -
  obtain xs where xs: "fl_chain (heap ma) (freelist ma ! m) xs" "distinct xs"
    "\<forall>b. b \<in> set xs \<longleftrightarrow> F b = Some m"
    using m by (rule lists_okE[OF ok])
  have len: "length (freelist ma) = 32" using ok by (simp add: lists_ok_def)
  have small: "(2::nat) ^ upper ma \<le> 2 ^ 30" using up(1) by (intro power_increasing) simp_all
  have four: "(4::nat) \<le> 2 ^ m" using power_increasing[OF up(3), of "2::nat"] by simp
  have lt: "unat b + 2 ^ m < 2 ^ 32" using up(2) small by (simp add: order_le_less_trans)
  then have nE: "b \<noteq> EMPTY" using four by (auto simp: EMPTY_def)
  have "unat (b + 2 ^ m) = unat b + 2 ^ m"
    using lt m by (simp add: unat_word_ariths)
  then have le: "b + 2 ^ m \<le> (2 :: u32) ^ upper ma" using up by (simp add: word_le_nat_alt)
  have inh: "in_heap ma b" using up(2) four by (simp add: in_heap_def)
  let ?h = "(heap ma)(b := freelist ma ! m)"
  have "add_to_freelist ma m b = Some (ma\<lparr>heap := ?h, freelist := (freelist ma)[m := b]\<rparr>)"
    using le inh m len
    by (simp add: add_to_freelist_def get_freelist_def set_freelist_def store_link_def)
  moreover have bxs: "b \<notin> set xs" using xs(3) b by simp
  moreover have "lists_ok ?h ((freelist ma)[m := b]) (F(b \<mapsto> m))"
    by (rule lists_ok_change[OF ok m xs(1,3), where ys = "b # xs" and a = b])
      (use xs nE bxs b in auto)
  ultimately show ?thesis using m len by (intro exI[of _ ?h] exI[of _ "(freelist ma)[m := b]"]) simp
qed

section \<open>The block table as a layout\<close>

definition slot :: "memarea \<Rightarrow> nat \<Rightarrow> blockinfo" where
  "slot ma p = blocks ma ! (p div 2 ^ lower ma)"

definition unit_offset :: "memarea \<Rightarrow> nat \<Rightarrow> bool" where
  "unit_offset ma p \<longleftrightarrow> 2 ^ lower ma dvd p \<and> p < 2 ^ upper ma"

definition layout_of :: "memarea \<Rightarrow> layout" where
  "layout_of ma p =
     (if unit_offset ma p \<and> sizem (slot ma p) \<noteq> 0 then Some (sizem (slot ma p), used (slot ma p))
      else None)"

definition area_ok :: "memarea \<Rightarrow> bool" where
  "area_ok ma \<longleftrightarrow> 2 \<le> lower ma \<and> lower ma \<le> upper ma \<and> upper ma \<le> 30 \<and>
     length (blocks ma) = 2 ^ (upper ma - lower ma) \<and>
     (\<forall>bi \<in> set (blocks ma). sizem bi = 0 \<longrightarrow> \<not> used bi) \<and>
     0 < unat (mem ma) \<and> unat (mem ma) + 2 ^ upper ma < 2 ^ 32"

lemma area_okD:
  assumes "area_ok ma"
  shows "2 \<le> lower ma" "lower ma \<le> upper ma" "upper ma \<le> 30"
    "length (blocks ma) = 2 ^ (upper ma - lower ma)"
    "0 < unat (mem ma)" "unat (mem ma) + 2 ^ upper ma < 2 ^ 32"
  using assms by (simp_all add: area_ok_def)

lemma unit_index:
  assumes "area_ok ma" "p < 2 ^ upper ma"
  shows "p div 2 ^ lower ma < length (blocks ma)"
proof -
  have "p < 2 ^ (upper ma - lower ma) * 2 ^ lower ma"
    using assms area_okD(2)[OF assms(1)] by (simp flip: power_add)
  then show ?thesis using area_okD(4)[OF assms(1)] by (simp add: less_mult_imp_div_less)
qed

lemma unit_index_inj:
  assumes "unit_offset ma p" "unit_offset ma q" "p div 2 ^ lower ma = q div 2 ^ lower ma"
  shows "p = q"
  using assms by (metis dvd_div_eq_iff unit_offset_def)

definition flag_at :: "layout \<Rightarrow> nat \<Rightarrow> bool" where
  "flag_at L p = (case L p of Some (m, u) \<Rightarrow> u | None \<Rightarrow> False)"

definition size_at :: "layout \<Rightarrow> nat \<Rightarrow> nat" where
  "size_at L p = (case L p of Some (m, u) \<Rightarrow> m | None \<Rightarrow> 0)"

lemma size_flag_simps [simp]:
  "L p = Some (m, u) \<Longrightarrow> size_at L p = m" "L p = Some (m, u) \<Longrightarrow> flag_at L p = u"
  "L p = None \<Longrightarrow> size_at L p = 0" "L p = None \<Longrightarrow> flag_at L p = False"
  by (simp_all add: size_at_def flag_at_def)

lemma slot_eq:
  assumes "area_ok ma" "unit_offset ma p"
  shows "sizem (slot ma p) = size_at (layout_of ma) p" "used (slot ma p) = flag_at (layout_of ma) p"
proof -
  have "slot ma p \<in> set (blocks ma)"
    using unit_index[OF assms(1)] assms(2) by (simp add: slot_def unit_offset_def)
  then have "sizem (slot ma p) = 0 \<longrightarrow> \<not> used (slot ma p)"
    using assms(1) unfolding area_ok_def by blast
  then show "sizem (slot ma p) = size_at (layout_of ma) p" "used (slot ma p) = flag_at (layout_of ma) p"
    using assms(2) by (simp_all add: layout_of_def size_at_def flag_at_def)
qed

lemma get_sizem_ok:
  assumes "area_ok ma" "unit_offset ma (unat b)"
  shows "get_sizem ma b = Some (size_at (layout_of ma) (unat b))"
  using unit_index[OF assms(1)] assms slot_eq[OF assms]
  by (simp add: get_sizem_def block_index_def unit_offset_def slot_def)

lemma is_used_ok:
  assumes "area_ok ma" "unit_offset ma (unat b)"
  shows "is_used ma b = Some (flag_at (layout_of ma) (unat b))"
  using unit_index[OF assms(1)] assms slot_eq[OF assms]
  by (simp add: is_used_def block_index_def unit_offset_def slot_def)

lemma layout_upd:
  assumes "area_ok ma" "unit_offset ma p"
  shows "layout_of (ma\<lparr>blocks := (blocks ma)[p div 2 ^ lower ma := bi]\<rparr>) =
     (layout_of ma)(p := if sizem bi = 0 then None else Some (sizem bi, used bi))"
proof
  fix q
  let ?ma = "ma\<lparr>blocks := (blocks ma)[p div 2 ^ lower ma := bi]\<rparr>"
  have s: "slot ?ma q = (if p div 2 ^ lower ma = q div 2 ^ lower ma then bi else slot ma q)"
    if "unit_offset ma q"
    using unit_index[OF assms(1)] assms(2)
    by (auto simp: slot_def unit_offset_def nth_list_update)
  have u: "unit_offset ?ma q = unit_offset ma q" by (simp add: unit_offset_def)
  show "layout_of ?ma q =
    ((layout_of ma)(p := if sizem bi = 0 then None else Some (sizem bi, used bi))) q"
  proof (cases "unit_offset ma q")
    case True
    show ?thesis
    proof (cases "p = q")
      case False
      then have "p div 2 ^ lower ma \<noteq> q div 2 ^ lower ma"
        using unit_index_inj[OF assms(2) True] by blast
      then show ?thesis using s[OF True] u False by (simp add: layout_of_def)
    qed (use s[OF True] u True in \<open>simp add: layout_of_def\<close>)
  next
    case False
    then have "q \<noteq> p" using assms(2) by blast
    then show ?thesis using False u by (simp add: layout_of_def)
  qed
qed

lemma area_ok_upd:
  assumes "area_ok ma" "sizem bi = 0 \<longrightarrow> \<not> used bi"
  shows "area_ok (ma\<lparr>blocks := (blocks ma)[i := bi]\<rparr>)"
  using assms set_update_subset_insert[of "blocks ma" i bi] by (auto simp: area_ok_def)

lemma set_sizem_ok:
  assumes ok: "area_ok ma" "unit_offset ma (unat b)" and s: "s < 128"
    and z: "s = 0 \<Longrightarrow> \<not> flag_at (layout_of ma) (unat b)"
  shows "\<exists>bs. set_sizem ma b s = Some (ma\<lparr>blocks := bs\<rparr>) \<and> area_ok (ma\<lparr>blocks := bs\<rparr>) \<and>
     layout_of (ma\<lparr>blocks := bs\<rparr>) = (layout_of ma)(unat b :=
       if s = 0 then None else Some (s, flag_at (layout_of ma) (unat b)))"
proof -
  let ?bi = "(slot ma (unat b))\<lparr>sizem := s\<rparr>"
  let ?bs = "(blocks ma)[unat b div 2 ^ lower ma := ?bi]"
  have "set_sizem ma b s = Some (ma\<lparr>blocks := ?bs\<rparr>)"
    using unit_index[OF ok(1)] ok(2) s
    by (simp add: set_sizem_def block_index_def slot_def unit_offset_def)
  moreover have "area_ok (ma\<lparr>blocks := ?bs\<rparr>)"
    using z slot_eq(2)[OF ok] by (intro area_ok_upd[OF ok(1)]) simp
  moreover note layout_upd[OF ok, of ?bi]
  ultimately show ?thesis using slot_eq(2)[OF ok] by (intro exI[of _ ?bs]) simp
qed

lemma set_used_ok:
  assumes ok: "area_ok ma" "unit_offset ma (unat b)" and L: "layout_of ma (unat b) = Some (m, u)"
  shows "\<exists>bs. set_used ma b v = Some (ma\<lparr>blocks := bs\<rparr>) \<and> area_ok (ma\<lparr>blocks := bs\<rparr>) \<and>
     layout_of (ma\<lparr>blocks := bs\<rparr>) = (layout_of ma)(unat b \<mapsto> (m, v))"
proof -
  let ?bi = "(slot ma (unat b))\<lparr>used := v\<rparr>"
  let ?bs = "(blocks ma)[unat b div 2 ^ lower ma := ?bi]"
  have m: "sizem (slot ma (unat b)) = m" "m \<noteq> 0"
    using L by (auto simp: layout_of_def split: if_splits)
  have "set_used ma b v = Some (ma\<lparr>blocks := ?bs\<rparr>)"
    using unit_index[OF ok(1)] ok(2)
    by (simp add: set_used_def block_index_def slot_def unit_offset_def)
  moreover have "area_ok (ma\<lparr>blocks := ?bs\<rparr>)"
    using m by (intro area_ok_upd[OF ok(1)]) simp
  moreover note layout_upd[OF ok, of ?bi]
  ultimately show ?thesis using m by (intro exI[of _ ?bs]) simp
qed

lemma layout_of_frame [simp]:
  "layout_of (ma\<lparr>heap := h\<rparr>) = layout_of ma"
  "layout_of (ma\<lparr>freelist := fl\<rparr>) = layout_of ma"
  "area_ok (ma\<lparr>heap := h\<rparr>) = area_ok ma"
  "area_ok (ma\<lparr>freelist := fl\<rparr>) = area_ok ma"
  "layout_of (ma\<lparr>heap := h, blocks := bs\<rparr>) = layout_of (ma\<lparr>blocks := bs\<rparr>)"
  "layout_of (ma\<lparr>freelist := fl, blocks := bs\<rparr>) = layout_of (ma\<lparr>blocks := bs\<rparr>)"
  "area_ok (ma\<lparr>heap := h, blocks := bs\<rparr>) = area_ok (ma\<lparr>blocks := bs\<rparr>)"
  "area_ok (ma\<lparr>freelist := fl, blocks := bs\<rparr>) = area_ok (ma\<lparr>blocks := bs\<rparr>)"
  "unit_offset (ma\<lparr>heap := h\<rparr>) p = unit_offset ma p"
  "unit_offset (ma\<lparr>freelist := fl\<rparr>) p = unit_offset ma p"
  "unit_offset (ma\<lparr>blocks := bs\<rparr>) p = unit_offset ma p"
  by (simp_all add: layout_of_def area_ok_def unit_offset_def slot_def fun_eq_iff)

section \<open>The invariant\<close>

definition free_map :: "layout \<Rightarrow> u32 \<Rightarrow> nat option" where
  "free_map L b = free_of L (unat b)"

definition buddy_inv :: "memarea \<Rightarrow> bool" where
  "buddy_inv ma \<longleftrightarrow> area_ok ma \<and> wf_layout (lower ma) (upper ma) (layout_of ma) \<and>
     lists_ok (heap ma) (freelist ma) (free_map (layout_of ma))"

lemma free_map_eq_Some [simp]: "free_map L b = Some m \<longleftrightarrow> L (unat b) = Some (m, False)"
  by (simp add: free_map_def)

lemma free_map_upd: "free_map (L(unat b := x)) = (free_map L)(b := (case x of Some (m, False) \<Rightarrow> Some m | _ \<Rightarrow> None))"
  by (rule ext) (auto simp: free_map_def free_of_def word_unat_eq_iff split: option.splits bool.splits)

lemma block_unit:
  assumes "wf_layout (lower ma) (upper ma) (layout_of ma)" "layout_of ma p = Some (m, u)"
  shows "unit_offset ma p"
  using assms(2) by (auto simp: layout_of_def split: if_splits)

lemma block_in_heap:
  assumes "area_ok ma" "wf_layout (lower ma) (upper ma) (layout_of ma)"
    "layout_of ma (unat b) = Some (m, u)"
  shows "in_heap ma b"
proof -
  have "(4::nat) \<le> 2 ^ lower ma" using power_increasing[OF area_okD(1)[OF assms(1)], of "2::nat"] by simp
  also have "\<dots> \<le> 2 ^ m" using wf_layoutD(1)[OF assms(2,3)] by (intro power_increasing) simp_all
  finally show ?thesis using wf_layout_end[OF assms(2,3)] by (simp add: in_heap_def)
qed

definition same_area :: "memarea \<Rightarrow> memarea \<Rightarrow> bool" where
  "same_area ma ma' \<longleftrightarrow> lower ma' = lower ma \<and> upper ma' = upper ma \<and> mem ma' = mem ma"

lemma same_area_simps [simp]:
  "same_area ma ma"
  "same_area ma (ma'\<lparr>blocks := bs\<rparr>) = same_area ma ma'"
  "same_area ma (ma'\<lparr>heap := h\<rparr>) = same_area ma ma'"
  "same_area ma (ma'\<lparr>freelist := fl\<rparr>) = same_area ma ma'"
  by (simp_all add: same_area_def)

lemma same_area_trans: "same_area a b \<Longrightarrow> same_area b c \<Longrightarrow> same_area a c"
  by (simp add: same_area_def)

lemma buddy_invD:
  assumes "buddy_inv ma"
  shows "area_ok ma" "wf_layout (lower ma) (upper ma) (layout_of ma)"
    "lists_ok (heap ma) (freelist ma) (free_map (layout_of ma))"
  using assms by (simp_all add: buddy_inv_def)

lemma layout_size_bound:
  assumes "area_ok ma" "wf_layout (lower ma) (upper ma) (layout_of ma)" "layout_of ma p = Some (m, u)"
  shows "m < 32" "m < 128" "2 \<le> m" "m \<noteq> 0"
  using area_okD[OF assms(1)] wf_layoutD[OF assms(2,3)] by auto

section \<open>Splitting\<close>

lemma split_block_ok:
  assumes inv: "buddy_inv ma" and fl: "freelist ma ! cm \<noteq> EMPTY" and cm: "lower ma < cm" "cm \<le> upper ma"
  defines "b \<equiv> freelist ma ! cm"
  shows "\<exists>ma'. split_block ma cm = Some ma' \<and> buddy_inv ma' \<and> same_area ma ma' \<and>
     layout_of ma (unat b) = Some (cm, False) \<and>
     layout_of ma' = (layout_of ma)(unat b \<mapsto> (cm - 1, False), unat b + 2 ^ (cm - 1) \<mapsto> (cm - 1, False)) \<and>
     freelist ma' ! (cm - 1) = b"
proof -
  note inv' = buddy_invD[OF inv] and ao = area_okD[OF buddy_invD(1)[OF inv]]
  let ?L = "layout_of ma" and ?F = "free_map (layout_of ma)" and ?k = "cm - 1"
  have cm32: "cm < 32" "?k < 32" "?k < 128" "?k \<noteq> 0" "2 \<le> ?k" using ao cm by auto
  have Lb: "?L (unat b) = Some (cm, False)"
    using lists_ok_head(2)[OF inv'(3) cm32(1)] fl by (simp add: b_def)
  note blk = wf_layoutD[OF inv'(2) Lb]
  have bend: "unat b + 2 ^ cm \<le> 2 ^ upper ma" by (rule wf_layout_end[OF inv'(2) Lb])
  have two: "2 ^ ?k + 2 ^ ?k = (2::nat) ^ cm" using cm by (intro half_pow2) simp
  define c where "c = b + 2 ^ ?k"
  have uc: "unat c = unat b + 2 ^ ?k"
  proof -
    have "(2::nat) ^ upper ma \<le> 2 ^ 30" using ao(3) by (intro power_increasing) simp_all
    then have "unat b + 2 ^ ?k < 2 ^ 32" using bend two by simp
    then show ?thesis using cm32 by (simp add: c_def unat_word_ariths)
  qed
  have ub: "unit_offset ma (unat b)" by (rule block_unit[OF inv'(2) Lb])
  have "(2::nat) ^ lower ma dvd 2 ^ ?k" using cm(1) by (intro le_imp_power_dvd) simp
  then have uco: "unit_offset ma (unat c)"
    using ub bend two uc by (auto simp: unit_offset_def)
  have Lc: "?L (unat c) = None" using uc cm(1) by (intro wf_layout_inside[OF inv'(2) Lb]) simp_all
  have inh: "\<forall>x k. ?F x = Some k \<longrightarrow> in_heap ma x" by (auto intro: block_in_heap[OF inv'(1,2)])
  obtain h1 fl1 where r1: "remove_from_freelist ma cm b = Some (ma\<lparr>heap := h1, freelist := fl1\<rparr>)"
    and l1: "lists_ok h1 fl1 (?F(b := None))"
    using remove_from_freelist_ok[OF inv'(3) _ cm32(1) inh, of b] Lb by auto
  let ?m1 = "ma\<lparr>heap := h1, freelist := fl1\<rparr>"
  obtain b2 where r2: "set_sizem ?m1 b ?k = Some (?m1\<lparr>blocks := b2\<rparr>)"
    and o2: "area_ok (ma\<lparr>blocks := b2\<rparr>)" and L2: "layout_of (ma\<lparr>blocks := b2\<rparr>) = ?L(unat b \<mapsto> (?k, False))"
    using set_sizem_ok[of ?m1 b ?k] inv'(1) ub cm32 Lb by auto
  let ?m2 = "?m1\<lparr>blocks := b2\<rparr>"
  let ?L3 = "?L(unat b \<mapsto> (?k, False), unat c \<mapsto> (?k, False))"
  obtain b3 where r3: "set_sizem ?m2 c ?k = Some (?m2\<lparr>blocks := b3\<rparr>)"
    and o3: "area_ok (ma\<lparr>blocks := b3\<rparr>)" and L3: "layout_of (ma\<lparr>blocks := b3\<rparr>) = ?L3"
    using set_sizem_ok[of ?m2 c ?k] o2 uco cm32 Lc uc by (auto simp: L2 flag_at_def)
  let ?m3 = "?m2\<lparr>blocks := b3\<rparr>"
  have Fc: "(?F(b := None)) c = None" by (simp add: free_map_def free_of_def Lc)
  obtain h4 fl4 where r4: "add_to_freelist ?m3 ?k c = Some (?m3\<lparr>heap := h4, freelist := fl4\<rparr>)"
    and l4: "lists_ok h4 fl4 (?F(b := None, c \<mapsto> ?k))"
    using add_to_freelist_ok[of ?m3 "?F(b := None)" c ?k] l1 cm32 ao(3) Fc uc bend two by auto
  let ?m4 = "?m3\<lparr>heap := h4, freelist := fl4\<rparr>"
  have "b \<noteq> c" using uc by auto
  obtain h5 fl5 where r5: "add_to_freelist ?m4 ?k b = Some (?m4\<lparr>heap := h5, freelist := fl5\<rparr>)"
    and l5: "lists_ok h5 fl5 (?F(b := None, c \<mapsto> ?k, b \<mapsto> ?k))" "fl5 ! ?k = b"
    using add_to_freelist_ok[of ?m4 "?F(b := None, c \<mapsto> ?k)" b ?k] l4 cm32 ao(3) bend two \<open>b \<noteq> c\<close> by auto
  let ?m5 = "?m4\<lparr>heap := h5, freelist := fl5\<rparr>"
  have F5: "?F(b := None, c \<mapsto> ?k, b \<mapsto> ?k) = free_map ?L3"
    using \<open>b \<noteq> c\<close> by (simp add: free_map_upd fun_upd_twist)
  have L5: "layout_of ?m5 = ?L3" using L3 by simp
  have len: "length (freelist ma) = 32" using inv'(3) by (simp add: lists_ok_def)
  have cb: "b + 2 ^ (cm - Suc 0) = c" by (simp add: c_def)
  have "split_block ma cm = Some ?m5"
    using cm32 inv'(1) len ub uco Lb o3 L3 r1 r2 r3 r4 r5 uc cb
    by (simp add: split_block_def get_freelist_def is_used_ok get_sizem_ok b_def[symmetric]
        flag_at_def Let_def)
  moreover have "wf_layout (lower ma) (upper ma) ?L3"
    using wf_layout_split[OF inv'(2) Lb cm(1)] by (simp add: uc)
  then have "buddy_inv ?m5" using o3 l5(1) L5 F5 by (simp add: buddy_inv_def)
  ultimately show ?thesis using Lb L5 uc l5(2) by (intro exI[of _ ?m5]) simp
qed

definition buddy_ok :: "memarea \<Rightarrow> bool" where
  "buddy_ok ma \<longleftrightarrow> buddy_inv ma \<and> coalesced (upper ma) (layout_of ma)"

lemma used_of_split:
  assumes "wf_layout lo up L" "L p = Some (m, False)" "lo < m"
  shows "used_of (L(p \<mapsto> (m - 1, False), p + 2 ^ (m - 1) \<mapsto> (m - 1, False))) = used_of L"
proof
  fix q
  have "L (p + 2 ^ (m - 1)) = None"
    using assms(3) by (intro wf_layout_inside[OF assms(1,2)]) simp_all
  then show "used_of (L(p \<mapsto> (m - 1, False), p + 2 ^ (m - 1) \<mapsto> (m - 1, False))) q = used_of L q"
    using assms(2) by (simp add: used_of_def)
qed

lemma split_loop_ok:
  assumes "buddy_inv ma" "freelist ma ! cm \<noteq> EMPTY" "lower ma \<le> m" "m \<le> cm" "cm \<le> upper ma"
    "coalesced_but (upper ma) (unat (freelist ma ! cm)) cm (layout_of ma)"
  shows "\<exists>ma'. split_loop ma cm m = Some ma' \<and> buddy_inv ma' \<and> same_area ma ma' \<and>
     freelist ma' ! m \<noteq> EMPTY \<and> used_of (layout_of ma') = used_of (layout_of ma) \<and>
     coalesced_but (upper ma) (unat (freelist ma' ! m)) m (layout_of ma')"
  using assms
proof (induction cm arbitrary: ma)
  case 0
  then show ?case by (subst split_loop.simps) simp
next
  case (Suc k)
  show ?case
  proof (cases "m = Suc k")
    case True
    then show ?thesis using Suc.prems by (subst split_loop.simps) simp
  next
    case False
    then have mk: "m \<le> k" "lower ma < Suc k" using Suc.prems by auto
    let ?b = "freelist ma ! Suc k"
    obtain ma1 where s1: "split_block ma (Suc k) = Some ma1" "buddy_inv ma1" "same_area ma ma1"
      and Lb: "layout_of ma (unat ?b) = Some (Suc k, False)"
      and L1: "layout_of ma1 = (layout_of ma)(unat ?b \<mapsto> (k, False), unat ?b + 2 ^ k \<mapsto> (k, False))"
      and fl1: "freelist ma1 ! k = ?b"
      using split_block_ok[OF Suc.prems(1,2) mk(2) Suc.prems(5)] by auto
    note wf = buddy_invD(2)[OF Suc.prems(1)]
    have "coalesced_but (upper ma) (unat ?b) k (layout_of ma1)"
      using coalesced_but_split[OF wf Lb mk(2) Suc.prems(6)] by (simp add: L1)
    then obtain ma' where "split_loop ma1 k m = Some ma'" "buddy_inv ma'" "same_area ma1 ma'"
      "freelist ma' ! m \<noteq> EMPTY" "used_of (layout_of ma') = used_of (layout_of ma1)"
      "coalesced_but (upper ma) (unat (freelist ma' ! m)) m (layout_of ma')"
      using Suc.IH[OF s1(2)] s1(3) fl1 Suc.prems mk by (auto simp: same_area_def)
    moreover have "used_of (layout_of ma1) = used_of (layout_of ma)"
      using used_of_split[OF wf Lb mk(2)] by (simp add: L1)
    moreover have "split_loop ma (Suc k) m = split_loop ma1 k m"
      using s1(1) mk(1) by (subst split_loop.simps) simp
    ultimately show ?thesis using s1(3) by (auto intro: same_area_trans)
  qed
qed

section \<open>Choosing a size\<close>

lemma mforsize_loop_ok:
  assumes "unat n < 2 ^ 31" "k \<le> 31"
  shows "\<exists>m. mforsize_loop n (2 ^ k) k = Some m \<and> k \<le> m \<and> m \<le> 31 \<and> unat n < 2 ^ m \<and>
     (m = k \<or> 2 ^ (m - 1) \<le> unat n)"
  using assms
proof (induction "31 - k" arbitrary: k)
  case 0
  then have "k = 31" by simp
  then have "\<not> (2 ^ k \<le> n)" using 0 by (simp add: word_le_nat_alt)
  then show ?case using 0 \<open>k = 31\<close> by (subst mforsize_loop.simps) simp
next
  case (Suc d)
  show ?case
  proof (cases "2 ^ k \<le> n")
    case True
    have eq: "mforsize_loop n (2 ^ k) k = mforsize_loop n (2 ^ Suc k) (Suc k)"
      using True by (subst mforsize_loop.simps) (simp add: mult.commute)
    have n: "2 ^ k \<le> unat n" using True Suc.hyps(2) by (simp add: word_le_nat_alt)
    have d: "d = 31 - Suc k" "Suc k \<le> 31" using Suc.hyps(2) by auto
    obtain m where m: "mforsize_loop n (2 ^ Suc k) (Suc k) = Some m" "Suc k \<le> m" "m \<le> 31"
      "unat n < 2 ^ m" "m = Suc k \<or> 2 ^ (m - 1) \<le> unat n"
      using Suc.hyps(1)[of "Suc k"] d Suc.prems by auto
    have "2 ^ (m - 1) \<le> unat n" using m(5) n by auto
    then show ?thesis using eq m by auto
  next
    case False
    then have "unat n < 2 ^ k" using Suc.hyps(2) by (simp add: word_le_nat_alt)
    then show ?thesis using False Suc.prems by (subst mforsize_loop.simps) simp
  qed
qed

lemma mforsize_ok:
  assumes "unat n < 2 ^ 31" "area_ok ma"
  shows "\<exists>m. mforsize ma n = Some m \<and> lower ma \<le> m \<and> m \<le> 31 \<and> unat n < 2 ^ m \<and>
     (m = lower ma \<or> 2 ^ (m - 1) \<le> unat n)"
proof -
  obtain k where k: "mforsize_loop n 1 0 = Some k" "k \<le> 31" "unat n < 2 ^ k" "k = 0 \<or> 2 ^ (k - 1) \<le> unat n"
    using mforsize_loop_ok[OF assms(1), of 0] by auto
  show ?thesis
  proof (cases "lower ma \<le> k")
    case True
    then show ?thesis using k area_okD(1)[OF assms(2)] by (auto simp: mforsize_def)
  next
    case False
    then have "(2::nat) ^ k \<le> 2 ^ lower ma" by (intro power_increasing) simp_all
    then have "unat n < 2 ^ lower ma" using k(3) by (rule order_less_le_trans[rotated])
    then show ?thesis using False k area_okD(2,3)[OF assms(2)] by (auto simp: mforsize_def)
  qed
qed

lemma pow2_word_le:
  assumes "2 ^ 31 \<le> unat (n::u32)" shows "(2::u32) ^ j \<le> n"
proof (cases "j < 32")
  case True
  then have "(2::nat) ^ j \<le> 2 ^ 31" by (intro power_increasing) simp_all
  then show ?thesis using assms True by (simp add: word_le_nat_alt)
next
  case False
  then have "(2::u32) ^ j = 0" by simp
  then show ?thesis by (metis word_zero_le)
qed

lemma mforsize_loop_returns:
  assumes "mforsize_loop n p m = Some r" shows "\<exists>j. n < p * 2 ^ j"
proof (rule mforsize_loop.raw_induct[where P = "\<lambda>n p m r. \<exists>j. n < p * 2 ^ j", OF _ assms])
  fix f :: "u32 \<Rightarrow> u32 \<Rightarrow> nat \<Rightarrow> nat option" and n p :: u32 and m r :: nat
  assume IH: "\<And>n p m r. f n p m = Some r \<Longrightarrow> \<exists>j. n < p * 2 ^ j"
    and eq: "(if p \<le> n then f n (p * 2) (Suc m) else Some m) = Some r"
  show "\<exists>j. n < p * 2 ^ j"
  proof (cases "p \<le> n")
    case True
    then obtain j where "n < p * 2 * 2 ^ j" using IH eq by fastforce
    then have "n < p * 2 ^ Suc j" by (simp add: mult.assoc)
    then show ?thesis by blast
  next
    case False
    then have "n < p * 2 ^ 0" by simp
    then show ?thesis by blast
  qed
qed

lemma mforsize_diverges:
  assumes "2 ^ 31 \<le> unat n" shows "mforsize ma n = None"
proof (cases "mforsize_loop n 1 0")
  case (Some r)
  then obtain j where "n < 1 * 2 ^ j" using mforsize_loop_returns by blast
  then show ?thesis using pow2_word_le[OF assms, of j] by simp
qed (simp add: mforsize_def)

lemma find_larger_ok:
  assumes "length (freelist ma) = 32" "upper ma < 32"
  shows "\<exists>cm. find_larger ma k = Some cm \<and> k \<le> cm \<and>
     (\<forall>j. k \<le> j \<and> j < cm \<and> j \<le> upper ma \<longrightarrow> freelist ma ! j = EMPTY) \<and>
     (cm \<le> upper ma \<longrightarrow> freelist ma ! cm \<noteq> EMPTY)"
proof (induction "Suc (upper ma) - k" arbitrary: k)
  case 0
  then show ?case by (subst find_larger.simps) auto
next
  case (Suc d)
  then have k: "k \<le> upper ma" "get_freelist ma k = Some (freelist ma ! k)"
    using assms by (auto simp: get_freelist_def)
  show ?case
  proof (cases "freelist ma ! k = EMPTY")
    case True
    have eq: "find_larger ma k = find_larger ma (Suc k)"
      using True k by (subst find_larger.simps) simp
    have "d = Suc (upper ma) - Suc k" using Suc.hyps(2) by simp
    then obtain cm where cm: "find_larger ma (Suc k) = Some cm" "Suc k \<le> cm"
      "\<forall>j. Suc k \<le> j \<and> j < cm \<and> j \<le> upper ma \<longrightarrow> freelist ma ! j = EMPTY"
      "cm \<le> upper ma \<longrightarrow> freelist ma ! cm \<noteq> EMPTY"
      using Suc.hyps(1) by blast
    have "freelist ma ! j = EMPTY" if "k \<le> j \<and> j < cm \<and> j \<le> upper ma" for j
      using that cm(3) True by (cases "j = k") auto
    then show ?thesis using eq cm by auto
  next
    case False
    then have "find_larger ma k = Some k" using k by (subst find_larger.simps) simp
    then show ?thesis using False by auto
  qed
qed

section \<open>Allocation\<close>

text \<open>The allocated regions, by address: their sizes in bytes.\<close>

definition allocated :: "memarea \<Rightarrow> u32 \<Rightarrow> nat option" where
  "allocated ma p = (if mem ma \<le> p then map_option (\<lambda>m. 2 ^ m) (used_of (layout_of ma) (unat (p - mem ma)))
     else None)"

text \<open>There is a free block that is larger than the request.\<close>

definition has_room :: "memarea \<Rightarrow> u32 \<Rightarrow> bool" where
  "has_room ma n \<longleftrightarrow> (\<exists>k p. layout_of ma p = Some (k, False) \<and> unat n < 2 ^ k)"

text \<open>The rounded size finds such a block: it is the least size above the request.\<close>

lemma has_room_rounded:
  assumes ok: "buddy_ok ma" and n: "unat n < 2 ^ 31" and m: "mforsize ma n = Some m"
  shows "has_room ma n \<longleftrightarrow> (\<exists>k p. m \<le> k \<and> layout_of ma p = Some (k, False))"
proof
  have ao: "area_ok ma" and wf: "wf_layout (lower ma) (upper ma) (layout_of ma)" using ok by (simp_all add: buddy_ok_def buddy_inv_def)
  have mf: "unat n < 2 ^ m" "m = lower ma \<or> 2 ^ (m - 1) \<le> unat n" using mforsize_ok[OF n ao] m by auto
  show "has_room ma n" if e: "\<exists>k p. m \<le> k \<and> layout_of ma p = Some (k, False)"
  proof -
    obtain k p where k: "m \<le> k" "layout_of ma p = Some (k, False)" using e by blast
    have "(2 :: nat) ^ m \<le> 2 ^ k" using k(1) by (intro power_increasing) simp_all
    then have "unat n < 2 ^ k" using mf(1) by linarith
    then show ?thesis using k(2) by (auto simp: has_room_def)
  qed
  show "\<exists>k p. m \<le> k \<and> layout_of ma p = Some (k, False)" if e: "has_room ma n"
  proof -
    obtain k p where k: "layout_of ma p = Some (k, False)" "unat n < 2 ^ k" using e by (auto simp: has_room_def)
    have "lower ma \<le> k" using wf_layoutD(1)[OF wf k(1)] .
    moreover have "(2 :: nat) ^ k \<le> 2 ^ (m - 1)" if "\<not> m \<le> k" using that by (intro power_increasing) simp_all
    ultimately have "m \<le> k" using mf(2) k(2) by fastforce
    then show ?thesis using k(1) by blast
  qed
qed

lemma layout_word:
  assumes "area_ok ma" "wf_layout (lower ma) (upper ma) (layout_of ma)" "layout_of ma p = Some (m, u)"
  shows "unat (of_nat p :: u32) = p"
proof -
  have "(2::nat) ^ upper ma \<le> 2 ^ 30" using area_okD(3)[OF assms(1)] by (intro power_increasing) simp_all
  then have "p < 2 ^ 32" using wf_layoutD(4)[OF assms(2,3)] by simp
  then show ?thesis by (simp add: unat_of_nat)
qed

lemma freelist_head:
  assumes "buddy_inv ma" "m < 32"
  shows "freelist ma ! m = EMPTY \<longleftrightarrow> (\<forall>p. layout_of ma p \<noteq> Some (m, False))"
    and "freelist ma ! m \<noteq> EMPTY \<Longrightarrow> layout_of ma (unat (freelist ma ! m)) = Some (m, False)"
proof -
  note inv = buddy_invD[OF assms(1)]
  show "freelist ma ! m = EMPTY \<longleftrightarrow> (\<forall>p. layout_of ma p \<noteq> Some (m, False))"
    using lists_ok_head(1)[OF inv(3) assms(2)] layout_word[OF inv(1,2)] by (metis free_map_eq_Some)
  show "layout_of ma (unat (freelist ma ! m)) = Some (m, False)" if "freelist ma ! m \<noteq> EMPTY"
    using lists_ok_head(2)[OF inv(3) assms(2) that] by simp
qed

lemma take_block_ok:
  assumes inv: "buddy_inv ma" and m: "m < 32" and fl: "freelist ma ! m \<noteq> EMPTY"
    and co: "coalesced_but (upper ma) (unat (freelist ma ! m)) m (layout_of ma)"
  defines "b \<equiv> freelist ma ! m"
  shows "\<exists>ma2 ma3. get_freelist ma m = Some b \<and> is_used ma b = Some False \<and> get_sizem ma b = Some m \<and>
     set_used ma b True = Some ma2 \<and> remove_from_freelist ma2 m b = Some ma3 \<and>
     buddy_ok ma3 \<and> same_area ma ma3 \<and> layout_of ma3 = (layout_of ma)(unat b \<mapsto> (m, True)) \<and>
     layout_of ma (unat b) = Some (m, False)"
proof -
  note inv' = buddy_invD[OF inv]
  have len: "length (freelist ma) = 32" using inv'(3) by (simp add: lists_ok_def)
  have Lb: "layout_of ma (unat b) = Some (m, False)" using freelist_head(2)[OF inv m fl] by (simp add: b_def)
  have ub: "unit_offset ma (unat b)" by (rule block_unit[OF inv'(2) Lb])
  let ?L2 = "(layout_of ma)(unat b \<mapsto> (m, True))"
  obtain bs where r2: "set_used ma b True = Some (ma\<lparr>blocks := bs\<rparr>)" and o2: "area_ok (ma\<lparr>blocks := bs\<rparr>)"
    and L2: "layout_of (ma\<lparr>blocks := bs\<rparr>) = ?L2"
    using set_used_ok[OF inv'(1) ub Lb, of True] by auto
  let ?m2 = "ma\<lparr>blocks := bs\<rparr>"
  have "\<forall>x k. free_map (layout_of ma) x = Some k \<longrightarrow> in_heap ?m2 x"
    using block_in_heap[OF inv'(1,2)] by (auto simp: in_heap_def)
  then obtain h fl where r3: "remove_from_freelist ?m2 m b = Some (?m2\<lparr>heap := h, freelist := fl\<rparr>)"
    and l3: "lists_ok h fl ((free_map (layout_of ma))(b := None))"
    using remove_from_freelist_ok[of ?m2 "free_map (layout_of ma)" b m] inv'(3) Lb m by auto
  have F: "(free_map (layout_of ma))(b := None) = free_map ?L2" by (simp add: free_map_upd)
  have "buddy_ok (?m2\<lparr>heap := h, freelist := fl\<rparr>)"
    using o2 l3 F L2 wf_layout_mark[OF inv'(2) Lb, of True]
      coalesced_mark_used[OF inv'(2) co] by (simp add: buddy_ok_def buddy_inv_def b_def)
  then show ?thesis
    using r2 r3 L2 Lb ub inv'(1) len m
    by (simp add: get_freelist_def b_def[symmetric] is_used_ok get_sizem_ok size_at_def flag_at_def)
qed

lemma refill_ok:
  assumes ok: "buddy_ok ma" and m: "lower ma \<le> m" "m < 32"
    and room: "m \<le> k" "layout_of ma p = Some (k, False)"
  shows "\<exists>ma1. refill ul ma m = Some (Some ma1) \<and> buddy_inv ma1 \<and> same_area ma ma1 \<and>
      freelist ma1 ! m \<noteq> EMPTY \<and> used_of (layout_of ma1) = used_of (layout_of ma) \<and>
      coalesced_but (upper ma1) (unat (freelist ma1 ! m)) m (layout_of ma1)"
proof -
  have inv: "buddy_inv ma" and co: "coalesced (upper ma) (layout_of ma)" using ok by (simp_all add: buddy_ok_def)
  note inv' = buddy_invD[OF inv] and ao = area_okD[OF buddy_invD(1)[OF inv]]
  have len: "length (freelist ma) = 32" using inv'(3) by (simp add: lists_ok_def)
  show ?thesis
  proof (cases "freelist ma ! m = EMPTY")
    case True
    obtain cm where cm: "find_larger ma (m + 1) = Some cm" "m + 1 \<le> cm"
      "\<forall>j. m + 1 \<le> j \<and> j < cm \<and> j \<le> upper ma \<longrightarrow> freelist ma ! j = EMPTY"
      "cm \<le> upper ma \<longrightarrow> freelist ma ! cm \<noteq> EMPTY"
      using find_larger_ok[OF len, of "m + 1"] ao(3) by auto
    note kb = wf_layoutD[OF inv'(2) room(2)]
    have "freelist ma ! k \<noteq> EMPTY" using freelist_head(1)[OF inv, of k] room(2) kb(2) ao(3) by auto
    then have le: "cm \<le> upper ma"
      using cm(3) kb(2) room(1) True by (metis Suc_eq_plus1 Suc_leI le_neq_implies_less not_le order_le_less_trans)
    then obtain ma1 where "split_loop ma cm m = Some ma1" "buddy_inv ma1" "same_area ma ma1"
      "freelist ma1 ! m \<noteq> EMPTY" "used_of (layout_of ma1) = used_of (layout_of ma)"
      "coalesced_but (upper ma) (unat (freelist ma1 ! m)) m (layout_of ma1)"
      using split_loop_ok[OF inv _ m(1), of cm] cm coalesced_imp_but[OF co] by auto
    then show ?thesis using True cm(1) le len m by (auto simp: refill_def get_freelist_def same_area_def)
  next
    case False
    then show ?thesis using inv coalesced_imp_but[OF co] len m by (auto simp: refill_def get_freelist_def)
  qed
qed

lemma buddy_alloc_layout:
  assumes ok: "buddy_ok ma" and n: "unat n < 2 ^ 31" and room: "has_room ma n"
  shows "\<exists>m b ma'. buddy_alloc ul ma n = Some (b + mem ma, ma') \<and> mforsize ma n = Some m \<and>
     buddy_ok ma' \<and> same_area ma ma' \<and> layout_of ma' (unat b) = Some (m, True) \<and>
     used_of (layout_of ma) (unat b) = None \<and>
     used_of (layout_of ma') = (used_of (layout_of ma))(unat b \<mapsto> m)"
proof -
  have ao: "area_ok ma" using ok by (simp add: buddy_ok_def buddy_inv_def)
  obtain m where m: "mforsize ma n = Some m" "lower ma \<le> m" "m < 32"
    using mforsize_ok[OF n ao] by fastforce
  obtain k p where kp: "m \<le> k" "layout_of ma p = Some (k, False)"
    using room has_room_rounded[OF ok n m(1)] by blast
  obtain ma1 where r1: "refill ul ma m = Some (Some ma1)"
    and i1: "buddy_inv ma1" "same_area ma ma1" "freelist ma1 ! m \<noteq> EMPTY"
      "used_of (layout_of ma1) = used_of (layout_of ma)"
      "coalesced_but (upper ma1) (unat (freelist ma1 ! m)) m (layout_of ma1)"
    using refill_ok[OF ok m(2,3) kp] by blast
  let ?b = "freelist ma1 ! m"
  obtain ma2 ma3 where t: "get_freelist ma1 m = Some ?b" "is_used ma1 ?b = Some False"
    "get_sizem ma1 ?b = Some m" "set_used ma1 ?b True = Some ma2"
    "remove_from_freelist ma2 m ?b = Some ma3" "buddy_ok ma3" "same_area ma1 ma3"
    "layout_of ma3 = (layout_of ma1)(unat ?b \<mapsto> (m, True))" "layout_of ma1 (unat ?b) = Some (m, False)"
    using take_block_ok[OF i1(1) m(3) i1(3,5)] by auto
  have sa: "same_area ma ma3" using i1(2) t(7) by (rule same_area_trans)
  have "buddy_alloc ul ma n = Some (?b + mem ma, ma3)"
    using m(1) r1 t i1(3) sa by (simp add: buddy_alloc_def same_area_def)
  moreover have "used_of (layout_of ma) (unat ?b) = None"
    using t(9) i1(4)[symmetric] by (simp add: used_of_def)
  moreover have "used_of (layout_of ma3) = (used_of (layout_of ma))(unat ?b \<mapsto> m)"
    using t(8) i1(4)[symmetric] by (auto simp: used_of_def fun_eq_iff)
  ultimately show ?thesis using m(1) t(6,8) sa by (intro exI[of _ m] exI[of _ ?b] exI[of _ ma3]) simp
qed

lemma buddy_alloc_exhausted:
  assumes ok: "buddy_ok ma" and n: "unat n < 2 ^ 31" and room: "\<not> has_room ma n"
  shows "buddy_alloc ul ma n = (if ul then Some (0, ma) else None)"
proof -
  have inv: "buddy_inv ma" using ok by (simp add: buddy_ok_def)
  note inv' = buddy_invD[OF inv] and ao = area_okD[OF buddy_invD(1)[OF inv]]
  have len: "length (freelist ma) = 32" using inv'(3) by (simp add: lists_ok_def)
  obtain m where m: "mforsize ma n = Some m" "m < 32"
    using mforsize_ok[OF n inv'(1)] by fastforce
  have none: "freelist ma ! k = EMPTY" if "m \<le> k" "k < 32" for k
    using freelist_head(1)[OF inv that(2)] room has_room_rounded[OF ok n m(1)] that(1) by auto
  obtain cm where cm: "find_larger ma (m + 1) = Some cm" "m + 1 \<le> cm"
    "cm \<le> upper ma \<longrightarrow> freelist ma ! cm \<noteq> EMPTY"
    using find_larger_ok[OF len, of "m + 1"] ao(3) by auto
  have "cm > upper ma" using cm none[of cm] ao(3) by (cases "cm \<le> upper ma") auto
  then show ?thesis
    using m len none[of m] cm(1) by (simp add: buddy_alloc_def refill_def get_freelist_def)
qed

section \<open>Release\<close>

lemma get_buddy_ok:
  assumes ok: "area_ok ma" and wf: "wf_layout (lower ma) (upper ma) (layout_of ma)"
    and Lb: "layout_of ma (unat b) = Some (m, u)"
  shows "\<exists>c. get_buddy ma b = Some c \<and> unat c = buddy_of (unat b) m"
proof -
  note blk = wf_layoutD[OF wf Lb]
  have m: "m < 32" using layout_size_bound[OF ok wf Lb] by simp
  have u: "unit_offset ma (unat b)" by (rule block_unit[OF wf Lb])
  have g: "get_sizem ma b = Some m" using get_sizem_ok[OF ok u] Lb by (simp add: size_at_def)
  show ?thesis
  proof (cases "bit b m")
    case True
    then have "buddy_of (unat b) m = unat b - 2 ^ m" by (simp add: buddy_of_def bit_u32_unat)
    then show ?thesis
      using g blk m True by (simp add: get_buddy_def and_pow2_u32 unat_and_not_pow2_u32)
  next
    case False
    then have "buddy_of (unat b) m = unat b + 2 ^ m" by (simp add: buddy_of_def bit_u32_unat)
    then show ?thesis
      using g blk m False by (simp add: get_buddy_def and_pow2_u32 unat_or_pow2_u32)
  qed
qed

text \<open>
  The state inside the coalescing loop: the block \<open>b\<close> of exponent \<open>m\<close> is marked free in the
  table and is on no list yet.
\<close>

definition freeing :: "memarea \<Rightarrow> u32 \<Rightarrow> nat \<Rightarrow> bool" where
  "freeing ma b m \<longleftrightarrow> area_ok ma \<and> wf_layout (lower ma) (upper ma) (layout_of ma) \<and>
     layout_of ma (unat b) = Some (m, False) \<and>
     lists_ok (heap ma) (freelist ma) ((free_map (layout_of ma))(b := None)) \<and>
     coalesced_but (upper ma) (unat b) m (layout_of ma)"

lemma mergeable_ok:
  assumes fr: "freeing ma b m" and c: "unat c = buddy_of (unat b) m"
  shows "mergeable ma m c = Some (m < upper ma \<and> layout_of ma (unat c) = Some (m, False))"
proof (cases "m < upper ma")
  case True
  have a: "area_ok ma" and wf: "wf_layout (lower ma) (upper ma) (layout_of ma)"
    and Lb: "layout_of ma (unat b) = Some (m, False)" using fr by (simp_all add: freeing_def)
  note blk = wf_layoutD[OF wf Lb]
  note r = buddy_of_range[OF blk(3,4) True]
  have "(2::nat) ^ lower ma dvd 2 ^ m" using blk(1) by (rule le_imp_power_dvd)
  then have u: "unit_offset ma (unat c)"
    using r(1,2) c unfolding unit_offset_def by (auto intro: dvd_trans)
  have "m \<noteq> 0" using layout_size_bound[OF a wf Lb] by simp
  then show ?thesis
    using True is_used_ok[OF a u] get_sizem_ok[OF a u]
    by (auto simp: mergeable_def size_at_def flag_at_def split: option.splits)
qed (simp add: mergeable_def)

lemma buddy_pair:
  assumes "2 ^ m dvd unat b" "unat c = buddy_of (unat b) m"
  shows "\<exists>p q. (if b > c then (c, b) else (b, c)) = (p, q) \<and> {p, q} = {b, c} \<and>
     unat q = unat p + 2 ^ m \<and> 2 ^ Suc m dvd unat p"
  using buddy_of_cases[OF assms(1)]
proof (elim disjE conjE)
  assume "2 ^ Suc m dvd unat b" "buddy_of (unat b) m = unat b + 2 ^ m"
  then show ?thesis using assms(2) by (intro exI[of _ b] exI[of _ c]) (simp add: word_less_nat_alt)
next
  assume a: "2 ^ m \<le> unat b" "2 ^ Suc m dvd unat b - 2 ^ m" "buddy_of (unat b) m = unat b - 2 ^ m"
  moreover have "unat b - 2 ^ m < unat b"
    using a(1) by (intro diff_less) (auto intro: less_le_trans[of 0 "2 ^ m"])
  ultimately have "b > c" using assms(2) by (simp add: word_less_nat_alt)
  then show ?thesis using assms(2) a by (intro exI[of _ c] exI[of _ b]) auto
qed

lemma merge_block_ok:
  assumes fr: "freeing ma b m" and c: "unat c = buddy_of (unat b) m" and m: "m < upper ma"
    and Lc: "layout_of ma (unat c) = Some (m, False)"
  shows "\<exists>ma' p. merge_block ma b m c = Some (ma', p) \<and> freeing ma' p (Suc m) \<and> same_area ma ma' \<and>
     used_of (layout_of ma') = used_of (layout_of ma)"
proof -
  let ?L = "layout_of ma" and ?F = "free_map (layout_of ma)"
  have a: "area_ok ma" and wf: "wf_layout (lower ma) (upper ma) ?L"
    and Lb: "?L (unat b) = Some (m, False)" and li: "lists_ok (heap ma) (freelist ma) (?F(b := None))"
    and co: "coalesced_but (upper ma) (unat b) m ?L" using fr by (simp_all add: freeing_def)
  note blk = wf_layoutD[OF wf Lb] and sz = layout_size_bound[OF a wf Lb] and ao = area_okD[OF a]
  have cb: "c \<noteq> b" using buddy_of_range(3)[OF blk(3,4) m] c by auto
  obtain p q where pq: "(if b > c then (c, b) else (b, c)) = (p, q)" "{p, q} = {b, c}"
    and uq: "unat q = unat p + 2 ^ m" and al: "2 ^ Suc m dvd unat p"
    using buddy_pair[OF blk(3) c] by blast
  have Lp: "?L (unat p) = Some (m, False)" and Lq: "?L (unat q) = Some (m, False)" and npq: "p \<noteq> q"
    using pq(2) Lb Lc cb by (auto simp: doubleton_eq_iff)
  have up: "unit_offset ma (unat p)" and uoq: "unit_offset ma (unat q)"
    using block_unit[OF wf] Lp Lq by blast+
  have "\<forall>x k. (?F(b := None)) x = Some k \<longrightarrow> in_heap ma x"
    using block_in_heap[OF a wf] by (auto split: if_splits)
  then obtain h fl where r1: "remove_from_freelist ma m c = Some (ma\<lparr>heap := h, freelist := fl\<rparr>)"
    and l1: "lists_ok h fl (?F(b := None, c := None))"
    using remove_from_freelist_ok[OF li _ sz(1), of c] Lc cb by auto
  let ?m1 = "ma\<lparr>heap := h, freelist := fl\<rparr>"
  have sm: "Suc m < 128" using m ao(3) by simp
  obtain b2 where r2: "set_sizem ?m1 p (Suc m) = Some (?m1\<lparr>blocks := b2\<rparr>)" and o2: "area_ok (ma\<lparr>blocks := b2\<rparr>)"
    and L2: "layout_of (ma\<lparr>blocks := b2\<rparr>) = ?L(unat p \<mapsto> (Suc m, False))"
    using set_sizem_ok[of ?m1 p "Suc m"] a up Lp sm by (auto simp: flag_at_def)
  let ?m2 = "?m1\<lparr>blocks := b2\<rparr>"
  let ?L3 = "?L(unat p \<mapsto> (Suc m, False), unat q := None)"
  obtain b3 where r3: "set_sizem ?m2 q 0 = Some (?m2\<lparr>blocks := b3\<rparr>)" and o3: "area_ok (ma\<lparr>blocks := b3\<rparr>)"
    and L3: "layout_of (ma\<lparr>blocks := b3\<rparr>) = ?L3"
    using set_sizem_ok[of ?m2 q 0] o2 uoq Lq npq by (auto simp: L2 flag_at_def word_unat_eq_iff)
  let ?m3 = "?m2\<lparr>blocks := b3\<rparr>"
  have "merge_block ma b m c = Some (?m3, p)"
    using r1 r2 r3 pq(1) by (simp add: merge_block_def)
  moreover have F: "?F(b := None, c := None) = (free_map ?L3)(p := None)"
    using pq(2) npq by (auto simp: free_map_upd fun_eq_iff doubleton_eq_iff)
  have "wf_layout (lower ma) (upper ma) ?L3"
    using wf_layout_merge[OF wf Lp _ al m, of False False] Lq by (simp add: uq)
  moreover have "coalesced_but (upper ma) (unat p) (Suc m) ?L3"
  proof (rule coalesced_but_merge[OF wf Lp Lq _ _ co])
    show "{unat b, buddy_of (unat b) m} = {unat p, unat q}"
      using pq(2) by (auto simp flip: c simp: doubleton_eq_iff)
    show "unat p \<noteq> unat q" using npq by (simp add: word_unat_eq_iff)
  qed
  ultimately have "freeing ?m3 p (Suc m)" using o3 L3 l1 F npq by (simp add: freeing_def word_unat_eq_iff)
  moreover have "used_of (layout_of ?m3) = used_of ?L"
    using L3 Lp Lq by (auto simp: used_of_def fun_eq_iff)
  ultimately show ?thesis using \<open>merge_block ma b m c = Some (?m3, p)\<close>
    by (intro exI[of _ ?m3] exI[of _ p]) simp
qed

lemma free_loop_ok:
  assumes "freeing ma b m" "unat c = buddy_of (unat b) m"
  shows "\<exists>ma' b' m'. free_loop ma b m c = Some (ma', b', m') \<and> freeing ma' b' m' \<and> same_area ma ma' \<and>
     used_of (layout_of ma') = used_of (layout_of ma) \<and> coalesced (upper ma') (layout_of ma')"
  using assms
proof (induction "upper ma - m" arbitrary: ma b m c rule: less_induct)
  case less
  have wf: "wf_layout (lower ma) (upper ma) (layout_of ma)" and a: "area_ok ma"
    and Lb: "layout_of ma (unat b) = Some (m, False)"
    and co: "coalesced_but (upper ma) (unat b) m (layout_of ma)"
    using less.prems by (simp_all add: freeing_def)
  note mg = mergeable_ok[OF less.prems]
  show ?case
  proof (cases "m < upper ma \<and> layout_of ma (unat c) = Some (m, False)")
    case False
    then have "free_loop ma b m c = Some (ma, b, m)" by (subst free_loop.simps) (auto simp: mg)
    moreover have "coalesced (upper ma) (layout_of ma)"
      using coalesced_but_done[OF wf co] False less.prems(2) by auto
    ultimately show ?thesis using less.prems by auto
  next
    case True
    then obtain ma1 p where m1: "merge_block ma b m c = Some (ma1, p)" "freeing ma1 p (Suc m)"
      "same_area ma ma1" "used_of (layout_of ma1) = used_of (layout_of ma)"
      using merge_block_ok[OF less.prems] by auto
    then obtain c1 where c1: "get_buddy ma1 p = Some c1" "unat c1 = buddy_of (unat p) (Suc m)"
      using get_buddy_ok[of ma1 p "Suc m" False] by (auto simp: freeing_def)
    have "upper ma1 - Suc m < upper ma - m" using True m1(3) by (auto simp: same_area_def)
    from less.hyps[OF this m1(2) c1(2)] obtain ma' b' m' where
      "free_loop ma1 p (Suc m) c1 = Some (ma', b', m')" "freeing ma' b' m'" "same_area ma1 ma'"
      "used_of (layout_of ma') = used_of (layout_of ma1)" "coalesced (upper ma') (layout_of ma')"
      by blast
    moreover from this have "free_loop ma b m c = Some (ma', b', m')"
      using True m1(1) c1(1) by (subst free_loop.simps) (simp add: mg)
    ultimately show ?thesis using m1(3,4) by (auto intro: same_area_trans)
  qed
qed

lemma buddy_free_layout:
  assumes ok: "buddy_ok ma" and L: "used_of (layout_of ma) (unat b) = Some m"
  shows "\<exists>ma'. buddy_free ma (b + mem ma) = Some ma' \<and> buddy_ok ma' \<and> same_area ma ma' \<and>
     used_of (layout_of ma') = (used_of (layout_of ma))(unat b := None)"
proof -
  have inv: "buddy_inv ma" and co: "coalesced (upper ma) (layout_of ma)" using ok by (simp_all add: buddy_ok_def)
  note inv' = buddy_invD[OF inv] and ao = area_okD[OF buddy_invD(1)[OF inv]]
  have Lb: "layout_of ma (unat b) = Some (m, True)" using L by simp
  note blk = wf_layoutD[OF inv'(2) Lb]
  have ub: "unit_offset ma (unat b)" by (rule block_unit[OF inv'(2) Lb])
  let ?L1 = "(layout_of ma)(unat b \<mapsto> (m, False))"
  obtain bs where r1: "set_used ma b False = Some (ma\<lparr>blocks := bs\<rparr>)" and o1: "area_ok (ma\<lparr>blocks := bs\<rparr>)"
    and L1: "layout_of (ma\<lparr>blocks := bs\<rparr>) = ?L1"
    using set_used_ok[OF inv'(1) ub Lb, of False] by auto
  let ?m1 = "ma\<lparr>blocks := bs\<rparr>"
  have "free_map (layout_of ma) = (free_map ?L1)(b := None)"
    using Lb by (auto simp: free_map_upd fun_eq_iff free_map_def free_of_def)
  then have fr: "freeing ?m1 b m"
    using o1 L1 inv'(3) wf_layout_mark[OF inv'(2) Lb, of False] coalesced_but_free[OF inv'(2) co]
    by (simp add: freeing_def)
  then obtain c where c: "get_buddy ?m1 b = Some c" "unat c = buddy_of (unat b) m"
    using get_buddy_ok[of ?m1 b m False] by (auto simp: freeing_def)
  obtain ma2 b2 m2 where r2: "free_loop ?m1 b m c = Some (ma2, b2, m2)" and f2: "freeing ma2 b2 m2"
    and s2: "same_area ?m1 ma2" "used_of (layout_of ma2) = used_of ?L1" "coalesced (upper ma2) (layout_of ma2)"
    using free_loop_ok[OF fr c(2)] by (auto simp: L1)
  have f2': "area_ok ma2" "wf_layout (lower ma2) (upper ma2) (layout_of ma2)"
    "layout_of ma2 (unat b2) = Some (m2, False)"
    "lists_ok (heap ma2) (freelist ma2) ((free_map (layout_of ma2))(b2 := None))"
    using f2 by (simp_all add: freeing_def)
  note sz = layout_size_bound[OF f2'(1-3)]
  obtain h fl where r3: "add_to_freelist ma2 m2 b2 = Some (ma2\<lparr>heap := h, freelist := fl\<rparr>)"
    and l3: "lists_ok h fl ((free_map (layout_of ma2))(b2 := None, b2 \<mapsto> m2))"
    using add_to_freelist_ok[OF f2'(4) _ sz(1) area_okD(3)[OF f2'(1)] wf_layout_end[OF f2'(2,3)] sz(3)]
    by auto
  have "(free_map (layout_of ma2))(b2 := None, b2 \<mapsto> m2) = free_map (layout_of ma2)"
    using f2'(3) by (auto simp: fun_eq_iff free_map_def free_of_def)
  then have "buddy_ok (ma2\<lparr>heap := h, freelist := fl\<rparr>)"
    using l3 f2' s2(3) by (simp add: buddy_ok_def buddy_inv_def)
  moreover have sa: "same_area ma ma2" using s2(1) by (simp add: same_area_def)
  moreover have "used_of ?L1 = (used_of (layout_of ma))(unat b := None)"
    by (auto simp: used_of_def fun_eq_iff)
  moreover have "buddy_free ma (b + mem ma) = Some (ma2\<lparr>heap := h, freelist := fl\<rparr>)"
  proof -
    have u: "unat (b + mem ma) = unat b + unat (mem ma)"
      using ao(6) blk(4) by (simp add: unat_word_ariths)
    have v: "unat (mem ma + 2 ^ upper ma) = unat (mem ma) + 2 ^ upper ma"
      using ao(3,6) by (simp add: unat_word_ariths)
    have "b + mem ma \<noteq> 0" using u ao(5) by (metis add_gr_0 less_numeral_extra(3) unat_0)
    moreover have "mem ma \<le> b + mem ma \<and> b + mem ma < mem ma + 2 ^ upper ma"
      using u v blk(4) by (simp add: word_le_nat_alt word_less_nat_alt)
    ultimately show ?thesis
      using r1 r2 r3 c(1) blk is_used_ok[OF inv'(1) ub] get_sizem_ok[OF inv'(1) ub] Lb
      by (simp add: buddy_free_def flag_at_def size_at_def)
  qed
  ultimately show ?thesis using s2(2) by (intro exI[of _ "ma2\<lparr>heap := h, freelist := fl\<rparr>"]) simp
qed

section \<open>The contract of the allocator\<close>

lemma allocated_eq:
  assumes "area_ok ma" "p < 2 ^ upper ma"
  shows "allocated ma (of_nat p + mem ma) = map_option (\<lambda>m. 2 ^ m) (used_of (layout_of ma) p)"
proof -
  note ao = area_okD[OF assms(1)]
  have p: "unat (of_nat p :: u32) = p" using assms(2) ao(6) by (simp add: unat_of_nat)
  then have "unat (of_nat p + mem ma) = p + unat (mem ma)"
    using ao(6) assms(2) by (simp add: unat_word_ariths)
  then have "mem ma \<le> of_nat p + mem ma" by (simp add: word_le_nat_alt)
  then show ?thesis using p by (simp add: allocated_def)
qed

lemma allocatedE:
  assumes ok: "buddy_ok ma" and p: "allocated ma p = Some k"
  obtains b m where "p = b + mem ma" "used_of (layout_of ma) (unat b) = Some m" "k = 2 ^ m"
    "unat p = unat b + unat (mem ma)" "unat b + 2 ^ m \<le> 2 ^ upper ma"
proof -
  let ?b = "p - mem ma"
  obtain m where m: "used_of (layout_of ma) (unat ?b) = Some m" "k = 2 ^ m" and le: "mem ma \<le> p"
    using p by (auto simp: allocated_def split: if_splits)
  have "wf_layout (lower ma) (upper ma) (layout_of ma)" using ok by (simp add: buddy_ok_def buddy_inv_def)
  then have "unat ?b + 2 ^ m \<le> 2 ^ upper ma" using m(1) wf_layout_end by simp
  moreover have "unat p = unat ?b + unat (mem ma)" using le by (simp add: unat_sub word_le_nat_alt)
  ultimately show ?thesis using m by (intro that[of ?b m]) simp_all
qed

lemma allocated_upd:
  assumes "buddy_ok ma" "same_area ma ma'" "used_of (layout_of ma') = (used_of (layout_of ma))(unat b := x)"
    "unat b < 2 ^ upper ma"
  shows "allocated ma' = (allocated ma)(b + mem ma := map_option (\<lambda>m. 2 ^ m) x)"
proof
  fix p
  have ao: "area_ok ma" using assms(1) by (simp add: buddy_ok_def buddy_inv_def)
  have u: "unat (b + mem ma) = unat b + unat (mem ma)"
    using area_okD(6)[OF ao] assms(4) by (simp add: unat_word_ariths)
  then have le: "mem ma \<le> b + mem ma" by (simp add: word_le_nat_alt)
  have m: "mem ma' = mem ma" using assms(2) by (simp add: same_area_def)
  show "allocated ma' p = ((allocated ma)(b + mem ma := map_option (\<lambda>m. 2 ^ m) x)) p"
  proof (cases "p = b + mem ma")
    case True
    then show ?thesis using assms(3) le m by (simp add: allocated_def)
  next
    case False
    then have "unat (p - mem ma) \<noteq> unat b" by (auto simp: diff_eq_eq simp flip: word_unat_eq_iff)
    then show ?thesis using False assms(3) m by (simp add: allocated_def)
  qed
qed

lemma allocated_disjoint:
  assumes ok: "buddy_ok ma" and "allocated ma p = Some k" "allocated ma q = Some l" "p \<noteq> q"
  shows "unat p + k \<le> unat q \<or> unat q + l \<le> unat p"
proof -
  have wf: "wf_layout (lower ma) (upper ma) (layout_of ma)" using ok by (simp add: buddy_ok_def buddy_inv_def)
  obtain b m where b: "p = b + mem ma" "used_of (layout_of ma) (unat b) = Some m" "k = 2 ^ m"
    "unat p = unat b + unat (mem ma)" "unat b + 2 ^ m \<le> 2 ^ upper ma"
    by (rule allocatedE[OF ok assms(2)])
  obtain c n where c: "q = c + mem ma" "used_of (layout_of ma) (unat c) = Some n" "l = 2 ^ n"
    "unat q = unat c + unat (mem ma)" "unat c + 2 ^ n \<le> 2 ^ upper ma"
    by (rule allocatedE[OF ok assms(3)])
  have ne: "unat b \<noteq> unat c" using b(1) c(1) assms(4) by (auto simp flip: word_unat_eq_iff)
  have L: "layout_of ma (unat b) = Some (m, True)" "layout_of ma (unat c) = Some (n, True)"
    using b(2) c(2) by simp_all
  have "unat b + 2 ^ m \<le> unat c \<or> unat c + 2 ^ n \<le> unat b"
    using ne wf_layout_disjoint[OF wf] L by (metis nat_neq_iff)
  then show ?thesis using b(3,4) c(3,4) by auto
qed

lemma buddy_alloc_cases:
  assumes ok: "buddy_ok ma" and r: "buddy_alloc ul ma n = Some (p, ma')"
  shows "(ul \<and> \<not> has_room ma n \<and> p = 0 \<and> ma' = ma) \<or>
     (has_room ma n \<and> p \<noteq> 0 \<and> buddy_ok ma' \<and> same_area ma ma' \<and> allocated ma p = None \<and>
      (\<exists>m. mforsize ma n = Some m \<and> allocated ma' = (allocated ma)(p \<mapsto> 2 ^ m) \<and> unat n < 2 ^ m))"
proof -
  have ao: "area_ok ma" using ok by (simp add: buddy_ok_def buddy_inv_def)
  have n: "unat n < 2 ^ 31"
  proof (rule ccontr)
    assume "\<not> unat n < 2 ^ 31"
    then have "mforsize ma n = None" by (intro mforsize_diverges) simp
    then show False using r by (simp add: buddy_alloc_def)
  qed
  show ?thesis
  proof (cases "has_room ma n")
    case False
    then show ?thesis using buddy_alloc_exhausted[OF ok n False] r by (auto split: if_splits)
  next
    case True
    obtain m b where b: "p = b + mem ma" "mforsize ma n = Some m" "buddy_ok ma'" "same_area ma ma'"
      "layout_of ma' (unat b) = Some (m, True)" "used_of (layout_of ma) (unat b) = None"
      "used_of (layout_of ma') = (used_of (layout_of ma))(unat b \<mapsto> m)"
      using buddy_alloc_layout[OF ok n True, of ul] r by auto
    have "wf_layout (lower ma) (upper ma) (layout_of ma')"
      using b(3,4) by (simp add: buddy_ok_def buddy_inv_def same_area_def)
    then have lt: "unat b < 2 ^ upper ma" using wf_layoutD(4) b(5) by blast
    have "unat p = unat b + unat (mem ma)"
      using b(1) lt area_okD(6)[OF ao] by (simp add: unat_word_ariths)
    then have "p \<noteq> 0" using area_okD(5)[OF ao] by auto
    moreover have "allocated ma' = (allocated ma)(p \<mapsto> 2 ^ m)"
      using allocated_upd[OF ok b(4,7) lt] b(1) by simp
    moreover have "allocated ma p = None" using b(1,6) by (simp add: allocated_def)
    ultimately show ?thesis using True b mforsize_ok[OF n ao] by auto
  qed
qed

lemma buddy_free_allocated:
  assumes ok: "buddy_ok ma" and p: "allocated ma p = Some k"
  shows "\<exists>ma'. buddy_free ma p = Some ma' \<and> buddy_ok ma' \<and> same_area ma ma' \<and>
     allocated ma' = (allocated ma)(p := None)"
proof -
  obtain b m where b: "p = b + mem ma" "used_of (layout_of ma) (unat b) = Some m" "k = 2 ^ m"
    "unat p = unat b + unat (mem ma)" "unat b + 2 ^ m \<le> 2 ^ upper ma"
    by (rule allocatedE[OF ok p])
  obtain ma' where "buddy_free ma p = Some ma'" "buddy_ok ma'" "same_area ma ma'"
    "used_of (layout_of ma') = (used_of (layout_of ma))(unat b := None)"
    using buddy_free_layout[OF ok b(2)] b(1) by auto
  moreover have "unat b < 2 ^ upper ma"
    using b(5) by (rule order_less_le_trans[rotated]) simp
  ultimately show ?thesis using allocated_upd[OF ok, of ma' b None] b(1) by auto
qed

interpretation kb: kallocator "buddy_alloc False" buddy_free allocated buddy_ok
proof unfold_locales
  fix h n p h' assume "buddy_ok h" "buddy_alloc False h n = Some (p, h')"
  then show "buddy_ok h' \<and> p \<noteq> 0 \<and> allocated h p = None \<and>
    (\<exists>k. allocated h' = (allocated h)(p \<mapsto> k) \<and> unat n < k)"
    using buddy_alloc_cases by blast
next
  fix h p k assume "buddy_ok h" "allocated h p = Some k"
  then show "\<exists>h'. buddy_free h p = Some h' \<and> buddy_ok h' \<and> allocated h' = (allocated h)(p := None)"
    using buddy_free_allocated by blast
next
  fix h p k q l assume "buddy_ok h" "allocated h p = Some k" "allocated h q = Some l" "p \<noteq> q"
  then show "unat p + k \<le> unat q \<or> unat q + l \<le> unat p" by (rule allocated_disjoint)
qed

section \<open>Initialisation and client writes\<close>

lemma buddy_init_inv:
  assumes "DEFAULT_LOWER \<le> k" "k \<le> 30" "0 < unat base" "unat base + 2 ^ k < 2 ^ 32"
  shows "\<exists>ma. buddy_init k base hp = Some ma \<and> buddy_ok ma \<and> upper ma = k \<and> mem ma = base \<and>
     lower ma = DEFAULT_LOWER \<and> layout_of ma = [0 \<mapsto> (k, False)]"
proof -
  let ?bs = "(replicate (2 ^ (k - DEFAULT_LOWER)) \<lparr>sizem = 0, used = False\<rparr>)[0 := \<lparr>sizem = k, used = False\<rparr>]"
  let ?fl = "(replicate 32 EMPTY)[k := 0]"
  let ?ma = "\<lparr>lower = DEFAULT_LOWER, upper = k, mem = base, blocks = ?bs, freelist = ?fl,
    heap = hp(0 := EMPTY)\<rparr>"
  have "(2::nat) ^ 8 \<le> 2 ^ k" using assms(1) by (intro power_increasing) (simp_all add: DEFAULT_LOWER_def)
  then have k4: "(4::nat) \<le> 2 ^ k" by simp
  have init: "buddy_init k base hp = Some ?ma"
    using assms k4 by (simp add: buddy_init_def store_link_def in_heap_def)
  have ao: "area_ok ?ma"
    using assms set_update_subset_insert[of "replicate (2 ^ (k - DEFAULT_LOWER)) \<lparr>sizem = 0, used = False\<rparr>" 0 "\<lparr>sizem = k, used = False\<rparr>"]
    by (auto simp: area_ok_def DEFAULT_LOWER_def)
  have L: "layout_of ?ma = [0 \<mapsto> (k, False)]"
  proof
    fix p
    show "layout_of ?ma p = [0 \<mapsto> (k, False)] p"
    proof (cases "p = 0")
      case True
      then show ?thesis using assms(1) by (simp add: layout_of_def slot_def unit_offset_def DEFAULT_LOWER_def)
    next
      case False
      have "sizem (slot ?ma p) = 0" if u: "unit_offset ?ma p"
      proof -
        have "p div 2 ^ DEFAULT_LOWER \<noteq> 0" using u False by (auto simp: unit_offset_def elim!: dvdE)
        moreover have "p div 2 ^ DEFAULT_LOWER < 2 ^ (k - DEFAULT_LOWER)"
          using unit_index[OF ao, of p] u by (simp add: unit_offset_def)
        ultimately show ?thesis by (simp add: slot_def)
      qed
      then show ?thesis using False by (auto simp: layout_of_def)
    qed
  qed
  have "wf_layout DEFAULT_LOWER k [0 \<mapsto> (k, False)]"
    using assms(1) by (auto simp: wf_layout_def blocks_ok_def blocks_disjoint_def blocks_cover_def split: if_splits)
  moreover have "lists_ok (hp(0 := EMPTY)) ?fl (free_map [0 \<mapsto> (k, False)])"
    unfolding lists_ok_def
  proof (intro conjI allI impI)
    fix m :: nat assume m: "m < 32"
    show "\<exists>xs. fl_chain (hp(0 := EMPTY)) (?fl ! m) xs \<and> distinct xs \<and>
      (\<forall>b. (b \<in> set xs) = (free_map [0 \<mapsto> (k, False)] b = Some m))"
      using m assms(2) by (intro exI[of _ "if m = k then [0] else []"])
        (auto simp: nth_list_update EMPTY_def word_unat_eq_iff split: if_splits)
  qed simp
  moreover have "coalesced k [0 \<mapsto> (k, False)]" by (auto simp: coalesced_def split: if_splits)
  ultimately have "buddy_ok ?ma" using ao L by (simp add: buddy_ok_def buddy_inv_def)
  then show ?thesis using init L by auto
qed

text \<open>A client may write anywhere inside its own blocks.\<close>

definition client_write :: "memarea \<Rightarrow> (u32 \<Rightarrow> u32) \<Rightarrow> bool" where
  "client_write ma h' \<longleftrightarrow> (\<forall>x. (\<nexists>p m. used_of (layout_of ma) p = Some m \<and> p \<le> unat x \<and> unat x < p + 2 ^ m)
     \<longrightarrow> h' x = heap ma x)"

lemma client_write_ok:
  assumes ok: "buddy_ok ma" and w: "client_write ma h'"
  shows "buddy_ok (ma\<lparr>heap := h'\<rparr>)" "allocated (ma\<lparr>heap := h'\<rparr>) = allocated ma"
proof -
  note inv = buddy_invD[of ma] and wf = buddy_invD(2)[of ma]
  have i: "buddy_inv ma" using ok by (simp add: buddy_ok_def)
  have "h' x = heap ma x" if "free_map (layout_of ma) x = Some m" for x m
  proof -
    have Lx: "layout_of ma (unat x) = Some (m, False)" using that by simp
    have "\<nexists>p k. used_of (layout_of ma) p = Some k \<and> p \<le> unat x \<and> unat x < p + 2 ^ k"
      using wf_layout_inside[OF wf[OF i]] Lx by (metis le_neq_implies_less option.discI option.inject prod.inject used_of_eq_Some)
    then show ?thesis using w by (simp add: client_write_def)
  qed
  then have "lists_ok h' (freelist ma) (free_map (layout_of ma))"
    using inv(3)[OF i] unfolding lists_ok_def by (metis fl_chain_cong)
  then show "buddy_ok (ma\<lparr>heap := h'\<rparr>)" using ok by (simp add: buddy_ok_def buddy_inv_def)
  show "allocated (ma\<lparr>heap := h'\<rparr>) = allocated ma" by (simp add: allocated_def fun_eq_iff)
qed

text \<open>
  The life of a memory area: from initialisation through any sequence of requests (served or
  refused), releases of allocated regions or of NULL, and client writes.
\<close>

inductive area_reach :: "memarea \<Rightarrow> bool" where
  init: "\<lbrakk> DEFAULT_LOWER \<le> k; k \<le> 30; 0 < unat base; unat base + 2 ^ k < 2 ^ 32;
     buddy_init k base hp = Some ma \<rbrakk> \<Longrightarrow> area_reach ma"
| alloc: "\<lbrakk> area_reach ma; buddy_alloc ul ma n = Some (p, ma') \<rbrakk> \<Longrightarrow> area_reach ma'"
| release: "\<lbrakk> area_reach ma; p = 0 \<or> allocated ma p \<noteq> None; buddy_free ma p = Some ma' \<rbrakk> \<Longrightarrow> area_reach ma'"
| client: "\<lbrakk> area_reach ma; client_write ma h' \<rbrakk> \<Longrightarrow> area_reach (ma\<lparr>heap := h'\<rparr>)"

lemma area_reach_ok: "area_reach ma \<Longrightarrow> buddy_ok ma"
proof (induction rule: area_reach.induct)
  case (init k base hp ma)
  then show ?case using buddy_init_inv[OF init(1-4), of hp] by auto
next
  case (alloc ma ul n p ma')
  then show ?case using buddy_alloc_cases[OF alloc(3,2)] by auto
next
  case (release ma p ma')
  then show ?case using buddy_free_allocated[of ma p] by (auto simp: buddy_free_def)
next
  case (client ma h')
  then show ?case by (intro client_write_ok)
qed

end
