(* ===== verification/Kmalloc.thy ===== *)
theory Kmalloc
  imports Buddy_Correct
begin

text \<open>
  The wrappers of buddy.c around the allocator: \<open>kmalloc_init\<close>, \<open>kmalloc\<close> and \<open>kfree\<close> for the
  kernel's area, \<open>init_userspace_malloc\<close>, \<open>malloc\<close>, \<open>realloc\<close> and \<open>free\<close> for the area of a
  process, and the properties of the allocator as its clients see them.
\<close>

section \<open>Kernel memory\<close>

definition KERNEL_MEM_BASE :: u32 where "KERNEL_MEM_BASE = 2 * 1048576"
definition KERNEL_MEM_SIZEPOW2 :: nat where "KERNEL_MEM_SIZEPOW2 = 22"
definition PROCESS_DATA_BASE :: u32 where "PROCESS_DATA_BASE = 0x20000000"

definition kmalloc_init :: "(u32 \<Rightarrow> u32) \<Rightarrow> memarea option" where
  "kmalloc_init hp = buddy_init KERNEL_MEM_SIZEPOW2 KERNEL_MEM_BASE hp"

definition kmalloc :: "memarea \<Rightarrow> u32 \<Rightarrow> (u32 \<times> memarea) option" where
  "kmalloc kernel_memarea nbytes = do {
     (ptr, ma) \<leftarrow> buddy_alloc False kernel_memarea nbytes;
     kassert (ptr \<noteq> 0);
     Some (ptr, ma) }"

definition kfree :: "memarea \<Rightarrow> u32 \<Rightarrow> memarea option" where
  "kfree kernel_memarea ptr = buddy_free kernel_memarea ptr"

section \<open>Process memory\<close>

text \<open>
  \<open>in_user_mode\<close> is an assembly routine that reads the privilege level; \<open>brk\<close> is the system
  call. Both are arguments. \<open>sizeof(memarea)\<close> is four words and 32 list heads, 144 bytes;
  \<open>sizeof(blockinfo)\<close> is one byte. \<open>Inl 1\<close> is the exit of the process.
\<close>

definition heap_sizep2 :: nat where "heap_sizep2 = 20"
definition sizeof_memarea :: u32 where "sizeof_memarea = 144"

definition userspace_data_end :: u32 where
  "userspace_data_end = PROCESS_DATA_BASE +
     (push_bit heap_sizep2 1 + sizeof_memarea + of_nat (buddy_nblocks heap_sizep2))"

definition init_userspace_malloc :: "(u32 \<Rightarrow> int) \<Rightarrow> (u32 \<Rightarrow> u32) \<Rightarrow> (int + memarea) option" where
  "init_userspace_malloc brk hp =
     (if brk userspace_data_end \<noteq> 0 then Some (Inl 1)
      else map_option Inr (buddy_init heap_sizep2 (PROCESS_DATA_BASE + sizeof_memarea) hp))"

definition malloc :: "bool \<Rightarrow> memarea \<Rightarrow> u32 \<Rightarrow> (u32 \<times> memarea) option" where
  "malloc in_user_mode ma nbytes = do {
     kassert in_user_mode;
     (ptr, ma') \<leftarrow> buddy_alloc False ma nbytes;
     kassert (ptr \<noteq> 0);
     Some (ptr, ma') }"

definition free :: "bool \<Rightarrow> memarea \<Rightarrow> u32 \<Rightarrow> memarea option" where
  "free in_user_mode ma ptr = do { kassert in_user_mode; buddy_free ma ptr }"

text \<open>
  \<open>realloc\<close> falls off its end when the pointer is not NULL and the size is not 0: the function
  returns, but with no defined value and with the area untouched.
\<close>

datatype realloc_result = Returned u32 | NoValue

definition realloc :: "bool \<Rightarrow> memarea \<Rightarrow> u32 \<Rightarrow> u32 \<Rightarrow> (realloc_result \<times> memarea) option" where
  "realloc in_user_mode ma ptr sz = do {
     kassert in_user_mode;
     if ptr = 0 then do { (p, ma') \<leftarrow> malloc in_user_mode ma sz; Some (Returned p, ma') }
     else if sz = 0 then do { ma' \<leftarrow> free in_user_mode ma ptr; Some (Returned 0, ma') }
     else Some (NoValue, ma) }"

section \<open>Both areas keep the allocator contract\<close>

lemma kmalloc_eq: "buddy_ok ma \<Longrightarrow> kmalloc ma n = buddy_alloc False ma n"
  using buddy_alloc_cases[of ma False n]
  by (auto simp: kmalloc_def bind_eq_Some_conv split: Option.bind_splits)

lemma malloc_eq: "buddy_ok ma \<Longrightarrow> malloc True ma n = kmalloc ma n"
  by (simp add: malloc_def kmalloc_def)

interpretation km: kallocator kmalloc kfree allocated buddy_ok
  by unfold_locales
    (use kb.alloc_law kb.release_law kb.disjoint_law in \<open>simp_all add: kmalloc_eq kfree_def\<close>)

interpretation um: kallocator "malloc True" "free True" allocated buddy_ok
  by unfold_locales
    (use km.alloc_law km.release_law km.disjoint_law in \<open>simp_all add: malloc_eq free_def kfree_def\<close>)

lemma kmalloc_in_area:
  assumes "buddy_ok ma" "allocated ma p = Some k"
  shows "unat (mem ma) \<le> unat p \<and> unat p + k \<le> unat (mem ma) + 2 ^ upper ma"
  by (rule allocatedE[OF assms]) simp

section \<open>Properties of the allocator\<close>

text \<open>A request that the area can serve: some free block is larger than it.\<close>

lemma buddy_alloc_dichotomy:
  assumes "buddy_ok ma" "unat n < 2 ^ 31"
  shows "if has_room ma n then \<exists>p ma'. buddy_alloc ul ma n = Some (p, ma') \<and> p \<noteq> 0
     else buddy_alloc ul ma n = (if ul then Some (0, ma) else None)"
proof (cases "has_room ma n")
  case True
  then obtain p ma' where "buddy_alloc ul ma n = Some (p, ma')"
    using buddy_alloc_layout[OF assms True, of ul] by auto
  then show ?thesis using True buddy_alloc_cases[OF assms(1)] by auto
next
  case False
  then show ?thesis using buddy_alloc_exhausted[OF assms] by simp
qed

lemma all_released_layout:
  assumes "buddy_ok ma" "allocated ma = Map.empty"
  shows "layout_of ma = [0 \<mapsto> (upper ma, False)]"
proof -
  have wf: "wf_layout (lower ma) (upper ma) (layout_of ma)" and co: "coalesced (upper ma) (layout_of ma)"
    and ao: "area_ok ma"
    using assms(1) by (simp_all add: buddy_ok_def buddy_inv_def)
  have "used_of (layout_of ma) p = None" for p
  proof (cases "p < 2 ^ upper ma")
    case True
    then show ?thesis using allocated_eq[OF ao True] assms(2) by simp
  next
    case False
    then show ?thesis using wf_layoutD(4)[OF wf, of p] by (cases "used_of (layout_of ma) p") auto
  qed
  then show ?thesis using coalesced_all_free[OF wf co] by blast
qed

lemma mforsize_le:
  assumes "area_ok ma" "unat n < 2 ^ k" "lower ma \<le> k" "k \<le> upper ma"
  shows "unat n < 2 ^ 31" "\<exists>m. mforsize ma n = Some m \<and> m \<le> k"
proof -
  have "(2::nat) ^ k \<le> 2 ^ 30" using area_okD(3)[OF assms(1)] assms(4) by (intro power_increasing) simp_all
  then show n: "unat n < 2 ^ 31" using assms(2) by simp
  obtain m where m: "mforsize ma n = Some m" "m = lower ma \<or> 2 ^ (m - 1) \<le> unat n" using mforsize_ok[OF n assms(1)] by auto
  have "(2::nat) ^ k \<le> 2 ^ (m - 1)" if "\<not> m \<le> k" using that by (intro power_increasing) simp_all
  then have "m \<le> k" using m(2) assms(2,3) by fastforce
  then show "\<exists>m. mforsize ma n = Some m \<and> m \<le> k" using m(1) by blast
qed

lemma room_when_empty:
  assumes "buddy_ok ma" "allocated ma = Map.empty" "unat n < 2 ^ upper ma"
  shows "unat n < 2 ^ 31" "has_room ma n"
proof -
  have ao: "area_ok ma" using assms(1) by (simp add: buddy_ok_def buddy_inv_def)
  note m = mforsize_le[OF ao assms(3) area_okD(2)[OF ao]]
  show "unat n < 2 ^ 31" using m(1) by simp
  show "has_room ma n" using assms(3) all_released_layout[OF assms(1,2)] by (auto simp: has_room_def)
qed

text \<open>The example area of the witnesses: 1024 bytes at address 0x1000, four units.\<close>

definition example_area :: memarea where
  "example_area = the (buddy_init 10 0x1000 (\<lambda>_. 0))"

definition example_area1 :: memarea where
  "example_area1 = snd (the (buddy_alloc False example_area 100))"

lemma example_area_init: "buddy_init 10 0x1000 (\<lambda>_. 0) = Some example_area"
  using buddy_init_inv[of 10 "0x1000" "\<lambda>_. 0"] by (auto simp: example_area_def DEFAULT_LOWER_def)

lemma example_area_reach: "area_reach example_area"
  by (rule area_reach.init[OF _ _ _ _ example_area_init]) (simp_all add: DEFAULT_LOWER_def)

lemma example_area1_alloc: "buddy_alloc False example_area 100 = Some (0x1000, example_area1)"
proof -
  have "map_option fst (buddy_alloc False example_area 100) = Some 0x1000" by code_simp
  then show ?thesis by (auto simp: example_area1_def)
qed

lemma example_area1_reach: "area_reach example_area1"
  using example_area_reach example_area1_alloc by (rule area_reach.alloc)

lemma example_allocated:
  "allocated example_area = Map.empty" "allocated example_area1 0x1000 = Some 256"
proof -
  have "layout_of example_area = [0 \<mapsto> (10, False)]"
    using buddy_init_inv[of 10 "0x1000" "\<lambda>_. 0"] example_area_init by (auto simp: DEFAULT_LOWER_def)
  then show "allocated example_area = Map.empty" by (auto simp: allocated_def used_of_def)
  show "allocated example_area1 0x1000 = Some 256" by code_simp
qed

text \<open>C5: For every state of a memory area reachable from initialisation by any sequence of
  requests, releases and client writes, a served request returns a region that was not
  allocated, lies inside the area, is larger than the request and overlaps no live region; the
  set of live regions grows by exactly that region.\<close>

theorem buddy_alloc_correct:
  assumes "area_reach ma" "buddy_alloc ul ma n = Some (p, ma')" "p \<noteq> 0"
  shows "\<exists>k. allocated ma p = None \<and> allocated ma' = (allocated ma)(p \<mapsto> k) \<and> unat n < k \<and>
     unat (mem ma) \<le> unat p \<and> unat p + k \<le> unat (mem ma) + 2 ^ upper ma \<and>
     (\<forall>q l. allocated ma q = Some l \<longrightarrow> unat p + k \<le> unat q \<or> unat q + l \<le> unat p)"
proof -
  obtain k where k: "buddy_ok ma'" "same_area ma ma'" "allocated ma p = None"
    "allocated ma' = (allocated ma)(p \<mapsto> k)" "unat n < k"
    using buddy_alloc_cases[OF area_reach_ok[OF assms(1)] assms(2)] assms(3) by auto
  have "unat p + k \<le> unat q \<or> unat q + l \<le> unat p" if "allocated ma q = Some l" for q l
    using that k by (intro allocated_disjoint[OF k(1)]) auto
  then show ?thesis using k kmalloc_in_area[OF k(1), of p k] by (auto simp: same_area_def)
qed

theorem buddy_alloc_correct_witness:
  "\<exists>k. allocated example_area1 = (allocated example_area)(0x1000 \<mapsto> k) \<and> 100 < k"
  using buddy_alloc_correct[OF example_area_reach example_area1_alloc] by auto

text \<open>C6: Releasing a live region of a reachable area always succeeds, whatever has happened to
  the area, and makes exactly that region free.\<close>

theorem buddy_free_correct:
  assumes "area_reach ma" "allocated ma p = Some k"
  shows "\<exists>ma'. buddy_free ma p = Some ma' \<and> area_reach ma' \<and> allocated ma' = (allocated ma)(p := None)"
proof -
  obtain ma' where "buddy_free ma p = Some ma'" "allocated ma' = (allocated ma)(p := None)"
    using buddy_free_allocated[OF area_reach_ok[OF assms(1)] assms(2)] by blast
  moreover from this have "area_reach ma'"
    using assms by (intro area_reach.release[OF assms(1), of p]) auto
  ultimately show ?thesis by blast
qed

theorem buddy_free_correct_witness:
  "\<exists>ma'. buddy_free example_area1 0x1000 = Some ma' \<and> allocated ma' 0x1000 = None"
  using buddy_free_correct[OF example_area1_reach example_allocated(2)] by auto

text \<open>C7: No fragmentation survives: once every region of a reachable area has been released,
  the blocks have merged back into the single initial block, and any request smaller than the
  whole area is served.\<close>

theorem buddy_coalesces:
  assumes "area_reach ma" "allocated ma = Map.empty"
  shows "layout_of ma = [0 \<mapsto> (upper ma, False)] \<and>
     (\<forall>n. unat n < 2 ^ upper ma \<longrightarrow> (\<exists>p ma'. buddy_alloc ul ma n = Some (p, ma') \<and> p \<noteq> 0))"
proof -
  have ok: "buddy_ok ma" by (rule area_reach_ok[OF assms(1)])
  show ?thesis
    using all_released_layout[OF ok assms(2)] room_when_empty[OF ok assms(2)]
      buddy_alloc_dichotomy[OF ok] by (metis (full_types))
qed

theorem buddy_coalesces_witness:
  "\<exists>p ma'. buddy_alloc False example_area 1000 = Some (p, ma') \<and> p \<noteq> 0"
  using buddy_coalesces[OF example_area_reach example_allocated(1), of False]
  by (auto simp: example_area_def buddy_init_def store_link_def in_heap_def DEFAULT_LOWER_def)

text \<open>C13: A request below 2^31 bytes is served exactly when there is a free block of more bytes than
  requested, anywhere in the area (a block of just the requested size does not do). Otherwise the
  kernel build stops at its assertion, and the USERLAND build returns NULL and leaves the area as
  it was. A request of 2^31 bytes or more never returns, because the size loop of mforsize wraps
  around.\<close>

theorem buddy_alloc_decides:
  assumes "area_reach ma"
  shows "(unat n < 2 ^ 31 \<longrightarrow>
       (if \<exists>k b. layout_of ma b = Some (k, False) \<and> unat n < 2 ^ k then \<exists>p ma'. buddy_alloc ul ma n = Some (p, ma') \<and> p \<noteq> 0
        else buddy_alloc ul ma n = (if ul then Some (0, ma) else None))) \<and>
     (2 ^ 31 \<le> unat n \<longrightarrow> buddy_alloc ul ma n = None)"
proof (intro conjI impI)
  show "if \<exists>k b. layout_of ma b = Some (k, False) \<and> unat n < 2 ^ k then \<exists>p ma'. buddy_alloc ul ma n = Some (p, ma') \<and> p \<noteq> 0
     else buddy_alloc ul ma n = (if ul then Some (0, ma) else None)" if "unat n < 2 ^ 31"
    unfolding has_room_def[symmetric] by (rule buddy_alloc_dichotomy[OF area_reach_ok[OF assms] that])
  show "buddy_alloc ul ma n = None" if "2 ^ 31 \<le> unat n"
    using mforsize_diverges[OF that] by (simp add: buddy_alloc_def)
qed

theorem buddy_alloc_decides_witness:
  "buddy_alloc True example_area 0x80000000 = None"
  using buddy_alloc_decides[OF example_area_reach, where n = "0x80000000" and ul = True] by simp

text \<open>The size class of mforsize: the least exponent, not below the minimum granularity, whose
  power exceeds the request (an exact power of two is therefore doubled).\<close>

lemma mforsize_least:
  assumes "area_reach ma" "unat n < 2 ^ 31"
  shows "\<exists>m. mforsize ma n = Some m \<and> lower ma \<le> m \<and> unat n < 2 ^ m \<and>
     (\<forall>j. lower ma \<le> j \<and> unat n < 2 ^ j \<longrightarrow> m \<le> j)"
proof -
  have "area_ok ma" using area_reach_ok[OF assms(1)] by (simp add: buddy_ok_def buddy_inv_def)
  then obtain m where m: "mforsize ma n = Some m" "lower ma \<le> m" "unat n < 2 ^ m"
    "m = lower ma \<or> 2 ^ (m - 1) \<le> unat n"
    using mforsize_ok[OF assms(2)] by blast
  have "(2::nat) ^ j \<le> 2 ^ (m - 1)" if "\<not> m \<le> j" for j using that by (intro power_increasing) simp_all
  then have "m \<le> j" if "lower ma \<le> j" "unat n < 2 ^ j" for j using m(4) that by fastforce
  then show ?thesis using m by blast
qed

text \<open>The kernel heap after kmalloc_init is one free block of 4 MB at 2 MB, and kmalloc and
  kfree started from there are inverse: allocating and freeing restores the set of live
  regions.\<close>

lemma kmalloc_kfree_inverse:
  assumes "kmalloc_init hp = Some ma"
  shows "layout_of ma = [0 \<mapsto> (22, False)] \<and> mem ma = 0x200000 \<and>
     (unat n < 2 ^ 22 \<longrightarrow> (\<exists>p ma1 ma2. kmalloc ma n = Some (p, ma1) \<and> kfree ma1 p = Some ma2 \<and>
        allocated ma1 p \<noteq> None \<and> allocated ma2 = allocated ma \<and> layout_of ma2 = layout_of ma))"
proof -
  have ma: "buddy_ok ma" "layout_of ma = [0 \<mapsto> (22, False)]" "mem ma = 0x200000" "upper ma = 22"
    using buddy_init_inv[of 22 "0x200000" hp] assms
    by (auto simp: kmalloc_init_def KERNEL_MEM_BASE_def KERNEL_MEM_SIZEPOW2_def DEFAULT_LOWER_def)
  have none: "allocated ma = Map.empty" using ma(2) by (auto simp: allocated_def used_of_def)
  have "\<exists>p ma1 ma2. kmalloc ma n = Some (p, ma1) \<and> kfree ma1 p = Some ma2 \<and>
        allocated ma1 p \<noteq> None \<and> allocated ma2 = allocated ma \<and> layout_of ma2 = layout_of ma"
    if n: "unat n < 2 ^ 22"
  proof -
    obtain p ma1 where p: "kmalloc ma n = Some (p, ma1)"
      using buddy_alloc_dichotomy[OF ma(1) room_when_empty(1)[OF ma(1) none], of n False]
        room_when_empty(2)[OF ma(1) none] n ma(1,4) by (auto simp: kmalloc_eq)
    then obtain k where k: "allocated ma1 = (allocated ma)(p \<mapsto> k)" "buddy_ok ma1" "same_area ma ma1"
      using buddy_alloc_cases[OF ma(1), of False n] ma(1) by (auto simp: kmalloc_eq)
    then obtain ma2 where r: "kfree ma1 p = Some ma2" "buddy_ok ma2" "same_area ma1 ma2"
      "allocated ma2 = (allocated ma1)(p := None)"
      using buddy_free_allocated[OF k(2), of p k] by (auto simp: kfree_def)
    then have "allocated ma2 = allocated ma" using k none by simp
    moreover from this have "layout_of ma2 = layout_of ma"
      using all_released_layout[OF r(2)] none ma(2,4) r(3) k(3) by (simp add: same_area_def)
    ultimately show ?thesis using p r k by auto
  qed
  then show ?thesis using ma by blast
qed

end
