(* ===== verification/Memory.thy ===== *)
theory Memory
  imports RPrelude
begin

text \<open>
  Byte-addressed memory with little-endian 32-bit accesses, as the kernel sees physical memory,
  and the arithmetic of 4096-byte pages.
\<close>

type_synonym bytemem = "u32 \<Rightarrow> u8"

definition load32 :: "bytemem \<Rightarrow> u32 \<Rightarrow> u32" where
  "load32 m a = ucast (m a) OR push_bit 8 (ucast (m (a + 1))) OR push_bit 16 (ucast (m (a + 2)))
     OR push_bit 24 (ucast (m (a + 3)))"

definition store32 :: "bytemem \<Rightarrow> u32 \<Rightarrow> u32 \<Rightarrow> bytemem" where
  "store32 m a v = m(a := ucast v, a + 1 := ucast (drop_bit 8 v), a + 2 := ucast (drop_bit 16 v),
     a + 3 := ucast (drop_bit 24 v))"

definition PAGE_SIZE :: u32 where "PAGE_SIZE = 4096"

section \<open>Aligned words\<close>

definition word_aligned :: "u32 \<Rightarrow> bool" where
  "word_aligned a \<longleftrightarrow> 4 dvd unat a"

definition page_aligned :: "u32 \<Rightarrow> bool" where
  "page_aligned a \<longleftrightarrow> 4096 dvd unat a"

definition page_of :: "u32 \<Rightarrow> nat" where
  "page_of a = unat a div 4096"

lemma split_bytes:
  fixes v :: u32
  shows "ucast (ucast v :: u8) OR push_bit 8 (ucast (ucast (drop_bit 8 v) :: u8)) OR
   push_bit 16 (ucast (ucast (drop_bit 16 v) :: u8)) OR
   push_bit 24 (ucast (ucast (drop_bit 24 v) :: u8)) = v" (is "?w = v")
proof (rule bit_word_eqI)
  fix n assume "n < LENGTH(32)"
  then have "n < 8 \<or> (8 \<le> n \<and> n < 16) \<or> (16 \<le> n \<and> n < 24) \<or> (24 \<le> n \<and> n < 32)" by auto
  then show "bit ?w n = bit v n"
    by (elim disjE) (auto simp: bit_simps)
qed

lemma unat_add_small: "word_aligned a \<Longrightarrow> k < 4 \<Longrightarrow> unat (a + of_nat k) = unat a + k"
proof -
  assume a: "word_aligned a" and k: "k < 4"
  have "unat a < 2 ^ 32" using unat_u32_less[of a] by simp
  then have "unat a + 4 \<le> 2 ^ 32" using a by (auto simp: word_aligned_def elim!: dvdE)
  then show ?thesis using k by (simp add: unat_word_ariths unat_of_nat)
qed

lemma aligned_bytes:
  assumes "word_aligned a"
  shows "unat (a + 1) = unat a + 1" "unat (a + 2) = unat a + 2" "unat (a + 3) = unat a + 3"
  using unat_add_small[OF assms, of 1] unat_add_small[OF assms, of 2] unat_add_small[OF assms, of 3]
  by simp_all

lemma load32_store32_same [simp]: "load32 (store32 m a v) a = v"
  using split_bytes[of v] by (simp add: load32_def store32_def)

lemma store32_outside:
  assumes "word_aligned a" "word_aligned b" "a \<noteq> b" "k < 4"
  shows "store32 m a v (b + of_nat k) = m (b + of_nat k)"
proof -
  have "unat a \<noteq> unat b" using assms(3) by (simp add: unat_u32_inj)
  moreover have "unat (b + of_nat k) = unat b + k" by (rule unat_add_small[OF assms(2,4)])
  ultimately have "unat (b + of_nat k) div 4 \<noteq> unat a div 4"
    using assms(1,2,4) by (auto simp: word_aligned_def elim!: dvdE)
  then have "unat (b + of_nat k) \<noteq> unat a" "unat (b + of_nat k) \<noteq> unat (a + 1)"
    "unat (b + of_nat k) \<noteq> unat (a + 2)" "unat (b + of_nat k) \<noteq> unat (a + 3)"
    using aligned_bytes[OF assms(1)] assms(1) by (auto simp: word_aligned_def elim!: dvdE)
  then show ?thesis by (auto simp: store32_def)
qed

lemma load32_store32_other:
  assumes "word_aligned a" "word_aligned b" "a \<noteq> b"
  shows "load32 (store32 m a v) b = load32 m b"
  using store32_outside[OF assms, of 0] store32_outside[OF assms, of 1]
    store32_outside[OF assms, of 2] store32_outside[OF assms, of 3]
  by (simp add: load32_def)

lemma load32_cong:
  assumes "\<And>k. k < 4 \<Longrightarrow> m' (b + of_nat k) = m (b + of_nat k)"
  shows "load32 m' b = load32 m b"
  using assms[of 0] assms[of 1] assms[of 2] assms[of 3] by (simp add: load32_def)

section \<open>Pages\<close>

lemma page_aligned_zero [simp]: "page_aligned 0"
  by (simp add: page_aligned_def)

lemma page_of_word:
  assumes "word_aligned b" "k < 4"
  shows "page_of (b + of_nat k) = page_of b"
  using unat_add_small[OF assms] assms by (auto simp: page_of_def word_aligned_def elim!: dvdE)

lemma unat_entry:
  assumes "page_aligned p" "i < 1024"
  shows "unat (p + 4 * of_nat i) = unat p + 4 * i"
proof -
  have "unat p < 2 ^ 32" using unat_u32_less[of p] by simp
  then have "unat p + 4096 \<le> 2 ^ 32" using assms(1) by (auto simp: page_aligned_def elim!: dvdE)
  moreover have "unat (4 * of_nat i :: u32) = 4 * i" using assms(2)
    by (simp add: unat_word_ariths unat_of_nat)
  ultimately show ?thesis using assms(2) by (simp add: unat_word_ariths)
qed

lemma entry_aligned [simp]:
  assumes "page_aligned p" "i < 1024"
  shows "word_aligned (p + 4 * of_nat i)"
  using unat_entry[OF assms] assms(1) by (auto simp: word_aligned_def page_aligned_def elim!: dvdE)

lemma entry_page [simp]:
  assumes "page_aligned p" "i < 1024"
  shows "page_of (p + 4 * of_nat i) = page_of p"
  using unat_entry[OF assms] assms by (auto simp: page_of_def page_aligned_def elim!: dvdE)

lemma entry_inj:
  assumes "page_aligned p" "i < 1024" "page_aligned q" "j < 1024"
    "p + 4 * of_nat i = q + 4 * of_nat j"
  shows "p = q \<and> i = j"
proof -
  have "unat p + 4 * i = unat q + 4 * j"
    using assms(5) unat_entry[OF assms(1,2)] unat_entry[OF assms(3,4)] by metis
  moreover obtain x y where "unat p = 4096 * x" "unat q = 4096 * y"
    using assms(1,3) by (auto simp: page_aligned_def elim!: dvdE)
  ultimately have "4096 * x + 4 * i = 4096 * y + 4 * j" "unat p = 4096 * x" "unat q = 4096 * y" by simp_all
  moreover from this have "x = y" using assms(2,4) by linarith
  ultimately have "unat p = unat q \<and> i = j" by simp
  then show ?thesis by (simp add: unat_u32_inj)
qed

lemma page_of_inj:
  assumes "page_aligned p" "page_aligned q" "page_of p = page_of q" shows "p = q"
proof -
  have "unat p = unat q" using assms by (auto simp: page_aligned_def page_of_def elim!: dvdE)
  then show ?thesis by (simp add: unat_u32_inj)
qed

text \<open>The loop of \<open>alloc_page\<close> that clears the 1024 words of a page.\<close>

definition zero_page :: "bytemem \<Rightarrow> u32 \<Rightarrow> bytemem" where
  "zero_page m address = fold (\<lambda>i m. store32 m (address + 4 * of_nat i) 0) [0..<1024] m"

lemma zero_words:
  assumes "page_aligned p" "n \<le> 1024"
  shows "fold (\<lambda>i m. store32 m (p + 4 * of_nat i) 0) [0..<n] m a =
    (if unat p \<le> unat a \<and> unat a < unat p + 4 * n then 0 else m a)"
  using assms(2)
proof (induction n)
  case (Suc n)
  let ?b = "p + 4 * of_nat n"
  have b: "word_aligned ?b" "unat ?b = unat p + 4 * n"
    using Suc.prems unat_entry[OF assms(1)] entry_aligned[OF assms(1)] by simp_all
  have eq: "fold (\<lambda>i m. store32 m (p + 4 * of_nat i) 0) [0..<Suc n] m a =
    store32 (fold (\<lambda>i m. store32 m (p + 4 * of_nat i) 0) [0..<n] m) ?b 0 a" by simp
  note IH = Suc.IH[OF Suc_leD[OF Suc.prems]]
  have ne: "(a = ?b) = (unat a = unat p + 4 * n)" "(a = ?b + 1) = (unat a = unat p + 4 * n + 1)"
    "(a = ?b + 2) = (unat a = unat p + 4 * n + 2)" "(a = ?b + 3) = (unat a = unat p + 4 * n + 3)"
    using aligned_bytes[OF b(1)] b(2) by (auto simp: word_unat_eq_iff)
  show ?case
  proof (cases "unat p + 4 * n \<le> unat a \<and> unat a < unat p + 4 * Suc n")
    case True
    then have "unat a = unat p + 4 * n \<or> unat a = unat p + 4 * n + 1 \<or>
      unat a = unat p + 4 * n + 2 \<or> unat a = unat p + 4 * n + 3" by auto
    then have "a = ?b \<or> a = ?b + 1 \<or> a = ?b + 2 \<or> a = ?b + 3" using ne by blast
    then have "store32 h ?b 0 a = 0" for h by (auto simp: store32_def)
    then show ?thesis using True unfolding eq by auto
  next
    case False
    then have "store32 h ?b 0 a = h a" for h using ne by (auto simp: store32_def)
    then show ?thesis using False IH unfolding eq by auto
  qed
qed auto

lemma zero_page_apply:
  assumes "page_aligned p"
  shows "zero_page m p a = (if page_of a = page_of p then 0 else m a)"
proof -
  have "(unat p \<le> unat a \<and> unat a < unat p + 4 * 1024) = (page_of a = page_of p)"
    using assms by (auto simp: page_aligned_def page_of_def elim!: dvdE)
  then show ?thesis using zero_words[OF assms, of 1024 m a] by (simp add: zero_page_def)
qed

lemma load32_zero_page:
  assumes "page_aligned p" "word_aligned b"
  shows "load32 (zero_page m p) b = (if page_of b = page_of p then 0 else load32 m b)"
proof (cases "page_of b = page_of p")
  case True
  then have "zero_page m p (b + of_nat k) = 0" if "k < 4" for k
    using that zero_page_apply[OF assms(1)] page_of_word[OF assms(2)] by simp
  from this[of 0] this[of 1] this[of 2] this[of 3] show ?thesis using True by (simp add: load32_def)
next
  case False
  then have "load32 (zero_page m p) b = load32 m b"
    using zero_page_apply[OF assms(1)] page_of_word[OF assms(2)] by (intro load32_cong) simp
  then show ?thesis using False by simp
qed

lemma load32_store32_page:
  assumes "word_aligned a" "word_aligned b" "page_of a \<noteq> page_of b"
  shows "load32 (store32 m a v) b = load32 m b"
  using assms by (intro load32_store32_other) auto

lemma store32_page:
  assumes "word_aligned a" "page_of x \<noteq> page_of a"
  shows "store32 m a v x = m x"
proof -
  have "page_of (a + of_nat k) = page_of a" if "k < 4" for k by (rule page_of_word[OF assms(1) that])
  from this[of 0] this[of 1] this[of 2] this[of 3] assms(2)
  show ?thesis by (auto simp: store32_def)
qed

section \<open>Page numbers with flag bits\<close>

lemma page_aligned_bits:
  assumes "page_aligned p" "i < 12" shows "\<not> bit p i"
proof -
  obtain k where k: "unat p = 4096 * k" using assms(1) by (auto simp: page_aligned_def)
  have "(4096::nat) = 2 ^ (12 - i) * 2 ^ i" using assms(2) by (simp flip: power_add)
  then have "unat p = 2 ^ i * (2 ^ (12 - i) * k)" using k by (metis mult.assoc mult.commute)
  then have "unat p div 2 ^ i = 2 ^ (12 - i) * k" by simp
  then show ?thesis using assms(2) by (simp add: bit_u32_unat)
qed

lemma page_mask_eq: "(0xFFFFF000 :: u32) = NOT (mask 12)"
  by (simp add: mask_eq_exp_minus_1)

lemma high_bits:
  assumes "unat (f::u32) < 2 ^ k" "k \<le> n" shows "\<not> bit f n"
proof -
  have "(2::nat) ^ k \<le> 2 ^ n" using assms(2) by (intro power_increasing) simp_all
  then have "unat f < 2 ^ n" using assms(1) by linarith
  then show ?thesis by (simp add: bit_u32_unat)
qed

lemma page_flags:
  assumes "page_aligned p" "\<forall>n\<ge>12. \<not> bit (f::u32) n"
  shows "(p OR f) AND 0xFFFFF000 = p"
proof (rule bit_word_eqI)
  fix n assume n: "n < LENGTH(32)"
  have "bit (0xFFFFF000 :: u32) n = (12 \<le> n)" using n unfolding page_mask_eq by (auto simp: bit_simps)
  then show "bit ((p OR f) AND 0xFFFFF000) n = bit p n"
    using assms(2) page_aligned_bits[OF assms(1), of n] by (auto simp: bit_simps)
qed

lemma mask_aligned: "page_aligned (w AND 0xFFFFF000)"
proof -
  have "w AND 0xFFFFF000 = push_bit 12 (drop_bit 12 w)"
    unfolding page_mask_eq by (intro bit_word_eqI) (auto simp: bit_simps)
  then have "unat (w AND 0xFFFFF000) = take_bit 32 (push_bit 12 (unat (drop_bit 12 w)))"
    by (simp add: unsigned_push_bit_eq)
  also have "\<dots> = push_bit 12 (take_bit 20 (unat (drop_bit 12 w)))"
    by (simp add: take_bit_push_bit)
  finally show ?thesis by (simp add: page_aligned_def push_bit_eq_mult)
qed

end
