(* ===== verification/Page.thy ===== *)
theory Page
  imports Memory
begin

text \<open>
  Physical pages and page tables, page.c. The state is the allocator's three variables and
  physical memory; page directories and page tables are arrays of 1024 words in that memory,
  and the free list is threaded through the free pages. The functions run on physical
  addresses, so they are called with paging disabled.
\<close>

definition PAGE_START :: u32 where "PAGE_START = 6 * 1048576"
definition PAGE_ADDRESS_MASK :: u32 where "PAGE_ADDRESS_MASK = 0xFFFFF000"
definition PAGE_USER :: u32 where "PAGE_USER = 4"
definition PAGE_SUPERVISOR :: u32 where "PAGE_SUPERVISOR = 0"
definition PAGE_READ_WRITE :: u32 where "PAGE_READ_WRITE = 2"
definition PAGE_READ_ONLY :: u32 where "PAGE_READ_ONLY = 0"
definition PAGE_PRESENT :: u32 where "PAGE_PRESENT = 1"

record pages =
  page_end :: u32
  page_free :: u32
  npages :: u32
  pmem :: bytemem

definition alloc_page :: "pages \<Rightarrow> u32 \<times> pages" where
  "alloc_page st = (
     let st1 = st\<lparr>npages := npages st + 1\<rparr>;
         (address, st2) =
           (if page_free st1 = 0 then (page_end st1, st1\<lparr>page_end := page_end st1 + PAGE_SIZE\<rparr>)
            else (page_free st1, st1\<lparr>page_free := load32 (pmem st1) (page_free st1)\<rparr>))
     in (address, st2\<lparr>pmem := zero_page (pmem st2) address\<rparr>))"

definition free_page :: "u32 \<Rightarrow> pages \<Rightarrow> pages option" where
  "free_page page st = do {
     kassert (0 < npages st);
     Some (st\<lparr>npages := npages st - 1, pmem := store32 (pmem st) page (page_free st),
              page_free := page\<rparr>) }"

text \<open>The accesses \<open>table[i]\<close> of an array of words at a physical address.\<close>

definition get_entry :: "pages \<Rightarrow> u32 \<Rightarrow> u32 \<Rightarrow> u32" where
  "get_entry st tbl i = load32 (pmem st) (tbl + 4 * i)"

definition set_entry :: "u32 \<Rightarrow> u32 \<Rightarrow> u32 \<Rightarrow> pages \<Rightarrow> pages" where
  "set_entry tbl i v st = st\<lparr>pmem := store32 (pmem st) (tbl + 4 * i) v\<rparr>"

definition dirindex :: "u32 \<Rightarrow> u32" where "dirindex logical = logical div PAGE_SIZE div 1024"
definition tblindex :: "u32 \<Rightarrow> u32" where "tblindex logical = logical div PAGE_SIZE mod 1024"

definition map_page :: "u32 \<Rightarrow> u32 \<Rightarrow> u32 \<Rightarrow> u32 \<Rightarrow> u32 \<Rightarrow> pages \<Rightarrow> pages option" where
  "map_page pdir logical physical access readwrite st = do {
     kassert (0 = logical mod PAGE_SIZE);
     kassert (0 = physical mod PAGE_SIZE);
     let st1 =
       (if get_entry st pdir (dirindex logical) AND PAGE_PRESENT = 0
        then (let (dirpage, st') = alloc_page st
              in set_entry pdir (dirindex logical)
                   (dirpage OR PAGE_PRESENT OR PAGE_USER OR PAGE_READ_WRITE) st')
        else st);
     let ptable = get_entry st1 pdir (dirindex logical) AND PAGE_ADDRESS_MASK;
     Some (set_entry ptable (tblindex logical) (physical OR PAGE_PRESENT OR access OR readwrite) st1) }"

text \<open>The result \<open>Some None\<close> is the return value 0 (not mapped).\<close>

definition lookup_page :: "u32 \<Rightarrow> u32 \<Rightarrow> pages \<Rightarrow> u32 option option" where
  "lookup_page pdir logical st = do {
     kassert (0 = logical mod PAGE_SIZE);
     let pde = get_entry st pdir (dirindex logical);
     if pde AND PAGE_PRESENT = 0 then Some None
     else do {
       let pte = get_entry st (pde AND PAGE_ADDRESS_MASK) (tblindex logical);
       if pte AND PAGE_PRESENT = 0 then Some None
       else Some (Some (pte AND PAGE_ADDRESS_MASK)) } }"

definition unmap_and_free_page :: "u32 \<Rightarrow> u32 \<Rightarrow> pages \<Rightarrow> pages option" where
  "unmap_and_free_page pdir logical st = do {
     kassert (0 = logical mod PAGE_SIZE);
     let pde = get_entry st pdir (dirindex logical);
     if pde AND PAGE_PRESENT = 0 then Some st
     else do {
       let ptable = pde AND PAGE_ADDRESS_MASK;
       let pte = get_entry st ptable (tblindex logical);
       if pte AND PAGE_PRESENT = 0 then Some st
       else do {
         st1 \<leftarrow> free_page (pte AND PAGE_ADDRESS_MASK) st;
         Some (set_entry ptable (tblindex logical) 0 st1) } } }"

text \<open>The loop variable of \<open>identity_map\<close> is a 32-bit word that may wrap around.\<close>

partial_function (option) identity_map :: "u32 \<Rightarrow> u32 \<Rightarrow> u32 \<Rightarrow> u32 \<Rightarrow> u32 \<Rightarrow> pages \<Rightarrow> pages option" where
  "identity_map pdir addr stop access readwrite st =
     (if addr < stop then do {
        st1 \<leftarrow> map_page pdir addr addr access readwrite st;
        identity_map pdir (addr + PAGE_SIZE) stop access readwrite st1 }
      else Some st)"

declare identity_map.simps [code]

primrec map_new_loop :: "u32 \<Rightarrow> u32 \<Rightarrow> nat \<Rightarrow> pages \<Rightarrow> pages option" where
  "map_new_loop pdir base 0 st = Some st"
| "map_new_loop pdir base (Suc i) st = do {
     st0 \<leftarrow> map_new_loop pdir base i st;
     let (page, st1) = alloc_page st0;
     map_page pdir (base + of_nat i * PAGE_SIZE) page PAGE_USER PAGE_READ_WRITE st1 }"

definition map_new_pages :: "u32 \<Rightarrow> u32 \<Rightarrow> u32 \<Rightarrow> pages \<Rightarrow> pages option" where
  "map_new_pages pdir base n st = do {
     kassert (0 = base mod PAGE_SIZE);
     map_new_loop pdir base (unat n) st }"

primrec free_tables :: "u32 \<Rightarrow> nat \<Rightarrow> pages \<Rightarrow> pages option" where
  "free_tables pdir 0 st = Some st"
| "free_tables pdir (Suc i) st = do {
     st1 \<leftarrow> free_tables pdir i st;
     let pde = get_entry st1 pdir (of_nat i);
     if pde AND PAGE_PRESENT \<noteq> 0 then free_page (pde AND PAGE_ADDRESS_MASK) st1 else Some st1 }"

definition free_page_dir :: "u32 \<Rightarrow> pages \<Rightarrow> pages option" where
  "free_page_dir pdir st = do { st1 \<leftarrow> free_tables pdir 1024 st; free_page pdir st1 }"

end
