(* ===== verification/Page_Correct.thy ===== *)
theory Page_Correct
  imports Page Allocator
begin

text \<open>
  Correctness of page.c: the page allocator hands out fresh zeroed pages and keeps count of
  them; a page directory is a finite map from logical pages to page table entries, and
  \<open>map_page\<close>, \<open>lookup_page\<close>, \<open>unmap_and_free_page\<close>, \<open>identity_map\<close>, \<open>map_new_pages\<close> and
  \<open>free_page_dir\<close> act on that map without touching any other live page.
\<close>

section \<open>Entries of a table\<close>

lemma entryW:
  assumes "page_aligned p" "i < (1024::u32)"
  shows "word_aligned (p + 4 * i)" "page_of (p + 4 * i) = page_of p"
  using entry_aligned[OF assms(1), of "unat i"] entry_page[OF assms(1), of "unat i"] assms(2)
  by (simp_all add: word_less_nat_alt)

lemma entryW_inj:
  assumes "page_aligned p" "i < (1024::u32)" "page_aligned q" "j < 1024" "p + 4 * i = q + 4 * j"
  shows "p = q \<and> i = j"
  using entry_inj[OF assms(1) _ assms(3), of "unat i" "unat j"] assms(2,4,5)
  by (simp add: word_less_nat_alt unat_u32_inj)

lemma get_set_entry:
  assumes "page_aligned t" "page_aligned s" "i < 1024" "j < 1024"
  shows "get_entry (set_entry t i v st) s j = (if s = t \<and> i = j then v else get_entry st s j)"
proof (cases "t + 4 * i = s + 4 * j")
  case True
  then show ?thesis using entryW_inj[OF assms(1,3,2,4)] by (auto simp: get_entry_def set_entry_def)
next
  case False
  then show ?thesis using entryW(1)[OF assms(1,3)] entryW(1)[OF assms(2,4)]
    by (auto simp: get_entry_def set_entry_def load32_store32_other)
qed

lemma set_entry_simps [simp]:
  "page_end (set_entry t i v st) = page_end st"
  "page_free (set_entry t i v st) = page_free st"
  "npages (set_entry t i v st) = npages st"
  by (simp_all add: set_entry_def)

lemma set_entry_frame:
  assumes "page_aligned t" "i < 1024" "page_of x \<noteq> page_of t"
  shows "pmem (set_entry t i v st) x = pmem st x"
  using entryW[OF assms(1,2)] assms(3) by (simp add: set_entry_def store32_page)

lemma get_entry_cong:
  assumes "page_aligned t" "i < 1024" "\<forall>x. page_of x = page_of t \<longrightarrow> pmem st' x = pmem st x"
  shows "get_entry st' t i = get_entry st t i"
  unfolding get_entry_def
  using assms(3) page_of_word[OF entryW(1)[OF assms(1,2)]] entryW(2)[OF assms(1,2)]
  by (intro load32_cong) simp

lemma index_bounds [simp]: "dirindex l < 1024" "tblindex l < 1024"
proof -
  have "unat l div 4096 div 1024 < 1024" using unat_u32_less[of l] by simp
  then show "dirindex l < 1024" by (simp add: dirindex_def PAGE_SIZE_def word_less_nat_alt unat_div)
  show "tblindex l < 1024"
    by (simp add: tblindex_def PAGE_SIZE_def word_less_nat_alt unat_mod)
qed

lemma index_inj:
  assumes "page_aligned l" "page_aligned l'" "dirindex l = dirindex l'" "tblindex l = tblindex l'"
  shows "l = l'"
proof -
  have "unat l div 4096 div 1024 = unat l' div 4096 div 1024"
    "unat l div 4096 mod 1024 = unat l' div 4096 mod 1024"
    using assms(3,4) by (simp_all add: dirindex_def tblindex_def PAGE_SIZE_def word_unat_eq_iff unat_div unat_mod)
  then have "unat l div 4096 = unat l' div 4096" by (metis div_mult_mod_eq)
  then show ?thesis using assms(1,2) by (intro page_of_inj) (simp_all add: page_of_def)
qed

lemma page_aligned_mod: "page_aligned l \<longleftrightarrow> 0 = l mod PAGE_SIZE"
  by (auto simp: page_aligned_def PAGE_SIZE_def word_unat_eq_iff unat_mod mod_eq_0_iff_dvd)

section \<open>The page allocator\<close>

definition managed :: "pages \<Rightarrow> u32 set" where
  "managed st = {a. page_aligned a \<and> PAGE_START \<le> a \<and> a < page_end st}"

fun page_chain :: "bytemem \<Rightarrow> u32 \<Rightarrow> u32 list \<Rightarrow> bool" where
  "page_chain m p [] = (p = 0)"
| "page_chain m p (x # xs) = (p = x \<and> x \<noteq> 0 \<and> page_chain m (load32 m x) xs)"

text \<open>\<open>page_pool st A\<close>: the live pages are exactly \<open>A\<close>; the other managed pages form the free list.\<close>

definition page_pool :: "pages \<Rightarrow> u32 set \<Rightarrow> bool" where
  "page_pool st A \<longleftrightarrow> page_aligned (page_end st) \<and> PAGE_START \<le> page_end st \<and>
     (\<exists>F. page_chain (pmem st) (page_free st) F \<and> distinct F \<and> set F \<inter> A = {} \<and> set F \<union> A = managed st) \<and>
     unat (npages st) = card A"

definition room :: "nat \<Rightarrow> pages \<Rightarrow> bool" where
  "room k st \<longleftrightarrow> unat (page_end st) + 4096 * k < 2 ^ 32"

definition same_on :: "u32 set \<Rightarrow> pages \<Rightarrow> pages \<Rightarrow> bool" where
  "same_on A st st' \<longleftrightarrow> (\<forall>x. page_of x \<in> page_of ` A \<longrightarrow> pmem st' x = pmem st x)"

lemma same_on_trans: "same_on A a b \<Longrightarrow> same_on B b c \<Longrightarrow> C \<subseteq> A \<Longrightarrow> C \<subseteq> B \<Longrightarrow> same_on C a c"
  unfolding same_on_def by (metis (no_types, lifting) image_mono subsetD)

lemma same_on_refl [simp]: "same_on A st st"
  by (simp add: same_on_def)

lemma same_on_mono: "same_on A a b \<Longrightarrow> B \<subseteq> A \<Longrightarrow> same_on B a b"
  unfolding same_on_def by blast

lemma managedD:
  assumes "a \<in> managed st" shows "page_aligned a" "a \<noteq> 0" "word_aligned a"
  using assms by (auto simp: managed_def PAGE_START_def page_aligned_def word_aligned_def
      word_le_nat_alt elim!: dvdE)

lemma page_poolD:
  assumes "page_pool st A"
  shows "A \<subseteq> managed st" "unat (npages st) = card A" "finite A"
proof -
  show "A \<subseteq> managed st" "unat (npages st) = card A" using assms by (auto simp: page_pool_def)
  show "finite A" by (rule finite_subset[OF subset_UNIV finite])
qed

lemma same_on_other:
  assumes "page_aligned p" "A \<subseteq> managed st" "\<forall>x. page_of x \<noteq> page_of p \<longrightarrow> pmem st' x = pmem st x"
  shows "same_on (A - {p}) st st'"
  unfolding same_on_def
proof (intro allI impI)
  fix x assume "page_of x \<in> page_of ` (A - {p})"
  then obtain y where "y \<in> A" "y \<noteq> p" "page_of x = page_of y" by auto
  moreover from this have "page_aligned y" using assms(2) managedD(1) by blast
  ultimately show "pmem st' x = pmem st x" using assms(1,3) page_of_inj by metis
qed

lemma page_chain_cong:
  assumes "\<forall>x \<in> set xs. load32 m' x = load32 m x" shows "page_chain m' p xs = page_chain m p xs"
  using assms by (induction xs arbitrary: p) auto

lemma chain_frame:
  assumes "page_chain (pmem st) p F" "set F \<subseteq> managed st"
    "\<forall>x. page_of x \<in> page_of ` set F \<longrightarrow> m' x = pmem st x"
  shows "page_chain m' p F"
proof -
  have "load32 m' x = load32 (pmem st) x" if "x \<in> set F" for x
  proof (rule load32_cong)
    fix k :: nat assume "k < 4"
    then have "page_of (x + of_nat k) = page_of x"
      using that assms(2) managedD(3) by (intro page_of_word) auto
    then show "m' (x + of_nat k) = pmem st (x + of_nat k)" using that assms(3) by simp
  qed
  then show ?thesis using assms(1) page_chain_cong by blast
qed

text \<open>A change of memory outside the free pages keeps the pool.\<close>

lemma page_pool_frame:
  assumes pool: "page_pool st A" and m': "\<forall>x. page_of x \<notin> page_of ` A \<longrightarrow> m' x = pmem st x"
  shows "page_pool (st\<lparr>pmem := m'\<rparr>) A"
proof -
  obtain F where F: "page_chain (pmem st) (page_free st) F" "distinct F" "set F \<inter> A = {}"
    "set F \<union> A = managed st" using pool by (auto simp: page_pool_def)
  have "page_of x \<notin> page_of ` A" if "page_of x \<in> page_of ` set F" for x
    using that F(3,4) page_of_inj managedD(1) by (metis (no_types, lifting) IntI UnCI empty_iff imageE)
  then have "page_chain m' (page_free st) F"
    using m' F(4) by (intro chain_frame[OF F(1)]) auto
  moreover have "managed (st\<lparr>pmem := m'\<rparr>) = managed st" by (simp add: managed_def)
  ultimately show ?thesis using pool F by (auto simp: page_pool_def)
qed

lemma set_entry_pool:
  assumes "page_pool st A" "t \<in> A" "i < 1024"
  shows "page_pool (set_entry t i v st) A" "same_on (A - {t}) st (set_entry t i v st)"
proof -
  have t: "page_aligned t" using assms(1,2) page_poolD(1) managedD(1) by blast
  show "page_pool (set_entry t i v st) A"
    unfolding set_entry_def using set_entry_frame[OF t assms(3), of _ v st] assms(2)
    by (intro page_pool_frame[OF assms(1)]) (force simp: set_entry_def)
  show "same_on (A - {t}) st (set_entry t i v st)"
    using set_entry_frame[OF t assms(3), of _ v st] by (intro same_on_other[OF t page_poolD(1)[OF assms(1)]]) blast
qed

lemma alloc_page_ok:
  assumes pool: "page_pool st A" and room: "room 1 st"
  obtains p st' where "alloc_page st = (p, st')" "p \<notin> A" "page_aligned p" "p \<noteq> 0"
    "page_pool st' (insert p A)" "same_on A st st'" "unat (page_end st') \<le> unat (page_end st) + 4096"
    "page_end st \<le> page_end st'" "\<forall>x. page_of x = page_of p \<longrightarrow> pmem st' x = 0"
proof -
  obtain F where F: "page_chain (pmem st) (page_free st) F" "distinct F" "set F \<inter> A = {}"
    "set F \<union> A = managed st" using pool by (auto simp: page_pool_def)
  note pd = page_poolD[OF pool]
  let ?p = "if page_free st = 0 then page_end st else page_free st"
  let ?e = "if page_free st = 0 then page_end st + 4096 else page_end st"
  let ?f = "if page_free st = 0 then 0 else load32 (pmem st) (page_free st)"
  let ?st = "st\<lparr>npages := npages st + 1, page_end := ?e, page_free := ?f, pmem := zero_page (pmem st) ?p\<rparr>"
  have eq: "alloc_page st = (?p, ?st)"
    by (simp add: alloc_page_def PAGE_SIZE_def Let_def)
  have e: "page_aligned (page_end st)" "PAGE_START \<le> page_end st" using pool by (auto simp: page_pool_def)
  have e4: "unat (page_end st + 4096) = unat (page_end st) + 4096"
    using room by (simp add: room_def unat_word_ariths)
  then have al: "page_aligned (page_end st + 4096)" using e(1) by (simp add: page_aligned_def)
  have en: "page_end st \<notin> managed st" by (simp add: managed_def)
  have "managed ?st = managed st \<union> {?p} \<and> ?p \<notin> A \<and> page_aligned ?p \<and>
      page_chain (pmem st) ?f (tl F) \<and> distinct (tl F) \<and> set (tl F) = set F - {?p}"
  proof (cases "page_free st = 0")
    case True
    have "(x < page_end st + 4096) = (x < page_end st \<or> x = page_end st)" if "page_aligned x" for x
      using that e(1) e4 by (auto simp: word_less_nat_alt page_aligned_def simp flip: unat_u32_inj elim!: dvdE)
    then have "managed ?st = managed st \<union> {page_end st}"
      using True e by (auto simp: managed_def)
    moreover have "F = []" using F(1) True by (cases F) auto
    ultimately show ?thesis using True F e(1) en pd(1) by auto
  next
    case False
    then obtain G where G: "F = page_free st # G" using F(1) by (cases F) auto
    have "page_free st \<in> managed st" using G F(4) by auto
    moreover have "managed ?st = managed st" using False by (simp add: managed_def)
    ultimately show ?thesis using False G F managedD(1) by auto
  qed
  then have mg: "managed ?st = managed st \<union> {?p}" and pA: "?p \<notin> A" and pal: "page_aligned ?p"
    and ch: "page_chain (pmem st) ?f (tl F)" and dF: "distinct (tl F)" and tF: "set (tl F) = set F - {?p}"
    by blast+
  have p0: "?p \<noteq> 0" using e(2) by (auto simp: PAGE_START_def word_le_nat_alt)
  have "page_of x \<noteq> page_of ?p" if "page_of x \<in> page_of ` (set (tl F))" for x
    using that tF F(4) pal page_of_inj managedD(1) by (metis (no_types, lifting) DiffD1 DiffD2 UnCI imageE singletonI)
  then have ch': "page_chain (zero_page (pmem st) ?p) ?f (tl F)"
    using tF F(4) zero_page_apply[OF pal] by (intro chain_frame[OF ch]) auto
  have "card A < 2 ^ 32 - 1"
  proof -
    have "card A \<le> card {..<(2::nat) ^ 20}"
    proof (rule card_inj_on_le[of page_of])
      show "inj_on page_of A" using pd(1) managedD(1) by (intro inj_onI page_of_inj) auto
      show "page_of ` A \<subseteq> {..<2 ^ 20}"
      proof
        fix n assume "n \<in> page_of ` A"
        then obtain a where "n = page_of a" by blast
        then show "n \<in> {..<2 ^ 20}" using unat_u32_less[of a] by (simp add: page_of_def)
      qed
    qed simp
    then show ?thesis by simp
  qed
  then have "unat (npages st + 1) = card (insert ?p A)"
    using pd(2,3) pA by (simp add: unat_word_ariths)
  then have pool': "page_pool ?st (insert ?p A)"
    unfolding page_pool_def using mg ch' dF tF F(3,4) e al pA e4
    by (intro conjI exI[of _ "tl F"]) (auto simp: word_le_nat_alt)
  have so: "same_on A st ?st"
    using zero_page_apply[OF pal] same_on_other[OF pal pd(1), of ?st] pA by simp
  show ?thesis
    by (rule that[OF eq pA pal p0 pool' so]) (use e4 zero_page_apply[OF pal] in \<open>auto simp: word_le_nat_alt\<close>)
qed

lemma free_page_ok:
  assumes pool: "page_pool st A" and p: "p \<in> A"
  obtains st' where "free_page p st = Some st'" "page_pool st' (A - {p})" "same_on (A - {p}) st st'"
    "page_end st' = page_end st"
proof -
  obtain F where F: "page_chain (pmem st) (page_free st) F" "distinct F" "set F \<inter> A = {}"
    "set F \<union> A = managed st" using pool by (auto simp: page_pool_def)
  note pd = page_poolD[OF pool]
  have pal: "page_aligned p" "word_aligned p" "p \<noteq> 0" using p pd(1) managedD by blast+
  have card: "0 < card A" using p pd(3) by (auto simp: card_gt_0_iff)
  let ?st = "st\<lparr>npages := npages st - 1, pmem := store32 (pmem st) p (page_free st), page_free := p\<rparr>"
  have eq: "free_page p st = Some ?st"
    using card pd(2) by (simp add: free_page_def word_less_nat_alt)
  have ne: "page_of x \<noteq> page_of p" if "x \<in> managed st" "x \<noteq> p" for x
    using that pal page_of_inj managedD(1) by blast
  have "page_of x \<noteq> page_of p" if "page_of x \<in> page_of ` set F" for x
    using that ne F(3,4) p by (metis (no_types, lifting) IntI UnCI empty_iff imageE)
  then have "page_chain (store32 (pmem st) p (page_free st)) (page_free st) F"
    using F(4) store32_page[OF pal(2)] by (intro chain_frame[OF F(1)]) auto
  then have ch: "page_chain (pmem ?st) (page_free ?st) (p # F)" using pal(3) by simp
  have "unat (npages st - 1) = card (A - {p})"
    using pd(2) card p pd(3) by (simp add: unat_sub word_le_nat_alt)
  moreover have "managed ?st = managed st" by (simp add: managed_def)
  ultimately have "page_pool ?st (A - {p})"
    unfolding page_pool_def using ch F p pool by (intro conjI exI[of _ "p # F"]) (auto simp: page_pool_def)
  moreover have "same_on (A - {p}) st ?st"
    using store32_page[OF pal(2)] by (intro same_on_other[OF pal(1) pd(1)]) simp
  ultimately show ?thesis using eq that by simp
qed

section \<open>Page directories as maps\<close>

definition table_of :: "pages \<Rightarrow> u32 \<Rightarrow> u32 \<Rightarrow> u32 option" where
  "table_of st pdir d = (let e = get_entry st pdir d
     in if e AND PAGE_PRESENT = 0 then None else Some (e AND PAGE_ADDRESS_MASK))"

definition translate :: "pages \<Rightarrow> u32 \<Rightarrow> u32 \<Rightarrow> u32 option" where
  "translate st pdir l = (case table_of st pdir (dirindex l) of
       None \<Rightarrow> None
     | Some t \<Rightarrow> (let e = get_entry st t (tblindex l) in if e AND PAGE_PRESENT = 0 then None else Some e))"

definition tables :: "pages \<Rightarrow> u32 \<Rightarrow> u32 set" where
  "tables st pdir = {t. \<exists>d<1024. table_of st pdir d = Some t}"

definition dir_ok :: "pages \<Rightarrow> u32 set \<Rightarrow> u32 \<Rightarrow> bool" where
  "dir_ok st A pdir \<longleftrightarrow> pdir \<in> A \<and> tables st pdir \<subseteq> A - {pdir} \<and>
     (\<forall>d<1024. \<forall>e<1024. \<forall>t. table_of st pdir d = Some t \<and> table_of st pdir e = Some t \<longrightarrow> d = e)"

lemma table_of_aligned: "table_of st pdir d = Some t \<Longrightarrow> page_aligned t"
  by (auto simp: table_of_def Let_def PAGE_ADDRESS_MASK_def mask_aligned split: if_splits)

lemma table_of_cong:
  assumes "page_aligned pdir" "d < 1024" "same_on {pdir} st st'"
  shows "table_of st' pdir d = table_of st pdir d"
  using get_entry_cong[OF assms(1,2), of st' st] assms(3) by (auto simp: table_of_def same_on_def)

text \<open>An address space depends only on the pages of its directory.\<close>

lemma translate_cong:
  assumes "page_aligned pdir" "same_on (insert pdir (tables st pdir)) st st'"
  shows "translate st' pdir l = translate st pdir l"
proof -
  have eq: "table_of st' pdir (dirindex l) = table_of st pdir (dirindex l)"
    using assms by (intro table_of_cong) (auto intro: same_on_mono)
  show ?thesis
  proof (cases "table_of st pdir (dirindex l)")
    case (Some t)
    then have "t \<in> tables st pdir" using index_bounds(1)[of l] unfolding tables_def by blast
    then have "get_entry st' t (tblindex l) = get_entry st t (tblindex l)"
      using assms(2) table_of_aligned[OF Some] by (intro get_entry_cong) (auto simp: same_on_def)
    then show ?thesis using eq Some by (simp add: translate_def)
  qed (simp add: eq translate_def)
qed

lemma tables_cong:
  assumes "page_aligned pdir" "same_on {pdir} st st'"
  shows "tables st' pdir = tables st pdir"
  using table_of_cong[OF assms(1) _ assms(2)] by (auto simp: tables_def)

lemma dir_ok_cong:
  assumes "dir_ok st A pdir" "page_aligned pdir" "same_on {pdir} st st'" "insert pdir (tables st pdir) \<subseteq> B"
  shows "dir_ok st' B pdir"
  using assms tables_cong[OF assms(2,3)] table_of_cong[OF assms(2) _ assms(3)] by (auto simp: dir_ok_def)

lemma dir_okD:
  assumes "page_pool st A" "dir_ok st A pdir"
  shows "page_aligned pdir" "pdir \<in> A" "tables st pdir \<subseteq> A" "pdir \<notin> tables st pdir"
proof -
  show "pdir \<in> A" "tables st pdir \<subseteq> A" "pdir \<notin> tables st pdir" using assms(2) by (auto simp: dir_ok_def)
  then show "page_aligned pdir" using page_poolD(1)[OF assms(1)] managedD(1) by blast
qed

lemma lookup_page_translate:
  assumes "page_aligned l"
  shows "lookup_page pdir l st = Some (map_option (\<lambda>e. e AND PAGE_ADDRESS_MASK) (translate st pdir l))"
  using assms by (auto simp: lookup_page_def translate_def table_of_def Let_def page_aligned_mod)

lemma entry_present:
  assumes "page_aligned p" "a \<le> 7" "b \<le> (7::u32)"
  shows "(p OR PAGE_PRESENT OR a OR b) AND PAGE_PRESENT \<noteq> 0"
    "(p OR PAGE_PRESENT OR a OR b) AND PAGE_ADDRESS_MASK = p"
proof -
  have "bit ((p OR PAGE_PRESENT OR a OR b) AND PAGE_PRESENT) 0" by (simp add: PAGE_PRESENT_def bit_simps)
  then show "(p OR PAGE_PRESENT OR a OR b) AND PAGE_PRESENT \<noteq> 0" by (metis bit_0_eq bot_apply bot_bool_def)
  have "unat a < 2 ^ 3" "unat b < 2 ^ 3" "unat PAGE_PRESENT < 2 ^ 3"
    using assms(2,3) by (simp_all add: word_le_nat_alt PAGE_PRESENT_def)
  from this[THEN high_bits] have "\<forall>n\<ge>12. \<not> bit (PAGE_PRESENT OR a OR b) n" by (simp add: bit_simps)
  from page_flags[OF assms(1) this]
  show "(p OR PAGE_PRESENT OR a OR b) AND PAGE_ADDRESS_MASK = p" by (simp add: PAGE_ADDRESS_MASK_def or.assoc)
qed

section \<open>Mapping a page\<close>

text \<open>The first part of \<open>map_page\<close>: make sure that the page table exists.\<close>

definition ensure_table :: "u32 \<Rightarrow> u32 \<Rightarrow> pages \<Rightarrow> pages" where
  "ensure_table pdir d st = (if get_entry st pdir d AND PAGE_PRESENT = 0
     then (let (dirpage, st') = alloc_page st
           in set_entry pdir d (dirpage OR PAGE_PRESENT OR PAGE_USER OR PAGE_READ_WRITE) st')
     else st)"

lemma map_page_eq:
  assumes "page_aligned l" "page_aligned physical"
  shows "map_page pdir l physical access rw st = (let st1 = ensure_table pdir (dirindex l) st
     in Some (set_entry (get_entry st1 pdir (dirindex l) AND PAGE_ADDRESS_MASK) (tblindex l)
       (physical OR PAGE_PRESENT OR access OR rw) st1))"
  using assms by (simp add: map_page_def ensure_table_def page_aligned_mod)

lemma table_of_set_entry:
  assumes "page_aligned pdir" "d < 1024" "d' < 1024" "page_aligned p"
  shows "table_of (set_entry pdir d (p OR PAGE_PRESENT OR PAGE_USER OR PAGE_READ_WRITE) st) pdir d' =
    (if d' = d then Some p else table_of st pdir d')"
  using get_set_entry[OF assms(1,1,2,3)] entry_present[OF assms(4), of PAGE_USER PAGE_READ_WRITE]
  by (auto simp: table_of_def Let_def PAGE_USER_def PAGE_READ_WRITE_def)

lemma ensure_table_ok:
  assumes pool: "page_pool st A" and dir: "dir_ok st A pdir" and rm: "room 1 st" and d: "d < 1024"
  obtains A' t where "page_pool (ensure_table pdir d st) A'" "A \<subseteq> A'" "dir_ok (ensure_table pdir d st) A' pdir"
    "table_of (ensure_table pdir d st) pdir d = Some t"
    "tables (ensure_table pdir d st) pdir = tables st pdir \<union> (A' - A)"
    "same_on (A - {pdir}) st (ensure_table pdir d st)"
    "\<forall>l. translate (ensure_table pdir d st) pdir l = translate st pdir l"
    "unat (page_end (ensure_table pdir d st)) \<le> unat (page_end st) + 4096"
    "page_end st \<le> page_end (ensure_table pdir d st)"
proof (cases "get_entry st pdir d AND PAGE_PRESENT = 0")
  case False
  then have "ensure_table pdir d st = st" "table_of st pdir d = Some (get_entry st pdir d AND PAGE_ADDRESS_MASK)"
    by (simp_all add: ensure_table_def table_of_def)
  then show ?thesis using that[of A] pool dir by simp
next
  case True
  note dk = dir_okD[OF pool dir]
  obtain p st' where p: "alloc_page st = (p, st')" "p \<notin> A" "page_aligned p" "p \<noteq> 0"
    "page_pool st' (insert p A)" "same_on A st st'" "unat (page_end st') \<le> unat (page_end st) + 4096"
    "page_end st \<le> page_end st'" "\<forall>x. page_of x = page_of p \<longrightarrow> pmem st' x = 0"
    by (rule alloc_page_ok[OF pool rm])
  let ?v = "p OR PAGE_PRESENT OR PAGE_USER OR PAGE_READ_WRITE"
  let ?s = "set_entry pdir d ?v st'"
  have en: "ensure_table pdir d st = ?s" using True p(1) by (simp add: ensure_table_def)
  have pne: "p \<noteq> pdir" using p(2) dk(2) by auto
  have s1: "page_pool ?s (insert p A)" "same_on (insert p A - {pdir}) st' ?s"
    using set_entry_pool[OF p(5) _ d, of pdir] dk(2) by auto
  have so: "same_on (A - {pdir}) st ?s"
    by (rule same_on_trans[OF p(6) s1(2)]) auto
  have st'eq: "table_of st' pdir e = table_of st pdir e" if "e < 1024" for e
    using p(6) dk(2) by (intro table_of_cong[OF dk(1) that]) (auto intro: same_on_mono)
  have tb: "table_of ?s pdir e = (if e = d then Some p else table_of st pdir e)" if "e < 1024" for e
    using table_of_set_entry[OF dk(1) d that p(3)] st'eq[OF that] by simp
  have none: "table_of st pdir d = None" using True by (simp add: table_of_def)
  have tbs: "tables ?s pdir = insert p (tables st pdir)"
    using tb d none by (fastforce simp: tables_def split: if_splits)
  have pt: "p \<notin> tables st pdir" using p(2) dk(3) by auto
  have "dir_ok ?s (insert p A) pdir"
    using dir tb tbs pt pne p(2) unfolding dir_ok_def by (auto simp: tables_def)
  moreover have "translate ?s pdir l = translate st pdir l" for l
  proof (cases "dirindex l = d")
    case eq: True
    have "get_entry ?s p (tblindex l) = get_entry st' p (tblindex l)"
      using pne p(3) s1(2) by (intro get_entry_cong) (auto simp: same_on_def)
    also have "\<dots> = 0"
      using p(9) page_of_word[OF entryW(1)[OF p(3)]] entryW(2)[OF p(3)]
        load32_cong[of "pmem st'" "p + 4 * tblindex l" "\<lambda>_. 0"]
      by (simp add: get_entry_def) (simp add: load32_def)
    finally show ?thesis using eq tb[OF d] none by (simp add: translate_def)
  next
    case ne: False
    show ?thesis
    proof (cases "table_of st pdir (dirindex l)")
      case (Some t)
      then have t: "t \<in> A - {pdir}" using dir index_bounds(1)[of l] unfolding dir_ok_def tables_def by blast
      have "get_entry ?s t (tblindex l) = get_entry st t (tblindex l)"
        using so t table_of_aligned[OF Some] by (intro get_entry_cong) (auto simp: same_on_def)
      then show ?thesis using ne tb Some by (simp add: translate_def)
    qed (use ne tb in \<open>simp add: translate_def\<close>)
  qed
  ultimately show ?thesis
    using that[of "insert p A" p] s1 tbs tb[OF d] so p(2,7,8) en by (simp add: insert_Diff_if subset_insertI)
qed

lemma map_page_ok:
  assumes pool: "page_pool st A" and dir: "dir_ok st A pdir" and rm: "room 1 st"
    and al: "page_aligned l" "page_aligned physical" and fl: "access \<le> 7" "rw \<le> 7"
  obtains st' A' where "map_page pdir l physical access rw st = Some st'" "page_pool st' A'" "A \<subseteq> A'"
    "dir_ok st' A' pdir" "tables st' pdir = tables st pdir \<union> (A' - A)"
    "same_on (A - insert pdir (tables st pdir)) st st'"
    "\<forall>l'. page_aligned l' \<longrightarrow> translate st' pdir l' =
       (if l' = l then Some (physical OR PAGE_PRESENT OR access OR rw) else translate st pdir l')"
    "unat (page_end st') \<le> unat (page_end st) + 4096" "page_end st \<le> page_end st'"
proof -
  let ?d = "dirindex l" let ?s = "ensure_table pdir ?d st" let ?v = "physical OR PAGE_PRESENT OR access OR rw"
  obtain A' t where e: "page_pool ?s A'" "A \<subseteq> A'" "dir_ok ?s A' pdir" "table_of ?s pdir ?d = Some t"
    "tables ?s pdir = tables st pdir \<union> (A' - A)" "same_on (A - {pdir}) st ?s"
    "\<forall>l. translate ?s pdir l = translate st pdir l"
    "unat (page_end ?s) \<le> unat (page_end st) + 4096" "page_end st \<le> page_end ?s"
    by (rule ensure_table_ok[OF pool dir rm index_bounds(1)[of l]])
  note dk = dir_okD[OF e(1,3)]
  have t: "t \<in> tables ?s pdir" using e(4) index_bounds(1)[of l] unfolding tables_def by blast
  then have tA: "t \<in> A'" "t \<noteq> pdir" using dk(3,4) by auto
  have tal: "page_aligned t" by (rule table_of_aligned[OF e(4)])
  let ?s2 = "set_entry t (tblindex l) ?v ?s"
  have eq: "map_page pdir l physical access rw st = Some ?s2"
    using map_page_eq[OF al] e(4) by (auto simp: Let_def table_of_def split: if_splits)
  have p2: "page_pool ?s2 A'" "same_on (A' - {t}) ?s ?s2"
    using set_entry_pool[OF e(1) tA(1) index_bounds(2)] by auto
  have sd: "same_on {pdir} ?s ?s2" using p2(2) tA(2) dk(2) by (auto intro: same_on_mono)
  have tbs: "tables ?s2 pdir = tables ?s pdir" by (rule tables_cong[OF dk(1) sd])
  have ok: "dir_ok ?s2 A' pdir" using dk by (intro dir_ok_cong[OF e(3) dk(1) sd]) auto
  have fr: "same_on (A - insert pdir (tables st pdir)) st ?s2"
    using e(2,5) t by (intro same_on_trans[OF e(6) p2(2)]) auto
  have "translate ?s2 pdir l' = (if l' = l then Some ?v else translate st pdir l')" if al': "page_aligned l'" for l'
  proof (cases "table_of ?s pdir (dirindex l')")
    case None
    moreover have "table_of ?s2 pdir (dirindex l') = None"
      using None table_of_cong[OF dk(1) _ sd] by simp
    moreover have "translate st pdir l' = None" using None spec[OF e(7), of l'] by (simp add: translate_def)
    ultimately show ?thesis using e(4) by (auto simp: translate_def)
  next
    case (Some u)
    have u2: "table_of ?s2 pdir (dirindex l') = Some u" using Some table_of_cong[OF dk(1) _ sd] by simp
    have "u = t \<Longrightarrow> dirindex l' = ?d"
      using e(3,4) Some index_bounds(1) unfolding dir_ok_def by blast
    then have "(u = t \<and> tblindex l = tblindex l') = (l' = l)"
      using index_inj[OF al' al(1)] e(4) Some by auto
    moreover have "get_entry ?s2 u (tblindex l') =
      (if u = t \<and> tblindex l = tblindex l' then ?v else get_entry ?s u (tblindex l'))"
      by (rule get_set_entry[OF tal table_of_aligned[OF Some]]) simp_all
    moreover have "translate ?s pdir l' = translate st pdir l'" using e(7) by simp
    ultimately show ?thesis
      using Some u2 entry_present(1)[OF al(2) fl] by (auto simp: translate_def)
  qed
  then show ?thesis using that[OF eq p2(1) e(2) ok _ fr] tbs e(5,8,9) by simp
qed

section \<open>Extending an address space\<close>

text \<open>
  \<open>dir_ext\<close>: from one state to another the directory stays well formed, no live page is freed,
  its tables may grow by new pages only, and the live pages outside it keep their contents.
\<close>

definition dir_ext :: "u32 \<Rightarrow> pages \<Rightarrow> u32 set \<Rightarrow> pages \<Rightarrow> u32 set \<Rightarrow> bool" where
  "dir_ext pdir st A st' A' \<longleftrightarrow> page_pool st' A' \<and> A \<subseteq> A' \<and> dir_ok st' A' pdir \<and>
     tables st pdir \<subseteq> tables st' pdir \<and> tables st' pdir \<subseteq> tables st pdir \<union> (A' - A) \<and>
     same_on (A - insert pdir (tables st pdir)) st st' \<and> page_end st \<le> page_end st'"

lemma dir_ext_refl: "page_pool st A \<Longrightarrow> dir_ok st A pdir \<Longrightarrow> dir_ext pdir st A st A"
  by (simp add: dir_ext_def)

lemma dir_ext_trans:
  assumes "dir_ext pdir a A b B" "dir_ext pdir b B c C"
  shows "dir_ext pdir a A c C"
proof -
  have ab: "A \<subseteq> B" "tables a pdir \<subseteq> tables b pdir" "tables b pdir \<subseteq> tables a pdir \<union> (B - A)"
    "same_on (A - insert pdir (tables a pdir)) a b" "page_end a \<le> page_end b"
    using assms(1) unfolding dir_ext_def by blast+
  have bc: "page_pool c C" "dir_ok c C pdir" "B \<subseteq> C" "tables b pdir \<subseteq> tables c pdir"
    "tables c pdir \<subseteq> tables b pdir \<union> (C - B)" "same_on (B - insert pdir (tables b pdir)) b c"
    "page_end b \<le> page_end c"
    using assms(2) unfolding dir_ext_def by blast+
  have "A - insert pdir (tables a pdir) \<subseteq> B - insert pdir (tables b pdir)" using ab(1,3) by blast
  then have "same_on (A - insert pdir (tables a pdir)) a c" by (rule same_on_trans[OF ab(4) bc(6) order_refl])
  moreover have "tables c pdir \<subseteq> tables a pdir \<union> (C - A)" using ab bc by blast
  ultimately show ?thesis unfolding dir_ext_def using ab bc by (meson order_trans)
qed

lemma dir_extD:
  assumes "dir_ext pdir st A st' A'"
  shows "page_pool st' A'" "dir_ok st' A' pdir" "A \<subseteq> A'" "tables st pdir \<subseteq> tables st' pdir"
    "tables st' pdir \<subseteq> tables st pdir \<union> (A' - A)"
    "same_on (A - insert pdir (tables st pdir)) st st'"
  using assms by (simp_all add: dir_ext_def)

lemma map_page_ext:
  assumes "page_pool st A" "dir_ok st A pdir" "room (Suc k) st" "page_aligned l" "page_aligned physical"
    "access \<le> 7" "rw \<le> 7"
  obtains st' A' where "map_page pdir l physical access rw st = Some st'" "dir_ext pdir st A st' A'"
    "room k st'" "\<forall>l'. page_aligned l' \<longrightarrow> translate st' pdir l' =
       (if l' = l then Some (physical OR PAGE_PRESENT OR access OR rw) else translate st pdir l')"
    "A' - A \<subseteq> tables st' pdir"
proof -
  have rm: "room 1 st" using assms(3) by (simp add: room_def)
  obtain st' A' where m: "map_page pdir l physical access rw st = Some st'" "page_pool st' A'" "A \<subseteq> A'"
    "dir_ok st' A' pdir" "tables st' pdir = tables st pdir \<union> (A' - A)"
    "same_on (A - insert pdir (tables st pdir)) st st'"
    "\<forall>l'. page_aligned l' \<longrightarrow> translate st' pdir l' =
       (if l' = l then Some (physical OR PAGE_PRESENT OR access OR rw) else translate st pdir l')"
    "unat (page_end st') \<le> unat (page_end st) + 4096" "page_end st \<le> page_end st'"
    by (rule map_page_ok[OF assms(1,2) rm assms(4-7)])
  have ext: "dir_ext pdir st A st' A'"
    unfolding dir_ext_def by (intro conjI m(2,3,4,6,9)) (simp_all add: m(5))
  have rk: "room k st'" using m(8) assms(3) by (simp add: room_def)
  show ?thesis by (rule that[OF m(1) ext rk m(7)]) (simp add: m(5))
qed

lemma page_step:
  assumes "page_aligned a" "unat a + 4096 < 2 ^ 32"
  shows "unat (a + 4096) = unat a + 4096" "page_aligned (a + 4096)"
  using assms by (simp_all add: unat_word_ariths page_aligned_def)

lemma identity_map_ok:
  assumes "page_pool st A" "dir_ok st A pdir" "room k st" "page_aligned addr" "access \<le> 7" "rw \<le> 7"
    "unat stop \<le> unat addr + 4096 * k" "unat stop + 4096 \<le> 2 ^ 32"
  shows "\<exists>st' A'. identity_map pdir addr stop access rw st = Some st' \<and> dir_ext pdir st A st' A' \<and>
    (\<forall>l'. page_aligned l' \<longrightarrow> translate st' pdir l' =
       (if addr \<le> l' \<and> l' < stop then Some (l' OR PAGE_PRESENT OR access OR rw) else translate st pdir l'))"
  using assms
proof (induction k arbitrary: st A addr)
  case 0
  then have "\<not> addr < stop" by (simp add: word_less_nat_alt)
  then have "identity_map pdir addr stop access rw st = Some st" by (simp add: identity_map.simps)
  moreover have "\<not> (addr \<le> l' \<and> l' < stop)" for l' using \<open>\<not> addr < stop\<close> by auto
  ultimately show ?case using dir_ext_refl[OF 0(1,2)] by auto
next
  case (Suc k)
  show ?case
  proof (cases "addr < stop")
    case False
    then have "identity_map pdir addr stop access rw st = Some st" by (simp add: identity_map.simps)
    moreover have "\<not> (addr \<le> l' \<and> l' < stop)" for l' using False by auto
    ultimately show ?thesis using dir_ext_refl[OF Suc(2,3)] by auto
  next
    case True
    obtain s1 A1 where m: "map_page pdir addr addr access rw st = Some s1" "dir_ext pdir st A s1 A1"
      "room k s1" "\<forall>l'. page_aligned l' \<longrightarrow> translate s1 pdir l' =
       (if l' = addr then Some (addr OR PAGE_PRESENT OR access OR rw) else translate st pdir l')"
      "A1 - A \<subseteq> tables s1 pdir"
      by (rule map_page_ext[OF Suc.prems(1-4,4-6)])
    have lt: "unat addr + 4096 < 2 ^ 32" using True Suc.prems(8) by (simp add: word_less_nat_alt)
    note a4 = page_step[OF Suc.prems(4) lt]
    obtain s2 A2 where r: "identity_map pdir (addr + 4096) stop access rw s1 = Some s2" "dir_ext pdir s1 A1 s2 A2"
      "\<forall>l'. page_aligned l' \<longrightarrow> translate s2 pdir l' =
       (if addr + 4096 \<le> l' \<and> l' < stop then Some (l' OR PAGE_PRESENT OR access OR rw) else translate s1 pdir l')"
      using Suc.IH[OF dir_extD(1,2)[OF m(2)] m(3) a4(2) Suc.prems(5,6) _ Suc.prems(8)] a4(1) Suc.prems(7) by auto
    have "identity_map pdir addr stop access rw st = Some s2"
      using True m(1) r(1) by (subst identity_map.simps) (simp add: PAGE_SIZE_def)
    moreover have "(addr \<le> l' \<and> l' \<noteq> addr) = (addr + 4096 \<le> l')" if "page_aligned l'" for l'
      using that Suc.prems(4) a4(1)
      by (auto simp: word_le_nat_alt page_aligned_def simp flip: unat_u32_inj elim!: dvdE)
    ultimately show ?thesis
      using r(3) m(4) True dir_ext_trans[OF m(2) r(2)] by (intro exI[of _ s2] exI[of _ A2]) auto
  qed
qed

lemma alloc_page_ext:
  assumes "page_pool st A" "dir_ok st A pdir" "room (Suc k) st"
  obtains p st' where "alloc_page st = (p, st')" "p \<notin> A" "page_aligned p"
    "page_pool st' (insert p A)" "same_on A st st'" "room k st'" "dir_ext pdir st A st' (insert p A)"
    "\<forall>l. translate st' pdir l = translate st pdir l" "tables st' pdir = tables st pdir"
    "\<forall>x. page_of x = page_of p \<longrightarrow> pmem st' x = 0"
proof -
  have rm: "room 1 st" using assms(3) by (simp add: room_def)
  note dk = dir_okD[OF assms(1,2)]
  obtain p st' where p: "alloc_page st = (p, st')" "p \<notin> A" "page_aligned p" "p \<noteq> 0"
    "page_pool st' (insert p A)" "same_on A st st'" "unat (page_end st') \<le> unat (page_end st) + 4096"
    "page_end st \<le> page_end st'" "\<forall>x. page_of x = page_of p \<longrightarrow> pmem st' x = 0"
    by (rule alloc_page_ok[OF assms(1) rm])
  have sd: "same_on {pdir} st st'" "same_on (insert pdir (tables st pdir)) st st'"
    using p(6) dk(2,3) by (auto intro: same_on_mono)
  have tb: "tables st' pdir = tables st pdir" by (rule tables_cong[OF dk(1) sd(1)])
  have ok: "dir_ok st' (insert p A) pdir" using dk by (intro dir_ok_cong[OF assms(2) dk(1) sd(1)]) auto
  have "same_on (A - insert pdir (tables st pdir)) st st'" using p(6) by (auto intro: same_on_mono)
  then have ext: "dir_ext pdir st A st' (insert p A)"
    unfolding dir_ext_def using p(5,8) ok tb by auto
  have "room k st'" using p(7) assms(3) by (simp add: room_def)
  then show ?thesis
    using that[OF p(1-3,5,6) _ ext _ tb p(9)] translate_cong[OF dk(1) sd(2)] by simp
qed

lemma base_offset:
  assumes "page_aligned base" "unat base + 4096 * n \<le> 2 ^ 32" "i < n"
  shows "unat (base + of_nat i * PAGE_SIZE) = unat base + 4096 * i" "page_aligned (base + of_nat i * PAGE_SIZE)"
proof -
  have "4096 * i < 2 ^ 32" using assms(2,3) by simp
  then show *: "unat (base + of_nat i * PAGE_SIZE) = unat base + 4096 * i"
    using assms(2,3) by (simp add: PAGE_SIZE_def unat_word_ariths unat_of_nat)
  show "page_aligned (base + of_nat i * PAGE_SIZE)" using * assms(1) by (simp add: page_aligned_def)
qed

text \<open>What \<open>map_new_pages\<close> establishes for the pages \<open>pg 0, \<dots>, pg (n - 1)\<close>.\<close>

definition new_pages :: "u32 \<Rightarrow> u32 \<Rightarrow> nat \<Rightarrow> (nat \<Rightarrow> u32) \<Rightarrow> pages \<Rightarrow> u32 set \<Rightarrow> pages \<Rightarrow> u32 set \<Rightarrow> bool" where
  "new_pages pdir base n pg st A st' A' \<longleftrightarrow> inj_on pg {..<n} \<and>
    pg ` {..<n} \<subseteq> A' - A - insert pdir (tables st' pdir) \<and>
    (\<forall>l. page_aligned l \<longrightarrow> translate st' pdir l =
       (if base \<le> l \<and> unat l < unat base + 4096 * n
        then Some (pg ((unat l - unat base) div 4096) OR PAGE_PRESENT OR PAGE_USER OR PAGE_READ_WRITE)
        else translate st pdir l)) \<and>
    (\<forall>x. page_of x \<in> page_of ` pg ` {..<n} \<longrightarrow> pmem st' x = 0)"

lemma page_below_Suc:
  assumes "4096 dvd (a::nat)" "4096 dvd b"
  shows "a < b + 4096 * Suc n \<longleftrightarrow> a < b + 4096 * n \<or> a = b + 4096 * n"
proof -
  obtain x y where xy: "a = 4096 * x" "b = 4096 * y" using assms by (auto elim!: dvdE)
  have e: "4096 * y + 4096 * k = 4096 * (y + k)" for k :: nat by (simp only: distrib_left)
  show ?thesis unfolding xy e nat_mult_less_cancel_disj nat_mult_eq_cancel_disj by auto
qed

lemma new_pages_Suc:
  assumes np: "new_pages pdir base n pg st A s0 A0"
    and e0: "dir_ext pdir st A s0 A0" and e1: "dir_ext pdir s0 A0 s1 (insert p A0)" and e2: "dir_ext pdir s1 (insert p A0) s2 A2"
    and al: "page_aligned base" "unat base + 4096 * Suc n \<le> 2 ^ 32" "page_aligned p"
    and p: "p \<notin> A0" "same_on A0 s0 s1" "\<forall>x. page_of x = page_of p \<longrightarrow> pmem s1 x = 0"
      "tables s1 pdir = tables s0 pdir" "\<forall>l. translate s1 pdir l = translate s0 pdir l"
    and m: "\<forall>l'. page_aligned l' \<longrightarrow> translate s2 pdir l' = (if l' = base + of_nat n * PAGE_SIZE
       then Some (p OR PAGE_PRESENT OR PAGE_USER OR PAGE_READ_WRITE) else translate s1 pdir l')"
  shows "new_pages pdir base (Suc n) (pg(n := p)) st A s2 A2"
proof -
  note d0 = dir_extD[OF e0] and d1 = dir_extD[OF e1] and d2 = dir_extD[OF e2]
  have inj: "inj_on pg {..<n}" and pgA: "pg ` {..<n} \<subseteq> A0 - A - insert pdir (tables s0 pdir)"
    using np by (auto simp: new_pages_def)
  have img: "(pg(n := p)) ` {..<Suc n} = insert p (pg ` {..<n})"
    by (auto simp: lessThan_Suc)
  have pn: "p \<notin> pg ` {..<n}" "p \<noteq> pdir" "p \<notin> tables s0 pdir"
    using pgA p(1) dir_okD[OF d0(1,2)] by auto
  have "inj_on (pg(n := p)) {..<Suc n}"
    using inj pn(1) by (auto simp: lessThan_Suc inj_on_def)
  moreover have "insert p (pg ` {..<n}) \<subseteq> A2 - A - insert pdir (tables s2 pdir)"
    using pgA pn p(1,4) d0(3) d2(3,5) by blast
  moreover have "translate s2 pdir l = (if base \<le> l \<and> unat l < unat base + 4096 * Suc n
      then Some ((pg(n := p)) ((unat l - unat base) div 4096) OR PAGE_PRESENT OR PAGE_USER OR PAGE_READ_WRITE)
      else translate st pdir l)" if l: "page_aligned l" for l
  proof -
    have "unat (base + of_nat n * PAGE_SIZE) = unat base + 4096 * n" by (rule base_offset(1)[OF al(1,2)]) simp
    then have at: "l = base + of_nat n * PAGE_SIZE \<longleftrightarrow> unat l = unat base + 4096 * n" by (simp flip: unat_u32_inj)
    have t0: "translate s0 pdir l = (if base \<le> l \<and> unat l < unat base + 4096 * n
      then Some (pg ((unat l - unat base) div 4096) OR PAGE_PRESENT OR PAGE_USER OR PAGE_READ_WRITE)
      else translate st pdir l)" using np l by (simp add: new_pages_def)
    have "unat l < unat base + 4096 * Suc n \<longleftrightarrow> unat l < unat base + 4096 * n \<or> unat l = unat base + 4096 * n"
      by (rule page_below_Suc) (use l al(1) in \<open>simp_all add: page_aligned_def\<close>)
    moreover have "(unat l - unat base) div 4096 \<noteq> n" if "base \<le> l" "unat l < unat base + 4096 * n"
      using that by (auto simp: word_le_nat_alt)
    ultimately show ?thesis using m l p(5) t0 at by (auto simp: word_le_nat_alt)
  qed
  moreover have "pmem s2 x = 0" if "page_of x \<in> page_of ` insert p (pg ` {..<n})" for x
  proof -
    have "pmem s2 x = pmem s1 x"
      using that pgA pn d2(6) p(4) unfolding same_on_def by blast
    moreover have "pmem s1 x = 0"
    proof (cases "page_of x = page_of p")
      case False
      then have x: "page_of x \<in> page_of ` pg ` {..<n}" using that by auto
      then have "page_of x \<in> page_of ` A0" using pgA by blast
      then have "pmem s1 x = pmem s0 x" using p(2) by (simp add: same_on_def)
      then show ?thesis using np x by (simp add: new_pages_def)
    qed (use p(3) in simp)
    ultimately show ?thesis by simp
  qed
  ultimately show ?thesis unfolding new_pages_def img by blast
qed

lemma map_new_loop_ok:
  assumes "page_pool st A" "dir_ok st A pdir" "room (2 * n + k) st" "page_aligned base"
    "unat base + 4096 * n \<le> 2 ^ 32"
  shows "\<exists>st' A' pg. map_new_loop pdir base n st = Some st' \<and> dir_ext pdir st A st' A' \<and>
    room k st' \<and> new_pages pdir base n pg st A st' A'"
  using assms
proof (induction n arbitrary: k)
  case 0
  then show ?case using dir_ext_refl[OF 0(1,2)] by (auto simp: new_pages_def word_le_nat_alt)
next
  case (Suc n)
  have b: "unat base + 4096 * n \<le> 2 ^ 32" using Suc.prems(5) by simp
  have rm: "room (2 * n + (2 + k)) st" using Suc.prems(3) by (simp add: room_def)
  obtain s0 A0 pg where s0: "map_new_loop pdir base n st = Some s0" "dir_ext pdir st A s0 A0"
    "room (Suc (Suc k)) s0" "new_pages pdir base n pg st A s0 A0"
    using Suc.IH[OF Suc.prems(1,2) rm Suc.prems(4) b] by auto
  note d0 = dir_extD[OF s0(2)]
  obtain p s1 where p: "alloc_page s0 = (p, s1)" "p \<notin> A0" "page_aligned p"
    "page_pool s1 (insert p A0)" "same_on A0 s0 s1" "room (Suc k) s1" "dir_ext pdir s0 A0 s1 (insert p A0)"
    "\<forall>l. translate s1 pdir l = translate s0 pdir l" "tables s1 pdir = tables s0 pdir"
    "\<forall>x. page_of x = page_of p \<longrightarrow> pmem s1 x = 0"
    by (rule alloc_page_ext[OF d0(1,2) s0(3)])
  have bal: "page_aligned (base + of_nat n * PAGE_SIZE)" by (rule base_offset(2)[OF Suc.prems(4,5)]) simp
  have fl: "PAGE_USER \<le> 7" "PAGE_READ_WRITE \<le> 7" by (simp_all add: PAGE_USER_def PAGE_READ_WRITE_def)
  obtain s2 A2 where m: "map_page pdir (base + of_nat n * PAGE_SIZE) p PAGE_USER PAGE_READ_WRITE s1 = Some s2"
    "dir_ext pdir s1 (insert p A0) s2 A2" "room k s2"
    "\<forall>l'. page_aligned l' \<longrightarrow> translate s2 pdir l' = (if l' = base + of_nat n * PAGE_SIZE
       then Some (p OR PAGE_PRESENT OR PAGE_USER OR PAGE_READ_WRITE) else translate s1 pdir l')"
    "A2 - insert p A0 \<subseteq> tables s2 pdir"
    by (rule map_page_ext[OF dir_extD(1,2)[OF p(7)] p(6) bal p(3) fl])
  have "new_pages pdir base (Suc n) (pg(n := p)) st A s2 A2"
    by (rule new_pages_Suc[OF s0(4,2) p(7) m(2) Suc.prems(4,5) p(3,2,5,10,9,8) m(4)])
  moreover have "dir_ext pdir st A s2 A2" using dir_ext_trans dir_ext_trans s0(2) p(7) m(2) by blast
  moreover have "map_new_loop pdir base (Suc n) st = Some s2" using s0(1) p(1) m(1) by simp
  ultimately show ?case using m(3) by blast
qed

section \<open>Releasing pages and directories\<close>

lemma unmap_ok:
  assumes pool: "page_pool st A" and dir: "dir_ok st A pdir" and al: "page_aligned l"
    and tr: "translate st pdir l = Some e" and q: "q = e AND PAGE_ADDRESS_MASK" "q \<in> A"
      "q \<notin> insert pdir (tables st pdir)"
  obtains st' where "unmap_and_free_page pdir l st = Some st'" "page_pool st' (A - {q})"
    "dir_ok st' (A - {q}) pdir" "tables st' pdir = tables st pdir"
    "\<forall>l'. page_aligned l' \<longrightarrow> translate st' pdir l' = (if l' = l then None else translate st pdir l')"
    "same_on (A - insert q (insert pdir (tables st pdir))) st st'"
proof -
  note dk = dir_okD[OF pool dir]
  obtain t where t: "table_of st pdir (dirindex l) = Some t" and e: "get_entry st t (tblindex l) = e"
    "e AND PAGE_PRESENT \<noteq> 0"
    using tr by (auto simp: translate_def Let_def split: option.splits if_splits)
  have tt: "t \<in> tables st pdir" using t index_bounds(1)[of l] unfolding tables_def by blast
  then have tA: "t \<in> A" "t \<noteq> pdir" "t \<noteq> q" using dk q(3) by auto
  have tal: "page_aligned t" by (rule table_of_aligned[OF t])
  obtain s1 where s1: "free_page q st = Some s1" "page_pool s1 (A - {q})" "same_on (A - {q}) st s1"
    "page_end s1 = page_end st"
    by (rule free_page_ok[OF pool q(2)])
  let ?s2 = "set_entry t (tblindex l) 0 s1"
  have eq: "unmap_and_free_page pdir l st = Some ?s2"
    using t e s1(1) q(1) al by (auto simp: unmap_and_free_page_def table_of_def Let_def page_aligned_mod split: if_splits)
  have p2: "page_pool ?s2 (A - {q})" "same_on (A - {q} - {t}) s1 ?s2"
    using set_entry_pool[OF s1(2) _ index_bounds(2)] tA by auto
  have sub: "insert pdir (tables st pdir) \<subseteq> A - {q}" using dk q(3) by auto
  have sd1: "same_on (insert pdir (tables st pdir)) st s1" using s1(3) sub by (rule same_on_mono)
  have sd: "same_on {pdir} st ?s2"
    by (rule same_on_trans[OF s1(3) p2(2)]) (use sub tA dk(2) in auto)
  have tb: "tables ?s2 pdir = tables st pdir" by (rule tables_cong[OF dk(1) sd])
  have ok: "dir_ok ?s2 (A - {q}) pdir" using sub by (intro dir_ok_cong[OF dir dk(1) sd]) auto
  have fr: "same_on (A - insert q (insert pdir (tables st pdir))) st ?s2"
    by (rule same_on_trans[OF s1(3) p2(2)]) (use tt in auto)
  have "translate ?s2 pdir l' = (if l' = l then None else translate st pdir l')" if al': "page_aligned l'" for l'
  proof (cases "table_of st pdir (dirindex l')")
    case None
    then show ?thesis using t table_of_cong[OF dk(1) index_bounds(1) sd, of l'] by (auto simp: translate_def)
  next
    case (Some u)
    have u2: "table_of ?s2 pdir (dirindex l') = Some u" using Some table_of_cong[OF dk(1) _ sd] by simp
    have "u = t \<Longrightarrow> dirindex l' = dirindex l"
      using dir t Some index_bounds(1) unfolding dir_ok_def by blast
    then have "(u = t \<and> tblindex l = tblindex l') = (l' = l)"
      using index_inj[OF al' al] t Some by auto
    moreover have "get_entry ?s2 u (tblindex l') =
      (if u = t \<and> tblindex l = tblindex l' then 0 else get_entry s1 u (tblindex l'))"
      by (rule get_set_entry[OF tal table_of_aligned[OF Some]]) simp_all
    moreover have "u \<in> tables st pdir" using Some index_bounds(1)[of l'] unfolding tables_def by blast
    then have "get_entry s1 u (tblindex l') = get_entry st u (tblindex l')"
      using sd1 table_of_aligned[OF Some] by (intro get_entry_cong) (auto simp: same_on_def)
    ultimately show ?thesis using Some u2 by (auto simp: translate_def)
  qed
  then show ?thesis using that[OF eq p2(1) ok tb _ fr] by blast
qed

lemma unmap_not_mapped:
  assumes "page_aligned l" "translate st pdir l = None"
  shows "unmap_and_free_page pdir l st = Some st"
  using assms by (auto simp: unmap_and_free_page_def translate_def table_of_def Let_def page_aligned_mod
      split: option.splits if_splits)

definition tables_below :: "pages \<Rightarrow> u32 \<Rightarrow> nat \<Rightarrow> u32 set" where
  "tables_below st pdir n = {t. \<exists>d. unat d < n \<and> table_of st pdir d = Some t}"

lemma free_tables_ok:
  assumes pool: "page_pool st A" and dir: "dir_ok st A pdir" and n: "n \<le> 1024"
  shows "\<exists>st'. free_tables pdir n st = Some st' \<and> page_pool st' (A - tables_below st pdir n) \<and>
    same_on (A - tables_below st pdir n) st st'"
  using n
proof (induction n)
  case 0
  then show ?case using pool by (simp add: tables_below_def)
next
  case (Suc n)
  note dk = dir_okD[OF pool dir]
  let ?B = "tables_below st pdir n" let ?d = "of_nat n :: u32"
  obtain s1 where s1: "free_tables pdir n st = Some s1" "page_pool s1 (A - ?B)" "same_on (A - ?B) st s1"
    using Suc by auto
  have d: "unat ?d = n" "?d < 1024" using Suc.prems by (simp_all add: unat_of_nat word_less_nat_alt)
  have Bt: "?B \<subseteq> tables st pdir" using Suc.prems
    by (force simp: tables_below_def tables_def word_less_nat_alt)
  have sp: "same_on {pdir} st s1" using s1(3) by (rule same_on_mono) (use Bt dk in auto)
  have ge: "get_entry s1 pdir ?d = get_entry st pdir ?d"
    using sp d(2) by (intro get_entry_cong[OF dk(1)]) (auto simp: same_on_def)
  have less: "unat x < Suc n \<longleftrightarrow> unat x < n \<or> x = ?d" for x :: u32
    using d(1) by (auto simp: less_Suc_eq simp flip: unat_u32_inj)
  have Suc_set: "tables_below st pdir (Suc n) = ?B \<union> {t. table_of st pdir ?d = Some t}"
    unfolding tables_below_def less by blast
  show ?case
  proof (cases "table_of st pdir ?d")
    case None
    then have "free_tables pdir (Suc n) st = Some s1"
      using s1(1) ge by (auto simp: table_of_def Let_def split: if_splits)
    then show ?thesis using s1 Suc_set None by simp
  next
    case (Some t)
    have tt: "t \<in> tables st pdir" using Some d(2) unfolding tables_def by blast
    have "t \<notin> ?B"
    proof
      assume "t \<in> ?B"
      then obtain e where e: "unat e < n" "table_of st pdir e = Some t" by (auto simp: tables_below_def)
      then have "e < 1024" using Suc.prems by (simp add: word_less_nat_alt)
      then have "e = ?d" using dir Some e(2) d(2) unfolding dir_ok_def by blast
      then show False using e(1) d(1) by simp
    qed
    then have tA: "t \<in> A - ?B" using tt dk(3) by auto
    obtain s2 where s2: "free_page t s1 = Some s2" "page_pool s2 (A - ?B - {t})" "same_on (A - ?B - {t}) s1 s2"
      "page_end s2 = page_end s1"
      by (rule free_page_ok[OF s1(2) tA])
    have "free_tables pdir (Suc n) st = Some s2"
      using s1(1) ge Some s2(1) by (auto simp: table_of_def Let_def split: if_splits)
    moreover have "A - tables_below st pdir (Suc n) = A - ?B - {t}" using Suc_set Some by auto
    moreover have "same_on (A - ?B - {t}) st s2" by (rule same_on_trans[OF s1(3) s2(3)]) auto
    ultimately show ?thesis using s2(2) by simp
  qed
qed

lemma free_page_dir_ok:
  assumes pool: "page_pool st A" and dir: "dir_ok st A pdir"
  obtains st' where "free_page_dir pdir st = Some st'"
    "page_pool st' (A - insert pdir (tables st pdir))" "same_on (A - insert pdir (tables st pdir)) st st'"
proof -
  note dk = dir_okD[OF pool dir]
  have T: "tables_below st pdir 1024 = tables st pdir"
    by (simp add: tables_below_def tables_def word_less_nat_alt)
  obtain s1 where s1: "free_tables pdir 1024 st = Some s1" "page_pool s1 (A - tables st pdir)"
    "same_on (A - tables st pdir) st s1"
    using free_tables_ok[OF pool dir, of 1024] T by auto
  have "pdir \<in> A - tables st pdir" using dk by auto
  then obtain s2 where s2: "free_page pdir s1 = Some s2" "page_pool s2 (A - tables st pdir - {pdir})"
    "same_on (A - tables st pdir - {pdir}) s1 s2" "page_end s2 = page_end s1"
    by (rule free_page_ok[OF s1(2)])
  have eq: "A - insert pdir (tables st pdir) = A - tables st pdir - {pdir}" by auto
  show ?thesis
  proof (rule that)
    show "free_page_dir pdir st = Some s2" using s1(1) s2(1) by (simp add: free_page_dir_def)
    show "page_pool s2 (A - insert pdir (tables st pdir))" using s2(2) eq by simp
    show "same_on (A - insert pdir (tables st pdir)) st s2"
      unfolding eq by (rule same_on_trans[OF s1(3) s2(3)]) auto
  qed
qed

section \<open>The contract of the page allocator\<close>

interpretation pg: page_source alloc_page free_page page_pool room
proof unfold_locales
  fix s A k p s' assume a: "page_pool s A" "room (Suc k) s" "alloc_page s = (p, s')"
  then have "room 1 s" by (simp add: room_def)
  then obtain q t where q: "alloc_page s = (q, t)" "q \<notin> A" "page_aligned q" "q \<noteq> 0"
    "page_pool t (insert q A)" "same_on A s t" "unat (page_end t) \<le> unat (page_end s) + 4096"
    "page_end s \<le> page_end t" "\<forall>x. page_of x = page_of q \<longrightarrow> pmem t x = 0"
    by (rule alloc_page_ok[OF a(1)])
  have "q = p" "t = s'" using q(1) a(3) by simp_all
  then show "p \<notin> A \<and> p \<noteq> 0 \<and> page_pool s' (insert p A) \<and> room k s'"
    using q(2,4,5,7) a(2) by (simp add: room_def)
next
  fix s A p assume a: "page_pool s A" "p \<in> A"
  obtain t where t: "free_page p s = Some t" "page_pool t (A - {p})" "same_on (A - {p}) s t"
    "page_end t = page_end s"
    by (rule free_page_ok[OF a])
  then show "\<exists>s'. free_page p s = Some s' \<and> page_pool s' (A - {p}) \<and> (\<forall>k. room k s \<longrightarrow> room k s')"
    by (simp add: room_def)
qed

text \<open>The state of the page allocator at boot.\<close>

definition pages_boot :: "bytemem \<Rightarrow> pages" where
  "pages_boot m = \<lparr>page_end = PAGE_START, page_free = 0, npages = 0, pmem = m\<rparr>"

lemma boot_pool: "page_pool (pages_boot m) {}"
proof -
  have "managed (pages_boot m) = {}" by (auto simp: managed_def pages_boot_def)
  then show ?thesis by (auto simp: page_pool_def pages_boot_def PAGE_START_def page_aligned_def intro!: exI[of _ "[]"])
qed

text \<open>A newly allocated page is an empty page directory.\<close>

lemma new_dir:
  assumes pool: "page_pool st A" and rm: "room (Suc k) st" and al: "alloc_page st = (p, st')"
  shows "dir_ok st' (insert p A) p" "tables st' p = {}" "\<forall>l. translate st' p l = None" "room k st'"
    "page_pool st' (insert p A)"
proof -
  have r1: "room 1 st" using rm by (simp add: room_def)
  have p: "page_aligned p" "page_pool st' (insert p A)" "\<forall>x. page_of x = page_of p \<longrightarrow> pmem st' x = 0"
    by (rule alloc_page_ok[OF pool r1]; use al in simp)+
  have "table_of st' p d = None" if "d < 1024" for d
  proof -
    have "load32 (pmem st') (p + 4 * d) = load32 (\<lambda>_. 0) (p + 4 * d)"
      using p(3) page_of_word[OF entryW(1)[OF p(1) that]] entryW(2)[OF p(1) that] by (intro load32_cong) simp
    then show ?thesis by (simp add: table_of_def get_entry_def load32_def)
  qed
  then show "tables st' p = {}" "\<forall>l. translate st' p l = None" "dir_ok st' (insert p A) p"
    by (auto simp: tables_def translate_def dir_ok_def)
  show "room k st'" "page_pool st' (insert p A)" using pg.alloc_law[OF pool rm al] by auto
qed

definition example_dir :: u32 where "example_dir = 0x600000"
definition example_pages :: pages where "example_pages = snd (alloc_page (pages_boot (\<lambda>_. 0)))"

lemma example_pages_ok:
  "page_pool example_pages {example_dir}" "dir_ok example_pages {example_dir} example_dir"
  "room 1000 example_pages" "translate example_pages example_dir l = None" "tables example_pages example_dir = {}"
proof -
  have "alloc_page (pages_boot (\<lambda>_. 0)) = (example_dir, example_pages)"
    by (simp add: example_pages_def alloc_page_def pages_boot_def example_dir_def PAGE_START_def Let_def)
  moreover have "room (Suc 1000) (pages_boot (\<lambda>_. 0))" by (simp add: room_def pages_boot_def PAGE_START_def)
  note nd = new_dir[OF boot_pool this calculation]
  show "page_pool example_pages {example_dir}" "dir_ok example_pages {example_dir} example_dir"
    "room 1000 example_pages" "translate example_pages example_dir l = None" "tables example_pages example_dir = {}"
    using nd by blast+
qed

section \<open>Properties of page.c\<close>

text \<open>Allocating a page gives a page-aligned page that was not live, filled with zeros; the
  contents of every live page stay as they were and the count goes up by one. Giving back any
  live page succeeds and leaves the other live pages as they were.\<close>

lemma page_alloc_free_correct:
  assumes "page_pool st A" "unat (page_end st) + 4096 < 2 ^ 32"
  shows "(\<exists>p st'. alloc_page st = (p, st') \<and> p \<notin> A \<and> page_aligned p \<and> PAGE_START \<le> p \<and>
       page_pool st' (insert p A) \<and> unat (npages st') = unat (npages st) + 1 \<and>
       (\<forall>x. page_of x = page_of p \<longrightarrow> pmem st' x = 0) \<and> same_on A st st') \<and>
     (\<forall>p \<in> A. \<exists>st'. free_page p st = Some st' \<and> page_pool st' (A - {p}) \<and> same_on (A - {p}) st st')"
proof
  have rm: "room 1 st" using assms(2) by (simp add: room_def)
  show "\<exists>p st'. alloc_page st = (p, st') \<and> p \<notin> A \<and> page_aligned p \<and> PAGE_START \<le> p \<and>
       page_pool st' (insert p A) \<and> unat (npages st') = unat (npages st) + 1 \<and>
       (\<forall>x. page_of x = page_of p \<longrightarrow> pmem st' x = 0) \<and> same_on A st st'"
  proof (rule alloc_page_ok[OF assms(1) rm], intro exI conjI)
    fix p st' assume *: "p \<notin> A" "page_pool st' (insert p A)"
    then show "PAGE_START \<le> p" using page_poolD(1)[OF *(2)] by (auto simp: managed_def)
    show "unat (npages st') = unat (npages st) + 1"
      using page_poolD(2,3)[OF assms(1)] page_poolD(2)[OF *(2)] *(1) by simp
  qed assumption+
  show "\<forall>p \<in> A. \<exists>st'. free_page p st = Some st' \<and> page_pool st' (A - {p}) \<and> same_on (A - {p}) st st'"
    using free_page_ok[OF assms(1)] by metis
qed

text \<open>Any number of pages taken from the allocator are distinct and were not live, and giving
  them back in any order makes the live pages again what they were.\<close>

lemma pages_take_and_give_back:
  assumes "page_pool st A" "room n st" "pg.take_pages n st = (ps, st1)" "set qs = set ps" "distinct qs"
  shows "distinct ps \<and> length ps = n \<and> set ps \<inter> A = {} \<and> (\<exists>st2. pg.give_back qs st1 = Some st2 \<and>
     page_pool st2 A \<and> npages st2 = npages st)"
proof -
  obtain st2 where "pg.give_back qs st1 = Some st2" "page_pool st2 A"
    using pg.take_give_back[OF assms] by blast
  moreover from this have "npages st2 = npages st"
    using page_poolD(2)[OF assms(1)] page_poolD(2)[of st2 A] by (simp flip: unat_u32_inj)
  ultimately show ?thesis using pg.take_pages_ok[OF assms(1-3)] by blast
qed

text \<open>C8: Mapping a page succeeds; afterwards lookup_page returns exactly the given physical page
  at the given logical page and its old result at every other logical page.\<close>

theorem map_lookup_page:
  assumes "page_pool st A" "dir_ok st A pdir" "room 1 st" "page_aligned l" "page_aligned physical"
    "access \<in> {PAGE_USER, PAGE_SUPERVISOR}" "rw \<in> {PAGE_READ_WRITE, PAGE_READ_ONLY}"
  shows "\<exists>st' A'. map_page pdir l physical access rw st = Some st' \<and> page_pool st' A' \<and>
     dir_ok st' A' pdir \<and> lookup_page pdir l st' = Some (Some physical) \<and>
     (\<forall>l'. page_aligned l' \<and> l' \<noteq> l \<longrightarrow> lookup_page pdir l' st' = lookup_page pdir l' st)"
proof -
  have fl: "access \<le> 7" "rw \<le> 7"
    using assms(6,7) by (auto simp: PAGE_USER_def PAGE_SUPERVISOR_def PAGE_READ_WRITE_def PAGE_READ_ONLY_def)
  obtain st' A' where m: "map_page pdir l physical access rw st = Some st'" "dir_ext pdir st A st' A'"
    "room 0 st'" "\<forall>l'. page_aligned l' \<longrightarrow> translate st' pdir l' =
       (if l' = l then Some (physical OR PAGE_PRESENT OR access OR rw) else translate st pdir l')"
    "A' - A \<subseteq> tables st' pdir"
    by (rule map_page_ext[OF assms(1,2) assms(3)[unfolded One_nat_def] assms(4,5) fl])
  then show ?thesis
    using dir_extD(1,2)[OF m(2)] lookup_page_translate assms(4) entry_present(2)[OF assms(5) fl]
    by (intro exI[of _ st'] exI[of _ A']) simp
qed

theorem map_lookup_page_witness:
  "\<exists>st'. map_page example_dir 0x20000000 0x700000 PAGE_USER PAGE_READ_WRITE example_pages = Some st' \<and>
     lookup_page example_dir 0x20000000 st' = Some (Some 0x700000)"
  using map_lookup_page[OF example_pages_ok(1,2), of "0x20000000" "0x700000" PAGE_USER PAGE_READ_WRITE]
    example_pages_ok(3) by (auto simp: room_def page_aligned_def)

lemma ext_isolated:
  assumes "page_pool st A" "dir_ok st A pdir" "dir_ok st A other"
    "insert other (tables st other) \<inter> insert pdir (tables st pdir) = {}"
    "dir_ext pdir st A st' A'"
  shows "(\<forall>l. translate st' other l = translate st other l) \<and> dir_ok st' A' other \<and>
     insert other (tables st' other) \<inter> insert pdir (tables st' pdir) = {}"
proof -
  note dk = dir_okD[OF assms(1,3)] and e = dir_extD[OF assms(5)]
  have sub: "insert other (tables st other) \<subseteq> A - insert pdir (tables st pdir)" using dk assms(4) by blast
  have so: "same_on (insert other (tables st other)) st st'" using e(6) sub by (rule same_on_mono)
  have s1: "same_on {other} st st'" using so by (rule same_on_mono) simp
  have tb: "tables st' other = tables st other" by (rule tables_cong[OF dk(1) s1])
  have "dir_ok st' A' other" using sub e(3) by (intro dir_ok_cong[OF assms(3) dk(1) s1]) blast
  then show ?thesis using translate_cong[OF dk(1) so] tb e(5) sub by blast
qed

text \<open>map_new_pages succeeds and extends the address space by n fresh pages that were not live,
  pairwise distinct and filled with zeros, at consecutive logical pages from the base; every
  other logical page keeps its translation.\<close>

lemma map_new_pages_correct:
  assumes "page_pool st A" "dir_ok st A pdir" "room (2 * unat n) st" "page_aligned base"
    "unat base + 4096 * unat n \<le> 2 ^ 32"
  shows "\<exists>st' A' pg. map_new_pages pdir base n st = Some st' \<and> page_pool st' A' \<and> dir_ok st' A' pdir \<and>
     inj_on pg {..<unat n} \<and> (\<forall>i<unat n. pg i \<notin> A \<and> pg i \<in> A' \<and> (\<forall>x. page_of x = page_of (pg i) \<longrightarrow> pmem st' x = 0)) \<and>
     (\<forall>l. page_aligned l \<longrightarrow> translate st' pdir l =
       (if base \<le> l \<and> unat l < unat base + 4096 * unat n
        then Some (pg ((unat l - unat base) div 4096) OR PAGE_PRESENT OR PAGE_USER OR PAGE_READ_WRITE)
        else translate st pdir l))"
proof -
  obtain st' A' pg where m: "map_new_loop pdir base (unat n) st = Some st'" "dir_ext pdir st A st' A'"
    "new_pages pdir base (unat n) pg st A st' A'"
    using map_new_loop_ok[OF assms(1,2), of "unat n" 0 base] assms(3-5) by auto
  have "map_new_pages pdir base n st = Some st'"
    using m(1) assms(4) by (simp add: map_new_pages_def page_aligned_mod)
  moreover have "pg i \<notin> A \<and> pg i \<in> A' \<and> (\<forall>x. page_of x = page_of (pg i) \<longrightarrow> pmem st' x = 0)" if "i < unat n" for i
    using m(3) that unfolding new_pages_def by blast
  moreover have "inj_on pg {..<unat n}" "\<forall>l. page_aligned l \<longrightarrow> translate st' pdir l =
       (if base \<le> l \<and> unat l < unat base + 4096 * unat n
        then Some (pg ((unat l - unat base) div 4096) OR PAGE_PRESENT OR PAGE_USER OR PAGE_READ_WRITE)
        else translate st pdir l)"
    using m(3) unfolding new_pages_def by blast+
  ultimately show ?thesis using dir_extD(1,2)[OF m(2)] by blast
qed

text \<open>C9: Address spaces are isolated: mapping a page, mapping new pages and identity mapping in one
  directory change neither the translation of any other directory that shares no page with it,
  nor the contents of any live page outside the directory they work on.\<close>

theorem address_spaces_isolated:
  assumes "page_pool st A" "dir_ok st A pdir" "dir_ok st A other"
    "insert other (tables st other) \<inter> insert pdir (tables st pdir) = {}" "room (2 * n + 1) st"
    "access \<le> 7" "rw \<le> 7" "page_aligned l" "page_aligned physical"
    "(map_page pdir l physical access rw st = Some st') \<or>
     (map_new_pages pdir l (of_nat n) st = Some st' \<and> unat l + 4096 * n \<le> 2 ^ 32 \<and> n < 2 ^ 20) \<or>
     (identity_map pdir l stop access rw st = Some st' \<and> unat stop \<le> unat l + 4096 * n \<and> unat stop + 4096 \<le> 2 ^ 32)"
  shows "(\<forall>l'. translate st' other l' = translate st other l') \<and>
     same_on (A - insert pdir (tables st pdir)) st st' \<and> (\<exists>A'. page_pool st' A' \<and> dir_ok st' A' other)"
proof -
  have rm: "room (Suc 0) st" "room (2 * n + 0) st" "room n st" using assms(5) by (simp_all add: room_def)
  have "\<exists>A'. dir_ext pdir st A st' A'"
    using assms(10)
  proof (elim disjE conjE)
    assume "map_page pdir l physical access rw st = Some st'"
    then show ?thesis using map_page_ext[OF assms(1,2) rm(1) assms(8,9,6,7)] by (metis option.inject)
  next
    assume "map_new_pages pdir l (of_nat n) st = Some st'" "unat l + 4096 * n \<le> 2 ^ 32" "n < 2 ^ 20"
    then show ?thesis using map_new_loop_ok[OF assms(1,2) rm(2) assms(8)] assms(8)
      by (auto simp: map_new_pages_def page_aligned_mod unat_of_nat)
  next
    assume "identity_map pdir l stop access rw st = Some st'" "unat stop \<le> unat l + 4096 * n" "unat stop + 4096 \<le> 2 ^ 32"
    then show ?thesis using identity_map_ok[OF assms(1,2) rm(3) assms(8,6,7), of stop] by auto
  qed
  then obtain A' where e: "dir_ext pdir st A st' A'" ..
  show ?thesis using ext_isolated[OF assms(1-4) e] dir_extD(1,6)[OF e] by blast
qed

definition example_pages2 :: pages where "example_pages2 = snd (alloc_page example_pages)"
definition example_other :: u32 where "example_other = fst (alloc_page example_pages)"

lemma example_pages2_ok:
  "page_pool example_pages2 {example_other, example_dir}" "dir_ok example_pages2 {example_other, example_dir} example_dir"
  "dir_ok example_pages2 {example_other, example_dir} example_other" "room 999 example_pages2"
  "tables example_pages2 example_dir = {}" "tables example_pages2 example_other = {}" "example_other \<noteq> example_dir"
proof -
  have al: "alloc_page example_pages = (example_other, example_pages2)"
    by (simp add: example_pages2_def example_other_def)
  have r: "room (Suc 999) example_pages" using example_pages_ok(3) by simp
  note nd = new_dir[OF example_pages_ok(1) r al]
  show "page_pool example_pages2 {example_other, example_dir}" "room 999 example_pages2"
    "dir_ok example_pages2 {example_other, example_dir} example_other" "tables example_pages2 example_other = {}"
    using nd by blast+
  show "example_other \<noteq> example_dir" using pg.alloc_law[OF example_pages_ok(1) r al] by blast
  show "tables example_pages2 example_dir = {}"
    by (rule alloc_page_ext[OF example_pages_ok(1,2) r]) (use al example_pages_ok(5) in simp)
  show "dir_ok example_pages2 {example_other, example_dir} example_dir"
    by (rule alloc_page_ext[OF example_pages_ok(1,2) r]) (use al in \<open>simp add: dir_ext_def\<close>)
qed

theorem address_spaces_isolated_witness:
  "\<exists>st'. map_page example_dir 0x40000000 0x700000 4 2 example_pages2 = Some st' \<and>
     (\<forall>l. translate st' example_other l = translate example_pages2 example_other l)"
proof -
  have al: "page_aligned 0x40000000" "page_aligned 0x700000" by (simp_all add: page_aligned_def)
  have r: "room (Suc 0) example_pages2" "room (2 * 0 + 1) example_pages2"
    using example_pages2_ok(4) by (simp_all add: room_def)
  obtain st' where m: "map_page example_dir 0x40000000 0x700000 4 2 example_pages2 = Some st'"
    by (rule map_page_ext[OF example_pages2_ok(1,2) r(1) al, of 4 2]) auto
  have "insert example_other (tables example_pages2 example_other) \<inter>
    insert example_dir (tables example_pages2 example_dir) = {}" using example_pages2_ok(5-7) by simp
  from address_spaces_isolated[OF example_pages2_ok(1-3) this r(2) _ _ al, of 4 2 st'] m
  show ?thesis by auto
qed

text \<open>C10: identity_map terminates for every range that ends at or below 0xFFFFF000; it maps each
  page of the range to itself with the given permissions and changes no other translation.\<close>

theorem identity_map_correct:
  assumes "page_pool st A" "dir_ok st A pdir" "room n st" "page_aligned start" "access \<le> 7" "rw \<le> 7"
    "unat stop \<le> unat start + 4096 * n" "stop \<le> 0xFFFFF000"
  shows "\<exists>st' A'. identity_map pdir start stop access rw st = Some st' \<and> page_pool st' A' \<and> dir_ok st' A' pdir \<and>
    (\<forall>l. page_aligned l \<longrightarrow> translate st' pdir l =
       (if start \<le> l \<and> l < stop then Some (l OR PAGE_PRESENT OR access OR rw) else translate st pdir l)) \<and>
    (\<forall>l. page_aligned l \<and> start \<le> l \<and> l < stop \<longrightarrow> lookup_page pdir l st' = Some (Some l))"
proof -
  have "unat stop + 4096 \<le> 2 ^ 32" using assms(8) by (simp add: word_le_nat_alt)
  then obtain st' A' where m: "identity_map pdir start stop access rw st = Some st'" "dir_ext pdir st A st' A'"
    "\<forall>l. page_aligned l \<longrightarrow> translate st' pdir l =
       (if start \<le> l \<and> l < stop then Some (l OR PAGE_PRESENT OR access OR rw) else translate st pdir l)"
    using identity_map_ok[OF assms(1-7)] by blast
  moreover have "lookup_page pdir l st' = Some (Some l)" if "page_aligned l" "start \<le> l" "l < stop" for l
    using that m(3) lookup_page_translate[OF that(1)] entry_present(2)[OF that(1) assms(5,6)] by simp
  ultimately show ?thesis using dir_extD(1,2)[OF m(2)] by blast
qed

theorem identity_map_correct_witness:
  "\<exists>st'. identity_map example_dir 0 0x200000 PAGE_SUPERVISOR PAGE_READ_WRITE example_pages = Some st' \<and>
     lookup_page example_dir 0xB8000 st' = Some (Some 0xB8000)"
  using identity_map_correct[OF example_pages_ok(1,2,3), of 0 PAGE_SUPERVISOR PAGE_READ_WRITE "0x200000"]
  by (auto simp: page_aligned_def PAGE_SUPERVISOR_def PAGE_READ_WRITE_def)

text \<open>C11: Unmapping a page removes exactly that translation and gives exactly its physical page
  back to the allocator; freeing a directory gives back the directory and all its tables and
  nothing else.\<close>

theorem unmap_and_free_dir:
  assumes "page_pool st A" "dir_ok st A pdir" "page_aligned l" "lookup_page pdir l st = Some (Some q)"
    "q \<in> A" "q \<notin> insert pdir (tables st pdir)"
  shows "(\<exists>st'. unmap_and_free_page pdir l st = Some st' \<and> page_pool st' (A - {q}) \<and> dir_ok st' (A - {q}) pdir \<and>
      (\<forall>l'. page_aligned l' \<longrightarrow> lookup_page pdir l' st' = (if l' = l then Some None else lookup_page pdir l' st))) \<and>
    (\<exists>st'. free_page_dir pdir st = Some st' \<and> page_pool st' (A - insert pdir (tables st pdir)) \<and>
      same_on (A - insert pdir (tables st pdir)) st st')"
proof
  obtain e where e: "translate st pdir l = Some e" "q = e AND PAGE_ADDRESS_MASK"
    using assms(3,4) lookup_page_translate by auto
  obtain st' where "unmap_and_free_page pdir l st = Some st'" "page_pool st' (A - {q})"
    "dir_ok st' (A - {q}) pdir" "tables st' pdir = tables st pdir"
    "\<forall>l'. page_aligned l' \<longrightarrow> translate st' pdir l' = (if l' = l then None else translate st pdir l')"
    "same_on (A - insert q (insert pdir (tables st pdir))) st st'"
    by (rule unmap_ok[OF assms(1-3) e assms(5,6)])
  then show "\<exists>st'. unmap_and_free_page pdir l st = Some st' \<and> page_pool st' (A - {q}) \<and> dir_ok st' (A - {q}) pdir \<and>
      (\<forall>l'. page_aligned l' \<longrightarrow> lookup_page pdir l' st' = (if l' = l then Some None else lookup_page pdir l' st))"
    using lookup_page_translate by auto
  show "\<exists>st'. free_page_dir pdir st = Some st' \<and> page_pool st' (A - insert pdir (tables st pdir)) \<and>
      same_on (A - insert pdir (tables st pdir)) st st'"
    by (rule free_page_dir_ok[OF assms(1,2)]) blast
qed

theorem unmap_and_free_dir_witness:
  "\<exists>st st' q. map_new_pages example_dir 0x20000000 1 example_pages = Some st \<and>
     lookup_page example_dir 0x20000000 st = Some (Some q) \<and>
     unmap_and_free_page example_dir 0x20000000 st = Some st' \<and> lookup_page example_dir 0x20000000 st' = Some None"
proof -
  have al: "page_aligned 0x20000000" by (simp add: page_aligned_def)
  have r: "room (2 * 1 + 0) example_pages" using example_pages_ok(3) by (simp add: room_def)
  obtain st A pg where m: "map_new_loop example_dir 0x20000000 1 example_pages = Some st"
    "dir_ext example_dir example_pages {example_dir} st A"
    "new_pages example_dir 0x20000000 1 pg example_pages {example_dir} st A"
    using map_new_loop_ok[OF example_pages_ok(1,2) r al] by auto
  have q: "pg 0 \<in> A" "pg 0 \<notin> insert example_dir (tables st example_dir)"
    "translate st example_dir 0x20000000 = Some (pg 0 OR PAGE_PRESENT OR PAGE_USER OR PAGE_READ_WRITE)"
    using m(3) al by (auto simp: new_pages_def)
  have "page_aligned (pg 0)" using q(1) page_poolD(1)[OF dir_extD(1)[OF m(2)]] managedD(1) by blast
  then have lk: "lookup_page example_dir 0x20000000 st = Some (Some (pg 0))"
    using lookup_page_translate[OF al] q(3) entry_present(2)[of "pg 0" PAGE_USER PAGE_READ_WRITE]
    by (simp add: PAGE_USER_def PAGE_READ_WRITE_def)
  have "map_new_pages example_dir 0x20000000 1 example_pages = Some st"
    using m(1) by (simp add: map_new_pages_def PAGE_SIZE_def)
  then show ?thesis
    using unmap_and_free_dir[OF dir_extD(1,2)[OF m(2)] al lk q(1,2)] lk al by auto
qed

end
