(* ===== verification/Screen.thy ===== *)
theory Screen
  imports RPrelude
begin

text \<open>
  The text screen of main.c and the cursor registers of interrupts.c: video memory as the array
  of 80 by 25 character cells, the cursor position, \<open>scroll\<close>, \<open>write_to_screen\<close>,
  \<open>move_cursor\<close> and the clearing loop of \<open>kmain\<close>. A cell outside the array makes the result
  \<open>None\<close>.
\<close>

definition SCREEN_WIDTH :: nat where "SCREEN_WIDTH = 80"
definition SCREEN_HEIGHT :: nat where "SCREEN_HEIGHT = 25"
definition BACKSPACE :: u8 where "BACKSPACE = 0x08"

record screenchar =
  sc_c :: u8
  sc_fg :: "4 word"
  sc_bg :: "4 word"

record vga =
  screen :: "screenchar list"
  xpos :: u32
  ypos :: u32
  cursor_hi :: u8
  cursor_lo :: u8

text \<open>\<open>screen[i].c = v\<close> and \<open>screen[i] = screen[j]\<close>.\<close>

definition set_c :: "u32 \<Rightarrow> u8 \<Rightarrow> vga \<Rightarrow> vga option" where
  "set_c i v st = do {
     cell \<leftarrow> list_get (screen st) (unat i);
     s \<leftarrow> list_put (screen st) (unat i) (cell\<lparr>sc_c := v\<rparr>);
     Some (st\<lparr>screen := s\<rparr>) }"

definition copy_cell :: "nat \<Rightarrow> nat \<Rightarrow> vga \<Rightarrow> vga option" where
  "copy_cell i j st = do {
     cell \<leftarrow> list_get (screen st) j;
     s \<leftarrow> list_put (screen st) i cell;
     Some (st\<lparr>screen := s\<rparr>) }"

definition scroll :: "vga \<Rightarrow> vga option" where
  "scroll st = do {
     st1 \<leftarrow> fold_opt (\<lambda>y. fold_opt (\<lambda>x. copy_cell (y * SCREEN_WIDTH + x) ((y + 1) * SCREEN_WIDTH + x))
              [0..<SCREEN_WIDTH]) [0..<SCREEN_HEIGHT - 1] st;
     st2 \<leftarrow> fold_opt (\<lambda>x. set_c (of_nat ((SCREEN_HEIGHT - 1) * SCREEN_WIDTH + x)) 32) [0..<SCREEN_WIDTH] st1;
     Some (st2\<lparr>ypos := ypos st2 - 1\<rparr>) }"

definition cell_index :: "vga \<Rightarrow> u32" where
  "cell_index st = ypos st * of_nat SCREEN_WIDTH + xpos st"

definition write_char :: "u8 \<Rightarrow> vga \<Rightarrow> vga option" where
  "write_char c st = do {
     st1 \<leftarrow>
       (if c = 10 then Some (st\<lparr>xpos := 0, ypos := ypos st + 1\<rparr>)
        else if c = 9 then Some (st\<lparr>xpos := xpos st + (8 - xpos st mod 8)\<rparr>)
        else if c = BACKSPACE \<and> xpos st \<noteq> 0 then do {
          let st' = st\<lparr>xpos := xpos st - 1\<rparr>;
          set_c (cell_index st') 0 st' }
        else do {
          st' \<leftarrow> set_c (cell_index st) c st;
          Some (st'\<lparr>xpos := xpos st' + 1\<rparr>) });
     let st2 = (if xpos st1 \<ge> of_nat SCREEN_WIDTH then st1\<lparr>xpos := 0, ypos := ypos st1 + 1\<rparr> else st1);
     if ypos st2 \<ge> of_nat SCREEN_HEIGHT then scroll st2 else Some st2 }"

definition move_cursor :: "u32 \<Rightarrow> u32 \<Rightarrow> vga \<Rightarrow> vga" where
  "move_cursor x y st = (let val = y * 80 + x
     in st\<lparr>cursor_hi := ucast (drop_bit 8 val), cursor_lo := ucast val\<rparr>)"

definition write_to_screen :: "u8 list \<Rightarrow> vga \<Rightarrow> vga option" where
  "write_to_screen data st = do {
     st1 \<leftarrow> fold_opt write_char data st;
     Some (move_cursor (xpos st1) (ypos st1) st1) }"

definition clear_screen :: "vga \<Rightarrow> vga option" where
  "clear_screen st = do {
     st1 \<leftarrow> fold_opt (\<lambda>y. fold_opt (\<lambda>x. set_c (of_nat (y * SCREEN_WIDTH + x)) 32) [0..<SCREEN_WIDTH])
        [0..<SCREEN_HEIGHT] st;
     Some (move_cursor (xpos st1) (ypos st1) st1) }"

section \<open>The cursor stays on the screen\<close>

definition vga_ok :: "vga \<Rightarrow> bool" where
  "vga_ok st \<longleftrightarrow> length (screen st) = 2000 \<and> xpos st < 80 \<and> ypos st < 25"

lemma set_c_ok: "unat i < length (screen st) \<Longrightarrow> set_c i v st =
   Some (st\<lparr>screen := (screen st)[unat i := (screen st ! unat i)\<lparr>sc_c := v\<rparr>]\<rparr>)"
  by (simp add: set_c_def)

lemma scroll_copy_line:
  assumes "length (screen st) = 2000" "y < 24"
    "screen st = drop 80 (take (y * 80 + 80) s) @ drop (y * 80) s" "length s = 2000"
  shows "\<exists>st'. fold_opt (\<lambda>x. copy_cell (y * SCREEN_WIDTH + x) ((y + 1) * SCREEN_WIDTH + x)) [0..<SCREEN_WIDTH] st = Some st' \<and>
    st' = st\<lparr>screen := screen st'\<rparr> \<and> screen st' = drop 80 (take (Suc y * 80 + 80) s) @ drop (Suc y * 80) s"
proof -
  let ?P = "\<lambda>x t. t = st\<lparr>screen := screen t\<rparr> \<and>
    screen t = drop 80 (take (y * 80 + x + 80) s) @ drop (y * 80 + x) s"
  have "\<exists>st'. fold_opt (\<lambda>x. copy_cell (y * SCREEN_WIDTH + x) ((y + 1) * SCREEN_WIDTH + x)) [0..<SCREEN_WIDTH] st
      = Some st' \<and> ?P SCREEN_WIDTH st'"
  proof (rule fold_opt_inv)
    show "?P 0 st" using assms by simp
  next
    fix x t assume x: "x < SCREEN_WIDTH" and P: "?P x t"
    let ?k = "y * 80 + x"
    have k: "?k + 80 < 2000" using x assms(2) by (simp add: SCREEN_WIDTH_def)
    let ?a = "drop 80 (take (?k + 80) s)" and ?b = "drop ?k s"
    have la: "length ?a = ?k" using k assms(4) by simp
    have len: "length (screen t) = 2000" using P k assms(4) by simp
    have c: "screen t ! (?k + 80) = s ! (?k + 80)"
      using P la k assms(4) by (simp add: nth_append)
    have "(?a @ ?b)[?k := s ! (?k + 80)] = drop 80 (take (?k + 80) s @ [s ! (?k + 80)]) @ drop (Suc ?k) s"
      using la k assms(4) by (simp add: list_update_append Cons_nth_drop_Suc[symmetric])
    also have "take (?k + 80) s @ [s ! (?k + 80)] = take (Suc ?k + 80) s"
      using k assms(4) by (metis add_Suc take_Suc_conv_app_nth)
    finally have u: "(screen t)[?k := screen t ! (?k + 80)] = drop 80 (take (Suc ?k + 80) s) @ drop (Suc ?k) s"
      using P c by simp
    have "copy_cell (y * SCREEN_WIDTH + x) ((y + 1) * SCREEN_WIDTH + x) t =
      Some (t\<lparr>screen := (screen t)[?k := screen t ! (?k + 80)]\<rparr>)"
      using len k by (simp add: copy_cell_def SCREEN_WIDTH_def add.commute add.left_commute)
    moreover have "?P (Suc x) (t\<lparr>screen := (screen t)[?k := screen t ! (?k + 80)]\<rparr>)"
      using u P by (cases t, cases st) simp
    ultimately show "\<exists>t'. copy_cell (y * SCREEN_WIDTH + x) ((y + 1) * SCREEN_WIDTH + x) t = Some t' \<and> ?P (Suc x) t'"
      by blast
  qed
  then show ?thesis by (simp add: SCREEN_WIDTH_def add.commute)
qed

lemma scroll_ok:
  assumes "length (screen st) = 2000"
  shows "scroll st = Some (st\<lparr>screen := drop 80 (screen st) @
     map (\<lambda>sc. sc\<lparr>sc_c := 32\<rparr>) (drop 1920 (screen st)), ypos := ypos st - 1\<rparr>)"
proof -
  let ?s = "screen st"
  let ?P = "\<lambda>y t. t = st\<lparr>screen := screen t\<rparr> \<and> screen t = drop 80 (take (y * 80 + 80) ?s) @ drop (y * 80) ?s"
  have "\<exists>t. fold_opt (\<lambda>y. fold_opt (\<lambda>x. copy_cell (y * SCREEN_WIDTH + x) ((y + 1) * SCREEN_WIDTH + x))
      [0..<SCREEN_WIDTH]) [0..<SCREEN_HEIGHT - 1] st = Some t \<and> ?P (SCREEN_HEIGHT - 1) t"
  proof (rule fold_opt_inv)
    fix y t assume y: "y < SCREEN_HEIGHT - 1" and P: "?P y t"
    then have "length (screen t) = 2000" using assms by (simp add: SCREEN_HEIGHT_def)
    then show "\<exists>t'. fold_opt (\<lambda>x. copy_cell (y * SCREEN_WIDTH + x) ((y + 1) * SCREEN_WIDTH + x)) [0..<SCREEN_WIDTH] t
       = Some t' \<and> ?P (Suc y) t'"
      using scroll_copy_line[of t y ?s] y P assms by (cases t, cases st) (auto simp: SCREEN_HEIGHT_def)
  qed simp
  then obtain t where t: "fold_opt (\<lambda>y. fold_opt (\<lambda>x. copy_cell (y * SCREEN_WIDTH + x) ((y + 1) * SCREEN_WIDTH + x))
      [0..<SCREEN_WIDTH]) [0..<SCREEN_HEIGHT - 1] st = Some t" "t = st\<lparr>screen := screen t\<rparr>"
    "screen t = drop 80 ?s @ drop 1920 ?s"
    using assms by (auto simp: SCREEN_HEIGHT_def)
  let ?f = "\<lambda>sc :: screenchar. sc\<lparr>sc_c := 32\<rparr>" let ?l = "drop 1920 ?s"
  let ?Q = "\<lambda>x u. u = st\<lparr>screen := screen u\<rparr> \<and> screen u = drop 80 ?s @ map ?f (take x ?l) @ drop x ?l"
  have "\<exists>u. fold_opt (\<lambda>x. set_c (of_nat ((SCREEN_HEIGHT - 1) * SCREEN_WIDTH + x)) 32) [0..<SCREEN_WIDTH] t
      = Some u \<and> ?Q SCREEN_WIDTH u"
  proof (rule fold_opt_inv)
    show "?Q 0 t" using t by simp
  next
    fix x u assume x: "x < SCREEN_WIDTH" and Q: "?Q x u"
    have x80: "x < 80" using x by (simp add: SCREEN_WIDTH_def)
    have i: "unat (of_nat ((SCREEN_HEIGHT - 1) * SCREEN_WIDTH + x) :: u32) = 1920 + x"
      using x80 by (simp add: SCREEN_HEIGHT_def SCREEN_WIDTH_def unat_of_nat unat_word_ariths)
    have len: "length (screen u) = 2000" using Q x80 assms by simp
    have lt: "length (take x ?l) = x" using x80 assms by simp
    have n: "screen u ! (1920 + x) = ?l ! x" using Q lt assms x80 by (simp add: nth_append add.commute)
    have "(screen u)[1920 + x := ?f (?l ! x)] = drop 80 ?s @ (map ?f (take x ?l) @ drop x ?l)[x := ?f (?l ! x)]"
      using Q assms by (simp add: list_update_append)
    also have "(map ?f (take x ?l) @ drop x ?l)[x := ?f (?l ! x)] = map ?f (take (Suc x) ?l) @ drop (Suc x) ?l"
      using x80 assms by (intro map_prefix_step) simp
    finally show "\<exists>u'. set_c (of_nat ((SCREEN_HEIGHT - 1) * SCREEN_WIDTH + x)) 32 u = Some u' \<and> ?Q (Suc x) u'"
      using set_c_ok[of "of_nat ((SCREEN_HEIGHT - 1) * SCREEN_WIDTH + x)" u 32] i len x80 n Q
      by (cases u, cases st) auto
  qed
  then obtain u where "fold_opt (\<lambda>x. set_c (of_nat ((SCREEN_HEIGHT - 1) * SCREEN_WIDTH + x)) 32) [0..<SCREEN_WIDTH] t = Some u"
    "u = st\<lparr>screen := screen u\<rparr>" "screen u = drop 80 ?s @ map ?f ?l"
    using assms by (auto simp: SCREEN_WIDTH_def)
  then show ?thesis using t(1) by (cases u, cases st) (simp add: scroll_def)
qed

lemma vga_okD:
  assumes "vga_ok st"
  shows "length (screen st) = 2000" "unat (xpos st) < 80" "unat (ypos st) < 25"
    "unat (cell_index st) = unat (ypos st) * 80 + unat (xpos st)" "unat (cell_index st) < 2000"
proof -
  show *: "length (screen st) = 2000" "unat (xpos st) < 80" "unat (ypos st) < 25"
    using assms by (simp_all add: vga_ok_def word_less_nat_alt)
  then show i: "unat (cell_index st) = unat (ypos st) * 80 + unat (xpos st)"
    by (simp add: cell_index_def SCREEN_WIDTH_def unat_word_ariths)
  show "unat (cell_index st) < 2000" using i * by simp
qed

text \<open>The end of one step of the loop: wrap at the right edge, scroll at the bottom.\<close>

definition wrap_line :: "vga \<Rightarrow> vga option" where
  "wrap_line st = (let st2 = (if xpos st \<ge> 80 then st\<lparr>xpos := 0, ypos := ypos st + 1\<rparr> else st)
     in if ypos st2 \<ge> 25 then scroll st2 else Some st2)"

lemma wrap_line_ok:
  assumes "length (screen st) = 2000" "unat (xpos st) \<le> 80" "unat (ypos st) < 25 \<or> unat (ypos st) = 25 \<and> xpos st = 0"
  shows "\<exists>st'. wrap_line st = Some st' \<and> vga_ok st'"
proof -
  let ?st2 = "if xpos st \<ge> 80 then st\<lparr>xpos := 0, ypos := ypos st + 1\<rparr> else st"
  have y: "unat (ypos ?st2) \<le> 25" and x: "xpos ?st2 < 80" and l: "length (screen ?st2) = 2000"
    using assms by (auto simp: word_le_nat_alt word_less_nat_alt unat_word_ariths)
  show ?thesis
  proof (cases "ypos ?st2 \<ge> 25")
    case True
    then have "ypos ?st2 = 25" using y by (simp add: word_le_nat_alt flip: unat_u32_inj)
    then show ?thesis using True x l scroll_ok[OF l] by (simp add: wrap_line_def vga_ok_def Let_def)
  next
    case False
    then have "vga_ok ?st2" using x l by (simp only: vga_ok_def not_le)
    moreover have "wrap_line st = Some ?st2" using False unfolding wrap_line_def Let_def by presburger
    ultimately show ?thesis by blast
  qed
qed

lemma write_char_eq:
  "write_char c st = do {
     st1 \<leftarrow>
       (if c = 10 then Some (st\<lparr>xpos := 0, ypos := ypos st + 1\<rparr>)
        else if c = 9 then Some (st\<lparr>xpos := xpos st + (8 - xpos st mod 8)\<rparr>)
        else if c = BACKSPACE \<and> xpos st \<noteq> 0 then do {
          let st' = st\<lparr>xpos := xpos st - 1\<rparr>;
          set_c (cell_index st') 0 st' }
        else do {
          st' \<leftarrow> set_c (cell_index st) c st;
          Some (st'\<lparr>xpos := xpos st' + 1\<rparr>) });
     wrap_line st1 }"
  by (simp add: write_char_def wrap_line_def SCREEN_WIDTH_def SCREEN_HEIGHT_def Let_def)

lemma tab_stop:
  assumes "unat (x::u32) < 80" shows "unat (x + (8 - x mod 8)) \<le> 80"
proof -
  have m: "unat (x mod 8) = unat x mod 8" by (simp add: unat_mod)
  then have "unat (8 - x mod 8) = 8 - unat x mod 8" by (simp add: unat_sub word_le_nat_alt)
  then have "unat (x + (8 - x mod 8)) \<le> unat x + (8 - unat x mod 8)" by (simp add: unat_word_ariths)
  also have "\<dots> = (unat x div 8) * 8 + 8" using div_mult_mod_eq[of "unat x" 8] by arith
  also have "\<dots> \<le> 80" using assms by simp
  finally show ?thesis .
qed

lemma write_char_ok:
  assumes ok: "vga_ok st" shows "\<exists>st'. write_char c st = Some st' \<and> vga_ok st'"
proof -
  note v = vga_okD[OF ok]
  consider "c = 10" | "c = 9" | "c \<noteq> 10" "c \<noteq> 9" "c = BACKSPACE \<and> xpos st \<noteq> 0"
    | "c \<noteq> 10" "c \<noteq> 9" "\<not> (c = BACKSPACE \<and> xpos st \<noteq> 0)" by blast
  then show ?thesis
  proof cases
    case 1
    have "unat (ypos st) < 24 \<or> unat (ypos st) = 24" using v(3) by linarith
    then show ?thesis using 1 v wrap_line_ok[of "st\<lparr>xpos := 0, ypos := ypos st + 1\<rparr>"]
      by (simp add: write_char_eq unat_word_ariths)
  next
    case 2
    then show ?thesis using v tab_stop[OF v(2)] wrap_line_ok[of "st\<lparr>xpos := xpos st + (8 - xpos st mod 8)\<rparr>"]
      by (simp add: write_char_eq)
  next
    case 3
    let ?st' = "st\<lparr>xpos := xpos st - 1\<rparr>"
    have x: "unat (xpos st - 1) < 80" using 3 v(2) unat_pred_u32[of "xpos st"] by auto
    then have ok': "vga_ok ?st'" using ok by (simp add: vga_ok_def word_less_nat_alt)
    then show ?thesis
      using 3 x v set_c_ok[of "cell_index ?st'" ?st' 0] vga_okD(5)[OF ok']
        wrap_line_ok[of "?st'\<lparr>screen := (screen st)[unat (cell_index ?st') := (screen st ! unat (cell_index ?st'))\<lparr>sc_c := 0\<rparr>]\<rparr>"]
      by (simp add: write_char_eq Let_def)
  next
    case 4
    let ?st' = "st\<lparr>screen := (screen st)[unat (cell_index st) := (screen st ! unat (cell_index st))\<lparr>sc_c := c\<rparr>]\<rparr>"
    have "unat (xpos st + 1) \<le> 80" using v(2) by (simp add: unat_word_ariths)
    then show ?thesis
      using 4 v set_c_ok[of "cell_index st" st c] wrap_line_ok[of "?st'\<lparr>xpos := xpos st + 1\<rparr>"]
      by (auto simp: write_char_eq)
  qed
qed

lemma write_chars_ok: "vga_ok st \<Longrightarrow> \<exists>st'. fold_opt write_char data st = Some st' \<and> vga_ok st'"
proof (induction data arbitrary: st)
  case (Cons c data)
  then show ?case using write_char_ok[OF Cons.prems, of c] by fastforce
qed simp

section \<open>Plain text\<close>

definition plain :: "u8 \<Rightarrow> bool" where
  "plain c \<longleftrightarrow> c \<noteq> 10 \<and> c \<noteq> 9 \<and> c \<noteq> BACKSPACE"

lemma write_char_plain:
  assumes ok: "vga_ok st" and c: "plain c" and i: "Suc (unat (cell_index st)) < 2000"
  shows "\<exists>st'. write_char c st = Some st' \<and> vga_ok st' \<and> unat (cell_index st') = Suc (unat (cell_index st)) \<and>
    screen st' = (screen st)[unat (cell_index st) := (screen st ! unat (cell_index st))\<lparr>sc_c := c\<rparr>]"
proof -
  note v = vga_okD[OF ok]
  let ?st' = "st\<lparr>screen := (screen st)[unat (cell_index st) := (screen st ! unat (cell_index st))\<lparr>sc_c := c\<rparr>],
    xpos := xpos st + 1\<rparr>"
  have w: "write_char c st = wrap_line ?st'"
    using c v set_c_ok[of "cell_index st" st c] by (simp add: write_char_eq plain_def)
  have x1: "unat (xpos st + 1) = unat (xpos st) + 1" "unat (ypos st + 1) = unat (ypos st) + 1"
    using v by (simp_all add: unat_word_ariths)
  let ?st2 = "if xpos ?st' \<ge> 80 then ?st'\<lparr>xpos := 0, ypos := ypos ?st' + 1\<rparr> else ?st'"
  have ok2: "vga_ok ?st2"
    using v x1 i by (auto simp: vga_ok_def word_less_nat_alt word_le_nat_alt)
  then have "wrap_line ?st' = Some ?st2"
    unfolding wrap_line_def Let_def by (meson vga_ok_def not_le)
  moreover have "unat (cell_index ?st2) = Suc (unat (cell_index st))"
    using vga_okD(4)[OF ok2] v x1 by (auto simp: word_le_nat_alt)
  moreover have "screen ?st2 = (screen st)[unat (cell_index st) := (screen st ! unat (cell_index st))\<lparr>sc_c := c\<rparr>]" by simp
  ultimately show ?thesis using w ok2 by simp
qed

text \<open>The cells of the screen with a text laid over them from a position on.\<close>

definition overlay :: "screenchar list \<Rightarrow> nat \<Rightarrow> u8 list \<Rightarrow> screenchar list" where
  "overlay s i data = take i s @ map2 (\<lambda>sc c. sc\<lparr>sc_c := c\<rparr>) (take (length data) (drop i s)) data @ drop (i + length data) s"

lemma overlay_Cons:
  assumes "i + length (c # data) \<le> length s"
  shows "overlay (s[i := (s ! i)\<lparr>sc_c := c\<rparr>]) (Suc i) data = overlay s i (c # data)"
  using assms unfolding overlay_def
  by (simp add: take_Suc_conv_app_nth Cons_nth_drop_Suc[symmetric] drop_update_cancel take_update_cancel)

lemma write_plain_text:
  assumes "vga_ok st" "list_all plain data" "unat (cell_index st) + length data < 2000"
  shows "\<exists>st'. fold_opt write_char data st = Some st' \<and> vga_ok st' \<and>
    unat (cell_index st') = unat (cell_index st) + length data \<and>
    screen st' = overlay (screen st) (unat (cell_index st)) data"
  using assms
proof (induction data arbitrary: st)
  case Nil
  then show ?case by (simp add: overlay_def)
next
  case (Cons c data)
  then obtain st1 where st1: "write_char c st = Some st1" "vga_ok st1"
    "unat (cell_index st1) = Suc (unat (cell_index st))"
    "screen st1 = (screen st)[unat (cell_index st) := (screen st ! unat (cell_index st))\<lparr>sc_c := c\<rparr>]"
    using write_char_plain[of st c] by auto
  then obtain st' where "fold_opt write_char data st1 = Some st'" "vga_ok st'"
    "unat (cell_index st') = unat (cell_index st1) + length data"
    "screen st' = overlay (screen st1) (unat (cell_index st1)) data"
    using Cons.IH[of st1] Cons.prems by auto
  then show ?case using st1 Cons.prems overlay_Cons[of "unat (cell_index st)" c data "screen st"] vga_okD(1)
    by (intro exI[of _ st']) auto
qed

section \<open>Properties of the screen\<close>

definition example_vga :: vga where
  "example_vga = \<lparr>screen = replicate 2000 \<lparr>sc_c = 32, sc_fg = 7, sc_bg = 0\<rparr>, xpos = 70, ypos = 24,
     cursor_hi = 0, cursor_lo = 0\<rparr>"

lemma example_vga_ok: "vga_ok example_vga" "unat (cell_index example_vga) = 1990"
  by (simp_all add: vga_ok_def example_vga_def cell_index_def SCREEN_WIDTH_def unat_word_ariths)

text \<open>C23: Whatever is written, and for how long, write_to_screen never touches memory outside the
  80x25 cells, leaves the cursor on the screen, and the two cursor registers of the video card
  hold the position of the cursor.\<close>

theorem write_to_screen_safe:
  assumes "vga_ok st"
  shows "\<exists>st'. write_to_screen data st = Some st' \<and> vga_ok st' \<and>
     unat (cursor_hi st') * 256 + unat (cursor_lo st') = unat (ypos st') * 80 + unat (xpos st')"
proof -
  obtain t where t: "fold_opt write_char data st = Some t" "vga_ok t" using write_chars_ok[OF assms] by blast
  let ?v = "ypos t * 80 + xpos t"
  have v: "unat ?v = unat (ypos t) * 80 + unat (xpos t)" "unat ?v < 2000"
    using vga_okD(4,5)[OF t(2)] by (simp_all add: cell_index_def SCREEN_WIDTH_def)
  have "unat (ucast (drop_bit 8 ?v) :: u8) = unat ?v div 256 mod 256" "unat (ucast ?v :: u8) = unat ?v mod 256"
    by (simp_all add: unsigned_ucast_eq unsigned_drop_bit_eq take_bit_eq_mod drop_bit_eq_div unat_div)
  then have "unat (ucast (drop_bit 8 ?v) :: u8) * 256 + unat (ucast ?v :: u8) = unat ?v"
    using v(2) by simp
  then show ?thesis using t v(1) by (auto simp: write_to_screen_def move_cursor_def Let_def vga_ok_def)
qed

theorem write_to_screen_safe_witness:
  "\<exists>st'. write_to_screen (replicate 5000 65) example_vga = Some st' \<and> vga_ok st'"
  using write_to_screen_safe[OF example_vga_ok(1), of "replicate 5000 65"] by blast

text \<open>Text without newlines, tabs and backspaces that fits before the end of the screen appears
  cell by cell from the cursor on, running over line ends, with the colours and every other cell
  unchanged, and the cursor ends directly behind it.\<close>

lemma write_to_screen_text:
  assumes "vga_ok st" "list_all plain data" "unat (cell_index st) + length data < 2000"
  shows "\<exists>st'. write_to_screen data st = Some st' \<and> screen st' = overlay (screen st) (unat (cell_index st)) data \<and>
     unat (cell_index st') = unat (cell_index st) + length data"
  using write_plain_text[OF assms] by (auto simp: write_to_screen_def move_cursor_def Let_def cell_index_def)

text \<open>Scrolling moves every line up by one, blanks the characters of the last line but keeps its
  colours, and moves the cursor up one line.\<close>

lemma scroll_lines:
  assumes "length (screen st) = 2000"
  shows "\<exists>st'. scroll st = Some st' \<and> ypos st' = ypos st - 1 \<and> xpos st' = xpos st \<and>
     (\<forall>y<24. \<forall>x<80. screen st' ! (y * 80 + x) = screen st ! ((y + 1) * 80 + x)) \<and>
     (\<forall>x<80. screen st' ! (24 * 80 + x) = (screen st ! (24 * 80 + x))\<lparr>sc_c := 32\<rparr>)"
proof -
  let ?s' = "drop 80 (screen st) @ map (\<lambda>sc. sc\<lparr>sc_c := 32\<rparr>) (drop 1920 (screen st))"
  have "?s' ! (y * 80 + x) = screen st ! ((y + 1) * 80 + x)" if "y < 24" "x < 80" for y x
  proof -
    have "y * 80 + x < 1920" using that by simp
    then show ?thesis using assms by (simp add: nth_append add.commute add.left_commute)
  qed
  moreover have "?s' ! (1920 + x) = (screen st ! (1920 + x))\<lparr>sc_c := 32\<rparr>" if "x < 80" for x
    using assms that by (simp add: nth_append)
  ultimately show ?thesis using scroll_ok[OF assms] by simp
qed

end
