(* ===== verification/Kernel_State.thy ===== *)
theory Kernel_State
  imports Kmalloc Page Screen
begin

text \<open>
  The state of the kernel, include/kernel.h and the global variables of process.c, main.c and
  syscall.c: registers, processes, file handles, pipes, messages, and the record \<open>kstate\<close> that
  holds the kernel heap, the page allocator, the paging register and the screen.

  Pointers to processes are indices into the process table (they always point into
  \<open>processes\<close>). Pointers to objects of the kernel heap are the addresses that \<open>kmalloc\<close>
  returns; the objects themselves are kept in one map per type, and \<open>kfree\<close> removes them, so an
  access to a freed object has the result \<open>None\<close>. Fields that the code leaves uninitialised are
  options. Function pointers are the constructors of \<open>write_fun\<close>, \<open>read_fun\<close> and
  \<open>destroy_fun\<close>.
\<close>

section \<open>Constants\<close>

definition MAX_PROCESSES :: nat where "MAX_PROCESSES = 32"
definition MAX_FDS :: nat where "MAX_FDS = 16"
definition BUFSIZE :: u32 where "BUFSIZE = 1024"
definition PATH_MAX :: nat where "PATH_MAX = 1024"
definition PROCESS_STACK_BASE :: u32 where "PROCESS_STACK_BASE = 0x40000000"
definition PROCESS_STACK_SIZE :: u32 where "PROCESS_STACK_SIZE = 64 * 1024"
definition PROCESS_TEXT_BASE :: u32 where "PROCESS_TEXT_BASE = 0x10000000"
definition USER_CODE_SEGMENT :: u32 where "USER_CODE_SEGMENT = 0x18"
definition USER_DATA_SEGMENT :: u32 where "USER_DATA_SEGMENT = 0x20"
definition RING_3 :: u32 where "RING_3 = 3"

definition EBADF :: int where "EBADF = 2"
definition EINVAL :: int where "EINVAL = 3"
definition ESRCH :: int where "ESRCH = 4"
definition EPERM :: int where "EPERM = 5"
definition ENOENT :: int where "ENOENT = 6"
definition EMFILE :: int where "EMFILE = 7"
definition EISDIR :: int where "EISDIR = 8"
definition ENOTDIR :: int where "ENOTDIR = 9"
definition ENOSYS :: int where "ENOSYS = 10"
definition ENOMEM :: int where "ENOMEM = 11"
definition EFAULT :: int where "EFAULT = 12"
definition EAGAIN :: int where "EAGAIN = 13"
definition ECHILD :: int where "ECHILD = 14"
definition ESUSPEND :: int where "ESUSPEND = 1000"

lemmas errno_defs = EBADF_def EINVAL_def ESRCH_def EPERM_def ENOENT_def EMFILE_def EISDIR_def
  ENOTDIR_def ENOSYS_def ENOMEM_def EFAULT_def EAGAIN_def ECHILD_def ESUSPEND_def

section \<open>Data\<close>

record regs =
  fstate :: "u32 list"
  r_gs :: u32
  r_fs :: u32
  r_es :: u32
  r_ds :: u32
  r_edi :: u32
  r_esi :: u32
  r_ebp :: u32
  r_esp :: u32
  r_ebx :: u32
  r_edx :: u32
  r_ecx :: u32
  r_eax :: u32
  r_int_no :: u32
  r_err_code :: u32
  r_eip :: u32
  r_cs :: u32
  r_eflags :: u32
  r_useresp :: u32
  r_ss :: u32

definition zero_regs :: regs where
  "zero_regs = \<lparr>fstate = replicate 27 0, r_gs = 0, r_fs = 0, r_es = 0, r_ds = 0, r_edi = 0, r_esi = 0,
     r_ebp = 0, r_esp = 0, r_ebx = 0, r_edx = 0, r_ecx = 0, r_eax = 0, r_int_no = 0, r_err_code = 0,
     r_eip = 0, r_cs = 0, r_eflags = 0, r_useresp = 0, r_ss = 0\<rparr>"

record process =
  p_pid :: int
  p_exists :: bool
  p_saved_regs :: regs
  p_ready :: bool
  p_prev :: "nat option"
  p_next :: "nat option"
  p_pdir :: u32
  p_in_syscall :: u32
  p_last_errno :: int
  p_filedesc :: "u32 list"
  p_cwd :: "u8 list"
  p_stack_start :: u32
  p_stack_end :: u32
  p_data_start :: u32
  p_data_end :: u32
  p_text_start :: u32
  p_text_end :: u32
  p_parent_pid :: int
  p_exit_status :: int
  p_exited :: bool
  p_waiting_on :: int
  p_mailbox :: u32
  p_mailbox_size :: nat
  p_mailbox_alloc :: nat
  p_receive_blocked :: bool

text \<open>A process structure after \<open>memset(proc, 0, sizeof(process))\<close>.\<close>

definition zero_process :: process where
  "zero_process = \<lparr>p_pid = 0, p_exists = False, p_saved_regs = zero_regs, p_ready = False, p_prev = None,
     p_next = None, p_pdir = 0, p_in_syscall = 0, p_last_errno = 0, p_filedesc = replicate MAX_FDS 0,
     p_cwd = replicate PATH_MAX 0, p_stack_start = 0, p_stack_end = 0, p_data_start = 0, p_data_end = 0, p_text_start = 0,
     p_text_end = 0, p_parent_pid = 0, p_exit_status = 0, p_exited = False, p_waiting_on = 0,
     p_mailbox = 0, p_mailbox_size = 0, p_mailbox_alloc = 0, p_receive_blocked = False\<rparr>"

record processlist =
  pl_first :: "nat option"
  pl_last :: "nat option"

record pipe_buffer =
  pb_reading :: bool
  pb_writing :: bool
  pb_alloc :: u32
  pb_len :: u32
  pb_readpid :: int
  pb_data :: u32

datatype write_fun = screen_write | pipe_writer_write | pipe_reader_write | file_write
datatype read_fun = screen_read | pipe_writer_read | pipe_reader_read | file_read
datatype destroy_fun = screen_destroy | pipe_writer_destroy | pipe_reader_destroy | file_destroy

datatype fh_type = FH_NONE | FH_SCREEN | FH_PIPE_WRITER | FH_PIPE_READER | FH_FILE | FH_DIR

record filehandle =
  fh_type :: fh_type
  refcount :: int
  fh_write :: write_fun
  fh_read :: read_fun
  fh_destroy :: destroy_fun
  fh_p :: "u32 option"
  fh_entry :: "u32 option"
  fh_pos :: "u32 option"
  fh_entryno :: "u32 option"

record message =
  msg_from :: u32
  msg_tag :: u32
  msg_size :: u32
  msg_data :: "u8 list"

record kstate =
  procs :: "process list"
  current_process :: "nat option"
  ready :: processlist
  suspended :: processlist
  kernel_memarea :: memarea
  junk :: "u32 \<Rightarrow> u8"         \<comment> \<open>what unallocated kernel memory holds\<close>
  pipes :: "u32 \<Rightarrow> pipe_buffer option"
  fhs :: "u32 \<Rightarrow> filehandle option"
  bufs :: "u32 \<Rightarrow> u8 list option"
  mboxes :: "u32 \<Rightarrow> message list option"
  pgs :: pages
  paging :: "u32 option"      \<comment> \<open>the page directory in use, if paging is enabled\<close>
  console :: vga
  input_pipe :: u32
  timer_ticks :: u32
  filesystem :: u32

section \<open>Access to processes and heap objects\<close>

definition get_proc :: "kstate \<Rightarrow> nat \<Rightarrow> process option" where
  "get_proc st i = list_get (procs st) i"

definition upd_proc :: "nat \<Rightarrow> (process \<Rightarrow> process) \<Rightarrow> kstate \<Rightarrow> kstate option" where
  "upd_proc i f st = do {
     p \<leftarrow> list_get (procs st) i;
     ps \<leftarrow> list_put (procs st) i (f p);
     Some (st\<lparr>procs := ps\<rparr>) }"

text \<open>\<open>*current_process\<close> and updates through it; a null pointer stops.\<close>

definition cur :: "kstate \<Rightarrow> process option" where
  "cur st = do { i \<leftarrow> current_process st; get_proc st i }"

definition upd_cur :: "(process \<Rightarrow> process) \<Rightarrow> kstate \<Rightarrow> kstate option" where
  "upd_cur f st = do { i \<leftarrow> current_process st; upd_proc i f st }"

definition knew :: "u32 \<Rightarrow> kstate \<Rightarrow> (u32 \<times> kstate) option" where
  "knew n st = do { (p, ma) \<leftarrow> kmalloc (kernel_memarea st) n; Some (p, st\<lparr>kernel_memarea := ma\<rparr>) }"

definition kdelete :: "u32 \<Rightarrow> kstate \<Rightarrow> kstate option" where
  "kdelete p st = do {
     ma \<leftarrow> kfree (kernel_memarea st) p;
     Some (st\<lparr>kernel_memarea := ma, pipes := (pipes st)(p := None), fhs := (fhs st)(p := None),
             bufs := (bufs st)(p := None), mboxes := (mboxes st)(p := None)\<rparr>) }"

text \<open>A new array of bytes holds whatever the memory held.\<close>

definition new_buf :: "u32 \<Rightarrow> kstate \<Rightarrow> (u32 \<times> kstate) option" where
  "new_buf n st = do {
     (p, st1) \<leftarrow> knew n st;
     Some (p, st1\<lparr>bufs := (bufs st1)(p \<mapsto> map (\<lambda>i. junk st1 (p + of_nat i)) [0..<unat n])\<rparr>) }"

definition get_pipe :: "kstate \<Rightarrow> u32 \<Rightarrow> pipe_buffer option" where
  "get_pipe st p = pipes st p"

definition set_pipe :: "u32 \<Rightarrow> pipe_buffer \<Rightarrow> kstate \<Rightarrow> kstate" where
  "set_pipe p b st = st\<lparr>pipes := (pipes st)(p \<mapsto> b)\<rparr>"

definition get_fh :: "kstate \<Rightarrow> u32 \<Rightarrow> filehandle option" where
  "get_fh st p = fhs st p"

definition set_fh :: "u32 \<Rightarrow> filehandle \<Rightarrow> kstate \<Rightarrow> kstate" where
  "set_fh p b st = st\<lparr>fhs := (fhs st)(p \<mapsto> b)\<rparr>"

section \<open>Paging and user memory\<close>

definition enable_paging :: "u32 \<Rightarrow> kstate \<Rightarrow> kstate" where
  "enable_paging pdir st = st\<lparr>paging := Some pdir\<rparr>"

definition disable_paging :: "kstate \<Rightarrow> kstate" where
  "disable_paging st = st\<lparr>paging := None\<rparr>"

text \<open>
  An access to a logical address goes through the page directory in use; in kernel mode the
  permission bits are not checked. An address that is not mapped is a page fault, which halts
  the system when it happens in the kernel.
\<close>

definition phys :: "kstate \<Rightarrow> u32 \<Rightarrow> u32 option" where
  "phys st a = (case paging st of
       None \<Rightarrow> Some a
     | Some pdir \<Rightarrow> do {
         r \<leftarrow> lookup_page pdir (a - a mod PAGE_SIZE) (pgs st);
         page \<leftarrow> r;
         Some (page + a mod PAGE_SIZE) })"

definition rd8 :: "kstate \<Rightarrow> u32 \<Rightarrow> u8 option" where
  "rd8 st a = do { p \<leftarrow> phys st a; Some (pmem (pgs st) p) }"

definition wr8 :: "u32 \<Rightarrow> u8 \<Rightarrow> kstate \<Rightarrow> kstate option" where
  "wr8 a v st = do { p \<leftarrow> phys st a; Some (st\<lparr>pgs := (pgs st)\<lparr>pmem := (pmem (pgs st))(p := v)\<rparr>\<rparr>) }"

primrec read_bytes :: "kstate \<Rightarrow> u32 \<Rightarrow> nat \<Rightarrow> u8 list option" where
  "read_bytes st a 0 = Some []"
| "read_bytes st a (Suc n) = do { b \<leftarrow> rd8 st a; bs \<leftarrow> read_bytes st (a + 1) n; Some (b # bs) }"

primrec write_bytes :: "u32 \<Rightarrow> u8 list \<Rightarrow> kstate \<Rightarrow> kstate option" where
  "write_bytes a [] st = Some st"
| "write_bytes a (b # bs) st = do { st1 \<leftarrow> wr8 a b st; write_bytes (a + 1) bs st1 }"

definition bytes32 :: "u32 \<Rightarrow> u8 list" where
  "bytes32 v = [ucast v, ucast (drop_bit 8 v), ucast (drop_bit 16 v), ucast (drop_bit 24 v)]"

definition word32 :: "u8 list \<Rightarrow> u32" where
  "word32 bs = load32 (\<lambda>a. bs ! unat a) 0"

end
