(* ===== verification/Process.thy ===== *)
theory Process
  imports Kernel_State
begin

text \<open>
  The process table and its two lists, process.c and the list macros of include/kernel.h:
  \<open>list_add\<close>, \<open>list_remove\<close>, \<open>suspend_process\<close>, \<open>resume_process\<close>, \<open>init_regs\<close>,
  \<open>get_free_pid\<close> and the scheduler \<open>context_switch\<close>. \<open>context_switch\<close> re-executes a pending
  system call of the process it selects; the system call handler is its argument here and is
  supplied by the theory of the dispatcher.
\<close>

section \<open>The list macros\<close>

definition get_link :: "process list \<Rightarrow> nat \<Rightarrow> process option" where
  "get_link ps i = list_get ps i"

definition set_prev :: "nat \<Rightarrow> nat option \<Rightarrow> process list \<Rightarrow> process list option" where
  "set_prev i v ps = do { p \<leftarrow> list_get ps i; list_put ps i (p\<lparr>p_prev := v\<rparr>) }"

definition set_next :: "nat \<Rightarrow> nat option \<Rightarrow> process list \<Rightarrow> process list option" where
  "set_next i v ps = do { p \<leftarrow> list_get ps i; list_put ps i (p\<lparr>p_next := v\<rparr>) }"

definition list_add :: "processlist \<Rightarrow> nat \<Rightarrow> process list \<Rightarrow> (processlist \<times> process list) option" where
  "list_add ll obj ps = (case pl_first ll of
       Some f \<Rightarrow> do {
         ps1 \<leftarrow> set_next obj (Some f) ps;
         ps2 \<leftarrow> set_prev f (Some obj) ps1;
         Some (ll\<lparr>pl_first := Some obj\<rparr>, ps2) }
     | None \<Rightarrow> Some (ll\<lparr>pl_first := Some obj, pl_last := Some obj\<rparr>, ps))"

definition list_remove :: "processlist \<Rightarrow> nat \<Rightarrow> process list \<Rightarrow> (processlist \<times> process list) option" where
  "list_remove ll obj ps = do {
     p \<leftarrow> list_get ps obj;
     let ll1 = (if pl_first ll = Some obj then ll\<lparr>pl_first := p_next p\<rparr> else ll);
     let ll2 = (if pl_last ll1 = Some obj then ll1\<lparr>pl_last := p_prev p\<rparr> else ll1);
     ps1 \<leftarrow> (case p_next p of Some n \<Rightarrow> set_prev n (p_prev p) ps | None \<Rightarrow> Some ps);
     p1 \<leftarrow> list_get ps1 obj;
     ps2 \<leftarrow> (case p_prev p1 of Some q \<Rightarrow> set_next q (p_next p1) ps1 | None \<Rightarrow> Some ps1);
     ps3 \<leftarrow> set_next obj None ps2;
     ps4 \<leftarrow> set_prev obj None ps3;
     Some (ll2, ps4) }"

definition ready_add :: "nat \<Rightarrow> kstate \<Rightarrow> kstate option" where
  "ready_add i st = do { (l, ps) \<leftarrow> list_add (ready st) i (procs st); Some (st\<lparr>ready := l, procs := ps\<rparr>) }"

definition ready_remove :: "nat \<Rightarrow> kstate \<Rightarrow> kstate option" where
  "ready_remove i st = do { (l, ps) \<leftarrow> list_remove (ready st) i (procs st); Some (st\<lparr>ready := l, procs := ps\<rparr>) }"

definition suspended_add :: "nat \<Rightarrow> kstate \<Rightarrow> kstate option" where
  "suspended_add i st = do { (l, ps) \<leftarrow> list_add (suspended st) i (procs st); Some (st\<lparr>suspended := l, procs := ps\<rparr>) }"

definition suspended_remove :: "nat \<Rightarrow> kstate \<Rightarrow> kstate option" where
  "suspended_remove i st = do { (l, ps) \<leftarrow> list_remove (suspended st) i (procs st); Some (st\<lparr>suspended := l, procs := ps\<rparr>) }"

section \<open>Suspending, resuming and scheduling\<close>

definition suspend_process :: "nat \<Rightarrow> kstate \<Rightarrow> kstate option" where
  "suspend_process i st = do {
     p \<leftarrow> get_proc st i;
     kassert (p_exists p);
     kassert (p_ready p);
     st1 \<leftarrow> upd_proc i (\<lambda>p. p\<lparr>p_ready := False\<rparr>) st;
     st2 \<leftarrow> ready_remove i st1;
     suspended_add i st2 }"

definition resume_process :: "nat \<Rightarrow> kstate \<Rightarrow> kstate option" where
  "resume_process i st = do {
     p \<leftarrow> get_proc st i;
     kassert (p_exists p);
     kassert (\<not> p_ready p);
     st1 \<leftarrow> upd_proc i (\<lambda>p. p\<lparr>p_ready := True\<rparr>) st;
     st2 \<leftarrow> suspended_remove i st1;
     ready_add i st2 }"

definition init_regs :: "u32 \<Rightarrow> u32 \<Rightarrow> regs" where
  "init_regs stack_max start_addr = zero_regs\<lparr>
     r_gs := USER_DATA_SEGMENT OR RING_3, r_fs := USER_DATA_SEGMENT OR RING_3,
     r_es := USER_DATA_SEGMENT OR RING_3, r_ds := USER_DATA_SEGMENT OR RING_3,
     r_ss := USER_DATA_SEGMENT OR RING_3, r_cs := USER_CODE_SEGMENT OR RING_3,
     r_eflags := 0x202, r_eip := start_addr, r_useresp := stack_max\<rparr>"

function free_pid_loop :: "process list \<Rightarrow> nat \<Rightarrow> nat option" where
  "free_pid_loop ps pid =
     (if pid < MAX_PROCESSES then do {
        p \<leftarrow> list_get ps pid;
        if p_exists p then free_pid_loop ps (pid + 1) else Some pid }
      else Some pid)"
  by pat_completeness auto
termination
  by (relation "measure (\<lambda>(ps, pid). MAX_PROCESSES - pid)") auto

declare free_pid_loop.simps [simp del]

definition get_free_pid :: "kstate \<Rightarrow> int option" where
  "get_free_pid st = do {
     pid \<leftarrow> free_pid_loop (procs st) 1;
     Some (if pid \<ge> MAX_PROCESSES then - 1 else int pid) }"

text \<open>
  \<open>context_switch\<close>: the registers \<open>r\<close> of the interrupted code are saved in the current process
  and replaced by those of the process switched to. The end of the idle stack and the address
  of the assembly routine \<open>idle\<close> are parameters. \<open>handler\<close> stands for \<open>syscall\<close>, which is called for
  a process that is in the middle of a system call.

  The test \<open>!current_process->ready\<close> is also reached with a null \<open>current_process\<close> (no process was
  running, or the running one has just been killed). It then reads a word of the identity-mapped
  first page; whichever value it finds, \<open>current_process\<close> is null afterwards.
\<close>

definition next_process :: "kstate \<Rightarrow> nat option option" where
  "next_process st = (case current_process st of
       Some i \<Rightarrow> do {
         p \<leftarrow> get_proc st i;
         Some (case p_next p of Some n \<Rightarrow> Some n | None \<Rightarrow> pl_first (ready st)) }
     | None \<Rightarrow> Some (pl_first (ready st)))"

definition context_switch ::
  "(regs \<Rightarrow> kstate \<Rightarrow> (regs \<times> kstate) option) \<Rightarrow> u32 \<Rightarrow> u32 \<Rightarrow> regs \<Rightarrow> kstate \<Rightarrow> (regs \<times> kstate) option" where
  "context_switch handler idle_stack_end idle r st = do {
     st1 \<leftarrow> (case current_process st of
         Some i \<Rightarrow> upd_proc i (\<lambda>p. p\<lparr>p_saved_regs := r\<rparr>) st
       | None \<Rightarrow> Some st);
     st2 \<leftarrow> (case current_process st1 of
         Some i \<Rightarrow> do {
           p \<leftarrow> get_proc st1 i;
           Some (if \<not> p_ready p then st1\<lparr>current_process := None\<rparr> else st1) }
       | None \<Rightarrow> Some st1);
     nxt \<leftarrow> next_process st2;
     let st3 = st2\<lparr>current_process := nxt\<rparr>;
     case nxt of
       Some j \<Rightarrow> do {
         q \<leftarrow> get_proc st3 j;
         let r1 = p_saved_regs q;
         let st4 = enable_paging (p_pdir q) st3;
         if p_in_syscall q \<noteq> 0 then handler r1 st4 else Some (r1, st4) }
     | None \<Rightarrow> Some (init_regs idle_stack_end idle, st3) }"

end
