(* ===== verification/Process_Lists.thy ===== *)
theory Process_Lists
  imports Process
begin

text \<open>
  The doubly-linked process lists refine plain lists: \<open>list_add\<close> puts a process in front,
  \<open>list_remove\<close> takes it out. The scheduling invariant \<open>sched_inv\<close> says that the ready and the
  suspended list hold exactly the processes that are alive and have the corresponding flag;
  \<open>suspend_process\<close> and \<open>resume_process\<close> keep it, and \<open>context_switch\<close> is round robin over the
  ready list.
\<close>

section \<open>Doubly-linked segments\<close>

definition hd_opt :: "nat list \<Rightarrow> nat option \<Rightarrow> nat option" where
  "hd_opt xs n = (case xs of [] \<Rightarrow> n | x # _ \<Rightarrow> Some x)"

definition last_opt :: "nat option \<Rightarrow> nat list \<Rightarrow> nat option" where
  "last_opt p xs = (if xs = [] then p else Some (List.last xs))"

lemma hd_opt_simps [simp]: "hd_opt [] n = n" "hd_opt (x # xs) n = Some x" "hd_opt (xs @ ys) n = hd_opt xs (hd_opt ys n)"
  by (simp_all add: hd_opt_def split: list.splits)

lemma last_opt_simps [simp]: "last_opt p [] = p" "last_opt p (x # xs) = last_opt (Some x) xs"
  "last_opt p (xs @ ys) = last_opt (last_opt p xs) ys"
  by (auto simp: last_opt_def)

fun dseg :: "process list \<Rightarrow> nat option \<Rightarrow> nat list \<Rightarrow> nat option \<Rightarrow> bool" where
  "dseg ps p [] n = True"
| "dseg ps p (x # xs) n = (x < length ps \<and> p_prev (ps ! x) = p \<and> p_next (ps ! x) = hd_opt xs n \<and>
     dseg ps (Some x) xs n)"

definition dlist :: "process list \<Rightarrow> processlist \<Rightarrow> nat list \<Rightarrow> bool" where
  "dlist ps ll xs \<longleftrightarrow> distinct xs \<and> dseg ps None xs None \<and> pl_first ll = hd_opt xs None \<and>
     pl_last ll = last_opt None xs"

lemma dseg_append: "dseg ps p (xs @ ys) n \<longleftrightarrow> dseg ps p xs (hd_opt ys n) \<and> dseg ps (last_opt p xs) ys n"
  by (induction xs arbitrary: p) (auto split: list.splits)

lemma dseg_bound: "dseg ps p xs n \<Longrightarrow> i \<in> set xs \<Longrightarrow> i < length ps"
  by (induction xs arbitrary: p) auto

lemma dseg_change:
  assumes "dseg ps p xs n" "distinct xs"
    "\<forall>i \<in> set xs. i < length ps' \<and> p_prev (ps' ! i) = (if Some i = hd_opt xs None then p' else p_prev (ps ! i)) \<and>
       p_next (ps' ! i) = (if Some i = last_opt None xs then n' else p_next (ps ! i))"
  shows "dseg ps' p' xs n'"
  using assms
proof (induction xs arbitrary: p p')
  case (Cons x xs)
  have hx: "i \<noteq> x" if "i \<in> set xs" for i using that Cons.prems(2) by auto
  have "dseg ps' (Some x) xs n'"
  proof (rule Cons.IH[of "Some x"])
    show "dseg ps (Some x) xs n" "distinct xs" using Cons.prems by auto
    show "\<forall>i \<in> set xs. i < length ps' \<and> p_prev (ps' ! i) = (if Some i = hd_opt xs None then Some x else p_prev (ps ! i)) \<and>
       p_next (ps' ! i) = (if Some i = last_opt None xs then n' else p_next (ps ! i))"
    proof
      fix i assume i: "i \<in> set xs"
      then have "last_opt None (x # xs) = last_opt None xs" by (auto simp: last_opt_def)
      moreover have "p_prev (ps ! i) = Some x" if "Some i = hd_opt xs None"
        using that Cons.prems(1) by (cases xs) auto
      ultimately show "i < length ps' \<and> p_prev (ps' ! i) = (if Some i = hd_opt xs None then Some x else p_prev (ps ! i)) \<and>
       p_next (ps' ! i) = (if Some i = last_opt None xs then n' else p_next (ps ! i))"
        using Cons.prems(3) i hx[OF i] by auto
    qed
  qed
  moreover have "Some x \<noteq> last_opt (Some x) xs" if "xs \<noteq> []"
    using that Cons.prems(2) by (auto simp: last_opt_def)
  ultimately show ?case using Cons.prems(1,3) by (cases xs) auto
qed simp

lemma dseg_same_links:
  assumes "dseg ps p xs n" "distinct xs" "\<forall>i \<in> set xs. i < length ps' \<and> p_prev (ps' ! i) = p_prev (ps ! i) \<and> p_next (ps' ! i) = p_next (ps ! i)"
  shows "dseg ps' p xs n"
  using assms by (induction xs arbitrary: p) auto

section \<open>Adding and removing\<close>

text \<open>The list operations change nothing but the links.\<close>

definition unlink :: "process \<Rightarrow> process" where
  "unlink p = p\<lparr>p_prev := None, p_next := None\<rparr>"

definition set_links :: "(nat \<Rightarrow> nat option) \<Rightarrow> (nat \<Rightarrow> nat option) \<Rightarrow> process list \<Rightarrow> process list" where
  "set_links pr nx ps = map (\<lambda>i. (ps ! i)\<lparr>p_prev := pr i, p_next := nx i\<rparr>) [0..<length ps]"

definition prevs :: "process list \<Rightarrow> nat \<Rightarrow> nat option" where "prevs ps i = p_prev (ps ! i)"
definition nexts :: "process list \<Rightarrow> nat \<Rightarrow> nat option" where "nexts ps i = p_next (ps ! i)"

lemma set_links_nth [simp]:
  "i < length ps \<Longrightarrow> set_links pr nx ps ! i = (ps ! i)\<lparr>p_prev := pr i, p_next := nx i\<rparr>"
  "length (set_links pr nx ps) = length ps"
  by (simp_all add: set_links_def)

lemma set_links_id: "set_links (prevs ps) (nexts ps) ps = ps"
  by (rule nth_equalityI) (simp_all add: prevs_def nexts_def)

lemma set_links_unlink: "map unlink (set_links pr nx ps) = map unlink ps"
  by (rule nth_equalityI) (simp_all add: unlink_def)

lemma set_prev_links: "i < length ps \<Longrightarrow> set_prev i v (set_links pr nx ps) = Some (set_links (pr(i := v)) nx ps)"
  by (auto simp: set_prev_def nth_list_update intro!: nth_equalityI)

lemma set_next_links: "i < length ps \<Longrightarrow> set_next i v (set_links pr nx ps) = Some (set_links pr (nx(i := v)) ps)"
  by (auto simp: set_next_def nth_list_update intro!: nth_equalityI)

lemma list_add_ok:
  assumes dl: "dlist ps ll xs" and i: "i < length ps" "i \<notin> set xs" and l: "p_prev (ps ! i) = None" "p_next (ps ! i) = None"
  obtains ll' pr nx where "list_add ll i ps = Some (ll', set_links pr nx ps)"
    "dlist (set_links pr nx ps) ll' (i # xs)" "\<forall>j. j \<notin> insert i (set xs) \<longrightarrow> pr j = prevs ps j \<and> nx j = nexts ps j"
proof (cases xs)
  case Nil
  then have eq: "list_add ll i ps = Some (ll\<lparr>pl_first := Some i, pl_last := Some i\<rparr>, ps)"
    using dl by (simp add: dlist_def list_add_def)
  have "dlist ps (ll\<lparr>pl_first := Some i, pl_last := Some i\<rparr>) (i # xs)" using Nil i l by (simp add: dlist_def)
  then show ?thesis using that[of "ll\<lparr>pl_first := Some i, pl_last := Some i\<rparr>" "prevs ps" "nexts ps"] eq by (simp add: set_links_id)
next
  case (Cons f fs)
  have d: "distinct xs" "dseg ps None xs None" "pl_first ll = Some f" "pl_last ll = last_opt None xs"
    using dl Cons by (auto simp: dlist_def)
  have f: "f < length ps" "f \<noteq> i" using d(2) i Cons by auto
  let ?pr = "(prevs ps)(f := Some i)" and ?nx = "(nexts ps)(i := Some f)"
  have "list_add ll i (set_links (prevs ps) (nexts ps) ps) = Some (ll\<lparr>pl_first := Some i\<rparr>, set_links ?pr ?nx ps)"
    using d(3) i(1) f(1) by (simp add: list_add_def set_next_links set_prev_links)
  then have eq: "list_add ll i ps = Some (ll\<lparr>pl_first := Some i\<rparr>, set_links ?pr ?nx ps)" by (simp add: set_links_id)
  have "dseg (set_links ?pr ?nx ps) (Some i) xs None"
  proof (rule dseg_change[OF d(2,1)])
    show "\<forall>j \<in> set xs. j < length (set_links ?pr ?nx ps) \<and>
      p_prev (set_links ?pr ?nx ps ! j) = (if Some j = hd_opt xs None then Some i else p_prev (ps ! j)) \<and>
      p_next (set_links ?pr ?nx ps ! j) = (if Some j = last_opt None xs then None else p_next (ps ! j))"
    proof
      fix j assume j: "j \<in> set xs"
      have jl: "j < length ps" "j \<noteq> i" using j i dseg_bound[OF d(2)] by auto
      have "p_next (ps ! j) = None" if "Some j = last_opt None xs"
      proof -
        have "xs = butlast xs @ [j]" using that Cons by (auto simp: last_opt_def)
        then have "dseg ps (last_opt None (butlast xs)) [j] None" using d(2) dseg_append by metis
        then show ?thesis by simp
      qed
      then show "j < length (set_links ?pr ?nx ps) \<and>
      p_prev (set_links ?pr ?nx ps ! j) = (if Some j = hd_opt xs None then Some i else p_prev (ps ! j)) \<and>
      p_next (set_links ?pr ?nx ps ! j) = (if Some j = last_opt None xs then None else p_next (ps ! j))"
        using jl Cons by (auto simp: prevs_def nexts_def)
    qed
  qed
  then have "dlist (set_links ?pr ?nx ps) (ll\<lparr>pl_first := Some i\<rparr>) (i # xs)"
    using d i f l Cons by (auto simp: dlist_def prevs_def)
  then show ?thesis using that[OF eq] Cons by simp
qed

lemma list_remove_ok:
  assumes dl: "dlist ps ll xs" and i: "i \<in> set xs"
  obtains ll' pr nx where "list_remove ll i ps = Some (ll', set_links pr nx ps)"
    "dlist (set_links pr nx ps) ll' (remove1 i xs)" "pr i = None" "nx i = None"
    "\<forall>j. j \<notin> set xs \<longrightarrow> pr j = prevs ps j \<and> nx j = nexts ps j"
proof -
  obtain as bs where xs: "xs = as @ i # bs" using i by (meson split_list)
  have d: "distinct xs" "dseg ps None xs None" "pl_first ll = hd_opt xs None" "pl_last ll = last_opt None xs"
    using dl by (auto simp: dlist_def)
  have dd: "dseg ps None as (Some i)" "dseg ps (Some i) bs None" "p_prev (ps ! i) = last_opt None as"
    "p_next (ps ! i) = hd_opt bs None" "i < length ps" using d(2) by (auto simp: xs dseg_append)
  have ne: "i \<notin> set as" "i \<notin> set bs" "set as \<inter> set bs = {}" "distinct as" "distinct bs"
    using d(1) by (auto simp: xs)
  have r1: "remove1 i xs = as @ bs" using ne(1) by (simp add: xs remove1_append)
  let ?pr = "(case hd_opt bs None of Some n \<Rightarrow> (prevs ps)(n := last_opt None as) | None \<Rightarrow> prevs ps)(i := None)"
  let ?nx = "(case last_opt None as of Some q \<Rightarrow> (nexts ps)(q := hd_opt bs None) | None \<Rightarrow> nexts ps)(i := None)"
  let ?ll = "let ll1 = (if pl_first ll = Some i then ll\<lparr>pl_first := hd_opt bs None\<rparr> else ll)
     in (if pl_last ll1 = Some i then ll1\<lparr>pl_last := last_opt None as\<rparr> else ll1)"
  have hb: "n < length ps" "n \<noteq> i" if "hd_opt bs None = Some n" for n
    using that ne(2) dseg_bound[OF dd(2)] by (cases bs; auto)+
  have la: "q < length ps" "q \<noteq> i" "q \<in> set as" if "last_opt None as = Some q" for q
  proof -
    show "q \<in> set as" using that by (auto simp: last_opt_def split: if_splits)
    then show "q < length ps" "q \<noteq> i" using ne(1) dseg_bound[OF dd(1)] by auto
  qed
  have eq: "list_remove ll i (set_links (prevs ps) (nexts ps) ps) = Some (?ll, set_links ?pr ?nx ps)"
  proof (cases "hd_opt bs None")
    case None
    then show ?thesis using dd(3-5) la
      by (cases "last_opt None as") (auto simp: list_remove_def set_next_links set_prev_links prevs_def nexts_def Let_def fun_upd_twist)
  next
    case (Some n)
    then show ?thesis using dd(3-5) la hb
      by (cases "last_opt None as") (auto simp: list_remove_def set_next_links set_prev_links prevs_def nexts_def Let_def fun_upd_twist)
  qed
  have A: "dseg (set_links ?pr ?nx ps) None as (hd_opt bs None)"
  proof (rule dseg_change[OF dd(1) ne(4)])
    show "\<forall>j \<in> set as. j < length (set_links ?pr ?nx ps) \<and>
      p_prev (set_links ?pr ?nx ps ! j) = (if Some j = hd_opt as None then None else p_prev (ps ! j)) \<and>
      p_next (set_links ?pr ?nx ps ! j) = (if Some j = last_opt None as then hd_opt bs None else p_next (ps ! j))"
    proof
      fix j assume j: "j \<in> set as"
      then have jl: "j < length ps" "j \<noteq> i" using ne(1) dseg_bound[OF dd(1)] by auto
      have "hd_opt bs None \<noteq> Some j" using j ne(3) by (cases bs) auto
      moreover have "p_prev (ps ! j) = None" if "Some j = hd_opt as None" using that dd(1) by (cases as) auto
      ultimately show "j < length (set_links ?pr ?nx ps) \<and>
      p_prev (set_links ?pr ?nx ps ! j) = (if Some j = hd_opt as None then None else p_prev (ps ! j)) \<and>
      p_next (set_links ?pr ?nx ps ! j) = (if Some j = last_opt None as then hd_opt bs None else p_next (ps ! j))"
        using jl by (auto simp: prevs_def nexts_def split: option.splits)
    qed
  qed
  have B: "dseg (set_links ?pr ?nx ps) (last_opt None as) bs None"
  proof (rule dseg_change[OF dd(2) ne(5)])
    show "\<forall>j \<in> set bs. j < length (set_links ?pr ?nx ps) \<and>
      p_prev (set_links ?pr ?nx ps ! j) = (if Some j = hd_opt bs None then last_opt None as else p_prev (ps ! j)) \<and>
      p_next (set_links ?pr ?nx ps ! j) = (if Some j = last_opt None bs then None else p_next (ps ! j))"
    proof
      fix j assume j: "j \<in> set bs"
      then have jl: "j < length ps" "j \<noteq> i" using ne(2) dseg_bound[OF dd(2)] by auto
      have "last_opt None as \<noteq> Some j" using j ne(3) la(3) by blast
      moreover have "p_next (ps ! j) = None" if "Some j = last_opt None bs"
      proof -
        have "bs = butlast bs @ [j]" using that j by (cases bs rule: rev_cases) auto
        then have "dseg ps (last_opt (Some i) (butlast bs)) [j] None" using dd(2) dseg_append by metis
        then show ?thesis by simp
      qed
      ultimately show "j < length (set_links ?pr ?nx ps) \<and>
      p_prev (set_links ?pr ?nx ps ! j) = (if Some j = hd_opt bs None then last_opt None as else p_prev (ps ! j)) \<and>
      p_next (set_links ?pr ?nx ps ! j) = (if Some j = last_opt None bs then None else p_next (ps ! j))"
        using jl by (auto simp: prevs_def nexts_def split: option.splits)
    qed
  qed
  have fst: "pl_first ?ll = hd_opt (as @ bs) None"
    using d(3) ne(1) by (cases as) (auto simp: xs Let_def)
  have lst: "pl_last ?ll = last_opt None (as @ bs)"
    using d(4) ne(2) by (cases bs) (auto simp: xs Let_def last_opt_def split: if_splits)
  have D: "dlist (set_links ?pr ?nx ps) ?ll (remove1 i xs)"
    unfolding dlist_def r1 using A B fst lst ne by (simp add: dseg_append)
  have "\<forall>j. j \<notin> set xs \<longrightarrow> ?pr j = prevs ps j \<and> ?nx j = nexts ps j"
  proof (intro allI impI)
    fix j assume j: "j \<notin> set xs"
    have "hd_opt bs None \<noteq> Some j" using j by (cases bs) (auto simp: xs)
    moreover have "last_opt None as \<noteq> Some j" using j la(3) by (auto simp: xs)
    ultimately show "?pr j = prevs ps j \<and> ?nx j = nexts ps j" using j by (auto simp: xs split: option.splits)
  qed
  then show ?thesis using that[OF _ D] eq by (simp add: set_links_id)
qed

section \<open>The scheduling invariant\<close>

definition alive :: "process \<Rightarrow> bool" where
  "alive p \<longleftrightarrow> p_exists p \<and> \<not> p_exited p"

definition sched_inv :: "kstate \<Rightarrow> nat list \<Rightarrow> nat list \<Rightarrow> bool" where
  "sched_inv st rs ss \<longleftrightarrow> length (procs st) = MAX_PROCESSES \<and>
     dlist (procs st) (ready st) rs \<and> dlist (procs st) (suspended st) ss \<and>
     set rs = {i. i < MAX_PROCESSES \<and> alive (procs st ! i) \<and> p_ready (procs st ! i)} \<and>
     set ss = {i. i < MAX_PROCESSES \<and> alive (procs st ! i) \<and> \<not> p_ready (procs st ! i)} \<and>
     (\<forall>i < MAX_PROCESSES. \<not> alive (procs st ! i) \<longrightarrow> p_prev (procs st ! i) = None \<and> p_next (procs st ! i) = None)"

lemma sched_invD:
  assumes "sched_inv st rs ss"
  shows "length (procs st) = MAX_PROCESSES" "dlist (procs st) (ready st) rs" "dlist (procs st) (suspended st) ss"
    "i \<in> set rs \<longleftrightarrow> i < MAX_PROCESSES \<and> alive (procs st ! i) \<and> p_ready (procs st ! i)"
    "i \<in> set ss \<longleftrightarrow> i < MAX_PROCESSES \<and> alive (procs st ! i) \<and> \<not> p_ready (procs st ! i)"
    "i < MAX_PROCESSES \<Longrightarrow> \<not> alive (procs st ! i) \<Longrightarrow> p_prev (procs st ! i) = None \<and> p_next (procs st ! i) = None"
  using assms by (simp_all add: sched_inv_def)

lemma upd_proc_ok:
  "i < length (procs st) \<Longrightarrow> upd_proc i f st = Some (st\<lparr>procs := (procs st)[i := f (procs st ! i)]\<rparr>)"
  by (simp add: upd_proc_def)

text \<open>A list keeps its shape when no link of its members changes.\<close>

lemma dlist_same_links:
  assumes "dlist ps ll xs" "length ps' = length ps"
    "\<forall>i \<in> set xs. p_prev (ps' ! i) = p_prev (ps ! i) \<and> p_next (ps' ! i) = p_next (ps ! i)"
  shows "dlist ps' ll xs"
proof -
  have d: "dseg ps None xs None" "distinct xs" using assms(1) by (auto simp: dlist_def)
  have "dseg ps' None xs None" using dseg_bound[OF d(1)] assms(2,3) by (intro dseg_same_links[OF d]) simp
  then show ?thesis using assms(1) by (simp add: dlist_def)
qed

text \<open>
  Moving process \<open>i\<close> from one list to the front of another, where \<open>ps\<close> already has the new
  flag: the common part of \<open>suspend_process\<close> and \<open>resume_process\<close>.
\<close>

lemma move_ok:
  assumes a: "dlist ps la as" and b: "dlist ps lb bs" and dis: "set as \<inter> set bs = {}" and i: "i \<in> set as"
  obtains la' lb' ps1 pr nx where "list_remove la i ps = Some (la', ps1)"
    "list_add lb i ps1 = Some (lb', set_links pr nx ps)"
    "dlist (set_links pr nx ps) la' (remove1 i as)" "dlist (set_links pr nx ps) lb' (i # bs)"
    "\<forall>j < length ps. j \<notin> set as \<union> set bs \<longrightarrow> pr j = prevs ps j \<and> nx j = nexts ps j"
proof -
  obtain la' pr nx where r: "list_remove la i ps = Some (la', set_links pr nx ps)"
    "dlist (set_links pr nx ps) la' (remove1 i as)" "pr i = None" "nx i = None"
    "\<forall>j. j \<notin> set as \<longrightarrow> pr j = prevs ps j \<and> nx j = nexts ps j"
    by (rule list_remove_ok[OF a i])
  let ?ps1 = "set_links pr nx ps"
  have il: "i < length ps" using i a dseg_bound by (auto simp: dlist_def)
  have bl: "j < length ps" if "j \<in> set bs" for j using that b dseg_bound by (auto simp: dlist_def)
  have b1: "dlist ?ps1 lb bs"
    using r(5) dis bl by (intro dlist_same_links[OF b]) (auto simp: prevs_def nexts_def)
  have ib: "i \<notin> set bs" using i dis by auto
  obtain lb' pr2 nx2 where l: "list_add lb i ?ps1 = Some (lb', set_links pr2 nx2 ?ps1)"
    "dlist (set_links pr2 nx2 ?ps1) lb' (i # bs)"
    "\<forall>j. j \<notin> insert i (set bs) \<longrightarrow> pr2 j = prevs ?ps1 j \<and> nx2 j = nexts ?ps1 j"
    using il ib r(3,4) by (elim list_add_ok[OF b1, of i, rotated 4]) auto
  have eq: "set_links pr2 nx2 ?ps1 = set_links pr2 nx2 ps" by (rule nth_equalityI) simp_all
  have al: "j < length ps" if "j \<in> set as" for j using that a dseg_bound by (auto simp: dlist_def)
  have da: "distinct as" using a by (simp add: dlist_def)
  have "dlist (set_links pr2 nx2 ?ps1) la' (remove1 i as)"
    using l(3) dis al da by (intro dlist_same_links[OF r(2)]) (auto simp: prevs_def nexts_def)
  then show ?thesis
  proof (rule that[OF r(1) _ _ _ , of lb' pr2 nx2, unfolded eq[symmetric], rotated])
    show "list_add lb i ?ps1 = Some (lb', set_links pr2 nx2 ?ps1)" by (rule l(1))
    show "dlist (set_links pr2 nx2 ?ps1) lb' (i # bs)" by (rule l(2))
    show "\<forall>j < length ps. j \<notin> set as \<union> set bs \<longrightarrow> pr2 j = prevs ps j \<and> nx2 j = nexts ps j"
      using l(3) r(5) i by (auto simp: prevs_def nexts_def)
  qed
qed

text \<open>
  What \<open>suspend_process\<close> and \<open>resume_process\<close> leave alone: everything but the two lists, the
  links and the ready flag of the one process.
\<close>

definition same_but_lists :: "kstate \<Rightarrow> kstate \<Rightarrow> bool" where
  "same_but_lists st st' \<longleftrightarrow> (\<exists>l l' ps. st' = st\<lparr>ready := l, suspended := l', procs := ps\<rparr>)"

lemma alive_links [simp]:
  "alive (p\<lparr>p_prev := a, p_next := b\<rparr>) = alive p"
  "alive (p\<lparr>p_ready := c\<rparr>) = alive p"
  by (simp_all add: alive_def)

lemma sched_inv_move:
  assumes inv: "sched_inv st rs ss" and i: "i < MAX_PROCESSES" "alive (procs st ! i)" "p_ready (procs st ! i) \<noteq> b"
    and ps: "ps = (procs st)[i := (procs st ! i)\<lparr>p_ready := b\<rparr>]"
    and dr: "dlist (set_links pr nx ps) lr rs'" "set rs' = (if b then insert i (set rs) else set rs - {i})"
    and ds: "dlist (set_links pr nx ps) ls ss'" "set ss' = (if b then set ss - {i} else insert i (set ss))"
    and links: "\<forall>j < length ps. j \<notin> set rs \<union> set ss \<longrightarrow> pr j = prevs ps j \<and> nx j = nexts ps j"
  shows "sched_inv (st\<lparr>ready := lr, suspended := ls, procs := set_links pr nx ps\<rparr>) rs' ss'"
proof -
  note D = sched_invD[OF inv]
  have len: "length ps = MAX_PROCESSES" using D(1) ps by simp
  have at: "alive (ps ! j) = alive (procs st ! j)" "p_ready (ps ! j) = (if j = i then b else p_ready (procs st ! j))"
    "p_prev (ps ! j) = p_prev (procs st ! j)" "p_next (ps ! j) = p_next (procs st ! j)" if "j < MAX_PROCESSES" for j
    using that D(1) i(1) by (auto simp: ps nth_list_update alive_def)
  have mr: "j \<in> set rs' \<longleftrightarrow> j < MAX_PROCESSES \<and> alive (set_links pr nx ps ! j) \<and> p_ready (set_links pr nx ps ! j)" for j
    using dr(2) D(4)[of j] at[of j] len i by (cases "j = i") auto
  have ms: "j \<in> set ss' \<longleftrightarrow> j < MAX_PROCESSES \<and> alive (set_links pr nx ps ! j) \<and> \<not> p_ready (set_links pr nx ps ! j)" for j
    using ds(2) D(5)[of j] at[of j] len i by (cases "j = i") auto
  have "pr j = None \<and> nx j = None" if "j < MAX_PROCESSES" "\<not> alive (set_links pr nx ps ! j)" for j
    using that at[of j] len D(4)[of j] D(5)[of j] D(6)[of j] links by (simp add: prevs_def nexts_def)
  then show ?thesis using mr ms dr(1) ds(1) len by (auto simp: sched_inv_def)
qed

lemma suspend_process_ok:
  assumes inv: "sched_inv st rs ss" and i: "i \<in> set rs"
  obtains st' where "suspend_process i st = Some st'" "sched_inv st' (remove1 i rs) (i # ss)" "same_but_lists st st'"
    "map unlink (procs st') = map unlink ((procs st)[i := (procs st ! i)\<lparr>p_ready := False\<rparr>])"
proof -
  note D = sched_invD[OF inv]
  have p: "i < MAX_PROCESSES" "alive (procs st ! i)" "p_ready (procs st ! i)" using i D(4) by auto
  let ?ps = "(procs st)[i := (procs st ! i)\<lparr>p_ready := False\<rparr>]"
  have d: "dlist ?ps (ready st) rs" "dlist ?ps (suspended st) ss"
    using D(1) p(1) by (auto intro!: dlist_same_links[OF D(2)] dlist_same_links[OF D(3)] simp: nth_list_update)
  have dis: "set rs \<inter> set ss = {}" using D(4,5) by auto
  obtain lr ls ps1 pr nx where m: "list_remove (ready st) i ?ps = Some (lr, ps1)"
    "list_add (suspended st) i ps1 = Some (ls, set_links pr nx ?ps)"
    "dlist (set_links pr nx ?ps) lr (remove1 i rs)" "dlist (set_links pr nx ?ps) ls (i # ss)"
    "\<forall>j < length ?ps. j \<notin> set rs \<union> set ss \<longrightarrow> pr j = prevs ?ps j \<and> nx j = nexts ?ps j"
    by (rule move_ok[OF d dis i])
  let ?st = "st\<lparr>ready := lr, suspended := ls, procs := set_links pr nx ?ps\<rparr>"
  have "suspend_process i st = Some ?st"
    using p D(1) m(1,2) by (simp add: suspend_process_def get_proc_def upd_proc_def ready_remove_def suspended_add_def alive_def)
  moreover have "sched_inv ?st (remove1 i rs) (i # ss)"
    using D(2) p by (intro sched_inv_move[OF inv p(1,2), of False, OF _ refl m(3) _ m(4) _ m(5)]) (auto simp: dlist_def)
  ultimately show ?thesis
    using that[of ?st] set_links_unlink[of pr nx ?ps] by (auto simp: same_but_lists_def)
qed

lemma resume_process_ok:
  assumes inv: "sched_inv st rs ss" and i: "i \<in> set ss"
  obtains st' where "resume_process i st = Some st'" "sched_inv st' (i # rs) (remove1 i ss)" "same_but_lists st st'"
    "map unlink (procs st') = map unlink ((procs st)[i := (procs st ! i)\<lparr>p_ready := True\<rparr>])"
proof -
  note D = sched_invD[OF inv]
  have p: "i < MAX_PROCESSES" "alive (procs st ! i)" "\<not> p_ready (procs st ! i)" using i D(5) by auto
  let ?ps = "(procs st)[i := (procs st ! i)\<lparr>p_ready := True\<rparr>]"
  have d: "dlist ?ps (ready st) rs" "dlist ?ps (suspended st) ss"
    using D(1) p(1) by (auto intro!: dlist_same_links[OF D(2)] dlist_same_links[OF D(3)] simp: nth_list_update)
  have dis: "set ss \<inter> set rs = {}" using D(4,5) by auto
  obtain ls lr ps1 pr nx where m: "list_remove (suspended st) i ?ps = Some (ls, ps1)"
    "list_add (ready st) i ps1 = Some (lr, set_links pr nx ?ps)"
    "dlist (set_links pr nx ?ps) ls (remove1 i ss)" "dlist (set_links pr nx ?ps) lr (i # rs)"
    "\<forall>j < length ?ps. j \<notin> set ss \<union> set rs \<longrightarrow> pr j = prevs ?ps j \<and> nx j = nexts ?ps j"
    by (rule move_ok[OF d(2,1) dis i])
  let ?st = "st\<lparr>ready := lr, suspended := ls, procs := set_links pr nx ?ps\<rparr>"
  have "resume_process i st = Some ?st"
    using p D(1) m(1,2) by (simp add: resume_process_def get_proc_def upd_proc_def suspended_remove_def ready_add_def alive_def)
  moreover have "sched_inv ?st (i # rs) (remove1 i ss)"
    using D(3) p m(5) by (intro sched_inv_move[OF inv p(1,2), of True, OF _ refl m(4) _ m(3) _]) (auto simp: dlist_def)
  ultimately show ?thesis
    using that[of ?st] set_links_unlink[of pr nx ?ps] by (auto simp: same_but_lists_def)
qed

section \<open>Round robin\<close>

lemma dseg_nth_next:
  assumes "dseg ps p xs n" "k < length xs"
  shows "p_next (ps ! (xs ! k)) = (if Suc k < length xs then Some (xs ! Suc k) else n)"
  using assms
proof (induction xs arbitrary: p k)
  case (Cons x xs)
  then show ?case by (cases k) (auto simp: hd_opt_def hd_conv_nth split: list.splits)
qed simp

lemma next_process_cyclic:
  assumes inv: "sched_inv st rs ss" and k: "k < length rs" and c: "current_process st = Some (rs ! k)"
  shows "next_process st = Some (Some (rs ! (Suc k mod length rs)))"
proof -
  note D = sched_invD[OF inv]
  have i: "rs ! k < MAX_PROCESSES" using D(4)[of "rs ! k"] nth_mem[OF k] by blast
  have ds: "dseg (procs st) None rs None" and f: "pl_first (ready st) = hd_opt rs None" using D(2) by (auto simp: dlist_def)
  show ?thesis
  proof (cases "Suc k < length rs")
    case True
    then show ?thesis using dseg_nth_next[OF ds k] c i D(1) by (simp add: next_process_def get_proc_def)
  next
    case False
    then have "Suc k = length rs" using k by simp
    moreover have "rs \<noteq> []" using k by auto
    ultimately show ?thesis using dseg_nth_next[OF ds k] c i D(1) f
      by (simp add: next_process_def get_proc_def hd_opt_def split: list.splits)
  qed
qed

text \<open>A process that is not yet alive for the lists enters the ready list at its front.\<close>

lemma ready_add_new:
  assumes s: "sched_inv st0 rs ss" and c: "c < MAX_PROCESSES" "\<not> alive (procs st0 ! c)"
    and q: "alive q" "p_ready q" "p_prev q = None" "p_next q = None"
    and st: "procs st = (procs st0)[c := q]" "ready st = ready st0" "suspended st = suspended st0"
  obtains l pr nx where "ready_add c st = Some (st\<lparr>ready := l, procs := set_links pr nx (procs st)\<rparr>)"
    "sched_inv (st\<lparr>ready := l, procs := set_links pr nx (procs st)\<rparr>) (c # rs) ss"
proof -
  note D = sched_invD[OF s]
  let ?ps = "procs st"
  have len: "length ?ps = MAX_PROCESSES" and cl: "c < length (procs st0)" using st(1) D(1) c(1) by simp_all
  have nc: "c \<notin> set rs" "c \<notin> set ss" using D(4,5)[of c] c(2) by auto
  have at: "?ps ! x = (if x = c then q else procs st0 ! x)" if "x < MAX_PROCESSES" for x using st(1) cl by (cases "x = c") simp_all
  have d: "dlist ?ps (ready st) rs" "dlist ?ps (suspended st) ss"
    unfolding st(2,3) by (rule dlist_same_links[OF D(2)] dlist_same_links[OF D(3)], use D(1,4,5) len nc at in auto)+
  obtain l pr nx where a: "list_add (ready st) c ?ps = Some (l, set_links pr nx ?ps)" "dlist (set_links pr nx ?ps) l (c # rs)"
    "\<forall>j. j \<notin> insert c (set rs) \<longrightarrow> pr j = prevs ?ps j \<and> nx j = nexts ?ps j"
    by (rule list_add_ok[OF d(1), of c]) (use nc q at c(1) len in auto)
  define ps where "ps = set_links pr nx ?ps"
  have n: "alive (ps ! x) = alive (?ps ! x)" "p_ready (ps ! x) = p_ready (?ps ! x)" if "x < MAX_PROCESSES" for x
    using that len by (simp_all add: ps_def alive_def)
  have o: "p_prev (ps ! x) = p_prev (?ps ! x) \<and> p_next (ps ! x) = p_next (?ps ! x)" if "x < MAX_PROCESSES" "x \<noteq> c" "x \<notin> set rs" for x
    using that a(3) len by (simp add: ps_def prevs_def nexts_def)
  have "dlist ps (suspended st) ss"
  proof (rule dlist_same_links[OF d(2)])
    show "\<forall>x \<in> set ss. p_prev (ps ! x) = p_prev (?ps ! x) \<and> p_next (ps ! x) = p_next (?ps ! x)"
      using o D(4,5) nc by blast
  qed (simp add: ps_def)
  moreover have "x \<in> set (c # rs) \<longleftrightarrow> x < MAX_PROCESSES \<and> alive (ps ! x) \<and> p_ready (ps ! x)" for x
    using D(4)[of x] n[of x] at[of x] c(1) q by (cases "x = c") auto
  moreover have "x \<in> set ss \<longleftrightarrow> x < MAX_PROCESSES \<and> alive (ps ! x) \<and> \<not> p_ready (ps ! x)" for x
    using D(5)[of x] n[of x] at[of x] nc q by (cases "x = c") auto
  moreover have "p_prev (ps ! x) = None \<and> p_next (ps ! x) = None" if x: "x < MAX_PROCESSES" "\<not> alive (ps ! x)" for x
  proof -
    have "x \<noteq> c" using n[of x] at[of x] x q(1) by auto
    then show ?thesis using o[of x] D(4,6)[of x] n[of x] at[of x] x by auto
  qed
  ultimately have "sched_inv (st\<lparr>ready := l, procs := ps\<rparr>) (c # rs) ss"
    using a(2) len unfolding sched_inv_def by (auto simp: ps_def)
  moreover have "ready_add c st = Some (st\<lparr>ready := l, procs := ps\<rparr>)" using a(1) by (simp add: ready_add_def ps_def)
  ultimately show ?thesis unfolding ps_def using that by blast
qed

lemma sched_inv_cong:
  assumes "sched_inv st rs ss" "ready st' = ready st" "suspended st' = suspended st"
    "length (procs st') = length (procs st)"
    "\<forall>i < length (procs st). alive (procs st' ! i) = alive (procs st ! i) \<and> p_ready (procs st' ! i) = p_ready (procs st ! i) \<and>
       p_prev (procs st' ! i) = p_prev (procs st ! i) \<and> p_next (procs st' ! i) = p_next (procs st ! i)"
  shows "sched_inv st' rs ss"
proof -
  note D = sched_invD[OF assms(1)]
  have "dlist (procs st') (ready st') rs" "dlist (procs st') (suspended st') ss"
    using assms D by (auto intro!: dlist_same_links[OF D(2)] dlist_same_links[OF D(3)])
  then show ?thesis using assms D by (auto simp: sched_inv_def)
qed

lemma save_regs_inv:
  assumes "sched_inv st rs ss" "i < MAX_PROCESSES"
  shows "sched_inv (st\<lparr>procs := (procs st)[i := (procs st ! i)\<lparr>p_saved_regs := r\<rparr>]\<rparr>) rs ss"
  using assms sched_invD(1)[OF assms(1)] by (intro sched_inv_cong[OF assms(1)]) (auto simp: nth_list_update alive_def)

text \<open>
  The switch to the next process, as long as it has no pending system call: the registers of
  the running process are saved, those of the next one are loaded, and its address space is
  installed.
\<close>

lemma context_switch_to:
  assumes inv: "sched_inv st rs ss" and k: "k < length rs" "current_process st = Some (rs ! k)"
    and j: "j = rs ! (Suc k mod length rs)" and idle: "p_in_syscall (procs st ! j) = 0"
  fixes r
  defines "st' \<equiv> enable_paging (p_pdir (procs st ! j))
     (st\<lparr>procs := (procs st)[rs ! k := (procs st ! (rs ! k))\<lparr>p_saved_regs := r\<rparr>], current_process := Some j\<rparr>)"
  shows "context_switch handler se ia r st = Some (if j = rs ! k then r else p_saved_regs (procs st ! j), st')" "sched_inv st' rs ss"
proof -
  note D = sched_invD[OF inv]
  let ?i = "rs ! k"
  have i: "?i < MAX_PROCESSES" "p_ready (procs st ! ?i)" using D(4)[of ?i] nth_mem[OF k(1)] by blast+
  have "Suc k mod length rs < length rs" using k(1) by (intro mod_less_divisor) auto
  then have jr: "j \<in> set rs" using j by simp
  then have jm: "j < MAX_PROCESSES" using D(4) by blast
  let ?ps = "(procs st)[?i := (procs st ! ?i)\<lparr>p_saved_regs := r\<rparr>]"
  let ?s1 = "st\<lparr>procs := ?ps\<rparr>"
  have i1: "sched_inv ?s1 rs ss" by (rule save_regs_inv[OF inv i(1)])
  have nx: "next_process ?s1 = Some (Some j)"
    using next_process_cyclic[OF i1 k(1)] k(2) j by simp
  show "context_switch handler se ia r st = Some (if j = ?i then r else p_saved_regs (procs st ! j), st')"
    using k(2) i D(1) nx jm idle
    by (auto simp: st'_def context_switch_def upd_proc_ok get_proc_def nth_list_update enable_paging_def Let_def)
  show "sched_inv st' rs ss"
    unfolding st'_def by (rule sched_inv_cong[OF i1]) (simp_all add: enable_paging_def)
qed

lemma context_switch_ok:
  assumes "sched_inv st rs ss" "k < length rs" "current_process st = Some (rs ! k)"
    "j = rs ! (Suc k mod length rs)" "p_in_syscall (procs st ! j) = 0"
  obtains st' where
    "context_switch handler se ia r st = Some (if j = rs ! k then r else p_saved_regs (procs st ! j), st')"
    "sched_inv st' rs ss" "current_process st' = Some j" "paging st' = Some (p_pdir (procs st ! j))"
    "procs st' = (procs st)[rs ! k := (procs st ! (rs ! k))\<lparr>p_saved_regs := r\<rparr>]"
  using that[OF context_switch_to[OF assms]] by (simp add: enable_paging_def)

text \<open>When no process is running, or the running one has stopped being ready, the scheduler takes
  the first ready process, or idles.\<close>

lemma context_switch_restart:
  assumes inv: "sched_inv st rs ss"
    and c: "current_process st = None \<or> (\<exists>i < MAX_PROCESSES. current_process st = Some i \<and> \<not> p_ready (procs st ! i))"
    and nosys: "\<forall>i \<in> set rs. p_in_syscall (procs st ! i) = 0"
  obtains st' where
    "context_switch handler se ia r st = Some (if rs = [] then init_regs se ia else p_saved_regs (procs st ! hd rs), st')"
    "sched_inv st' rs ss" "current_process st' = hd_opt rs None"
    "rs \<noteq> [] \<longrightarrow> paging st' = Some (p_pdir (procs st ! hd rs))"
proof -
  note D = sched_invD[OF inv]
  have f: "pl_first (ready st) = hd_opt rs None" using D(2) by (simp add: dlist_def)
  let ?s1 = "case current_process st of None \<Rightarrow> st | Some i \<Rightarrow> st\<lparr>procs := (procs st)[i := (procs st ! i)\<lparr>p_saved_regs := r\<rparr>]\<rparr>"
  let ?s2 = "?s1\<lparr>current_process := None\<rparr>"
  have inv1: "sched_inv ?s2 rs ss"
  proof (cases "current_process st")
    case None
    then show ?thesis by (auto intro: sched_inv_cong[OF inv])
  next
    case (Some i)
    then have "i < MAX_PROCESSES" using c by auto
    then show ?thesis using Some by (auto intro: sched_inv_cong[OF save_regs_inv[OF inv, of i r]])
  qed
  have rdy: "ready ?s1 = ready st" by (auto split: option.splits)
  have reg: "p_saved_regs (procs ?s1 ! hd rs) = p_saved_regs (procs st ! hd rs)"
    "p_in_syscall (procs ?s1 ! hd rs) = 0" "p_pdir (procs ?s1 ! hd rs) = p_pdir (procs st ! hd rs)"
    "hd rs < length (procs ?s1)" if "rs \<noteq> []"
  proof -
    have h: "hd rs \<in> set rs" using that by simp
    then have "hd rs < length (procs st)" "p_ready (procs st ! hd rs)" using D(1) D(4)[of "hd rs"] by auto
    then show "p_saved_regs (procs ?s1 ! hd rs) = p_saved_regs (procs st ! hd rs)"
      "p_in_syscall (procs ?s1 ! hd rs) = 0" "p_pdir (procs ?s1 ! hd rs) = p_pdir (procs st ! hd rs)"
      "hd rs < length (procs ?s1)"
      using c nosys h D(1) by (auto simp: nth_list_update split: option.splits)
  qed
  have eq: "context_switch handler se ia r st = (case hd_opt rs None of
      Some j \<Rightarrow> (let st4 = enable_paging (p_pdir (procs st ! j)) (?s2\<lparr>current_process := Some j\<rparr>)
         in Some (p_saved_regs (procs st ! j), st4))
    | None \<Rightarrow> Some (init_regs se ia, ?s2))"
    using c D(1) f rdy reg
    by (cases rs) (auto simp: context_switch_def upd_proc_ok get_proc_def next_process_def Let_def)
  show ?thesis
  proof (cases rs)
    case Nil
    then show ?thesis using that[of ?s2] eq inv1 by simp
  next
    case (Cons j js)
    let ?s4 = "enable_paging (p_pdir (procs st ! j)) (?s2\<lparr>current_process := Some j\<rparr>)"
    have "sched_inv ?s4 rs ss" by (rule sched_inv_cong[OF inv1]) (simp_all add: enable_paging_def)
    then show ?thesis using that[of ?s4] eq Cons by (simp add: Let_def enable_paging_def)
  qed
qed

section \<open>Process slots\<close>

lemma free_pid_loop_ok:
  assumes "length ps = MAX_PROCESSES" "pid \<le> MAX_PROCESSES"
  shows "\<exists>k. free_pid_loop ps pid = Some k \<and> pid \<le> k \<and> k \<le> MAX_PROCESSES \<and>
    (\<forall>i. pid \<le> i \<and> i < k \<longrightarrow> p_exists (ps ! i)) \<and> (k < MAX_PROCESSES \<longrightarrow> \<not> p_exists (ps ! k))"
  using assms
proof (induction ps pid rule: free_pid_loop.induct)
  case (1 ps pid)
  show ?case
  proof (cases "pid < MAX_PROCESSES \<and> p_exists (ps ! pid)")
    case True
    then obtain k where k: "free_pid_loop ps (pid + 1) = Some k" "pid + 1 \<le> k" "k \<le> MAX_PROCESSES"
      "\<forall>i. pid + 1 \<le> i \<and> i < k \<longrightarrow> p_exists (ps ! i)" "k < MAX_PROCESSES \<longrightarrow> \<not> p_exists (ps ! k)"
      using 1 by auto
    have "p_exists (ps ! i)" if "pid \<le> i" "i < k" for i using that k(4) True by (cases "i = pid") auto
    then show ?thesis using True 1 k by (subst free_pid_loop.simps) auto
  next
    case False
    then show ?thesis using 1 by (subst free_pid_loop.simps) auto
  qed
qed

section \<open>Properties of the scheduler\<close>

text \<open>Three processes for the witnesses: 1 and 2 ready, 3 suspended.\<close>

definition example_procs :: "process list" where
  "example_procs = (replicate MAX_PROCESSES zero_process)
     [1 := zero_process\<lparr>p_pid := 1, p_exists := True, p_ready := True, p_next := Some 2, p_pdir := 0x601000\<rparr>,
      2 := zero_process\<lparr>p_pid := 2, p_exists := True, p_ready := True, p_prev := Some 1, p_pdir := 0x602000\<rparr>,
      3 := zero_process\<lparr>p_pid := 3, p_exists := True, p_pdir := 0x603000\<rparr>]"

definition example_kstate :: kstate where
  "example_kstate = \<lparr>procs = example_procs, current_process = Some 1,
     ready = \<lparr>pl_first = Some 1, pl_last = Some 2\<rparr>, suspended = \<lparr>pl_first = Some 3, pl_last = Some 3\<rparr>,
     kernel_memarea = the (buddy_init 12 0x200000 (\<lambda>_. 0)), junk = (\<lambda>_. 0), pipes = Map.empty, fhs = Map.empty,
     bufs = Map.empty, mboxes = Map.empty,
     pgs = \<lparr>page_end = PAGE_START, page_free = 0, npages = 0, pmem = (\<lambda>_. 0)\<rparr>, paging = None,
     console = \<lparr>screen = [], xpos = 0, ypos = 0, cursor_hi = 0, cursor_lo = 0\<rparr>,
     input_pipe = 0, timer_ticks = 0, filesystem = 0\<rparr>"

lemma example_procs_nth:
  assumes "i < MAX_PROCESSES"
  shows "alive (example_procs ! i) = (i \<in> {1, 2, 3})" "p_ready (example_procs ! i) = (i \<in> {1, 2})"
    "p_prev (example_procs ! i) = (if i = 2 then Some 1 else None)" "p_next (example_procs ! i) = (if i = 1 then Some 2 else None)"
    "p_in_syscall (example_procs ! i) = 0" "p_exists (example_procs ! i) = (i \<in> {1, 2, 3})"
proof -
  have m: "1 < MAX_PROCESSES" "2 < MAX_PROCESSES" "3 < MAX_PROCESSES" by (simp_all add: MAX_PROCESSES_def)
  show "alive (example_procs ! i) = (i \<in> {1, 2, 3})" "p_ready (example_procs ! i) = (i \<in> {1, 2})"
    "p_prev (example_procs ! i) = (if i = 2 then Some 1 else None)" "p_next (example_procs ! i) = (if i = 1 then Some 2 else None)"
    "p_in_syscall (example_procs ! i) = 0" "p_exists (example_procs ! i) = (i \<in> {1, 2, 3})"
    using m assms by (simp_all add: example_procs_def nth_list_update alive_def zero_process_def)
qed

lemma example_inv: "sched_inv example_kstate [1, 2] [3]"
proof -
  have len: "length (procs example_kstate) = MAX_PROCESSES" by (simp add: example_kstate_def example_procs_def)
  have p: "procs example_kstate = example_procs" "ready example_kstate = \<lparr>pl_first = Some 1, pl_last = Some 2\<rparr>"
    "suspended example_kstate = \<lparr>pl_first = Some 3, pl_last = Some 3\<rparr>" by (simp_all add: example_kstate_def)
  have m: "(1::nat) < MAX_PROCESSES" "2 < MAX_PROCESSES" "3 < MAX_PROCESSES" by (simp_all add: MAX_PROCESSES_def)
  have d: "dlist (procs example_kstate) (ready example_kstate) [1, 2]" "dlist (procs example_kstate) (suspended example_kstate) [3]"
    using m len by (simp_all add: p dlist_def example_procs_nth)
  have s: "set [1, 2] = {i. i < MAX_PROCESSES \<and> alive (procs example_kstate ! i) \<and> p_ready (procs example_kstate ! i)}"
    "set [3] = {i. i < MAX_PROCESSES \<and> alive (procs example_kstate ! i) \<and> \<not> p_ready (procs example_kstate ! i)}"
    using m example_procs_nth(1,2) by (auto simp: p)
  show ?thesis
    unfolding sched_inv_def by (intro conjI len d s) (use example_procs_nth in \<open>simp add: p\<close>)
qed

text \<open>C18: The ready list and the suspended list always hold exactly the living processes with the
  matching flag: suspending a ready process moves it to the front of the suspended list, resuming
  a suspended process moves it to the front of the ready list, neither ever fails on such a
  process, and nothing else in the kernel state changes.\<close>

theorem suspend_resume_correct:
  assumes "sched_inv st rs ss"
  shows "(\<forall>i \<in> set rs. \<exists>st'. suspend_process i st = Some st' \<and> sched_inv st' (remove1 i rs) (i # ss) \<and>
       same_but_lists st st' \<and> map unlink (procs st') = map unlink ((procs st)[i := (procs st ! i)\<lparr>p_ready := False\<rparr>])) \<and>
     (\<forall>i \<in> set ss. \<exists>st'. resume_process i st = Some st' \<and> sched_inv st' (i # rs) (remove1 i ss) \<and>
       same_but_lists st st' \<and> map unlink (procs st') = map unlink ((procs st)[i := (procs st ! i)\<lparr>p_ready := True\<rparr>]))"
proof (intro conjI ballI)
  fix i assume "i \<in> set rs"
  then show "\<exists>st'. suspend_process i st = Some st' \<and> sched_inv st' (remove1 i rs) (i # ss) \<and>
       same_but_lists st st' \<and> map unlink (procs st') = map unlink ((procs st)[i := (procs st ! i)\<lparr>p_ready := False\<rparr>])"
    by (rule suspend_process_ok[OF assms]) blast
next
  fix i assume "i \<in> set ss"
  then show "\<exists>st'. resume_process i st = Some st' \<and> sched_inv st' (i # rs) (remove1 i ss) \<and>
       same_but_lists st st' \<and> map unlink (procs st') = map unlink ((procs st)[i := (procs st ! i)\<lparr>p_ready := True\<rparr>])"
    by (rule resume_process_ok[OF assms]) blast
qed

theorem suspend_resume_correct_witness:
  "(\<exists>st'. suspend_process 1 example_kstate = Some st' \<and> sched_inv st' [2] [1, 3]) \<and>
   (\<exists>st'. resume_process 3 example_kstate = Some st' \<and> sched_inv st' [3, 1, 2] [])"
  using suspend_resume_correct[OF example_inv] by auto

text \<open>C19: Scheduling is round robin: a context switch from the k-th ready process saves its registers,
  loads those of the next process in the cyclic order of the ready list and installs that
  process's address space.\<close>

theorem context_switch_round_robin:
  assumes "sched_inv st rs ss" "k < length rs" "current_process st = Some (rs ! k)"
    "j = rs ! (Suc k mod length rs)" "p_in_syscall (procs st ! j) = 0"
  shows "\<exists>st'. context_switch handler se ia r st = Some (if j = rs ! k then r else p_saved_regs (procs st ! j), st') \<and>
     sched_inv st' rs ss \<and> current_process st' = Some j \<and> paging st' = Some (p_pdir (procs st ! j)) \<and>
     p_saved_regs (procs st' ! (rs ! k)) = r"
proof -
  obtain st' where s: "context_switch handler se ia r st = Some (if j = rs ! k then r else p_saved_regs (procs st ! j), st')"
    "sched_inv st' rs ss" "current_process st' = Some j" "paging st' = Some (p_pdir (procs st ! j))"
    "procs st' = (procs st)[rs ! k := (procs st ! (rs ! k))\<lparr>p_saved_regs := r\<rparr>]"
    by (rule context_switch_ok[OF assms])
  have "rs ! k < length (procs st)"
    using sched_invD(1)[OF assms(1)] sched_invD(4)[OF assms(1), of "rs ! k"] nth_mem[OF assms(2)] by auto
  then show ?thesis using s by auto
qed

theorem context_switch_round_robin_witness:
  "\<exists>st'. context_switch (\<lambda>_ _. None) 0 0 zero_regs example_kstate = Some (zero_regs, st') \<and>
     current_process st' = Some 2 \<and> paging st' = Some 0x602000"
proof -
  have p: "p_saved_regs (procs example_kstate ! 2) = zero_regs" "p_pdir (procs example_kstate ! 2) = 0x602000"
    "p_in_syscall (procs example_kstate ! 2) = 0"
    by (simp_all add: example_kstate_def example_procs_def zero_process_def MAX_PROCESSES_def nth_list_update)
  show ?thesis
    using context_switch_round_robin[OF example_inv, of 0 2 "\<lambda>_ _. None" 0 0 zero_regs] p
    by (auto simp: example_kstate_def)
qed

text \<open>
  Timer ticks: before each of them the running process has executed for a while, which is a function
  of its registers.
\<close>

fun ticks :: "u32 \<Rightarrow> u32 \<Rightarrow> (regs \<Rightarrow> regs) list \<Rightarrow> regs \<times> kstate \<Rightarrow> (regs \<times> kstate) option" where
  "ticks se ia [] s = Some s"
| "ticks se ia (u # us) (r, st) = Option.bind (context_switch (\<lambda>_ _. None) se ia (u r) st) (ticks se ia us)"

text \<open>The registers of a process: those of the processor while it runs, its saved ones otherwise.\<close>

definition registers :: "regs \<Rightarrow> kstate \<Rightarrow> nat \<Rightarrow> regs" where
  "registers r st i = (if current_process st = Some i then r else p_saved_regs (procs st ! i))"

text \<open>The same execution when each process has registers of its own and the processes take turns.\<close>

primrec turns :: "nat list \<Rightarrow> nat \<Rightarrow> (regs \<Rightarrow> regs) list \<Rightarrow> (nat \<Rightarrow> regs) \<Rightarrow> nat \<Rightarrow> regs" where
  "turns rs k [] c = c"
| "turns rs k (u # us) c = turns rs (Suc k mod length rs) us (c(rs ! k := u (c (rs ! k))))"

lemma turns_cong: "k < length rs \<Longrightarrow> \<forall>i \<in> set rs. c i = c' i \<Longrightarrow> i \<in> set rs \<Longrightarrow> turns rs k us c i = turns rs k us c' i"
proof (induction us arbitrary: k c c')
  case (Cons u us)
  have "Suc k mod length rs < length rs" using Cons.prems(1) by (intro mod_less_divisor) auto
  from Cons.IH[OF this] show ?case using Cons.prems by simp
qed simp

lemma tick_ok:
  assumes s: "sched_inv st rs ss" "k < length rs" "current_process st = Some (rs ! k)" and z: "\<forall>i \<in> set rs. p_in_syscall (procs st ! i) = 0"
  obtains r' st' where "context_switch (\<lambda>_ _. None) se ia r st = Some (r', st')" "sched_inv st' rs ss" "Suc k mod length rs < length rs"
    "current_process st' = Some (rs ! (Suc k mod length rs))" "\<forall>i \<in> set rs. p_in_syscall (procs st' ! i) = 0"
    "\<forall>i \<in> set rs. registers r' st' i = registers r st i"
proof -
  let ?j = "rs ! (Suc k mod length rs)"
  have kl: "Suc k mod length rs < length rs" using s(2) by (intro mod_less_divisor) auto
  then have j0: "p_in_syscall (procs st ! ?j) = 0" using z by simp
  obtain st' where t: "context_switch (\<lambda>_ _. None) se ia r st = Some (if ?j = rs ! k then r else p_saved_regs (procs st ! ?j), st')"
    "sched_inv st' rs ss" "current_process st' = Some ?j" "procs st' = (procs st)[rs ! k := (procs st ! (rs ! k))\<lparr>p_saved_regs := r\<rparr>]"
    by (rule context_switch_ok[OF s refl j0])
  have l: "i < length (procs st)" if "i \<in> set rs" for i using sched_invD(1)[OF s(1)] sched_invD(4)[OF s(1), of i] that by simp
  have "p_in_syscall (procs st' ! i) = 0" "registers (if ?j = rs ! k then r else p_saved_regs (procs st ! ?j)) st' i = registers r st i"
    if i: "i \<in> set rs" for i
    using t(3,4) s(3) z l[OF i] i by (cases "i = rs ! k"; auto simp: registers_def)+
  then show thesis using that[OF t(1,2) kl t(3)] by blast
qed

text \<open>C20: No ready process is starved, and none notices the others: if the ready processes stay as they
  are and are outside system calls, then after n timer ticks the n-th process behind the running
  one, in cyclic order, is running; so each ready process runs at least once in every round of
  ticks. Whatever the running process does to the registers between two ticks, at the end every
  ready process has exactly the registers it would have if each process had registers of its
  own and they took turns.\<close>

theorem scheduler_fair:
  assumes "sched_inv st rs ss" "k < length rs" "current_process st = Some (rs ! k)"
    "\<forall>i \<in> set rs. p_in_syscall (procs st ! i) = 0"
  shows "\<exists>r' st'. ticks se ia us (r, st) = Some (r', st') \<and> sched_inv st' rs ss \<and>
     current_process st' = Some (rs ! ((k + length us) mod length rs)) \<and>
     (\<forall>i \<in> set rs. registers r' st' i = turns rs k us (registers r st) i \<and> p_in_syscall (procs st' ! i) = 0)"
  using assms
proof (induction us arbitrary: k r st)
  case Nil
  then show ?case by simp
next
  case (Cons u us)
  obtain r1 st1 where t: "context_switch (\<lambda>_ _. None) se ia (u r) st = Some (r1, st1)" "sched_inv st1 rs ss" "Suc k mod length rs < length rs"
    "current_process st1 = Some (rs ! (Suc k mod length rs))" "\<forall>i \<in> set rs. p_in_syscall (procs st1 ! i) = 0"
    "\<forall>i \<in> set rs. registers r1 st1 i = registers (u r) st i" by (rule tick_ok[OF Cons.prems, of se ia "u r"])
  have c: "\<forall>i \<in> set rs. registers r1 st1 i = ((registers r st)(rs ! k := u (registers r st (rs ! k)))) i"
    using t(6) Cons.prems(3) by (auto simp: registers_def)
  obtain r' st' where "ticks se ia us (r1, st1) = Some (r', st')" "sched_inv st' rs ss"
    "current_process st' = Some (rs ! ((Suc k mod length rs + length us) mod length rs))"
    "\<forall>i \<in> set rs. registers r' st' i = turns rs (Suc k mod length rs) us (registers r1 st1) i \<and> p_in_syscall (procs st' ! i) = 0"
    using Cons.IH[OF t(2-5)] by blast
  moreover have "(Suc k mod length rs + length us) mod length rs = (k + length (u # us)) mod length rs" by (simp add: mod_add_left_eq)
  moreover have "turns rs (Suc k mod length rs) us (registers r1 st1) i = turns rs k (u # us) (registers r st) i" if "i \<in> set rs" for i
    using turns_cong[OF t(3) c that] by (simp only: turns.simps)
  ultimately show ?case using t(1) by simp
qed

text \<open>Two processes, each of which adds its own amount to its register eax at every turn.\<close>

theorem scheduler_fair_witness:
  "\<exists>r' st'. ticks 0 0 [\<lambda>r. r\<lparr>r_eax := r_eax r + 1\<rparr>, \<lambda>r. r\<lparr>r_eax := r_eax r + 5\<rparr>, \<lambda>r. r\<lparr>r_eax := r_eax r + 1\<rparr>] (zero_regs, example_kstate) = Some (r', st') \<and>
     current_process st' = Some 2 \<and> r_eax r' = 5 \<and> r_eax (p_saved_regs (procs st' ! 1)) = 2"
proof -
  let ?us = "[\<lambda>r. r\<lparr>r_eax := r_eax r + 1\<rparr>, \<lambda>r. r\<lparr>r_eax := r_eax r + 5\<rparr>, \<lambda>r. r\<lparr>r_eax := r_eax r + 1\<rparr>] :: (regs \<Rightarrow> regs) list"
  have p: "procs example_kstate = example_procs" "current_process example_kstate = Some ([1, 2] ! 0)" "0 < length [1 :: nat, 2]"
    by (simp_all add: example_kstate_def)
  have c: "\<forall>i \<in> set [1, 2]. p_in_syscall (procs example_kstate ! i) = 0"
    using example_procs_nth(5) by (simp add: p MAX_PROCESSES_def)
  have n: "[1, 2] ! ((0 + length ?us) mod length [1::nat, 2]) = (2::nat)" by code_simp
  have z: "registers zero_regs example_kstate 1 = zero_regs" "registers zero_regs example_kstate 2 = zero_regs"
    by (simp_all add: registers_def p example_procs_def zero_process_def MAX_PROCESSES_def nth_list_update)
  obtain r' st' where t: "ticks 0 0 ?us (zero_regs, example_kstate) = Some (r', st')"
    "current_process st' = Some ([1, 2] ! ((0 + length ?us) mod length [1::nat, 2]))"
    "\<forall>i \<in> set [1, 2]. registers r' st' i = turns [1, 2] 0 ?us (registers zero_regs example_kstate) i"
    using scheduler_fair[OF example_inv p(3,2) c, of 0 0 ?us zero_regs] by blast
  have "registers r' st' 2 = turns [1, 2] 0 ?us (registers zero_regs example_kstate) 2"
    "registers r' st' 1 = turns [1, 2] 0 ?us (registers zero_regs example_kstate) 1" using t(3) by (simp_all del: turns.simps)
  then have "registers r' st' 2 = zero_regs\<lparr>r_eax := 5\<rparr>" "registers r' st' 1 = zero_regs\<lparr>r_eax := 2\<rparr>" using z by (simp_all add: zero_regs_def)
  then show ?thesis using t(1,2) n by (auto simp: registers_def zero_regs_def)
qed

text \<open>When no process is running, or the running one was just suspended, the scheduler takes the
  first ready process; when none is ready it enters the idle loop in user mode with interrupts
  enabled and no current process.\<close>

lemma context_switch_idle_or_first:
  assumes "sched_inv st rs ss"
    "current_process st = None \<or> (\<exists>i < MAX_PROCESSES. current_process st = Some i \<and> \<not> p_ready (procs st ! i))"
    "\<forall>i \<in> set rs. p_in_syscall (procs st ! i) = 0"
  shows "\<exists>r' st'. context_switch handler se ia r st = Some (r', st') \<and> sched_inv st' rs ss \<and>
     (if rs = [] then current_process st' = None \<and> r_eip r' = ia \<and> r_useresp r' = se \<and> bit (r_eflags r') 9 \<and> r_cs r' AND 3 = 3
      else current_process st' = Some (hd rs) \<and> r' = p_saved_regs (procs st ! hd rs))"
proof -
  obtain st' where s: "context_switch handler se ia r st = Some (if rs = [] then init_regs se ia else p_saved_regs (procs st ! hd rs), st')"
    "sched_inv st' rs ss" "current_process st' = hd_opt rs None"
    "rs \<noteq> [] \<longrightarrow> paging st' = Some (p_pdir (procs st ! hd rs))"
    by (rule context_switch_restart[OF assms])
  moreover have "bit (r_eflags (init_regs se ia)) 9" "r_cs (init_regs se ia) AND 3 = 3"
    by (simp_all add: init_regs_def USER_CODE_SEGMENT_def RING_3_def)
  moreover have "r_eip (init_regs se ia) = ia" "r_useresp (init_regs se ia) = se" by (simp_all add: init_regs_def)
  ultimately show ?thesis by (cases rs) simp_all
qed

text \<open>get_free_pid returns the lowest unused process slot above 0, and -1 exactly when there is
  none.\<close>

lemma get_free_pid_lowest:
  assumes "length (procs st) = MAX_PROCESSES"
  shows "\<exists>pid. get_free_pid st = Some pid \<and>
     (if \<forall>i. 0 < i \<and> i < MAX_PROCESSES \<longrightarrow> p_exists (procs st ! i) then pid = - 1
      else 0 < pid \<and> pid < int MAX_PROCESSES \<and> \<not> p_exists (procs st ! nat pid) \<and>
        (\<forall>i. 0 < i \<and> i < nat pid \<longrightarrow> p_exists (procs st ! i)))"
proof -
  obtain k where k: "free_pid_loop (procs st) 1 = Some k" "1 \<le> k" "k \<le> MAX_PROCESSES"
    "\<forall>i. 1 \<le> i \<and> i < k \<longrightarrow> p_exists (procs st ! i)" "k < MAX_PROCESSES \<longrightarrow> \<not> p_exists (procs st ! k)"
    using free_pid_loop_ok[OF assms, of 1] by (auto simp: MAX_PROCESSES_def)
  show ?thesis
  proof (cases "k < MAX_PROCESSES")
    case True
    then have "0 < k \<and> k < MAX_PROCESSES \<and> \<not> p_exists (procs st ! k)" using k(2,5) by simp
    then have "\<not> (\<forall>i. 0 < i \<and> i < MAX_PROCESSES \<longrightarrow> p_exists (procs st ! i))" by blast
    then show ?thesis using True k by (auto simp: get_free_pid_def)
  next
    case False
    then have "\<forall>i. 0 < i \<and> i < MAX_PROCESSES \<longrightarrow> p_exists (procs st ! i)" using k(3,4) by auto
    then show ?thesis using False k by (simp add: get_free_pid_def)
  qed
qed

end
