(* ===== verification/Validate.thy ===== *)
theory Validate
  imports Process
begin

text \<open>
  The checks of pointers that processes pass to system calls, syscall.c: \<open>valid_pointer\<close> and
  \<open>valid_string\<close>.
\<close>

definition in_segment :: "u32 \<Rightarrow> u32 \<Rightarrow> u32 \<Rightarrow> u32 \<Rightarrow> bool" where
  "in_segment start_address end_address seg_start seg_end \<longleftrightarrow> start_address \<ge> seg_start \<and> end_address \<le> seg_end"

definition valid_pointer :: "kstate \<Rightarrow> u32 \<Rightarrow> u32 \<Rightarrow> bool option" where
  "valid_pointer st ptr sz = (
     let start_address = ptr; end_address = start_address + sz
     in if sz = 0 then Some True
        else if end_address < start_address then Some False
        else do {
          p \<leftarrow> cur st;
          Some (in_segment start_address end_address (p_stack_start p) (p_stack_end p) \<or>
                in_segment start_address end_address (p_data_start p) (p_data_end p) \<or>
                in_segment start_address end_address (p_text_start p) (p_text_end p)) })"

partial_function (option) valid_string_loop :: "kstate \<Rightarrow> u32 \<Rightarrow> u32 \<Rightarrow> bool option" where
  "valid_string_loop st str len = do {
     v \<leftarrow> valid_pointer st str (len + 1);
     if v then do {
       c \<leftarrow> rd8 st (str + len);
       if c = 0 then Some True else valid_string_loop st str (len + 1) }
     else Some False }"

declare valid_string_loop.simps [code]

definition valid_string :: "kstate \<Rightarrow> u32 \<Rightarrow> bool option" where
  "valid_string st str = valid_string_loop st str 0"

section \<open>What the checks guarantee\<close>

text \<open>The addresses of a segment of the current process.\<close>

definition user_range :: "process \<Rightarrow> u32 \<Rightarrow> nat \<Rightarrow> bool" where
  "user_range p a n \<longleftrightarrow>
     (unat (p_stack_start p) \<le> unat a \<and> unat a + n \<le> unat (p_stack_end p)) \<or>
     (unat (p_data_start p) \<le> unat a \<and> unat a + n \<le> unat (p_data_end p)) \<or>
     (unat (p_text_start p) \<le> unat a \<and> unat a + n \<le> unat (p_text_end p))"

lemma valid_pointer_iff:
  assumes "cur st = Some p" "sz \<noteq> 0"
  shows "valid_pointer st ptr sz = Some (user_range p ptr (unat sz))"
proof (cases "ptr + sz < ptr")
  case True
  have "2 ^ 32 \<le> unat ptr + unat sz"
  proof (rule ccontr)
    assume "\<not> 2 ^ 32 \<le> unat ptr + unat sz"
    then have "unat (ptr + sz) = unat ptr + unat sz" by (simp add: unat_word_ariths)
    then show False using True by (simp add: word_less_nat_alt)
  qed
  then have "\<not> user_range p ptr (unat sz)"
    using unat_u32_less[of "p_stack_end p"] unat_u32_less[of "p_data_end p"] unat_u32_less[of "p_text_end p"]
    by (auto simp: user_range_def)
  then show ?thesis using True assms(2) by (simp add: valid_pointer_def)
next
  case False
  have "unat (ptr + sz) = unat ptr + unat sz"
  proof (rule ccontr)
    assume ne: "unat (ptr + sz) \<noteq> unat ptr + unat sz"
    have ge: "2 ^ 32 \<le> unat ptr + unat sz"
    proof (rule ccontr)
      assume "\<not> 2 ^ 32 \<le> unat ptr + unat sz"
      then show False using ne by (simp add: unat_word_ariths)
    qed
    have "(unat ptr + unat sz) mod 2 ^ 32 = unat ptr + unat sz - 2 ^ 32"
      using ge unat_u32_less[of ptr] unat_u32_less[of sz] by (simp add: le_mod_geq)
    then have "unat (ptr + sz) = unat ptr + unat sz - 2 ^ 32" by (simp add: unat_word_ariths)
    then have "unat (ptr + sz) < unat ptr" using ge unat_u32_less[of sz] by simp
    then show False using False by (simp add: word_less_nat_alt)
  qed
  then show ?thesis
    using False assms by (simp add: valid_pointer_def in_segment_def user_range_def word_le_nat_alt)
qed

lemma valid_pointer_zero: "valid_pointer st ptr 0 = Some True"
  by (simp add: valid_pointer_def)

lemma user_range_sub: "user_range p a n \<Longrightarrow> m \<le> n \<Longrightarrow> user_range p a m"
  by (auto simp: user_range_def)

lemma user_range_bound: "user_range p a n \<Longrightarrow> unat a + n < 2 ^ 32"
  using unat_u32_less[of "p_stack_end p"] unat_u32_less[of "p_data_end p"] unat_u32_less[of "p_text_end p"]
  by (auto simp: user_range_def)

text \<open>All bytes of the segments are readable, as the page tables of a process provide it.\<close>

definition segments_mapped :: "kstate \<Rightarrow> process \<Rightarrow> bool" where
  "segments_mapped st p \<longleftrightarrow> (\<forall>a. user_range p a 1 \<longrightarrow> phys st a \<noteq> None)"

definition segments_below :: "process \<Rightarrow> bool" where
  "segments_below p \<longleftrightarrow> p_stack_end p < 0xFFFFFFFF \<and> p_data_end p < 0xFFFFFFFF \<and> p_text_end p < 0xFFFFFFFF"

text \<open>The string check accepts exactly the pointers to a NUL-terminated string inside one segment.\<close>

definition is_string :: "kstate \<Rightarrow> process \<Rightarrow> u32 \<Rightarrow> nat \<Rightarrow> bool" where
  "is_string st p str n \<longleftrightarrow> user_range p str (Suc n) \<and> rd8 st (str + of_nat n) = Some 0 \<and>
     (\<forall>j < n. rd8 st (str + of_nat j) \<noteq> Some 0)"

text \<open>
  The loop ends: the offset grows until the range leaves the segments, which it must do before
  the 32-bit offset wraps around.
\<close>

lemma valid_string_loop_ok:
  assumes c: "cur st = Some p" and m: "segments_mapped st p" and e: "segments_below p"
  shows "(\<forall>j < unat l. rd8 st (str + of_nat j) \<noteq> Some 0) \<Longrightarrow> user_range p str (unat l) \<or> l = 0 \<Longrightarrow>
    valid_string_loop st str l = Some (\<exists>n. is_string st p str n)"
proof (induction "2 ^ 32 - unat l" arbitrary: l rule: less_induct)
  case less
  have l1: "Suc (unat l) < 2 ^ 32"
    using less.prems(2) e by (auto simp: user_range_def segments_below_def word_less_nat_alt)
  then have u1: "unat (l + 1) = Suc (unat l)" by (simp add: unat_word_ariths)
  then have n0: "l + 1 \<noteq> 0" by (metis Zero_not_Suc unsigned_0)
  show ?case
  proof (cases "user_range p str (Suc (unat l))")
    case False
    have "\<not> is_string st p str n" for n
    proof
      assume s: "is_string st p str n"
      show False
      proof (cases "n < unat l")
        case True
        then show ?thesis using s less.prems(1) by (simp add: is_string_def)
      next
        case ge: False
        then show ?thesis using s False user_range_sub[of p str "Suc n" "Suc (unat l)"] by (simp add: is_string_def)
      qed
    qed
    then show ?thesis using valid_pointer_iff[OF c n0, of str] False u1 by (subst valid_string_loop.simps) simp
  next
    case True
    have "user_range p (str + l) 1"
    proof -
      have "unat (str + l) = unat str + unat l"
        using user_range_bound[OF True] by (simp add: unat_word_ariths)
      then show ?thesis using True by (auto simp: user_range_def)
    qed
    then obtain b where b: "rd8 st (str + l) = Some b" using m by (auto simp: segments_mapped_def rd8_def)
    show ?thesis
    proof (cases "b = 0")
      case z: True
      then have "is_string st p str (unat l)" using True b less.prems(1) by (simp add: is_string_def)
      moreover have "valid_string_loop st str l = Some True"
        using valid_pointer_iff[OF c n0, of str] True u1 b z by (subst valid_string_loop.simps) simp
      ultimately show ?thesis by auto
    next
      case nz: False
      have "valid_string_loop st str l = valid_string_loop st str (l + 1)"
        using valid_pointer_iff[OF c n0, of str] True u1 b nz by (subst valid_string_loop.simps) simp
      moreover have "rd8 st (str + of_nat j) \<noteq> Some 0" if "j < unat (l + 1)" for j
        using that u1 less.prems(1) b nz by (cases "j = unat l") auto
      moreover have "2 ^ 32 - unat (l + 1) < 2 ^ 32 - unat l" using u1 l1 by simp
      moreover have "user_range p str (unat (l + 1))" using True u1 by simp
      ultimately show ?thesis using less.hyps[of "l + 1"] by auto
    qed
  qed
qed

section \<open>Properties of the checks\<close>

definition example_user :: kstate where
  "example_user = \<lparr>procs = [zero_process\<lparr>p_stack_start := 0x3FFF0000, p_stack_end := 0x40000000\<rparr>],
     current_process = Some 0, ready = \<lparr>pl_first = Some 0, pl_last = Some 0\<rparr>, suspended = \<lparr>pl_first = None, pl_last = None\<rparr>,
     kernel_memarea = the (buddy_init 12 0x200000 (\<lambda>_. 0)), junk = (\<lambda>_. 0), pipes = Map.empty, fhs = Map.empty,
     bufs = Map.empty, mboxes = Map.empty,
     pgs = \<lparr>page_end = PAGE_START, page_free = 0, npages = 0, pmem = (\<lambda>a. if a = 0x3FFF0000 then 65 else 0)\<rparr>, paging = None,
     console = \<lparr>screen = [], xpos = 0, ypos = 0, cursor_hi = 0, cursor_lo = 0\<rparr>, input_pipe = 0, timer_ticks = 0, filesystem = 0\<rparr>"

lemma example_user_cur: "cur example_user = Some (zero_process\<lparr>p_stack_start := 0x3FFF0000, p_stack_end := 0x40000000\<rparr>)"
  by (simp add: cur_def example_user_def get_proc_def)

text \<open>C21: valid_pointer accepts a non-empty range exactly when all of it lies inside one of the three
  segments of the current process; in particular an address range that wraps around the end of
  memory is never accepted.\<close>

theorem valid_pointer_exact:
  assumes "cur st = Some p" "sz \<noteq> 0"
  shows "valid_pointer st ptr sz = Some True \<longleftrightarrow>
     (\<exists>(s, e) \<in> {(p_stack_start p, p_stack_end p), (p_data_start p, p_data_end p), (p_text_start p, p_text_end p)}.
        unat s \<le> unat ptr \<and> unat ptr + unat sz \<le> unat e)"
  using valid_pointer_iff[OF assms, of ptr] by (simp add: user_range_def)

theorem valid_pointer_exact_witness: "valid_pointer example_user 0x3FFFFFF0 16 = Some True"
  using valid_pointer_exact[OF example_user_cur, of 16 "0x3FFFFFF0"] by simp

text \<open>C22: valid_string always returns, and accepts exactly the pointers to a string that ends with
  its NUL character inside one segment of the current process.\<close>

theorem valid_string_exact:
  assumes "cur st = Some p" "segments_mapped st p" "segments_below p"
  shows "valid_string st str = Some (\<exists>n. is_string st p str n)"
  using valid_string_loop_ok[OF assms, of 0 str] by (simp add: valid_string_def)

theorem valid_string_exact_witness: "valid_string example_user 0x3FFF0000 = Some True"
proof -
  let ?p = "zero_process\<lparr>p_stack_start := 0x3FFF0000, p_stack_end := 0x40000000\<rparr>"
  have m: "segments_mapped example_user ?p" by (simp add: segments_mapped_def phys_def example_user_def)
  have b: "segments_below ?p" by (simp add: segments_below_def zero_process_def)
  have "is_string example_user ?p 0x3FFF0000 1"
    by (simp add: is_string_def user_range_def rd8_def phys_def example_user_def)
  then show ?thesis using valid_string_exact[OF example_user_cur m b, of "0x3FFF0000"] by auto
qed

end
