(* ===== verification/Pipe.thy ===== *)
theory Pipe
  imports Validate
begin

text \<open>
  Pipes and file handles, pipe.c and filedesc.c: creation, writing with growth of the buffer,
  blocking reads, wake-up of the blocked reader, destruction of both ends, reference counting,
  and the system calls \<open>pipe\<close>, \<open>close\<close> and \<open>dup2\<close>. System calls return an integer: a result or
  a negative error code.
\<close>

section \<open>Byte arrays of the kernel heap\<close>

definition buf_get :: "u8 list \<Rightarrow> nat \<Rightarrow> nat \<Rightarrow> u8 list option" where
  "buf_get d off n = (if off + n \<le> length d then Some (take n (drop off d)) else None)"

definition buf_put :: "u8 list \<Rightarrow> nat \<Rightarrow> u8 list \<Rightarrow> u8 list option" where
  "buf_put d off bs = (if off + length bs \<le> length d then Some (take off d @ bs @ drop (off + length bs) d) else None)"

text \<open>\<open>memmove\<close> between two arrays, and within one.\<close>

definition buf_move :: "u32 \<Rightarrow> nat \<Rightarrow> u32 \<Rightarrow> nat \<Rightarrow> nat \<Rightarrow> kstate \<Rightarrow> kstate option" where
  "buf_move dst doff src soff n st = do {
     s \<leftarrow> bufs st src;
     bs \<leftarrow> buf_get s soff n;
     d \<leftarrow> bufs st dst;
     d' \<leftarrow> buf_put d doff bs;
     Some (st\<lparr>bufs := (bufs st)(dst \<mapsto> d')\<rparr>) }"

definition buf_store :: "u32 \<Rightarrow> nat \<Rightarrow> u8 list \<Rightarrow> kstate \<Rightarrow> kstate option" where
  "buf_store dst doff bs st = do {
     d \<leftarrow> bufs st dst;
     d' \<leftarrow> buf_put d doff bs;
     Some (st\<lparr>bufs := (bufs st)(dst \<mapsto> d')\<rparr>) }"

definition buf_load :: "u32 \<Rightarrow> nat \<Rightarrow> nat \<Rightarrow> kstate \<Rightarrow> u8 list option" where
  "buf_load src soff n st = do { s \<leftarrow> bufs st src; buf_get s soff n }"

section \<open>Pipes\<close>

definition new_pipe :: "kstate \<Rightarrow> (u32 \<times> kstate) option" where
  "new_pipe st = do {
     (b, st1) \<leftarrow> knew 24 st;
     (d, st2) \<leftarrow> new_buf BUFSIZE st1;
     Some (b, set_pipe b \<lparr>pb_reading = True, pb_writing = True, pb_alloc = BUFSIZE, pb_len = 0,
                          pb_readpid = - 1, pb_data = d\<rparr> st2) }"

definition wake_up_reader :: "u32 \<Rightarrow> kstate \<Rightarrow> kstate option" where
  "wake_up_reader p st = do {
     b \<leftarrow> get_pipe st p;
     if 0 \<le> pb_readpid b then do {
       st1 \<leftarrow> resume_process (nat (pb_readpid b)) st;
       b1 \<leftarrow> get_pipe st1 p;
       Some (set_pipe p (b1\<lparr>pb_readpid := - 1\<rparr>) st1) }
     else Some st }"

text \<open>The doubling loop works on 32-bit words and may not end.\<close>

partial_function (option) grow_alloc :: "u32 \<Rightarrow> u32 \<Rightarrow> u32 option" where
  "grow_alloc need al = (if need > al then grow_alloc need (al * 2) else Some al)"

declare grow_alloc.simps [code]

definition grow_pipe :: "u32 \<Rightarrow> u32 \<Rightarrow> kstate \<Rightarrow> kstate option" where
  "grow_pipe p count st = do {
     b \<leftarrow> get_pipe st p;
     al \<leftarrow> grow_alloc (pb_len b + count) (pb_alloc b);
     let st1 = set_pipe p (b\<lparr>pb_alloc := al\<rparr>) st;
     (newdata, st2) \<leftarrow> new_buf al st1;
     st3 \<leftarrow> buf_move newdata 0 (pb_data b) 0 (unat (pb_len b)) st2;
     st4 \<leftarrow> kdelete (pb_data b) st3;
     Some (set_pipe p (b\<lparr>pb_alloc := al, pb_data := newdata\<rparr>) st4) }"

definition write_to_pipe :: "u32 \<Rightarrow> u8 list \<Rightarrow> kstate \<Rightarrow> kstate option" where
  "write_to_pipe p buf st = do {
     b \<leftarrow> get_pipe st p;
     let count = of_nat (length buf);
     st1 \<leftarrow> (if pb_len b + count > pb_alloc b then grow_pipe p count st else Some st);
     b1 \<leftarrow> get_pipe st1 p;
     st2 \<leftarrow> buf_store (pb_data b1) (unat (pb_len b1)) buf st1;
     let st3 = set_pipe p (b1\<lparr>pb_len := pb_len b1 + count\<rparr>) st2;
     wake_up_reader p st3 }"

definition check_buffer_free :: "u32 \<Rightarrow> kstate \<Rightarrow> kstate option" where
  "check_buffer_free p st = do {
     b \<leftarrow> get_pipe st p;
     if \<not> pb_reading b \<and> \<not> pb_writing b then do {
       kassert (- 1 = pb_readpid b);
       st1 \<leftarrow> kdelete (pb_data b) st;
       kdelete p st1 }
     else Some st }"

text \<open>The handlers of the two ends. \<open>count\<close> is the length of the data or the size of the buffer.\<close>

definition pipe_writer_write_h :: "filehandle \<Rightarrow> u8 list \<Rightarrow> kstate \<Rightarrow> (int \<times> kstate) option" where
  "pipe_writer_write_h fh buf st = do {
     p \<leftarrow> fh_p fh;
     st1 \<leftarrow> write_to_pipe p buf st;
     Some (sint (of_nat (length buf) :: u32), st1) }"

definition pipe_writer_read_h :: "kstate \<Rightarrow> (int \<times> kstate) option" where
  "pipe_writer_read_h st = Some (- EINVAL, st)"

definition pipe_writer_destroy_h :: "u32 \<Rightarrow> kstate \<Rightarrow> kstate option" where
  "pipe_writer_destroy_h f st = do {
     fh \<leftarrow> get_fh st f;
     p \<leftarrow> fh_p fh;
     b \<leftarrow> get_pipe st p;
     kassert (pb_writing b);
     st1 \<leftarrow> wake_up_reader p (set_pipe p (b\<lparr>pb_writing := False\<rparr>) st);
     st2 \<leftarrow> check_buffer_free p st1;
     kdelete f st2 }"

definition new_pipe_writer :: "u32 \<Rightarrow> kstate \<Rightarrow> (u32 \<times> kstate) option" where
  "new_pipe_writer p st = do {
     (f, st1) \<leftarrow> knew 36 st;
     Some (f, set_fh f \<lparr>fh_type = FH_PIPE_WRITER, refcount = 1, fh_write = pipe_writer_write,
                        fh_read = pipe_writer_read, fh_destroy = pipe_writer_destroy, fh_p = Some p,
                        fh_entry = None, fh_pos = None, fh_entryno = None\<rparr> st1) }"

definition pipe_reader_write_h :: "kstate \<Rightarrow> (int \<times> kstate) option" where
  "pipe_reader_write_h st = Some (- EINVAL, st)"

definition pipe_reader_read_h :: "filehandle \<Rightarrow> u32 \<Rightarrow> u32 \<Rightarrow> kstate \<Rightarrow> (int \<times> kstate) option" where
  "pipe_reader_read_h fh buf count st = do {
     p \<leftarrow> fh_p fh;
     b \<leftarrow> get_pipe st p;
     if - 1 \<noteq> pb_readpid b then Some (- EBADF, st)
     else if 0 < pb_len b then do {
       let copy = (if count < pb_len b then count else pb_len b);
       bs \<leftarrow> buf_load (pb_data b) 0 (unat copy) st;
       st1 \<leftarrow> write_bytes buf bs st;
       st2 \<leftarrow> (if pb_len b > copy
               then buf_move (pb_data b) 0 (pb_data b) (unat copy) (unat (pb_len b - copy)) st1
               else Some st1);
       Some (sint copy, set_pipe p (b\<lparr>pb_len := pb_len b - copy\<rparr>) st2) }
     else if \<not> pb_writing b then Some (0, st)
     else do {
       i \<leftarrow> current_process st;
       c \<leftarrow> get_proc st i;
       st1 \<leftarrow> suspend_process i (set_pipe p (b\<lparr>pb_readpid := p_pid c\<rparr>) st);
       Some (- ESUSPEND, st1) } }"

definition pipe_reader_destroy_h :: "u32 \<Rightarrow> kstate \<Rightarrow> kstate option" where
  "pipe_reader_destroy_h f st = do {
     fh \<leftarrow> get_fh st f;
     p \<leftarrow> fh_p fh;
     b \<leftarrow> get_pipe st p;
     kassert (pb_reading b);
     st1 \<leftarrow> check_buffer_free p (set_pipe p (b\<lparr>pb_reading := False\<rparr>) st);
     kdelete f st1 }"

definition new_pipe_reader :: "u32 \<Rightarrow> kstate \<Rightarrow> (u32 \<times> kstate) option" where
  "new_pipe_reader p st = do {
     (f, st1) \<leftarrow> knew 36 st;
     Some (f, set_fh f \<lparr>fh_type = FH_PIPE_READER, refcount = 1, fh_write = pipe_reader_write,
                        fh_read = pipe_reader_read, fh_destroy = pipe_reader_destroy, fh_p = Some p,
                        fh_entry = None, fh_pos = None, fh_entryno = None\<rparr> st1) }"

section \<open>File handles\<close>

definition screen_destroy_h :: "u32 \<Rightarrow> kstate \<Rightarrow> kstate option" where
  "screen_destroy_h f st = kdelete f st"

definition file_destroy_h :: "u32 \<Rightarrow> kstate \<Rightarrow> kstate option" where
  "file_destroy_h f st = kdelete f st"

definition new_screen_handle :: "kstate \<Rightarrow> (u32 \<times> kstate) option" where
  "new_screen_handle st = do {
     (f, st1) \<leftarrow> knew 36 st;
     Some (f, set_fh f \<lparr>fh_type = FH_SCREEN, refcount = 1, fh_write = screen_write,
                        fh_read = screen_read, fh_destroy = screen_destroy, fh_p = None,
                        fh_entry = None, fh_pos = None, fh_entryno = None\<rparr> st1) }"

text \<open>The call through the function pointer \<open>fh->destroy\<close>.\<close>

definition call_destroy :: "destroy_fun \<Rightarrow> u32 \<Rightarrow> kstate \<Rightarrow> kstate option" where
  "call_destroy d f st = (case d of
       screen_destroy \<Rightarrow> screen_destroy_h f st
     | pipe_writer_destroy \<Rightarrow> pipe_writer_destroy_h f st
     | pipe_reader_destroy \<Rightarrow> pipe_reader_destroy_h f st
     | file_destroy \<Rightarrow> file_destroy_h f st)"

definition close_filehandle :: "u32 \<Rightarrow> kstate \<Rightarrow> kstate option" where
  "close_filehandle f st = do {
     fh \<leftarrow> get_fh st f;
     kassert (1 \<le> refcount fh);
     let st1 = set_fh f (fh\<lparr>refcount := refcount fh - 1\<rparr>) st;
     if 0 = refcount fh - 1 then call_destroy (fh_destroy fh) f st1 else Some st1 }"

section \<open>System calls on file descriptors\<close>

text \<open>The test \<open>(0 > fd) || (MAX_FDS <= fd) || (NULL == current_process->filedesc[fd])\<close>.\<close>

definition fd_get :: "int \<Rightarrow> kstate \<Rightarrow> u32 option" where
  "fd_get fd st = do { c \<leftarrow> cur st; list_get (p_filedesc c) (nat fd) }"

definition bad_fd :: "int \<Rightarrow> kstate \<Rightarrow> bool option" where
  "bad_fd fd st = (if 0 > fd \<or> int MAX_FDS \<le> fd then Some True else do { f \<leftarrow> fd_get fd st; Some (f = 0) })"

definition fd_set :: "nat \<Rightarrow> u32 \<Rightarrow> kstate \<Rightarrow> kstate option" where
  "fd_set fd f st = do {
     c \<leftarrow> cur st;
     fds \<leftarrow> list_put (p_filedesc c) fd f;
     upd_cur (\<lambda>c. c\<lparr>p_filedesc := fds\<rparr>) st }"

definition syscall_close :: "int \<Rightarrow> kstate \<Rightarrow> (int \<times> kstate) option" where
  "syscall_close fd st = do {
     bad \<leftarrow> bad_fd fd st;
     if bad then Some (- EBADF, st)
     else do {
       f \<leftarrow> fd_get fd st;
       st1 \<leftarrow> close_filehandle f st;
       st2 \<leftarrow> fd_set (nat fd) 0 st1;
       Some (0, st2) } }"

definition syscall_dup2 :: "int \<Rightarrow> int \<Rightarrow> kstate \<Rightarrow> (int \<times> kstate) option" where
  "syscall_dup2 oldfd newfd st =
     (if 0 > oldfd \<or> int MAX_FDS \<le> oldfd then Some (- EBADF, st)
      else if 0 > newfd \<or> int MAX_FDS \<le> newfd then Some (- EBADF, st)
      else do {
        f \<leftarrow> fd_get oldfd st;
        if f = 0 then Some (- EBADF, st)
        else if oldfd = newfd then Some (newfd, st)
        else do {
          g \<leftarrow> fd_get newfd st;
          st1 \<leftarrow> (if g \<noteq> 0 then close_filehandle g st else Some st);
          st2 \<leftarrow> fd_set (nat newfd) f st1;
          fh \<leftarrow> get_fh st2 f;
          Some (newfd, set_fh f (fh\<lparr>refcount := refcount fh + 1\<rparr>) st2) } })"

text \<open>The loop that looks for two unused descriptors; \<open>- 1\<close> stands for not found.\<close>

fun find_two_fds :: "u32 list \<Rightarrow> int \<Rightarrow> int \<Rightarrow> int \<Rightarrow> int \<times> int" where
  "find_two_fds [] i readfd writefd = (readfd, writefd)"
| "find_two_fds (f # fs) i readfd writefd =
     (if writefd \<noteq> - 1 then (readfd, writefd)
      else if f = 0 then
        (if readfd = - 1 then find_two_fds fs (i + 1) i writefd
         else find_two_fds fs (i + 1) readfd i)
      else find_two_fds fs (i + 1) readfd writefd)"

definition syscall_pipe :: "u32 \<Rightarrow> kstate \<Rightarrow> (int \<times> kstate) option" where
  "syscall_pipe filedes st = do {
     v \<leftarrow> valid_pointer st filedes 8;
     if \<not> v then Some (- EFAULT, st)
     else do {
       c \<leftarrow> cur st;
       let (readfd, writefd) = find_two_fds (p_filedesc c) 0 (- 1) (- 1);
       if readfd = - 1 \<or> writefd = - 1 then Some (- EMFILE, st)
       else do {
         (b, st1) \<leftarrow> new_pipe st;
         (rh, st2) \<leftarrow> new_pipe_reader b st1;
         st3 \<leftarrow> fd_set (nat readfd) rh st2;
         (wh, st4) \<leftarrow> new_pipe_writer b st3;
         st5 \<leftarrow> fd_set (nat writefd) wh st4;
         st6 \<leftarrow> write_bytes filedes (bytes32 (of_int readfd)) st5;
         st7 \<leftarrow> write_bytes (filedes + 4) (bytes32 (of_int writefd)) st6;
         Some (0, st7) } } }"

end
