(* ===== verification/User_Memory.thy ===== *)
theory User_Memory
  imports Validate Page_Correct
begin

text \<open>
  Copies between the kernel and the memory of a process go through the page tables byte by byte.
  A range is writable without side effects when its bytes are mapped to distinct physical
  addresses outside the page tables in use; then a copy out can be read back, and nothing else
  changes.
\<close>

lemma page_base_aligned: "page_aligned (a - a mod PAGE_SIZE)"
proof -
  have m: "unat (a mod PAGE_SIZE) = unat a mod 4096" by (simp add: PAGE_SIZE_def unat_mod)
  then have "unat (a - a mod PAGE_SIZE) = unat a - unat a mod 4096"
    by (simp add: unat_sub word_le_nat_alt)
  then show ?thesis by (simp add: page_aligned_def dvd_minus_mod)
qed

text \<open>The pages that hold the page directory and the page tables in use.\<close>

definition table_pages :: "kstate \<Rightarrow> nat set" where
  "table_pages st = (case paging st of None \<Rightarrow> {} | Some pdir \<Rightarrow> page_of ` insert pdir (tables (pgs st) pdir))"

definition paging_ok :: "kstate \<Rightarrow> bool" where
  "paging_ok st \<longleftrightarrow> (\<forall>pdir. paging st = Some pdir \<longrightarrow> page_aligned pdir)"

definition set_pmem :: "bytemem \<Rightarrow> kstate \<Rightarrow> kstate" where
  "set_pmem m st = st\<lparr>pgs := (pgs st)\<lparr>pmem := m\<rparr>\<rparr>"

lemma set_pmem_simps [simp]:
  "pmem (pgs (set_pmem m st)) = m" "paging (set_pmem m st) = paging st" "procs (set_pmem m st) = procs st"
  "current_process (set_pmem m st) = current_process st" "pipes (set_pmem m st) = pipes st" "fhs (set_pmem m st) = fhs st"
  "bufs (set_pmem m st) = bufs st" "mboxes (set_pmem m st) = mboxes st" "kernel_memarea (set_pmem m st) = kernel_memarea st"
  "ready (set_pmem m st) = ready st" "suspended (set_pmem m st) = suspended st" "junk (set_pmem m st) = junk st"
  "set_pmem m' (set_pmem m st) = set_pmem m' st" "set_pmem (pmem (pgs st)) st = st"
  by (simp_all add: set_pmem_def)

lemma phys_set_pmem:
  assumes ok: "paging_ok st" and m: "\<forall>x. page_of x \<in> table_pages st \<longrightarrow> m x = pmem (pgs st) x"
  shows "phys (set_pmem m st) a = phys st a" "table_pages (set_pmem m st) = table_pages st" "paging_ok (set_pmem m st)"
proof -
  let ?st' = "set_pmem m st"
  have "lookup_page pdir (a - a mod PAGE_SIZE) (pgs ?st') = lookup_page pdir (a - a mod PAGE_SIZE) (pgs st) \<and>
    tables (pgs ?st') pdir = tables (pgs st) pdir" if p: "paging st = Some pdir" for pdir
  proof -
    have al: "page_aligned pdir" using ok p by (simp add: paging_ok_def)
    have so: "same_on (insert pdir (tables (pgs st) pdir)) (pgs st) (pgs ?st')"
      using m p by (simp add: same_on_def table_pages_def)
    then have "translate (pgs ?st') pdir l = translate (pgs st) pdir l" for l by (rule translate_cong[OF al])
    moreover have "tables (pgs ?st') pdir = tables (pgs st) pdir"
      by (rule tables_cong[OF al]) (rule same_on_mono[OF so], simp)
    ultimately show ?thesis by (simp add: lookup_page_translate page_base_aligned)
  qed
  then show "phys ?st' a = phys st a" "table_pages ?st' = table_pages st" "paging_ok ?st'"
    using ok by (auto simp: phys_def table_pages_def paging_ok_def split: option.splits)
qed

definition mapped_to :: "kstate \<Rightarrow> u32 \<Rightarrow> u32 list \<Rightarrow> bool" where
  "mapped_to st a pas \<longleftrightarrow> (\<forall>i < length pas. phys st (a + of_nat i) = Some (pas ! i))"

definition user_safe :: "kstate \<Rightarrow> u32 \<Rightarrow> u32 list \<Rightarrow> bool" where
  "user_safe st a pas \<longleftrightarrow> mapped_to st a pas \<and> distinct pas \<and> (\<forall>pa \<in> set pas. page_of pa \<notin> table_pages st)"

lemma mapped_to_Cons: "mapped_to st a (pa # pas) \<longleftrightarrow> phys st a = Some pa \<and> mapped_to st (a + 1) pas"
proof -
  have "(\<forall>i < Suc (length pas). phys st (a + of_nat i) = Some ((pa # pas) ! i)) \<longleftrightarrow>
    phys st a = Some pa \<and> (\<forall>i < length pas. phys st (a + 1 + of_nat i) = Some (pas ! i))"
    unfolding All_less_Suc2 by (simp add: add.commute add.left_commute)
  then show ?thesis by (simp add: mapped_to_def)
qed

text \<open>Memory with bytes laid over it at the given physical addresses.\<close>

fun lay :: "bytemem \<Rightarrow> u32 list \<Rightarrow> u8 list \<Rightarrow> bytemem" where
  "lay m (pa # pas) (b # bs) = lay (m(pa := b)) pas bs"
| "lay m _ _ = m"

lemma lay_other: "x \<notin> set pas \<Longrightarrow> lay m pas bs x = m x"
  by (induction m pas bs rule: lay.induct) auto

lemma lay_at: "distinct pas \<Longrightarrow> length bs = length pas \<Longrightarrow> i < length pas \<Longrightarrow> lay m pas bs (pas ! i) = bs ! i"
proof (induction m pas bs arbitrary: i rule: lay.induct)
  case (1 m pa pas b bs)
  then show ?case by (cases i) (simp_all add: lay_other del: fun_upd_apply, simp)
qed auto

lemma write_bytes_ok:
  assumes "paging_ok st" "user_safe st a pas" "length bs = length pas"
  shows "write_bytes a bs st = Some (set_pmem (lay (pmem (pgs st)) pas bs) st)"
  using assms
proof (induction bs arbitrary: a st pas)
  case (Cons b bs)
  obtain pa ps where pas: "pas = pa # ps" using Cons.prems(3) by (cases pas) auto
  have p: "phys st a = Some pa" "mapped_to st (a + 1) ps" "distinct ps" "pa \<notin> set ps" "page_of pa \<notin> table_pages st"
    "\<forall>q \<in> set ps. page_of q \<notin> table_pages st"
    using Cons.prems(2) by (auto simp: user_safe_def pas mapped_to_Cons)
  let ?m = "(pmem (pgs st))(pa := b)"
  have m: "\<forall>x. page_of x \<in> table_pages st \<longrightarrow> ?m x = pmem (pgs st) x" using p(5) by auto
  note ph = phys_set_pmem[OF Cons.prems(1) m]
  have "user_safe (set_pmem ?m st) (a + 1) ps"
    unfolding user_safe_def mapped_to_def ph(1,2) using p by (simp add: mapped_to_def)
  from Cons.IH[OF ph(3) this] show ?case
    using p(1) Cons.prems(3) by (simp add: wr8_def pas fun_upd_def flip: set_pmem_def)
qed (simp add: set_pmem_def)

lemma read_bytes_ok:
  assumes "mapped_to st a pas"
  shows "read_bytes st a (length pas) = Some (map (pmem (pgs st)) pas)"
  using assms by (induction pas arbitrary: a) (simp_all add: mapped_to_Cons rd8_def)

lemma write_bytes_state:
  assumes "paging_ok st" "user_safe st a pas" "length bs = length pas"
  defines "st' \<equiv> set_pmem (lay (pmem (pgs st)) pas bs) st"
  shows "paging_ok st'" "phys st' x = phys st x" "table_pages st' = table_pages st" "user_safe st' b ps = user_safe st b ps"
    "read_bytes st' a (length bs) = Some bs"
proof -
  have m: "\<forall>x. page_of x \<in> table_pages st \<longrightarrow> lay (pmem (pgs st)) pas bs x = pmem (pgs st) x"
    using assms(2) by (auto simp: user_safe_def intro!: lay_other)
  note ph = phys_set_pmem[OF assms(1) m]
  show "paging_ok st'" "phys st' x = phys st x" "table_pages st' = table_pages st" using ph by (simp_all add: st'_def)
  show "user_safe st' b ps = user_safe st b ps" using ph by (simp add: st'_def user_safe_def mapped_to_def)
  have mp: "mapped_to st' a pas" using assms(2) ph(1) by (simp add: st'_def user_safe_def mapped_to_def)
  have d: "distinct pas" using assms(2) by (simp add: user_safe_def)
  have "map (pmem (pgs st')) pas = bs"
    by (rule nth_equalityI) (simp_all add: st'_def lay_at[OF d assms(3)] assms(3))
  then show "read_bytes st' a (length bs) = Some bs" using read_bytes_ok[OF mp] assms(3) by simp
qed

lemma read_bytes_frame:
  assumes "pgs st' = pgs st" "paging st' = paging st"
  shows "phys st' a = phys st a" "rd8 st' a = rd8 st a" "read_bytes st' a n = read_bytes st a n"
    "paging_ok st' = paging_ok st" "user_safe st' a pas = user_safe st a pas"
proof -
  show p: "phys st' a = phys st a" for a unfolding phys_def assms ..
  show r: "rd8 st' a = rd8 st a" for a by (simp add: rd8_def p assms)
  show "read_bytes st' a n = read_bytes st a n" by (induction n arbitrary: a) (simp_all add: r)
  show "paging_ok st' = paging_ok st" by (simp add: paging_ok_def assms)
  show "user_safe st' a pas = user_safe st a pas"
    unfolding user_safe_def mapped_to_def p table_pages_def assms ..
qed

end
