(* ===== verification/Channel.thy ===== *)
theory Channel
  imports RPrelude
begin

text \<open>
  The contract of a byte channel: what is put is appended to the pending bytes, what is got is
  taken from their front. Pipes provide it (theory \<open>Pipe_Correct\<close>). The consequence for a client
  is that the bytes received, followed by those still pending, are exactly the bytes pending at
  the start followed by the bytes sent, whatever the interleaving.
\<close>

locale byte_channel =
  fixes put :: "'s \<Rightarrow> u8 list \<Rightarrow> 's option"
    and get :: "'s \<Rightarrow> nat \<Rightarrow> (u8 list \<times> 's) option"
    and pending :: "'s \<Rightarrow> u8 list"
    and ok :: "'s \<Rightarrow> bool"
  assumes put_law: "\<lbrakk> ok s; put s bs = Some s' \<rbrakk> \<Longrightarrow> ok s' \<and> pending s' = pending s @ bs"
    and get_law: "\<lbrakk> ok s; get s n = Some (bs, s') \<rbrakk> \<Longrightarrow>
      ok s' \<and> bs = take n (pending s) \<and> pending s' = drop n (pending s)"
begin

text \<open>A session is a list of events: \<open>Inl bs\<close> sends \<open>bs\<close>, \<open>Inr n\<close> receives up to \<open>n\<close> bytes.\<close>

fun session :: "(u8 list + nat) list \<Rightarrow> 's \<Rightarrow> (u8 list \<times> 's) option" where
  "session [] s = Some ([], s)"
| "session (Inl bs # evs) s = Option.bind (put s bs) (session evs)"
| "session (Inr n # evs) s = Option.bind (get s n) (\<lambda>(bs, s1).
     Option.bind (session evs s1) (\<lambda>(out, s2). Some (bs @ out, s2)))"

fun sent :: "(u8 list + nat) list \<Rightarrow> u8 list" where
  "sent [] = []"
| "sent (Inl bs # evs) = bs @ sent evs"
| "sent (Inr n # evs) = sent evs"

lemma session_stream:
  assumes "ok s" "session evs s = Some (out, s')"
  shows "ok s' \<and> out @ pending s' = pending s @ sent evs"
  using assms
proof (induction evs arbitrary: s out)
  case (Cons e evs)
  show ?case
  proof (cases e)
    case (Inl bs)
    then obtain s1 where s1: "put s bs = Some s1" "session evs s1 = Some (out, s')"
      using Cons.prems(2) by (auto simp: bind_eq_Some_conv)
    then show ?thesis using Cons.IH[OF _ s1(2)] put_law[OF Cons.prems(1) s1(1)] Inl by auto
  next
    case (Inr n)
    then obtain bs s1 o2 where s1: "get s n = Some (bs, s1)" "session evs s1 = Some (o2, s')" "out = bs @ o2"
      using Cons.prems(2) by (auto simp: bind_eq_Some_conv)
    then show ?thesis
      using Cons.IH[OF _ s1(2)] get_law[OF Cons.prems(1) s1(1)] Inr by (metis append.assoc append_take_drop_id sent.simps(3))
  qed
qed simp

end

end
