(* ===== verification/Pipe_Correct.thy ===== *)
theory Pipe_Correct
  imports Pipe Process_Lists User_Memory Channel
begin

text \<open>
  Pipes are first-in first-out byte queues: the invariant of the kernel heap and of its pipes,
  the effect of writing (with growth of the buffer), reading, blocking and waking up, and the
  interface \<open>byte_channel\<close> with its consequence for any sequence of writes and reads.
\<close>

section \<open>Objects of the kernel heap\<close>

definition objs :: "kstate \<Rightarrow> u32 set" where
  "objs st = dom (pipes st) \<union> dom (fhs st) \<union> dom (bufs st) \<union> dom (mboxes st)"

definition heap_ok :: "kstate \<Rightarrow> bool" where
  "heap_ok st \<longleftrightarrow> buddy_ok (kernel_memarea st) \<and> objs st \<subseteq> dom (allocated (kernel_memarea st)) \<and>
     dom (pipes st) \<inter> dom (fhs st) = {} \<and> dom (pipes st) \<inter> dom (bufs st) = {} \<and> dom (pipes st) \<inter> dom (mboxes st) = {} \<and>
     dom (fhs st) \<inter> dom (bufs st) = {} \<and> dom (fhs st) \<inter> dom (mboxes st) = {} \<and> dom (bufs st) \<inter> dom (mboxes st) = {}"

lemma heap_okD:
  assumes "heap_ok st"
  shows "buddy_ok (kernel_memarea st)" "objs st \<subseteq> dom (allocated (kernel_memarea st))"
    "p \<in> dom (pipes st) \<Longrightarrow> p \<notin> dom (fhs st) \<union> dom (bufs st) \<union> dom (mboxes st)"
    "p \<in> dom (fhs st) \<Longrightarrow> p \<notin> dom (pipes st) \<union> dom (bufs st) \<union> dom (mboxes st)"
    "p \<in> dom (bufs st) \<Longrightarrow> p \<notin> dom (pipes st) \<union> dom (fhs st) \<union> dom (mboxes st)"
  using assms unfolding heap_ok_def by blast+

lemma knew_ok:
  assumes "heap_ok st" "knew n st = Some (p, st')"
  obtains ma where "st' = st\<lparr>kernel_memarea := ma\<rparr>" "kmalloc (kernel_memarea st) n = Some (p, ma)" "heap_ok st'"
    "p \<notin> objs st" "p \<in> dom (allocated ma)" "p \<noteq> 0"
proof -
  obtain ma where ma: "kmalloc (kernel_memarea st) n = Some (p, ma)" "st' = st\<lparr>kernel_memarea := ma\<rparr>"
    using assms(2) by (auto simp: knew_def bind_eq_Some_conv)
  note h = heap_okD(1,2)[OF assms(1)]
  have d: "dom (allocated ma) = insert p (dom (allocated (kernel_memarea st)))" "buddy_ok ma" "p \<noteq> 0"
    "p \<notin> dom (allocated (kernel_memarea st))"
    using km.alloc_dom[OF h(1) ma(1)] km.alloc_invar[OF h(1) ma(1)] km.alloc_not_null[OF h(1) ma(1)]
      km.alloc_fresh[OF h(1) ma(1)] by auto
  have "objs st' = objs st" using ma(2) by (simp add: objs_def)
  then have ok: "heap_ok st'" using assms(1) d ma(2) by (auto simp: heap_ok_def)
  have "p \<notin> objs st" using d(4) h(2) by blast
  then show ?thesis using that[OF ma(2,1) ok] d by blast
qed

lemma kdelete_ok:
  assumes "heap_ok st" "p \<in> objs st"
  obtains ma where "kdelete p st = Some (st\<lparr>kernel_memarea := ma, pipes := (pipes st)(p := None), fhs := (fhs st)(p := None),
     bufs := (bufs st)(p := None), mboxes := (mboxes st)(p := None)\<rparr>)"
    "heap_ok (st\<lparr>kernel_memarea := ma, pipes := (pipes st)(p := None), fhs := (fhs st)(p := None),
     bufs := (bufs st)(p := None), mboxes := (mboxes st)(p := None)\<rparr>)"
    "dom (allocated ma) = dom (allocated (kernel_memarea st)) - {p}"
proof -
  note h = heap_okD(1,2)[OF assms(1)]
  have "p \<in> dom (allocated (kernel_memarea st))" using assms(2) h(2) by blast
  then obtain ma where ma: "kfree (kernel_memarea st) p = Some ma" "buddy_ok ma"
    "dom (allocated ma) = dom (allocated (kernel_memarea st)) - {p}"
    using km.release_Some[OF h(1)] by blast
  let ?st = "st\<lparr>kernel_memarea := ma, pipes := (pipes st)(p := None), fhs := (fhs st)(p := None),
     bufs := (bufs st)(p := None), mboxes := (mboxes st)(p := None)\<rparr>"
  have "kdelete p st = Some ?st" using ma(1) by (simp add: kdelete_def)
  moreover have "heap_ok ?st"
    using assms(1) ma(2,3) unfolding heap_ok_def objs_def by auto
  ultimately show ?thesis using that ma(3) by blast
qed

section \<open>The invariant of pipes\<close>

definition pipes_ok :: "kstate \<Rightarrow> bool" where
  "pipes_ok st \<longleftrightarrow> heap_ok st \<and>
     (\<forall>p b. pipes st p = Some b \<longrightarrow>
        (\<exists>d. bufs st (pb_data b) = Some d \<and> length d = unat (pb_alloc b)) \<and> pb_len b \<le> pb_alloc b \<and> 1024 \<le> pb_alloc b) \<and>
     (\<forall>p q b c. pipes st p = Some b \<and> pipes st q = Some c \<and> pb_data b = pb_data c \<longrightarrow> p = q)"

definition contents :: "kstate \<Rightarrow> u32 \<Rightarrow> u8 list" where
  "contents st p = (case pipes st p of Some b \<Rightarrow> take (unat (pb_len b)) (the (bufs st (pb_data b))) | None \<Rightarrow> [])"

lemma pipes_okD:
  assumes "pipes_ok st" "pipes st p = Some b"
  shows "heap_ok st" "\<exists>d. bufs st (pb_data b) = Some d \<and> length d = unat (pb_alloc b)" "pb_len b \<le> pb_alloc b"
    "1024 \<le> pb_alloc b"
  using assms unfolding pipes_ok_def by blast+

lemma pipes_ok_inj:
  "pipes_ok st \<Longrightarrow> pipes st p = Some b \<Longrightarrow> pipes st q = Some c \<Longrightarrow> pb_data b = pb_data c \<Longrightarrow> p = q"
  unfolding pipes_ok_def by blast

lemma pipes_ok_frame:
  assumes "pipes_ok st" "kernel_memarea st' = kernel_memarea st" "pipes st' = pipes st" "fhs st' = fhs st"
    "bufs st' = bufs st" "mboxes st' = mboxes st"
  shows "pipes_ok st'" "contents st' q = contents st q"
  using assms(1) unfolding pipes_ok_def heap_ok_def objs_def contents_def assms(2-6) by - (assumption, rule refl)

lemma length_contents:
  assumes "pipes_ok st" "pipes st p = Some b" shows "length (contents st p) = unat (pb_len b)"
  using pipes_okD[OF assms] assms(2) by (auto simp: contents_def word_le_nat_alt)

text \<open>Replacing a pipe structure and the bytes of its buffer.\<close>

lemma pipes_ok_upd:
  assumes ok: "pipes_ok st" and b: "pipes st p = Some b"
    and b': "pb_data b' = pb_data b" "pb_alloc b' = pb_alloc b" "pb_len b' \<le> pb_alloc b" and d': "length d' = unat (pb_alloc b)"
  shows "pipes_ok (st\<lparr>pipes := (pipes st)(p \<mapsto> b'), bufs := (bufs st)(pb_data b \<mapsto> d')\<rparr>)"
    "q \<noteq> p \<Longrightarrow> contents (st\<lparr>pipes := (pipes st)(p \<mapsto> b'), bufs := (bufs st)(pb_data b \<mapsto> d')\<rparr>) q = contents st q"
proof -
  let ?st = "st\<lparr>pipes := (pipes st)(p \<mapsto> b'), bufs := (bufs st)(pb_data b \<mapsto> d')\<rparr>"
  obtain d where d: "bufs st (pb_data b) = Some d" using pipes_okD(2)[OF ok b] by blast
  have h: "heap_ok st" by (rule pipes_okD(1)[OF ok b])
  have dm: "dom (pipes ?st) = dom (pipes st)" "dom (bufs ?st) = dom (bufs st)" using b d by auto
  have "heap_ok ?st" using h unfolding heap_ok_def objs_def dm by simp
  moreover have "\<exists>d. bufs ?st (pb_data c) = Some d \<and> length d = unat (pb_alloc c)" "pb_len c \<le> pb_alloc c" "1024 \<le> pb_alloc c"
    if "pipes ?st q = Some c" for q c
    using that b' d' pipes_okD[OF ok b] pipes_okD[OF ok, of q c] by (auto split: if_splits)
  moreover have "q = r" if "pipes ?st q = Some c" "pipes ?st r = Some e" "pb_data c = pb_data e" for q r c e
    using that b'(1) pipes_ok_inj[OF ok] b by (auto split: if_splits)
  ultimately show "pipes_ok ?st" unfolding pipes_ok_def by blast
  show "contents ?st q = contents st q" if "q \<noteq> p"
    using that pipes_ok_inj[OF ok b, of q] by (auto simp: contents_def split: option.splits)
qed

section \<open>Growing the buffer\<close>

lemma grow_alloc_ge:
  assumes "grow_alloc need al = Some r" shows "need \<le> r"
proof (rule grow_alloc.raw_induct[where P = "\<lambda>need al r. need \<le> r", OF _ assms])
  fix f :: "u32 \<Rightarrow> u32 \<Rightarrow> u32 option" and need al r :: u32
  assume "\<And>need al r. f need al = Some r \<Longrightarrow> need \<le> r" "(if al < need then f need (al * 2) else Some al) = Some r"
  then show "need \<le> r" by (auto split: if_splits)
qed

lemma grow_alloc_returns:
  assumes "unat need \<le> 2 ^ 31" "0 < unat al"
  shows "\<exists>r. grow_alloc need al = Some r"
  using assms(2)
proof (induction "2 ^ 32 - unat al" arbitrary: al rule: less_induct)
  case less
  show ?case
  proof (cases "need > al")
    case True
    then have "unat al < 2 ^ 31" using assms(1) by (simp add: word_less_nat_alt)
    then have "unat (al * 2) = 2 * unat al" by (simp add: unat_word_ariths)
    then have "\<exists>r. grow_alloc need (al * 2) = Some r" using less unat_u32_less[of al] \<open>unat al < 2 ^ 31\<close> by simp
    then show ?thesis using True by (subst grow_alloc.simps) simp
  qed (subst grow_alloc.simps, simp)
qed

lemma new_buf_ok:
  assumes "heap_ok st" "new_buf n st = Some (p, st')"
  obtains ma d where "st' = st\<lparr>kernel_memarea := ma, bufs := (bufs st)(p \<mapsto> d)\<rparr>" "length d = unat n" "heap_ok st'"
    "p \<notin> objs st" "p \<noteq> 0"
proof -
  obtain st1 where k: "knew n st = Some (p, st1)" and
    st': "st' = st1\<lparr>bufs := (bufs st1)(p \<mapsto> map (\<lambda>i. junk st1 (p + of_nat i)) [0..<unat n])\<rparr>"
    using assms(2) by (auto simp: new_buf_def bind_eq_Some_conv)
  obtain ma where ma: "st1 = st\<lparr>kernel_memarea := ma\<rparr>" "kmalloc (kernel_memarea st) n = Some (p, ma)" "heap_ok st1"
    "p \<notin> objs st" "p \<in> dom (allocated ma)" "p \<noteq> 0" by (rule knew_ok[OF assms(1) k])
  have "heap_ok st'" using ma st' unfolding heap_ok_def objs_def by auto
  then show ?thesis using that[of "map (\<lambda>i. junk st1 (p + of_nat i)) [0..<unat n]" ma] st' ma by simp
qed

lemma grow_pipe_ok:
  assumes ok: "pipes_ok st" and b: "pipes st p = Some b"
    and gt: "pb_len b + count > pb_alloc b" and r: "grow_pipe p count st = Some st'"
  obtains ma al nd B where "st' = st\<lparr>kernel_memarea := ma, pipes := (pipes st)(p \<mapsto> b\<lparr>pb_alloc := al, pb_data := nd\<rparr>), bufs := B\<rparr>"
    "pipes_ok st'" "unat (pb_len b) + unat count < 2 ^ 32 \<longrightarrow> unat (pb_len b) + unat count \<le> unat al" "\<forall>q. contents st' q = contents st q"
proof -
  note P = pipes_okD[OF ok b]
  obtain d where d: "bufs st (pb_data b) = Some d" "length d = unat (pb_alloc b)" using P(2) by blast
  obtain al st2 nd st3 where s: "grow_alloc (pb_len b + count) (pb_alloc b) = Some al"
    "new_buf al (set_pipe p (b\<lparr>pb_alloc := al\<rparr>) st) = Some (nd, st2)"
    "buf_move nd 0 (pb_data b) 0 (unat (pb_len b)) st2 = Some st3"
    and st4: "do { st4 \<leftarrow> kdelete (pb_data b) st3; Some (set_pipe p (b\<lparr>pb_alloc := al, pb_data := nd\<rparr>) st4) } = Some st'"
    using r b by (auto simp: grow_pipe_def get_pipe_def bind_eq_Some_conv Let_def)
  let ?s1 = "set_pipe p (b\<lparr>pb_alloc := al\<rparr>) st"
  have al: "unat (pb_len b) + unat count < 2 ^ 32 \<longrightarrow> unat (pb_len b) + unat count \<le> unat al"
    using grow_alloc_ge[OF s(1)] by (auto simp: word_le_nat_alt unat_word_ariths)
  have al2: "1024 \<le> al" "pb_len b \<le> al"
    using gt grow_alloc_ge[OF s(1)] P(3,4) by simp_all
  have h1: "heap_ok ?s1" using P(1) b unfolding heap_ok_def objs_def set_pipe_def by auto
  obtain ma d2 where n: "st2 = ?s1\<lparr>kernel_memarea := ma, bufs := (bufs ?s1)(nd \<mapsto> d2)\<rparr>" "length d2 = unat al" "heap_ok st2"
    "nd \<notin> objs ?s1" "nd \<noteq> 0" by (rule new_buf_ok[OF h1 s(2)])
  have nd: "nd \<notin> dom (pipes st)" "nd \<notin> dom (bufs st)" "nd \<noteq> p" "nd \<noteq> pb_data b" "nd \<notin> dom (fhs st)" "nd \<notin> dom (mboxes st)"
    using n(4) b d(1) by (auto simp: objs_def set_pipe_def)
  have len: "unat (pb_len b) \<le> length d" "unat (pb_len b) \<le> length d2"
    using P(3) al2(2) d(2) n(2) by (simp_all add: word_le_nat_alt)
  let ?d3 = "take (unat (pb_len b)) d @ drop (unat (pb_len b)) d2"
  have st3: "st3 = st2\<lparr>bufs := (bufs st2)(nd \<mapsto> ?d3)\<rparr>"
    using s(3) n(1) nd d len by (auto simp: buf_move_def buf_get_def buf_put_def set_pipe_def)
  have h3: "heap_ok st3" using n(3) unfolding st3 heap_ok_def objs_def n(1) by auto
  have in3: "pb_data b \<in> objs st3" using d(1) nd(4) by (auto simp: objs_def st3 n(1) set_pipe_def)
  obtain ma' where k: "kdelete (pb_data b) st3 = Some (st3\<lparr>kernel_memarea := ma', pipes := (pipes st3)(pb_data b := None),
     fhs := (fhs st3)(pb_data b := None), bufs := (bufs st3)(pb_data b := None), mboxes := (mboxes st3)(pb_data b := None)\<rparr>)"
    "heap_ok (st3\<lparr>kernel_memarea := ma', pipes := (pipes st3)(pb_data b := None),
     fhs := (fhs st3)(pb_data b := None), bufs := (bufs st3)(pb_data b := None), mboxes := (mboxes st3)(pb_data b := None)\<rparr>)"
    "dom (allocated ma') = dom (allocated (kernel_memarea st3)) - {pb_data b}"
    by (rule kdelete_ok[OF h3 in3])
  let ?b' = "b\<lparr>pb_alloc := al, pb_data := nd\<rparr>" let ?B = "((bufs st)(nd \<mapsto> ?d3))(pb_data b := None)"
  have notin: "pipes st (pb_data b) = None" "fhs st (pb_data b) = None" "mboxes st (pb_data b) = None"
    using heap_okD(5)[OF P(1), of "pb_data b"] d(1) by auto
  have pne: "p \<noteq> pb_data b" using notin b by auto
  have st': "st' = st\<lparr>kernel_memarea := ma', pipes := (pipes st)(p \<mapsto> ?b'), bufs := ?B\<rparr>"
    using st4 k(1) notin pne by (auto simp: st3 n(1) set_pipe_def fun_upd_idem fun_upd_twist)
  have h': "heap_ok st'"
    using k(2) b notin pne nd unfolding heap_ok_def objs_def st' st3 n(1) set_pipe_def by (auto simp: fun_upd_idem)
  have other: "pb_data c \<noteq> nd" "pb_data c \<noteq> pb_data b" if "pipes st q = Some c" "q \<noteq> p" for q c
    using that pipes_ok_inj[OF ok b that(1)] pipes_okD(2)[OF ok that(1)] nd(2) by auto
  have "\<exists>d. bufs st' (pb_data c) = Some d \<and> length d = unat (pb_alloc c)" "pb_len c \<le> pb_alloc c" "1024 \<le> pb_alloc c"
    if c: "pipes st' q = Some c" for q c
  proof (atomize (full), cases "q = p")
    case True
    then show "(\<exists>d. bufs st' (pb_data c) = Some d \<and> length d = unat (pb_alloc c)) \<and> pb_len c \<le> pb_alloc c \<and> 1024 \<le> pb_alloc c"
      using c st' nd(4) n(2) len al2 by auto
  next
    case False
    then have "pipes st q = Some c" using c st' by simp
    then show "(\<exists>d. bufs st' (pb_data c) = Some d \<and> length d = unat (pb_alloc c)) \<and> pb_len c \<le> pb_alloc c \<and> 1024 \<le> pb_alloc c"
      using pipes_okD[OF ok, of q c] other[of q c] False st' by auto
  qed
  moreover have "q = r" if "pipes st' q = Some c" "pipes st' r = Some e" "pb_data c = pb_data e" for q r c e
    using that st' other pipes_ok_inj[OF ok] by (auto split: if_splits) metis+
  ultimately have ok': "pipes_ok st'" unfolding pipes_ok_def using h' by blast
  have "contents st' q = contents st q" for q
    using st' b d other nd(4) len by (auto simp: contents_def split: option.splits)
  then show ?thesis using that[OF st' ok' al] by blast
qed

section \<open>Waking up the reader\<close>

text \<open>A pipe remembers at most one blocked reader, which is a suspended process.\<close>

definition reader_ok :: "pipe_buffer \<Rightarrow> nat list \<Rightarrow> bool" where
  "reader_ok b ss \<longleftrightarrow> pb_readpid b = - 1 \<or> (\<exists>i \<in> set ss. pb_readpid b = int i)"

definition woken :: "pipe_buffer \<Rightarrow> nat list \<Rightarrow> nat list" where
  "woken b rs = (if pb_readpid b = - 1 then rs else nat (pb_readpid b) # rs)"

definition still_suspended :: "pipe_buffer \<Rightarrow> nat list \<Rightarrow> nat list" where
  "still_suspended b ss = (if pb_readpid b = - 1 then ss else remove1 (nat (pb_readpid b)) ss)"

lemma sched_inv_same:
  assumes "sched_inv st rs ss" "procs st' = procs st" "ready st' = ready st" "suspended st' = suspended st"
  shows "sched_inv st' rs ss"
  using assms by (simp add: sched_inv_def)

lemma wake_up_reader_ok:
  assumes inv: "sched_inv st rs ss" and b: "pipes st p = Some b" and rd: "reader_ok b ss"
  obtains l l' ps where
    "wake_up_reader p st = Some (st\<lparr>ready := l, suspended := l', procs := ps, pipes := (pipes st)(p \<mapsto> b\<lparr>pb_readpid := - 1\<rparr>)\<rparr>)"
    "sched_inv (st\<lparr>ready := l, suspended := l', procs := ps, pipes := (pipes st)(p \<mapsto> b\<lparr>pb_readpid := - 1\<rparr>)\<rparr>)
       (woken b rs) (still_suspended b ss)"
proof (cases "pb_readpid b = - 1")
  case True
  then have "b\<lparr>pb_readpid := - 1\<rparr> = b" by simp
  then have eq: "st\<lparr>ready := ready st, suspended := suspended st, procs := procs st, pipes := (pipes st)(p \<mapsto> b\<lparr>pb_readpid := - 1\<rparr>)\<rparr> = st"
    using b by (simp add: fun_upd_idem)
  show ?thesis
    by (rule that[of "procs st" "suspended st" "ready st"], unfold eq)
      (use True b inv in \<open>simp_all add: wake_up_reader_def get_pipe_def woken_def still_suspended_def\<close>)
next
  case False
  then obtain i where i: "i \<in> set ss" "pb_readpid b = int i" using rd by (auto simp: reader_ok_def)
  obtain st1 where s1: "resume_process i st = Some st1" "sched_inv st1 (i # rs) (remove1 i ss)" "same_but_lists st st1"
    "map unlink (procs st1) = map unlink ((procs st)[i := (procs st ! i)\<lparr>p_ready := True\<rparr>])"
    by (rule resume_process_ok[OF inv i(1)])
  obtain l l' ps where st1: "st1 = st\<lparr>ready := l, suspended := l', procs := ps\<rparr>" using s1(3) by (auto simp: same_but_lists_def)
  let ?st = "st\<lparr>ready := l, suspended := l', procs := ps, pipes := (pipes st)(p \<mapsto> b\<lparr>pb_readpid := - 1\<rparr>)\<rparr>"
  have "wake_up_reader p st = Some ?st"
    using b i(2) s1(1) st1 by (simp add: wake_up_reader_def get_pipe_def set_pipe_def)
  moreover have "sched_inv ?st (i # rs) (remove1 i ss)" by (rule sched_inv_same[OF s1(2)]) (simp_all add: st1)
  ultimately show ?thesis using that i(2) False by (simp add: woken_def still_suspended_def)
qed

section \<open>Writing\<close>

lemma buf_store_ok:
  assumes "bufs st p = Some d" "off + length bs \<le> length d"
  shows "buf_store p off bs st = Some (st\<lparr>bufs := (bufs st)(p \<mapsto> take off d @ bs @ drop (off + length bs) d)\<rparr>)"
  using assms by (simp add: buf_store_def buf_put_def)

text \<open>Writing into a buffer that is large enough.\<close>

lemma write_fitting:
  assumes ok: "pipes_ok st" and inv: "sched_inv st rs ss" and b: "pipes st p = Some b" and rd: "reader_ok b ss"
    and fit: "unat (pb_len b) + length buf \<le> unat (pb_alloc b)"
  defines "b' \<equiv> b\<lparr>pb_len := pb_len b + of_nat (length buf)\<rparr>"
  obtains st2 st' where "buf_store (pb_data b) (unat (pb_len b)) buf st = Some st2" "wake_up_reader p (set_pipe p b' st2) = Some st'"
    "pipes_ok st'" "contents st' p = contents st p @ buf" "\<forall>q. q \<noteq> p \<longrightarrow> contents st' q = contents st q"
    "sched_inv st' (woken b rs) (still_suspended b ss)" "pipes st' p = Some (b'\<lparr>pb_readpid := - 1\<rparr>)"
    "pgs st' = pgs st" "paging st' = paging st" "current_process st' = current_process st" "fhs st' = fhs st"
    "kernel_memarea st' = kernel_memarea st"
proof -
  obtain d where d: "bufs st (pb_data b) = Some d" "length d = unat (pb_alloc b)" using pipes_okD(2)[OF ok b] by blast
  let ?d' = "take (unat (pb_len b)) d @ buf @ drop (unat (pb_len b) + length buf) d"
  let ?s2 = "st\<lparr>bufs := (bufs st)(pb_data b \<mapsto> ?d')\<rparr>"
  have s2: "buf_store (pb_data b) (unat (pb_len b)) buf st = Some ?s2"
    using d fit by (intro buf_store_ok) simp_all
  have lb: "length buf < 2 ^ 32" using fit unat_u32_less[of "pb_alloc b"] by linarith
  have ln: "unat (pb_len b') = unat (pb_len b) + length buf"
    using fit unat_u32_less[of "pb_alloc b"] lb by (simp add: b'_def unat_word_ariths unat_of_nat)
  have s3: "set_pipe p b' ?s2 = st\<lparr>pipes := (pipes st)(p \<mapsto> b'), bufs := (bufs st)(pb_data b \<mapsto> ?d')\<rparr>" (is "_ = ?s3")
    by (simp add: set_pipe_def)
  have inv3: "sched_inv ?s3 rs ss" by (rule sched_inv_same[OF inv]) simp_all
  have rd': "reader_ok b' ss" using rd by (simp add: reader_ok_def b'_def)
  obtain l l' ps where w:
    "wake_up_reader p ?s3 = Some (?s3\<lparr>ready := l, suspended := l', procs := ps, pipes := (pipes ?s3)(p \<mapsto> b'\<lparr>pb_readpid := - 1\<rparr>)\<rparr>)"
    "sched_inv (?s3\<lparr>ready := l, suspended := l', procs := ps, pipes := (pipes ?s3)(p \<mapsto> b'\<lparr>pb_readpid := - 1\<rparr>)\<rparr>)
       (woken b' rs) (still_suspended b' ss)"
    by (rule wake_up_reader_ok[OF inv3 _ rd', of p]) simp
  let ?b2 = "b'\<lparr>pb_readpid := - 1\<rparr>"
  let ?f = "st\<lparr>pipes := (pipes st)(p \<mapsto> ?b2), bufs := (bufs st)(pb_data b \<mapsto> ?d')\<rparr>"
  let ?st' = "?s3\<lparr>ready := l, suspended := l', procs := ps, pipes := (pipes ?s3)(p \<mapsto> ?b2)\<rparr>"
  have st': "?st' = ?f\<lparr>ready := l, suspended := l', procs := ps\<rparr>" by simp
  have len': "length ?d' = unat (pb_alloc b)" using d(2) fit by simp
  have le': "pb_len ?b2 \<le> pb_alloc b" using ln fit by (simp add: word_le_nat_alt)
  have dat: "pb_data ?b2 = pb_data b" "pb_alloc ?b2 = pb_alloc b" by (simp_all add: b'_def)
  note u = pipes_ok_upd[OF ok b dat le' len']
  have pk: "pipes_ok ?st'" by (rule pipes_ok_frame(1)[OF u(1)]) simp_all
  have c: "contents ?st' q = contents ?f q" for q by (rule pipes_ok_frame(2)[OF u(1)]) simp_all
  have "contents ?st' p = contents st p @ buf"
    using d fit ln b by (simp add: contents_def b'_def)
  moreover have "\<forall>q. q \<noteq> p \<longrightarrow> contents ?st' q = contents st q" using u(2) c by simp
  moreover have "woken b' rs = woken b rs" "still_suspended b' ss = still_suspended b ss"
    by (simp_all add: woken_def still_suspended_def b'_def)
  ultimately show ?thesis using that[OF s2, unfolded s3, OF w(1) pk] w(2) by simp
qed

text \<open>
  The heap has room for the buffer that a write of \<open>n\<close> bytes needs: either the bytes fit, or
  the doubled buffer can be allocated.
\<close>

definition can_grow :: "kstate \<Rightarrow> pipe_buffer \<Rightarrow> nat \<Rightarrow> bool" where
  "can_grow st b n \<longleftrightarrow> unat (pb_len b) + n \<le> unat (pb_alloc b) \<or>
     (\<exists>al. grow_alloc (pb_len b + of_nat n) (pb_alloc b) = Some al \<and> kmalloc (kernel_memarea st) al \<noteq> None)"

lemma grow_pipe_returns:
  assumes ok: "pipes_ok st" and b: "pipes st p = Some b" and nw: "unat (pb_len b) + unat count < 2 ^ 32"
    and gt: "pb_len b + count > pb_alloc b" and al: "grow_alloc (pb_len b + count) (pb_alloc b) = Some al"
    and km: "kmalloc (kernel_memarea st) al \<noteq> None"
  shows "\<exists>st'. grow_pipe p count st = Some st'"
proof -
  note P = pipes_okD[OF ok b]
  obtain d where d: "bufs st (pb_data b) = Some d" "length d = unat (pb_alloc b)" using P(2) by blast
  obtain nd ma where k: "kmalloc (kernel_memarea st) al = Some (nd, ma)" using km by auto
  let ?s1 = "set_pipe p (b\<lparr>pb_alloc := al\<rparr>) st"
  have h1: "heap_ok ?s1" using P(1) b unfolding heap_ok_def objs_def set_pipe_def by auto
  obtain st2 where n: "new_buf al ?s1 = Some (nd, st2)"
    using k by (simp add: new_buf_def knew_def set_pipe_def)
  obtain ma2 d2 where n2: "st2 = ?s1\<lparr>kernel_memarea := ma2, bufs := (bufs ?s1)(nd \<mapsto> d2)\<rparr>" "length d2 = unat al" "heap_ok st2"
    "nd \<notin> objs ?s1" "nd \<noteq> 0" by (rule new_buf_ok[OF h1 n])
  have ne: "nd \<noteq> pb_data b" using n2(4) d(1) by (auto simp: objs_def set_pipe_def)
  have "unat (pb_len b + count) = unat (pb_len b) + unat count" using nw by (simp add: unat_word_ariths)
  then have len: "unat (pb_len b) \<le> length d" "unat (pb_len b) \<le> length d2"
    using grow_alloc_ge[OF al] P(3) d(2) n2(2) by (simp_all add: word_le_nat_alt)
  then obtain st3 where s3: "buf_move nd 0 (pb_data b) 0 (unat (pb_len b)) st2 = Some st3"
    "st3 = st2\<lparr>bufs := (bufs st2)(nd \<mapsto> take (unat (pb_len b)) d @ drop (unat (pb_len b)) d2)\<rparr>"
    using n2(1) ne d(1) by (auto simp: buf_move_def buf_get_def buf_put_def set_pipe_def)
  have h3: "heap_ok st3" using n2(3) unfolding s3(2) heap_ok_def objs_def n2(1) by auto
  have "pb_data b \<in> objs st3" using d(1) ne by (auto simp: objs_def s3(2) n2(1) set_pipe_def)
  then obtain st4 where "kdelete (pb_data b) st3 = Some st4" by (rule kdelete_ok[OF h3]) blast
  then show ?thesis using b al n s3(1) by (simp add: grow_pipe_def get_pipe_def)
qed

lemma write_to_pipe_ok:
  assumes ok: "pipes_ok st" and inv: "sched_inv st rs ss" and b: "pipes st p = Some b" and rd: "reader_ok b ss"
    and nw: "unat (pb_len b) + length buf < 2 ^ 32" and cg: "can_grow st b (length buf)"
  obtains st' where "write_to_pipe p buf st = Some st'" "pipes_ok st'" "contents st' p = contents st p @ buf"
    "\<forall>q. q \<noteq> p \<longrightarrow> contents st' q = contents st q" "sched_inv st' (woken b rs) (still_suspended b ss)"
    "\<exists>b'. pipes st' p = Some b' \<and> pb_readpid b' = - 1 \<and> pb_writing b' = pb_writing b \<and> pb_reading b' = pb_reading b \<and>
       unat (pb_len b') = unat (pb_len b) + length buf"
    "pgs st' = pgs st" "paging st' = paging st" "current_process st' = current_process st" "fhs st' = fhs st"
proof -
  let ?n = "of_nat (length buf) :: u32"
  have cnt: "unat ?n = length buf" using nw by (simp add: unat_of_nat)
  have need: "unat (pb_len b + ?n) = unat (pb_len b) + length buf" using nw cnt by (simp add: unat_word_ariths)
  obtain st1 b1 where g: "(if pb_len b + ?n > pb_alloc b then grow_pipe p ?n st else Some st) = Some st1"
    "pipes_ok st1" "sched_inv st1 rs ss" "pipes st1 p = Some b1" "pb_len b1 = pb_len b" "pb_readpid b1 = pb_readpid b"
    "pb_writing b1 = pb_writing b" "pb_reading b1 = pb_reading b"
    "unat (pb_len b) + length buf \<le> unat (pb_alloc b1)" "\<forall>q. contents st1 q = contents st q"
    "pgs st1 = pgs st" "paging st1 = paging st" "current_process st1 = current_process st" "fhs st1 = fhs st"
  proof (cases "pb_len b + ?n > pb_alloc b")
    case False
    then show ?thesis using that[of st b] ok inv b need by (simp add: word_less_nat_alt)
  next
    case True
    then obtain al where al: "grow_alloc (pb_len b + ?n) (pb_alloc b) = Some al" "kmalloc (kernel_memarea st) al \<noteq> None"
      using cg need by (auto simp: can_grow_def word_less_nat_alt)
    have nw': "unat (pb_len b) + unat ?n < 2 ^ 32" using nw cnt by simp
    obtain st1 where r: "grow_pipe p ?n st = Some st1" using grow_pipe_returns[OF ok b nw' True al] by blast
    obtain ma al' nd B where s: "st1 = st\<lparr>kernel_memarea := ma, pipes := (pipes st)(p \<mapsto> b\<lparr>pb_alloc := al', pb_data := nd\<rparr>), bufs := B\<rparr>"
      "pipes_ok st1" "unat (pb_len b) + unat ?n \<le> unat al'" "\<forall>q. contents st1 q = contents st q"
      by (rule grow_pipe_ok[OF ok b True r]) (use nw' in blast)
    have "sched_inv st1 rs ss" by (rule sched_inv_same[OF inv]) (simp_all add: s(1))
    then show ?thesis using that[of st1 "b\<lparr>pb_alloc := al', pb_data := nd\<rparr>"] True r s cnt by simp
  qed
  have rd1: "reader_ok b1 ss" using rd g(6) by (simp add: reader_ok_def)
  have fit: "unat (pb_len b1) + length buf \<le> unat (pb_alloc b1)" using g(5,9) by simp
  let ?b' = "b1\<lparr>pb_len := pb_len b1 + ?n\<rparr>"
  obtain st2 st' where w: "buf_store (pb_data b1) (unat (pb_len b1)) buf st1 = Some st2" "wake_up_reader p (set_pipe p ?b' st2) = Some st'"
    "pipes_ok st'" "contents st' p = contents st1 p @ buf" "\<forall>q. q \<noteq> p \<longrightarrow> contents st' q = contents st1 q"
    "sched_inv st' (woken b1 rs) (still_suspended b1 ss)" "pipes st' p = Some (?b'\<lparr>pb_readpid := - 1\<rparr>)"
    "pgs st' = pgs st1" "paging st' = paging st1" "current_process st' = current_process st1" "fhs st' = fhs st1"
    "kernel_memarea st' = kernel_memarea st1"
    by (rule write_fitting[OF g(2,3,4) rd1 fit])
  have "write_to_pipe p buf st = Some st'"
    using b g(1,4) w(1,2) by (simp add: write_to_pipe_def get_pipe_def Let_def)
  moreover have "woken b1 rs = woken b rs" "still_suspended b1 ss = still_suspended b ss"
    using g(6) by (simp_all add: woken_def still_suspended_def)
  ultimately show ?thesis using that w g need by simp
qed

section \<open>Reading\<close>

lemma buf_move_down:
  assumes "bufs st p = Some d" "off + n \<le> length d"
  shows "buf_move p 0 p off n st = Some (st\<lparr>bufs := (bufs st)(p \<mapsto> take n (drop off d) @ drop n d)\<rparr>)"
  using assms by (simp add: buf_move_def buf_get_def buf_put_def)

lemma read_data_ok:
  assumes ok: "pipes_ok st" and b: "pipes st p = Some b" and fh: "fh_p fh = Some p" and nr: "pb_readpid b = - 1"
    and ne: "0 < pb_len b" and us: "paging_ok st" "user_safe st buf pas" "length pas = min (unat count) (unat (pb_len b))"
  obtains st' where "pipe_reader_read_h fh buf count st = Some (sint (of_nat (length pas) :: u32), st')"
    "pipes_ok st'" "contents st' p = drop (unat count) (contents st p)" "\<forall>q. q \<noteq> p \<longrightarrow> contents st' q = contents st q"
    "pgs st' = (pgs st)\<lparr>pmem := lay (pmem (pgs st)) pas (take (unat count) (contents st p))\<rparr>"
    "read_bytes st' buf (length pas) = Some (take (unat count) (contents st p))"
    "procs st' = procs st" "ready st' = ready st" "suspended st' = suspended st" "paging st' = paging st"
    "current_process st' = current_process st" "fhs st' = fhs st"
    "\<exists>b'. pipes st' p = Some b' \<and> pb_readpid b' = - 1 \<and> pb_writing b' = pb_writing b \<and> pb_reading b' = pb_reading b"
proof -
  note P = pipes_okD[OF ok b]
  obtain d where d: "bufs st (pb_data b) = Some d" "length d = unat (pb_alloc b)" using P(2) by blast
  define copy where "copy = (if count < pb_len b then count else pb_len b)"
  have cp: "unat copy = length pas" using us(3) by (auto simp: copy_def word_less_nat_alt min_def)
  have "of_nat (unat copy) = copy" by simp
  then have cpl: "copy = of_nat (length pas)" using cp by simp
  have lenle: "unat (pb_len b) \<le> length d" using P(3) d(2) by (simp add: word_le_nat_alt)
  have ple: "length pas \<le> unat (pb_len b)" using us(3) by simp
  have ct: "contents st p = take (unat (pb_len b)) d" using b d by (simp add: contents_def)
  let ?bs = "take (length pas) d"
  have bs: "?bs = take (unat count) (contents st p)" using us(3) ct by (simp add: min_def)
  have lbs: "length ?bs = length pas" using lenle ple by simp
  let ?m = "lay (pmem (pgs st)) pas ?bs" let ?s1 = "set_pmem ?m st"
  have w: "write_bytes buf ?bs st = Some ?s1" by (rule write_bytes_ok[OF us(1,2) lbs])
  let ?n = "unat (pb_len b - copy)"
  have n: "?n = unat (pb_len b) - length pas" using cp ple by (subst unat_sub) (simp_all add: word_le_nat_alt)
  let ?d' = "if pb_len b > copy then take ?n (drop (length pas) d) @ drop ?n d else d"
  have mv: "(if pb_len b > copy then buf_move (pb_data b) 0 (pb_data b) (unat copy) ?n ?s1 else Some ?s1)
    = Some (?s1\<lparr>bufs := (bufs ?s1)(pb_data b \<mapsto> ?d')\<rparr>)"
    using buf_move_down[of ?s1 "pb_data b" d "length pas" ?n] d lenle ple n cp
    by (auto simp: fun_upd_idem set_pmem_def)
  let ?b' = "b\<lparr>pb_len := pb_len b - copy\<rparr>"
  let ?st' = "set_pipe p ?b' (?s1\<lparr>bufs := (bufs ?s1)(pb_data b \<mapsto> ?d')\<rparr>)"
  have eq: "pipe_reader_read_h fh buf count st = Some (sint (of_nat (length pas) :: u32), ?st')"
    using fh b nr ne w mv d(1) lenle ple cp cpl[symmetric]
    by (simp add: pipe_reader_read_h_def get_pipe_def buf_load_def buf_get_def Let_def flip: copy_def)
  let ?f = "st\<lparr>pipes := (pipes st)(p \<mapsto> ?b'), bufs := (bufs st)(pb_data b \<mapsto> ?d')\<rparr>"
  have fr: "kernel_memarea ?st' = kernel_memarea ?f" "pipes ?st' = pipes ?f" "fhs ?st' = fhs ?f" "bufs ?st' = bufs ?f" "mboxes ?st' = mboxes ?f"
    by (simp_all add: set_pipe_def)
  have ld: "length ?d' = unat (pb_alloc b)" using d(2) n lenle by auto
  have le: "pb_len ?b' \<le> pb_alloc b" using n P(3) by (simp add: word_le_nat_alt)
  have u: "pipes_ok ?f" "\<forall>q. q \<noteq> p \<longrightarrow> contents ?f q = contents st q"
    using pipes_ok_upd[OF ok b _ _ le ld] by auto
  note pf = pipes_ok_frame[OF u(1) fr]
  have "contents ?f p = take ?n ?d'" by (simp add: contents_def)
  also have "\<dots> = drop (unat count) (contents st p)"
    using n cp us(3) lenle ct by (auto simp: word_less_nat_alt min_def drop_take split: if_splits)
  finally have cs: "contents ?st' p = drop (unat count) (contents st p)" using pf(2) by simp
  have ws: "read_bytes ?s1 buf (length ?bs) = Some ?bs" by (rule write_bytes_state(5)[OF us(1,2) lbs])
  have rb: "read_bytes ?st' a k = read_bytes ?s1 a k" for a k
    by (rule read_bytes_frame(3)) (simp_all add: set_pipe_def set_pmem_def)
  have "read_bytes ?st' buf (length pas) = Some (take (unat count) (contents st p))" using rb ws lbs bs by simp
  then show ?thesis
    using that[OF eq pf(1) cs] u(2) pf(2) bs nr by (simp add: set_pipe_def set_pmem_def)
qed


section \<open>Pipes as byte channels\<close>

lemma user_safe_take: "user_safe st a pas \<Longrightarrow> user_safe st a (take k pas)"
  by (auto simp: user_safe_def mapped_to_def dest: in_set_takeD)

lemma write_can_grow:
  assumes "pipes st p = Some b" "unat (pb_len b) + length buf < 2 ^ 32" "write_to_pipe p buf st = Some st'"
  shows "can_grow st b (length buf)"
proof (cases "pb_len b + of_nat (length buf) > pb_alloc b")
  case True
  then obtain st1 where "grow_pipe p (of_nat (length buf)) st = Some st1"
    using assms by (auto simp: write_to_pipe_def get_pipe_def bind_eq_Some_conv Let_def)
  then show ?thesis using assms(1)
    by (auto simp: grow_pipe_def get_pipe_def bind_eq_Some_conv Let_def new_buf_def knew_def set_pipe_def can_grow_def)
next
  case False
  have "unat (of_nat (length buf) :: u32) = length buf" using assms(2) by (simp add: unat_of_nat)
  then have "unat (pb_len b + of_nat (length buf)) = unat (pb_len b) + length buf" using assms(2) by (simp add: unat_word_ariths)
  then show ?thesis using False by (simp add: can_grow_def word_less_nat_alt)
qed

text \<open>
  Sending is \<open>write_to_pipe\<close>; receiving is the read handler followed by a look at the bytes it
  has delivered to the process's buffer. A read that blocks or fails is not a completed receive.
\<close>

definition chan_put :: "u32 \<Rightarrow> kstate \<Rightarrow> u8 list \<Rightarrow> kstate option" where
  "chan_put p st bs = (if length (contents st p) + length bs < 2 ^ 32 then write_to_pipe p bs st else None)"

definition chan_get :: "filehandle \<Rightarrow> u32 \<Rightarrow> u32 list \<Rightarrow> kstate \<Rightarrow> nat \<Rightarrow> (u8 list \<times> kstate) option" where
  "chan_get fh ubuf pas st n = (if n \<le> length pas \<and> n < 2 ^ 31 then do {
     (r, st') \<leftarrow> pipe_reader_read_h fh ubuf (of_nat n) st;
     if r < 0 then None else do { bs \<leftarrow> read_bytes st' ubuf (nat r); Some (bs, st') } } else None)"

definition chan_ok :: "u32 \<Rightarrow> filehandle \<Rightarrow> u32 \<Rightarrow> u32 list \<Rightarrow> kstate \<Rightarrow> bool" where
  "chan_ok p fh ubuf pas st \<longleftrightarrow> pipes_ok st \<and> (\<exists>rs ss. sched_inv st rs ss) \<and> fh_p fh = Some p \<and>
     (\<exists>b. pipes st p = Some b \<and> pb_readpid b = - 1) \<and> paging_ok st \<and> user_safe st ubuf pas"

lemma chan_put_law:
  assumes ok: "chan_ok p fh ubuf pas st" and r: "chan_put p st bs = Some st'"
  shows "chan_ok p fh ubuf pas st' \<and> contents st' p = contents st p @ bs"
proof -
  obtain rs ss b where k: "pipes_ok st" "sched_inv st rs ss" "pipes st p = Some b" "pb_readpid b = - 1"
    "paging_ok st" "user_safe st ubuf pas" "fh_p fh = Some p"
    using ok by (auto simp: chan_ok_def)
  have w: "write_to_pipe p bs st = Some st'" and nw: "unat (pb_len b) + length bs < 2 ^ 32"
    using r length_contents[OF k(1,3)] by (auto simp: chan_put_def split: if_splits)
  have rd: "reader_ok b ss" using k(4) by (simp add: reader_ok_def)
  obtain st'' where s: "write_to_pipe p bs st = Some st''" "pipes_ok st''" "contents st'' p = contents st p @ bs"
    "\<forall>q. q \<noteq> p \<longrightarrow> contents st'' q = contents st q" "sched_inv st'' (woken b rs) (still_suspended b ss)"
    "\<exists>b'. pipes st'' p = Some b' \<and> pb_readpid b' = - 1 \<and> pb_writing b' = pb_writing b \<and> pb_reading b' = pb_reading b \<and>
       unat (pb_len b') = unat (pb_len b) + length bs"
    "pgs st'' = pgs st" "paging st'' = paging st" "current_process st'' = current_process st" "fhs st'' = fhs st"
    by (rule write_to_pipe_ok[OF k(1-3) rd nw write_can_grow[OF k(3) nw w]])
  have "st'' = st'" using s(1) w by simp
  then show ?thesis
    using s k read_bytes_frame(4,5)[OF s(7,8)] unfolding chan_ok_def by blast
qed

lemma chan_get_data:
  assumes ok: "chan_ok p fh ubuf pas st" and ne: "contents st p \<noteq> []" and n: "n \<le> length pas" "n < 2 ^ 31"
  shows "\<exists>st'. chan_get fh ubuf pas st n = Some (take n (contents st p), st') \<and> chan_ok p fh ubuf pas st' \<and>
    contents st' p = drop n (contents st p)"
proof -
  obtain rs ss b where k: "pipes_ok st" "sched_inv st rs ss" "pipes st p = Some b" "pb_readpid b = - 1"
    "paging_ok st" "user_safe st ubuf pas" "fh_p fh = Some p"
    using ok by (auto simp: chan_ok_def)
  have un: "unat (of_nat n :: u32) = n" using n(2) by (simp add: unat_of_nat)
  have True: "0 < pb_len b" using ne length_contents[OF k(1,3)] by (metis length_greater_0_conv unat_gt_0 word_neq_0_conv)
  let ?k = "min n (unat (pb_len b))" let ?ps = "take ?k pas"
  have lp: "length ?ps = min (unat (of_nat n :: u32)) (unat (pb_len b))" using n un by simp
  obtain st1 where s: "pipe_reader_read_h fh ubuf (of_nat n) st = Some (sint (of_nat (length ?ps) :: u32), st1)"
    "pipes_ok st1" "contents st1 p = drop (unat (of_nat n :: u32)) (contents st p)" "\<forall>q. q \<noteq> p \<longrightarrow> contents st1 q = contents st q"
    "pgs st1 = (pgs st)\<lparr>pmem := lay (pmem (pgs st)) ?ps (take (unat (of_nat n :: u32)) (contents st p))\<rparr>"
    "read_bytes st1 ubuf (length ?ps) = Some (take (unat (of_nat n :: u32)) (contents st p))"
    "procs st1 = procs st" "ready st1 = ready st" "suspended st1 = suspended st" "paging st1 = paging st"
    "current_process st1 = current_process st" "fhs st1 = fhs st"
    "\<exists>b'. pipes st1 p = Some b' \<and> pb_readpid b' = - 1 \<and> pb_writing b' = pb_writing b \<and> pb_reading b' = pb_reading b"
    by (rule read_data_ok[OF k(1,3,7,4) True k(5) user_safe_take[OF k(6)] lp])
  have "sint (of_nat (length ?ps) :: u32) = int (length ?ps)"
    using n by (subst signed_of_nat) (simp add: signed_take_bit_int_eq_self)
  then have res: "chan_get fh ubuf pas st n = Some (take n (contents st p), st1)"
    using s(1,6) un n by (auto simp: chan_get_def)
  have lc: "length (take n (contents st p)) = length ?ps" using length_contents[OF k(1,3)] n by simp
  note ws = write_bytes_state[OF k(5) user_safe_take[OF k(6)] lc]
  let ?w = "set_pmem (lay (pmem (pgs st)) ?ps (take n (contents st p))) st"
  have pg: "pgs st1 = pgs ?w" "paging st1 = paging ?w" using s(5,10) un by (simp_all add: set_pmem_def)
  have "paging_ok st1" "user_safe st1 ubuf pas"
    using read_bytes_frame(4,5)[OF pg] ws(1,4) k(6) by simp_all
  moreover have "sched_inv st1 rs ss" by (rule sched_inv_same[OF k(2) s(7,8,9)])
  ultimately show ?thesis using s(2,3,13) res un k(7) unfolding chan_ok_def by auto
qed

lemma chan_get_law:
  assumes ok: "chan_ok p fh ubuf pas st" and r: "chan_get fh ubuf pas st n = Some (bs, st')"
  shows "chan_ok p fh ubuf pas st' \<and> bs = take n (contents st p) \<and> contents st' p = drop n (contents st p)"
proof (cases "contents st p = []")
  case True
  obtain rs ss b where k: "pipes_ok st" "sched_inv st rs ss" "pipes st p = Some b" "pb_readpid b = - 1" "fh_p fh = Some p"
    using ok by (auto simp: chan_ok_def)
  have l0: "pb_len b = 0" using True length_contents[OF k(1,3)] by (simp add: unsigned_eq_0_iff)
  have "st' = st \<and> bs = []"
  proof (cases "pb_writing b")
    case False
    then show ?thesis using r l0 k by (auto simp: chan_get_def pipe_reader_read_h_def get_pipe_def split: if_splits)
  next
    case True
    then show ?thesis using r l0 k
      by (auto simp: chan_get_def pipe_reader_read_h_def get_pipe_def bind_eq_Some_conv ESUSPEND_def split: if_splits)
  qed
  then show ?thesis using ok True by simp
next
  case False
  have "n \<le> length pas" "n < 2 ^ 31" using r by (auto simp: chan_get_def split: if_splits)
  from chan_get_data[OF ok False this] show ?thesis using r by auto
qed

interpretation pc: byte_channel "chan_put p" "chan_get fh ubuf pas" "\<lambda>st. contents st p" "chan_ok p fh ubuf pas" for p fh ubuf pas
  by unfold_locales (erule (1) chan_put_law, erule (1) chan_get_law)

section \<open>New pipes\<close>

lemma new_pipe_ok:
  assumes ok: "pipes_ok st" and r: "new_pipe st = Some (p, st')"
  obtains d ma B where "st' = st\<lparr>kernel_memarea := ma, pipes := (pipes st)(p \<mapsto> \<lparr>pb_reading = True, pb_writing = True,
      pb_alloc = BUFSIZE, pb_len = 0, pb_readpid = - 1, pb_data = d\<rparr>), bufs := B\<rparr>" "pipes_ok st'"
    "pipes st p = None" "contents st' p = []" "\<forall>q. q \<noteq> p \<longrightarrow> contents st' q = contents st q" "p \<noteq> 0"
proof -
  have h: "heap_ok st" using ok by (simp add: pipes_ok_def)
  obtain st1 d st2 where s: "knew 24 st = Some (p, st1)" "new_buf BUFSIZE st1 = Some (d, st2)"
    and st': "st' = set_pipe p \<lparr>pb_reading = True, pb_writing = True, pb_alloc = BUFSIZE, pb_len = 0,
                          pb_readpid = - 1, pb_data = d\<rparr> st2" (is "_ = set_pipe p ?b st2")
    using r by (auto simp: new_pipe_def bind_eq_Some_conv)
  obtain ma1 where k: "st1 = st\<lparr>kernel_memarea := ma1\<rparr>" "kmalloc (kernel_memarea st) 24 = Some (p, ma1)" "heap_ok st1"
    "p \<notin> objs st" "p \<in> dom (allocated ma1)" "p \<noteq> 0" by (rule knew_ok[OF h s(1)])
  obtain st15 where kd: "knew BUFSIZE st1 = Some (d, st15)" and
    st2': "st2 = st15\<lparr>bufs := (bufs st15)(d \<mapsto> map (\<lambda>i. junk st15 (d + of_nat i)) [0..<unat BUFSIZE])\<rparr>"
    using s(2) by (auto simp: new_buf_def bind_eq_Some_conv)
  obtain ma2 where k2: "st15 = st1\<lparr>kernel_memarea := ma2\<rparr>" "kmalloc (kernel_memarea st1) BUFSIZE = Some (d, ma2)" "heap_ok st15"
    "d \<notin> objs st1" "d \<in> dom (allocated ma2)" "d \<noteq> 0" by (rule knew_ok[OF k(3) kd])
  have bm: "buddy_ok (kernel_memarea st1)" using k(3) by (simp add: heap_ok_def)
  have dm: "dom (allocated ma2) = insert d (dom (allocated ma1))" "d \<notin> dom (allocated ma1)"
    using km.alloc_dom[OF bm k2(2)] km.alloc_fresh[OF bm k2(2)] k(1) by auto
  have ne: "d \<noteq> p" "p \<in> dom (allocated ma2)" using dm k(5) by auto
  let ?bs = "map (\<lambda>i. junk st15 (d + of_nat i)) [0..<unat BUFSIZE]"
  have eq: "st' = st\<lparr>kernel_memarea := ma2, pipes := (pipes st)(p \<mapsto> ?b), bufs := (bufs st)(d \<mapsto> ?bs)\<rparr>"
    by (simp add: st' set_pipe_def st2' k2(1) k(1))
  have po: "p \<notin> dom (pipes st)" "p \<notin> dom (bufs st)" "p \<notin> dom (fhs st)" "p \<notin> dom (mboxes st)" using k(4) by (auto simp: objs_def)
  have do: "d \<notin> dom (pipes st)" "d \<notin> dom (bufs st)" "d \<notin> dom (fhs st)" "d \<notin> dom (mboxes st)" using k2(4) k(1) by (auto simp: objs_def)
  have h': "heap_ok st'"
  proof -
    have "heap_ok (st\<lparr>kernel_memarea := ma2\<rparr>)" using k2(3) k2(1) k(1) by simp
    then show ?thesis unfolding eq heap_ok_def objs_def using po do ne k2(5) by auto
  qed
  have other: "pb_data c \<noteq> d" if "pipes st q = Some c" for q c using pipes_okD(2)[OF ok that] do(2) by auto
  have "\<exists>d. bufs st' (pb_data c) = Some d \<and> length d = unat (pb_alloc c)" "pb_len c \<le> pb_alloc c" "1024 \<le> pb_alloc c"
    if "pipes st' q = Some c" for q c
    using that pipes_okD[OF ok, of q c] other[of q c] by (auto simp: eq BUFSIZE_def split: if_splits)
  moreover have "q = r" if "pipes st' q = Some c" "pipes st' r = Some e" "pb_data c = pb_data e" for q r c e
    using that other[of q c] other[of r e] pipes_ok_inj[OF ok, of q c r e] by (auto simp: eq split: if_splits)
  ultimately have ok': "pipes_ok st'" unfolding pipes_ok_def using h' by blast
  have "contents st' q = contents st q" if "q \<noteq> p" for q
    using that other by (auto simp: eq contents_def split: option.splits)
  moreover have "contents st' p = []" by (simp add: eq contents_def)
  moreover have "pipes st p = None" using po(1) by blast
  ultimately show ?thesis using that[OF eq ok'] k(6) by blast
qed

section \<open>Properties of pipes\<close>

text \<open>The example of the witnesses: the three processes with one pipe, process 1 running.\<close>

lemma example_pipes_ok: "pipes_ok example_kstate"
proof -
  have "\<exists>ma. buddy_init 12 0x200000 (\<lambda>_. 0) = Some ma \<and> buddy_ok ma"
    using buddy_init_inv[of 12 "0x200000" "\<lambda>_. 0"] by (auto simp: DEFAULT_LOWER_def)
  then show ?thesis by (auto simp: pipes_ok_def heap_ok_def objs_def example_kstate_def)
qed

definition example_pipe :: u32 where "example_pipe = fst (the (new_pipe example_kstate))"
definition example_pipe_state :: kstate where "example_pipe_state = snd (the (new_pipe example_kstate))"

lemma example_new_pipe: "new_pipe example_kstate = Some (example_pipe, example_pipe_state)"
proof -
  let ?ma = "the (buddy_init 12 0x200000 (\<lambda>_. 0))"
  have "(case kmalloc ?ma 24 of None \<Rightarrow> False | Some (p, ma) \<Rightarrow> kmalloc ma BUFSIZE \<noteq> None)" by code_simp
  then have "new_pipe example_kstate \<noteq> None"
    by (auto simp: new_pipe_def knew_def new_buf_def example_kstate_def split: option.splits)
  then show ?thesis by (auto simp: example_pipe_def example_pipe_state_def)
qed

lemma example_pipe_state_ok:
  "pipes_ok example_pipe_state" "sched_inv example_pipe_state [1, 2] [3]" "contents example_pipe_state example_pipe = []"
  "\<exists>b. pipes example_pipe_state example_pipe = Some b \<and> pb_readpid b = - 1 \<and> pb_writing b \<and> pb_len b = 0 \<and> pb_alloc b = 1024"
  "current_process example_pipe_state = Some 1" "paging example_pipe_state = None" "procs example_pipe_state = example_procs"
proof -
  obtain d ma B where e: "example_pipe_state = example_kstate\<lparr>kernel_memarea := ma,
      pipes := (pipes example_kstate)(example_pipe \<mapsto> \<lparr>pb_reading = True, pb_writing = True,
      pb_alloc = BUFSIZE, pb_len = 0, pb_readpid = - 1, pb_data = d\<rparr>), bufs := B\<rparr>" "pipes_ok example_pipe_state"
    "pipes example_kstate example_pipe = None" "contents example_pipe_state example_pipe = []"
    "\<forall>q. q \<noteq> example_pipe \<longrightarrow> contents example_pipe_state q = contents example_kstate q" "example_pipe \<noteq> 0"
    by (rule new_pipe_ok[OF example_pipes_ok example_new_pipe])
  show "pipes_ok example_pipe_state" "contents example_pipe_state example_pipe = []" by (rule e)+
  show "sched_inv example_pipe_state [1, 2] [3]" by (rule sched_inv_same[OF example_inv]) (simp_all add: e(1))
  show "\<exists>b. pipes example_pipe_state example_pipe = Some b \<and> pb_readpid b = - 1 \<and> pb_writing b \<and> pb_len b = 0 \<and> pb_alloc b = 1024"
    by (simp add: e(1) BUFSIZE_def)
  show "current_process example_pipe_state = Some 1" "paging example_pipe_state = None" "procs example_pipe_state = example_procs"
    by (simp_all add: e(1) example_kstate_def)
qed

definition example_reader :: filehandle where
  "example_reader = \<lparr>fh_type = FH_PIPE_READER, refcount = 1, fh_write = pipe_reader_write, fh_read = pipe_reader_read,
     fh_destroy = pipe_reader_destroy, fh_p = Some example_pipe, fh_entry = None, fh_pos = None, fh_entryno = None\<rparr>"

lemma example_write:
  assumes "length bs \<le> 1024"
  obtains st b where "write_to_pipe example_pipe bs example_pipe_state = Some st" "contents st example_pipe = bs"
    "pipes st example_pipe = Some b" "pb_readpid b = - 1" "pipes_ok st" "paging st = None"
proof -
  obtain b where b: "pipes example_pipe_state example_pipe = Some b" "pb_readpid b = - 1" "pb_len b = 0" "pb_alloc b = 1024"
    using example_pipe_state_ok(4) by blast
  have rd: "reader_ok b [3]" and cg: "can_grow example_pipe_state b (length bs)" and
    nw: "unat (pb_len b) + length bs < 2 ^ 32" using b assms by (simp_all add: reader_ok_def can_grow_def)
  show ?thesis
    by (rule write_to_pipe_ok[OF example_pipe_state_ok(1,2) b(1) rd nw cg])
      (use that example_pipe_state_ok(3,6) in auto)
qed

lemma example_user_safe:
  assumes "paging st = None" shows "paging_ok st" "user_safe st 0x1000 [0x1000, 0x1001]" "user_safe st 0x1000 [0x1000]"
  using assms by (auto simp: user_safe_def mapped_to_def phys_def table_pages_def paging_ok_def less_Suc_eq)

text \<open>C15: Writing to a pipe appends exactly the given bytes, growing the buffer when needed, changes no
  other pipe, and wakes the process that was blocked reading it: the reader moves from the
  suspended list to the front of the ready list. The write succeeds whenever the kernel heap can
  supply the larger buffer.\<close>

theorem write_to_pipe_fifo:
  assumes "pipes_ok st" "sched_inv st rs ss" "pipes st p = Some b" "reader_ok b ss"
    "length (contents st p) + length buf < 2 ^ 32" "can_grow st b (length buf)"
  shows "\<exists>st'. write_to_pipe p buf st = Some st' \<and> pipes_ok st' \<and> contents st' p = contents st p @ buf \<and>
     (\<forall>q. q \<noteq> p \<longrightarrow> contents st' q = contents st q) \<and> sched_inv st' (woken b rs) (still_suspended b ss)"
proof -
  have nw: "unat (pb_len b) + length buf < 2 ^ 32" using assms(5) length_contents[OF assms(1,3)] by simp
  show ?thesis by (rule write_to_pipe_ok[OF assms(1-4) nw assms(6)]) blast
qed

theorem write_to_pipe_fifo_witness:
  "\<exists>st'. write_to_pipe example_pipe [104, 105] example_pipe_state = Some st' \<and> contents st' example_pipe = [104, 105]"
proof -
  obtain b where b: "pipes example_pipe_state example_pipe = Some b" "pb_readpid b = - 1" "pb_len b = 0" "pb_alloc b = 1024"
    using example_pipe_state_ok(4) by blast
  have "reader_ok b [3]" "can_grow example_pipe_state b (length [104::u8, 105])" using b by (simp_all add: reader_ok_def can_grow_def)
  from write_to_pipe_fifo[OF example_pipe_state_ok(1,2) b(1) this(1) _ this(2)] show ?thesis
    using example_pipe_state_ok(3) by auto
qed

text \<open>C16: A read of a pipe that holds data returns the number of bytes delivered, the smaller of the
  requested size and what is there; those bytes are the oldest of the pipe, they are in the
  caller's buffer afterwards, exactly they leave the pipe, and no other byte of memory changes.\<close>

theorem pipe_read_delivers:
  assumes "pipes_ok st" "pipes st p = Some b" "fh_p fh = Some p" "pb_readpid b = - 1" "contents st p \<noteq> []"
    "paging_ok st" "user_safe st buf pas" "length pas = min (unat count) (length (contents st p))" "length pas < 2 ^ 31"
  shows "\<exists>st'. pipe_reader_read_h fh buf count st = Some (int (length pas), st') \<and> pipes_ok st' \<and>
     read_bytes st' buf (length pas) = Some (take (unat count) (contents st p)) \<and>
     contents st' p = drop (unat count) (contents st p) \<and> (\<forall>q. q \<noteq> p \<longrightarrow> contents st' q = contents st q) \<and>
     (\<forall>x. x \<notin> set pas \<longrightarrow> pmem (pgs st') x = pmem (pgs st) x)"
proof -
  have ne: "0 < pb_len b" using assms(5) length_contents[OF assms(1,2)] by (metis length_greater_0_conv unat_gt_0 word_neq_0_conv)
  have lp: "length pas = min (unat count) (unat (pb_len b))" using assms(8) length_contents[OF assms(1,2)] by simp
  obtain st' where s: "pipe_reader_read_h fh buf count st = Some (sint (of_nat (length pas) :: u32), st')"
    "pipes_ok st'" "contents st' p = drop (unat count) (contents st p)" "\<forall>q. q \<noteq> p \<longrightarrow> contents st' q = contents st q"
    "pgs st' = (pgs st)\<lparr>pmem := lay (pmem (pgs st)) pas (take (unat count) (contents st p))\<rparr>"
    "read_bytes st' buf (length pas) = Some (take (unat count) (contents st p))"
    "procs st' = procs st" "ready st' = ready st" "suspended st' = suspended st" "paging st' = paging st"
    "current_process st' = current_process st" "fhs st' = fhs st"
    "\<exists>b'. pipes st' p = Some b' \<and> pb_readpid b' = - 1 \<and> pb_writing b' = pb_writing b \<and> pb_reading b' = pb_reading b"
    by (rule read_data_ok[OF assms(1-4) ne assms(6,7) lp])
  have "sint (of_nat (length pas) :: u32) = int (length pas)"
    using assms(9) by (subst signed_of_nat) (simp add: signed_take_bit_int_eq_self)
  then show ?thesis using s lay_other by auto
qed

theorem pipe_read_delivers_witness:
  "\<exists>st st'. write_to_pipe example_pipe [104, 105] example_pipe_state = Some st \<and>
     pipe_reader_read_h example_reader 0x1000 1 st = Some (1, st') \<and> read_bytes st' 0x1000 1 = Some [104] \<and>
     contents st' example_pipe = [105]"
proof -
  obtain st b where s: "write_to_pipe example_pipe [104, 105] example_pipe_state = Some st"
    "contents st example_pipe = [104, 105]" "pipes st example_pipe = Some b" "pb_readpid b = - 1" "pipes_ok st" "paging st = None"
    by (rule example_write[of "[104, 105]"]) simp_all
  from pipe_read_delivers[OF s(5,3) _ s(4) _ example_user_safe(1,3)[OF s(6)], of example_reader 1] show ?thesis
    using s(1,2) by (auto simp: example_reader_def)
qed



text \<open>C14: Pipes are streams: for any interleaving of writes and completed reads, the bytes received in
  order, followed by the bytes still in the pipe, are exactly the bytes that were in the pipe at
  the start followed by all bytes written. Nothing is lost, duplicated or reordered.\<close>

theorem pipe_stream:
  assumes "chan_ok p fh ubuf pas st" "pc.session p fh ubuf pas evs st = Some (out, st')"
  shows "out @ contents st' p = contents st p @ pc.sent evs"
  using pc.session_stream[OF assms] by blast

theorem pipe_stream_witness:
  "\<exists>st'. pc.session example_pipe example_reader 0x1000 [0x1000, 0x1001] [Inl [1, 2, 3], Inr 2] example_pipe_state = Some ([1, 2], st') \<and>
     [1, 2] @ contents st' example_pipe = [1, 2, 3]"
proof -
  have ok: "chan_ok example_pipe example_reader 0x1000 [0x1000, 0x1001] example_pipe_state"
    using example_pipe_state_ok(1,2,4) example_user_safe[OF example_pipe_state_ok(6)] by (auto simp: chan_ok_def example_reader_def)
  obtain st b where s: "write_to_pipe example_pipe [1, 2, 3] example_pipe_state = Some st"
    "contents st example_pipe = [1, 2, 3]" "pipes st example_pipe = Some b" "pb_readpid b = - 1" "pipes_ok st" "paging st = None"
    by (rule example_write[of "[1, 2, 3]"]) simp_all
  have put: "chan_put example_pipe example_pipe_state [1, 2, 3] = Some st"
    using s(1) example_pipe_state_ok(3) by (simp add: chan_put_def)
  have ok1: "chan_ok example_pipe example_reader 0x1000 [0x1000, 0x1001] st" using chan_put_law[OF ok put] by blast
  obtain st' where g: "chan_get example_reader 0x1000 [0x1000, 0x1001] st 2 = Some ([1, 2], st')"
    using chan_get_data[OF ok1, of 2] s(2) by auto
  have e: "pc.session example_pipe example_reader 0x1000 [0x1000, 0x1001] [Inl [1, 2, 3], Inr 2] example_pipe_state = Some ([1, 2], st')"
    using put g by (simp add: pc.session.simps)
  have "[1, 2] @ contents st' example_pipe = contents example_pipe_state example_pipe @ pc.sent [Inl [1, 2, 3], Inr 2]"
    by (rule pipe_stream[OF ok e])
  then show ?thesis using e example_pipe_state_ok(3) by (simp add: pc.sent.simps)
qed

end
