(* ===== verification/Libc.thy ===== *)
theory Libc
  imports RPrelude
begin

text \<open>
  The C library of RhythmOS (libc.c), used by the kernel and by the programs.

  A pointer that is only read is modelled by what can be read through it: \<open>s i\<close> is the byte
  \<open>s[i]\<close>, or \<open>None\<close> where the access is outside the object. \<open>arr\<close> makes such a pointer from an
  array and \<open>mem_ptr\<close> from an address of a memory. An array that is written is a list of its
  bytes; a write outside it stops. Scanning loops that need a terminator are partial functions:
  without a terminator they have no result. The functions \<open>strcat\<close> (whose loop modifies and
  reads \<open>dest\<close> without a sequence point, which C leaves undefined), \<open>perror\<close>, \<open>puts\<close> and the
  directory functions are not modelled.
\<close>

type_synonym cptr = "nat \<Rightarrow> u8 option"
type_synonym vmem = "u32 \<Rightarrow> u8 option"

definition arr :: "u8 list \<Rightarrow> cptr" where "arr xs = list_get xs"
definition mem_ptr :: "vmem \<Rightarrow> u32 \<Rightarrow> cptr" where "mem_ptr m a = (\<lambda>i. m (a + of_nat i))"
definition ptr_add :: "cptr \<Rightarrow> nat \<Rightarrow> cptr" where "ptr_add s k = (\<lambda>i. s (k + i))"

text \<open>The bytes of a string literal, without its terminator.\<close>

definition lit :: "string \<Rightarrow> u8 list" where "lit = map of_char"

section \<open>Error names\<close>

definition ERRNO_MAX :: int where "ERRNO_MAX = 14"

definition error_names :: "string list" where
  "error_names = [''Success'', '''', ''Bad file descriptor'', ''Invalid argument'', ''No such process'',
     ''Operation not permitted'', ''No such file or directory'', ''Too many open files'', ''Is a directory'',
     ''Not a directory'', ''Function not implemented'', ''Not enough space'', ''Bad address'',
     ''Resource unavailable, try again'', ''No child processes'']"

definition strerror :: "int \<Rightarrow> string option" where
  "strerror errnum = (if 0 > errnum \<or> ERRNO_MAX < errnum then Some ''Unknown error'' else list_get error_names (nat errnum))"

section \<open>Memory\<close>

definition put8 :: "u32 \<Rightarrow> u8 \<Rightarrow> vmem \<Rightarrow> vmem option" where
  "put8 a v m = (case m a of None \<Rightarrow> None | Some _ \<Rightarrow> Some (m(a \<mapsto> v)))"

definition memset :: "u32 \<Rightarrow> int \<Rightarrow> u32 \<Rightarrow> vmem \<Rightarrow> vmem option" where
  "memset b c len m = fold_opt (\<lambda>i. put8 (b + of_nat i) (of_int c)) [0..<unat len] m"

definition memmove :: "u32 \<Rightarrow> u32 \<Rightarrow> u32 \<Rightarrow> vmem \<Rightarrow> vmem option" where
  "memmove dest src len m = fold_opt (\<lambda>pos m. do { v \<leftarrow> m (src + of_nat pos); put8 (dest + of_nat pos) v m }) [0..<unat len] m"

definition memcpy :: "u32 \<Rightarrow> u32 \<Rightarrow> u32 \<Rightarrow> vmem \<Rightarrow> vmem option" where
  "memcpy dest src len m = memmove dest src len m"

section \<open>Strings\<close>

partial_function (option) strlen_from :: "cptr \<Rightarrow> nat \<Rightarrow> nat option" where
  "strlen_from s len = do { c \<leftarrow> s len; if c \<noteq> 0 then strlen_from s (len + 1) else Some len }"
declare strlen_from.simps [code]

definition strlen :: "cptr \<Rightarrow> nat option" where "strlen s = strlen_from s 0"

text \<open>Characters are signed; \<open>ch\<close> is an \<open>int\<close>. The result is the offset of the match, \<open>None\<close> for NULL.\<close>

partial_function (option) strchr_from :: "cptr \<Rightarrow> int \<Rightarrow> nat \<Rightarrow> nat option option" where
  "strchr_from s ch i = do {
     c \<leftarrow> s i;
     if c \<noteq> 0 then (if sint c = ch then Some (Some i) else strchr_from s ch (i + 1))
     else Some (if sint c = ch then Some i else None) }"
declare strchr_from.simps [code]

definition strchr :: "cptr \<Rightarrow> int \<Rightarrow> nat option option" where "strchr s ch = strchr_from s ch 0"

partial_function (option) strcmp_from :: "cptr \<Rightarrow> cptr \<Rightarrow> nat \<Rightarrow> int option" where
  "strcmp_from s1 s2 pos = do {
     a \<leftarrow> s1 pos;
     b \<leftarrow> s2 pos;
     if a \<noteq> 0 \<and> b \<noteq> 0 then
       (if a \<noteq> b then Some (sint a - sint b) else strcmp_from s1 s2 (pos + 1))
     else Some (if a \<noteq> 0 then - 1 else if b \<noteq> 0 then 1 else 0) }"
declare strcmp_from.simps [code]

definition strcmp :: "cptr \<Rightarrow> cptr \<Rightarrow> int option" where "strcmp s1 s2 = strcmp_from s1 s2 0"

text \<open>The last argument counts down the characters still to compare.\<close>

primrec strncmp_from :: "cptr \<Rightarrow> cptr \<Rightarrow> nat \<Rightarrow> nat \<Rightarrow> int option" where
  "strncmp_from s1 s2 pos 0 = Some 0"
| "strncmp_from s1 s2 pos (Suc k) = do {
     a \<leftarrow> s1 pos;
     b \<leftarrow> s2 pos;
     if a \<noteq> 0 \<and> b \<noteq> 0 then
       (if a \<noteq> b then Some (sint a - sint b) else strncmp_from s1 s2 (pos + 1) k)
     else Some (if b \<noteq> 0 then - 1 else 1) }"

definition strncmp :: "cptr \<Rightarrow> cptr \<Rightarrow> nat \<Rightarrow> int option" where "strncmp s1 s2 n = strncmp_from s1 s2 0 n"

partial_function (option) strcpy_from :: "u8 list \<Rightarrow> cptr \<Rightarrow> nat \<Rightarrow> u8 list option" where
  "strcpy_from dest src i = do {
     c \<leftarrow> src i;
     if c \<noteq> 0 then do { dest1 \<leftarrow> list_put dest i c; strcpy_from dest1 src (i + 1) }
     else list_put dest i 0 }"
declare strcpy_from.simps [code]

definition strcpy :: "u8 list \<Rightarrow> cptr \<Rightarrow> u8 list option" where "strcpy dest src = strcpy_from dest src 0"

primrec strncpy_pad :: "u8 list \<Rightarrow> nat \<Rightarrow> nat \<Rightarrow> u8 list option" where
  "strncpy_pad dest i 0 = Some dest"
| "strncpy_pad dest i (Suc k) = do { dest1 \<leftarrow> list_put dest i 0; strncpy_pad dest1 (i + 1) k }"

primrec strncpy_from :: "u8 list \<Rightarrow> cptr \<Rightarrow> nat \<Rightarrow> nat \<Rightarrow> u8 list option" where
  "strncpy_from dest src i 0 = Some dest"
| "strncpy_from dest src i (Suc k) = do {
     c \<leftarrow> src i;
     if c \<noteq> 0 then do { dest1 \<leftarrow> list_put dest i c; strncpy_from dest1 src (i + 1) k }
     else strncpy_pad dest i (Suc k) }"

definition strncpy :: "u8 list \<Rightarrow> cptr \<Rightarrow> nat \<Rightarrow> u8 list option" where "strncpy dest src n = strncpy_from dest src 0 n"

text \<open>\<open>strncat\<close>: the copying loop starts at the terminator of \<open>dest\<close>; it runs at least once.\<close>

primrec strncat_copy :: "u8 list \<Rightarrow> nat \<Rightarrow> cptr \<Rightarrow> nat \<Rightarrow> nat \<Rightarrow> u8 list option" where
  "strncat_copy dest d src s 0 = list_put dest d 0"
| "strncat_copy dest d src s (Suc k) = do {
     c \<leftarrow> src s;
     dest1 \<leftarrow> list_put dest d c;
     if c = 0 then list_put dest1 d 0 else strncat_copy dest1 (d + 1) src (s + 1) k }"

definition strncat :: "u8 list \<Rightarrow> cptr \<Rightarrow> nat \<Rightarrow> u8 list option" where
  "strncat dest src n = (if n \<noteq> 0 then do { d \<leftarrow> strlen (arr dest); strncat_copy dest d src 0 n } else Some dest)"

text \<open>\<open>strpbrk\<close> runs until the character \<open>'0'\<close> (0x30), not until the terminator.\<close>

partial_function (option) strpbrk_from :: "cptr \<Rightarrow> cptr \<Rightarrow> nat \<Rightarrow> nat option option" where
  "strpbrk_from s acc i = do {
     c \<leftarrow> s i;
     if c \<noteq> 0x30 then do {
       w \<leftarrow> strchr acc (sint c);
       case w of None \<Rightarrow> strpbrk_from s acc (i + 1) | Some _ \<Rightarrow> Some (Some i) }
     else Some None }"
declare strpbrk_from.simps [code]

definition strpbrk :: "cptr \<Rightarrow> cptr \<Rightarrow> nat option option" where "strpbrk s acc = strpbrk_from s acc 0"

partial_function (option) accepts_from :: "cptr \<Rightarrow> u8 \<Rightarrow> nat \<Rightarrow> bool option" where
  "accepts_from acc c a = do {
     x \<leftarrow> acc a;
     if x = 0 then Some False else if c = x then Some True else accepts_from acc c (a + 1) }"
declare accepts_from.simps [code]

partial_function (option) strspn_from :: "cptr \<Rightarrow> cptr \<Rightarrow> nat \<Rightarrow> nat option" where
  "strspn_from s acc p = do {
     c \<leftarrow> s p;
     if c = 0 then Some p else do {
       ok \<leftarrow> accepts_from acc c 0;
       if \<not> ok then Some p else strspn_from s acc (p + 1) } }"
declare strspn_from.simps [code]

definition strspn :: "cptr \<Rightarrow> cptr \<Rightarrow> nat option" where "strspn s acc = strspn_from s acc 0"

text \<open>
  \<open>strtok\<close> on an array: \<open>s\<close> and the static variable \<open>olds\<close> are offsets into it, \<open>None\<close> for NULL. The
  result is the token, the array and the new \<open>olds\<close>.
\<close>

definition strtok :: "nat option \<Rightarrow> cptr \<Rightarrow> u8 list \<Rightarrow> nat option \<Rightarrow> (nat option \<times> u8 list \<times> nat option) option" where
  "strtok s delim str olds = (case (case s of None \<Rightarrow> olds | Some _ \<Rightarrow> s) of
       None \<Rightarrow> Some (None, str, olds)
     | Some s0 \<Rightarrow> do {
         n \<leftarrow> strspn (ptr_add (arr str) s0) delim;
         let s1 = s0 + n;
         c \<leftarrow> arr str s1;
         if c = 0 then Some (None, str, None)
         else do {
           w \<leftarrow> strpbrk (ptr_add (arr str) s1) delim;
           case w of
             None \<Rightarrow> Some (Some s1, str, None)
           | Some k \<Rightarrow> do {
               str1 \<leftarrow> list_put str (s1 + k) 0;
               Some (Some s1, str1, Some (s1 + k + 1)) } } })"

section \<open>Numbers\<close>

partial_function (option) atoi_skip :: "cptr \<Rightarrow> nat \<Rightarrow> nat option" where
  "atoi_skip s i = do { c \<leftarrow> s i; if c = 0x20 \<or> c = 9 then atoi_skip s (i + 1) else Some i }"
declare atoi_skip.simps [code]

partial_function (option) atoi_digits :: "cptr \<Rightarrow> nat \<Rightarrow> u32 \<Rightarrow> u32 option" where
  "atoi_digits s i val = do {
     c \<leftarrow> s i;
     if c = 0 then Some val
     else do {
       w \<leftarrow> strchr (arr (lit ''0123456789'' @ [0])) (sint c);
       case w of None \<Rightarrow> Some val | Some digit \<Rightarrow> atoi_digits s (i + 1) (val * 10 + of_nat digit) } }"
declare atoi_digits.simps [code]

definition atoi :: "cptr \<Rightarrow> int option" where
  "atoi s = do {
     i \<leftarrow> atoi_skip s 0;
     c \<leftarrow> s i;
     let neg = (c = 0x2D);
     let j = (if c = 0x2D \<or> c = 0x2B then i + 1 else i);
     val \<leftarrow> atoi_digits s j 0;
     Some (sint (if neg then - val else val)) }"

section \<open>Formatted output\<close>

text \<open>
  The output array and the position in it, a \<open>size_t\<close> that wraps around; characters beyond the array
  are only counted. \<open>sz\<close> is the value of the argument \<open>size\<close>.
\<close>

type_synonym outbuf = "u8 list \<times> u32"

definition addchar :: "nat \<Rightarrow> u8 \<Rightarrow> outbuf \<Rightarrow> outbuf option" where
  "addchar sz c = (\<lambda>(str, pos). do {
     str1 \<leftarrow> (if unat (pos + 1) < sz then list_put str (unat pos) c else Some str);
     Some (str1, pos + 1) })"

definition hexdigits :: "u8 list" where "hexdigits = lit ''0123456789abcdef''"

partial_function (option) num_mult :: "u32 \<Rightarrow> u32 \<Rightarrow> u32 \<Rightarrow> u32 option" where
  "num_mult base x mult = (if x \<ge> base then num_mult base (x div base) (mult * base) else Some mult)"
declare num_mult.simps [code]

partial_function (option) num_digits :: "nat \<Rightarrow> u32 \<Rightarrow> u32 \<Rightarrow> u32 \<Rightarrow> u32 \<Rightarrow> outbuf \<Rightarrow> outbuf option" where
  "num_digits sz val base x mult b = (if x \<ge> base then do {
       d \<leftarrow> list_get hexdigits (unat ((val div mult) mod base));
       b1 \<leftarrow> addchar sz d b;
       num_digits sz val base (x div base) (mult div base) b1 }
     else Some b)"
declare num_digits.simps [code]

definition print_num :: "nat \<Rightarrow> u32 \<Rightarrow> u32 \<Rightarrow> outbuf \<Rightarrow> outbuf option" where
  "print_num sz val base b = do {
     mult \<leftarrow> num_mult base val 1;
     b1 \<leftarrow> num_digits sz val base val mult b;
     d \<leftarrow> list_get hexdigits (unat (val mod base));
     addchar sz d b1 }"

text \<open>The variable arguments, in order: words, and pointers to strings.\<close>

datatype varg = Word u32 | Str cptr

partial_function (option) print_str :: "nat \<Rightarrow> cptr \<Rightarrow> nat \<Rightarrow> outbuf \<Rightarrow> outbuf option" where
  "print_str sz s i b = do {
     c \<leftarrow> s i;
     if c = 0 then Some b else do { b1 \<leftarrow> addchar sz c b; print_str sz s (i + 1) b1 } }"
declare print_str.simps [code]

text \<open>
  \<open>va_arg\<close> of the expected type; there is no result when the argument is missing or of the other
  kind. Negating the least \<open>int\<close> has no defined value in C.
\<close>

definition va_word :: "varg list \<Rightarrow> (u32 \<times> varg list) option" where
  "va_word ap = (case ap of Word w # ap' \<Rightarrow> Some (w, ap') | _ \<Rightarrow> None)"

definition va_str :: "varg list \<Rightarrow> (cptr \<times> varg list) option" where
  "va_str ap = (case ap of Str s # ap' \<Rightarrow> Some (s, ap') | _ \<Rightarrow> None)"

definition print_field :: "nat \<Rightarrow> u8 \<Rightarrow> varg list \<Rightarrow> outbuf \<Rightarrow> (varg list \<times> outbuf) option" where
  "print_field sz c ap b =
     (if c = of_char CHR ''s'' then do { (s, ap1) \<leftarrow> va_str ap; b1 \<leftarrow> print_str sz s 0 b; Some (ap1, b1) }
      else if c = of_char CHR ''c'' then do { (w, ap1) \<leftarrow> va_word ap; b1 \<leftarrow> addchar sz (ucast w) b; Some (ap1, b1) }
      else if c = of_char CHR ''d'' then do {
        (w, ap1) \<leftarrow> va_word ap;
        if sint w < 0 then do {
          kassert (w \<noteq> 0x80000000);
          b1 \<leftarrow> addchar sz (of_char CHR ''-'') b;
          b2 \<leftarrow> print_num sz (- w) 10 b1;
          Some (ap1, b2) }
        else do { b1 \<leftarrow> print_num sz w 10 b; Some (ap1, b1) } }
      else if c = of_char CHR ''u'' then do { (w, ap1) \<leftarrow> va_word ap; b1 \<leftarrow> print_num sz w 10 b; Some (ap1, b1) }
      else if c = of_char CHR ''p'' then do {
        b1 \<leftarrow> addchar sz (of_char CHR ''0'') b;
        b2 \<leftarrow> addchar sz (of_char CHR ''x'') b1;
        (w, ap1) \<leftarrow> va_word ap;
        b3 \<leftarrow> print_num sz w 16 b2;
        Some (ap1, b3) }
      else if c = of_char CHR ''x'' then do { (w, ap1) \<leftarrow> va_word ap; b1 \<leftarrow> print_num sz w 16 b; Some (ap1, b1) }
      else do { b1 \<leftarrow> addchar sz (of_char CHR ''%'') b; Some (ap, b1) })"

text \<open>The width is an \<open>int\<close>; there is no result when it overflows.\<close>

partial_function (option) pad_digits :: "cptr \<Rightarrow> nat \<Rightarrow> int \<Rightarrow> (nat \<times> int) option" where
  "pad_digits fmt i pad = do {
     c \<leftarrow> fmt i;
     if 0x30 \<le> c \<and> c \<le> 0x39 then do {
       kassert (pad * 10 + sint c < 2 ^ 31);
       pad_digits fmt (i + 1) (pad * 10 + sint c - 0x30) }
     else Some (i, pad) }"
declare pad_digits.simps [code]

definition add_padding :: "nat \<Rightarrow> int \<Rightarrow> outbuf \<Rightarrow> outbuf option" where
  "add_padding sz pad b = fold_opt (\<lambda>_. addchar sz 0x20) [0..<nat pad] b"

text \<open>One conversion; \<open>i\<close> is the position after the percent sign, the result that of the conversion character.\<close>

definition conversion :: "nat \<Rightarrow> cptr \<Rightarrow> nat \<Rightarrow> varg list \<Rightarrow> outbuf \<Rightarrow> (nat \<times> varg list \<times> outbuf) option" where
  "conversion sz fmt i ap b = do {
     c0 \<leftarrow> fmt i;
     let right_aligned = (c0 \<noteq> 0x2D);
     (j, pad) \<leftarrow> pad_digits fmt (if c0 = 0x2D then i + 1 else i) 0;
     c \<leftarrow> fmt j;
     (ap1, b1) \<leftarrow> print_field sz c ap b;
     let pad1 = sint (of_int pad - (snd b1 - snd b) :: u32);
     if right_aligned then do {
       b2 \<leftarrow> add_padding sz pad1 (fst b1, snd b);
       (ap2, b3) \<leftarrow> print_field sz c ap b2;
       Some (j, ap2, b3) }
     else do {
       b2 \<leftarrow> add_padding sz pad1 b1;
       Some (j, ap1, b2) } }"

partial_function (option) vsnprintf_loop :: "nat \<Rightarrow> cptr \<Rightarrow> nat \<Rightarrow> varg list \<Rightarrow> outbuf \<Rightarrow> outbuf option" where
  "vsnprintf_loop sz fmt i ap b = do {
     c \<leftarrow> fmt i;
     if c = 0 then Some b
     else if c = of_char CHR ''%'' then do {
       (j, ap1, b1) \<leftarrow> conversion sz fmt (i + 1) ap b;
       vsnprintf_loop sz fmt (j + 1) ap1 b1 }
     else do { b1 \<leftarrow> addchar sz c b; vsnprintf_loop sz fmt (i + 1) ap b1 } }"
declare vsnprintf_loop.simps [code]

text \<open>The result is the position as an \<open>int\<close>.\<close>

definition vsnprintf :: "u8 list \<Rightarrow> nat \<Rightarrow> cptr \<Rightarrow> varg list \<Rightarrow> (int \<times> u8 list) option" where
  "vsnprintf str sz fmt ap = do {
     (str1, pos) \<leftarrow> vsnprintf_loop sz fmt 0 ap (str, 0);
     str2 \<leftarrow> (if 0 < sz then (if unat (pos + 1) < sz then list_put str1 (unat pos) 0 else list_put str1 (sz - 1) 0) else Some str1);
     Some (sint pos, str2) }"

definition snprintf :: "u8 list \<Rightarrow> nat \<Rightarrow> cptr \<Rightarrow> varg list \<Rightarrow> (int \<times> u8 list) option" where
  "snprintf str sz fmt args = vsnprintf str sz fmt args"

text \<open>
  What \<open>printf\<close> hands to \<open>write\<close> and \<open>kprintf\<close> to \<open>write_to_screen\<close>: the first \<open>len\<close> bytes of the local
  array \<open>buf\<close>, whose former contents is a parameter. When \<open>len\<close> exceeds the array there is no result.
\<close>

definition printf_output :: "u8 list \<Rightarrow> cptr \<Rightarrow> varg list \<Rightarrow> u8 list option" where
  "printf_output buf format ap = do {
     (len, buf1) \<leftarrow> vsnprintf buf 4096 format ap;
     kassert (0 \<le> len \<and> nat len \<le> length buf1);
     Some (take (nat len) buf1) }"

end
