(* ===== verification/Filesystem.thy ===== *)
theory Filesystem
  imports Kernel_State Libc
begin

text \<open>
  The file system image, filesystem.c and include/filesystem.h: directories and their entries in
  memory, the search for a path, and the conversion of relative to absolute paths. The image is
  read from a memory \<open>m\<close>; pointers are addresses in it, and NULL is 0.
\<close>

definition TYPE_DIR :: u32 where "TYPE_DIR = 1"
definition TYPE_FILE :: u32 where "TYPE_FILE = 2"
definition MAX_FILENAME_LEN :: nat where "MAX_FILENAME_LEN = 255"

definition vload32 :: "vmem \<Rightarrow> u32 \<Rightarrow> u32 option" where
  "vload32 m a = do {
     b0 \<leftarrow> m a; b1 \<leftarrow> m (a + 1); b2 \<leftarrow> m (a + 2); b3 \<leftarrow> m (a + 3);
     Some (word32 [b0, b1, b2, b3]) }"

section \<open>Directory entries\<close>

text \<open>The fields of a \<open>directory_entry\<close> at address \<open>e\<close>; the structure has 20 + 256 bytes.\<close>

definition ent_size :: "vmem \<Rightarrow> u32 \<Rightarrow> u32 option" where "ent_size m e = vload32 m e"
definition ent_type :: "vmem \<Rightarrow> u32 \<Rightarrow> u32 option" where "ent_type m e = vload32 m (e + 4)"
definition ent_location :: "vmem \<Rightarrow> u32 \<Rightarrow> u32 option" where "ent_location m e = vload32 m (e + 8)"
definition ent_mode :: "vmem \<Rightarrow> u32 \<Rightarrow> u32 option" where "ent_mode m e = vload32 m (e + 12)"
definition ent_mtime :: "vmem \<Rightarrow> u32 \<Rightarrow> u32 option" where "ent_mtime m e = vload32 m (e + 16)"
definition ent_name :: "vmem \<Rightarrow> u32 \<Rightarrow> cptr" where "ent_name m e = mem_ptr m (e + 20)"

definition ENTRY_SIZE :: u32 where "ENTRY_SIZE = 20 + of_nat (MAX_FILENAME_LEN + 1)"

definition dir_count :: "vmem \<Rightarrow> u32 \<Rightarrow> u32 option" where "dir_count m dir = vload32 m dir"
definition dir_entry :: "u32 \<Rightarrow> nat \<Rightarrow> u32" where "dir_entry dir i = dir + 4 + of_nat i * ENTRY_SIZE"

text \<open>\<open>lookup\<close>: the last argument counts the entries that are left.\<close>

primrec lookup_loop :: "vmem \<Rightarrow> u32 \<Rightarrow> cptr \<Rightarrow> nat \<Rightarrow> nat \<Rightarrow> nat \<Rightarrow> u32 option" where
  "lookup_loop m dir name len i 0 = Some 0"
| "lookup_loop m dir name len i (Suc k) = do {
     n \<leftarrow> strlen (ent_name m (dir_entry dir i));
     hit \<leftarrow> (if n = len then do { r \<leftarrow> strncmp (ent_name m (dir_entry dir i)) name len; Some (r = 0) } else Some False);
     if hit then Some (dir_entry dir i) else lookup_loop m dir name len (i + 1) k }"

definition lookup :: "vmem \<Rightarrow> u32 \<Rightarrow> cptr \<Rightarrow> nat \<Rightarrow> u32 option" where
  "lookup m dir name len = do { count \<leftarrow> dir_count m dir; lookup_loop m dir name len 0 (unat count) }"

section \<open>Finding a path\<close>

text \<open>
  The loop of \<open>get_directory_entry\<close> at position \<open>pos\<close>, with \<open>k\<close> positions left; the result is the
  return value and \<open>*entry\<close>.
\<close>

primrec path_loop :: "vmem \<Rightarrow> u32 \<Rightarrow> cptr \<Rightarrow> nat \<Rightarrow> u32 \<Rightarrow> u32 \<Rightarrow> nat \<Rightarrow> nat \<Rightarrow> nat \<Rightarrow> (int \<times> u32) option" where
  "path_loop m fs path len entry dir start pos 0 = Some (0, entry)"
| "path_loop m fs path len entry dir start pos (Suc k) = do {
     c \<leftarrow> path pos;
     if c = 0x2F \<or> pos = len then
       (if pos > start then do {
          entry1 \<leftarrow> lookup m dir (ptr_add path start) (pos - start);
          if entry1 = 0 then Some (- ENOENT, entry1)
          else do {
            t \<leftarrow> ent_type m entry1;
            if t = TYPE_DIR then do {
              loc \<leftarrow> ent_location m entry1;
              path_loop m fs path len entry1 (fs + loc) (pos + 1) (pos + 1) k }
            else if pos < len then Some (- ENOENT, entry1)
            else path_loop m fs path len entry1 dir (pos + 1) (pos + 1) k } }
        else path_loop m fs path len entry dir (pos + 1) (pos + 1) k)
     else path_loop m fs path len entry dir start (pos + 1) k }"

definition get_directory_entry :: "vmem \<Rightarrow> u32 \<Rightarrow> cptr \<Rightarrow> (int \<times> u32) option" where
  "get_directory_entry m fs path = do {
     loc \<leftarrow> ent_location m fs;
     len \<leftarrow> strlen path;
     path_loop m fs path len fs (fs + loc) 0 0 (len + 1) }"

section \<open>Relative paths\<close>

text \<open>Removing the last component: characters are removed from the end up to a slash.\<close>

fun strip_last :: "u8 list \<Rightarrow> nat \<Rightarrow> (u8 list \<times> nat) option" where
  "strip_last ab 0 = Some (ab, 0)"
| "strip_last ab (Suc n) = (if 1 < Suc n then do {
       c \<leftarrow> list_get ab n;
       if c \<noteq> 0x2F then do { abs1 \<leftarrow> list_put ab n 0; strip_last abs1 n }
       else Some (ab, Suc n) }
     else Some (ab, Suc n))"

text \<open>Adding a component: \<open>k\<close> characters of it are left to copy.\<close>

primrec add_name :: "u8 list \<Rightarrow> nat \<Rightarrow> cptr \<Rightarrow> nat \<Rightarrow> nat \<Rightarrow> nat \<Rightarrow> (u8 list \<times> nat) option" where
  "add_name ab abs_len rel rpos mx 0 = Some (ab, abs_len)"
| "add_name ab abs_len rel rpos mx (Suc k) = (if abs_len < mx - 1 then do {
       c \<leftarrow> rel rpos;
       abs1 \<leftarrow> list_put ab abs_len c;
       add_name abs1 (abs_len + 1) rel (rpos + 1) mx k }
     else Some (ab, abs_len))"

definition path_component :: "u8 list \<Rightarrow> nat \<Rightarrow> cptr \<Rightarrow> nat \<Rightarrow> nat \<Rightarrow> nat \<Rightarrow> (u8 list \<times> nat) option" where
  "path_component ab abs_len rel start pos mx = do {
     let namelen = pos - start;
     dot \<leftarrow> (if namelen = 1 then do { r \<leftarrow> strncmp (ptr_add rel start) (arr (lit ''.'' @ [0])) namelen; Some (r = 0) } else Some False);
     if dot then Some (ab, abs_len)
     else do {
       dots \<leftarrow> (if namelen = 2 then do { r \<leftarrow> strncmp (ptr_add rel start) (arr (lit ''..'' @ [0])) namelen; Some (r = 0) } else Some False);
       if dots then do {
         (abs1, n) \<leftarrow> strip_last ab abs_len;
         if 1 < n then do { abs2 \<leftarrow> list_put abs1 (n - 1) 0; Some (abs2, n - 1) } else Some (abs1, n) }
       else do {
         (abs1, n) \<leftarrow> (if abs_len < mx - 1 then do {
             kassert (0 < abs_len);
             c \<leftarrow> list_get ab (abs_len - 1);
             if c \<noteq> 0x2F then do { a \<leftarrow> list_put ab abs_len 0x2F; Some (a, abs_len + 1) } else Some (ab, abs_len) }
           else Some (ab, abs_len));
         (abs2, n2) \<leftarrow> add_name abs1 n rel start mx (pos - start);
         abs3 \<leftarrow> list_put abs2 n2 0;
         Some (abs3, n2) } } }"

primrec rel_loop :: "cptr \<Rightarrow> nat \<Rightarrow> nat \<Rightarrow> u8 list \<Rightarrow> nat \<Rightarrow> nat \<Rightarrow> nat \<Rightarrow> nat \<Rightarrow> u8 list option" where
  "rel_loop rel rel_len mx ab abs_len start pos 0 = Some ab"
| "rel_loop rel rel_len mx ab abs_len start pos (Suc k) = do {
     c \<leftarrow> rel pos;
     if c = 0x2F \<or> pos = rel_len then do {
       (abs1, n) \<leftarrow> (if pos > start then path_component ab abs_len rel start pos mx else Some (ab, abs_len));
       rel_loop rel rel_len mx abs1 n (pos + 1) (pos + 1) k }
     else rel_loop rel rel_len mx ab abs_len start (pos + 1) k }"

text \<open>\<open>pos\<close> and \<open>rel_len\<close> are of type \<open>int\<close>.\<close>

definition relative_to_absolute :: "u8 list \<Rightarrow> cptr \<Rightarrow> cptr \<Rightarrow> nat \<Rightarrow> u8 list option" where
  "relative_to_absolute ab base rel mx = do {
     c \<leftarrow> rel 0;
     (_, abs1) \<leftarrow> (if c = 0x2F then snprintf ab mx (arr (lit ''/'' @ [0])) []
                    else snprintf ab mx (arr (lit ''%s'' @ [0])) [Str base]);
     rel_len \<leftarrow> strlen rel;
     kassert (rel_len + 1 < 2 ^ 31);
     abs_len \<leftarrow> strlen (arr abs1);
     rel_loop rel rel_len mx abs1 abs_len 0 0 (rel_len + 1) }"

end
