(* ===== verification/Libc_Correct.thy ===== *)
theory Libc_Correct
  imports Libc
begin

text \<open>
  Correctness of the C library: what the string functions compute on terminated strings, the
  output of \<open>vsnprintf\<close> against a specification of formatting that knows nothing of buffers, the
  numbers printed and parsed, and when \<open>memmove\<close> copies correctly.
\<close>

section \<open>Terminated strings\<close>

text \<open>The pointer \<open>s\<close> holds the string \<open>bs\<close>, with its terminator, from offset \<open>i\<close> on.\<close>

primrec str_at :: "cptr \<Rightarrow> nat \<Rightarrow> u8 list \<Rightarrow> bool" where
  "str_at s i [] \<longleftrightarrow> s i = Some 0"
| "str_at s i (c # cs) \<longleftrightarrow> s i = Some c \<and> c \<noteq> 0 \<and> str_at s (i + 1) cs"

lemma str_at_nonzero: "str_at s i bs \<Longrightarrow> 0 \<notin> set bs"
  by (induction bs arbitrary: i) auto

lemma str_at_nth: "str_at s i bs \<Longrightarrow> k < length bs \<Longrightarrow> s (i + k) = Some (bs ! k)"
  by (induction bs arbitrary: i k) (auto simp: nth_Cons split: nat.splits, metis add_Suc)

lemma str_at_end: "str_at s i bs \<Longrightarrow> s (i + length bs) = Some 0"
  by (induction bs arbitrary: i) (auto, metis add_Suc)

lemma str_at_arr: "0 \<notin> set bs \<Longrightarrow> str_at (arr (xs @ bs @ 0 # rest)) (length xs) bs"
proof (induction bs arbitrary: xs)
  case (Cons c cs)
  from Cons.IH[of "xs @ [c]"] Cons.prems show ?case by (auto simp: arr_def list_get_def nth_append)
qed (simp add: arr_def list_get_def)

lemma str_at_arr0: "0 \<notin> set bs \<Longrightarrow> str_at (arr (bs @ 0 # rest)) 0 bs"
  using str_at_arr[of bs "[]" rest] by simp

lemma str_at_drop: "str_at s i bs \<Longrightarrow> k \<le> length bs \<Longrightarrow> str_at s (i + k) (drop k bs)"
  by (induction bs arbitrary: i k) (auto simp: drop_Cons split: nat.splits, metis add_Suc)

lemma str_at_append: "str_at s i (xs @ ys) \<Longrightarrow> str_at s (i + length xs) ys"
  using str_at_drop[of s i "xs @ ys" "length xs"] by simp

lemma str_at_ptr_add: "str_at (ptr_add s k) i bs \<longleftrightarrow> str_at s (k + i) bs"
  by (induction bs arbitrary: i) (auto simp: ptr_add_def)

lemma str_at_unique: "str_at s i bs \<Longrightarrow> str_at s i cs \<Longrightarrow> bs = cs"
proof (induction bs arbitrary: i cs)
  case Nil then show ?case by (cases cs) auto
next
  case (Cons b bs) then show ?case by (cases cs) auto
qed

lemma strlen_from_ok: "str_at s i bs \<Longrightarrow> strlen_from s i = Some (i + length bs)"
  by (induction bs arbitrary: i) (auto simp: strlen_from.simps)

lemma strlen_ok [simp]: "str_at s 0 bs \<Longrightarrow> strlen s = Some (length bs)"
  by (simp add: strlen_def strlen_from_ok)

lemma strchr_from_ok: "str_at s i bs \<Longrightarrow> ch \<noteq> 0 \<Longrightarrow> sint (c :: u8) = ch \<Longrightarrow>
   strchr_from s ch i = Some (if c \<in> set bs then Some (i + length (takeWhile (\<lambda>x. x \<noteq> c) bs)) else None)"
proof (induction bs arbitrary: i)
  case Nil
  then show ?case by (auto simp: strchr_from.simps)
next
  case (Cons b bs)
  have "sint b = ch \<longleftrightarrow> b = c" using Cons.prems(3) by (metis word_eq_iff_signed)
  then show ?case using Cons by (auto simp: strchr_from.simps)
qed

lemma strcmp_from_ok:
  assumes "str_at s i bs" "str_at t i cs"
  shows "\<exists>r. strcmp_from s t i = Some r \<and> (r = 0 \<longleftrightarrow> bs = cs)"
  using assms
proof (induction bs arbitrary: i cs)
  case Nil
  then show ?case by (cases cs) (auto simp: strcmp_from.simps)
next
  case (Cons b bs)
  show ?case
  proof (cases cs)
    case Nil
    then show ?thesis using Cons.prems by (auto simp: strcmp_from.simps)
  next
    case [simp]: (Cons c cs')
    have ne: "sint b \<noteq> sint c" if "b \<noteq> c" using that by (metis word_eq_iff_signed)
    show ?thesis
    proof (cases "b = c")
      case True
      obtain r where "strcmp_from s t (i + 1) = Some r" "r = 0 \<longleftrightarrow> bs = cs'"
        using Cons.IH[of "i + 1" cs'] Cons.prems by auto
      then show ?thesis using Cons.prems True by (auto simp: strcmp_from.simps)
    next
      case False
      then show ?thesis using Cons.prems ne by (auto simp: strcmp_from.simps)
    qed
  qed
qed

lemma strncmp_from_ok:
  assumes "\<And>j. j < n \<Longrightarrow> s (i + j) = Some (f j) \<and> t (i + j) = Some (g j) \<and> f j \<noteq> 0"
  shows "\<exists>r. strncmp_from s t i n = Some r \<and> (r = 0 \<longleftrightarrow> (\<forall>j<n. f j = g j))"
  using assms
proof (induction n arbitrary: i f g)
  case (Suc n)
  have h: "s i = Some (f 0)" "t i = Some (g 0)" "f 0 \<noteq> 0" using Suc.prems[of 0] by auto
  have ne: "sint (f 0) \<noteq> sint (g 0)" if "f 0 \<noteq> g 0" using that by (metis word_eq_iff_signed)
  show ?case
  proof (cases "f 0 = g 0")
    case True
    have "\<And>j. j < n \<Longrightarrow> s (i + 1 + j) = Some (f (Suc j)) \<and> t (i + 1 + j) = Some (g (Suc j)) \<and> f (Suc j) \<noteq> 0"
      using Suc.prems[of "Suc j" for j] by simp
    then obtain r where "strncmp_from s t (i + 1) n = Some r" "r = 0 \<longleftrightarrow> (\<forall>j<n. f (Suc j) = g (Suc j))"
      using Suc.IH[of "i + 1" "\<lambda>j. f (Suc j)" "\<lambda>j. g (Suc j)"] by blast
    then show ?thesis using h True by (auto simp: All_less_Suc2)
  next
    case False
    then show ?thesis using h ne by auto
  qed
qed simp

section \<open>Formatted output: characters\<close>

definition emit :: "nat \<Rightarrow> u8 list \<Rightarrow> outbuf \<Rightarrow> outbuf option" where
  "emit sz bs = fold_opt (addchar sz) bs"

lemma emit_Nil [simp]: "emit sz [] b = Some b" by (simp add: emit_def)
lemma emit_Cons: "emit sz (c # cs) b = Option.bind (addchar sz c b) (emit sz cs)" by (simp add: emit_def fun_eq_iff)
lemma emit_append: "emit sz (xs @ ys) b = Option.bind (emit sz xs b) (emit sz ys)" by (simp add: emit_def fun_eq_iff)
lemma emit_single: "emit sz [c] = addchar sz c" by (rule ext) (simp add: emit_Cons split: Option.bind_splits)

lemma fold_opt_const: "fold_opt (\<lambda>_. addchar sz c) xs b = emit sz (replicate (length xs) c) b"
  by (induction xs arbitrary: b) (simp_all add: emit_Cons fun_eq_iff split: Option.bind_splits)

lemma add_padding_emit: "add_padding sz pad b = emit sz (replicate (nat pad) 0x20) b"
  by (simp add: add_padding_def fold_opt_const)

lemma print_str_emit: "str_at s i bs \<Longrightarrow> print_str sz s i b = emit sz bs b"
  by (induction bs arbitrary: i b) (auto simp: print_str.simps emit_Cons split: Option.bind_splits)

text \<open>The buffer holds the first characters of \<open>out\<close>, as many as fit, and the position counts all of them.\<close>

definition buf_shows :: "nat \<Rightarrow> u8 list \<Rightarrow> outbuf \<Rightarrow> bool" where
  "buf_shows sz out b \<longleftrightarrow> length (fst b) = sz \<and> snd b = of_nat (length out) \<and>
     take (length (take (sz - 1) out)) (fst b) = take (sz - 1) out"

text \<open>The position does not wrap around as long as the text is shorter than \<open>2\<^sup>3\<^sup>2 - 1\<close>.\<close>

lemma pos_unat:
  assumes "n + 1 < 2 ^ 32"
  shows "unat (of_nat n :: u32) = n" "unat (of_nat n + 1 :: u32) = n + 1"
  using assms by (simp_all add: unat_of_nat unat_word_ariths)

lemma buf_shows_addchar:
  assumes "buf_shows sz out b" "length out + 1 < 2 ^ 32"
  shows "\<exists>b'. addchar sz c b = Some b' \<and> buf_shows sz (out @ [c]) b'"
proof -
  obtain str pos where b: "b = (str, pos)" by (cases b)
  have h: "length str = sz" "pos = of_nat (length out)" "take (length (take (sz - 1) out)) str = take (sz - 1) out"
    using assms(1) by (auto simp: buf_shows_def b)
  have p: "unat pos = length out" "unat (pos + 1) = length out + 1" unfolding h(2) by (rule pos_unat[OF assms(2)])+
  have n: "pos + 1 = of_nat (length (out @ [c]))" by (simp add: h(2))
  note h = h(1) p h(3)
  show ?thesis
  proof (cases "unat pos + 1 < sz")
    case True
    then have "take (length out) str = out" using h by simp
    then have "take (Suc (length out)) (str[length out := c]) = out @ [c]"
      using True h by (simp add: take_Suc_conv_app_nth)
    then have "buf_shows sz (out @ [c]) (str[length out := c], pos + 1)" unfolding buf_shows_def fst_conv snd_conv n using True h by auto
    moreover have "addchar sz c b = Some (str[length out := c], pos + 1)" using True h(1-3) by (simp add: addchar_def b)
    ultimately show ?thesis by blast
  next
    case False
    then have "take (sz - 1) (out @ [c]) = take (sz - 1) out" using h by simp
    then have "buf_shows sz (out @ [c]) (str, pos + 1)" unfolding buf_shows_def fst_conv snd_conv n using h by auto
    moreover have "addchar sz c b = Some (str, pos + 1)" using False h(1-3) by (simp add: addchar_def b)
    ultimately show ?thesis by blast
  qed
qed

lemma buf_shows_emit:
  "buf_shows sz out b \<Longrightarrow> length (out @ bs) < 2 ^ 32 - 1 \<Longrightarrow> \<exists>b'. emit sz bs b = Some b' \<and> buf_shows sz (out @ bs) b'"
proof (induction bs arbitrary: out b)
  case (Cons c cs)
  have "length out + 1 < 2 ^ 32" using Cons.prems(2) by simp
  then obtain b1 where "addchar sz c b = Some b1" "buf_shows sz (out @ [c]) b1" using buf_shows_addchar[OF Cons.prems(1)] by blast
  then show ?case using Cons.IH[of "out @ [c]" b1] Cons.prems(2) by (auto simp: emit_Cons)
qed simp

lemma buf_shows_rewind:
  assumes "buf_shows sz (out @ bs) b" shows "buf_shows sz out (fst b, of_nat (length out))"
proof -
  let ?n = "length (take (sz - 1) out)" and ?m = "length (take (sz - 1) (out @ bs))"
  have h: "length (fst b) = sz" and t: "take ?m (fst b) = take (sz - 1) (out @ bs)" using assms by (auto simp: buf_shows_def)
  have "?n \<le> ?m" by simp
  then have "take ?n (fst b) = take ?n (take ?m (fst b))" by (simp only: take_take min_absorb1)
  also have "\<dots> = take ?n (take (sz - 1) (out @ bs))" using t by simp
  also have "\<dots> = take (sz - 1) out" by (cases "length out \<le> sz - 1") auto
  finally show ?thesis using h by (simp add: buf_shows_def)
qed

section \<open>Formatted output: numbers\<close>

function nat_digits :: "nat \<Rightarrow> nat \<Rightarrow> nat list" where
  "nat_digits b n = (if b < 2 \<or> n < b then [n] else nat_digits b (n div b) @ [n mod b])"
  by pat_completeness auto
termination by (relation "measure snd") auto
declare nat_digits.simps [simp del]

definition num_str :: "nat \<Rightarrow> nat \<Rightarrow> u8 list" where
  "num_str b n = map (\<lambda>d. hexdigits ! d) (nat_digits b n)"

lemma nat_digits_less: "2 \<le> b \<Longrightarrow> d \<in> set (nat_digits b n) \<Longrightarrow> d < b"
  by (induction b n rule: nat_digits.induct) (subst (asm) (2) nat_digits.simps, auto split: if_splits)

lemma nat_digits_value: "2 \<le> b \<Longrightarrow> foldl (\<lambda>v d. v * b + d) 0 (nat_digits b n) = n"
  by (induction b n rule: nat_digits.induct) (subst nat_digits.simps, auto)

lemma nat_digits_ne: "nat_digits b n \<noteq> []"
  by (subst nat_digits.simps) auto

lemma nat_digits_length_step: "2 \<le> b \<Longrightarrow> \<not> n < b \<Longrightarrow> length (nat_digits b n) = Suc (length (nat_digits b (n div b)))"
  by (subst nat_digits.simps) simp

lemma nat_digits_length_le: "2 \<le> b \<Longrightarrow> n \<noteq> 0 \<Longrightarrow> b ^ (length (nat_digits b n) - 1) \<le> n"
proof (induction b n rule: nat_digits.induct)
  case (1 b n)
  show ?case
  proof (cases "n < b")
    case True
    then show ?thesis using 1 by (subst nat_digits.simps) auto
  next
    case False
    then have "b ^ (length (nat_digits b (n div b)) - 1) \<le> n div b" using 1 by (simp add: div_eq_0_iff)
    moreover have "b * (n div b) \<le> n" by simp
    ultimately have "b * b ^ (length (nat_digits b (n div b)) - 1) \<le> n" by (meson le_trans mult_le_mono2)
    moreover have "0 < length (nat_digits b (n div b))" by (simp add: nat_digits_ne)
    ultimately have "b ^ length (nat_digits b (n div b)) \<le> n" by (simp add: power_eq_if split: if_splits)
    then show ?thesis using nat_digits_length_step[of b n] 1(2) False by simp
  qed
qed

lemma nat_digits_positions: "2 \<le> b \<Longrightarrow> nat_digits b n = map (\<lambda>i. n div b ^ i mod b) (rev [0..<length (nat_digits b n)])"
proof (induction b n rule: nat_digits.induct)
  case (1 b n)
  show ?case
  proof (cases "n < b")
    case True
    then show ?thesis using 1 by (subst (1 2) nat_digits.simps) auto
  next
    case False
    let ?k = "length (nat_digits b (n div b))"
    have e: "nat_digits b n = nat_digits b (n div b) @ [n mod b]" using False 1 by (subst nat_digits.simps) auto
    have "nat_digits b (n div b) = map (\<lambda>i. n div b div b ^ i mod b) (rev [0..<?k])" using 1 False by auto
    also have "\<dots> = map (\<lambda>i. n div b ^ i mod b) (rev [Suc 0..<Suc ?k])"
      by (simp add: rev_map[symmetric] map_Suc_upt[symmetric] o_def div_mult2_eq del: upt_Suc)
    finally have "nat_digits b n = map (\<lambda>i. n div b ^ i mod b) (rev [Suc 0..<Suc ?k]) @ [n mod b]" using e by simp
    moreover have "[0..<Suc ?k] = 0 # [Suc 0..<Suc ?k]" by (rule upt_conv_Cons) simp
    ultimately have "nat_digits b n = map (\<lambda>i. n div b ^ i mod b) (rev [0..<Suc ?k])" by simp
    then show ?thesis by (simp add: e)
  qed
qed

lemma num_mult_ok:
  assumes "2 \<le> unat base"
  shows "num_mult base x m = Some (m * base ^ (length (nat_digits (unat base) (unat x)) - 1))"
  using assms
proof (induction "unat x" arbitrary: x m rule: less_induct)
  case less
  let ?L = "\<lambda>x. length (nat_digits (unat base) (unat x))"
  show ?case
  proof (cases "x \<ge> base")
    case True
    have d: "unat (x div base) = unat x div unat base" by (simp add: unat_div)
    have "unat x \<noteq> 0" using True less.prems by (auto simp: word_le_nat_alt)
    then have lt: "unat (x div base) < unat x" using less.prems d by simp
    have L: "?L x = Suc (?L (x div base))"
      using nat_digits_length_step[OF less.prems] True d by (simp add: word_le_nat_alt)
    have "0 < ?L (x div base)" by (simp add: nat_digits_ne)
    then have "m * base * base ^ (?L (x div base) - 1) = m * base ^ (?L x - 1)"
      by (cases "?L (x div base)") (simp_all add: L)
    then show ?thesis using less.hyps[OF lt less.prems, of "m * base"] True by (simp add: num_mult.simps)
  next
    case False
    then have "?L x = 1" by (subst nat_digits.simps) (simp add: word_less_nat_alt not_le)
    then show ?thesis using False by (simp add: num_mult.simps)
  qed
qed

lemma unat_power_word: "unat (base :: u32) ^ k < 2 ^ 32 \<Longrightarrow> unat (base ^ k) = unat base ^ k"
proof (induction k)
  case (Suc k)
  have le: "unat base ^ k \<le> unat base ^ Suc k" if "unat base \<noteq> 0" using that by simp
  show ?case
  proof (cases "unat base = 0")
    case True then show ?thesis by (simp add: unat_eq_0)
  next
    case False
    then have "unat base ^ k < 2 ^ 32" using le Suc.prems by linarith
    then show ?thesis using Suc by (simp add: unat_word_ariths)
  qed
qed simp

lemma length_hexdigits: "length hexdigits = 16" by (simp add: hexdigits_def lit_def)

lemma num_digits_ok:
  assumes b: "2 \<le> unat base" "unat base \<le> 16" and fit: "unat base ^ (length (nat_digits (unat base) (unat x)) - 1) < 2 ^ 32"
  shows "num_digits sz val base x (base ^ (length (nat_digits (unat base) (unat x)) - 1)) buf =
    emit sz (map (\<lambda>i. hexdigits ! (unat val div unat base ^ i mod unat base)) (rev [1..<length (nat_digits (unat base) (unat x))])) buf"
  using fit
proof (induction "unat x" arbitrary: x buf rule: less_induct)
  case less
  let ?L = "\<lambda>x. length (nat_digits (unat base) (unat x))"
  let ?h = "\<lambda>i. hexdigits ! (unat val div unat base ^ i mod unat base)"
  show ?case
  proof (cases "x \<ge> base")
    case True
    have d: "unat (x div base) = unat x div unat base" by (simp add: unat_div)
    have "unat x \<noteq> 0" using True b by (auto simp: word_le_nat_alt)
    then have lt: "unat (x div base) < unat x" using b d by simp
    have L: "?L x = Suc (?L (x div base))" using nat_digits_length_step[OF b(1)] True d by (simp add: word_le_nat_alt)
    have pos: "0 < ?L (x div base)" by (simp add: nat_digits_ne)
    then obtain k where k: "?L (x div base) = Suc k" by (cases "?L (x div base)") auto
    have f2: "unat base ^ Suc k < 2 ^ 32" using less.prems by (simp add: L k)
    have f1: "unat base ^ k < 2 ^ 32" by (rule le_less_trans[OF _ f2]) (use b in simp)
    have "base ^ Suc k div base = base ^ k"
    proof -
      have "unat (base ^ Suc k div base) = unat base ^ Suc k div unat base" using unat_power_word[OF f2] by (simp only: unat_div)
      also have "\<dots> = unat base ^ k" using b by simp
      also have "\<dots> = unat (base ^ k)" using unat_power_word[OF f1] by simp
      finally show ?thesis by (simp only: word_unat_eq_iff)
    qed
    moreover have "list_get hexdigits (unat (val div base ^ Suc k mod base)) = Some (?h (Suc k))"
    proof -
      have u: "unat (val div base ^ Suc k mod base) = unat val div unat base ^ Suc k mod unat base"
        using unat_power_word[OF f2] by (simp only: unat_mod unat_div)
      have "unat val div unat base ^ Suc k mod unat base < unat base" using b by simp
      from less_le_trans[OF this b(2)] have "unat val div unat base ^ Suc k mod unat base < length hexdigits"
        by (simp only: length_hexdigits)
      then show ?thesis unfolding u by (rule list_get_Some)
    qed
    moreover have "rev [1..<?L x] = Suc k # rev [1..<?L (x div base)]" by (simp add: L k)
    moreover have "num_digits sz val base (x div base) (base ^ k) b1 =
        emit sz (map ?h (rev [1..<?L (x div base)])) b1" for b1
      using less.hyps[OF lt, of b1] f1 by (simp add: k)
    ultimately show ?thesis using True
      by (subst num_digits.simps) (simp add: L k emit_Cons del: power_Suc upt_Suc cong: Option.bind_cong)
  next
    case False
    then have "?L x = 1" by (subst nat_digits.simps) (simp add: word_less_nat_alt not_le)
    then show ?thesis using False by (simp add: num_digits.simps)
  qed
qed

lemma print_num_emit:
  assumes b: "2 \<le> unat base" "unat base \<le> 16"
  shows "print_num sz val base buf = emit sz (num_str (unat base) (unat val)) buf"
proof -
  let ?L = "length (nat_digits (unat base) (unat val))"
  let ?h = "\<lambda>i. hexdigits ! (unat val div unat base ^ i mod unat base)"
  have fit: "unat base ^ (?L - 1) < 2 ^ 32"
  proof (cases "unat val = 0")
    case True
    then have "?L = 1" using b by (subst nat_digits.simps) simp
    then show ?thesis by simp
  next
    case False
    then show ?thesis using nat_digits_length_le[OF b(1) False] unat_u32_less[of val] by simp
  qed
  have m: "num_mult base val 1 = Some (base ^ (?L - 1))" using num_mult_ok[OF b(1)] by simp
  have pos: "0 < ?L" by (simp add: nat_digits_ne)
  have "unat val mod unat base < unat base" using b by simp
  from less_le_trans[OF this b(2)] have "unat (val mod base) < length hexdigits" by (simp only: length_hexdigits unat_mod)
  then have d: "list_get hexdigits (unat (val mod base)) = Some (?h 0)" by (simp add: unat_mod)
  have "num_str (unat base) (unat val) = map ?h (rev [0..<?L])"
    unfolding num_str_def by (subst nat_digits_positions[OF b(1)]) (simp add: o_def)
  also have "[0..<?L] = 0 # [1..<?L]" using pos by (simp add: upt_conv_Cons)
  finally have e: "num_str (unat base) (unat val) = map ?h (rev [1..<?L]) @ [?h 0]" by simp
  show ?thesis unfolding print_num_def m e emit_append
    using num_digits_ok[OF b fit] d by (simp add: emit_single)
qed

section \<open>Formatted output: the specification\<close>

text \<open>The characters of one conversion, without padding, and the arguments left.\<close>

definition cstr_bytes :: "cptr \<Rightarrow> u8 list option" where
  "cstr_bytes s = do { n \<leftarrow> strlen s; Some (map (\<lambda>i. the (s i)) [0..<n]) }"

definition field_str :: "u8 \<Rightarrow> varg list \<Rightarrow> (u8 list \<times> varg list) option" where
  "field_str c ap = (if c = of_char CHR ''s'' then do { (s, ap') \<leftarrow> va_str ap; bs \<leftarrow> cstr_bytes s; Some (bs, ap') }
     else if c \<in> of_char ` {CHR ''c'', CHR ''d'', CHR ''u'', CHR ''p'', CHR ''x''} then do {
       (w, ap') \<leftarrow> va_word ap;
       if c = of_char CHR ''c'' then Some ([ucast w], ap')
       else if c = of_char CHR ''d'' then
         (if w = 0x80000000 then None
          else Some ((if sint w < 0 then lit ''-'' else []) @ num_str 10 (nat \<bar>sint w\<bar>), ap'))
       else if c = of_char CHR ''u'' then Some (num_str 10 (unat w), ap')
       else Some ((if c = of_char CHR ''p'' then lit ''0x'' else []) @ num_str 16 (unat w), ap') }
     else Some (lit ''%'', ap))"

definition padded :: "bool \<Rightarrow> nat \<Rightarrow> u8 list \<Rightarrow> u8 list" where
  "padded right n bs = (if right then replicate (n - length bs) 0x20 @ bs else bs @ replicate (n - length bs) 0x20)"

definition is_digit :: "u8 \<Rightarrow> bool" where "is_digit c \<longleftrightarrow> 0x30 \<le> c \<and> c \<le> 0x39"

definition width :: "u8 list \<Rightarrow> nat" where "width ds = foldl (\<lambda>n d. n * 10 + (unat d - 0x30)) 0 ds"

text \<open>What a format denotes: a list of characters, however large the buffer is.\<close>

function format :: "u8 list \<Rightarrow> varg list \<Rightarrow> u8 list option" where
  "format [] ap = Some []"
| "format (c # cs) ap = (if c \<noteq> of_char CHR ''%'' then map_option (Cons c) (format cs ap)
     else let right = (cs = [] \<or> hd cs \<noteq> 0x2D);
              cs1 = (if right then cs else tl cs);
              ds = takeWhile is_digit cs1
          in case dropWhile is_digit cs1 of
               [] \<Rightarrow> None
             | f # cs3 \<Rightarrow> do {
                 (bs, ap') \<leftarrow> field_str f ap;
                 rest \<leftarrow> format cs3 ap';
                 Some (padded right (width ds) bs @ rest) })"
  by pat_completeness auto
termination
proof (relation "measure (length o fst)", simp_all, goal_cases)
  case (1 c cs ap f cs3 bs ap')
  have "length (dropWhile is_digit (if cs = [] \<or> hd cs \<noteq> 0x2D then cs else tl cs)) \<le> length cs"
    using length_dropWhile_le[of is_digit cs] length_dropWhile_le[of is_digit "tl cs"] by auto
  then show ?case using 1 by (auto split: if_splits)
qed
declare format.simps(2) [simp del]

section \<open>Formatted output: the implementation meets the specification\<close>

lemma conv_chars:
  "of_char CHR ''s'' = (0x73 :: u8)" "of_char CHR ''c'' = (0x63 :: u8)" "of_char CHR ''d'' = (0x64 :: u8)" "of_char CHR ''u'' = (0x75 :: u8)"
  "of_char CHR ''p'' = (0x70 :: u8)" "of_char CHR ''x'' = (0x78 :: u8)" "of_char CHR ''0'' = (0x30 :: u8)" "of_char CHR ''-'' = (0x2D :: u8)"
  "of_char CHR ''%'' = (0x25 :: u8)"
  by (simp_all add: of_char_def)

lemma strlen_from_str:
  assumes "strlen_from s i = Some n" shows "i \<le> n \<and> str_at s i (map (\<lambda>k. the (s k)) [i..<n])"
proof (rule strlen_from.raw_induct[of "\<lambda>s i n. i \<le> n \<and> str_at s i (map (\<lambda>k. the (s k)) [i..<n])", OF _ assms])
  fix f s i n
  assume ih: "\<And>s i n. f s i = Some n \<Longrightarrow> i \<le> n \<and> str_at s i (map (\<lambda>k. the (s k)) [i..<n])"
    and r: "(do { c \<leftarrow> s i; if c \<noteq> 0 then f s (i + 1) else Some i }) = Some n"
  then obtain c where c: "s i = Some c" by (auto simp: bind_eq_Some_conv)
  show "i \<le> n \<and> str_at s i (map (\<lambda>k. the (s k)) [i..<n])"
  proof (cases "c = 0")
    case True then show ?thesis using r c by simp
  next
    case False
    then have "f s (i + 1) = Some n" using r c by simp
    from ih[OF this] show ?thesis using False c by (simp add: upt_conv_Cons)
  qed
qed

lemma cstr_bytes_str: "cstr_bytes s = Some bs \<Longrightarrow> str_at s 0 bs"
  using strlen_from_str[of s 0] by (auto simp: cstr_bytes_def strlen_def bind_eq_Some_conv)

lemma str_bytes: "str_at s 0 bs \<Longrightarrow> cstr_bytes s = Some bs"
  by (auto simp: cstr_bytes_def str_at_nth intro!: nth_equalityI dest: str_at_nth[where i = 0])

lemma uint_of_int_u32: "uint (word_of_int k :: u32) = k mod 2 ^ 32"
  by (simp add: unsigned_of_int take_bit_eq_mod)

lemma unat_uminus_sint: "sint (w :: u32) < 0 \<Longrightarrow> unat (- w) = nat \<bar>sint w\<bar>"
proof -
  assume n: "sint w < 0"
  have b: "- (2 ^ 31) \<le> sint w" using sint_ge[of w] by simp
  have "uint (- w) = (- sint w) mod 2 ^ 32" using uint_of_int_u32[of "- sint w"] by simp
  also have "\<dots> = - sint w" using n b by simp
  finally show ?thesis using n by (metis abs_of_neg unat_eq_nat_uint)
qed

lemma unat_sint_nonneg: "\<not> sint (w :: u32) < 0 \<Longrightarrow> unat w = nat \<bar>sint w\<bar>"
proof -
  assume n: "\<not> sint w < 0"
  have b: "sint w < 2 ^ 31" using sint_lt[of w] by simp
  have "uint w = sint w mod 2 ^ 32" using uint_of_int_u32[of "sint w"] by simp
  also have "\<dots> = sint w" using n b by simp
  finally show ?thesis using n by (metis abs_of_nonneg not_less unat_eq_nat_uint)
qed

lemma print_field_emit:
  assumes "field_str c ap = Some (bs, ap')"
  shows "print_field sz c ap b = map_option (\<lambda>b1. (ap', b1)) (emit sz bs b)"
proof -
  have ten: "print_num sz w 10 x = emit sz (num_str 10 (unat w)) x" for w x
    using print_num_emit[of 10 sz w x] by simp
  have hex: "print_num sz w 16 x = emit sz (num_str 16 (unat w)) x" for w x
    using print_num_emit[of 16 sz w x] by simp
  have m: "Option.bind e (\<lambda>b1. Some (ap', b1)) = map_option (\<lambda>b1. (ap', b1)) e" for e :: "outbuf option"
    by (cases e) simp_all
  consider "c = 0x73" | "c = 0x63" | "c = 0x64" | "c = 0x75" | "c = 0x70" | "c = 0x78" | "c \<notin> {0x73, 0x63, 0x64, 0x75, 0x70, 0x78}" by blast
  then show ?thesis
  proof cases
    case 1
    then show ?thesis using assms
      by (auto simp: field_str_def print_field_def conv_chars bind_eq_Some_conv m print_str_emit dest!: cstr_bytes_str)
  next
    case 2
    then show ?thesis using assms by (auto simp: field_str_def print_field_def conv_chars bind_eq_Some_conv m emit_single)
  next
    case 3
    obtain w q where va: "va_word ap = Some (w, q)" using assms 3
      by (cases "va_word ap") (auto simp: field_str_def conv_chars)
    then have w: "va_word ap = Some (w, ap')" "w \<noteq> 0x80000000"
      "bs = (if sint w < 0 then lit ''-'' else []) @ num_str 10 (nat \<bar>sint w\<bar>)"
      using assms 3 by (simp_all add: field_str_def conv_chars split: if_split_asm)
    show ?thesis
    proof (cases "sint w < 0")
      case True
      then show ?thesis using 3 w unat_uminus_sint[OF True]
        by (cases "addchar sz 0x2D b") (simp_all add: print_field_def conv_chars ten m emit_Cons lit_def)
    next
      case False
      then show ?thesis using 3 w unat_sint_nonneg[OF False] by (simp add: print_field_def conv_chars ten m)
    qed
  next
    case 4
    then show ?thesis using assms by (auto simp: field_str_def print_field_def conv_chars bind_eq_Some_conv m ten)
  next
    case 5
    then obtain w where w: "va_word ap = Some (w, ap')" "bs = lit ''0x'' @ num_str 16 (unat w)"
      using assms by (auto simp: field_str_def conv_chars bind_eq_Some_conv split: if_splits)
    have l: "lit ''0x'' = [0x30, 0x78]" by (simp add: lit_def conv_chars)
    show ?thesis
    proof (cases "addchar sz 0x30 b")
      case None
      then show ?thesis using 5 by (simp add: print_field_def conv_chars w l emit_Cons)
    next
      case (Some b1)
      then show ?thesis using 5
        by (cases "addchar sz 0x78 b1") (simp_all add: print_field_def conv_chars hex m w l emit_Cons)
    qed
  next
    case 6
    then show ?thesis using assms by (auto simp: field_str_def print_field_def conv_chars bind_eq_Some_conv m hex)
  next
    case 7
    then show ?thesis using assms
      by (auto simp: field_str_def print_field_def conv_chars m emit_single lit_def)
  qed
qed

lemma digit_sint: "is_digit c \<Longrightarrow> sint c - 0x30 = int (unat c - 0x30)"
proof -
  assume "is_digit c"
  then have b: "0x30 \<le> unat c" "unat c \<le> 0x39" by (simp_all add: is_digit_def word_le_nat_alt)
  have "sint (of_nat k :: u8) = int k" if "k < 128" for k
    using that by (subst signed_of_nat) (simp add: signed_take_bit_int_eq_self)
  from this[of "unat c"] have "sint c = int (unat c)" using b by simp
  then show ?thesis using b by simp
qed

lemma digits_mono: "n \<le> foldl (\<lambda>n d. n * 10 + (unat d - 0x30)) n (ds :: u8 list)"
proof (induction ds arbitrary: n)
  case (Cons d ds)
  show ?case using Cons.IH[of "n * 10 + (unat d - 0x30)"] by simp
qed simp

lemma pad_digits_ok:
  "str_at fmt i cs \<Longrightarrow> foldl (\<lambda>n d. n * 10 + (unat d - 0x30)) n (takeWhile is_digit cs) + 0x30 < 2 ^ 31 \<Longrightarrow> pad_digits fmt i (int n) =
     Some (i + length (takeWhile is_digit cs), int (foldl (\<lambda>n d. n * 10 + (unat d - 0x30)) n (takeWhile is_digit cs)))"
proof (induction cs arbitrary: i n)
  case Nil
  then show ?case by (simp add: pad_digits.simps)
next
  case (Cons c cs)
  show ?case
  proof (cases "is_digit c")
    case True
    have e: "int n * 10 + sint c - 0x30 = int (n * 10 + (unat c - 0x30))" using digit_sint[OF True] by simp
    have "n * 10 + (unat c - 0x30) \<le> foldl (\<lambda>n d. n * 10 + (unat d - 0x30)) n (takeWhile is_digit (c # cs))"
      using digits_mono[of "n * 10 + (unat c - 0x30)" "takeWhile is_digit cs"] True by simp
    then have "n * 10 + (unat c - 0x30) + 0x30 < 2 ^ 31" using Cons.prems(2) by (rule le_less_trans[OF add_right_mono])
    then have "int n * 10 + sint c < 2 ^ 31" using e by simp
    then have "pad_digits fmt i (int n) = pad_digits fmt (i + 1) (int n * 10 + sint c - 0x30)"
      using Cons.prems(1) True by (subst pad_digits.simps) (simp add: is_digit_def)
    then have "pad_digits fmt i (int n) = pad_digits fmt (i + 1) (int (n * 10 + (unat c - 0x30)))" unfolding e .
    then show ?thesis using Cons.IH[of "i + 1" "n * 10 + (unat c - 0x30)"] Cons.prems True by simp
  next
    case False
    then show ?thesis using Cons.prems by (auto simp: pad_digits.simps is_digit_def)
  qed
qed

lemma pad_left:
  assumes "w < 2 ^ 31" "l < 2 ^ 31"
  shows "nat (sint (of_nat w - of_nat l :: u32)) = w - l"
proof -
  have "(of_nat w - of_nat l :: u32) = word_of_int (int w - int l)" by simp
  moreover have "sint (word_of_int k :: u32) = k" if "- (2 ^ 31) \<le> k" "k < 2 ^ 31" for k
    using that by (simp add: signed_of_int signed_take_bit_int_eq_self)
  from this[of "int w - int l"] have "sint (word_of_int (int w - int l) :: u32) = int w - int l" using assms by simp
  ultimately have "sint (of_nat w - of_nat l :: u32) = int w - int l" by (simp only:)
  then show ?thesis by (simp only: nat_diff_distrib' nat_int)
qed

lemma conversion_ok:
  assumes fmt: "str_at fmt i cs" and right: "right = (cs = [] \<or> hd cs \<noteq> 0x2D)" and cs1: "cs1 = (if right then cs else tl cs)"
    and dw: "dropWhile is_digit cs1 = f # cs3" and fs: "field_str f ap = Some (bs, ap')" and b: "buf_shows sz out b"
    and fit: "length (out @ padded right (width (takeWhile is_digit cs1)) bs) + 0x30 < 2 ^ 31"
  shows "\<exists>j b'. conversion sz fmt i ap b = Some (j, ap', b') \<and> str_at fmt (j + 1) cs3 \<and>
     buf_shows sz (out @ padded right (width (takeWhile is_digit cs1)) bs) b'"
proof -
  let ?ds = "takeWhile is_digit cs1" let ?i1 = "if right then i else i + 1" let ?j = "?i1 + length ?ds"
  have c0: "fmt i = Some (if cs = [] then 0 else hd cs)" using fmt by (cases cs) auto
  have r0: "((if cs = [] then 0 else hd cs) \<noteq> 0x2D) = right" using right by auto
  have f1: "str_at fmt ?i1 cs1" using fmt right cs1 by (cases cs) auto
  have lp: "length (padded right (width ?ds) bs) = max (width ?ds) (length bs)" by (auto simp: padded_def max_def)
  then have w: "width ?ds + 0x30 < 2 ^ 31" "length bs < 2 ^ 31" "length out + length bs < 2 ^ 32 - 1" "length out + width ?ds < 2 ^ 32 - 1"
    using fit by simp_all
  have "pad_digits fmt ?i1 (int 0) = Some (?j, int (width ?ds))" using pad_digits_ok[OF f1, of 0] w(1) by (simp only: width_def)
  then have pd: "pad_digits fmt ?i1 0 = Some (?j, int (width ?ds))" by simp
  have "cs1 = ?ds @ f # cs3" using dw by (metis takeWhile_dropWhile_id)
  then have fj: "fmt ?j = Some f" "str_at fmt (?j + 1) cs3" using str_at_append[of fmt ?i1 ?ds "f # cs3"] f1 by auto
  have pos: "snd b = of_nat (length out)" using b by (simp add: buf_shows_def)
  have lb: "length (out @ bs) < 2 ^ 32 - 1" using w(3) by simp
  obtain b1 where b1: "emit sz bs b = Some b1" "buf_shows sz (out @ bs) b1" using buf_shows_emit[OF b lb] by blast
  have "snd b1 - snd b = of_nat (length bs)" using b1(2) pos by (simp add: buf_shows_def)
  then have pad: "nat (sint (of_int (int (width ?ds)) - (snd b1 - snd b) :: u32)) = width ?ds - length bs"
    using pad_left[of "width ?ds" "length bs"] w by simp
  have lr: "length (out @ replicate (width ?ds - length bs) 0x20) < 2 ^ 32 - 1"
    "length ((out @ replicate (width ?ds - length bs) 0x20) @ bs) < 2 ^ 32 - 1"
    "length ((out @ bs) @ replicate (width ?ds - length bs) 0x20) < 2 ^ 32 - 1" using fit lp by auto
  have i1: "(if (if cs = [] then 0 else hd cs) = 0x2D then i + 1 else i) = ?i1" using r0 by auto
  show ?thesis
  proof (cases right)
    case True
    have rw: "buf_shows sz out (fst b1, snd b)" using buf_shows_rewind[OF b1(2)] pos by simp
    obtain b2 where b2: "emit sz (replicate (width ?ds - length bs) 0x20) (fst b1, snd b) = Some b2"
      "buf_shows sz (out @ replicate (width ?ds - length bs) 0x20) b2" using buf_shows_emit[OF rw lr(1)] by blast
    obtain b3 where b3: "emit sz bs b2 = Some b3" "buf_shows sz ((out @ replicate (width ?ds - length bs) 0x20) @ bs) b3"
      using buf_shows_emit[OF b2(2) lr(2)] by blast
    have "conversion sz fmt i ap b = Some (?j, ap', b3)"
      using c0 r0 pd fj(1) i1 True pad print_field_emit[OF fs, of sz] b1(1) b2(1) b3(1)
      by (simp add: conversion_def add_padding_emit)
    then show ?thesis using fj(2) b3(2) True by (auto simp: padded_def)
  next
    case False
    obtain b2 where b2: "emit sz (replicate (width ?ds - length bs) 0x20) b1 = Some b2"
      "buf_shows sz ((out @ bs) @ replicate (width ?ds - length bs) 0x20) b2" using buf_shows_emit[OF b1(2) lr(3)] by blast
    have "conversion sz fmt i ap b = Some (?j, ap', b2)"
      using c0 r0 pd fj(1) i1 False pad print_field_emit[OF fs, of sz] b1(1) b2(1)
      by (simp add: conversion_def add_padding_emit)
    then show ?thesis using fj(2) b2(2) False by (auto simp: padded_def)
  qed
qed

lemma vsnprintf_loop_ok:
  assumes "str_at fmt i fs" "format fs ap = Some out" "buf_shows sz acc b" "length (acc @ out) + 0x30 < 2 ^ 31"
  shows "\<exists>b'. vsnprintf_loop sz fmt i ap b = Some b' \<and> buf_shows sz (acc @ out) b'"
  using assms
proof (induction "length fs" arbitrary: fs i ap out acc b rule: less_induct)
  case less
  show ?case
  proof (cases fs)
    case Nil
    then show ?thesis using less.prems by (simp add: vsnprintf_loop.simps)
  next
    case [simp]: (Cons c cs)
    have fi: "fmt i = Some c" "c \<noteq> 0" "str_at fmt (i + 1) cs" using less.prems(1) by simp_all
    show ?thesis
    proof (cases "c = of_char CHR ''%''")
      case False
      obtain out' where o: "format cs ap = Some out'" "out = c # out'"
        using less.prems(2) False by (auto simp: format.simps(2))
      obtain b1 where b1: "addchar sz c b = Some b1" "buf_shows sz (acc @ [c]) b1"
        using buf_shows_addchar[OF less.prems(3)] less.prems(4) by fastforce
      obtain b' where "vsnprintf_loop sz fmt (i + 1) ap b1 = Some b'" "buf_shows sz ((acc @ [c]) @ out') b'"
        using less.hyps[OF _ fi(3) o(1) b1(2)] less.prems(4) o(2) by auto
      then show ?thesis using fi False b1(1) o(2) by (subst vsnprintf_loop.simps) simp
    next
      case True
      define right where "right = (cs = [] \<or> hd cs \<noteq> 0x2D)"
      define cs1 where "cs1 = (if right then cs else tl cs)"
      have "(case dropWhile is_digit cs1 of [] \<Rightarrow> None | f # cs3 \<Rightarrow> do {
          (bs, ap') \<leftarrow> field_str f ap; rest \<leftarrow> format cs3 ap'; Some (padded right (width (takeWhile is_digit cs1)) bs @ rest) }) = Some out"
        using less.prems(2) True unfolding Cons format.simps(2) Let_def cs1_def right_def by (simp only: simp_thms if_False)
      then obtain f cs3 bs ap' rest where d: "dropWhile is_digit cs1 = f # cs3" "field_str f ap = Some (bs, ap')"
        "format cs3 ap' = Some rest" "out = padded right (width (takeWhile is_digit cs1)) bs @ rest"
        by (auto simp: bind_eq_Some_conv split: list.splits)
      obtain j b1 where cv: "conversion sz fmt (i + 1) ap b = Some (j, ap', b1)" "str_at fmt (j + 1) cs3"
        "buf_shows sz (acc @ padded right (width (takeWhile is_digit cs1)) bs) b1"
        using conversion_ok[OF fi(3) right_def cs1_def d(1,2) less.prems(3)] less.prems(4) d(4) by fastforce
      have "length (f # cs3) \<le> length cs1" unfolding d(1)[symmetric] by (rule length_dropWhile_le)
      then have len: "length cs3 < length fs" by (auto simp: cs1_def split: if_splits)
      obtain b' where "vsnprintf_loop sz fmt (j + 1) ap' b1 = Some b'"
        "buf_shows sz ((acc @ padded right (width (takeWhile is_digit cs1)) bs) @ rest) b'"
        using less.hyps[OF len cv(2) d(3) cv(3)] less.prems(4) d(4) by auto
      then show ?thesis using fi True cv(1) d(4) by (subst vsnprintf_loop.simps) simp
    qed
  qed
qed

section \<open>Parsing numbers\<close>

lemma digit_char: "d < 10 \<Longrightarrow> strchr (arr (lit ''0123456789'' @ [0])) (sint (hexdigits ! d)) = Some (Some d) \<and>
   hexdigits ! d \<noteq> 0 \<and> hexdigits ! d \<notin> {0x20, 9, 0x2D, 0x2B}"
proof -
  have "\<forall>d \<in> set [0..<10]. strchr (arr (lit ''0123456789'' @ [0])) (sint (hexdigits ! d)) = Some (Some d) \<and>
   hexdigits ! d \<noteq> 0 \<and> hexdigits ! d \<notin> {0x20, 9, 0x2D, 0x2B}" by code_simp
  then show "d < 10 \<Longrightarrow> ?thesis" by simp
qed

lemma atoi_digits_ok:
  "str_at s i (map (\<lambda>d. hexdigits ! d) ds) \<Longrightarrow> (\<forall>d \<in> set ds. d < 10) \<Longrightarrow>
   atoi_digits s i val = Some (foldl (\<lambda>v d. v * 10 + of_nat d) val ds)"
proof (induction ds arbitrary: i val)
  case Nil
  then show ?case by (simp add: atoi_digits.simps)
next
  case (Cons d ds)
  have "atoi_digits s i val = atoi_digits s (i + 1) (val * 10 + of_nat d)"
    using Cons.prems digit_char[of d] by (subst atoi_digits.simps) simp
  then show ?case using Cons by simp
qed

lemma foldl_of_nat: "foldl (\<lambda>v d. v * 10 + of_nat d) (of_nat n :: u32) ds = of_nat (foldl (\<lambda>v d. v * 10 + d) n ds)"
proof (induction ds arbitrary: n)
  case (Cons d ds)
  from Cons.IH[of "n * 10 + d"] show ?case by simp
qed simp

lemma atoi_num_str:
  assumes "str_at s i (num_str 10 n)"
  shows "atoi_digits s i 0 = Some (of_nat n)"
proof -
  have "\<forall>d \<in> set (nat_digits 10 n). d < 10" using nat_digits_less[of 10] by auto
  from atoi_digits_ok[OF _ this] assms have "atoi_digits s i 0 = Some (foldl (\<lambda>v d. v * 10 + of_nat d) (of_nat 0) (nat_digits 10 n))"
    by (simp add: num_str_def)
  then show ?thesis using foldl_of_nat[of 0] nat_digits_value[of 10 n] by simp
qed

text \<open>The first character of a printed number is neither a blank nor a sign.\<close>

lemma num_str_first: "\<exists>c cs. num_str 10 n = c # cs \<and> c \<notin> {0x20, 9, 0x2D, 0x2B}"
proof -
  obtain d ds where "nat_digits 10 n = d # ds" using nat_digits_ne[of 10 n] by (cases "nat_digits 10 n") auto
  then show ?thesis using nat_digits_less[of 10 d n] digit_char[of d] by (auto simp: num_str_def)
qed

lemma num_str_nonzero: "0 \<notin> set (num_str 10 n)"
  using nat_digits_less[of 10 _ n] digit_char by (fastforce simp: num_str_def)

lemma atoi_signed:
  assumes "str_at s 0 ((if neg then [0x2D] else []) @ num_str 10 n)"
  shows "atoi s = Some (sint (if neg then - (of_nat n) else of_nat n :: u32))"
proof -
  obtain c cs where c: "num_str 10 n = c # cs" "c \<notin> {0x20, 9, 0x2D, 0x2B}" using num_str_first by blast
  have f: "s 0 = Some (if neg then 0x2D else c)" using assms c by auto
  have sk: "atoi_skip s 0 = Some 0" using f c by (subst atoi_skip.simps) auto
  have "str_at s (if neg then 1 else 0) (num_str 10 n)" using assms by (auto split: if_splits)
  then have "atoi_digits s (if neg then 1 else 0) 0 = Some (of_nat n)" by (rule atoi_num_str)
  then show ?thesis using sk f c by (auto simp: atoi_def)
qed

lemma vsnprintf_ok:
  assumes "str_at fmt 0 fs" "format fs ap = Some out" "length str = sz" "0 < sz" "length out + 0x30 < 2 ^ 31"
  shows "\<exists>rest. vsnprintf str sz fmt ap = Some (int (length out), take (sz - 1) out @ 0 # rest) \<and>
     length (take (sz - 1) out @ 0 # rest) = sz"
proof -
  have "buf_shows sz [] (str, 0)" using assms(3) by (simp add: buf_shows_def)
  from vsnprintf_loop_ok[OF assms(1,2) this] assms(5) obtain b' where
    b: "vsnprintf_loop sz fmt 0 ap (str, 0) = Some b'" "buf_shows sz out b'" by auto
  obtain st1 pos where b': "b' = (st1, pos)" by (cases b')
  let ?k = "length (take (sz - 1) out)"
  have p: "pos = of_nat (length out)" using b(2) by (simp add: buf_shows_def b')
  have "length out + 1 < 2 ^ 32" using assms(5) by simp
  then have h: "length st1 = sz" "unat pos = length out" "unat (pos + 1) = length out + 1" "take ?k st1 = take (sz - 1) out"
    using b(2) unfolding p by (auto simp: buf_shows_def b' pos_unat[of "length out"])
  have r: "sint pos = int (length out)" using assms(5) unfolding p by (subst signed_of_nat) (simp add: signed_take_bit_int_eq_self)
  have k: "?k < sz" using assms(4) by auto
  have "vsnprintf str sz fmt ap = Some (int (length out), st1[?k := 0])"
  proof (cases "length out + 1 < sz")
    case True
    then show ?thesis using b(1) b' h r assms(4) by (simp add: vsnprintf_def)
  next
    case False
    then have "?k = sz - 1" by simp
    then show ?thesis using b(1) b' h r assms(4) False unfolding \<open>?k = sz - 1\<close> by (simp add: vsnprintf_def)
  qed
  moreover have "st1[?k := 0] = take (sz - 1) out @ 0 # drop (Suc ?k) st1"
    using upd_conv_take_nth_drop[of ?k st1 0] h k by simp
  ultimately show ?thesis using h k by (metis length_list_update)
qed

text \<open>The text of a signed number.\<close>

definition signed_str :: "u32 \<Rightarrow> u8 list" where
  "signed_str w = (if sint w < 0 then [0x2D] else []) @ num_str 10 (nat \<bar>sint w\<bar>)"

lemma percent_d: "str_at (arr (lit ''%d'' @ [0])) 0 (lit ''%d'')" by code_simp

lemma format_percent_d: "w \<noteq> 0x80000000 \<Longrightarrow> format (lit ''%d'') [Word w] = Some (signed_str w)"
proof -
  have "lit ''%d'' = [0x25, 0x64]" by (simp add: lit_def conv_chars)
  then show "w \<noteq> 0x80000000 \<Longrightarrow> ?thesis"
    by (simp add: format.simps conv_chars field_str_def va_word_def is_digit_def padded_def width_def lit_def signed_str_def)
qed

lemma length_signed_str: "length (signed_str w) \<le> 11"
proof -
  let ?n = "nat \<bar>sint w\<bar>"
  have "?n < 10 ^ 10" using sint_ge[of w] sint_lt[of w] by simp
  moreover have "10 ^ (length (nat_digits 10 ?n) - 1) \<le> ?n" if "?n \<noteq> 0" using nat_digits_length_le[of 10 ?n] that by simp
  ultimately have "length (nat_digits 10 ?n) - 1 < 10" if "?n \<noteq> 0"
    using that by (metis le_less_trans nat_power_less_imp_less zero_less_numeral)
  moreover have "length (nat_digits 10 0) = 1" by (subst nat_digits.simps) simp
  ultimately have "length (nat_digits 10 ?n) \<le> 10" by (cases "?n = 0") auto
  then show ?thesis by (auto simp: signed_str_def num_str_def)
qed

lemma signed_of_abs: "(if sint w < 0 then - (of_nat (nat \<bar>sint w\<bar>)) else of_nat (nat \<bar>sint w\<bar>) :: u32) = w"
proof (cases "sint w < 0")
  case True
  then have "of_nat (unat (- w)) = (of_nat (nat \<bar>sint w\<bar>) :: u32)" using unat_uminus_sint by simp
  then have "of_nat (nat \<bar>sint w\<bar>) = - w" by simp
  then show ?thesis using True by simp
next
  case False
  then have "of_nat (unat w) = (of_nat (nat \<bar>sint w\<bar>) :: u32)" using unat_sint_nonneg by simp
  then show ?thesis using False by simp
qed

section \<open>Properties of the C library\<close>

text \<open>C24: Formatted output is correct and stays in its buffer: for every text of less than
  2147483600 characters, which the position, a 32-bit word, and the width of a field, an int, can count, vsnprintf
  returns the length of the text that the format and its arguments denote, the buffer holds the
  first size-1 characters of that text followed by a terminator, and nothing outside the buffer is
  written.\<close>

theorem vsnprintf_format:
  assumes "str_at fmt 0 fs" "format fs ap = Some out" "length str = sz" "0 < sz" "length out < 2147483600"
  shows "\<exists>rest. vsnprintf str sz fmt ap = Some (int (length out), take (sz - 1) out @ 0 # rest) \<and>
     length (take (sz - 1) out @ 0 # rest) = sz"
  by (rule vsnprintf_ok[OF assms(1-4)]) (use assms(5) in simp)

theorem vsnprintf_format_witness:
  "\<exists>rest. vsnprintf (replicate 6 7) 6 (arr (lit ''%4d!'' @ [0])) [Word 5] = Some (5, lit ''   5!'' @ 0 # rest)"
proof -
  have "str_at (arr (lit ''%4d!'' @ [0])) 0 (lit ''%4d!'')" by code_simp
  moreover have "format (lit ''%4d!'') [Word 5] = Some (lit ''   5!'')" by code_simp
  moreover have "length (replicate 6 (7::u8)) = 6" "(0::nat) < 6" "length (lit ''   5!'') < 2147483600" by (simp_all add: lit_def)
  ultimately show ?thesis using vsnprintf_format[of "arr (lit ''%4d!'' @ [0])" "lit ''%4d!''" "[Word 5]" "lit ''   5!''" "replicate 6 7" 6]
    by (auto simp: lit_def)
qed

text \<open>C25: Parsing inverts printing: what snprintf writes for %d is read back by atoi as the same
  number, for every int that can be negated and any buffer of at least 12 bytes.\<close>

theorem atoi_inverts_printf:
  assumes "w \<noteq> 0x80000000" "12 \<le> sz" "length buf = sz"
  shows "\<exists>n str. snprintf buf sz (arr (lit ''%d'' @ [0])) [Word w] = Some (n, str) \<and> n < int sz \<and> atoi (arr str) = Some (sint w)"
proof -
  let ?neg = "sint w < 0" let ?n = "nat \<bar>sint w\<bar>"
  have len: "length (signed_str w) \<le> 11" by (rule length_signed_str)
  obtain rest where v: "vsnprintf buf sz (arr (lit ''%d'' @ [0])) [Word w] = Some (int (length (signed_str w)), take (sz - 1) (signed_str w) @ 0 # rest)"
    using vsnprintf_ok[OF percent_d format_percent_d[OF assms(1)] assms(3)] assms(2) len by fastforce
  have nz: "0 \<notin> set (signed_str w)" using num_str_nonzero by (auto simp: signed_str_def)
  have "take (sz - 1) (signed_str w) = signed_str w" using len assms(2) by simp
  then have "str_at (arr (take (sz - 1) (signed_str w) @ 0 # rest)) 0 (signed_str w)" using str_at_arr0[OF nz] by simp
  from atoi_signed[OF this[unfolded signed_str_def]]
  have "atoi (arr (take (sz - 1) (signed_str w) @ 0 # rest)) = Some (sint w)"
    using signed_of_abs[of w] by (auto simp: signed_str_def split: if_splits)
  then show ?thesis using v len assms(2) by (simp add: snprintf_def)
qed

theorem atoi_inverts_printf_witness:
  "\<exists>n str. snprintf (replicate 16 0) 16 (arr (lit ''%d'' @ [0])) [Word (- 42)] = Some (n, str) \<and> atoi (arr str) = Some (- 42)"
  using atoi_inverts_printf[of "- 42" 16 "replicate 16 0"] by auto

text \<open>
  \<open>memmove\<close> copies upwards, byte by byte. The bytes it will still read are intact as long as the
  destination does not start inside the source region.
\<close>

definition copy_ok :: "u32 \<Rightarrow> u32 \<Rightarrow> nat \<Rightarrow> bool" where
  "copy_ok dest src n \<longleftrightarrow> dest = src \<or> n \<le> unat (dest - src)"

lemma copy_ok_unread:
  assumes "copy_ok dest src n" "i < j" "j < n" "n \<le> 2 ^ 32"
  shows "src + of_nat j \<noteq> dest + of_nat i"
proof
  assume "src + of_nat j = dest + of_nat i"
  then have "dest - src = of_nat j - of_nat i" by (simp add: algebra_simps)
  also have "\<dots> = (of_nat (j - i) :: u32)" using assms(2) by (simp add: of_nat_diff)
  finally have e: "dest - src = of_nat (j - i)" .
  have "unat (dest - src) = j - i" unfolding e using assms by (simp add: unat_of_nat del: of_nat_diff)
  then show False using assms by (auto simp: copy_ok_def)
qed

text \<open>Memory after the first \<open>n\<close> bytes at \<open>dest\<close> have been replaced by those that were at \<open>src\<close>.\<close>

definition copied :: "u32 \<Rightarrow> u32 \<Rightarrow> nat \<Rightarrow> vmem \<Rightarrow> vmem" where
  "copied dest src n m = (\<lambda>a. if unat (a - dest) < n then m (src + (a - dest)) else m a)"

lemma copied_step:
  assumes ok: "copy_ok dest src n" and n: "n \<le> 2 ^ 32" and k: "k < n"
    and m: "m (src + of_nat k) = Some v" "m (dest + of_nat k) \<noteq> None"
  shows "copied dest src k m (src + of_nat k) = Some v"
    "put8 (dest + of_nat k) v (copied dest src k m) = Some (copied dest src (Suc k) m)"
proof -
  have uk: "unat (of_nat k :: u32) = k" using n k by (simp add: unat_of_nat)
  have "\<not> unat (src + of_nat k - dest) < k"
  proof
    assume lt: "unat (src + of_nat k - dest) < k"
    have "src + of_nat k = dest + of_nat (unat (src + of_nat k - dest))" by simp
    then show False using copy_ok_unread[OF ok lt k n] by blast
  qed
  then show "copied dest src k m (src + of_nat k) = Some v" using m(1) by (simp add: copied_def)
  have "unat (a - dest) = k \<longleftrightarrow> a = dest + of_nat k" for a
    using uk by (metis add_diff_cancel_left' diff_add_cancel add.commute word_unat_eq_iff)
  then have "copied dest src (Suc k) m = (copied dest src k m)(dest + of_nat k \<mapsto> v)"
    using m(1) uk by (auto simp: copied_def fun_eq_iff less_Suc_eq)
  moreover have "copied dest src k m (dest + of_nat k) = m (dest + of_nat k)" using uk by (simp add: copied_def)
  ultimately show "put8 (dest + of_nat k) v (copied dest src k m) = Some (copied dest src (Suc k) m)"
    using m(2) by (auto simp: put8_def)
qed

text \<open>memmove copies exactly: every byte of the destination gets the byte the source held before
  the call and no other byte changes, whenever the destination does not start inside the source
  region behind its first byte (in particular when data is moved downwards, as the pipes do).\<close>

lemma memmove_copies:
  assumes "copy_ok dest src (unat len)" "\<forall>i < unat len. m (src + of_nat i) \<noteq> None \<and> m (dest + of_nat i) \<noteq> None"
  shows "memmove dest src len m = Some (copied dest src (unat len) m)"
proof -
  have n: "unat len \<le> 2 ^ 32" using unat_u32_less[of len] by simp
  have "\<exists>m'. fold_opt (\<lambda>pos m. do { v \<leftarrow> m (src + of_nat pos); put8 (dest + of_nat pos) v m }) [0..<unat len] m = Some m' \<and>
      m' = copied dest src (unat len) m"
  proof (rule fold_opt_inv)
    show "m = copied dest src 0 m" by (simp add: copied_def)
    fix k s assume k: "k < unat len" and s: "s = copied dest src k m"
    obtain v where "m (src + of_nat k) = Some v" "m (dest + of_nat k) \<noteq> None" using assms(2) k by blast
    from copied_step[OF assms(1) n k this] s
    show "\<exists>s'. (do { v \<leftarrow> s (src + of_nat k); put8 (dest + of_nat k) v s }) = Some s' \<and> s' = copied dest src (Suc k) m" by simp
  qed
  then show ?thesis by (simp add: memmove_def)
qed

text \<open>Moving data upwards within a region repeats its first byte instead.\<close>

lemma memmove_overlap:
  "(case memmove 0x101 0x100 2 (\<lambda>a. Some (ucast a)) of None \<Rightarrow> None | Some m \<Rightarrow> Some (m 0x102, copied 0x101 0x100 2 (\<lambda>a. Some (ucast a)) 0x102))
     = Some (Some 0, Some 1)"
  by code_simp

text \<open>
  Where the string functions differ from their description: a string is below its proper prefixes,
  and two equal strings shorter than the limit are not equal for \<open>strncmp\<close>.
\<close>

lemma strcmp_prefix: "strcmp (arr [97, 0]) (arr [0]) = Some (- 1)" "strcmp (arr [0]) (arr [97, 0]) = Some 1"
  by code_simp+

lemma strncmp_equal: "strncmp (arr [97, 0]) (arr [97, 0]) 5 = Some 1"
  by code_simp

end
