(* ===== verification/Filesystem_Correct.thy ===== *)
theory Filesystem_Correct
  imports Filesystem Libc_Correct
begin

text \<open>
  Correctness of the file system: an image in memory represents a tree of directories and
  files, and \<open>get_directory_entry\<close> finds in the image what a search of the tree finds; and
  \<open>relative_to_absolute\<close> computes on path strings what is easily said of lists of components.
\<close>

section \<open>Components of a path\<close>

abbreviation slash :: u8 where "slash \<equiv> 0x2F"

text \<open>The non-empty parts between slashes; \<open>got\<close> is the part that has been scanned already.\<close>

fun comps_from :: "u8 list \<Rightarrow> u8 list \<Rightarrow> u8 list list" where
  "comps_from got [] = (if got = [] then [] else [got])"
| "comps_from got (c # cs) = (if c = slash then (if got = [] then comps_from [] cs else got # comps_from [] cs)
     else comps_from (got @ [c]) cs)"

abbreviation comps :: "u8 list \<Rightarrow> u8 list list" where "comps \<equiv> comps_from []"

lemma strncmp_prefix:
  assumes "str_at s 0 xs" "\<And>j. j < length xs \<Longrightarrow> t j = Some (ys ! j)"
  shows "\<exists>r. strncmp s t (length xs) = Some r \<and> (r = 0 \<longleftrightarrow> (\<forall>j < length xs. xs ! j = ys ! j))"
proof -
  have nz: "0 \<notin> set xs" by (rule str_at_nonzero[OF assms(1)])
  have "s (0 + j) = Some (xs ! j) \<and> t (0 + j) = Some (ys ! j) \<and> xs ! j \<noteq> 0" if "j < length xs" for j
    using str_at_nth[OF assms(1) that] assms(2)[OF that] nth_mem[OF that] nz by (metis add_0)
  from strncmp_from_ok[where s = s and t = t and i = 0 and n = "length xs" and f = "\<lambda>j. xs ! j" and g = "\<lambda>j. ys ! j", OF this]
  show ?thesis by (simp add: strncmp_def)
qed

section \<open>Directory trees\<close>

datatype fsnode = FFile "u8 list" | FDir "(u8 list \<times> fsnode) list"

text \<open>The entry at address \<open>e\<close> of the image at \<open>fs\<close> and all that is below it, as a tree.\<close>

inductive represents :: "vmem \<Rightarrow> u32 \<Rightarrow> u32 \<Rightarrow> fsnode \<Rightarrow> bool" for m fs where
  is_file: "\<lbrakk> ent_type m e = Some TYPE_FILE; ent_size m e = Some sz; ent_location m e = Some loc; ent_mode m e = Some md; length d = unat sz;
     \<forall>i < length d. m (fs + loc + of_nat i) = Some (d ! i) \<rbrakk> \<Longrightarrow> represents m fs e (FFile d)"
| is_dir: "\<lbrakk> ent_type m e = Some TYPE_DIR; ent_size m e = Some sz; ent_location m e = Some loc; ent_mode m e = Some md; dir_count m (fs + loc) = Some cnt; length es = unat cnt;
     \<forall>i < length es. dir_entry (fs + loc) i \<noteq> 0 \<and> str_at (ent_name m (dir_entry (fs + loc) i)) 0 (fst (es ! i)) \<and>
       represents m fs (dir_entry (fs + loc) i) (snd (es ! i)) \<rbrakk> \<Longrightarrow> represents m fs e (FDir es)"

inductive_cases represents_fileE: "represents m fs e (FFile d)"
inductive_cases represents_dirE: "represents m fs e (FDir es)"

fun tree_find :: "fsnode \<Rightarrow> u8 list list \<Rightarrow> fsnode option" where
  "tree_find n [] = Some n"
| "tree_find (FFile d) (c # cs) = None"
| "tree_find (FDir es) (c # cs) = (case map_of es c of None \<Rightarrow> None | Some n \<Rightarrow> tree_find n cs)"

text \<open>A path names the node at its components; a file must not be followed by a slash.\<close>

definition path_find :: "fsnode \<Rightarrow> u8 list \<Rightarrow> fsnode option" where
  "path_find n p = (case tree_find n (comps p) of
     Some (FFile d) \<Rightarrow> if p \<noteq> [] \<and> last p = slash then None else Some (FFile d)
   | r \<Rightarrow> r)"

lemma lookup_loop_ok:
  assumes ents: "\<forall>i < length es. dir_entry dir i \<noteq> 0 \<and> str_at (ent_name m (dir_entry dir i)) 0 (fst (es ! i))"
    and name: "\<And>j. j < length c \<Longrightarrow> name j = Some (c ! j)" and k: "i + k = length es"
  shows "lookup_loop m dir name (length c) i k = Some 0 \<and> map_of (drop i es) c = None \<or>
    (\<exists>j < length es. lookup_loop m dir name (length c) i k = Some (dir_entry dir j) \<and> map_of (drop i es) c = Some (snd (es ! j)))"
  using k
proof (induction k arbitrary: i)
  case 0
  then show ?case by simp
next
  case (Suc k)
  let ?n = "fst (es ! i)" let ?s = "ent_name m (dir_entry dir i)"
  have i: "i < length es" using Suc.prems by simp
  have s: "str_at ?s 0 ?n" using ents i by blast
  have d: "drop i es = es ! i # drop (Suc i) es" using i by (simp add: Cons_nth_drop_Suc)
  have "\<exists>hit. (if length ?n = length c then do { r \<leftarrow> strncmp ?s name (length c); Some (r = 0) } else Some False) = Some hit \<and>
      (hit \<longleftrightarrow> ?n = c)"
  proof (cases "length ?n = length c")
    case True
    then show ?thesis using strncmp_prefix[OF s, of name c] name by (auto simp: list_eq_iff_nth_eq)
  next
    case False
    then show ?thesis by auto
  qed
  then obtain hit where hit: "(if length ?n = length c then do { r \<leftarrow> strncmp ?s name (length c); Some (r = 0) } else Some False) = Some hit"
    "hit \<longleftrightarrow> ?n = c" by blast
  show ?case
  proof (cases "?n = c")
    case True
    then show ?thesis using hit strlen_ok[OF s] i d by (intro disjI2 exI[of _ i]) (simp add: map_of_Cons_code split: prod.splits)
  next
    case False
    then have "lookup_loop m dir name (length c) i (Suc k) = lookup_loop m dir name (length c) (i + 1) k"
      using hit strlen_ok[OF s] by simp
    moreover have "map_of (drop i es) c = map_of (drop (i + 1) es) c"
      using False by (simp add: d map_of_Cons_code split: prod.splits)
    ultimately show ?thesis using Suc.IH[of "i + 1"] Suc.prems by simp
  qed
qed

text \<open>\<open>lookup\<close> in a directory that represents \<open>es\<close>.\<close>

lemma lookup_ok:
  assumes r: "represents m fs e (FDir es)" "ent_location m e = Some loc"
    and name: "\<And>j. j < length c \<Longrightarrow> name j = Some (c ! j)"
  shows "(case map_of es c of None \<Rightarrow> lookup m (fs + loc) name (length c) = Some 0
    | Some n \<Rightarrow> \<exists>e'. lookup m (fs + loc) name (length c) = Some e' \<and> e' \<noteq> 0 \<and> represents m fs e' n)"
proof -
  obtain cnt where cnt: "dir_count m (fs + loc) = Some cnt" "length es = unat cnt"
    "\<forall>i < length es. dir_entry (fs + loc) i \<noteq> 0 \<and> str_at (ent_name m (dir_entry (fs + loc) i)) 0 (fst (es ! i)) \<and>
       represents m fs (dir_entry (fs + loc) i) (snd (es ! i))"
    using r by (auto elim!: represents_dirE)
  then have "\<forall>i < length es. dir_entry (fs + loc) i \<noteq> 0 \<and> str_at (ent_name m (dir_entry (fs + loc) i)) 0 (fst (es ! i))" by blast
  from lookup_loop_ok[OF this, of c name 0 "unat cnt"] name cnt show ?thesis
    by (auto simp: lookup_def split: option.splits)
qed

text \<open>The search along the characters of a path, in the tree; \<open>got\<close> is the component read so far.\<close>

fun walk :: "(u8 list \<times> fsnode) list \<Rightarrow> u8 list \<Rightarrow> u8 list \<Rightarrow> fsnode option" where
  "walk es got [] = (if got = [] then Some (FDir es) else map_of es got)"
| "walk es got (c # cs) = (if c = slash then
       (if got = [] then walk es [] cs else (case map_of es got of Some (FDir es') \<Rightarrow> walk es' [] cs | _ \<Rightarrow> None))
     else walk es (got @ [c]) cs)"

lemma tree_find_FFile: "tree_find (FFile d) cs = (if cs = [] then Some (FFile d) else None)"
  by (cases cs) auto

lemma walk_path: "slash \<notin> set got \<Longrightarrow> walk es got cs =
  (case tree_find (FDir es) (comps_from got cs) of
     Some (FFile d) \<Rightarrow> if cs \<noteq> [] \<and> last cs = slash then None else Some (FFile d)
   | r \<Rightarrow> r)"
proof (induction es got cs rule: walk.induct)
  case (1 es got)
  then show ?case by (auto split: option.splits fsnode.splits)
next
  case (2 es got c cs)
  show ?case
  proof (cases "c = slash")
    case False
    then have "walk es got (c # cs) = walk es (got @ [c]) cs" by simp
    moreover have "slash \<notin> set (got @ [c])" using 2(4) False by auto
    moreover have "cs \<noteq> [] \<and> last cs = slash \<longleftrightarrow> c # cs \<noteq> [] \<and> last (c # cs) = slash" using False by auto
    ultimately show ?thesis using 2(3)[OF False] False by (cases cs) (simp_all split: option.splits fsnode.splits)
  next
    case [simp]: True
    show ?thesis
    proof (cases "got = []")
      case True
      have no: "tree_find (FDir es) (comps_from [] cs) \<noteq> Some (FFile d)" if "cs = []" for d using that by simp
      show ?thesis using 2(1)[OF \<open>c = slash\<close> True] True no by (cases cs) (auto split: option.splits fsnode.splits)
    next
      case [simp]: False
      show ?thesis
      proof (cases "map_of es got")
        case (Some n)
        show ?thesis
        proof (cases n)
          case (FFile d)
          have "comps_from [] cs = [] \<Longrightarrow> cs \<noteq> [] \<Longrightarrow> last cs = slash" for cs :: "u8 list"
          proof -
            have "comps_from g cs = [] \<Longrightarrow> g = [] \<and> set cs \<subseteq> {slash}" for g cs
              by (induction g cs rule: comps_from.induct) (auto split: if_splits)
            then show "comps_from [] cs = [] \<Longrightarrow> cs \<noteq> [] \<Longrightarrow> last cs = slash" using last_in_set by blast
          qed
          then show ?thesis using Some FFile by (auto simp: tree_find_FFile)
        next
          case (FDir es')
          have no: "tree_find (FDir es') (comps_from [] cs) \<noteq> Some (FFile d)" if "cs = []" for d using that by simp
          show ?thesis using 2(2)[OF \<open>c = slash\<close> False Some FDir] Some FDir no
            by (cases cs) (auto split: option.splits fsnode.splits)
        qed
      qed simp
    qed
  qed
qed

declare path_loop.simps(2) [simp del]

lemma path_loop_ok:
  assumes "str_at path start (got @ cs)" "slash \<notin> set got" "represents m fs e (FDir es)" "ent_location m e = Some loc"
  shows "case walk es got cs of
      None \<Rightarrow> \<exists>e'. path_loop m fs path (start + length got + length cs) e (fs + loc) start (start + length got) (Suc (length cs)) = Some (- ENOENT, e')
    | Some n \<Rightarrow> \<exists>e'. path_loop m fs path (start + length got + length cs) e (fs + loc) start (start + length got) (Suc (length cs)) = Some (0, e') \<and>
        represents m fs e' n"
  using assms
proof (induction es got cs arbitrary: start e loc rule: walk.induct)
  case (1 es got)
  let ?pos = "start + length got"
  have p: "path ?pos = Some 0" using str_at_append[of path start got "[]"] 1(1) by simp
  have name: "ptr_add path start j = Some (got ! j)" if "j < length got" for j
    using str_at_nth[OF 1(1), of j] that by (simp add: ptr_add_def)
  show ?case
  proof (cases "got = []")
    case True
    then show ?thesis using p 1(3) by (auto simp: path_loop.simps(2))
  next
    case False
    note L = lookup_ok[OF 1(3,4) name]
    show ?thesis
    proof (cases "map_of es got")
      case None
      then show ?thesis using L p False by (simp add: path_loop.simps(2))
    next
      case (Some n)
      then obtain e' where e': "lookup m (fs + loc) (ptr_add path start) (length got) = Some e'" "e' \<noteq> 0" "represents m fs e' n"
        using L by auto
      then obtain t l where t: "ent_type m e' = Some t" "ent_location m e' = Some l" by (auto elim: represents.cases)
      then show ?thesis using e' p False Some by (simp add: path_loop.simps(2))
    qed
  qed
next
  case (2 es got c cs)
  let ?pos = "start + length got"
  have p: "path ?pos = Some c" "str_at path (?pos + 1) cs" using str_at_append[OF 2(4)] by simp_all
  have name: "ptr_add path start j = Some (got ! j)" if "j < length got" for j
    using str_at_nth[OF 2(4), of j] that by (simp add: ptr_add_def nth_append)
  show ?case
  proof (cases "c = slash")
    case False
    have a: "str_at path start ((got @ [c]) @ cs)" "slash \<notin> set (got @ [c])" using 2(4,5) False by simp_all
    have st: "path_loop m fs path (start + length got + length (c # cs)) e (fs + loc) start ?pos (Suc (length (c # cs))) =
       path_loop m fs path (start + length (got @ [c]) + length cs) e (fs + loc) start (start + length (got @ [c])) (Suc (length cs))"
      using p(1) False by (subst path_loop.simps(2)) simp
    have w: "walk es got (c # cs) = walk es (got @ [c]) cs" using False by simp
    show ?thesis unfolding st w by (rule 2(3)[OF False a 2(6,7)])
  next
    case [simp]: True
    show ?thesis
    proof (cases "got = []")
      case [simp]: True
      have st: "path_loop m fs path (start + length got + length (c # cs)) e (fs + loc) start ?pos (Suc (length (c # cs))) =
         path_loop m fs path (start + 1 + length ([] :: u8 list) + length cs) e (fs + loc) (start + 1) (start + 1 + length ([] :: u8 list)) (Suc (length cs))"
        using p(1) by (subst path_loop.simps(2)) simp
      have w: "walk es got (c # cs) = walk es [] cs" by simp
      show ?thesis unfolding st w by (rule 2(1)[OF \<open>c = slash\<close> True _ _ 2(6,7)]) (use p(2) in simp_all)
    next
      case [simp]: False
      note L = lookup_ok[OF 2(6,7) name]
      show ?thesis
      proof (cases "map_of es got")
        case None
        then show ?thesis using L p(1) by (simp add: path_loop.simps(2)[of _ _ _ _ _ _ _ _ "Suc (length cs)"])
      next
        case (Some n)
        then obtain e' where e': "lookup m (fs + loc) (ptr_add path start) (length got) = Some e'" "e' \<noteq> 0" "represents m fs e' n"
          using L by auto
        show ?thesis
        proof (cases n)
          case (FFile d)
          then obtain t where "ent_type m e' = Some t" "t \<noteq> TYPE_DIR" using e'(3) by (auto elim: represents_fileE simp: TYPE_FILE_def TYPE_DIR_def)
          then show ?thesis using e' p(1) Some FFile by (simp add: path_loop.simps(2)[of _ _ _ _ _ _ _ _ "Suc (length cs)"])
        next
          case (FDir es')
          obtain l where l: "ent_type m e' = Some TYPE_DIR" "ent_location m e' = Some l" using e'(3) FDir by (auto elim: represents_dirE)
          have st: "path_loop m fs path (start + length got + length (c # cs)) e (fs + loc) start ?pos (Suc (length (c # cs))) =
            path_loop m fs path (?pos + 1 + length ([] :: u8 list) + length cs) e' (fs + l) (?pos + 1) (?pos + 1 + length ([] :: u8 list)) (Suc (length cs))"
            using p(1) e' l by (subst path_loop.simps(2)) simp
          have w: "walk es got (c # cs) = walk es' [] cs" using Some FDir by simp
          show ?thesis unfolding st w
            by (rule 2(2)[OF \<open>c = slash\<close> False Some FDir _ _ _ l(2)]) (use p(2) e'(3) FDir in simp_all)
        qed
      qed
    qed
  qed
qed

section \<open>Relative paths: the specification\<close>

text \<open>The absolute path with the given components, and what one component of a relative path does to it.\<close>

definition render :: "u8 list list \<Rightarrow> u8 list" where
  "render ps = (if ps = [] then [slash] else concat (map (\<lambda>c. slash # c) ps))"

definition dot :: u8 where "dot = 0x2E"

definition go :: "u8 list list \<Rightarrow> u8 list \<Rightarrow> u8 list list" where
  "go ps c = (if c = [dot] then ps else if c = [dot, dot] then butlast ps else ps @ [c])"

definition comp_ok :: "u8 list \<Rightarrow> bool" where
  "comp_ok c \<longleftrightarrow> c \<noteq> [] \<and> slash \<notin> set c \<and> 0 \<notin> set c"

text \<open>
  The same for a path that must fit into \<open>mx\<close> bytes with its terminator: a name for which there is no
  room is cut, and a full path takes no further name.
\<close>

definition go_cut :: "nat \<Rightarrow> u8 list list \<Rightarrow> u8 list \<Rightarrow> u8 list list" where
  "go_cut mx ps c = (if c = [dot] then ps else if c = [dot, dot] then butlast ps
     else if mx \<le> length (render ps) + 1 then ps
     else ps @ [take (mx - 2 - (if ps = [] then 0 else length (render ps))) c])"

text \<open>
  The array holds the path with components \<open>ps\<close>, and \<open>n\<close> is its length. Only the last component can be
  empty, namely when the path was cut behind its slash.
\<close>

definition holds :: "nat \<Rightarrow> u8 list \<Rightarrow> nat \<Rightarrow> u8 list list \<Rightarrow> bool" where
  "holds mx ab n ps \<longleftrightarrow> (\<exists>rest. ab = render ps @ 0 # rest) \<and> length ab = mx \<and> n = length (render ps) \<and>
     (\<forall>c \<in> set ps. slash \<notin> set c \<and> 0 \<notin> set c) \<and> (\<forall>c \<in> set (butlast ps). c \<noteq> []) \<and> (ps \<noteq> [] \<and> last ps = [] \<longrightarrow> n + 1 = mx)"

lemma render_snoc: "render (ps @ [c]) = (if ps = [] then [] else render ps) @ slash # c"
  by (simp add: render_def)

lemma render_pos: "0 < length (render ps)"
  by (cases ps) (auto simp: render_def)

lemma render_nonzero: "\<forall>c \<in> set ps. comp_ok c \<Longrightarrow> 0 \<notin> set (render ps)"
  by (auto simp: render_def comp_ok_def)

lemma render_last: "ps = [] \<or> last ps \<noteq> [] \<and> slash \<notin> set (last ps) \<Longrightarrow> last (render ps) = slash \<longleftrightarrow> ps = []"
proof (cases ps rule: rev_cases)
  case (snoc qs c)
  assume "ps = [] \<or> last ps \<noteq> [] \<and> slash \<notin> set (last ps)"
  then have "c \<noteq> []" "slash \<notin> set c" using snoc by simp_all
  then have "last c \<noteq> slash" using last_in_set by metis
  then show ?thesis using snoc \<open>c \<noteq> []\<close> by (simp add: render_snoc)
qed (simp add: render_def)

lemma strip_last_ok:
  assumes "ab = pre @ slash # c @ rest" "slash \<notin> set c"
  shows "strip_last ab (length pre + 1 + length c) = Some (pre @ slash # replicate (length c) 0 @ rest, length pre + 1)"
  using assms
proof (induction c arbitrary: ab rest rule: rev_induct)
  case Nil
  have "ab ! length pre = slash" using Nil by simp
  then show ?case using Nil by (cases pre) (simp_all add: list_get_def)
next
  case (snoc x c)
  have x: "x \<noteq> slash" "slash \<notin> set c" using snoc.prems by auto
  have l: "list_get ab (length pre + 1 + length c) = Some x" using snoc.prems by (simp add: list_get_def nth_append)
  have u: "list_put ab (length pre + 1 + length c) 0 = Some (pre @ slash # c @ 0 # rest)"
    using snoc.prems by (simp add: list_put_def list_update_append)
  have "strip_last ab (length pre + 1 + length (c @ [x])) = strip_last (pre @ slash # c @ 0 # rest) (length pre + 1 + length c)"
    using l u x by simp
  also have "\<dots> = Some (pre @ slash # replicate (length c) 0 @ 0 # rest, length pre + 1)" by (rule snoc.IH[OF refl x(2)])
  finally show ?case by (simp add: replicate_append_same[symmetric])
qed

lemma add_name_ok:
  assumes "\<And>j. j < length c \<Longrightarrow> rel (rpos + j) = Some (c ! j)" "length xs < mx" "length (xs @ ys) = mx"
  shows "add_name (xs @ ys) (length xs) rel rpos mx (length c) =
    Some (xs @ take (mx - 1 - length xs) c @ drop (length (take (mx - 1 - length xs) c)) ys, length (xs @ take (mx - 1 - length xs) c))"
  using assms
proof (induction c arbitrary: xs ys rpos)
  case (Cons a c)
  show ?case
  proof (cases "length xs < mx - 1")
    case True
    then obtain y ys' where ys: "ys = y # ys'" using Cons.prems(3) by (cases ys) auto
    have r: "rel rpos = Some a" using Cons.prems(1)[of 0] by simp
    have h: "\<And>j. j < length c \<Longrightarrow> rel (rpos + 1 + j) = Some (c ! j)" using Cons.prems(1)[of "Suc j" for j] by simp
    obtain k where k: "mx - 1 - length xs = Suc k" "mx - 1 - length (xs @ [a]) = k" using True by (cases "mx - 1 - length xs") auto
    have "add_name (xs @ ys) (length xs) rel rpos mx (length (a # c)) = add_name ((xs @ [a]) @ ys') (length (xs @ [a])) rel (rpos + 1) mx (length c)"
      using r True by (simp add: ys list_put_def)
    also have "\<dots> = Some ((xs @ [a]) @ take k c @ drop (length (take k c)) ys', length ((xs @ [a]) @ take k c))"
      unfolding k(2)[symmetric] by (rule Cons.IH[OF h]) (use Cons.prems ys True in simp_all)
    finally show ?thesis unfolding k(1) by (simp add: ys)
  qed simp
qed simp

lemma dots_check:
  assumes "str_at rel start (c @ cs)" "comp_ok c"
  shows "length c = 1 \<Longrightarrow> \<exists>r. strncmp (ptr_add rel start) (arr (lit ''.'' @ [0])) (length c) = Some r \<and> (r = 0 \<longleftrightarrow> c = [dot])"
    "length c = 2 \<Longrightarrow> \<exists>r. strncmp (ptr_add rel start) (arr (lit ''..'' @ [0])) (length c) = Some r \<and> (r = 0 \<longleftrightarrow> c = [dot, dot])"
proof -
  have g: "\<exists>r. strncmp (ptr_add rel start) t (length c) = Some r \<and> (r = 0 \<longleftrightarrow> (\<forall>j < length c. c ! j = dot))"
    if t: "\<And>j. j < length c \<Longrightarrow> t j = Some dot" for t
  proof -
    have "ptr_add rel start (0 + j) = Some (c ! j) \<and> t (0 + j) = Some dot \<and> c ! j \<noteq> 0" if "j < length c" for j
    proof -
      have "c ! j \<noteq> 0" using nth_mem[OF that] assms(2) by (auto simp: comp_ok_def)
      then show ?thesis using str_at_nth[OF assms(1), of j] that t[OF that] by (simp add: ptr_add_def nth_append)
    qed
    from strncmp_from_ok[where s = "ptr_add rel start" and t = t and i = 0 and n = "length c" and f = "\<lambda>j. c ! j" and g = "\<lambda>_. dot", OF this]
    show ?thesis by (simp add: strncmp_def)
  qed
  show "\<exists>r. strncmp (ptr_add rel start) (arr (lit ''.'' @ [0])) (length c) = Some r \<and> (r = 0 \<longleftrightarrow> c = [dot])" if "length c = 1"
  proof -
    obtain a where c: "c = [a]" using \<open>length c = 1\<close> by (auto simp: length_Suc_conv)
    have "arr (lit ''.'' @ [0]) j = Some dot" if "j < length c" for j using that c by (simp add: arr_def list_get_def lit_def dot_def of_char_def)
    from g[of "arr (lit ''.'' @ [0])", OF this] show ?thesis using c by simp
  qed
  show "\<exists>r. strncmp (ptr_add rel start) (arr (lit ''..'' @ [0])) (length c) = Some r \<and> (r = 0 \<longleftrightarrow> c = [dot, dot])" if "length c = 2"
  proof -
    obtain a b where c: "c = [a, b]" using \<open>length c = 2\<close> by (auto simp: length_Suc_conv numeral_2_eq_2)
    have "arr (lit ''..'' @ [0]) j = Some dot" if "j < length c" for j
      using that c by (auto simp: arr_def list_get_def lit_def dot_def of_char_def nth_Cons split: nat.splits)
    from g[of "arr (lit ''..'' @ [0])", OF this] show ?thesis using c by (simp add: All_less_Suc2)
  qed
qed

lemma path_component_ok:
  assumes h: "holds mx ab n ps" and c: "str_at rel start (c @ cs)" "comp_ok c"
  shows "\<exists>ab'. path_component ab n rel start (start + length c) mx = Some (ab', length (render (go_cut mx ps c))) \<and>
    holds mx ab' (length (render (go_cut mx ps c))) (go_cut mx ps c)"
proof -
  obtain rest where ab: "ab = render ps @ 0 # rest" and len: "length ab = mx" and n: "n = length (render ps)"
    and ok: "\<forall>c \<in> set ps. slash \<notin> set c \<and> 0 \<notin> set c" "\<forall>c \<in> set (butlast ps). c \<noteq> []" "ps \<noteq> [] \<and> last ps = [] \<longrightarrow> n + 1 = mx"
    using h unfolding holds_def by blast
  have nl: "n < mx" using n ab len by auto
  define d1 where "d1 = (c = [dot])"
  define d2 where "d2 = (c = [dot, dot])"
  have d1: "(if length c = 1 then do { r \<leftarrow> strncmp (ptr_add rel start) (arr (lit ''.'' @ [0])) (length c); Some (r = 0) } else Some False)
      = Some d1" "d1 \<longleftrightarrow> c = [dot]"
    using dots_check(1)[OF c] by (cases "length c = 1"; auto simp: d1_def)+
  have d2: "(if length c = 2 then do { r \<leftarrow> strncmp (ptr_add rel start) (arr (lit ''..'' @ [0])) (length c); Some (r = 0) } else Some False)
      = Some d2" "d2 \<longleftrightarrow> c = [dot, dot]"
    using dots_check(2)[OF c] by (cases "length c = 2"; auto simp: d2_def)+
  note red = path_component_def[of ab n rel start "start + length c" mx, unfolded Let_def add_diff_cancel_left' d1(1) d2(1) bind.bind_lunit]
  consider "d1" | "\<not> d1" "d2" | "\<not> d1" "\<not> d2" by blast
  then show ?thesis
  proof cases
    case 1
    then have "path_component ab n rel start (start + length c) mx = Some (ab, n)" unfolding red by simp
    moreover have "go_cut mx ps c = ps" using 1 d1(2) by (simp add: go_cut_def)
    ultimately show ?thesis using h n by auto
  next
    case 2
    have g: "go_cut mx ps c = butlast ps" using 2 d1 d2 by (simp add: go_cut_def)
    show ?thesis
    proof (cases ps rule: rev_cases)
      case Nil
      then have "n = 1" using n by (simp add: render_def)
      then have "path_component ab n rel start (start + length c) mx = Some (ab, 1)" unfolding red using 2 by simp
      then show ?thesis using h Nil g \<open>n = 1\<close> by (simp add: holds_def render_def)
    next
      case (snoc qs q)
      let ?pre = "if qs = [] then [] else render qs"
      have q: "slash \<notin> set q" using ok(1) snoc by simp
      have qs: "\<forall>c \<in> set (butlast qs). c \<noteq> []" "qs \<noteq> [] \<Longrightarrow> last qs \<noteq> []" using ok(2) snoc by (auto dest: in_set_butlastD)
      have "ab = ?pre @ slash # q @ 0 # rest" using ab snoc by (simp add: render_snoc)
      from strip_last_ok[OF this q]
      have sl: "strip_last ab n = Some (?pre @ slash # replicate (length q) 0 @ 0 # rest, length ?pre + 1)"
        using n snoc by (simp add: render_snoc)
      obtain r1 where rep: "replicate (length q) (0 :: u8) @ 0 # rest = 0 # r1" by (cases q) auto
      show ?thesis
      proof (cases "qs = []")
        case True
        then have "path_component ab n rel start (start + length c) mx = Some (slash # 0 # r1, 1)" unfolding red using 2 sl rep by simp
        moreover have "length (slash # 0 # r1) = mx" using len ab snoc True rep[THEN arg_cong[where f = length]] by (simp add: render_def)
        ultimately show ?thesis using g snoc True by (simp add: holds_def render_def)
      next
        case False
        then have lp: "0 < length (render qs)" by (rule_tac render_pos)
        have "path_component ab n rel start (start + length c) mx = Some (render qs @ 0 # 0 # r1, length (render qs))"
          unfolding red using 2 sl rep False lp by (simp add: list_put_def)
        moreover have "length (render qs @ 0 # 0 # r1) = mx"
          using len ab snoc False rep[THEN arg_cong[where f = length]] by (simp add: render_snoc)
        ultimately show ?thesis using g snoc ok(1) qs(1) qs(2)[OF False] by (simp add: holds_def)
      qed
    qed
  next
    case 3
    show ?thesis
    proof (cases "mx \<le> n + 1")
      case True
      have g: "go_cut mx ps c = ps" using 3 d1 d2 True n by (simp add: go_cut_def)
      have full: "\<not> n < mx - 1" "n + 1 = mx" using True nl by simp_all
      have "add_name ab n rel start mx (length c) = Some (ab, n)" using full(1) by (cases "length c") simp_all
      moreover have "list_put ab n 0 = Some ab" using ab n nl len by (simp add: list_put_def list_update_append)
      ultimately have "path_component ab n rel start (start + length c) mx = Some (ab, n)" unfolding red using 3 full(1) by simp
      then show ?thesis using g h n by auto
    next
      case False
      let ?pre = "if ps = [] then [] else render ps"
      let ?c = "take (mx - 2 - length ?pre) c"
      have g: "go_cut mx ps c = ps @ [?c]" using 3 d1 d2 False n by (auto simp: go_cut_def)
      have lt: "n < mx - 1" using False by simp
      have la: "list_get ab (n - 1) = Some (last (render ps))"
        using n ab render_pos[of ps] by (simp add: list_get_def nth_append last_conv_nth)
      have rp: "0 < n" using n render_pos by simp
      have nm: "\<And>j. j < length c \<Longrightarrow> rel (start + j) = Some (c ! j)" using str_at_nth[OF c(1)] by (simp add: nth_append)
      have lst: "ps = [] \<or> last ps \<noteq> [] \<and> slash \<notin> set (last ps)" using ok(1,3) lt by auto
      obtain ys where ys: "(if last (render ps) \<noteq> slash then do { a \<leftarrow> list_put ab n slash; Some (a, n + 1) } else Some (ab, n))
          = Some ((?pre @ [slash]) @ ys, length ?pre + 1)" "length ((?pre @ [slash]) @ ys) = mx"
      proof (cases "ps = []")
        case True
        then show thesis using that[of "0 # rest"] ab n len by (simp add: render_def)
      next
        case False
        then show thesis using that[of rest] render_last[OF lst] ab n len by (simp add: list_put_def)
      qed
      have lp: "length ?pre + 1 < mx" using lt n by (auto simp: render_def)
      have ad: "add_name ((?pre @ [slash]) @ ys) (length (?pre @ [slash])) rel start mx (length c) =
          Some ((?pre @ [slash]) @ ?c @ drop (length ?c) ys, length ((?pre @ [slash]) @ ?c))"
        using add_name_ok[OF nm, of "?pre @ [slash]" mx ys] lp ys(2) by (simp add: numeral_2_eq_2)
      have "length ?c < length ys" using ys(2) lp by auto
      then obtain y ys' where dr: "drop (length ?c) ys = y # ys'" by (cases "drop (length ?c) ys") auto
      have r: "render (ps @ [?c]) = ?pre @ slash # ?c" by (rule render_snoc)
      have "path_component ab n rel start (start + length c) mx =
          list_put ((?pre @ slash # ?c) @ y # ys') (length (?pre @ slash # ?c)) 0 \<bind> (\<lambda>a. Some (a, length (?pre @ slash # ?c)))"
        unfolding red using 3 lt rp la ys(1) ad dr by (simp split del: if_split)
      also have "\<dots> = Some (render (ps @ [?c]) @ 0 # ys', length (render (ps @ [?c])))"
        unfolding r by (simp add: list_put_def list_update_append del: append_assoc)
      finally have pc: "path_component ab n rel start (start + length c) mx = Some (render (ps @ [?c]) @ 0 # ys', length (render (ps @ [?c])))" .
      have le: "length (render (ps @ [?c]) @ 0 # ys') = mx"
        using ys(2) dr[THEN arg_cong[where f = length]] \<open>length ?c < length ys\<close> unfolding r by simp
      have "slash \<notin> set ?c \<and> 0 \<notin> set ?c" using c(2) by (auto simp: comp_ok_def dest: in_set_takeD)
      moreover have "\<forall>c \<in> set (butlast (ps @ [?c])). c \<noteq> []" unfolding butlast_snoc using ok(2) lst by (cases ps rule: rev_cases) auto
      moreover have "length (render (ps @ [?c])) + 1 = mx" if "?c = []"
        using that lp c(2) unfolding r by (auto simp: comp_ok_def)
      ultimately have "holds mx (render (ps @ [?c]) @ 0 # ys') (length (render (ps @ [?c]))) (ps @ [?c])"
        using le ok(1) unfolding holds_def by auto
      then show ?thesis unfolding g using pc by blast
    qed
  qed
qed

lemma length_go: "length (render (go ps c)) \<le> length (render ps) + 1 + length c"
proof -
  have "length (render (butlast ps)) \<le> length (render ps)" by (cases ps rule: rev_cases) (auto simp: render_snoc, simp add: render_def)
  then show ?thesis by (simp add: go_def render_snoc)
qed

lemma rel_loop_ok:
  assumes "str_at rel start (got @ cs)" "slash \<notin> set got" "holds mx ab n ps"
  shows "\<exists>rest. rel_loop rel (start + length got + length cs) mx ab n start (start + length got) (Suc (length cs)) =
     Some (render (foldl (go_cut mx) ps (comps_from got cs)) @ 0 # rest) \<and>
     holds mx (render (foldl (go_cut mx) ps (comps_from got cs)) @ 0 # rest) (length (render (foldl (go_cut mx) ps (comps_from got cs)))) (foldl (go_cut mx) ps (comps_from got cs))"
  using assms
proof (induction got cs arbitrary: start ab n ps rule: comps_from.induct)
  case (1 got)
  have p: "rel (start + length got) = Some 0" using str_at_append[of rel start got "[]"] 1(1) by simp
  show ?case
  proof (cases "got = []")
    case True
    then show ?thesis using p 1(3) by (auto simp: holds_def)
  next
    case False
    have ok: "comp_ok got" using False 1(1,2) str_at_nonzero by (auto simp: comp_ok_def)
    obtain ab' where "path_component ab n rel start (start + length got) mx = Some (ab', length (render (go_cut mx ps got)))"
      "holds mx ab' (length (render (go_cut mx ps got))) (go_cut mx ps got)"
      using path_component_ok[OF 1(3,1) ok] by auto
    then show ?thesis using p False by (auto simp: holds_def)
  qed
next
  case (2 got c cs)
  let ?pos = "start + length got"
  have p: "rel ?pos = Some c" "str_at rel (?pos + 1) cs" using str_at_append[OF 2(4)] by simp_all
  show ?case
  proof (cases "c = slash")
    case False
    have a: "str_at rel start ((got @ [c]) @ cs)" "slash \<notin> set (got @ [c])" using 2(4,5) False by simp_all
    have "rel_loop rel (start + length got + length (c # cs)) mx ab n start ?pos (Suc (length (c # cs))) =
       rel_loop rel (start + length (got @ [c]) + length cs) mx ab n start (start + length (got @ [c])) (Suc (length cs))"
      using p(1) False by (subst rel_loop.simps(2)) simp
    then show ?thesis using 2(3)[OF False a 2(6)] False by simp
  next
    case [simp]: True
    have st: "rel_loop rel (start + length got + length (c # cs)) mx ab n start ?pos (Suc (length (c # cs))) =
       (do { (ab1, n1) \<leftarrow> (if got \<noteq> [] then path_component ab n rel start ?pos mx else Some (ab, n));
         rel_loop rel (?pos + 1 + length ([] :: u8 list) + length cs) mx ab1 n1 (?pos + 1) (?pos + 1 + length ([] :: u8 list)) (Suc (length cs)) })"
      using p(1) by (subst rel_loop.simps(2)) (simp add: case_prod_beta)
    show ?thesis
    proof (cases "got = []")
      case True
      then show ?thesis using 2(1)[OF \<open>c = slash\<close> True _ _ 2(6), of "?pos + 1"] p(2) st by simp
    next
      case False
      have ok: "comp_ok got" using False 2(5) str_at_nonzero[OF 2(4)] by (simp add: comp_ok_def)
      obtain ab' where ab': "path_component ab n rel start ?pos mx = Some (ab', length (render (go_cut mx ps got)))"
        "holds mx ab' (length (render (go_cut mx ps got))) (go_cut mx ps got)"
        using path_component_ok[OF 2(6,4) ok] by auto
      have "\<exists>rest. rel_loop rel (?pos + 1 + length ([] :: u8 list) + length cs) mx ab' (length (render (go_cut mx ps got))) (?pos + 1)
          (?pos + 1 + length ([] :: u8 list)) (Suc (length cs)) =
         Some (render (foldl (go_cut mx) (go_cut mx ps got) (comps_from [] cs)) @ 0 # rest) \<and>
         holds mx (render (foldl (go_cut mx) (go_cut mx ps got) (comps_from [] cs)) @ 0 # rest) (length (render (foldl (go_cut mx) (go_cut mx ps got) (comps_from [] cs))))
           (foldl (go_cut mx) (go_cut mx ps got) (comps_from [] cs))"
        by (rule 2(2)[OF \<open>c = slash\<close> False _ _ ab'(2)]) (use p(2) in simp_all)
      then show ?thesis using st ab'(1) False by simp
    qed
  qed
qed

lemma relative_to_absolute_cut:
  assumes rel: "str_at rel 0 rs" and base: "str_at base 0 (render bs)" "\<forall>c \<in> set bs. comp_ok c"
    and fit: "length (render bs) < length ab" "length ab < 2147483600" "length rs + 1 < 2 ^ 31"
  shows "\<exists>rest. relative_to_absolute ab base rel (length ab) =
     Some (render (foldl (go_cut (length ab)) (if rs \<noteq> [] \<and> hd rs = slash then [] else bs) (comps rs)) @ 0 # rest) \<and>
     length (render (foldl (go_cut (length ab)) (if rs \<noteq> [] \<and> hd rs = slash then [] else bs) (comps rs)) @ 0 # rest) = length ab"
proof -
  let ?mx = "length ab" let ?abs = "rs \<noteq> [] \<and> hd rs = slash"
  have r0: "rel 0 = Some (if rs = [] then 0 else hd rs)" using rel by (cases rs) auto
  have pos: "0 < ?mx" using fit(1) by linarith
  let ?ps = "if ?abs then [] else bs"
  obtain rest n where s: "(if ?abs then snprintf ab ?mx (arr (lit ''/'' @ [0])) [] else snprintf ab ?mx (arr (lit ''%s'' @ [0])) [Str base])
      = Some (n, render ?ps @ 0 # rest)" "length (render ?ps @ 0 # rest) = ?mx"
  proof (cases ?abs)
    case True
    have f: "str_at (arr (lit ''/'' @ [0])) 0 (lit ''/'')" "format (lit ''/'') [] = Some [slash]" by code_simp+
    have "1 < ?mx" using fit(1) render_pos[of bs] by linarith
    then have "take (?mx - 1) [slash] = [slash]" by (cases "?mx - 1") auto
    then show thesis using vsnprintf_ok[OF f refl pos] True that by (auto simp: snprintf_def render_def)
  next
    case False
    have "lit ''%s'' = [0x25, 0x73]" by (simp add: lit_def conv_chars)
    then have "format (lit ''%s'') [Str base] = Some (render bs)"
      using str_bytes[OF base(1)] by (simp add: format.simps conv_chars field_str_def va_str_def is_digit_def padded_def width_def)
    moreover have "str_at (arr (lit ''%s'' @ [0])) 0 (lit ''%s'')" by code_simp
    moreover have "take (?mx - 1) (render bs) = render bs" "length (render bs) + 0x30 < 2 ^ 31" using fit by simp_all
    ultimately show thesis using vsnprintf_ok[OF _ _ refl pos, of "arr (lit ''%s'' @ [0])" "lit ''%s''" "[Str base]" "render bs"] False that
      by (auto simp: snprintf_def)
  qed
  have h: "holds ?mx (render ?ps @ 0 # rest) (length (render ?ps)) ?ps"
    using s(2) base(2) by (auto simp: holds_def comp_ok_def dest: in_set_butlastD)
  have sl: "strlen (arr (render ?ps @ 0 # rest)) = Some (length (render ?ps))"
    by (rule strlen_ok[OF str_at_arr0[OF render_nonzero]]) (use base(2) in simp)
  have nos: "slash \<notin> set ([] :: u8 list)" and rel': "str_at rel 0 ([] @ rs)" using rel by simp_all
  obtain rest' where "rel_loop rel (length rs) ?mx (render ?ps @ 0 # rest) (length (render ?ps)) 0 0 (Suc (length rs)) =
      Some (render (foldl (go_cut ?mx) ?ps (comps rs)) @ 0 # rest')"
    "holds ?mx (render (foldl (go_cut ?mx) ?ps (comps rs)) @ 0 # rest') (length (render (foldl (go_cut ?mx) ?ps (comps rs)))) (foldl (go_cut ?mx) ?ps (comps rs))"
    using rel_loop_ok[OF rel' nos h] by (auto simp del: rel_loop.simps)
  then have l: "rel_loop rel (length rs) ?mx (render ?ps @ 0 # rest) (length (render ?ps)) 0 0 (Suc (length rs)) =
      Some (render (foldl (go_cut ?mx) ?ps (comps rs)) @ 0 # rest')" "length (render (foldl (go_cut ?mx) ?ps (comps rs)) @ 0 # rest') = ?mx"
    by (simp_all only: holds_def)
  moreover have "(if (if rs = [] then 0 else hd rs) = slash then snprintf ab ?mx (arr (lit ''/'' @ [0])) [] else snprintf ab ?mx (arr (lit ''%s'' @ [0])) [Str base])
      = Some (n, render ?ps @ 0 # rest)" using s(1) by (auto split: if_splits)
  ultimately have "relative_to_absolute ab base rel ?mx = Some (render (foldl (go_cut ?mx) ?ps (comps rs)) @ 0 # rest')"
    using r0 sl strlen_ok[OF rel] fit(3) l(1) by (simp add: relative_to_absolute_def del: rel_loop.simps split del: if_split)
  then show ?thesis using l(2) by blast
qed

text \<open>A path that fits is not cut.\<close>

lemma go_cut_fits: "length (render ps) + length c + 2 \<le> mx \<Longrightarrow> go_cut mx ps c = go ps c"
  using render_pos[of ps] by (auto simp: go_cut_def go_def render_def[of "[]"])

lemma go_cut_foldl:
  "length (render ps) + sum_list (map (\<lambda>c. length c + 1) cs) + 1 \<le> mx \<Longrightarrow> foldl (go_cut mx) ps cs = foldl go ps cs"
proof (induction cs arbitrary: ps)
  case (Cons c cs)
  have "go_cut mx ps c = go ps c" using Cons.prems by (intro go_cut_fits) simp
  moreover have "foldl (go_cut mx) (go ps c) cs = foldl go (go ps c) cs" using Cons.prems length_go[of ps c] by (intro Cons.IH) simp
  ultimately show ?case by simp
qed simp

lemma comps_from_length: "sum_list (map (\<lambda>c. length c + 1) (comps_from got cs)) \<le> length got + length cs + 1"
  by (induction got cs rule: comps_from.induct) auto

lemma comps_fit:
  assumes "length (render bs) + length rs + 2 \<le> mx"
  shows "foldl (go_cut mx) (if a then [] else bs) (comps rs) = foldl go (if a then [] else bs) (comps rs)"
proof (rule go_cut_foldl)
  have "length (render (if a then [] else bs)) \<le> length (render bs)" using render_pos[of bs] by (simp add: render_def[of "[]"] Suc_le_eq)
  then show "length (render (if a then [] else bs)) + sum_list (map (\<lambda>c. length c + 1) (comps rs)) + 1 \<le> mx"
    using comps_from_length[of "[]" rs] assms by simp
qed

lemma relative_to_absolute_ok:
  assumes "str_at rel 0 rs" "str_at base 0 (render bs)" "\<forall>c \<in> set bs. comp_ok c" "length (render bs) + length rs + 2 \<le> length ab" "length ab < 2147483600"
  shows "\<exists>rest. relative_to_absolute ab base rel (length ab) =
     Some (render (foldl go (if rs \<noteq> [] \<and> hd rs = slash then [] else bs) (comps rs)) @ 0 # rest)"
  using relative_to_absolute_cut[OF assms(1-3) _ assms(5)] assms(4,5) unfolding comps_fit[OF assms(4)] by fastforce

text \<open>The directory that a path names, from the directory with components \<open>ps\<close>.\<close>

lemma comps_from_ok: "0 \<notin> set got \<Longrightarrow> slash \<notin> set got \<Longrightarrow> 0 \<notin> set w \<Longrightarrow> c \<in> set (comps_from got w) \<Longrightarrow> comp_ok c"
proof (induction w arbitrary: got)
  case (Cons a w)
  have "c = got \<and> got \<noteq> [] \<or> c \<in> set (comps_from [] w) \<or> a \<noteq> slash \<and> c \<in> set (comps_from (got @ [a]) w)" using Cons.prems(4) by (auto split: if_splits)
  then show ?case using Cons.IH[of "[]"] Cons.IH[of "got @ [a]"] Cons.prems(1-3) by (auto simp: comp_ok_def)
qed (auto simp: comp_ok_def split: if_splits)

definition resolve :: "u8 list list \<Rightarrow> u8 list \<Rightarrow> u8 list list" where
  "resolve ps w = foldl go (if w \<noteq> [] \<and> hd w = slash then [] else ps) (comps w)"

lemma go_ok: "\<forall>c \<in> set ps. comp_ok c \<Longrightarrow> comp_ok c \<Longrightarrow> d \<in> set (go ps c) \<Longrightarrow> comp_ok d"
  by (auto simp: go_def dest: in_set_butlastD split: if_splits)

lemma resolve_ok:
  assumes "\<forall>c \<in> set ps. comp_ok c" "0 \<notin> set w"
  shows "\<forall>c \<in> set (resolve ps w). comp_ok c"
proof -
  have F: "\<forall>c \<in> set qs. comp_ok c \<Longrightarrow> \<forall>c \<in> set ws. comp_ok c \<Longrightarrow> \<forall>c \<in> set (foldl go qs ws). comp_ok c" for qs ws
  proof (induction ws arbitrary: qs)
    case (Cons w ws)
    have "\<forall>c \<in> set (go qs w). comp_ok c" using go_ok[OF Cons.prems(1), of w] Cons.prems(2) by simp
    then show ?case using Cons.IH[of "go qs w"] Cons.prems(2) by simp
  qed simp
  have "\<forall>c \<in> set (comps w). comp_ok c" using comps_from_ok[of "[]" w] assms(2) by simp
  moreover have "\<forall>c \<in> set (if w \<noteq> [] \<and> hd w = slash then [] else ps). comp_ok c" using assms(1) by simp
  ultimately show ?thesis unfolding resolve_def by (rule F[rotated])
qed

lemma get_directory_entry_ok:
  assumes "represents m fs fs (FDir es)" "str_at path 0 p"
  shows "case path_find (FDir es) p of
      None \<Rightarrow> \<exists>e. get_directory_entry m fs path = Some (- ENOENT, e)
    | Some n \<Rightarrow> \<exists>e. get_directory_entry m fs path = Some (0, e) \<and> represents m fs e n"
proof -
  obtain loc where loc: "ent_location m fs = Some loc" using assms(1) by (auto elim: represents_dirE)
  have "get_directory_entry m fs path = path_loop m fs path (0 + length ([] :: u8 list) + length p) fs (fs + loc) 0 (0 + length ([] :: u8 list)) (Suc (length p))"
    using loc strlen_ok[OF assms(2)] by (simp add: get_directory_entry_def)
  moreover have "walk es [] p = path_find (FDir es) p" by (simp add: walk_path path_find_def)
  ultimately show ?thesis using path_loop_ok[OF _ _ assms(1) loc, of path 0 "[]" p] assms(2) by (auto split: option.splits)
qed

section \<open>Properties of the file system\<close>

text \<open>The image of the witnesses: a root directory with one file, \<open>a\<close>, that holds two bytes.\<close>

definition image_entry :: "u32 \<Rightarrow> u32 \<Rightarrow> u32 \<Rightarrow> u8 list \<Rightarrow> u8 list" where
  "image_entry sz t loc name = bytes32 sz @ bytes32 t @ bytes32 loc @ bytes32 0 @ bytes32 0 @ name @ replicate (256 - length name) 0"

definition example_image :: "u8 list" where
  "example_image = image_entry 0 TYPE_DIR 276 [] @ bytes32 1 @ image_entry 2 TYPE_FILE 556 [97] @ [7, 8]"

definition example_fs :: vmem where "example_fs a = list_get example_image (unat (a - 0x100))"

lemma example_fs_fields:
  "ent_type example_fs 0x100 = Some TYPE_DIR" "ent_location example_fs 0x100 = Some 276" "dir_count example_fs (0x100 + 276) = Some 1"
  "ent_type example_fs (dir_entry (0x100 + 276) 0) = Some TYPE_FILE" "ent_size example_fs (dir_entry (0x100 + 276) 0) = Some 2"
  "ent_location example_fs (dir_entry (0x100 + 276) 0) = Some 556" "str_at (ent_name example_fs (dir_entry (0x100 + 276) 0)) 0 [97]"
  "example_fs (0x100 + 556) = Some 7" "example_fs (0x100 + 556 + 1) = Some 8" "dir_entry (0x100 + 276) 0 \<noteq> 0"
  "ent_mode example_fs (dir_entry (0x100 + 276) 0) = Some 0" "ent_size example_fs 0x100 = Some 0" "ent_mode example_fs 0x100 = Some 0"
  by code_simp+

lemma example_represents: "represents example_fs 0x100 0x100 (FDir [([97], FFile [7, 8])])"
proof (rule is_dir[OF example_fs_fields(1,12,2,13,3)])
  have "represents example_fs 0x100 (dir_entry (0x100 + 276) 0) (FFile [7, 8])"
    by (rule is_file[OF example_fs_fields(4,5,6,11)]) (use example_fs_fields(8,9) in \<open>auto simp: less_Suc_eq\<close>)
  then show "\<forall>i < length [([97], FFile [7, 8])]. dir_entry (0x100 + 276) i \<noteq> 0 \<and>
      str_at (ent_name example_fs (dir_entry (0x100 + 276) i)) 0 (fst ([([97], FFile [7, 8])] ! i)) \<and>
      represents example_fs 0x100 (dir_entry (0x100 + 276) i) (snd ([([97], FFile [7, 8])] ! i))"
    using example_fs_fields(7,10) by simp
qed simp

text \<open>C26: The search for a path refines the search in the directory tree that the image represents: if
  the tree has a node at the path, get_directory_entry returns 0 and an entry that represents
  exactly that node; otherwise it returns -ENOENT. Repeated slashes are ignored and a file
  followed by a slash is not found.\<close>

theorem get_directory_entry_refines:
  assumes "represents m fs fs (FDir es)" "str_at path 0 p"
  shows "case path_find (FDir es) p of
      None \<Rightarrow> \<exists>e. get_directory_entry m fs path = Some (- ENOENT, e)
    | Some n \<Rightarrow> \<exists>e. get_directory_entry m fs path = Some (0, e) \<and> represents m fs e n"
  by (rule get_directory_entry_ok[OF assms])

theorem get_directory_entry_refines_witness:
  "(\<exists>e. get_directory_entry example_fs 0x100 (arr (lit ''//a'' @ [0])) = Some (0, e) \<and> represents example_fs 0x100 e (FFile [7, 8])) \<and>
   (\<exists>e. get_directory_entry example_fs 0x100 (arr (lit ''/a/'' @ [0])) = Some (- ENOENT, e))"
proof -
  have "str_at (arr (lit ''//a'' @ [0])) 0 (lit ''//a'')" "str_at (arr (lit ''/a/'' @ [0])) 0 (lit ''/a/'')" by code_simp+
  moreover have "path_find (FDir [([97], FFile [7, 8])]) (lit ''//a'') = Some (FFile [7, 8])"
    "path_find (FDir [([97], FFile [7, 8])]) (lit ''/a/'') = None" by (simp_all add: path_find_def lit_def of_char_def)
  ultimately show ?thesis
    using get_directory_entry_refines[OF example_represents, of "arr (lit ''//a'' @ [0])" "lit ''//a''"]
      get_directory_entry_refines[OF example_represents, of "arr (lit ''/a/'' @ [0])" "lit ''/a/''"] by simp
qed

text \<open>C27: Relative paths are resolved correctly: for an absolute base directory that fits into the array,
  the result is the absolute path whose components are those of the base, changed in turn by each
  component of the relative path: a dot leaves them, two dots remove the last one (the root stays),
  any other name is added, cut to the room that is left; a full path takes no name. When base and
  relative path together fit nothing is cut. A path that starts with a slash ignores the base. The
  result is terminated and stays inside the array, however long the relative path is, below
  the range of an int.\<close>

theorem relative_to_absolute_exact:
  assumes "str_at rel 0 rs" "str_at base 0 (render bs)" "\<forall>c \<in> set bs. comp_ok c"
    "length (render bs) < length ab" "length ab < 2147483600" "length rs + 1 < 2 ^ 31"
  shows "let ps = (if rs \<noteq> [] \<and> hd rs = slash then [] else bs) in \<exists>rest.
     relative_to_absolute ab base rel (length ab) = Some (render (foldl (go_cut (length ab)) ps (comps rs)) @ 0 # rest) \<and>
     length (render (foldl (go_cut (length ab)) ps (comps rs)) @ 0 # rest) = length ab \<and>
     (length (render bs) + length rs + 2 \<le> length ab \<longrightarrow> foldl (go_cut (length ab)) ps (comps rs) = foldl go ps (comps rs))"
proof -
  let ?ps = "if rs \<noteq> [] \<and> hd rs = slash then [] else bs"
  obtain rest where r: "relative_to_absolute ab base rel (length ab) = Some (render (foldl (go_cut (length ab)) ?ps (comps rs)) @ 0 # rest)"
    "length (render (foldl (go_cut (length ab)) ?ps (comps rs)) @ 0 # rest) = length ab" using relative_to_absolute_cut[OF assms] by (elim exE conjE)
  have f: "length (render bs) + length rs + 2 \<le> length ab \<longrightarrow> foldl (go_cut (length ab)) ?ps (comps rs) = foldl go ?ps (comps rs)"
    by (rule impI) (rule comps_fit)
  show ?thesis unfolding Let_def by (rule exI[of _ rest]) (rule conjI[OF r(1) conjI[OF r(2) f]])
qed

text \<open>A path that fits, and one that is cut.\<close>

theorem relative_to_absolute_exact_witness:
  "(\<exists>rest. relative_to_absolute (replicate 40 7) (arr (lit ''/home/peter'' @ [0])) (arr (lit ''../cruz'' @ [0])) 40 =
     Some (lit ''/home/cruz'' @ 0 # rest)) \<and>
   relative_to_absolute (replicate 14 7) (arr (lit ''/home/peter'' @ [0])) (arr (lit ''cruz'' @ [0])) 14 = Some (lit ''/home/peter/c'' @ [0])"
proof -
  let ?bs = "[lit ''home'', lit ''peter'']"
  have a: "str_at (arr (lit ''../cruz'' @ [0])) 0 (lit ''../cruz'')" "str_at (arr (lit ''/home/peter'' @ [0])) 0 (render ?bs)"
    "\<forall>c \<in> set ?bs. comp_ok c" "length (render ?bs) < length (replicate 40 (7 :: u8))" by code_simp+
  have n: "length (replicate 40 (7 :: u8)) < 2147483600" "length (lit ''../cruz'') + 1 < 2 ^ 31" "length (replicate 14 (7 :: u8)) < 2147483600"
    "length (lit ''cruz'') + 1 < 2 ^ 31" by (simp_all add: lit_def)
  have "render (foldl (go_cut (length (replicate 40 (7 :: u8)))) (if lit ''../cruz'' \<noteq> [] \<and> hd (lit ''../cruz'') = slash then [] else ?bs) (comps (lit ''../cruz''))) = lit ''/home/cruz''"
    by code_simp
  then have 1: "\<exists>rest. relative_to_absolute (replicate 40 7) (arr (lit ''/home/peter'' @ [0])) (arr (lit ''../cruz'' @ [0])) 40 = Some (lit ''/home/cruz'' @ 0 # rest)"
    using relative_to_absolute_exact[OF a n(1,2)] by (auto simp: Let_def)
  have b: "str_at (arr (lit ''cruz'' @ [0])) 0 (lit ''cruz'')" "length (render ?bs) < length (replicate 14 (7 :: u8))" by code_simp+
  have "render (foldl (go_cut (length (replicate 14 (7 :: u8)))) (if lit ''cruz'' \<noteq> [] \<and> hd (lit ''cruz'') = slash then [] else ?bs) (comps (lit ''cruz''))) = lit ''/home/peter/c''"
    "length (lit ''/home/peter/c'') = 13" by code_simp+
  then show ?thesis using relative_to_absolute_exact[OF b(1) a(2,3) b(2) n(3,4)] 1 by (auto simp: Let_def)
qed

end
