(* ===== verification/Fscalls.thy ===== *)
theory Fscalls
  imports Pipe Filesystem
begin

text \<open>
  The system calls on files, fscalls.c. Files are read from the image at the address
  \<open>filesystem\<close>, through the page tables of the calling process like every access of the kernel.
  A local array of a handler holds whatever the stack held; \<open>junk\<close> stands for it.
\<close>

definition OPEN_DIRECTORY :: int where "OPEN_DIRECTORY = 0xFFFF"
definition NAME_MAX :: nat where "NAME_MAX = 1024"

definition local_array :: "nat \<Rightarrow> kstate \<Rightarrow> u8 list" where
  "local_array n st = map (\<lambda>i. junk st (of_nat i)) [0..<n]"

text \<open>The absolute form of the path string at address \<open>path\<close> of the calling process.\<close>

definition abs_path :: "u32 \<Rightarrow> kstate \<Rightarrow> u8 list option" where
  "abs_path path st = do {
     c \<leftarrow> cur st;
     relative_to_absolute (local_array PATH_MAX st) (arr (p_cwd c)) (mem_ptr (rd8 st) path) PATH_MAX }"

definition syscall_stat :: "u32 \<Rightarrow> u32 \<Rightarrow> kstate \<Rightarrow> (int \<times> kstate) option" where
  "syscall_stat path buf st = do {
     v \<leftarrow> valid_string st path;
     if \<not> v then Some (- EFAULT, st)
     else do {
       w \<leftarrow> valid_pointer st buf 20;
       if \<not> w then Some (- EFAULT, st)
       else do {
         ab \<leftarrow> abs_path path st;
         (r, entry) \<leftarrow> get_directory_entry (rd8 st) (filesystem st) (arr ab);
         if r \<noteq> 0 then Some (r, st)
         else do {
           mode \<leftarrow> ent_mode (rd8 st) entry;
           st1 \<leftarrow> write_bytes buf (bytes32 mode) st;
           st2 \<leftarrow> write_bytes (buf + 4) (bytes32 0) st1;
           st3 \<leftarrow> write_bytes (buf + 8) (bytes32 0) st2;
           sz \<leftarrow> ent_size (rd8 st3) entry;
           st4 \<leftarrow> write_bytes (buf + 12) (bytes32 sz) st3;
           mtime \<leftarrow> ent_mtime (rd8 st4) entry;
           st5 \<leftarrow> write_bytes (buf + 16) (bytes32 mtime) st4;
           Some (0, st5) } } } }"

definition file_write_h :: "kstate \<Rightarrow> (int \<times> kstate) option" where
  "file_write_h st = Some (- EBADF, st)"

definition file_read_h :: "u32 \<Rightarrow> u32 \<Rightarrow> u32 \<Rightarrow> kstate \<Rightarrow> (int \<times> kstate) option" where
  "file_read_h f buf count st = do {
     fh \<leftarrow> get_fh st f;
     if fh_type fh = FH_DIR then Some (- EISDIR, st)
     else do {
       pos \<leftarrow> fh_pos fh;
       entry \<leftarrow> fh_entry fh;
       sz \<leftarrow> ent_size (rd8 st) entry;
       if pos \<ge> sz then Some (0, st)
       else do {
         let count1 = (if pos + count > sz then sz - pos else count);
         loc \<leftarrow> ent_location (rd8 st) entry;
         bs \<leftarrow> read_bytes st (filesystem st + loc + pos) (unat count1);
         st1 \<leftarrow> write_bytes buf bs st;
         Some (sint count1, set_fh f (fh\<lparr>fh_pos := Some (pos + count1)\<rparr>) st1) } } }"

definition new_file :: "fh_type \<Rightarrow> kstate \<Rightarrow> (u32 \<times> kstate) option" where
  "new_file t st = do {
     (f, st1) \<leftarrow> knew 36 st;
     Some (f, set_fh f \<lparr>fh_type = t, refcount = 1, fh_write = file_write, fh_read = file_read, fh_destroy = file_destroy,
                        fh_p = None, fh_entry = None, fh_pos = None, fh_entryno = None\<rparr> st1) }"

text \<open>The lowest unused descriptor, or the length of the table.\<close>

fun find_fd :: "u32 list \<Rightarrow> nat" where
  "find_fd [] = 0"
| "find_fd (f # fs) = (if f = 0 then 0 else Suc (find_fd fs))"

definition syscall_open :: "u32 \<Rightarrow> int \<Rightarrow> kstate \<Rightarrow> (int \<times> kstate) option" where
  "syscall_open pathname flags st = do {
     v \<leftarrow> valid_string st pathname;
     if \<not> v then Some (- EFAULT, st)
     else do {
       c \<leftarrow> cur st;
       let fd = find_fd (p_filedesc c);
       if fd = MAX_FDS then Some (- EMFILE, st)
       else do {
         ab \<leftarrow> abs_path pathname st;
         (r, entry) \<leftarrow> get_directory_entry (rd8 st) (filesystem st) (arr ab);
         if r \<noteq> 0 then Some (r, st)
         else do {
           t \<leftarrow> ent_type (rd8 st) entry;
           if flags = OPEN_DIRECTORY \<and> t \<noteq> TYPE_DIR then Some (- ENOTDIR, st)
           else if flags \<noteq> OPEN_DIRECTORY \<and> t = TYPE_DIR then Some (- EISDIR, st)
           else do {
             (f, st1) \<leftarrow> new_file (if t = TYPE_DIR then FH_DIR else FH_FILE) st;
             fh \<leftarrow> get_fh st1 f;
             st2 \<leftarrow> fd_set fd f (set_fh f (fh\<lparr>fh_entry := Some entry, fh_pos := Some 0, fh_entryno := Some 0\<rparr>) st1);
             Some (int fd, st2) } } } } }"

text \<open>
  \<open>struct dirent\<close> has 4 + 1025 bytes, rounded up to 1032. The name of the entry is the format of
  \<open>snprintf\<close>, and there are no arguments.
\<close>

definition syscall_getdent :: "int \<Rightarrow> u32 \<Rightarrow> kstate \<Rightarrow> (int \<times> kstate) option" where
  "syscall_getdent fd entry st = do {
     v \<leftarrow> valid_pointer st entry 1032;
     if \<not> v then Some (- EFAULT, st)
     else do {
       bad \<leftarrow> bad_fd fd st;
       if bad then Some (- EBADF, st)
       else do {
         f \<leftarrow> fd_get fd st;
         fh \<leftarrow> get_fh st f;
         if fh_type fh = FH_DIR then do {
           e \<leftarrow> fh_entry fh;
           loc \<leftarrow> ent_location (rd8 st) e;
           no \<leftarrow> fh_entryno fh;
           count \<leftarrow> dir_count (rd8 st) (filesystem st + loc);
           if no \<ge> count then Some (0, st)
           else do {
             st1 \<leftarrow> write_bytes entry (bytes32 0) st;
             d_name \<leftarrow> read_bytes st1 (entry + 4) (NAME_MAX + 1);
             (_, d_name1) \<leftarrow> snprintf d_name (NAME_MAX + 1) (ent_name (rd8 st1) (dir_entry (filesystem st + loc) (unat no))) [];
             st2 \<leftarrow> write_bytes (entry + 4) d_name1 st1;
             Some (1, set_fh f (fh\<lparr>fh_entryno := Some (no + 1)\<rparr>) st2) } }
         else Some (- ENOTDIR, st) } } }"

definition syscall_chdir :: "u32 \<Rightarrow> kstate \<Rightarrow> (int \<times> kstate) option" where
  "syscall_chdir path st = do {
     v \<leftarrow> valid_string st path;
     if \<not> v then Some (- EFAULT, st)
     else do {
       newcwd \<leftarrow> abs_path path st;
       (r, entry) \<leftarrow> get_directory_entry (rd8 st) (filesystem st) (arr newcwd);
       if r \<noteq> 0 then Some (r, st)
       else do {
         t \<leftarrow> ent_type (rd8 st) entry;
         if t \<noteq> TYPE_DIR then Some (- ENOTDIR, st)
         else do {
           st1 \<leftarrow> upd_cur (\<lambda>c. c\<lparr>p_cwd := newcwd\<rparr>) st;
           Some (0, st1) } } } }"

text \<open>The result is the pointer, NULL for an invalid buffer.\<close>

definition syscall_getcwd :: "u32 \<Rightarrow> u32 \<Rightarrow> kstate \<Rightarrow> (u32 \<times> kstate) option" where
  "syscall_getcwd buf sz st = do {
     v \<leftarrow> valid_pointer st buf sz;
     if \<not> v then Some (0, st)
     else do {
       c \<leftarrow> cur st;
       old \<leftarrow> read_bytes st buf (unat sz);
       (_, new) \<leftarrow> snprintf old (unat sz) (arr (lit ''%s'' @ [0])) [Str (arr (p_cwd c))];
       st1 \<leftarrow> write_bytes buf new st;
       Some (buf, st1) } }"

end
