(* ===== verification/Process_Life.thy ===== *)
theory Process_Life
  imports Pipe Libc
begin

text \<open>
  The creation and the end of processes, process.c: \<open>start_process\<close> and \<open>kill_process\<close>. The
  addresses of the code of the kernel, which the linker defines, are parameters.
\<close>

definition MB :: u32 where "MB = 1048576"

definition on_pages :: "(pages \<Rightarrow> pages option) \<Rightarrow> kstate \<Rightarrow> kstate option" where
  "on_pages f st = do { g \<leftarrow> f (pgs st); Some (st\<lparr>pgs := g\<rparr>) }"

definition new_page :: "kstate \<Rightarrow> u32 \<times> kstate" where
  "new_page st = (let (a, g) = alloc_page (pgs st) in (a, st\<lparr>pgs := g\<rparr>))"

definition proc_fd_set :: "nat \<Rightarrow> nat \<Rightarrow> u32 \<Rightarrow> kstate \<Rightarrow> kstate option" where
  "proc_fd_set i fd f st = upd_proc i (\<lambda>p. p\<lparr>p_filedesc := (p_filedesc p)[fd := f]\<rparr>) st"

definition start_process :: "u32 \<Rightarrow> u32 \<Rightarrow> u32 \<Rightarrow> kstate \<Rightarrow> (int \<times> kstate) option" where
  "start_process code_start code_end start_address st = do {
     pid \<leftarrow> get_free_pid st;
     if 0 > pid then Some (- 1, st)
     else do {
       let i = nat pid;
       st1 \<leftarrow> upd_proc i (\<lambda>_. zero_process\<lparr>p_pid := pid, p_exists := True,
         p_stack_start := PROCESS_STACK_BASE - PROCESS_STACK_SIZE, p_stack_end := PROCESS_STACK_BASE\<rparr>) st;
       let (pdir, st2) = new_page st1;
       st3 \<leftarrow> upd_proc i (\<lambda>p. p\<lparr>p_pdir := pdir\<rparr>) st2;
       st4 \<leftarrow> on_pages (identity_map pdir (0 * MB) (6 * MB) PAGE_SUPERVISOR PAGE_READ_ONLY) st3;
       st5 \<leftarrow> on_pages (identity_map pdir code_start code_end PAGE_USER PAGE_READ_ONLY) st4;
       p5 \<leftarrow> get_proc st5 i;
       st6 \<leftarrow> on_pages (map_new_pages pdir (p_stack_start p5) ((p_stack_end p5 - p_stack_start p5) div PAGE_SIZE)) st5;
       st7 \<leftarrow> upd_proc i (\<lambda>p. p\<lparr>p_data_start := PROCESS_DATA_BASE, p_data_end := PROCESS_DATA_BASE,
         p_text_start := PROCESS_TEXT_BASE, p_text_end := PROCESS_TEXT_BASE, p_parent_pid := - 1, p_waiting_on := - 1,
         p_exit_status := 255\<rparr>) st6;
       (b, st8) \<leftarrow> new_pipe st7;
       (h0, st9) \<leftarrow> new_pipe_reader b st8;
       st10 \<leftarrow> proc_fd_set i 0 h0 st9;
       (h1, st11) \<leftarrow> new_screen_handle st10;
       st12 \<leftarrow> proc_fd_set i 1 h1 st11;
       (h2, st13) \<leftarrow> new_screen_handle st12;
       st14 \<leftarrow> proc_fd_set i 2 h2 st13;
       p14 \<leftarrow> get_proc st14 i;
       (_, cwd) \<leftarrow> snprintf (p_cwd p14) PATH_MAX (arr (lit ''/'' @ [0])) [];
       st15 \<leftarrow> upd_proc i (\<lambda>p. p\<lparr>p_cwd := cwd, p_saved_regs := init_regs (p_stack_end p) start_address, p_ready := True\<rparr>) st14;
       st16 \<leftarrow> ready_add i st15;
       Some (pid, st16) } }"

section \<open>The end of a process\<close>

definition close_all :: "nat \<Rightarrow> kstate \<Rightarrow> kstate option" where
  "close_all i = fold_opt (\<lambda>fd st. do {
     p \<leftarrow> get_proc st i;
     f \<leftarrow> list_get (p_filedesc p) fd;
     if f \<noteq> 0 then close_filehandle f st else Some st }) [0..<MAX_FDS]"

partial_function (option) unmap_range :: "u32 \<Rightarrow> u32 \<Rightarrow> u32 \<Rightarrow> pages \<Rightarrow> pages option" where
  "unmap_range pdir addr to st = (if addr < to then do {
     st1 \<leftarrow> unmap_and_free_page pdir addr st;
     unmap_range pdir (addr + PAGE_SIZE) to st1 } else Some st)"
declare unmap_range.simps [code]

definition orphan_children :: "int \<Rightarrow> kstate \<Rightarrow> kstate option" where
  "orphan_children pid = fold_opt (\<lambda>child st. do {
     p \<leftarrow> get_proc st child;
     if pid = p_parent_pid p then upd_proc child (\<lambda>p. p\<lparr>p_parent_pid := - 1\<rparr>) st else Some st }) [0..<MAX_PROCESSES]"

definition SYSCALL_WAITPID :: u32 where "SYSCALL_WAITPID = 14"

definition release_or_wake :: "nat \<Rightarrow> kstate \<Rightarrow> kstate option" where
  "release_or_wake i st = do {
     p \<leftarrow> get_proc st i;
     if p_parent_pid p = - 1 then upd_proc i (\<lambda>p. p\<lparr>p_exists := False\<rparr>) st
     else do {
       kassert (0 \<le> p_parent_pid p);
       let j = nat (p_parent_pid p);
       q \<leftarrow> get_proc st j;
       if p_in_syscall q = SYSCALL_WAITPID \<and> p_pid p = p_waiting_on q then do {
         st1 \<leftarrow> upd_proc j (\<lambda>q. q\<lparr>p_waiting_on := - 1\<rparr>) st;
         resume_process j st1 }
       else Some st } }"

definition kill_process :: "nat \<Rightarrow> kstate \<Rightarrow> kstate option" where
  "kill_process i st = do {
     let current = (current_process st = Some i);
     let st1 = disable_paging st;
     let st2 = (if current then st1\<lparr>current_process := None\<rparr> else st1);
     p \<leftarrow> get_proc st2 i;
     st3 \<leftarrow> (if p_ready p then ready_remove i st2 else suspended_remove i st2);
     st4 \<leftarrow> close_all i st3;
     p4 \<leftarrow> get_proc st4 i;
     st5 \<leftarrow> on_pages (unmap_range (p_pdir p4) (p_stack_start p4) (p_stack_end p4)) st4;
     st6 \<leftarrow> on_pages (unmap_range (p_pdir p4) (p_data_start p4) (p_data_end p4)) st5;
     st7 \<leftarrow> on_pages (unmap_range (p_pdir p4) (p_text_start p4) (p_text_end p4)) st6;
     st8 \<leftarrow> on_pages (free_page_dir (p_pdir p4)) st7;
     st9 \<leftarrow> (if p_mailbox p4 \<noteq> 0 then kdelete (p_mailbox p4) st8 else Some st8);
     st10 \<leftarrow> orphan_children (p_pid p4) st9;
     st11 \<leftarrow> release_or_wake i st10;
     st12 \<leftarrow> upd_proc i (\<lambda>p. p\<lparr>p_exited := True\<rparr>) st11;
     if \<not> current then do { c \<leftarrow> cur st12; Some (enable_paging (p_pdir c) st12) } else Some st12 }"

end
