(* ===== verification/Unixproc.thy ===== *)
theory Unixproc
  imports Fscalls Process_Life
begin

text \<open>
  The system calls on processes, unixproc.c: fork, vfork, execve and waitpid. \<open>r\<close> are the
  registers of the caller; execve replaces them.
\<close>

section \<open>Copying address spaces\<close>

text \<open>\<open>memmove\<close> in physical memory, byte by byte upwards.\<close>

definition copy_phys :: "u32 \<Rightarrow> u32 \<Rightarrow> nat \<Rightarrow> bytemem \<Rightarrow> bytemem" where
  "copy_phys dest src n m = fold (\<lambda>i m. m(dest + of_nat i := m (src + of_nat i))) [0..<n] m"

partial_function (option) copy_loop :: "u32 \<Rightarrow> u32 \<Rightarrow> u32 \<Rightarrow> u32 \<Rightarrow> pages \<Rightarrow> pages option" where
  "copy_loop src_dir dest_dir addr to st = (if addr < to then do {
     let (page, st1) = alloc_page st;
     st2 \<leftarrow> map_page dest_dir addr page PAGE_USER PAGE_READ_WRITE st1;
     sl \<leftarrow> lookup_page src_dir addr st2;
     src_phys \<leftarrow> sl;
     let st3 = st2\<lparr>pmem := copy_phys page src_phys 4096 (pmem st2)\<rparr>;
     copy_loop src_dir dest_dir (addr + PAGE_SIZE) to st3 } else Some st)"
declare copy_loop.simps [code]

definition map_and_copy :: "u32 \<Rightarrow> u32 \<Rightarrow> u32 \<Rightarrow> u32 \<Rightarrow> pages \<Rightarrow> pages option" where
  "map_and_copy src_dir dest_dir start to st = do {
     kassert (start mod PAGE_SIZE = 0);
     kassert (to mod PAGE_SIZE = 0);
     copy_loop src_dir dest_dir start to st }"

text \<open>The loop of fork that maps the first six megabytes to themselves.\<close>

partial_function (option) map_low :: "u32 \<Rightarrow> u32 \<Rightarrow> u32 \<Rightarrow> pages \<Rightarrow> pages option" where
  "map_low pdir addr to st = (if addr < to then do {
     st1 \<leftarrow> map_page pdir addr addr PAGE_USER PAGE_READ_ONLY st;
     map_low pdir (addr + PAGE_SIZE) to st1 } else Some st)"
declare map_low.simps [code]

definition copy_space :: "process \<Rightarrow> u32 \<Rightarrow> pages \<Rightarrow> pages option" where
  "copy_space p pdir st = do {
     st1 \<leftarrow> map_low pdir (0 * MB) (6 * MB) st;
     st2 \<leftarrow> map_and_copy (p_pdir p) pdir (p_text_start p) (p_text_end p) st1;
     st3 \<leftarrow> map_and_copy (p_pdir p) pdir (p_data_start p) (p_data_end p) st2;
     map_and_copy (p_pdir p) pdir (p_stack_start p) (p_stack_end p) st3 }"

definition share_fds :: "nat \<Rightarrow> nat \<Rightarrow> kstate \<Rightarrow> kstate option" where
  "share_fds parent child = fold_opt (\<lambda>fd st. do {
     p \<leftarrow> get_proc st parent;
     f \<leftarrow> list_get (p_filedesc p) fd;
     if f \<noteq> 0 then do {
       st1 \<leftarrow> proc_fd_set child fd f st;
       fh \<leftarrow> get_fh st1 f;
       Some (set_fh f (fh\<lparr>refcount := refcount fh + 1\<rparr>) st1) }
     else Some st }) [0..<MAX_FDS]"

text \<open>The first half of fork and vfork: the new process structure and its address space.\<close>

definition new_child :: "nat \<Rightarrow> int \<Rightarrow> process \<Rightarrow> kstate \<Rightarrow> kstate option" where
  "new_child child pid p st = do {
     let (pdir, st2) = new_page (disable_paging st);
     st3 \<leftarrow> upd_proc child (\<lambda>q. q\<lparr>p_pdir := pdir, p_text_start := p_text_start p, p_text_end := p_text_end p,
       p_data_start := p_data_start p, p_data_end := p_data_end p, p_stack_start := p_stack_start p,
       p_stack_end := p_stack_end p\<rparr>) st2;
     st4 \<leftarrow> on_pages (copy_space p pdir) st3;
     c \<leftarrow> cur st4;
     Some (enable_paging (p_pdir c) st4) }"

definition syscall_fork :: "regs \<Rightarrow> kstate \<Rightarrow> (int \<times> kstate) option" where
  "syscall_fork r st = do {
     child_pid \<leftarrow> get_free_pid st;
     if 0 > child_pid then Some (- EAGAIN, st)
     else do {
       parent \<leftarrow> current_process st;
       let child = nat child_pid;
       p \<leftarrow> get_proc st parent;
       st1 \<leftarrow> upd_proc child (\<lambda>_. zero_process\<lparr>p_pid := child_pid, p_parent_pid := p_pid p, p_exists := True\<rparr>) st;
       st2 \<leftarrow> new_child child child_pid p st1;
       st3 \<leftarrow> share_fds parent child st2;
       p3 \<leftarrow> get_proc st3 parent;
       st4 \<leftarrow> upd_proc child (\<lambda>q. q\<lparr>p_saved_regs := r\<lparr>r_eax := 0\<rparr>, p_cwd := p_cwd p3, p_ready := True\<rparr>) st3;
       st5 \<leftarrow> ready_add child st4;
       Some (child_pid, st5) } }"

section \<open>vfork\<close>

definition kprintf :: "string \<Rightarrow> varg list \<Rightarrow> kstate \<Rightarrow> kstate option" where
  "kprintf fmt args st = do {
     bs \<leftarrow> printf_output (local_array 4096 st) (arr (lit fmt @ [0])) args;
     v \<leftarrow> write_to_screen bs (console st);
     Some (st\<lparr>console := v\<rparr>) }"

definition newline :: string where "newline = [CHR 0x0A]"

definition vfork_debug :: "process \<Rightarrow> process \<Rightarrow> kstate \<Rightarrow> kstate option" where
  "vfork_debug q p st = do {
     let b = (\<lambda>x. Word (if x then 1 else 0));
     st1 \<leftarrow> kprintf (''vfork debug output'' @ newline) [] st;
     st2 \<leftarrow> kprintf (''child->pid: %i,%i'' @ newline) [Word (of_int (p_pid q)), Word (of_int (p_pid p))] st1;
     st3 \<leftarrow> kprintf (''exists: %i,%i'' @ newline) [b (p_exists q), b (p_exists p)] st2;
     st4 \<leftarrow> kprintf (''ready: %i,%i'' @ newline) [b (p_ready q), b (p_ready p)] st3;
     st5 \<leftarrow> kprintf (''pdir: %i,%i'' @ newline) [Word (p_pdir q), Word (p_pdir p)] st4;
     st6 \<leftarrow> kprintf (''last_errno:%i,%i'' @ newline) [Word (of_int (p_last_errno q)), Word (of_int (p_last_errno p))] st5;
     st7 \<leftarrow> kprintf (''stack_start: %u,%u'' @ newline) [Word (p_stack_start q), Word (p_stack_start p)] st6;
     st8 \<leftarrow> kprintf (''stack_end: %u,%u'' @ newline) [Word (p_stack_end q), Word (p_stack_end p)] st7;
     st9 \<leftarrow> kprintf (''data_start: %u,%u'' @ newline) [Word (p_data_start q), Word (p_data_start p)] st8;
     st10 \<leftarrow> kprintf (''data_end: %u,%u'' @ newline) [Word (p_data_end q), Word (p_data_end p)] st9;
     st11 \<leftarrow> kprintf (''text_start: %u,%u'' @ newline) [Word (p_text_start q), Word (p_text_start p)] st10;
     kprintf (''text_end: %u,%u'' @ newline) [Word (p_text_end q), Word (p_text_end p)] st11 }"

definition syscall_vfork :: "regs \<Rightarrow> kstate \<Rightarrow> (int \<times> kstate) option" where
  "syscall_vfork r st = do {
     child_pid \<leftarrow> get_free_pid st;
     if 0 > child_pid then Some (- EAGAIN, st)
     else do {
       parent \<leftarrow> current_process st;
       let child = nat child_pid;
       p \<leftarrow> get_proc st parent;
       st1 \<leftarrow> upd_proc child (\<lambda>_. zero_process\<lparr>p_pid := child_pid, p_parent_pid := p_pid p, p_exists := True\<rparr>) st;
       st1' \<leftarrow> upd_proc parent (\<lambda>p. p\<lparr>p_waiting_on := - 1\<rparr>) st1;
       st2 \<leftarrow> new_child child child_pid p st1';
       st3 \<leftarrow> share_fds parent child st2;
       st4 \<leftarrow> upd_proc child (\<lambda>q. q\<lparr>p_saved_regs := r\<lparr>r_eax := 0\<rparr>, p_ready := True\<rparr>) st3;
       st5 \<leftarrow> ready_add child st4;
       q5 \<leftarrow> get_proc st5 child;
       p5 \<leftarrow> get_proc st5 parent;
       st6 \<leftarrow> vfork_debug q5 p5 st5;
       Some (child_pid, st6) } }"

section \<open>execve\<close>

definition ptr_word :: "kstate \<Rightarrow> u32 \<Rightarrow> u32 option" where
  "ptr_word st a = vload32 (rd8 st) a"

text \<open>The check of the argument vector; the result is \<open>False\<close> for \<open>-EFAULT\<close>.\<close>

partial_function (option) check_args :: "kstate \<Rightarrow> u32 \<Rightarrow> u32 \<Rightarrow> bool option" where
  "check_args st argv argno = do {
     v \<leftarrow> valid_pointer st argv ((argno + 1) * 4);
     if \<not> v then Some False
     else do {
       a \<leftarrow> ptr_word st (argv + argno * 4);
       if a = 0 then Some True
       else do {
         w \<leftarrow> valid_string st a;
         if \<not> w then Some False else check_args st argv (argno + 1) } } }"
declare check_args.simps [code]

text \<open>The number of arguments and the bytes they need.\<close>

partial_function (option) count_args :: "kstate \<Rightarrow> u32 \<Rightarrow> u32 \<Rightarrow> u32 \<Rightarrow> (u32 \<times> u32) option" where
  "count_args st argv argc argslen = (if argv = 0 then Some (argc, argslen) else do {
     a \<leftarrow> ptr_word st (argv + argc * 4);
     if a = 0 then Some (argc, argslen)
     else do {
       n \<leftarrow> strlen (mem_ptr (rd8 st) a);
       count_args st argv (argc + 1) (argslen + of_nat n + 1) } })"
declare count_args.simps [code]

definition copy_args :: "u32 \<Rightarrow> u32 \<Rightarrow> u32 \<Rightarrow> u32 \<Rightarrow> kstate \<Rightarrow> kstate option" where
  "copy_args argv argc argdata argdata_size st = map_option snd (fold_opt (\<lambda>argno (pos, st). do {
     a \<leftarrow> ptr_word st (argv + of_nat argno * 4);
     n \<leftarrow> strlen (mem_ptr (rd8 st) a);
     let nbytes = of_nat n + 1;
     let pos1 = pos - nbytes;
     bs \<leftarrow> read_bytes st a (unat nbytes);
     st1 \<leftarrow> buf_store argdata (unat pos1) bs st;
     st2 \<leftarrow> buf_store argdata (8 + argno * 4) (bytes32 (PROCESS_STACK_BASE - argdata_size + pos1)) st1;
     Some (pos1, st2) }) [0..<unat argc] (argdata_size, st))"

text \<open>The loop that loads the program; paging is disabled.\<close>

partial_function (option) load_text :: "nat \<Rightarrow> u32 \<Rightarrow> u32 \<Rightarrow> u32 \<Rightarrow> kstate \<Rightarrow> (u32 \<times> kstate) option" where
  "load_text i entry text_data pos st = do {
     sz \<leftarrow> ent_size (rd8 st) entry;
     if pos < sz then do {
       p \<leftarrow> get_proc st i;
       let te = p_text_start p + pos;
       st1 \<leftarrow> upd_proc i (\<lambda>p. p\<lparr>p_text_end := te\<rparr>) st;
       let (page, st2) = new_page st1;
       let n = (if PAGE_SIZE \<le> sz - pos then PAGE_SIZE else sz - pos);
       let st3 = st2\<lparr>pgs := (pgs st2)\<lparr>pmem := copy_phys page (text_data + pos) (unat n) (pmem (pgs st2))\<rparr>\<rparr>;
       st4 \<leftarrow> on_pages (map_page (p_pdir p) te page PAGE_USER PAGE_READ_WRITE) st3;
       load_text i entry text_data (pos + PAGE_SIZE) st4 }
     else Some (pos, st) }"
declare load_text.simps [code]

text \<open>From the unmapping of the old program to the end; \<open>i\<close> is the current process.\<close>

definition exec_replace :: "nat \<Rightarrow> u32 \<Rightarrow> u32 \<Rightarrow> u32 \<Rightarrow> kstate \<Rightarrow> (regs \<times> kstate) option" where
  "exec_replace i entry argdata argdata_size st = do {
     let st1 = disable_paging st;
     p \<leftarrow> get_proc st1 i;
     st2 \<leftarrow> on_pages (unmap_range (p_pdir p) (p_text_start p) (p_text_end p)) st1;
     st3 \<leftarrow> on_pages (unmap_range (p_pdir p) (p_data_start p) (p_data_end p)) st2;
     st4 \<leftarrow> upd_proc i (\<lambda>p. p\<lparr>p_text_start := PROCESS_TEXT_BASE, p_text_end := PROCESS_TEXT_BASE,
       p_data_start := PROCESS_DATA_BASE, p_data_end := PROCESS_DATA_BASE\<rparr>) st3;
     loc \<leftarrow> ent_location (rd8 st4) entry;
     (pos, st5) \<leftarrow> load_text i entry (filesystem st4 + loc) 0 st4;
     st6 \<leftarrow> upd_proc i (\<lambda>p. p\<lparr>p_text_end := p_text_start p + pos\<rparr>) st5;
     c \<leftarrow> cur st6;
     let st7 = enable_paging (p_pdir c) st6;
     bs \<leftarrow> buf_load argdata 0 (unat argdata_size) st7;
     st8 \<leftarrow> write_bytes (PROCESS_STACK_BASE - argdata_size) bs st7;
     st9 \<leftarrow> kdelete argdata st8;
     c9 \<leftarrow> cur st9;
     Some (init_regs (PROCESS_STACK_BASE - argdata_size) (p_text_start c9), st9) }"

definition syscall_execve :: "u32 \<Rightarrow> u32 \<Rightarrow> regs \<Rightarrow> kstate \<Rightarrow> (int \<times> regs \<times> kstate) option" where
  "syscall_execve filename argv r st = do {
     i \<leftarrow> current_process st;
     v \<leftarrow> valid_string st filename;
     if \<not> v then Some (- EFAULT, r, st)
     else do {
       ok \<leftarrow> (if argv \<noteq> 0 then check_args st argv 0 else Some True);
       if \<not> ok then Some (- EFAULT, r, st)
       else do {
         (res, entry) \<leftarrow> get_directory_entry (rd8 st) (filesystem st) (mem_ptr (rd8 st) filename);
         if 0 > res then Some (res, r, st)
         else do {
           t \<leftarrow> ent_type (rd8 st) entry;
           if t = TYPE_DIR then Some (- EISDIR, r, st)
           else do {
             (argc, argslen) \<leftarrow> count_args st argv 0 0;
             let argdata_size = argslen + argc * 4 + 2 * 4;
             (argdata, st1) \<leftarrow> new_buf argdata_size st;
             st2 \<leftarrow> copy_args argv argc argdata argdata_size st1;
             st3 \<leftarrow> buf_store argdata 0 (bytes32 argc) st2;
             st4 \<leftarrow> buf_store argdata 4 (bytes32 (PROCESS_STACK_BASE - argdata_size + 8)) st3;
             (r', st5) \<leftarrow> exec_replace i entry argdata argdata_size st4;
             Some (0, r', st5) } } } } }"

section \<open>waitpid\<close>

text \<open>
  Stores of the kernel through an address that it has not checked. Below \<open>PAGE_START\<close> lie the
  variables and the heap of the kernel itself, which the model keeps in the fields of the state and
  not as bytes. A store there destroys them; it has no result.
\<close>

definition spares_kernel :: "kstate \<Rightarrow> u32 \<Rightarrow> nat \<Rightarrow> bool" where
  "spares_kernel st a n = list_all (\<lambda>k. case phys st (a + of_nat k) of Some pa \<Rightarrow> PAGE_START \<le> pa | None \<Rightarrow> False) [0..<n]"

text \<open>The argument \<open>options\<close> is not used; \<open>status\<close> is written without a check.\<close>

definition syscall_waitpid :: "int \<Rightarrow> u32 \<Rightarrow> kstate \<Rightarrow> (int \<times> kstate) option" where
  "syscall_waitpid pid status st =
     (if 0 > pid \<or> int MAX_PROCESSES \<le> pid then Some (- ECHILD, st)
      else do {
        i \<leftarrow> current_process st;
        st1 \<leftarrow> upd_proc i (\<lambda>p. p\<lparr>p_waiting_on := - 1\<rparr>) st;
        c \<leftarrow> get_proc st1 (nat pid);
        me \<leftarrow> get_proc st1 i;
        if \<not> p_exists c \<or> p_parent_pid c \<noteq> p_pid me then Some (- ECHILD, st1)
        else if p_exited c then do {
          st2 \<leftarrow> (if status \<noteq> 0 then do {
              kassert (spares_kernel st1 status 4);
              write_bytes status (bytes32 (of_int (p_exit_status c))) st1 }
            else Some st1);
          st3 \<leftarrow> upd_proc (nat pid) (\<lambda>p. p\<lparr>p_exists := False\<rparr>) st2;
          Some (pid, st3) }
        else do {
          st2 \<leftarrow> upd_proc i (\<lambda>p. p\<lparr>p_waiting_on := pid\<rparr>) st1;
          st3 \<leftarrow> suspend_process i st2;
          Some (- ESUSPEND, st3) } })"

end
