(* ===== verification/Syscall.thy ===== *)
theory Syscall
  imports Unixproc
begin

text \<open>
  The system calls of syscall.c and their dispatch. A handler returns the result of the call and
  the new state; a result of \<open>-ESUSPEND\<close> says that the caller has been suspended or has ended. The
  dispatcher and \<open>context_switch\<close> call each other: a process that is resumed in the middle of a
  system call makes the call again.
\<close>

definition INTERRUPT_SYSCALL :: u32 where "INTERRUPT_SYSCALL = 48"
definition SYSCALL_GETPID :: u32 where "SYSCALL_GETPID = 1"
definition SYSCALL_EXIT :: u32 where "SYSCALL_EXIT = 2"
definition SYSCALL_WRITE :: u32 where "SYSCALL_WRITE = 3"
definition SYSCALL_READ :: u32 where "SYSCALL_READ = 4"
definition SYSCALL_GETERRNO :: u32 where "SYSCALL_GETERRNO = 5"
definition SYSCALL_BRK :: u32 where "SYSCALL_BRK = 6"
definition SYSCALL_SEND :: u32 where "SYSCALL_SEND = 7"
definition SYSCALL_RECEIVE :: u32 where "SYSCALL_RECEIVE = 8"
definition SYSCALL_CLOSE :: u32 where "SYSCALL_CLOSE = 9"
definition SYSCALL_PIPE :: u32 where "SYSCALL_PIPE = 10"
definition SYSCALL_DUP2 :: u32 where "SYSCALL_DUP2 = 11"
definition SYSCALL_FORK :: u32 where "SYSCALL_FORK = 12"
definition SYSCALL_EXECVE :: u32 where "SYSCALL_EXECVE = 13"
definition SYSCALL_STAT :: u32 where "SYSCALL_STAT = 15"
definition SYSCALL_OPEN :: u32 where "SYSCALL_OPEN = 16"
definition SYSCALL_GETDENT :: u32 where "SYSCALL_GETDENT = 17"
definition SYSCALL_CHDIR :: u32 where "SYSCALL_CHDIR = 18"
definition SYSCALL_GETCWD :: u32 where "SYSCALL_GETCWD = 19"
definition SYSCALL_KILL :: u32 where "SYSCALL_KILL = 20"
definition SYSCALL_HALT :: u32 where "SYSCALL_HALT = 21"
definition SYSCALL_VFORK :: u32 where "SYSCALL_VFORK = 22"
definition MAX_MESSAGE_SIZE :: u32 where "MAX_MESSAGE_SIZE = 1024"

section \<open>Handlers\<close>

definition syscall_getpid :: "kstate \<Rightarrow> (int \<times> kstate) option" where
  "syscall_getpid st = do { c \<leftarrow> cur st; Some (p_pid c, st) }"

definition syscall_exit :: "int \<Rightarrow> kstate \<Rightarrow> (int \<times> kstate) option" where
  "syscall_exit status st = do {
     i \<leftarrow> current_process st;
     st1 \<leftarrow> upd_proc i (\<lambda>p. p\<lparr>p_exit_status := status\<rparr>) (disable_paging st);
     st2 \<leftarrow> kill_process i st1;
     Some (- ESUSPEND, st2) }"

definition screen_write_h :: "u8 list \<Rightarrow> kstate \<Rightarrow> (int \<times> kstate) option" where
  "screen_write_h bs st = do {
     v \<leftarrow> write_to_screen bs (console st);
     Some (sint (of_nat (length bs) :: u32), st\<lparr>console := v\<rparr>) }"

definition screen_read_h :: "kstate \<Rightarrow> (int \<times> kstate) option" where
  "screen_read_h st = Some (- EINVAL, st)"

definition syscall_write :: "int \<Rightarrow> u32 \<Rightarrow> u32 \<Rightarrow> kstate \<Rightarrow> (int \<times> kstate) option" where
  "syscall_write fd buf count st = do {
     v \<leftarrow> valid_pointer st buf count;
     if \<not> v then Some (- EFAULT, st)
     else do {
       bad \<leftarrow> bad_fd fd st;
       if bad then Some (- EBADF, st)
       else do {
         f \<leftarrow> fd_get fd st;
         fh \<leftarrow> get_fh st f;
         case fh_write fh of
           screen_write \<Rightarrow> do { bs \<leftarrow> read_bytes st buf (unat count); screen_write_h bs st }
         | pipe_writer_write \<Rightarrow> do { bs \<leftarrow> read_bytes st buf (unat count); pipe_writer_write_h fh bs st }
         | pipe_reader_write \<Rightarrow> pipe_reader_write_h st
         | file_write \<Rightarrow> file_write_h st } } }"

definition syscall_read :: "int \<Rightarrow> u32 \<Rightarrow> u32 \<Rightarrow> kstate \<Rightarrow> (int \<times> kstate) option" where
  "syscall_read fd buf count st = do {
     v \<leftarrow> valid_pointer st buf count;
     if \<not> v then Some (- EFAULT, st)
     else do {
       bad \<leftarrow> bad_fd fd st;
       if bad then Some (- EBADF, st)
       else do {
         f \<leftarrow> fd_get fd st;
         fh \<leftarrow> get_fh st f;
         case fh_read fh of
           screen_read \<Rightarrow> screen_read_h st
         | pipe_writer_read \<Rightarrow> pipe_writer_read_h st
         | pipe_reader_read \<Rightarrow> pipe_reader_read_h fh buf count st
         | file_read \<Rightarrow> file_read_h f buf count st } } }"

definition syscall_geterrno :: "kstate \<Rightarrow> (int \<times> kstate) option" where
  "syscall_geterrno st = do { c \<leftarrow> cur st; Some (p_last_errno c, st) }"

definition round_up :: "u32 \<Rightarrow> u32" where
  "round_up a = (if 0 \<noteq> a mod PAGE_SIZE then (a div PAGE_SIZE + 1) * PAGE_SIZE else a)"

definition syscall_brk :: "u32 \<Rightarrow> kstate \<Rightarrow> (int \<times> kstate) option" where
  "syscall_brk end_data_segment st = do {
     c \<leftarrow> cur st;
     let oldend = p_data_end c;
     if end_data_segment \<le> oldend then Some (0, st)
     else do {
       let newend = round_up end_data_segment;
       let st1 = disable_paging st;
       st2 \<leftarrow> on_pages (map_new_pages (p_pdir c) oldend ((newend - oldend) div PAGE_SIZE)) st1;
       let st3 = enable_paging (p_pdir c) st2;
       st4 \<leftarrow> upd_cur (\<lambda>c. c\<lparr>p_data_end := newend\<rparr>) st3;
       Some (0, st4) } }"

definition syscall_kill :: "int \<Rightarrow> kstate \<Rightarrow> (int \<times> kstate) option" where
  "syscall_kill pid st = (if 0 > pid \<or> int MAX_PROCESSES \<le> pid then Some (- ESRCH, st)
     else do {
       p \<leftarrow> get_proc st (nat pid);
       if \<not> p_exists p then Some (- ESRCH, st)
       else do {
         c \<leftarrow> cur st;
         st1 \<leftarrow> kill_process (nat pid) st;
         Some (if pid = p_pid c then - ESUSPEND else 0, st1) } })"

section \<open>Messages\<close>

text \<open>A new mailbox holds whatever the memory held; a message has 1036 bytes.\<close>

definition junk_message :: "kstate \<Rightarrow> message" where
  "junk_message st = \<lparr>msg_from = ucast (junk st 0), msg_tag = ucast (junk st 1), msg_size = ucast (junk st 2), msg_data = local_array 1024 st\<rparr>"

definition new_mailbox :: "nat \<Rightarrow> kstate \<Rightarrow> (u32 \<times> kstate) option" where
  "new_mailbox n st = do {
     (p, st1) \<leftarrow> knew (of_nat n * 1036) st;
     Some (p, st1\<lparr>mboxes := (mboxes st1)(p \<mapsto> replicate n (junk_message st1))\<rparr>) }"

text \<open>The slot of the mailbox that the message goes to is counted first; the result is \<open>False\<close> when it is full.\<close>

definition mailbox_slot :: "nat \<Rightarrow> kstate \<Rightarrow> (bool \<times> kstate) option" where
  "mailbox_slot i st = do {
     d \<leftarrow> get_proc st i;
     if p_mailbox d = 0 then do {
       (mb, st1) \<leftarrow> new_mailbox 8 st;
       st2 \<leftarrow> upd_proc i (\<lambda>p. p\<lparr>p_mailbox_alloc := 8, p_mailbox_size := 1, p_mailbox := mb\<rparr>) st1;
       Some (True, st2) }
     else if p_mailbox_size d < p_mailbox_alloc d then do {
       st1 \<leftarrow> upd_proc i (\<lambda>p. p\<lparr>p_mailbox_size := p_mailbox_size p + 1\<rparr>) st;
       Some (True, st1) }
     else Some (False, st) }"

definition store_message :: "nat \<Rightarrow> u32 \<Rightarrow> u32 \<Rightarrow> u8 list \<Rightarrow> kstate \<Rightarrow> kstate option" where
  "store_message i from tag bs st = do {
     d \<leftarrow> get_proc st i;
     box \<leftarrow> mboxes st (p_mailbox d);
     let k = p_mailbox_size d - 1;
     old \<leftarrow> list_get box k;
     let new = \<lparr>msg_from = from, msg_tag = tag, msg_size = of_nat (length bs),
                msg_data = bs @ drop (length bs) (msg_data old)\<rparr>;
     box1 \<leftarrow> list_put box k new;
     Some (st\<lparr>mboxes := (mboxes st)(p_mailbox d \<mapsto> box1)\<rparr>) }"

definition wake_receiver :: "nat \<Rightarrow> kstate \<Rightarrow> kstate option" where
  "wake_receiver i st = do {
     d \<leftarrow> get_proc st i;
     if p_receive_blocked d then do {
       st1 \<leftarrow> resume_process i st;
       upd_proc i (\<lambda>p. p\<lparr>p_receive_blocked := False\<rparr>) st1 }
     else Some st }"

definition syscall_send :: "int \<Rightarrow> u32 \<Rightarrow> u32 \<Rightarrow> u32 \<Rightarrow> kstate \<Rightarrow> (int \<times> kstate) option" where
  "syscall_send to tag data sz st = do {
     v \<leftarrow> valid_pointer st data sz;
     if \<not> v then Some (- EFAULT, st)
     else if 0 > to \<or> int MAX_PROCESSES \<le> to then Some (- ESRCH, st)
     else do {
       d \<leftarrow> get_proc st (nat to);
       if \<not> p_exists d then Some (- ESRCH, st)
       else if MAX_MESSAGE_SIZE < sz then Some (- EINVAL, st)
       else do {
         (room, st1) \<leftarrow> mailbox_slot (nat to) st;
         if \<not> room then Some (- ENOMEM, st1)
         else do {
           c \<leftarrow> cur st1;
           bs \<leftarrow> read_bytes st1 data (unat sz);
           st2 \<leftarrow> store_message (nat to) (of_int (p_pid c)) tag bs st1;
           st3 \<leftarrow> wake_receiver (nat to) st2;
           Some (0, st3) } } } }"

definition message_bytes :: "message \<Rightarrow> u8 list" where
  "message_bytes x = bytes32 (msg_from x) @ bytes32 (msg_tag x) @ bytes32 (msg_size x) @ msg_data x"

definition syscall_receive :: "u32 \<Rightarrow> bool \<Rightarrow> kstate \<Rightarrow> (int \<times> kstate) option" where
  "syscall_receive msg block st = do {
     v \<leftarrow> valid_pointer st msg 1036;
     if \<not> v then Some (- EFAULT, st)
     else do {
       i \<leftarrow> current_process st;
       c \<leftarrow> get_proc st i;
       if p_mailbox_size c > 0 then do {
         box \<leftarrow> mboxes st (p_mailbox c);
         first \<leftarrow> list_get box 0;
         st1 \<leftarrow> write_bytes msg (message_bytes first) st;
         kassert (p_mailbox_size c \<le> length box);
         let n = p_mailbox_size c - 1;
         let box1 = take n (drop 1 box) @ drop n box;
         upd_proc i (\<lambda>p. p\<lparr>p_mailbox_size := n\<rparr>) (st1\<lparr>mboxes := (mboxes st1)(p_mailbox c \<mapsto> box1)\<rparr>) \<bind> (\<lambda>st2. Some (0, st2)) }
       else if block then do {
         st1 \<leftarrow> upd_proc i (\<lambda>p. p\<lparr>p_receive_blocked := True\<rparr>) st;
         st2 \<leftarrow> suspend_process i st1;
         Some (- ESUSPEND, st2) }
       else Some (- EAGAIN, st) } }"

section \<open>Dispatch\<close>

text \<open>The \<open>i\<close>-th argument, on the stack of the process above the return address.\<close>

definition arg :: "regs \<Rightarrow> kstate \<Rightarrow> nat \<Rightarrow> u32 option" where
  "arg r st i = ptr_word st (r_useresp r + 4 + 4 * of_nat i)"

definition keep :: "regs \<Rightarrow> (int \<times> kstate) option \<Rightarrow> (int \<times> regs \<times> kstate) option" where
  "keep r x = map_option (\<lambda>(res, st). (res, r, st)) x"

text \<open>The switch statement; \<open>syscall_halt\<close> does not return.\<close>

definition syscall_switch :: "regs \<Rightarrow> kstate \<Rightarrow> (int \<times> regs \<times> kstate) option" where
  "syscall_switch r st = (let call_no = r_eax r; a = arg r st in
     if call_no = SYSCALL_GETPID then keep r (syscall_getpid st)
     else if call_no = SYSCALL_EXIT then do { x \<leftarrow> a 0; keep r (syscall_exit (sint x) st) }
     else if call_no = SYSCALL_WRITE then do { x \<leftarrow> a 0; y \<leftarrow> a 1; z \<leftarrow> a 2; keep r (syscall_write (sint x) y z st) }
     else if call_no = SYSCALL_READ then do { x \<leftarrow> a 0; y \<leftarrow> a 1; z \<leftarrow> a 2; keep r (syscall_read (sint x) y z st) }
     else if call_no = SYSCALL_GETERRNO then keep r (syscall_geterrno st)
     else if call_no = SYSCALL_BRK then do { x \<leftarrow> a 0; keep r (syscall_brk x st) }
     else if call_no = SYSCALL_SEND then do { x \<leftarrow> a 0; y \<leftarrow> a 1; z \<leftarrow> a 2; w \<leftarrow> a 3; keep r (syscall_send (sint x) y z w st) }
     else if call_no = SYSCALL_RECEIVE then do { x \<leftarrow> a 0; y \<leftarrow> a 1; keep r (syscall_receive x (y \<noteq> 0) st) }
     else if call_no = SYSCALL_CLOSE then do { x \<leftarrow> a 0; keep r (syscall_close (sint x) st) }
     else if call_no = SYSCALL_PIPE then do { x \<leftarrow> a 0; keep r (syscall_pipe x st) }
     else if call_no = SYSCALL_DUP2 then do { x \<leftarrow> a 0; y \<leftarrow> a 1; keep r (syscall_dup2 (sint x) (sint y) st) }
     else if call_no = SYSCALL_FORK then keep r (syscall_fork r st)
     else if call_no = SYSCALL_VFORK then keep r (syscall_vfork r st)
     else if call_no = SYSCALL_EXECVE then do { x \<leftarrow> a 0; y \<leftarrow> a 1; syscall_execve x y r st }
     else if call_no = SYSCALL_WAITPID then do { x \<leftarrow> a 0; y \<leftarrow> a 1; keep r (syscall_waitpid (sint x) y st) }
     else if call_no = SYSCALL_STAT then do { x \<leftarrow> a 0; y \<leftarrow> a 1; keep r (syscall_stat x y st) }
     else if call_no = SYSCALL_OPEN then do { x \<leftarrow> a 0; y \<leftarrow> a 1; keep r (syscall_open x (sint y) st) }
     else if call_no = SYSCALL_GETDENT then do { x \<leftarrow> a 0; y \<leftarrow> a 1; keep r (syscall_getdent (sint x) y st) }
     else if call_no = SYSCALL_CHDIR then do { x \<leftarrow> a 0; keep r (syscall_chdir x st) }
     else if call_no = SYSCALL_GETCWD then do { x \<leftarrow> a 0; y \<leftarrow> a 1; keep r (map_option (\<lambda>(p, st). (sint p, st)) (syscall_getcwd x y st)) }
     else if call_no = SYSCALL_KILL then do { x \<leftarrow> a 0; keep r (syscall_kill (sint x) st) }
     else if call_no = SYSCALL_HALT then None
     else do {
       st1 \<leftarrow> kprintf (''Warning: Call to unimplemented system call %d'' @ newline) [Word call_no] st;
       Some (- ENOSYS, r, st1) })"

text \<open>The error number is kept in the process and the result becomes -1.\<close>

definition store_errno :: "u32 \<Rightarrow> int \<Rightarrow> kstate \<Rightarrow> (int \<times> kstate) option" where
  "store_errno call_no res st = (if SYSCALL_GETERRNO \<noteq> call_no \<and> - ESUSPEND \<noteq> res \<and> current_process st \<noteq> None then
     (if res < 0 then do { st1 \<leftarrow> upd_cur (\<lambda>p. p\<lparr>p_last_errno := - res\<rparr>) st; Some (- 1, st1) }
      else do { st1 \<leftarrow> upd_cur (\<lambda>p. p\<lparr>p_last_errno := 0\<rparr>) st; Some (res, st1) })
     else Some (res, st))"

text \<open>\<open>cs\<close> stands for \<open>context_switch\<close>.\<close>

definition syscall_body :: "(regs \<Rightarrow> kstate \<Rightarrow> (regs \<times> kstate) option) \<Rightarrow> regs \<Rightarrow> kstate \<Rightarrow> (regs \<times> kstate) option" where
  "syscall_body cs r st = do {
     old_current \<leftarrow> current_process st;
     st1 \<leftarrow> upd_proc old_current (\<lambda>p. p\<lparr>p_in_syscall := r_eax r\<rparr>) st;
     (res, r1, st2) \<leftarrow> syscall_switch r st1;
     (res1, st3) \<leftarrow> store_errno (r_eax r) res st2;
     if - ESUSPEND = res1 then cs r1 st3
     else do {
       st4 \<leftarrow> upd_proc old_current (\<lambda>p. p\<lparr>p_in_syscall := 0\<rparr>) st3;
       let r2 = r1\<lparr>r_eax := of_int res1\<rparr>;
       if current_process st4 \<noteq> Some old_current then cs r2 st4 else Some (r2, st4) } }"

lemma mono_case_option:
  "mono_option A \<Longrightarrow> (\<And>y. mono_option (\<lambda>f. B f y)) \<Longrightarrow> mono_option (\<lambda>f. case x of None \<Rightarrow> A f | Some y \<Rightarrow> B f y)"
  by (cases x) auto

lemma mono_case_prod: "(\<And>a b. mono_option (\<lambda>f. B f a b)) \<Longrightarrow> mono_option (\<lambda>f. case x of (a, b) \<Rightarrow> B f a b)"
  by (cases x) auto

lemma context_switch_mono [partial_function_mono]:
  assumes "\<And>r st. mono_option (\<lambda>f. H f r st)"
  shows "mono_option (\<lambda>f. context_switch (H f) se ia r st)"
  unfolding context_switch_def Let_def
  by (intro partial_function_mono mono_case_option mono_case_prod assms)

lemma syscall_body_mono [partial_function_mono]:
  assumes "\<And>r st. mono_option (\<lambda>f. H f r st)"
  shows "mono_option (\<lambda>f. syscall_body (H f) r st)"
  unfolding syscall_body_def Let_def
  by (intro partial_function_mono mono_case_option mono_case_prod assms)

partial_function (option) syscall :: "u32 \<Rightarrow> u32 \<Rightarrow> regs \<Rightarrow> kstate \<Rightarrow> (regs \<times> kstate) option" where
  "syscall idle_stack_end idle r st = syscall_body (context_switch (syscall idle_stack_end idle) idle_stack_end idle) r st"
declare syscall.simps [code]

end
