(* ===== verification/Mailbox_Correct.thy ===== *)
theory Mailbox_Correct
  imports Syscall Pipe_Correct
begin

text \<open>
  Messages between processes: every living process has a queue of at most eight messages;
  \<open>syscall_send\<close> appends to the queue of the receiver and wakes it, \<open>syscall_receive\<close> takes the
  oldest message or blocks.
\<close>

section \<open>Mailboxes as queues\<close>

definition payload :: "message \<Rightarrow> u32 \<times> u32 \<times> u8 list" where
  "payload x = (msg_from x, msg_tag x, take (unat (msg_size x)) (msg_data x))"

definition box_of :: "kstate \<Rightarrow> process \<Rightarrow> message list" where
  "box_of st p = (if p_mailbox p = 0 then [] else take (p_mailbox_size p) (the (mboxes st (p_mailbox p))))"

definition inbox :: "kstate \<Rightarrow> nat \<Rightarrow> (u32 \<times> u32 \<times> u8 list) list" where
  "inbox st i = map payload (box_of st (procs st ! i))"

definition box_ok :: "kstate \<Rightarrow> process \<Rightarrow> bool" where
  "box_ok st p \<longleftrightarrow> (if p_mailbox p = 0 then p_mailbox_size p = 0
     else (\<exists>box. mboxes st (p_mailbox p) = Some box \<and> length box = 8 \<and> p_mailbox_alloc p = 8 \<and> p_mailbox_size p \<le> 8 \<and>
       (\<forall>x \<in> set box. length (msg_data x) = 1024)))"

definition mail_ok :: "kstate \<Rightarrow> bool" where
  "mail_ok st \<longleftrightarrow> heap_ok st \<and> (\<forall>i < length (procs st). alive (procs st ! i) \<longrightarrow> box_ok st (procs st ! i)) \<and>
     (\<forall>i < length (procs st). \<forall>j < length (procs st). i \<noteq> j \<and> alive (procs st ! i) \<and> alive (procs st ! j) \<and>
        p_mailbox (procs st ! i) = p_mailbox (procs st ! j) \<longrightarrow> p_mailbox (procs st ! i) = 0)"

lemma mail_okD:
  assumes "mail_ok st"
  shows "heap_ok st" "i < length (procs st) \<Longrightarrow> alive (procs st ! i) \<Longrightarrow> box_ok st (procs st ! i)"
    "\<lbrakk> i < length (procs st); j < length (procs st); i \<noteq> j; alive (procs st ! i); alive (procs st ! j);
       p_mailbox (procs st ! i) = p_mailbox (procs st ! j) \<rbrakk> \<Longrightarrow> p_mailbox (procs st ! i) = 0"
  using assms unfolding mail_ok_def by blast+

lemma box_ok_length: "box_ok st p \<Longrightarrow> length (box_of st p) = p_mailbox_size p"
  by (auto simp: box_ok_def box_of_def split: if_splits)

text \<open>Changing one mailbox leaves the others alone.\<close>

lemma mail_ok_upd:
  assumes ok: "mail_ok st" and i: "i < length (procs st)" "alive (procs st ! i)"
    and d: "alive d" "p_mailbox d = mb" "mb \<noteq> 0" "p_mailbox_alloc d = 8" "p_mailbox_size d \<le> 8"
    and box: "length box = 8" "\<forall>x \<in> set box. length (msg_data x) = 1024"
    and st': "procs st' = (procs st)[i := d]" "mboxes st' = (mboxes st)(mb \<mapsto> box)" "heap_ok st'"
    and own: "mb = p_mailbox (procs st ! i) \<or> mb \<notin> dom (mboxes st)"
  shows "mail_ok st'" "box_of st' d = take (p_mailbox_size d) box"
    "\<And>j. j < length (procs st) \<Longrightarrow> j \<noteq> i \<Longrightarrow> alive (procs st ! j) \<Longrightarrow> inbox st' j = inbox st j"
proof -
  note D = mail_okD[OF ok]
  have other: "p_mailbox (procs st ! j) \<noteq> mb" if j: "j < length (procs st)" "j \<noteq> i" "alive (procs st ! j)" for j
  proof
    assume e: "p_mailbox (procs st ! j) = mb"
    have "mb \<in> dom (mboxes st)" using D(2)[OF j(1,3)] e d(3) by (auto simp: box_ok_def)
    then have "p_mailbox (procs st ! j) = p_mailbox (procs st ! i)" using own e by blast
    then show False using D(3)[OF j(1) i(1) j(2,3) i(2)] e d(3) by simp
  qed
  have same: "box_ok st' (procs st ! j)" "box_of st' (procs st ! j) = box_of st (procs st ! j)"
    if j: "j < length (procs st)" "j \<noteq> i" "alive (procs st ! j)" for j
    using D(2)[OF j(1,3)] other[OF j] by (auto simp: box_ok_def box_of_def st'(2))
  show "box_of st' d = take (p_mailbox_size d) box" using d by (simp add: box_of_def st'(2))
  show "inbox st' j = inbox st j" if "j < length (procs st)" "j \<noteq> i" "alive (procs st ! j)" for j
    using same(2)[OF that] that by (simp add: inbox_def st'(1))
  have b: "box_ok st' d" using d box by (simp add: box_ok_def st'(2))
  have "box_ok st' (procs st' ! j)" if "j < length (procs st')" "alive (procs st' ! j)" for j
    using that same(1)[of j] b by (cases "j = i") (simp_all add: st'(1))
  moreover have "p_mailbox (procs st' ! j) = 0" if "j < length (procs st')" "k < length (procs st')" "j \<noteq> k"
    "alive (procs st' ! j)" "alive (procs st' ! k)" "p_mailbox (procs st' ! j) = p_mailbox (procs st' ! k)" for j k
    using that D(3)[of j k] other[of j] other[of k] d(2) by (cases "j = i"; cases "k = i") (simp_all add: st'(1))
  ultimately show "mail_ok st'" using st'(3) unfolding mail_ok_def by blast
qed

lemma heap_ok_mboxes: "heap_ok st \<Longrightarrow> dom B = dom (mboxes st) \<Longrightarrow> heap_ok (st\<lparr>mboxes := B, procs := ps\<rparr>)"
  by (auto simp: heap_ok_def objs_def)

section \<open>Sending\<close>

text \<open>The slot: afterwards the mailbox exists and counts one message more, whose place is free.\<close>

lemma mailbox_slot_ok:
  assumes ok: "mail_ok st" and i: "i < length (procs st)" "alive (procs st ! i)"
    and room: "length (inbox st i) < 8" and heap: "p_mailbox (procs st ! i) = 0 \<longrightarrow> knew 8288 st \<noteq> None"
  obtains st1 mb box ma where "mailbox_slot i st = Some (True, st1)"
    "st1 = st\<lparr>kernel_memarea := ma, mboxes := (mboxes st)(mb \<mapsto> box),
       procs := (procs st)[i := (procs st ! i)\<lparr>p_mailbox_alloc := 8, p_mailbox_size := length (inbox st i) + 1, p_mailbox := mb\<rparr>]\<rparr>"
    "mb \<noteq> 0" "length box = 8" "\<forall>x \<in> set box. length (msg_data x) = 1024" "map payload (take (length (inbox st i)) box) = inbox st i"
    "heap_ok st1" "mb = p_mailbox (procs st ! i) \<or> mb \<notin> dom (mboxes st)"
proof -
  let ?p = "procs st ! i"
  have b: "box_ok st ?p" by (rule mail_okD(2)[OF ok i])
  have len: "length (inbox st i) = p_mailbox_size ?p" using box_ok_length[OF b] by (simp add: inbox_def)
  have h: "heap_ok st" by (rule mail_okD(1)[OF ok])
  show ?thesis
  proof (cases "p_mailbox ?p = 0")
    case True
    then obtain mb st1 where k: "knew 8288 st = Some (mb, st1)" using heap by auto
    obtain ma where m: "st1 = st\<lparr>kernel_memarea := ma\<rparr>" "kmalloc (kernel_memarea st) 8288 = Some (mb, ma)" "heap_ok st1"
      "mb \<notin> objs st" "mb \<in> dom (allocated ma)" "mb \<noteq> 0" by (rule knew_ok[OF h k])
    let ?box = "replicate 8 (junk_message st1)"
    have in0: "inbox st i = []" using True by (simp add: inbox_def box_of_def)
    let ?st1 = "st\<lparr>kernel_memarea := ma, mboxes := (mboxes st)(mb \<mapsto> ?box),
       procs := (procs st)[i := ?p\<lparr>p_mailbox_alloc := 8, p_mailbox_size := length (inbox st i) + 1, p_mailbox := mb\<rparr>]\<rparr>"
    have e: "mailbox_slot i st = Some (True, ?st1)"
      using i k True in0 by (simp add: mailbox_slot_def get_proc_def new_mailbox_def upd_proc_def m(1))
    have "heap_ok ?st1" using m(3,4,5) m(1) by (auto simp: heap_ok_def objs_def)
    moreover have "\<forall>x \<in> set ?box. length (msg_data x) = 1024" by (simp add: junk_message_def local_array_def)
    moreover have "mb \<notin> dom (mboxes st)" using m(4) by (auto simp: objs_def)
    ultimately show ?thesis using that[OF e refl m(6)] in0 by simp
  next
    case False
    then obtain box where box: "mboxes st (p_mailbox ?p) = Some box" "length box = 8" "p_mailbox_alloc ?p = 8"
      "\<forall>x \<in> set box. length (msg_data x) = 1024" using b by (auto simp: box_ok_def)
    let ?q = "?p\<lparr>p_mailbox_size := p_mailbox_size ?p + 1\<rparr>"
    let ?st1 = "st\<lparr>kernel_memarea := kernel_memarea st, mboxes := (mboxes st)(p_mailbox ?p \<mapsto> box),
       procs := (procs st)[i := ?p\<lparr>p_mailbox_alloc := 8, p_mailbox_size := length (inbox st i) + 1, p_mailbox := p_mailbox ?p\<rparr>]\<rparr>"
    have q: "?p\<lparr>p_mailbox_alloc := 8, p_mailbox_size := length (inbox st i) + 1, p_mailbox := p_mailbox ?p\<rparr> = ?q"
      using box(3) len by (cases ?p) simp
    have mb: "(mboxes st)(p_mailbox ?p \<mapsto> box) = mboxes st" using box(1) by auto
    have e: "mailbox_slot i st = Some (True, ?st1)"
      unfolding q mb using i False box(3) room len by (simp add: mailbox_slot_def get_proc_def upd_proc_def)
    have "heap_ok ?st1" using h box(1) by (auto simp: heap_ok_def objs_def)
    moreover have "map payload (take (length (inbox st i)) box) = inbox st i" using False box(1) len by (simp add: inbox_def box_of_def)
    ultimately show ?thesis using that[OF e refl False box(2,4)] by blast
  qed
qed

text \<open>Waking the receiver changes only the process lists and its flags.\<close>

lemma wake_receiver_ok:
  assumes inv: "sched_inv st rs ss" and i: "i < length (procs st)" and b: "p_receive_blocked (procs st ! i) \<longrightarrow> i \<in> set ss"
  obtains st' l l' ps where "wake_receiver i st = Some st'" "st' = st\<lparr>ready := l, suspended := l', procs := ps\<rparr>"
    "sched_inv st' (if p_receive_blocked (procs st ! i) then i # rs else rs) (if p_receive_blocked (procs st ! i) then remove1 i ss else ss)"
    "length ps = length (procs st)"
    "\<forall>j < length ps. alive (ps ! j) = alive (procs st ! j) \<and> p_mailbox (ps ! j) = p_mailbox (procs st ! j) \<and>
       p_mailbox_size (ps ! j) = p_mailbox_size (procs st ! j) \<and> p_mailbox_alloc (ps ! j) = p_mailbox_alloc (procs st ! j)"
proof (cases "p_receive_blocked (procs st ! i)")
  case False
  then have "wake_receiver i st = Some (st\<lparr>ready := ready st, suspended := suspended st, procs := procs st\<rparr>)"
    using i by (simp add: wake_receiver_def get_proc_def)
  then show ?thesis using that inv False by fastforce
next
  case True
  then have iss: "i \<in> set ss" using b by blast
  obtain st1 where s: "resume_process i st = Some st1" "sched_inv st1 (i # rs) (remove1 i ss)" "same_but_lists st st1"
    "map unlink (procs st1) = map unlink ((procs st)[i := (procs st ! i)\<lparr>p_ready := True\<rparr>])"
    by (rule resume_process_ok[OF inv iss])
  obtain l l' ps where st1: "st1 = st\<lparr>ready := l, suspended := l', procs := ps\<rparr>" using s(3) by (auto simp: same_but_lists_def)
  have len: "length ps = length (procs st)" using s(4)[THEN arg_cong[where f = length]] by (simp add: st1)
  let ?ps = "ps[i := (ps ! i)\<lparr>p_receive_blocked := False\<rparr>]"
  have e: "wake_receiver i st = Some (st\<lparr>ready := l, suspended := l', procs := ?ps\<rparr>)"
    using i True s(1) len by (simp add: wake_receiver_def get_proc_def upd_proc_def st1)
  have u: "unlink (ps ! j) = unlink ((procs st)[i := (procs st ! i)\<lparr>p_ready := True\<rparr>] ! j)" if "j < length ps" for j
    using s(4) that len by (metis (no_types, lifting) length_list_update nth_map st1 kstate.select_convs(1) kstate.surjective kstate.update_convs(1))
  have keep: "alive (ps ! j) = alive (procs st ! j) \<and> p_mailbox (ps ! j) = p_mailbox (procs st ! j) \<and>
       p_mailbox_size (ps ! j) = p_mailbox_size (procs st ! j) \<and> p_mailbox_alloc (ps ! j) = p_mailbox_alloc (procs st ! j)"
    if "j < length ps" for j
  proof -
    have f: "alive (unlink p) = alive p \<and> p_mailbox (unlink p) = p_mailbox p \<and> p_mailbox_size (unlink p) = p_mailbox_size p \<and>
       p_mailbox_alloc (unlink p) = p_mailbox_alloc p" for p by (simp add: unlink_def)
    show ?thesis using f[of "ps ! j"] f[of "(procs st)[i := (procs st ! i)\<lparr>p_ready := True\<rparr>] ! j"] u[OF that] that len
      by (cases "j = i") auto
  qed
  have inv2: "sched_inv (st\<lparr>ready := l, suspended := l', procs := ?ps\<rparr>) (i # rs) (remove1 i ss)"
    by (rule sched_inv_cong[OF s(2)]) (use i len in \<open>auto simp: st1 nth_list_update alive_def\<close>)
  have "\<forall>j < length ?ps. alive (?ps ! j) = alive (procs st ! j) \<and> p_mailbox (?ps ! j) = p_mailbox (procs st ! j) \<and>
       p_mailbox_size (?ps ! j) = p_mailbox_size (procs st ! j) \<and> p_mailbox_alloc (?ps ! j) = p_mailbox_alloc (procs st ! j)"
    using keep i len by (auto simp: nth_list_update alive_def)
  then show ?thesis using that[OF e refl] inv2 True len by simp
qed

lemma mail_ok_frame:
  assumes ok: "mail_ok st" and st': "st' = st\<lparr>ready := l, suspended := l', procs := ps\<rparr>" and len: "length ps = length (procs st)"
    and same: "\<forall>j < length ps. alive (ps ! j) = alive (procs st ! j) \<and> p_mailbox (ps ! j) = p_mailbox (procs st ! j) \<and>
       p_mailbox_size (ps ! j) = p_mailbox_size (procs st ! j) \<and> p_mailbox_alloc (ps ! j) = p_mailbox_alloc (procs st ! j)"
  shows "mail_ok st'" "\<And>j. j < length ps \<Longrightarrow> inbox st' j = inbox st j"
proof -
  have h: "heap_ok st'" using mail_okD(1)[OF ok] by (simp add: st' heap_ok_def objs_def)
  have "box_ok st' (ps ! j)" if "j < length ps" "alive (ps ! j)" for j
    using mail_okD(2)[OF ok, of j] that same len by (simp add: box_ok_def st')
  moreover have "p_mailbox (ps ! i) = 0" if "i < length ps" "j < length ps" "i \<noteq> j" "alive (ps ! i)" "alive (ps ! j)"
    "p_mailbox (ps ! i) = p_mailbox (ps ! j)" for i j
    using mail_okD(3)[OF ok, of i j] that same len by simp
  ultimately show "mail_ok st'" using h by (simp add: mail_ok_def st')
  show "inbox st' j = inbox st j" if "j < length ps" for j using same that by (simp add: inbox_def box_of_def st')
qed

lemma send_ok:
  assumes ok: "mail_ok st" and inv: "sched_inv st rs ss" and i: "i < length (procs st)" "alive (procs st ! i)"
    and room: "length (inbox st i) < 8" and heap: "p_mailbox (procs st ! i) = 0 \<longrightarrow> knew 8288 st \<noteq> None"
    and blk: "p_receive_blocked (procs st ! i) \<longrightarrow> i \<in> set ss" and bs: "length bs \<le> 1024"
  obtains st1 st2 st' where "mailbox_slot i st = Some (True, st1)" "pgs st1 = pgs st" "paging st1 = paging st"
    "current_process st1 = current_process st" "length (procs st1) = length (procs st)"
    "\<forall>j < length (procs st). p_pid (procs st1 ! j) = p_pid (procs st ! j)"
    "store_message i from tag bs st1 = Some st2" "wake_receiver i st2 = Some st'"
    "mail_ok st'" "inbox st' i = inbox st i @ [(from, tag, bs)]"
    "\<forall>j < length (procs st). j \<noteq> i \<and> alive (procs st ! j) \<longrightarrow> inbox st' j = inbox st j"
    "sched_inv st' (if p_receive_blocked (procs st ! i) then i # rs else rs) (if p_receive_blocked (procs st ! i) then remove1 i ss else ss)"
proof -
  obtain st1 mb box ma where s1: "mailbox_slot i st = Some (True, st1)"
    "st1 = st\<lparr>kernel_memarea := ma, mboxes := (mboxes st)(mb \<mapsto> box),
       procs := (procs st)[i := (procs st ! i)\<lparr>p_mailbox_alloc := 8, p_mailbox_size := length (inbox st i) + 1, p_mailbox := mb\<rparr>]\<rparr>"
    and mb: "mb \<noteq> 0" "length box = 8" "\<forall>x \<in> set box. length (msg_data x) = 1024" "map payload (take (length (inbox st i)) box) = inbox st i"
    "heap_ok st1" "mb = p_mailbox (procs st ! i) \<or> mb \<notin> dom (mboxes st)"
    by (rule mailbox_slot_ok[OF ok i room heap])
  let ?n = "length (inbox st i)"
  let ?d = "(procs st ! i)\<lparr>p_mailbox_alloc := 8, p_mailbox_size := ?n + 1, p_mailbox := mb\<rparr>"
  let ?new = "\<lparr>msg_from = from, msg_tag = tag, msg_size = of_nat (length bs), msg_data = bs @ drop (length bs) (msg_data (box ! ?n))\<rparr>"
  let ?box = "box[?n := ?new]"
  let ?st2 = "st1\<lparr>mboxes := (mboxes st)(mb \<mapsto> ?box)\<rparr>"
  have n8: "?n < length box" using room mb(2) by simp
  have s2: "store_message i from tag bs st1 = Some ?st2" using i n8 by (simp add: store_message_def get_proc_def s1(2) Let_def)
  have h2: "heap_ok ?st2" using mb(5) by (auto simp: s1(2) heap_ok_def objs_def)
  have data: "\<forall>x \<in> set ?box. length (msg_data x) = 1024"
    using mb(3) bs n8 nth_mem[OF n8] set_update_subset_insert[of box ?n ?new] by auto
  have d: "alive ?d" "p_mailbox ?d = mb" "p_mailbox_alloc ?d = 8" "p_mailbox_size ?d \<le> 8" using i room by (simp_all add: alive_def)
  have st2: "procs ?st2 = (procs st)[i := ?d]" "mboxes ?st2 = (mboxes st)(mb \<mapsto> ?box)" by (simp_all add: s1(2))
  note M = mail_ok_upd[OF ok i d(1,2) mb(1) d(3,4) _ data st2 h2 mb(6)]
  have l8: "length ?box = 8" using mb(2) by simp
  note M = M[OF l8]
  have pl: "payload ?new = (from, tag, bs)" using bs by (simp add: payload_def unat_of_nat)
  have in2: "inbox ?st2 i = inbox st i @ [(from, tag, bs)]"
  proof -
    have pd: "procs ?st2 ! i = ?d" unfolding st2(1) using i(1) by simp
    have "inbox ?st2 i = map payload (take (?n + 1) ?box)"
      unfolding inbox_def[of ?st2 i] pd M(2) by simp
    also have "take (?n + 1) ?box = take ?n box @ [?new]" using n8 by (simp add: take_Suc_conv_app_nth)
    also have "map payload \<dots> = inbox st i @ [(from, tag, bs)]" unfolding map_append mb(4) list.map pl by (rule refl)
    finally show ?thesis .
  qed
  have inv2: "sched_inv ?st2 rs ss"
    by (rule sched_inv_cong[OF inv]) (use i in \<open>auto simp: s1(2) nth_list_update alive_def\<close>)
  have blk2: "p_receive_blocked (procs ?st2 ! i) = p_receive_blocked (procs st ! i)" using i by (simp add: st2(1))
  have i2: "i < length (procs ?st2)" using i by (simp add: st2(1))
  obtain st' l l' ps where w: "wake_receiver i ?st2 = Some st'" "st' = ?st2\<lparr>ready := l, suspended := l', procs := ps\<rparr>"
    "sched_inv st' (if p_receive_blocked (procs ?st2 ! i) then i # rs else rs) (if p_receive_blocked (procs ?st2 ! i) then remove1 i ss else ss)"
    "length ps = length (procs ?st2)"
    "\<forall>j < length ps. alive (ps ! j) = alive (procs ?st2 ! j) \<and> p_mailbox (ps ! j) = p_mailbox (procs ?st2 ! j) \<and>
       p_mailbox_size (ps ! j) = p_mailbox_size (procs ?st2 ! j) \<and> p_mailbox_alloc (ps ! j) = p_mailbox_alloc (procs ?st2 ! j)"
    by (rule wake_receiver_ok[OF inv2 i2]) (use blk blk2 in auto)
  note F = mail_ok_frame[OF M(1) w(2,4,5)]
  have lp: "length ps = length (procs st)" using w(4) by (simp add: st2(1))
  have pid: "\<forall>j < length (procs st). p_pid (procs st1 ! j) = p_pid (procs st ! j)" using i by (auto simp: s1(2) nth_list_update)
  show ?thesis
    by (rule that[OF s1(1) _ _ _ _ pid s2 w(1) F(1)]) (use F(2) in2 M(3) w(3) blk2 lp i s1(2) in simp_all)
qed

section \<open>Receiving\<close>

lemma receive_ok:
  assumes ok: "mail_ok st" and inv: "sched_inv st rs ss" and c: "current_process st = Some i" "i < length (procs st)" "alive (procs st ! i)"
    and us: "paging_ok st" "user_safe st msg pas" "length pas = 1036" and v: "valid_pointer st msg 1036 = Some True"
    and q: "inbox st i = m # ms"
  shows "\<exists>st' x. syscall_receive msg block st = Some (0, st') \<and> mail_ok st' \<and> inbox st' i = ms \<and>
    (\<forall>j < length (procs st). j \<noteq> i \<and> alive (procs st ! j) \<longrightarrow> inbox st' j = inbox st j) \<and>
    payload x = m \<and> read_bytes st' msg 1036 = Some (message_bytes x) \<and> sched_inv st' rs ss"
proof -
  let ?p = "procs st ! i"
  have b: "box_ok st ?p" by (rule mail_okD(2)[OF ok c(2,3)])
  have mb: "p_mailbox ?p \<noteq> 0" using q by (auto simp: inbox_def box_of_def)
  then obtain box where box: "mboxes st (p_mailbox ?p) = Some box" "length box = 8" "p_mailbox_alloc ?p = 8" "p_mailbox_size ?p \<le> 8"
    "\<forall>x \<in> set box. length (msg_data x) = 1024" using b by (auto simp: box_ok_def)
  have tk: "map payload (take (p_mailbox_size ?p) box) = m # ms" using q box(1) mb by (simp add: inbox_def box_of_def)
  then obtain n where n: "p_mailbox_size ?p = Suc n" by (cases "p_mailbox_size ?p") auto
  obtain x xs where bx: "box = x # xs" using box(2) by (cases box) auto
  have pm: "payload x = m" "map payload (take n xs) = ms" using tk by (simp_all add: bx n)
  have lm: "length (message_bytes x) = length pas" using box(5) us(3) by (simp add: message_bytes_def bytes32_def bx)
  let ?st1 = "set_pmem (lay (pmem (pgs st)) pas (message_bytes x)) st"
  have w: "write_bytes msg (message_bytes x) st = Some ?st1" by (rule write_bytes_ok[OF us(1,2) lm])
  let ?box = "take n xs @ drop n box" let ?d = "?p\<lparr>p_mailbox_size := n\<rparr>"
  let ?st2 = "?st1\<lparr>mboxes := (mboxes st)(p_mailbox ?p \<mapsto> ?box), procs := (procs st)[i := ?d]\<rparr>"
  have e: "syscall_receive msg block st = Some (0, ?st2)"
    using v c(1,2) box(1,2,4) n w by (simp add: syscall_receive_def get_proc_def upd_proc_def bx)
  have l8: "length ?box = 8" using box(2,4) n by (simp add: bx)
  have data: "\<forall>x \<in> set ?box. length (msg_data x) = 1024"
    using box(5) set_take_subset[of n xs] set_drop_subset[of n box] by (auto simp: bx)
  have h: "heap_ok ?st2" using mail_okD(1)[OF ok] box(1) by (auto simp: heap_ok_def objs_def set_pmem_def)
  have d: "alive ?d" "p_mailbox ?d = p_mailbox ?p" "p_mailbox_alloc ?d = 8" "p_mailbox_size ?d \<le> 8" using c box n by (simp_all add: alive_def)
  have st2: "procs ?st2 = (procs st)[i := ?d]" "mboxes ?st2 = (mboxes st)(p_mailbox ?p \<mapsto> ?box)" by simp_all
  note M = mail_ok_upd[OF ok c(2,3) d(1,2) mb d(3,4) l8 data st2 h disjI1[OF refl]]
  have "inbox ?st2 i = map payload (take n ?box)" using M(2) c(2) by (simp add: inbox_def)
  also have "\<dots> = ms" using pm(2) box(2,4) n by (simp add: bx)
  finally have ib: "inbox ?st2 i = ms" .
  have rb: "read_bytes ?st2 msg 1036 = Some (message_bytes x)"
    using write_bytes_state(5)[OF us(1,2) lm] read_bytes_frame(3)[of ?st2 ?st1] lm us(3) by simp
  have si: "sched_inv ?st2 rs ss"
    by (rule sched_inv_cong[OF inv]) (use c(2) in \<open>auto simp: set_pmem_def nth_list_update alive_def\<close>)
  show ?thesis using e M(1,3) ib pm(1) rb si by blast
qed

lemma alive_upd:
  "alive (p\<lparr>p_receive_blocked := b\<rparr>) = alive p" by (simp add: alive_def)

lemma receive_blocks:
  assumes ok: "mail_ok st" and inv: "sched_inv st rs ss" and c: "current_process st = Some i" "i \<in> set rs"
    and v: "valid_pointer st msg 1036 = Some True" and q: "inbox st i = []"
  shows "\<exists>st'. syscall_receive msg True st = Some (- ESUSPEND, st') \<and> mail_ok st' \<and> sched_inv st' (remove1 i rs) (i # ss) \<and>
    p_receive_blocked (procs st' ! i) \<and> (\<forall>j < length (procs st). inbox st' j = inbox st j)"
proof -
  note D = sched_invD[OF inv]
  have il: "i < length (procs st)" "alive (procs st ! i)" using c(2) D(1,4) by auto
  have z: "p_mailbox_size (procs st ! i) = 0" using box_ok_length[OF mail_okD(2)[OF ok il]] q by (simp add: inbox_def)
  let ?s1 = "st\<lparr>procs := (procs st)[i := (procs st ! i)\<lparr>p_receive_blocked := True\<rparr>]\<rparr>"
  have inv1: "sched_inv ?s1 rs ss" by (rule sched_inv_cong[OF inv]) (use il in \<open>auto simp: nth_list_update alive_def\<close>)
  obtain st' where s: "suspend_process i ?s1 = Some st'" "sched_inv st' (remove1 i rs) (i # ss)" "same_but_lists ?s1 st'"
    "map unlink (procs st') = map unlink ((procs ?s1)[i := (procs ?s1 ! i)\<lparr>p_ready := False\<rparr>])"
    by (rule suspend_process_ok[OF inv1 c(2)])
  obtain l l' ps where st': "st' = st\<lparr>ready := l, suspended := l', procs := ps\<rparr>" using s(3) by (auto simp: same_but_lists_def)
  have len: "length ps = length (procs st)" using s(4)[THEN arg_cong[where f = length]] by (simp add: st')
  have e: "syscall_receive msg True st = Some (- ESUSPEND, st')"
    using v c(1) il z s(1) by (simp add: syscall_receive_def get_proc_def upd_proc_def)
  have u: "unlink (ps ! j) = unlink (((procs st)[i := (procs st ! i)\<lparr>p_receive_blocked := True, p_ready := False\<rparr>]) ! j)" if "j < length ps" for j
    using arg_cong[OF s(4), of "\<lambda>l. l ! j"] that len il by (simp add: st')
  have f: "alive (unlink p) = alive p \<and> p_mailbox (unlink p) = p_mailbox p \<and> p_mailbox_size (unlink p) = p_mailbox_size p \<and>
     p_mailbox_alloc (unlink p) = p_mailbox_alloc p \<and> p_receive_blocked (unlink p) = p_receive_blocked p" for p by (simp add: unlink_def alive_def)
  have g: "(P (unlink (ps ! j)) :: 'z) = P (unlink (((procs st)[i := (procs st ! i)\<lparr>p_receive_blocked := True, p_ready := False\<rparr>]) ! j))"
    if "j < length ps" for j P using u[OF that] by simp
  have keep: "alive (ps ! j) = alive (procs st ! j) \<and> p_mailbox (ps ! j) = p_mailbox (procs st ! j) \<and>
       p_mailbox_size (ps ! j) = p_mailbox_size (procs st ! j) \<and> p_mailbox_alloc (ps ! j) = p_mailbox_alloc (procs st ! j)"
    if "j < length ps" for j
    using g[OF that, of alive] g[OF that, of p_mailbox] g[OF that, of p_mailbox_size] g[OF that, of p_mailbox_alloc] that len il
    by (cases "j = i") (simp_all add: f alive_upd)
  have "p_receive_blocked (ps ! i)" using g[of i p_receive_blocked] il len by (simp add: f)
  moreover have "\<forall>j < length ps. alive (ps ! j) = alive (procs st ! j) \<and> p_mailbox (ps ! j) = p_mailbox (procs st ! j) \<and>
       p_mailbox_size (ps ! j) = p_mailbox_size (procs st ! j) \<and> p_mailbox_alloc (ps ! j) = p_mailbox_alloc (procs st ! j)" using keep by blast
  note F = mail_ok_frame[OF ok st' len this]
  ultimately show ?thesis using e F(1,2) s(2) len by (auto simp: st')
qed

section \<open>Properties of the mailboxes\<close>

lemma read_bytes_length: "read_bytes st a n = Some bs \<Longrightarrow> length bs = n"
  by (induction n arbitrary: a bs) (auto simp: bind_eq_Some_conv)

text \<open>Process 1 runs and has a stack; process 3 waits for a message.\<close>

definition example_mail_procs :: "process list" where
  "example_mail_procs = example_procs[1 := (example_procs ! 1)\<lparr>p_stack_start := 0x3FFF0000, p_stack_end := 0x40000000\<rparr>,
     3 := (example_procs ! 3)\<lparr>p_receive_blocked := True\<rparr>]"

definition example_mail :: kstate where
  "example_mail = example_kstate\<lparr>procs := example_mail_procs, kernel_memarea := the (buddy_init 14 0x200000 (\<lambda>_. 0))\<rparr>"

lemma example_mail_nth:
  assumes "i < MAX_PROCESSES"
  shows "alive (example_mail_procs ! i) = (i \<in> {1, 2, 3})" "p_mailbox (example_mail_procs ! i) = 0"
    "p_mailbox_size (example_mail_procs ! i) = 0" "p_receive_blocked (example_mail_procs ! i) = (i = 3)"
  using assms by (simp_all add: example_mail_procs_def example_procs_def nth_list_update alive_def zero_process_def MAX_PROCESSES_def)

lemma example_mail_length: "length (procs example_mail) = MAX_PROCESSES"
  by (simp add: example_mail_def example_mail_procs_def example_procs_def)

lemma example_mail_ok: "mail_ok example_mail" "sched_inv example_mail [1, 2] [3]"
proof -
  have "\<exists>ma. buddy_init 14 0x200000 (\<lambda>_. 0) = Some ma \<and> buddy_ok ma"
    using buddy_init_inv[of 14 "0x200000" "\<lambda>_. 0"] by (auto simp: DEFAULT_LOWER_def)
  then have "heap_ok example_mail" by (auto simp: heap_ok_def objs_def example_mail_def example_kstate_def)
  then show "mail_ok example_mail"
    using example_mail_nth(2,3) example_mail_length by (simp add: mail_ok_def box_ok_def example_mail_def)
  show "sched_inv example_mail [1, 2] [3]"
    by (rule sched_inv_cong[OF example_inv])
      (auto simp: example_mail_def example_kstate_def example_mail_procs_def example_procs_def nth_list_update alive_def zero_process_def MAX_PROCESSES_def)
qed

lemma example_mail_cur:
  "cur example_mail = Some ((example_procs ! 1)\<lparr>p_stack_start := 0x3FFF0000, p_stack_end := 0x40000000\<rparr>)"
  by (simp add: cur_def get_proc_def example_mail_def example_kstate_def example_mail_procs_def example_procs_def MAX_PROCESSES_def)

lemma example_mail_heap: "knew 8288 example_mail \<noteq> None"
proof -
  have "kmalloc (the (buddy_init 14 0x200000 (\<lambda>_. 0))) 8288 \<noteq> None" by code_simp
  then show ?thesis by (auto simp: knew_def example_mail_def)
qed

text \<open>C28: Sending a message from valid memory to a living process: a message of more than 1024 bytes
  is refused with -EINVAL and a full mailbox of eight messages with -ENOMEM, in both cases without
  any effect; otherwise the message, with the sender, the tag and exactly the bytes of the sender's
  buffer, is appended to the mailbox of the receiver, no other mailbox changes, and a receiver that
  was blocked becomes ready.\<close>

theorem syscall_send_correct:
  assumes "mail_ok st" "sched_inv st rs ss" "cur st = Some c" "valid_pointer st data sz = Some True"
    "read_bytes st data (unat sz) = Some bs" "i < MAX_PROCESSES" "alive (procs st ! i)"
    "p_receive_blocked (procs st ! i) \<longrightarrow> i \<in> set ss" "p_mailbox (procs st ! i) = 0 \<longrightarrow> knew 8288 st \<noteq> None"
  shows "if MAX_MESSAGE_SIZE < sz then syscall_send (int i) tag data sz st = Some (- EINVAL, st)
     else if length (inbox st i) = 8 then syscall_send (int i) tag data sz st = Some (- ENOMEM, st)
     else \<exists>st'. syscall_send (int i) tag data sz st = Some (0, st') \<and> mail_ok st' \<and>
       inbox st' i = inbox st i @ [(of_int (p_pid c), tag, bs)] \<and>
       (\<forall>j < MAX_PROCESSES. j \<noteq> i \<and> alive (procs st ! j) \<longrightarrow> inbox st' j = inbox st j) \<and>
       (if p_receive_blocked (procs st ! i) then sched_inv st' (i # rs) (remove1 i ss) else sched_inv st' rs ss)"
proof -
  have len: "length (procs st) = MAX_PROCESSES" by (rule sched_invD(1)[OF assms(2)])
  have i: "i < length (procs st)" using assms(6) len by simp
  have g: "get_proc st i = Some (procs st ! i)" "p_exists (procs st ! i)" using i assms(7) by (simp_all add: get_proc_def alive_def)
  have mp: "\<not> MAX_PROCESSES \<le> i" using assms(6) by simp
  note [simp] = assms(4) mp g
  have b: "box_ok st (procs st ! i)" by (rule mail_okD(2)[OF assms(1) i assms(7)])
  have l: "length (inbox st i) = p_mailbox_size (procs st ! i)" using box_ok_length[OF b] by (simp add: inbox_def)
  have l8: "length (inbox st i) \<le> 8" using b l by (auto simp: box_ok_def split: if_splits)
  have big: "syscall_send (int i) tag data sz st = Some (- EINVAL, st)" if "MAX_MESSAGE_SIZE < sz"
    using that by (simp add: syscall_send_def)
  have full: "syscall_send (int i) tag data sz st = Some (- ENOMEM, st)" if "\<not> MAX_MESSAGE_SIZE < sz" "length (inbox st i) = 8"
  proof -
    have "mailbox_slot i st = Some (False, st)" using that(2) l b by (auto simp: mailbox_slot_def box_ok_def split: if_splits)
    then show ?thesis using that(1) by (simp add: syscall_send_def)
  qed
  have "\<exists>st'. syscall_send (int i) tag data sz st = Some (0, st') \<and> mail_ok st' \<and>
       inbox st' i = inbox st i @ [(of_int (p_pid c), tag, bs)] \<and>
       (\<forall>j < MAX_PROCESSES. j \<noteq> i \<and> alive (procs st ! j) \<longrightarrow> inbox st' j = inbox st j) \<and>
       (if p_receive_blocked (procs st ! i) then sched_inv st' (i # rs) (remove1 i ss) else sched_inv st' rs ss)"
    if sm: "\<not> MAX_MESSAGE_SIZE < sz" "length (inbox st i) \<noteq> 8"
  proof -
    have lb: "length bs = unat sz" by (rule read_bytes_length[OF assms(5)])
    then have bs: "length bs \<le> 1024" using sm(1) by (simp add: MAX_MESSAGE_SIZE_def word_less_nat_alt)
    have room: "length (inbox st i) < 8" using l8 sm(2) by simp
    obtain st1 st2 st' where s: "mailbox_slot i st = Some (True, st1)" "pgs st1 = pgs st" "paging st1 = paging st"
      "current_process st1 = current_process st" "length (procs st1) = length (procs st)"
      "\<forall>j < length (procs st). p_pid (procs st1 ! j) = p_pid (procs st ! j)"
      "store_message i (of_int (p_pid c)) tag bs st1 = Some st2" "wake_receiver i st2 = Some st'"
      "mail_ok st'" "inbox st' i = inbox st i @ [(of_int (p_pid c), tag, bs)]"
      "\<forall>j < length (procs st). j \<noteq> i \<and> alive (procs st ! j) \<longrightarrow> inbox st' j = inbox st j"
      "sched_inv st' (if p_receive_blocked (procs st ! i) then i # rs else rs) (if p_receive_blocked (procs st ! i) then remove1 i ss else ss)"
      by (rule send_ok[OF assms(1,2) i assms(7) room assms(9,8) bs, of "of_int (p_pid c)" tag])
    obtain k where k: "current_process st = Some k" "k < length (procs st)" "procs st ! k = c"
      using assms(3) by (auto simp: cur_def get_proc_def bind_eq_Some_conv list_get_def split: if_splits)
    have c1: "cur st1 = Some (procs st1 ! k)" "p_pid (procs st1 ! k) = p_pid c"
      using k s(4,5,6) by (auto simp: cur_def get_proc_def)
    have rb: "read_bytes st1 data (unat sz) = Some bs" using read_bytes_frame(3)[OF s(2,3)] assms(5) by simp
    have "syscall_send (int i) tag data sz st = Some (0, st')"
      using s(1,7,8) c1 rb sm(1) by (simp add: syscall_send_def)
    then show ?thesis using s(9-12) len by auto
  qed
  then show ?thesis using big full by presburger
qed

theorem syscall_send_correct_witness:
  "\<exists>st'. syscall_send 3 7 0x3FFFFFF0 2 example_mail = Some (0, st') \<and> inbox st' 3 = [(1, 7, [0, 0])] \<and> sched_inv st' [3, 1, 2] []"
proof -
  have v: "valid_pointer example_mail 0x3FFFFFF0 2 = Some True" using example_mail_cur
    by (simp add: valid_pointer_def in_segment_def Let_def)
  have u: "unat (2::u32) = Suc (Suc 0)" by simp
  have r: "read_bytes example_mail 0x3FFFFFF0 (unat (2::u32)) = Some [0, 0]"
    unfolding u by (simp add: rd8_def phys_def example_mail_def example_kstate_def)
  have p: "procs example_mail ! 3 = example_mail_procs ! 3" by (simp add: example_mail_def)
  have m: "3 < MAX_PROCESSES" by (simp add: MAX_PROCESSES_def)
  have a: "alive (procs example_mail ! 3)" "p_receive_blocked (procs example_mail ! 3)" "inbox example_mail 3 = []"
    using example_mail_nth[OF m] by (simp_all add: p inbox_def box_of_def)
  have pid: "p_pid (example_procs ! 1) = 1" by (simp add: example_procs_def MAX_PROCESSES_def)
  show ?thesis
    using syscall_send_correct[OF example_mail_ok example_mail_cur v r m a(1), of 7] example_mail_heap a(2,3) pid
    by (auto simp: MAX_MESSAGE_SIZE_def)
qed

text \<open>C29: A process that asks for a message gets the oldest one of its mailbox: the structure with its
  sender, tag, size and data is in the caller's memory, the message leaves the mailbox, and no
  other mailbox changes. When there is none, the call returns -EAGAIN without any effect, or, if
  the caller wants to wait, suspends it and marks it as waiting for a message.\<close>

theorem syscall_receive_correct:
  assumes "mail_ok st" "sched_inv st rs ss" "current_process st = Some i" "i \<in> set rs" "paging_ok st"
    "valid_pointer st msg 1036 = Some True" "user_safe st msg pas" "length pas = 1036"
  shows "case inbox st i of
       m # ms \<Rightarrow> \<exists>st' x. syscall_receive msg block st = Some (0, st') \<and> mail_ok st' \<and> sched_inv st' rs ss \<and>
         payload x = m \<and> read_bytes st' msg 1036 = Some (message_bytes x) \<and> inbox st' i = ms \<and>
         (\<forall>j < MAX_PROCESSES. j \<noteq> i \<and> alive (procs st ! j) \<longrightarrow> inbox st' j = inbox st j)
     | [] \<Rightarrow> if block then \<exists>st'. syscall_receive msg block st = Some (- ESUSPEND, st') \<and> mail_ok st' \<and>
           sched_inv st' (remove1 i rs) (i # ss) \<and> p_receive_blocked (procs st' ! i) \<and>
           (\<forall>j < MAX_PROCESSES. inbox st' j = inbox st j)
         else syscall_receive msg block st = Some (- EAGAIN, st)"
proof -
  note D = sched_invD[OF assms(2)]
  have i: "i < length (procs st)" "alive (procs st ! i)" using assms(4) D(1,4) by auto
  show ?thesis
  proof (cases "inbox st i")
    case (Cons m ms)
    from receive_ok[OF assms(1-3) i assms(5,7,8,6) Cons, of block] show ?thesis using D(1) Cons by fastforce
  next
    case Nil
    have "p_mailbox_size (procs st ! i) = 0" using box_ok_length[OF mail_okD(2)[OF assms(1) i]] Nil by (simp add: inbox_def)
    then have "syscall_receive msg False st = Some (- EAGAIN, st)"
      using i assms(3,6) by (simp add: syscall_receive_def get_proc_def)
    then show ?thesis using receive_blocks[OF assms(1-4,6) Nil] Nil D(1) by auto
  qed
qed

text \<open>A message from process 2 waits in the mailbox of process 1.\<close>

definition example_message :: message where
  "example_message = \<lparr>msg_from = 2, msg_tag = 7, msg_size = 2, msg_data = [104, 105] @ replicate 1022 0\<rparr>"

lemma example_message_payload: "payload example_message = (2, 7, [104, 105])"
proof -
  have u: "unat (2::u32) = length [104::u8, 105]" by simp
  show ?thesis unfolding payload_def example_message_def message.select_convs u take_append by simp
qed

definition example_mailed :: kstate where
  "example_mailed = (case the (knew 8288 example_mail) of (mb, st) \<Rightarrow> st\<lparr>mboxes := [mb \<mapsto> replicate 8 example_message],
     procs := (procs st)[1 := (procs st ! 1)\<lparr>p_mailbox := mb, p_mailbox_size := 1, p_mailbox_alloc := 8\<rparr>]\<rparr>)"

lemma example_mailed_ok:
  "mail_ok example_mailed" "sched_inv example_mailed [1, 2] [3]" "inbox example_mailed 1 = [(2, 7, [104, 105])]"
  "current_process example_mailed = Some 1" "paging example_mailed = None" "valid_pointer example_mailed 0x3FFF0000 1036 = Some True"
proof -
  obtain mb st where k: "knew 8288 example_mail = Some (mb, st)" using example_mail_heap by auto
  obtain ma where m: "st = example_mail\<lparr>kernel_memarea := ma\<rparr>" "kmalloc (kernel_memarea example_mail) 8288 = Some (mb, ma)"
    "heap_ok st" "mb \<notin> objs example_mail" "mb \<in> dom (allocated ma)" "mb \<noteq> 0" by (rule knew_ok[OF mail_okD(1)[OF example_mail_ok(1)] k])
  have l: "1 < length (procs example_mail)" using example_mail_length by (simp add: MAX_PROCESSES_def)
  have p: "procs example_mail ! 1 = example_mail_procs ! 1" by (simp add: example_mail_def)
  let ?d = "(example_mail_procs ! 1)\<lparr>p_mailbox := mb, p_mailbox_size := 1, p_mailbox_alloc := 8\<rparr>"
  have x: "mboxes example_mail = Map.empty" "current_process example_mail = Some 1" "paging example_mail = None"
    by (simp_all add: example_mail_def example_kstate_def)
  have ex: "example_mailed = example_mail\<lparr>kernel_memarea := ma, mboxes := [mb \<mapsto> replicate 8 example_message],
     procs := (procs example_mail)[1 := ?d]\<rparr>" by (simp add: example_mailed_def k m(1) p[simplified])
  have e: "procs example_mailed = (procs example_mail)[1 := ?d]"
    "mboxes example_mailed = (mboxes example_mail)(mb \<mapsto> replicate 8 example_message)"
    by (simp_all add: ex x)
  have h: "heap_ok example_mailed" using m(3,4,5)
    by (auto simp: ex m(1) heap_ok_def objs_def x)
  have a: "alive (procs example_mail ! 1)" unfolding p using example_mail_nth(1)[of 1] by (simp add: MAX_PROCESSES_def)
  have d: "alive ?d" "p_mailbox ?d = mb" "p_mailbox_alloc ?d = 8" "p_mailbox_size ?d \<le> 8" using a unfolding p by (simp_all add: alive_def)
  have own: "mb = p_mailbox (procs example_mail ! 1) \<or> mb \<notin> dom (mboxes example_mail)" using m(4) by (auto simp: objs_def)
  have bx: "length (replicate 8 example_message) = 8" "\<forall>x \<in> set (replicate 8 example_message). length (msg_data x) = 1024"
    by (simp_all add: example_message_def)
  note M = mail_ok_upd[OF example_mail_ok(1) l a d(1,2) m(6) d(3,4) bx e h own]
  show "mail_ok example_mailed" by (rule M(1))
  show "sched_inv example_mailed [1, 2] [3]"
    by (rule sched_inv_cong[OF example_mail_ok(2)])
      (use l p in \<open>auto simp: ex nth_list_update alive_def\<close>)
  have "procs example_mailed ! 1 = ?d" unfolding e(1) using l by simp
  then have "inbox example_mailed 1 = [payload example_message]" unfolding inbox_def using M(2) by simp
  then show "inbox example_mailed 1 = [(2, 7, [104, 105])]" unfolding example_message_payload .
  show c: "current_process example_mailed = Some 1" "paging example_mailed = None"
    by (simp_all add: ex x)
  have "cur example_mailed = Some ?d" using l unfolding cur_def c(1) get_proc_def by (simp add: e(1))
  moreover have "p_stack_start ?d = 0x3FFF0000" "p_stack_end ?d = 0x40000000"
    by (simp_all add: example_mail_procs_def example_procs_def MAX_PROCESSES_def)
  ultimately show "valid_pointer example_mailed 0x3FFF0000 1036 = Some True"
    by (simp add: valid_pointer_def in_segment_def Let_def)
qed

lemma unat_of_nat_1036: "i < 1036 \<Longrightarrow> unat (of_nat i :: u32) = i"
  by (simp add: unat_of_nat)

theorem syscall_receive_correct_witness:
  "\<exists>st' x. syscall_receive 0x3FFF0000 True example_mailed = Some (0, st') \<and> payload x = (2, 7, [104, 105]) \<and>
     read_bytes st' 0x3FFF0000 1036 = Some (message_bytes x) \<and> inbox st' 1 = []"
proof -
  let ?pas = "map (\<lambda>i. 0x3FFF0000 + of_nat i) [0..<1036] :: u32 list"
  have "of_nat i = (of_nat j :: u32) \<Longrightarrow> i = j" if "i < 1036" "j < 1036" for i j
    using that by (metis unat_of_nat_1036)
  then have "distinct ?pas" by (auto simp: distinct_map inj_on_def)
  then have us: "user_safe example_mailed 0x3FFF0000 ?pas" "paging_ok example_mailed"
    using example_mailed_ok(5) by (simp_all add: user_safe_def mapped_to_def phys_def table_pages_def paging_ok_def)
  have "1 \<in> set [1::nat, 2]" "length ?pas = 1036" by simp_all
  from syscall_receive_correct[OF example_mailed_ok(1,2,4) this(1) us(2) example_mailed_ok(6) us(1) this(2), of True]
  show ?thesis using example_mailed_ok(3) by auto
qed

end
