(* ===== verification/Keyboard.thy ===== *)
theory Keyboard
  imports Libc
begin

text \<open>
  The keyboard driver, keyboard.c: the conversion of scan codes to characters. The static variables
  of \<open>convert\<close> are the record \<open>kbd\<close>. The ports of the machine are an oracle \<open>io_in\<close>, which
  gives the answer of a device to the n-th read, and the list of the values written.
\<close>

unbundle bit_operations_syntax

section \<open>Ports\<close>

record io =
  io_in :: "nat \<Rightarrow> u32 \<Rightarrow> u8"
  io_reads :: nat
  io_out :: "(u32 \<times> u32) list"

definition inb :: "u32 \<Rightarrow> io \<Rightarrow> u8 \<times> io" where
  "inb port d = (io_in d (io_reads d) port, d\<lparr>io_reads := io_reads d + 1\<rparr>)"

definition outb :: "u32 \<Rightarrow> u32 \<Rightarrow> io \<Rightarrow> io" where
  "outb port v d = d\<lparr>io_out := io_out d @ [(port, v)]\<rparr>"

section \<open>Constants of keyboard.h\<close>

definition KEYBOARD_INPUT_PORT :: u32 where "KEYBOARD_INPUT_PORT = 0x60"
definition KEYBOARD_OUTPUT_PORT :: u32 where "KEYBOARD_OUTPUT_PORT = 0x60"
definition KEYBOARD_STATUS_PORT :: u32 where "KEYBOARD_STATUS_PORT = 0x64"
definition KEYBOARD_INPUT_BUF_STATUS :: u32 where "KEYBOARD_INPUT_BUF_STATUS = 0x02"

definition KEY_F1 :: u8 where "KEY_F1 = 0x80"
definition KEY_F2 :: u8 where "KEY_F2 = KEY_F1 + 1"
definition KEY_F3 :: u8 where "KEY_F3 = KEY_F2 + 1"
definition KEY_F4 :: u8 where "KEY_F4 = KEY_F3 + 1"
definition KEY_F5 :: u8 where "KEY_F5 = KEY_F4 + 1"
definition KEY_F6 :: u8 where "KEY_F6 = KEY_F5 + 1"
definition KEY_F7 :: u8 where "KEY_F7 = KEY_F6 + 1"
definition KEY_F8 :: u8 where "KEY_F8 = KEY_F7 + 1"
definition KEY_F9 :: u8 where "KEY_F9 = KEY_F8 + 1"
definition KEY_F10 :: u8 where "KEY_F10 = KEY_F9 + 1"
definition KEY_F11 :: u8 where "KEY_F11 = KEY_F10 + 1"
definition KEY_F12 :: u8 where "KEY_F12 = KEY_F11 + 1"
definition KEY_INS :: u8 where "KEY_INS = 0x90"
definition KEY_DEL :: u8 where "KEY_DEL = KEY_INS + 1"
definition KEY_HOME :: u8 where "KEY_HOME = KEY_DEL + 1"
definition KEY_END :: u8 where "KEY_END = KEY_HOME + 1"
definition KEY_PGUP :: u8 where "KEY_PGUP = KEY_END + 1"
definition KEY_PGDN :: u8 where "KEY_PGDN = KEY_PGUP + 1"
definition KEY_LFT :: u8 where "KEY_LFT = KEY_PGDN + 1"
definition KEY_UP :: u8 where "KEY_UP = KEY_LFT + 1"
definition KEY_DN :: u8 where "KEY_DN = KEY_UP + 1"
definition KEY_RT :: u8 where "KEY_RT = KEY_DN + 1"
definition KEY_PRNT :: u8 where "KEY_PRNT = KEY_RT + 1"
definition KEY_PAUSE :: u8 where "KEY_PAUSE = KEY_PRNT + 1"
definition KEY_LWIN :: u8 where "KEY_LWIN = KEY_PAUSE + 1"
definition KEY_RWIN :: u8 where "KEY_RWIN = KEY_LWIN + 1"
definition KEY_MENU :: u8 where "KEY_MENU = KEY_RWIN + 1"

definition KBD_META_ALT :: u16 where "KBD_META_ALT = 0x0200"
definition KBD_META_CTRL :: u16 where "KBD_META_CTRL = 0x0400"
definition KBD_META_SHIFT :: u16 where "KBD_META_SHIFT = 0x0800"
definition KBD_META_CAPS :: u16 where "KBD_META_CAPS = 0x1000"
definition KBD_META_NUM :: u16 where "KBD_META_NUM = 0x2000"
definition KBD_META_SCRL :: u16 where "KBD_META_SCRL = 0x4000"

definition RAW1_LEFT_CTRL :: u32 where "RAW1_LEFT_CTRL = 0x1D"
definition RAW1_RIGHT_CTRL :: u32 where "RAW1_RIGHT_CTRL = 0x1D"
definition RAW1_LEFT_SHIFT :: u32 where "RAW1_LEFT_SHIFT = 0x2A"
definition RAW1_RIGHT_SHIFT :: u32 where "RAW1_RIGHT_SHIFT = 0x36"
definition RAW1_LEFT_ALT :: u32 where "RAW1_LEFT_ALT = 0x38"
definition RAW1_RIGHT_ALT :: u32 where "RAW1_RIGHT_ALT = 0x38"
definition RAW1_CAPS_LOCK :: u32 where "RAW1_CAPS_LOCK = 0x3A"
definition RAW1_F1 :: u32 where "RAW1_F1 = 0x3B"
definition RAW1_F2 :: u32 where "RAW1_F2 = 0x3C"
definition RAW1_F3 :: u32 where "RAW1_F3 = 0x3D"
definition RAW1_F4 :: u32 where "RAW1_F4 = 0x3E"
definition RAW1_F5 :: u32 where "RAW1_F5 = 0x3F"
definition RAW1_F6 :: u32 where "RAW1_F6 = 0x40"
definition RAW1_F7 :: u32 where "RAW1_F7 = 0x41"
definition RAW1_F8 :: u32 where "RAW1_F8 = 0x42"
definition RAW1_F9 :: u32 where "RAW1_F9 = 0x43"
definition RAW1_F10 :: u32 where "RAW1_F10 = 0x44"
definition RAW1_NUM_LOCK :: u32 where "RAW1_NUM_LOCK = 0x45"
definition RAW1_SCROLL_LOCK :: u32 where "RAW1_SCROLL_LOCK = 0x46"
definition RAW1_F11 :: u32 where "RAW1_F11 = 0x57"
definition RAW1_F12 :: u32 where "RAW1_F12 = 0x58"

lemmas meta_defs = KBD_META_ALT_def KBD_META_CTRL_def KBD_META_SHIFT_def KBD_META_CAPS_def KBD_META_NUM_def KBD_META_SCRL_def
lemmas raw_defs = RAW1_LEFT_CTRL_def RAW1_RIGHT_CTRL_def RAW1_LEFT_SHIFT_def RAW1_RIGHT_SHIFT_def RAW1_LEFT_ALT_def
  RAW1_RIGHT_ALT_def RAW1_CAPS_LOCK_def RAW1_F1_def RAW1_F2_def RAW1_F3_def
  RAW1_F4_def RAW1_F5_def RAW1_F6_def RAW1_F7_def RAW1_F8_def
  RAW1_F9_def RAW1_F10_def RAW1_NUM_LOCK_def RAW1_SCROLL_LOCK_def RAW1_F11_def
  RAW1_F12_def
lemmas key_defs = KEY_F1_def KEY_F2_def KEY_F3_def KEY_F4_def KEY_F5_def KEY_F6_def KEY_F7_def
  KEY_F8_def KEY_F9_def KEY_F10_def KEY_F11_def KEY_F12_def KEY_INS_def KEY_DEL_def
  KEY_HOME_def KEY_END_def KEY_PGUP_def KEY_PGDN_def KEY_LFT_def KEY_UP_def KEY_DN_def
  KEY_RT_def KEY_PRNT_def KEY_PAUSE_def KEY_LWIN_def KEY_RWIN_def KEY_MENU_def

section \<open>Key maps\<close>

definition key_map :: "u8 list" where
  "key_map =
    [0, 0x1B] @ lit ''1234567890-='' @ [8, 9] @ lit ''qwertyuiop[]'' @ [10, 0] @ lit ''asdfghjkl;'' @
    [0x27, 0x60, 0, 0x5C] @ lit ''zxcvbnm,./'' @ [0, 0, 0] @ lit '' '' @
    [0, KEY_F1, KEY_F2, KEY_F3, KEY_F4, KEY_F5, KEY_F6, KEY_F7, KEY_F8, KEY_F9, KEY_F10, 0, 0, KEY_HOME, KEY_UP, KEY_PGUP] @
    lit ''-'' @ [KEY_LFT] @ lit ''5'' @ [KEY_RT] @ lit ''+'' @
    [KEY_END, KEY_DN, KEY_PGDN, KEY_INS, KEY_DEL, 0, 0, 0, KEY_F11, KEY_F12]"

definition key_map_shift :: "u8 list" where
  "key_map_shift =
    [0, 0x1B] @ lit ''!@#$%^&*()_+'' @ [8, 9] @ lit ''QWERTYUIOP{}'' @ [10, 0] @ lit ''ASDFGHJKL:'' @ [0x22] @
    lit ''~'' @ [0] @ lit ''|ZXCVBNM<>?'' @ [0] @ lit ''*'' @ [0] @ lit '' '' @
    [0, KEY_F1, KEY_F2, KEY_F3, KEY_F4, KEY_F5, KEY_F6, KEY_F7, KEY_F8, KEY_F9, KEY_F10, 0, 0, KEY_HOME, KEY_UP, KEY_PGUP] @
    lit ''-'' @ [KEY_LFT] @ lit ''5'' @ [KEY_RT] @ lit ''+'' @
    [KEY_END, KEY_DN, KEY_PGDN, KEY_INS, KEY_DEL, 0, 0, 0, KEY_F11, KEY_F12]"

definition key_map_caps :: "u8 list" where
  "key_map_caps =
    [0, 0x1B] @ lit ''1234567890-='' @ [8, 9] @ lit ''QWERTYUIOP[]'' @ [10, 0] @ lit ''ASDFGHJKL;'' @
    [0x27, 0x60, 0, 0x5C] @ lit ''ZXCVBNM,./'' @ [0, 0, 0] @ lit '' '' @
    [0, KEY_F1, KEY_F2, KEY_F3, KEY_F4, KEY_F5, KEY_F6, KEY_F7, KEY_F8, KEY_F9, KEY_F10, 0, 0, KEY_HOME, KEY_UP, KEY_PGUP] @
    lit ''-'' @ [KEY_LFT] @ lit ''5'' @ [KEY_RT] @ lit ''+'' @
    [KEY_END, KEY_DN, KEY_PGDN, KEY_INS, KEY_DEL, 0, 0, 0, KEY_F11, KEY_F12]"

definition key_map_caps_shift :: "u8 list" where
  "key_map_caps_shift =
    [0, 0x1B] @ lit ''!@#$%^&*()_+'' @ [8, 9] @ lit ''qwertyuiop{}'' @ [10, 0] @ lit ''asdfghjkl:'' @ [0x22] @
    lit ''~'' @ [0] @ lit ''|zxcvbnm<>?'' @ [0] @ lit ''*'' @ [0] @ lit '' '' @
    [0, KEY_F1, KEY_F2, KEY_F3, KEY_F4, KEY_F5, KEY_F6, KEY_F7, KEY_F8, KEY_F9, KEY_F10, 0, 0, KEY_HOME, KEY_UP, KEY_PGUP] @
    lit ''-'' @ [KEY_LFT] @ lit ''5'' @ [KEY_RT] @ lit ''+'' @
    [KEY_END, KEY_DN, KEY_PGDN, KEY_INS, KEY_DEL, 0, 0, 0, KEY_F11, KEY_F12]"

section \<open>Conversion\<close>

record kbd =
  kbd_status :: u16
  saw_break_code :: u16

text \<open>The controller is polled until its input buffer is empty, at most 500000 times.\<close>

primrec poll_kbd :: "nat \<Rightarrow> io \<Rightarrow> nat \<times> io" where
  "poll_kbd 0 d = (0, d)"
| "poll_kbd (Suc timeout) d = (let (stat, d1) = inb KEYBOARD_STATUS_PORT d in
     if ucast stat AND KEYBOARD_INPUT_BUF_STATUS = 0 then (Suc timeout, d1) else poll_kbd timeout d1)"

definition write_kbd :: "u32 \<Rightarrow> u32 \<Rightarrow> io \<Rightarrow> io" where
  "write_kbd adr v d = (let (timeout, d1) = poll_kbd 500000 d in
     if timeout \<noteq> 0 then outb adr v d1 else d1)"

text \<open>The keys that set the LEDs continue at the label \<open>LEDS\<close>.\<close>

definition leds :: "kbd \<Rightarrow> io \<Rightarrow> io" where
  "leds k d = (let
     d1 = write_kbd 0x60 0xED d;
     t0 = (0 :: u16);
     t1 = (if kbd_status k AND KBD_META_SCRL \<noteq> 0 then t0 OR 1 else t0);
     t2 = (if kbd_status k AND KBD_META_NUM \<noteq> 0 then t1 OR 2 else t1);
     t3 = (if kbd_status k AND KBD_META_CAPS \<noteq> 0 then t2 OR 4 else t2)
     in write_kbd 0x60 (ucast t3) d1)"

definition raw_to_ascii :: "u32 \<Rightarrow> kbd \<Rightarrow> u8 option" where
  "raw_to_ascii key k = (if kbd_status k AND KBD_META_CAPS \<noteq> 0
     then list_get (if kbd_status k AND KBD_META_SHIFT \<noteq> 0 then key_map_caps_shift else key_map_caps) (unat key)
     else list_get (if kbd_status k AND KBD_META_SHIFT \<noteq> 0 then key_map_shift else key_map) (unat key))"

text \<open>The result is \<open>None\<close> when the machine reboots, from which the call does not return.\<close>

definition convert :: "u32 \<Rightarrow> kbd \<Rightarrow> io \<Rightarrow> (u32 \<times> kbd \<times> io) option" where
  "convert key0 k0 d = (let
     key = (if key0 \<ge> 0x80 then key0 AND 0x7F else key0);
     k = (if key0 \<ge> 0x80 then k0\<lparr>saw_break_code := 1\<rparr> else k0);
     status = kbd_status k in
     if saw_break_code k \<noteq> 0 then (let
       s = (if key = RAW1_LEFT_ALT \<or> key = RAW1_RIGHT_ALT then status AND NOT KBD_META_ALT
            else if key = RAW1_LEFT_CTRL \<or> key = RAW1_RIGHT_CTRL then status AND NOT KBD_META_CTRL
            else if key = RAW1_LEFT_SHIFT \<or> key = RAW1_RIGHT_SHIFT then status AND NOT KBD_META_SHIFT
            else status)
       in Some (0, k\<lparr>kbd_status := s, saw_break_code := 0\<rparr>, d))
     else if key = RAW1_LEFT_ALT \<or> key = RAW1_RIGHT_ALT then Some (0, k\<lparr>kbd_status := status OR KBD_META_ALT\<rparr>, d)
     else if key = RAW1_LEFT_CTRL \<or> key = RAW1_RIGHT_CTRL then Some (0, k\<lparr>kbd_status := status OR KBD_META_CTRL\<rparr>, d)
     else if key = RAW1_LEFT_SHIFT \<or> key = RAW1_RIGHT_SHIFT then Some (0, k\<lparr>kbd_status := status OR KBD_META_SHIFT\<rparr>, d)
     else if key = RAW1_SCROLL_LOCK then
       (let k1 = k\<lparr>kbd_status := status XOR KBD_META_SCRL\<rparr> in Some (0, k1, leds k1 d))
     else if key = RAW1_NUM_LOCK then
       (let k1 = k\<lparr>kbd_status := status XOR KBD_META_NUM\<rparr> in Some (0, k1, leds k1 d))
     else if key = RAW1_CAPS_LOCK then
       (let k1 = k\<lparr>kbd_status := status XOR KBD_META_CAPS\<rparr> in Some (0, k1, leds k1 d))
     else if unat key \<ge> length key_map then Some (0, k, d)
     else do {
       temp \<leftarrow> raw_to_ascii key k;
       if temp = 0 then Some (0, k, d)
       else if status AND KBD_META_CTRL \<noteq> 0 \<and> status AND KBD_META_ALT \<noteq> 0 \<and> temp = KEY_DEL then None
       else Some (ucast temp, k, d) })"

end
