(* ===== verification/Segmentation.thy ===== *)
theory Segmentation
  imports Kernel_State
begin

text \<open>
  The descriptor tables of the processor: segmentation.c with the global descriptor table and the
  task state segment, and the interrupt descriptor table of interrupts.c. The addresses of the
  tables, of the interrupt stack and of the interrupt stubs, which the linker and the assembler
  define, are parameters.
\<close>

unbundle bit_operations_syntax

section \<open>Constants\<close>

definition RING_0 :: u32 where "RING_0 = 0"
definition OPSIZE_16BIT :: "1 word" where "OPSIZE_16BIT = 0"
definition OPSIZE_32BIT :: "1 word" where "OPSIZE_32BIT = 1"
definition GRANULARITY_1BYTE :: "1 word" where "GRANULARITY_1BYTE = 0"
definition GRANULARITY_4KB :: "1 word" where "GRANULARITY_4KB = 1"
definition DESC_SYSTEM :: u8 where "DESC_SYSTEM = 0"
definition DESC_CODEDATA :: u8 where "DESC_CODEDATA = 1"
definition SEG_READ_ONLY :: u8 where "SEG_READ_ONLY = 0"
definition SEG_READ_WRITE :: u8 where "SEG_READ_WRITE = 2"
definition SEG_EXECUTE_ONLY :: u8 where "SEG_EXECUTE_ONLY = 8"
definition SEG_EXECUTE_READ :: u8 where "SEG_EXECUTE_READ = 10"
definition SEG_TSS :: u8 where "SEG_TSS = 9"
definition KERNEL_CODE_SEGMENT :: u16 where "KERNEL_CODE_SEGMENT = 0x08"
definition KERNEL_DATA_SEGMENT :: u16 where "KERNEL_DATA_SEGMENT = 0x10"
definition TSS_SEGMENT :: u16 where "TSS_SEGMENT = 0x28"
definition NUM_SEGMENTS :: nat where "NUM_SEGMENTS = 6"

lemmas seg_defs = RING_0_def RING_3_def OPSIZE_32BIT_def GRANULARITY_4KB_def DESC_SYSTEM_def DESC_CODEDATA_def
  SEG_READ_WRITE_def SEG_EXECUTE_READ_def SEG_TSS_def

section \<open>Segments\<close>

record gdt_entry =
  limit_low :: u16
  base_low :: u16
  base_middle :: u8
  seg_type :: "4 word"
  desc_type :: "1 word"
  dpl :: "2 word"
  present :: "1 word"
  limit_high :: "4 word"
  avl :: "1 word"
  op64 :: "1 word"
  opsize :: "1 word"
  granularity :: "1 word"
  base_high :: u8

record tss =
  tss_prevtask :: u16   tss_r_prevtask :: u16
  tss_esp0 :: u32
  tss_ss0 :: u16        tss_r_ss0 :: u16
  tss_esp1 :: u32
  tss_ss1 :: u16        tss_r_ss1 :: u16
  tss_esp2 :: u32
  tss_ss2 :: u16        tss_r_ss2 :: u16
  tss_cr3 :: u32
  tss_eip :: u32
  tss_eflags :: u32
  tss_eax :: u32
  tss_ecx :: u32
  tss_edx :: u32
  tss_ebx :: u32
  tss_esp :: u32
  tss_ebp :: u32
  tss_esi :: u32
  tss_edi :: u32
  tss_es :: u16         tss_r_es :: u16
  tss_cs :: u16         tss_r_cs :: u16
  tss_ss :: u16         tss_r_ss :: u16
  tss_ds :: u16         tss_r_ds :: u16
  tss_fs :: u16         tss_r_fs :: u16
  tss_gs :: u16         tss_r_gs :: u16
  tss_ldt :: u16        tss_r_ldt :: u16
  tss_r_iombase :: u16  tss_iombase :: u16

definition zero_tss :: tss where
  "zero_tss = \<lparr>tss_prevtask = 0, tss_r_prevtask = 0, tss_esp0 = 0, tss_ss0 = 0, tss_r_ss0 = 0, tss_esp1 = 0, tss_ss1 = 0, tss_r_ss1 = 0,
     tss_esp2 = 0, tss_ss2 = 0, tss_r_ss2 = 0, tss_cr3 = 0, tss_eip = 0, tss_eflags = 0, tss_eax = 0, tss_ecx = 0, tss_edx = 0,
     tss_ebx = 0, tss_esp = 0, tss_ebp = 0, tss_esi = 0, tss_edi = 0, tss_es = 0, tss_r_es = 0, tss_cs = 0, tss_r_cs = 0,
     tss_ss = 0, tss_r_ss = 0, tss_ds = 0, tss_r_ds = 0, tss_fs = 0, tss_r_fs = 0, tss_gs = 0, tss_r_gs = 0, tss_ldt = 0,
     tss_r_ldt = 0, tss_r_iombase = 0, tss_iombase = 0\<rparr>"

record segments =
  gdt :: "gdt_entry list"
  gp_limit :: u16
  gp_base :: u32
  the_tss :: tss
  gdtr :: "(u16 \<times> u32) option"   \<comment> \<open>the table register, after \<open>set_gdt\<close>\<close>
  tr :: "u16 option"              \<comment> \<open>the task register, after \<open>set_tss\<close>\<close>

definition gdt_set_gate :: "nat \<Rightarrow> u32 \<Rightarrow> u32 \<Rightarrow> u8 \<Rightarrow> u8 \<Rightarrow> u8 \<Rightarrow> segments \<Rightarrow> segments option" where
  "gdt_set_gate num base limit ring kind ty s = do {
     e \<leftarrow> list_get (gdt s) num;
     let e1 = e\<lparr>base_low := ucast (base AND 0xFFFF), base_middle := ucast (drop_bit 16 base AND 0xFF),
       base_high := ucast (drop_bit 24 base AND 0xFF), limit_low := ucast (limit AND 0xFFFF),
       limit_high := ucast (drop_bit 16 limit AND 0x0F), present := 1, dpl := ucast ring, desc_type := ucast kind,
       seg_type := ucast ty, granularity := GRANULARITY_4KB, opsize := OPSIZE_32BIT, op64 := 0, avl := 0\<rparr>;
     let e2 = (if 0 = num then e1\<lparr>present := 0, granularity := 0, opsize := 0\<rparr> else e1);
     g \<leftarrow> list_put (gdt s) num e2;
     Some (s\<lparr>gdt := g\<rparr>) }"

definition setup_segmentation :: "u32 \<Rightarrow> u32 \<Rightarrow> u32 \<Rightarrow> segments \<Rightarrow> segments option" where
  "setup_segmentation gdt_addr tss_addr ih_stack s = do {
     let s0 = s\<lparr>gp_limit := 48 - 1, gp_base := gdt_addr\<rparr>;
     s1 \<leftarrow> gdt_set_gate 0 0 0 0 0 0 s0;
     s2 \<leftarrow> gdt_set_gate 1 0 0xFFFFFFFF (ucast RING_0) DESC_CODEDATA SEG_EXECUTE_READ s1;
     s3 \<leftarrow> gdt_set_gate 2 0 0xFFFFFFFF (ucast RING_0) DESC_CODEDATA SEG_READ_WRITE s2;
     s4 \<leftarrow> gdt_set_gate 3 0 0xFFFFFFFF (ucast RING_3) DESC_CODEDATA SEG_EXECUTE_READ s3;
     s5 \<leftarrow> gdt_set_gate 4 0 0xFFFFFFFF (ucast RING_3) DESC_CODEDATA SEG_READ_WRITE s4;
     s6 \<leftarrow> gdt_set_gate 5 tss_addr (tss_addr + 104 - 1) (ucast RING_3) DESC_SYSTEM SEG_TSS s5;
     e \<leftarrow> list_get (gdt s6) 5;
     g \<leftarrow> list_put (gdt s6) 5 (e\<lparr>granularity := 0, opsize := 0\<rparr>);
     let s7 = s6\<lparr>gdt := g, the_tss := zero_tss\<lparr>tss_ss0 := KERNEL_DATA_SEGMENT, tss_esp0 := ih_stack,
       tss_cs := KERNEL_CODE_SEGMENT OR ucast RING_3, tss_ss := KERNEL_DATA_SEGMENT OR ucast RING_3, tss_ds := KERNEL_DATA_SEGMENT OR ucast RING_3,
       tss_es := KERNEL_DATA_SEGMENT OR ucast RING_3, tss_fs := KERNEL_DATA_SEGMENT OR ucast RING_3, tss_gs := KERNEL_DATA_SEGMENT OR ucast RING_3\<rparr>\<rparr>;
     Some (s7\<lparr>gdtr := Some (gp_limit s7, gp_base s7), tr := Some (TSS_SEGMENT OR ucast RING_3)\<rparr>) }"

section \<open>Interrupt gates\<close>

record idt_entry =
  base_lo :: u16
  sel :: u16
  always0 :: u8
  gate_flags :: u8
  base_hi :: u16

definition zero_gate :: idt_entry where
  "zero_gate = \<lparr>base_lo = 0, sel = 0, always0 = 0, gate_flags = 0, base_hi = 0\<rparr>"

definition idt_set_gate :: "u8 \<Rightarrow> u32 \<Rightarrow> u16 \<Rightarrow> u8 \<Rightarrow> idt_entry list \<Rightarrow> idt_entry list option" where
  "idt_set_gate num base s fl idt =
     list_put idt (unat num) \<lparr>base_lo = ucast (base AND 0xFFFF), sel = s, always0 = 0, gate_flags = fl,
       base_hi = ucast (drop_bit 16 base AND 0xFFFF)\<rparr>"

definition ISR_FREQ :: u32 where "ISR_FREQ = 0x1234DC"
definition TICKS_PER_SECOND :: u32 where "TICKS_PER_SECOND = 50"
definition UPPER_BYTE :: "u32 \<Rightarrow> u32" where "UPPER_BYTE a = drop_bit 8 a"
definition LOWER_BYTE :: "u32 \<Rightarrow> u32" where "LOWER_BYTE a = a AND 0xFF"

text \<open>
  \<open>setup_interrupts\<close> gives the table, the contents of the table register and the values written
  to the ports, in order: the set-up of the two interrupt controllers and of the timer.
\<close>

definition pic_setup :: "(u32 \<times> u32) list" where
  "pic_setup = [(0x20, 0x11), (0xA0, 0x11), (0x21, 0x20), (0xA1, 0x28), (0x21, 0x04), (0xA1, 0x02), (0x21, 0x01), (0xA1, 0x01),
     (0x21, 0), (0xA1, 0)]"

definition timer_setup :: "(u32 \<times> u32) list" where
  "timer_setup = (let freq_div = ISR_FREQ div TICKS_PER_SECOND in
     [(0x43, 0x36), (0x40, LOWER_BYTE freq_div), (0x40, UPPER_BYTE freq_div)])"

definition setup_interrupts :: "u32 list \<Rightarrow> u32 \<Rightarrow> (idt_entry list \<times> (u16 \<times> u32) \<times> (u32 \<times> u32) list) option" where
  "setup_interrupts interrupt_handlers idt_addr = do {
     let idt0 = replicate 256 zero_gate;
     idt1 \<leftarrow> fold_opt (\<lambda>i idt. do { h \<leftarrow> list_get interrupt_handlers i; idt_set_gate (of_nat i) h 0x08 0x8E idt }) [0..<48] idt0;
     h \<leftarrow> list_get interrupt_handlers 48;
     idt2 \<leftarrow> idt_set_gate 48 h 0x08 0xEE idt1;
     Some (idt2, (8 * 256 - 1, idt_addr), pic_setup @ timer_setup) }"

section \<open>What the processor reads from a descriptor\<close>

definition seg_base :: "gdt_entry \<Rightarrow> nat" where
  "seg_base e = unat (base_low e) + 2 ^ 16 * unat (base_middle e) + 2 ^ 24 * unat (base_high e)"

definition limit_field :: "gdt_entry \<Rightarrow> nat" where
  "limit_field e = unat (limit_low e) + 2 ^ 16 * unat (limit_high e)"

text \<open>The offset of the last byte of the segment.\<close>

definition seg_limit :: "gdt_entry \<Rightarrow> nat" where
  "seg_limit e = (if granularity e = 1 then 4096 * limit_field e + 4095 else limit_field e)"

definition gate_offset :: "idt_entry \<Rightarrow> nat" where
  "gate_offset g = unat (base_lo g) + 2 ^ 16 * unat (base_hi g)"

definition gate_present :: "idt_entry \<Rightarrow> bool" where
  "gate_present g = bit (gate_flags g) 7"

definition gate_dpl :: "idt_entry \<Rightarrow> nat" where
  "gate_dpl g = unat (gate_flags g) div 32 mod 4"

section \<open>Properties of the tables\<close>

lemma split_u32: "unat (ucast (b AND 0xFFFF) :: u16) + 2 ^ 16 * unat (ucast (drop_bit 16 b AND 0xFFFF) :: u16) = unat (b :: u32)"
proof -
  have m: "(0xFFFF::u32) = mask 16" by (simp add: mask_eq_exp_minus_1)
  have "unat (ucast (b AND 0xFFFF) :: u16) = unat b mod 2 ^ 16"
    unfolding m take_bit_eq_mask[symmetric] by (simp add: unsigned_ucast_eq unsigned_take_bit_eq take_bit_eq_mod unat_mod)
  moreover have "unat (ucast (drop_bit 16 b AND 0xFFFF) :: u16) = unat b div 2 ^ 16"
    unfolding m take_bit_eq_mask[symmetric]
    using unsigned_less[of b, where 'a = nat] by (simp add: unsigned_ucast_eq unsigned_take_bit_eq unsigned_drop_bit_eq take_bit_eq_mod drop_bit_eq_div unat_mod unat_div)
  ultimately show ?thesis by simp
qed

lemma split_base: "unat (ucast (b AND 0xFFFF) :: u16) + 2 ^ 16 * unat (ucast (drop_bit 16 b AND 0xFF) :: u8) +
    2 ^ 24 * unat (ucast (drop_bit 24 b AND 0xFF) :: u8) = unat (b :: u32)"
proof -
  have m: "(0xFFFF::u32) = mask 16" "(0xFF::u32) = mask 8" by (simp_all add: mask_eq_exp_minus_1)
  have "unat (ucast (b AND 0xFFFF) :: u16) = unat b mod 2 ^ 16" "unat (ucast (drop_bit 16 b AND 0xFF) :: u8) = unat b div 2 ^ 16 mod 2 ^ 8"
    unfolding m take_bit_eq_mask[symmetric]
    by (simp_all add: unsigned_ucast_eq unsigned_take_bit_eq unsigned_drop_bit_eq take_bit_eq_mod drop_bit_eq_div unat_mod unat_div)
  moreover have "unat (ucast (drop_bit 24 b AND 0xFF) :: u8) = unat b div 2 ^ 24"
    unfolding m take_bit_eq_mask[symmetric]
    using unsigned_less[of b, where 'a = nat] by (simp add: unsigned_ucast_eq unsigned_take_bit_eq unsigned_drop_bit_eq take_bit_eq_mod drop_bit_eq_div unat_mod unat_div)
  moreover have "unat b mod 2 ^ 16 + 2 ^ 16 * (unat b div 2 ^ 16 mod 2 ^ 8) = unat b mod 2 ^ 24"
    using mod_mult2_eq[of "unat b" "2 ^ 16" "2 ^ 8"] by simp
  ultimately show ?thesis using mod_mult_div_eq[of "unat b" "2 ^ 24"] by simp
qed

lemma split_limit: "unat (ucast (b AND 0xFFFF) :: u16) + 2 ^ 16 * unat (ucast (drop_bit 16 b AND 0x0F) :: 4 word) = unat (b :: u32) mod 2 ^ 20"
proof -
  have m: "(0xFFFF::u32) = mask 16" "(0x0F::u32) = mask 4" by (simp_all add: mask_eq_exp_minus_1)
  have "unat (ucast (b AND 0xFFFF) :: u16) = unat b mod 2 ^ 16" "unat (ucast (drop_bit 16 b AND 0x0F) :: 4 word) = unat b div 2 ^ 16 mod 2 ^ 4"
    unfolding m take_bit_eq_mask[symmetric]
    by (simp_all add: unsigned_ucast_eq unsigned_take_bit_eq unsigned_drop_bit_eq take_bit_eq_mod drop_bit_eq_div unat_mod unat_div)
  then show ?thesis using mod_mult2_eq[of "unat b" "2 ^ 16" "2 ^ 4"] by simp
qed

text \<open>Writing a descriptor and reading it back.\<close>

lemma gdt_set_gate_ok:
  assumes "num < length (gdt s)"
  obtains e where "gdt_set_gate num base limit ring kind ty s = Some (s\<lparr>gdt := (gdt s)[num := e]\<rparr>)"
    "seg_base e = unat base" "limit_field e = unat limit mod 2 ^ 20" "dpl e = ucast ring" "desc_type e = ucast kind" "seg_type e = ucast ty"
    "present e = (if num = 0 then 0 else 1)" "granularity e = (if num = 0 then 0 else 1)"
proof -
  show ?thesis
    by (rule that[of "(let e1 = (gdt s ! num)\<lparr>base_low := ucast (base AND 0xFFFF), base_middle := ucast (drop_bit 16 base AND 0xFF),
       base_high := ucast (drop_bit 24 base AND 0xFF), limit_low := ucast (limit AND 0xFFFF),
       limit_high := ucast (drop_bit 16 limit AND 0x0F), present := 1, dpl := ucast ring, desc_type := ucast kind,
       seg_type := ucast ty, granularity := GRANULARITY_4KB, opsize := OPSIZE_32BIT, op64 := 0, avl := 0\<rparr>
       in if 0 = num then e1\<lparr>present := 0, granularity := 0, opsize := 0\<rparr> else e1)"])
      (use assms split_base[of base] split_limit[of limit] in
        \<open>simp_all add: gdt_set_gate_def Let_def seg_base_def limit_field_def GRANULARITY_4KB_def\<close>)
qed

text \<open>C34: After setup_segmentation the first descriptor is not present; the kernel and the user code and
  data segments are flat, from address 0 to the last byte of the 4 GB address space, with ring 0 for
  the kernel and ring 3 for user mode; the selectors that the kernel puts into the registers of a
  process and into the task segment name these descriptors; the task segment descriptor points to
  the task segment, whose ring 0 stack is the interrupt stack.\<close>

theorem setup_segmentation_flat:
  assumes "length (gdt s) = NUM_SEGMENTS"
  shows "\<exists>s'. setup_segmentation gdt_addr tss_addr ih_stack s = Some s' \<and>
    present (gdt s' ! 0) = 0 \<and>
    (\<forall>i \<in> {1, 2, 3, 4}. present (gdt s' ! i) = 1 \<and> seg_base (gdt s' ! i) = 0 \<and> seg_limit (gdt s' ! i) = 2 ^ 32 - 1) \<and>
    (dpl (gdt s' ! 1) = 0 \<and> seg_type (gdt s' ! 1) = ucast SEG_EXECUTE_READ \<and> unat KERNEL_CODE_SEGMENT = 8 * 1) \<and>
    (dpl (gdt s' ! 2) = 0 \<and> seg_type (gdt s' ! 2) = ucast SEG_READ_WRITE \<and> unat KERNEL_DATA_SEGMENT = 8 * 2) \<and>
    (dpl (gdt s' ! 3) = 3 \<and> seg_type (gdt s' ! 3) = ucast SEG_EXECUTE_READ \<and> unat USER_CODE_SEGMENT = 8 * 3) \<and>
    (dpl (gdt s' ! 4) = 3 \<and> seg_type (gdt s' ! 4) = ucast SEG_READ_WRITE \<and> unat USER_DATA_SEGMENT = 8 * 4) \<and>
    (seg_base (gdt s' ! 5) = unat tss_addr \<and> seg_type (gdt s' ! 5) = ucast SEG_TSS \<and> unat TSS_SEGMENT = 8 * 5) \<and>
    seg_limit (gdt s' ! 5) = unat (tss_addr + 103) mod 2 ^ 20 \<and>
    tss_ss0 (the_tss s') = KERNEL_DATA_SEGMENT \<and> tss_esp0 (the_tss s') = ih_stack \<and>
    gdtr s' = Some (47, gdt_addr) \<and> tr s' = Some (TSS_SEGMENT OR 3)"
proof -
  let ?s0 = "s\<lparr>gp_limit := 48 - 1, gp_base := gdt_addr\<rparr>"
  have l: "length (gdt s) = 6" using assms by (simp add: NUM_SEGMENTS_def)
  obtain e0 where e0: "gdt_set_gate 0 0 0 0 0 0 ?s0 = Some (?s0\<lparr>gdt := (gdt ?s0)[0 := e0]\<rparr>)" "present e0 = 0"
    by (rule gdt_set_gate_ok[of 0 ?s0 0 0 0 0 0]) (use l in auto)
  let ?s1 = "?s0\<lparr>gdt := (gdt s)[0 := e0]\<rparr>"
  obtain e1 where e1: "gdt_set_gate 1 0 0xFFFFFFFF (ucast RING_0) DESC_CODEDATA SEG_EXECUTE_READ ?s1 = Some (?s1\<lparr>gdt := (gdt ?s1)[1 := e1]\<rparr>)"
    "seg_base e1 = 0" "limit_field e1 = 2 ^ 20 - 1" "dpl e1 = 0" "seg_type e1 = ucast SEG_EXECUTE_READ" "present e1 = 1" "granularity e1 = 1"
    by (rule gdt_set_gate_ok[of 1 ?s1 0 "0xFFFFFFFF" "ucast RING_0" DESC_CODEDATA SEG_EXECUTE_READ]) (use l in \<open>auto simp: seg_defs\<close>)
  let ?s2 = "?s0\<lparr>gdt := (gdt s)[0 := e0, 1 := e1]\<rparr>"
  obtain e2 where e2: "gdt_set_gate 2 0 0xFFFFFFFF (ucast RING_0) DESC_CODEDATA SEG_READ_WRITE ?s2 = Some (?s2\<lparr>gdt := (gdt ?s2)[2 := e2]\<rparr>)"
    "seg_base e2 = 0" "limit_field e2 = 2 ^ 20 - 1" "dpl e2 = 0" "seg_type e2 = ucast SEG_READ_WRITE" "present e2 = 1" "granularity e2 = 1"
    by (rule gdt_set_gate_ok[of 2 ?s2 0 "0xFFFFFFFF" "ucast RING_0" DESC_CODEDATA SEG_READ_WRITE]) (use l in \<open>auto simp: seg_defs\<close>)
  let ?s3 = "?s0\<lparr>gdt := (gdt s)[0 := e0, 1 := e1, 2 := e2]\<rparr>"
  obtain e3 where e3: "gdt_set_gate 3 0 0xFFFFFFFF (ucast RING_3) DESC_CODEDATA SEG_EXECUTE_READ ?s3 = Some (?s3\<lparr>gdt := (gdt ?s3)[3 := e3]\<rparr>)"
    "seg_base e3 = 0" "limit_field e3 = 2 ^ 20 - 1" "dpl e3 = 3" "seg_type e3 = ucast SEG_EXECUTE_READ" "present e3 = 1" "granularity e3 = 1"
    by (rule gdt_set_gate_ok[of 3 ?s3 0 "0xFFFFFFFF" "ucast RING_3" DESC_CODEDATA SEG_EXECUTE_READ]) (use l in \<open>auto simp: seg_defs\<close>)
  let ?s4 = "?s0\<lparr>gdt := (gdt s)[0 := e0, 1 := e1, 2 := e2, 3 := e3]\<rparr>"
  obtain e4 where e4: "gdt_set_gate 4 0 0xFFFFFFFF (ucast RING_3) DESC_CODEDATA SEG_READ_WRITE ?s4 = Some (?s4\<lparr>gdt := (gdt ?s4)[4 := e4]\<rparr>)"
    "seg_base e4 = 0" "limit_field e4 = 2 ^ 20 - 1" "dpl e4 = 3" "seg_type e4 = ucast SEG_READ_WRITE" "present e4 = 1" "granularity e4 = 1"
    by (rule gdt_set_gate_ok[of 4 ?s4 0 "0xFFFFFFFF" "ucast RING_3" DESC_CODEDATA SEG_READ_WRITE]) (use l in \<open>auto simp: seg_defs\<close>)
  let ?s5 = "?s0\<lparr>gdt := (gdt s)[0 := e0, 1 := e1, 2 := e2, 3 := e3, 4 := e4]\<rparr>"
  obtain e5 where e5: "gdt_set_gate 5 tss_addr (tss_addr + 103) (ucast RING_3) DESC_SYSTEM SEG_TSS ?s5 = Some (?s5\<lparr>gdt := (gdt ?s5)[5 := e5]\<rparr>)"
    "seg_base e5 = unat tss_addr" "limit_field e5 = unat (tss_addr + 103) mod 2 ^ 20" "seg_type e5 = ucast SEG_TSS"
    by (rule gdt_set_gate_ok[of 5 ?s5 tss_addr "tss_addr + 103" "ucast RING_3" DESC_SYSTEM SEG_TSS]) (use l in \<open>auto simp: seg_defs\<close>)
  note es = e0 e1 e2 e3 e4 e5
  have "seg_base (e5\<lparr>granularity := 0, opsize := 0\<rparr>) = unat tss_addr" "seg_limit (e5\<lparr>granularity := 0, opsize := 0\<rparr>) = unat (tss_addr + 103) mod 2 ^ 20"
    using e5 by (simp_all add: seg_base_def seg_limit_def limit_field_def)
  note t = this
  have a: "tss_addr + 104 - 1 = tss_addr + 103" by simp
  show ?thesis
    unfolding setup_segmentation_def a Let_def
    using l es t by (simp add: seg_limit_def KERNEL_CODE_SEGMENT_def KERNEL_DATA_SEGMENT_def
      USER_CODE_SEGMENT_def USER_DATA_SEGMENT_def TSS_SEGMENT_def) (simp add: RING_3_def)
qed

theorem setup_segmentation_flat_witness:
  "\<exists>s'. setup_segmentation 0x101000 0x102000 0x103000 \<lparr>gdt = replicate 6 undefined, gp_limit = 0, gp_base = 0, the_tss = zero_tss, gdtr = None, tr = None\<rparr>
     = Some s' \<and> dpl (gdt s' ! 3) = 3 \<and> seg_limit (gdt s' ! 3) = 2 ^ 32 - 1"
  using setup_segmentation_flat[of "\<lparr>gdt = replicate 6 undefined, gp_limit = 0, gp_base = 0, the_tss = zero_tss, gdtr = None, tr = None\<rparr>"
    "0x101000" "0x102000" "0x103000"] by (auto simp: NUM_SEGMENTS_def)

lemma idt_set_gate_ok:
  assumes "unat num < length idt"
  obtains g where "idt_set_gate num base sl fl idt = Some (idt[unat num := g])" "gate_offset g = unat base" "sel g = sl" "gate_flags g = fl"
proof -
  show ?thesis
    by (rule that[of "\<lparr>base_lo = ucast (base AND 0xFFFF), sel = sl, always0 = 0, gate_flags = fl, base_hi = ucast (drop_bit 16 base AND 0xFFFF)\<rparr>"])
      (use assms split_u32[of base] in \<open>simp_all add: idt_set_gate_def gate_offset_def\<close>)
qed

definition gates_upto :: "u32 list \<Rightarrow> nat \<Rightarrow> idt_entry list \<Rightarrow> bool" where
  "gates_upto hs n idt \<longleftrightarrow> length idt = 256 \<and> (\<forall>i < n. gate_offset (idt ! i) = unat (hs ! i) \<and> sel (idt ! i) = 0x08 \<and> gate_flags (idt ! i) = 0x8E) \<and>
     (\<forall>i. n \<le> i \<and> i < 256 \<longrightarrow> idt ! i = zero_gate)"

lemma gates_loop:
  assumes "length hs = 49" "n \<le> 48"
  shows "\<exists>idt. fold_opt (\<lambda>i idt. do { h \<leftarrow> list_get hs i; idt_set_gate (of_nat i) h 0x08 0x8E idt }) [0..<n] (replicate 256 zero_gate) = Some idt \<and>
    gates_upto hs n idt"
  using assms(2)
proof (induction n)
  case (Suc n)
  then obtain idt where i: "fold_opt (\<lambda>i idt. do { h \<leftarrow> list_get hs i; idt_set_gate (of_nat i) h 0x08 0x8E idt }) [0..<n] (replicate 256 zero_gate) = Some idt"
    "gates_upto hs n idt" by auto
  have u: "unat (of_nat n :: u8) = n" using Suc.prems by (simp add: unat_of_nat)
  have l: "unat (of_nat n :: u8) < length idt" using i(2) Suc.prems u by (simp add: gates_upto_def)
  obtain g where g: "idt_set_gate (of_nat n) (hs ! n) 0x08 0x8E idt = Some (idt[n := g])" "gate_offset g = unat (hs ! n)" "sel g = 0x08" "gate_flags g = 0x8E"
    using idt_set_gate_ok[OF l, of "hs ! n" "0x08" "0x8E"] u by auto
  have "gates_upto hs (Suc n) (idt[n := g])"
    using i(2) g l u by (auto simp: gates_upto_def nth_list_update less_Suc_eq)
  then show ?case using i(1) g(1) assms(1) Suc.prems by (simp add: fold_opt_append)
qed (simp add: gates_upto_def)

text \<open>C35: After setup_interrupts every one of the 49 used interrupts enters its own stub through a gate to
  the kernel code segment; user programs can raise interrupt 48, the system call, and no other; all
  other vectors are not present. The interrupt controllers are set up to deliver their requests as
  interrupts 32 to 47, and the timer is programmed with the divisor for 50 ticks per second.\<close>

theorem setup_interrupts_gates:
  assumes "length hs = 49"
  shows "\<exists>idt. setup_interrupts hs idt_addr = Some (idt, (2047, idt_addr), pic_setup @ timer_setup) \<and> length idt = 256 \<and>
    (\<forall>i < 256. gate_present (idt ! i) = (i \<le> 48) \<and>
      (i \<le> 48 \<longrightarrow> gate_offset (idt ! i) = unat (hs ! i) \<and> sel (idt ! i) = KERNEL_CODE_SEGMENT \<and>
        gate_dpl (idt ! i) = (if i = 48 then 3 else 0))) \<and>
    (\<exists>lo hi. timer_setup = [(0x43, 0x36), (0x40, lo), (0x40, hi)] \<and> unat lo + 256 * unat hi = unat ISR_FREQ div 50 \<and> unat lo < 256 \<and> unat hi < 256)"
proof -
  obtain idt where i: "fold_opt (\<lambda>i idt. do { h \<leftarrow> list_get hs i; idt_set_gate (of_nat i) h 0x08 0x8E idt }) [0..<48] (replicate 256 zero_gate) = Some idt"
    "gates_upto hs 48 idt" using gates_loop[OF assms, of 48] by auto
  have l: "unat (48::u8) < length idt" using i(2) by (simp add: gates_upto_def)
  obtain g where g: "idt_set_gate 48 (hs ! 48) 0x08 0xEE idt = Some (idt[48 := g])" "gate_offset g = unat (hs ! 48)" "sel g = 0x08" "gate_flags g = 0xEE"
    using idt_set_gate_ok[OF l, of "hs ! 48" "0x08" "0xEE"] by auto
  have e: "setup_interrupts hs idt_addr = Some (idt[48 := g], (2047, idt_addr), pic_setup @ timer_setup)"
    using i(1) g(1) assms by (simp add: setup_interrupts_def)
  have f: "gate_present x = (bit (0x8E::u8) 7)" "gate_dpl x = 0" if "gate_flags x = 0x8E" for x using that by (simp_all add: gate_present_def gate_dpl_def)
  have f8: "gate_present g" "gate_dpl g = 3" using g(4) by (simp_all add: gate_present_def gate_dpl_def)
  have z: "\<not> gate_present zero_gate" by (simp add: gate_present_def zero_gate_def)
  have "\<forall>i < 256. gate_present (idt[48 := g] ! i) = (i \<le> 48) \<and>
      (i \<le> 48 \<longrightarrow> gate_offset (idt[48 := g] ! i) = unat (hs ! i) \<and> sel (idt[48 := g] ! i) = KERNEL_CODE_SEGMENT \<and>
        gate_dpl (idt[48 := g] ! i) = (if i = 48 then 3 else 0))"
  proof (intro allI impI)
    fix k :: nat assume k: "k < 256"
    consider "k < 48" | "k = 48" | "48 < k" by linarith
    then show "gate_present (idt[48 := g] ! k) = (k \<le> 48) \<and>
      (k \<le> 48 \<longrightarrow> gate_offset (idt[48 := g] ! k) = unat (hs ! k) \<and> sel (idt[48 := g] ! k) = KERNEL_CODE_SEGMENT \<and>
        gate_dpl (idt[48 := g] ! k) = (if k = 48 then 3 else 0))"
    proof cases
      case 1 then show ?thesis using i(2) f[of "idt ! k"] by (simp add: gates_upto_def KERNEL_CODE_SEGMENT_def)
    next
      case 2 then show ?thesis using l f8 g by (simp add: KERNEL_CODE_SEGMENT_def)
    next
      case 3 then show ?thesis using i(2) k z by (simp add: gates_upto_def)
    qed
  qed
  moreover have "\<exists>lo hi. timer_setup = [(0x43, 0x36), (0x40, lo), (0x40, hi)] \<and> unat lo + 256 * unat hi = unat ISR_FREQ div 50 \<and> unat lo < 256 \<and> unat hi < 256"
  proof (intro exI conjI)
    show "timer_setup = [(0x43, 0x36), (0x40, 0x37), (0x40, 0x5D)]" by code_simp
    show "unat (0x37::u32) + 256 * unat (0x5D::u32) = unat ISR_FREQ div 50" by (simp add: ISR_FREQ_def)
  qed simp_all
  ultimately show ?thesis using e l i(2) by (auto simp: gates_upto_def)
qed

theorem setup_interrupts_gates_witness:
  "\<exists>idt ports. setup_interrupts (replicate 49 0x100ABC) 0x104000 = Some (idt, (2047, 0x104000), ports) \<and> gate_offset (idt ! 48) = 0x100ABC \<and> gate_dpl (idt ! 48) = 3"
proof -
  obtain idt where "setup_interrupts (replicate 49 0x100ABC) 0x104000 = Some (idt, (2047, 0x104000), pic_setup @ timer_setup)"
    "\<forall>i < 256. gate_present (idt ! i) = (i \<le> 48) \<and>
      (i \<le> 48 \<longrightarrow> gate_offset (idt ! i) = unat (replicate 49 (0x100ABC::u32) ! i) \<and> sel (idt ! i) = KERNEL_CODE_SEGMENT \<and>
        gate_dpl (idt ! i) = (if i = 48 then 3 else 0))"
    using setup_interrupts_gates[of "replicate 49 0x100ABC" "0x104000"] by auto
  then show ?thesis by (intro exI[of _ idt] exI[of _ "pic_setup @ timer_setup"]) simp
qed

end
