(* ===== verification/Interrupts.thy ===== *)
theory Interrupts
  imports Syscall Keyboard Segmentation
begin

text \<open>
  The entry to the kernel: \<open>interrupt_handler\<close> of interrupts.c with the handlers that it calls, the
  timer of main.c and the keyboard, and the start of the kernel, \<open>kmain\<close>. The record \<open>machine\<close>
  adds to the kernel state the ports, the static variables of the keyboard, the buffer of the
  floating point state and the descriptor tables. The end of the idle stack and the address of the
  idle loop are parameters, as for \<open>context_switch\<close>.
\<close>

record machine =
  kern :: kstate
  keyb :: kbd
  ports :: io
  fpustate :: "u32 list"
  cr2 :: u32
  segs :: segments
  idt :: "idt_entry list"
  idtr :: "u16 \<times> u32"

definition MAX_EXCEPTION :: u32 where "MAX_EXCEPTION = 31"
definition INTERRUPT_TIMER :: u32 where "INTERRUPT_TIMER = 32"
definition INTERRUPT_KEYBOARD :: u32 where "INTERRUPT_KEYBOARD = 33"

text \<open>\<open>context_switch\<close> as it is called by the handlers of interrupts.\<close>

definition switch_process :: "u32 \<Rightarrow> u32 \<Rightarrow> regs \<Rightarrow> machine \<Rightarrow> (regs \<times> machine) option" where
  "switch_process idle_stack_end idle r m = do {
     (r1, k1) \<leftarrow> context_switch (syscall idle_stack_end idle) idle_stack_end idle r (kern m);
     Some (r1, m\<lparr>kern := k1\<rparr>) }"

section \<open>Timer and keyboard\<close>

definition timer_handler :: "u32 \<Rightarrow> u32 \<Rightarrow> regs \<Rightarrow> machine \<Rightarrow> (regs \<times> machine) option" where
  "timer_handler idle_stack_end idle r m =
     switch_process idle_stack_end idle r (m\<lparr>kern := (kern m)\<lparr>timer_ticks := timer_ticks (kern m) + 1\<rparr>\<rparr>)"

definition keyboard_handler :: "u32 \<Rightarrow> u32 \<Rightarrow> regs \<Rightarrow> machine \<Rightarrow> (regs \<times> machine) option" where
  "keyboard_handler idle_stack_end idle r m = do {
     let (key, d1) = inb KEYBOARD_INPUT_PORT (ports m);
     (c, kb, d2) \<leftarrow> convert (ucast key) (keyb m) d1;
     let i = (ucast c :: u8);
     k1 \<leftarrow> (if i \<noteq> 0 \<and> input_pipe (kern m) \<noteq> 0 then write_to_pipe (input_pipe (kern m)) [i] (kern m) else Some (kern m));
     switch_process idle_stack_end idle r (m\<lparr>kern := k1, keyb := kb, ports := outb 0x20 0x20 d2\<rparr>) }"

section \<open>Exceptions\<close>

definition exception_messages :: "string list" where
  "exception_messages = [''Division By Zero'', ''Debug'', ''Non Maskable Interrupt'', ''Breakpoint'',
     ''Into Detected Overflow'', ''Out of Bounds'', ''Invalid Opcode'', ''No Coprocessor'',
     ''Double Fault'', ''Coprocessor Segment Overrun'', ''Bad TSS'', ''Segment Not Present'',
     ''Stack Fault'', ''General Protection Fault'', ''Page Fault'', ''Unknown Interrupt'',
     ''Coprocessor Fault'', ''Alignment Check'', ''Machine Check'', ''Reserved'',
     ''Reserved'', ''Reserved'', ''Reserved'', ''Reserved'', ''Reserved'', ''Reserved'',
     ''Reserved'', ''Reserved'', ''Reserved'', ''Reserved'', ''Reserved'', ''Reserved'']"

primrec addstr :: "u8 list \<Rightarrow> u32 \<Rightarrow> vga \<Rightarrow> (u32 \<times> vga) option" where
  "addstr [] x v = Some (x, v)"
| "addstr (c # cs) x v = do {
     s \<leftarrow> list_put (screen v) (unat x) \<lparr>sc_c = c, sc_fg = 15, sc_bg = 0\<rparr>;
     addstr cs (x + 1) (v\<lparr>screen := s\<rparr>) }"

text \<open>What \<open>fatal\<close> and a failed \<open>assert\<close> leave on the screen; neither returns.\<close>

definition fatal :: "u8 list \<Rightarrow> vga \<Rightarrow> vga option" where
  "fatal str v = do {
     (x1, v1) \<leftarrow> addstr (lit ''Fatal error: '') 0 v;
     (x2, v2) \<leftarrow> addstr str x1 v1;
     Some v2 }"

definition assert_failure :: "u8 list \<Rightarrow> u8 list \<Rightarrow> vga \<Rightarrow> vga option" where
  "assert_failure str func v = do {
     (x1, v1) \<leftarrow> addstr (lit ''Assertion failure in '') 0 v;
     (x2, v2) \<leftarrow> addstr func x1 v1;
     (x3, v3) \<leftarrow> addstr (lit '': '') x2 v2;
     (x4, v4) \<leftarrow> addstr str x3 v3;
     Some v4 }"

definition print_regs :: "regs \<Rightarrow> u32 \<Rightarrow> kstate \<Rightarrow> kstate option" where
  "print_regs r fault st = do {
     s1 \<leftarrow> kprintf (''edi %10p        gs      %10p'' @ newline) [Word (r_edi r), Word (r_gs r)] st;
     s2 \<leftarrow> kprintf (''esi %10p        fs      %10p'' @ newline) [Word (r_esi r), Word (r_fs r)] s1;
     s3 \<leftarrow> kprintf (''ebp %10p        es      %10p'' @ newline) [Word (r_ebp r), Word (r_es r)] s2;
     s4 \<leftarrow> kprintf (''esp %10p        ds      %10p'' @ newline) [Word (r_esp r), Word (r_ds r)] s3;
     s5 \<leftarrow> kprintf (''ebx %10p        eip     %10p'' @ newline) [Word (r_ebx r), Word (r_eip r)] s4;
     s6 \<leftarrow> kprintf (''edx %10p        cs      %10p'' @ newline) [Word (r_edx r), Word (r_cs r)] s5;
     s7 \<leftarrow> kprintf (''ecx %10p        eflags  %10p'' @ newline) [Word (r_ecx r), Word (r_eflags r)] s6;
     s8 \<leftarrow> kprintf (''eax %10p        useresp %10p'' @ newline) [Word (r_eax r), Word (r_useresp r)] s7;
     s9 \<leftarrow> kprintf (''                      ss      %10p'' @ newline) [Word (r_ss r)] s8;
     kprintf (''cr2 = %p'' @ newline) [Word fault] s9 }"

section \<open>The handler of all interrupts\<close>

text \<open>The handler returns to the interrupted or another process, or it stops the processor.\<close>

datatype outcome = Returned regs machine | Halted machine

definition page_fault :: "u32 \<Rightarrow> u32 \<Rightarrow> nat \<Rightarrow> regs \<Rightarrow> machine \<Rightarrow> (regs \<times> machine) option" where
  "page_fault idle_stack_end idle i r m = do {
     p \<leftarrow> get_proc (kern m) i;
     k1 \<leftarrow> kprintf (''Process %d: page fault exception at address %p'' @ newline) [Word (of_int (p_pid p)), Word (cr2 m)] (kern m);
     k2 \<leftarrow> kill_process i k1;
     switch_process idle_stack_end idle r (m\<lparr>kern := k2\<rparr>) }"

definition exception :: "regs \<Rightarrow> machine \<Rightarrow> machine option" where
  "exception r m = do {
     k1 \<leftarrow> print_regs r (cr2 m) (kern m);
     msg \<leftarrow> list_get exception_messages (unat (r_int_no r));
     (x1, v1) \<leftarrow> addstr (lit msg) 0 (console k1);
     (x2, v2) \<leftarrow> addstr (lit '' exception. System halted!'') x1 v1;
     Some (m\<lparr>kern := k1\<lparr>console := v2\<rparr>\<rparr>) }"

definition user_fault :: "u32 \<Rightarrow> machine \<Rightarrow> nat option option" where
  "user_fault int_no m = (case current_process (kern m) of
       Some i \<Rightarrow> do { p \<leftarrow> get_proc (kern m) i; Some (if 14 = int_no \<and> p_in_syscall p = 0 then Some i else None) }
     | None \<Rightarrow> Some None)"

definition dispatch :: "u32 \<Rightarrow> u32 \<Rightarrow> regs \<Rightarrow> machine \<Rightarrow> outcome option" where
  "dispatch idle_stack_end idle r m = (let int_no = r_int_no r; ret = map_option (\<lambda>(r, m). Returned r m) in
     if int_no = INTERRUPT_TIMER then ret (timer_handler idle_stack_end idle r m)
     else if int_no = INTERRUPT_KEYBOARD then ret (keyboard_handler idle_stack_end idle r m)
     else if int_no = INTERRUPT_SYSCALL then do {
       (r1, k1) \<leftarrow> syscall idle_stack_end idle r (kern m);
       Some (Returned r1 (m\<lparr>kern := k1\<rparr>)) }
     else do {
       f \<leftarrow> user_fault int_no m;
       case f of
         Some i \<Rightarrow> ret (page_fault idle_stack_end idle i r m)
       | None \<Rightarrow> if MAX_EXCEPTION \<ge> int_no then map_option Halted (exception r m) else Some (Returned r m) })"

definition end_of_interrupt :: "u32 \<Rightarrow> io \<Rightarrow> io" where
  "end_of_interrupt int_no d = (if int_no \<ge> 32 \<and> int_no < 48 then
     (let d1 = (if int_no \<ge> 40 then outb 0xA0 0x20 d else d) in outb 0x20 0x20 d1) else d)"

definition interrupt_handler :: "u32 \<Rightarrow> u32 \<Rightarrow> regs \<Rightarrow> machine \<Rightarrow> outcome option" where
  "interrupt_handler idle_stack_end idle r m = do {
     o1 \<leftarrow> dispatch idle_stack_end idle (r\<lparr>fstate := take 27 (fpustate m)\<rparr>) m;
     Some (case o1 of
         Halted m1 \<Rightarrow> Halted m1
       | Returned r1 m1 \<Rightarrow> Returned r1 (m1\<lparr>ports := end_of_interrupt (r_int_no r) (ports m1), fpustate := take 27 (fstate r1)\<rparr>)) }"

section \<open>The start of the kernel\<close>

record module =
  mod_start :: u32
  mod_end :: u32

record multiboot =
  mods_count :: u32
  mods_addr :: "module list"

record addresses =
  a_code_start :: u32
  a_code_end :: u32
  a_launch_shell :: u32
  a_gdt :: u32
  a_tss :: u32
  a_ih_stack :: u32
  a_idt :: u32
  a_handlers :: "u32 list"
  a_heap :: "u32 \<Rightarrow> u32"   \<comment> \<open>what the memory of the kernel heap holds\<close>

definition VERSION :: string where "VERSION = ''RhythmOS 0.1''"
definition COPYRIGHT :: string where "COPYRIGHT = ''Copyright 2015 Dustin Dorroh <dustindorroh@gmail.com>''"
definition DISCLAIMER :: string where
  "DISCLAIMER = ''This is free software; see the source for copying conditions. There is NO'' @ newline @
     ''warranty; not even for MERCHANTABILITY or FITNESS FOR A PARTICULAR PURPOSE.''"

text \<open>
  \<open>kmain\<close> does not return to the boot code. \<open>Some m\<close> says that it comes to \<open>enter_user_mode\<close> in state
  \<open>m\<close>; from there on it spins in its last loop, in user mode, until an interrupt takes the processor
  away. \<open>None\<close> says that it stops before, at an assertion.
\<close>

definition kmain :: "addresses \<Rightarrow> multiboot \<Rightarrow> machine \<Rightarrow> machine option" where
  "kmain a mb m = do {
     s \<leftarrow> setup_segmentation (a_gdt a) (a_tss a) (a_ih_stack a) (segs m);
     (t, tr, outs) \<leftarrow> setup_interrupts (a_handlers a) (a_idt a);
     let m1 = m\<lparr>segs := s, idt := t, idtr := tr, ports := fold (\<lambda>(p, v). outb p v) outs (ports m)\<rparr>;
     ma \<leftarrow> kmalloc_init (a_heap a);
     let k1 = (kern m1)\<lparr>kernel_memarea := ma\<rparr>;
     v \<leftarrow> clear_screen (console k1);
     let nl = newline;
     k2 \<leftarrow> kprintf (''%s'' @ nl @ ''%s'' @ nl @ ''%s'' @ nl @ nl @ nl @ nl)
            [Str (arr (lit VERSION @ [0])), Str (arr (lit COPYRIGHT @ [0])), Str (arr (lit DISCLAIMER @ [0]))] (k1\<lparr>console := v\<rparr>);
     kassert (1 = mods_count mb);
     md \<leftarrow> list_get (mods_addr mb) 0;
     kassert (mod_end md < 2 * MB);
     let k3 = k2\<lparr>filesystem := mod_start md\<rparr>;
     (pid, k4) \<leftarrow> start_process (a_code_start a) (a_code_end a) (a_launch_shell a) k3;
     kassert (0 \<le> pid);   \<comment> \<open>otherwise \<open>processes[pid]\<close> lies outside the table\<close>
     p \<leftarrow> get_proc k4 (nat pid);
     f \<leftarrow> list_get (p_filedesc p) 0;
     fh \<leftarrow> get_fh k4 f;
     b \<leftarrow> fh_p fh;
     Some (m1\<lparr>kern := k4\<lparr>input_pipe := b\<rparr>\<rparr>) }"

end
