(* ===== verification/Keyboard_Correct.thy ===== *)
theory Keyboard_Correct
  imports Keyboard
begin

text \<open>
  The keyboard driver implements a US keyboard: an abstract keyboard has the state of its modifier
  and lock keys, and the legends of its keys say which character a key gives. The legends are those
  printed on the keyboard and not taken from the tables of the driver. The driver refines it.
\<close>

section \<open>The US layout\<close>

text \<open>
  The legends of the main block of a US keyboard, row by row: the scan code of the first key of a row
  (set 1 of the PC keyboard), and what its keys give without and with Shift.
\<close>

definition us_rows :: "(nat \<times> u8 list \<times> u8 list) list" where
  "us_rows =
    [(0x02, lit ''1234567890-='', lit ''!@#$%^&*()_+''),
     (0x10, lit ''qwertyuiop[]'', lit ''QWERTYUIOP{}''),
     (0x1E, lit ''asdfghjkl;'' @ [0x27, 0x60], lit ''ASDFGHJKL:'' @ [0x22, 0x7E]),
     (0x2B, [0x5C] @ lit ''zxcvbnm,./'', lit ''|ZXCVBNM<>?'')]"

text \<open>
  Keys with one legend: Esc, Backspace and Tab, Enter, the space bar, the function keys, and the
  keypad in its meaning without Num Lock.
\<close>

definition us_keys :: "(nat \<times> u8 list) list" where
  "us_keys =
    [(0x01, [0x1B]), (0x0E, [0x08, 0x09]), (0x1C, [0x0A]), (0x39, [0x20]),
     (0x3B, [KEY_F1, KEY_F2, KEY_F3, KEY_F4, KEY_F5, KEY_F6, KEY_F7, KEY_F8, KEY_F9, KEY_F10]), (0x57, [KEY_F11, KEY_F12]),
     (0x47, [KEY_HOME, KEY_UP, KEY_PGUP] @ lit ''-'' @ [KEY_LFT] @ lit ''5'' @ [KEY_RT] @ lit ''+'' @ [KEY_END, KEY_DN, KEY_PGDN, KEY_INS, KEY_DEL])]"

definition is_letter :: "u8 \<Rightarrow> bool" where
  "is_letter c \<longleftrightarrow> 97 \<le> c \<and> c \<le> 122"

text \<open>
  Caps Lock reverses Shift for letters only. The driver departs from the keyboard in two ways, which
  are part of the specification: it does not look at Num Lock, and it gives the star of the keypad,
  key \<open>0x37\<close>, only with Shift. A key that is not listed gives no character, 0.
\<close>

definition us_key :: "bool \<Rightarrow> bool \<Rightarrow> nat \<Rightarrow> u8" where
  "us_key caps shift key = (case filter (\<lambda>(first, low, up). first \<le> key \<and> key < first + length low)
         (us_rows @ map (\<lambda>(first, cs). (first, cs, cs)) us_keys @ [(0x37, [0], lit ''*'')]) of
       [] \<Rightarrow> 0
     | (first, low, up) # _ \<Rightarrow> (let c = low ! (key - first) in if (if is_letter c then caps \<noteq> shift else shift) then up ! (key - first) else c))"

lemma us_key_maps:
  assumes "key < 89"
  shows "key_map ! key = us_key False False key" "key_map_shift ! key = us_key False True key"
    "key_map_caps ! key = us_key True False key" "key_map_caps_shift ! key = us_key True True key"
proof -
  have *: "list_all (\<lambda>i. key_map ! i = us_key False False i) [0..<89]" "list_all (\<lambda>i. key_map_shift ! i = us_key False True i) [0..<89]"
    "list_all (\<lambda>i. key_map_caps ! i = us_key True False i) [0..<89]" "list_all (\<lambda>i. key_map_caps_shift ! i = us_key True True i) [0..<89]"
    by code_simp+
  then show "key_map ! key = us_key False False key" "key_map_shift ! key = us_key False True key"
    "key_map_caps ! key = us_key True False key" "key_map_caps_shift ! key = us_key True True key"
    using assms by (simp_all add: list_all_iff)
qed

lemma length_maps: "length key_map = 89" "length key_map_shift = 89" "length key_map_caps = 89" "length key_map_caps_shift = 89"
  by (simp_all add: key_map_def key_map_shift_def key_map_caps_def key_map_caps_shift_def lit_def)

section \<open>The abstract keyboard\<close>

record mods =
  m_alt :: bool
  m_ctrl :: bool
  m_shift :: bool
  m_caps :: bool
  m_num :: bool
  m_scrl :: bool

definition abs_kbd :: "kbd \<Rightarrow> mods" where
  "abs_kbd k = \<lparr>m_alt = bit (kbd_status k) 9, m_ctrl = bit (kbd_status k) 10, m_shift = bit (kbd_status k) 11,
     m_caps = bit (kbd_status k) 12, m_num = bit (kbd_status k) 13, m_scrl = bit (kbd_status k) 14\<rparr>"

definition alt_key :: u32 where "alt_key = 0x38"
definition ctrl_key :: u32 where "ctrl_key = 0x1D"
definition shift_keys :: "u32 set" where "shift_keys = {0x2A, 0x36}"

definition release :: "u32 \<Rightarrow> mods \<Rightarrow> mods" where
  "release key m = (if key = alt_key then m\<lparr>m_alt := False\<rparr> else if key = ctrl_key then m\<lparr>m_ctrl := False\<rparr>
     else if key \<in> shift_keys then m\<lparr>m_shift := False\<rparr> else m)"

text \<open>Pressing a key: \<open>Inl\<close> the new state for a modifier or a lock, \<open>Inr\<close> a character.\<close>

definition press :: "u32 \<Rightarrow> mods \<Rightarrow> mods + u8" where
  "press key m = (if key = alt_key then Inl (m\<lparr>m_alt := True\<rparr>) else if key = ctrl_key then Inl (m\<lparr>m_ctrl := True\<rparr>)
     else if key \<in> shift_keys then Inl (m\<lparr>m_shift := True\<rparr>)
     else if key = 0x46 then Inl (m\<lparr>m_scrl := \<not> m_scrl m\<rparr>) else if key = 0x45 then Inl (m\<lparr>m_num := \<not> m_num m\<rparr>)
     else if key = 0x3A then Inl (m\<lparr>m_caps := \<not> m_caps m\<rparr>)
     else if 89 \<le> key then Inl m else Inr (us_key (m_caps m) (m_shift m) (unat key)))"

text \<open>One scan code; \<open>None\<close> is the reset by Ctrl, Alt and Del. A zero is no character.\<close>

definition key_event :: "u32 \<Rightarrow> mods \<Rightarrow> (u8 \<times> mods) option" where
  "key_event key m = (if 128 \<le> key then Some (0, release (key - 128) m)
     else case press key m of Inl m' \<Rightarrow> Some (0, m')
       | Inr c \<Rightarrow> if m_ctrl m \<and> m_alt m \<and> c = KEY_DEL then None else Some (c, m))"

section \<open>Refinement\<close>

lemma meta_pow: "KBD_META_ALT = 2 ^ 9" "KBD_META_CTRL = 2 ^ 10" "KBD_META_SHIFT = 2 ^ 11" "KBD_META_CAPS = 2 ^ 12"
  "KBD_META_NUM = 2 ^ 13" "KBD_META_SCRL = 2 ^ 14"
  by (simp_all add: meta_defs)

lemma meta_test: "(s AND KBD_META_ALT = 0) = (\<not> bit s 9)" "(s AND KBD_META_CTRL = 0) = (\<not> bit s 10)"
  "(s AND KBD_META_SHIFT = 0) = (\<not> bit s 11)" "(s AND KBD_META_CAPS = 0) = (\<not> bit s 12)"
  "(s AND KBD_META_NUM = 0) = (\<not> bit s 13)" "(s AND KBD_META_SCRL = 0) = (\<not> bit s 14)"
  unfolding meta_pow by (rule and_exp_eq_0_iff_not_bit)+

lemma and_7F: "128 \<le> key \<Longrightarrow> key < 256 \<Longrightarrow> key AND 0x7F = key - (128::u32)"
proof -
  assume a: "128 \<le> key" "key < 256"
  have m: "(0x7F::u32) = mask 7" by (simp add: mask_eq_exp_minus_1)
  have "key AND 0x7F = take_bit 7 key" unfolding m take_bit_eq_mask ..
  then have "unat (key AND 0x7F) = unat key mod 128" by (simp only: unsigned_take_bit_eq) (simp add: take_bit_eq_mod)
  also have "\<dots> = unat (key - 128)" using a by (simp add: word_le_nat_alt word_less_nat_alt unat_sub mod_if)
  finally show ?thesis by (simp only: unat_u32_inj)
qed

lemma raw_to_ascii_ok:
  assumes "unat key < 89"
  shows "raw_to_ascii key k = Some (us_key (m_caps (abs_kbd k)) (m_shift (abs_kbd k)) (unat key))"
  using us_key_maps[OF assms] length_maps assms
  by (simp add: raw_to_ascii_def abs_kbd_def meta_test)

lemma convert_ok:
  assumes "key < 256" "saw_break_code k = 0"
  shows "case key_event key (abs_kbd k) of None \<Rightarrow> convert key k d = None
    | Some (c, m) \<Rightarrow> \<exists>k' d'. convert key k d = Some (ucast c, k', d') \<and> abs_kbd k' = m \<and> saw_break_code k' = 0"
proof (cases "128 \<le> key")
  case True
  then show ?thesis
    using assms and_7F[OF True assms(1)]
    by (auto simp: convert_def key_event_def release_def abs_kbd_def raw_defs alt_key_def ctrl_key_def shift_keys_def meta_pow Let_def
        bit_and_iff bit_not_iff bit_exp_iff)
next
  case False
  show ?thesis
  proof (cases "key \<in> {0x38, 0x1D, 0x2A, 0x36, 0x46, 0x45, 0x3A} \<or> 89 \<le> key")
    case True
    then show ?thesis
      using False assms length_maps(1)
      by (auto simp: convert_def key_event_def press_def abs_kbd_def raw_defs alt_key_def ctrl_key_def shift_keys_def meta_pow Let_def
        bit_or_iff bit_xor_iff bit_exp_iff word_le_nat_alt)
  next
    case n: False
    then have u: "unat key < 89" by (simp add: word_le_nat_alt)
    show ?thesis
      using False n assms raw_to_ascii_ok[OF u, of k] length_maps(1) u
      by (auto simp: convert_def key_event_def press_def raw_defs alt_key_def ctrl_key_def shift_keys_def Let_def abs_kbd_def meta_test key_defs)
  qed
qed

section \<open>Typing\<close>

text \<open>A series of scan codes, through the driver and through the abstract keyboard.\<close>

fun type_codes :: "u32 list \<Rightarrow> kbd \<Rightarrow> io \<Rightarrow> (u32 list \<times> kbd \<times> io) option" where
  "type_codes [] k d = Some ([], k, d)"
| "type_codes (key # keys) k d = do {
     (c, k1, d1) \<leftarrow> convert key k d;
     (cs, k2, d2) \<leftarrow> type_codes keys k1 d1;
     Some ((if c = 0 then cs else c # cs), k2, d2) }"

fun typed :: "u32 list \<Rightarrow> mods \<Rightarrow> (u8 list \<times> mods) option" where
  "typed [] m = Some ([], m)"
| "typed (key # keys) m = do {
     (c, m1) \<leftarrow> key_event key m;
     (cs, m2) \<leftarrow> typed keys m1;
     Some ((if c = 0 then cs else c # cs), m2) }"

lemma ucast_u8_zero: "(ucast (c::u8) = (0::u32)) = (c = 0)"
proof
  assume "ucast c = (0::u32)"
  then have "unat (ucast c :: u32) = 0" by simp
  moreover have "unat c < 2 ^ 32" using unsigned_less[of c, where 'a = nat] by simp
  ultimately show "c = 0" by (simp add: unsigned_ucast_eq take_bit_eq_mod unsigned_eq_0_iff)
qed simp

lemma type_codes_ok:
  assumes "\<forall>key \<in> set keys. key < 256" "saw_break_code k = 0"
  shows "case typed keys (abs_kbd k) of None \<Rightarrow> type_codes keys k d = None
    | Some (cs, m) \<Rightarrow> \<exists>k' d'. type_codes keys k d = Some (map ucast cs, k', d') \<and> abs_kbd k' = m \<and> saw_break_code k' = 0"
  using assms
proof (induction keys arbitrary: k d)
  case (Cons key keys)
  have s: "case key_event key (abs_kbd k) of None \<Rightarrow> convert key k d = None
    | Some (c, m) \<Rightarrow> \<exists>k' d'. convert key k d = Some (ucast c, k', d') \<and> abs_kbd k' = m \<and> saw_break_code k' = 0"
    using convert_ok[of key k d] Cons.prems by simp
  show ?case
  proof (cases "key_event key (abs_kbd k)")
    case None
    then show ?thesis using s by simp
  next
    case (Some p)
    obtain c m where p: "p = (c, m)" by (cases p)
    obtain k1 d1 where c: "convert key k d = Some (ucast c, k1, d1)" "abs_kbd k1 = m" "saw_break_code k1 = 0"
      using s by (auto simp: Some p)
    have r: "case typed keys m of None \<Rightarrow> type_codes keys k1 d1 = None
      | Some (cs, m') \<Rightarrow> \<exists>k' d'. type_codes keys k1 d1 = Some (map ucast cs, k', d') \<and> abs_kbd k' = m' \<and> saw_break_code k' = 0"
      using Cons.IH[of k1 d1] Cons.prems(1) c(2,3) by simp
    show ?thesis
    proof (cases "typed keys m")
      case None
      then show ?thesis using r Some p c(1) by simp
    next
      case t: (Some q)
      then show ?thesis using r Some p c(1) by (cases q) (auto simp: ucast_u8_zero)
    qed
  qed
qed simp

section \<open>The lights\<close>

definition kbd_ready :: "io \<Rightarrow> bool" where
  "kbd_ready d \<longleftrightarrow> (\<forall>n. \<not> bit (io_in d n KEYBOARD_STATUS_PORT) 1)"

lemma write_kbd_ready:
  assumes "kbd_ready d"
  shows "io_out (write_kbd a v d) = io_out d @ [(a, v)]" "kbd_ready (write_kbd a v d)"
proof -
  have t: "poll_kbd 500000 d = (500000, snd (inb KEYBOARD_STATUS_PORT d))"
  proof -
    have e: "ucast x AND KEYBOARD_INPUT_BUF_STATUS = (0::u32)" if "\<not> bit (x::u8) 1" for x
    proof -
      have k: "KEYBOARD_INPUT_BUF_STATUS = 2 ^ 1" by (simp add: KEYBOARD_INPUT_BUF_STATUS_def)
      show ?thesis unfolding k and_exp_eq_0_iff_not_bit using that by (simp add: bit_ucast_iff)
    qed
    have "poll_kbd (Suc n) d = (Suc n, snd (inb KEYBOARD_STATUS_PORT d))" for n
      using e assms by (simp add: inb_def kbd_ready_def del: One_nat_def)
    from this[of 499999] show ?thesis by simp
  qed
  show "io_out (write_kbd a v d) = io_out d @ [(a, v)]" "kbd_ready (write_kbd a v d)"
    using t assms by (simp_all add: write_kbd_def inb_def outb_def kbd_ready_def)
qed

text \<open>After a lock key the lights show the three locks, if the controller accepts commands.\<close>

lemma leds_show_locks:
  assumes "kbd_ready d"
  shows "io_out (leds k d) = io_out d @ [(0x60, 0xED),
    (0x60, (if m_scrl (abs_kbd k) then 1 else 0) + (if m_num (abs_kbd k) then 2 else 0) + (if m_caps (abs_kbd k) then 4 else 0))]"
  using write_kbd_ready(1)[OF assms] write_kbd_ready(1)[OF write_kbd_ready(2)[OF assms]]
  by (simp add: leds_def Let_def abs_kbd_def meta_test)

section \<open>Properties of the keyboard\<close>

text \<open>C33: For any series of scan codes the driver delivers exactly the characters that the legends of a US
  keyboard give: the modifiers follow the last press or release of Shift, Ctrl and Alt, the locks
  toggle, a letter is upper case when exactly one of Caps Lock and Shift is active, the other keys
  of the main block give their upper character with Shift, key releases and unknown keys give
  nothing, and Ctrl-Alt-Del resets the machine. The keypad gives the codes of the cursor keys
  whatever the state of Num Lock, and its star only with Shift; in this the driver is not a US
  keyboard.\<close>

theorem keyboard_types:
  assumes "\<forall>key \<in> set keys. key < 256" "saw_break_code k = 0"
  shows "case typed keys (abs_kbd k) of
       None \<Rightarrow> type_codes keys k d = None
     | Some (cs, m) \<Rightarrow> \<exists>k' d'. type_codes keys k d = Some (map ucast cs, k', d') \<and> abs_kbd k' = m \<and> saw_break_code k' = 0"
  by (rule type_codes_ok[OF assms])

text \<open>Shift, h, release of Shift, i, Caps Lock, 1, o.\<close>

theorem keyboard_types_witness:
  "\<exists>k d. type_codes [0x2A, 0x23, 0xAA, 0x17, 0x3A, 2, 0x18] \<lparr>kbd_status = 0, saw_break_code = 0\<rparr>
     \<lparr>io_in = (\<lambda>_ _. 0), io_reads = 0, io_out = []\<rparr> = Some ([72, 105, 49, 79], k, d)"
proof -
  let ?keys = "[0x2A, 0x23, 0xAA, 0x17, 0x3A, 2, 0x18] :: u32 list" and ?k = "\<lparr>kbd_status = 0, saw_break_code = 0\<rparr>"
  have t: "map_option fst (typed ?keys (abs_kbd ?k)) = Some [72, 105, 49, 79]" by code_simp
  then obtain m where m: "typed ?keys (abs_kbd ?k) = Some ([72, 105, 49, 79], m)" by (cases "typed ?keys (abs_kbd ?k)") auto
  have "\<forall>key \<in> set ?keys. key < 256" by simp
  from keyboard_types[OF this, of ?k "\<lparr>io_in = (\<lambda>_ _. 0), io_reads = 0, io_out = []\<rparr>"] show ?thesis
    unfolding m by (auto simp del: type_codes.simps)
qed

end
