(* ===== verification/Interrupts_Correct.thy ===== *)
theory Interrupts_Correct
  imports Interrupts Keyboard_Correct Mailbox_Correct
begin

text \<open>
  The handling of interrupts: the timer switches processes with their complete registers, and a
  typed character reaches the process that reads the keyboard.
\<close>

section \<open>The timer\<close>

lemma sched_inv_ticks: "sched_inv st rs ss \<Longrightarrow> sched_inv (st\<lparr>timer_ticks := t\<rparr>) rs ss"
  by (erule sched_inv_same) simp_all

text \<open>C31: A timer interrupt saves the registers of the running process, with the floating point state
  that the processor had, and continues the next process of the ready list with exactly the
  registers and the floating point state that it had when it was interrupted; it counts a tick,
  acknowledges the interrupt, and leaves the process lists as they were.\<close>

theorem timer_preempts:
  assumes "sched_inv (kern m) rs ss" "k < length rs" "current_process (kern m) = Some (rs ! k)" "r_int_no r = INTERRUPT_TIMER"
    "j = rs ! (Suc k mod length rs)" "j \<noteq> rs ! k" "p_in_syscall (procs (kern m) ! j) = 0"
    "length (fstate (p_saved_regs (procs (kern m) ! j))) = 27"
  shows "\<exists>m'. interrupt_handler se ia r m = Some (Returned (p_saved_regs (procs (kern m) ! j)) m') \<and>
    p_saved_regs (procs (kern m') ! (rs ! k)) = r\<lparr>fstate := take 27 (fpustate m)\<rparr> \<and>
    fpustate m' = fstate (p_saved_regs (procs (kern m) ! j)) \<and> current_process (kern m') = Some j \<and>
    paging (kern m') = Some (p_pdir (procs (kern m) ! j)) \<and> sched_inv (kern m') rs ss \<and>
    timer_ticks (kern m') = timer_ticks (kern m) + 1 \<and> io_out (ports m') = io_out (ports m) @ [(0x20, 0x20)]"
proof -
  let ?k = "(kern m)\<lparr>timer_ticks := timer_ticks (kern m) + 1\<rparr>" and ?r = "r\<lparr>fstate := take 27 (fpustate m)\<rparr>"
  have inv: "sched_inv ?k rs ss" by (rule sched_inv_ticks[OF assms(1)])
  have c: "current_process ?k = Some (rs ! k)" "p_in_syscall (procs ?k ! j) = 0" using assms by simp_all
  note s = context_switch_to(1)[where handler = "syscall se ia" and se = se and ia = ia and r = ?r, OF inv assms(2) c(1) assms(5) c(2)]
    context_switch_to(2)[where r = ?r, OF inv assms(2) c(1) assms(5) c(2)]
  have l: "rs ! k < length (procs (kern m))"
    using sched_invD(1)[OF assms(1)] sched_invD(4)[OF assms(1), of "rs ! k"] nth_mem[OF assms(2)] by auto
  show ?thesis
    using s assms(4,6,8) l unfolding enable_paging_def
    by (simp add: interrupt_handler_def dispatch_def timer_handler_def switch_process_def end_of_interrupt_def INTERRUPT_TIMER_def outb_def)
qed

text \<open>A machine for the witnesses, with the processes of \<open>example_kstate\<close>.\<close>

definition example_machine :: machine where
  "example_machine = \<lparr>kern = example_kstate, keyb = \<lparr>kbd_status = 0, saw_break_code = 0\<rparr>,
     ports = \<lparr>io_in = (\<lambda>_ _. 0x23), io_reads = 0, io_out = []\<rparr>, fpustate = replicate 27 7, cr2 = 0,
     segs = \<lparr>gdt = [], gp_limit = 0, gp_base = 0, the_tss = zero_tss, gdtr = None, tr = None\<rparr>, idt = [], idtr = (0, 0)\<rparr>"

theorem timer_preempts_witness:
  "\<exists>m'. interrupt_handler 0 0 (zero_regs\<lparr>r_int_no := 32, r_eax := 5\<rparr>) example_machine = Some (Returned zero_regs m') \<and>
    current_process (kern m') = Some 2 \<and> p_saved_regs (procs (kern m') ! 1) = zero_regs\<lparr>r_int_no := 32, r_eax := 5, fstate := replicate 27 7\<rparr> \<and>
    fpustate m' = replicate 27 0"
proof -
  let ?r = "zero_regs\<lparr>r_int_no := 32, r_eax := 5\<rparr>"
  have p: "current_process (kern example_machine) = Some ([1, 2] ! 0)" "kern example_machine = example_kstate"
    "fpustate example_machine = replicate 27 7" by (simp_all add: example_machine_def example_kstate_def)
  have r: "p_saved_regs (procs (kern example_machine) ! 2) = zero_regs" "p_in_syscall (procs (kern example_machine) ! 2) = 0"
    by (simp_all add: example_machine_def example_kstate_def example_procs_def zero_process_def MAX_PROCESSES_def)
  have inv: "sched_inv (kern example_machine) [1, 2] [3]" using example_inv by (simp only: p)
  have f: "length (fstate zero_regs) = 27" "fstate zero_regs = replicate 27 0" by (simp_all add: zero_regs_def)
  obtain m' where m: "interrupt_handler 0 0 ?r example_machine = Some (Returned zero_regs m')"
    "p_saved_regs (procs (kern m') ! ([1, 2] ! 0)) = ?r\<lparr>fstate := take 27 (fpustate example_machine)\<rparr>"
    "fpustate m' = fstate zero_regs" "current_process (kern m') = Some 2"
    using timer_preempts[OF inv _ p(1) _ _ _ r(2), of ?r 0 0] unfolding r(1) by (auto simp: INTERRUPT_TIMER_def f(1))
  have "p_saved_regs (procs (kern m') ! 1) = zero_regs\<lparr>r_int_no := 32, r_eax := 5, fstate := replicate 27 7\<rparr>"
    using m(2) by (simp add: p(3))
  then show ?thesis using m(1,3,4) f(2) by auto
qed

section \<open>What a write to a pipe leaves of the processes\<close>

definition core :: "process \<Rightarrow> process" where
  "core q = q\<lparr>p_prev := None, p_next := None, p_ready := False\<rparr>"

lemma core_unlink: "core (unlink q) = core q" "core (q\<lparr>p_ready := b\<rparr>) = core q"
  by (simp_all add: core_def unlink_def)

lemma core_fields:
  assumes "core q = core q'"
  shows "p_pid q = p_pid q'" "p_saved_regs q = p_saved_regs q'" "p_pdir q = p_pdir q'" "p_in_syscall q = p_in_syscall q'"
    "p_filedesc q = p_filedesc q'" "p_stack_start q = p_stack_start q'" "p_stack_end q = p_stack_end q'"
    "p_data_start q = p_data_start q'" "p_data_end q = p_data_end q'" "p_text_start q = p_text_start q'" "p_text_end q = p_text_end q'"
  using assms by (cases q; cases q'; simp add: core_def)+

lemma resume_core:
  assumes "sched_inv st rs ss" "i \<in> set ss" "resume_process i st = Some st'"
  shows "map core (procs st') = map core (procs st)"
proof -
  have "map unlink (procs st') = map unlink ((procs st)[i := (procs st ! i)\<lparr>p_ready := True\<rparr>])"
    by (rule resume_process_ok[OF assms(1,2)]) (use assms(3) in simp)
  then have "map core (map unlink (procs st')) = map core (map unlink ((procs st)[i := (procs st ! i)\<lparr>p_ready := True\<rparr>]))" by simp
  then have "map core (procs st') = map core ((procs st)[i := (procs st ! i)\<lparr>p_ready := True\<rparr>])" by (simp add: comp_def core_unlink)
  also have "\<dots> = (map core (procs st))[i := core (procs st ! i)]" by (simp add: map_update core_unlink)
  also have "\<dots> = map core (procs st)" by (cases "i < length (procs st)") (simp_all add: list_update_same_conv list_update_beyond)
  finally show ?thesis .
qed

lemma new_buf_procs: "new_buf n st = Some (d, st') \<Longrightarrow> procs st' = procs st \<and> ready st' = ready st \<and> suspended st' = suspended st \<and> pipes st' = pipes st"
  by (auto simp: new_buf_def knew_def bind_eq_Some_conv)

lemma kdelete_procs: "kdelete d st = Some st' \<Longrightarrow> procs st' = procs st \<and> ready st' = ready st \<and> suspended st' = suspended st"
  by (auto simp: kdelete_def bind_eq_Some_conv)

lemma grow_pipe_procs:
  assumes "grow_pipe p n st = Some st'" "pipes st p = Some b"
  shows "procs st' = procs st \<and> ready st' = ready st \<and> suspended st' = suspended st \<and> (\<exists>b'. pipes st' p = Some b' \<and> pb_readpid b' = pb_readpid b)"
  using assms
  by (auto simp: grow_pipe_def get_pipe_def set_pipe_def buf_move_def bind_eq_Some_conv dest!: new_buf_procs kdelete_procs)

lemma write_to_pipe_core:
  assumes inv: "sched_inv st rs ss" and b: "pipes st p = Some b" and rd: "reader_ok b ss" and w: "write_to_pipe p buf st = Some st'"
  shows "map core (procs st') = map core (procs st)"
proof -
  let ?n = "of_nat (length buf) :: u32"
  obtain st1 b1 st2 where s: "(if pb_len b + ?n > pb_alloc b then grow_pipe p ?n st else Some st) = Some st1" "pipes st1 p = Some b1"
    "buf_store (pb_data b1) (unat (pb_len b1)) buf st1 = Some st2" "wake_up_reader p (set_pipe p (b1\<lparr>pb_len := pb_len b1 + ?n\<rparr>) st2) = Some st'"
    using w b by (auto simp: write_to_pipe_def get_pipe_def Let_def bind_eq_Some_conv)
  have g: "procs st1 = procs st" "ready st1 = ready st" "suspended st1 = suspended st" "pb_readpid b1 = pb_readpid b"
    using s(1,2) b grow_pipe_procs[of p ?n st st1 b] by (auto split: if_splits)
  let ?st3 = "set_pipe p (b1\<lparr>pb_len := pb_len b1 + ?n\<rparr>) st2"
  have e: "procs ?st3 = procs st" "ready ?st3 = ready st" "suspended ?st3 = suspended st"
    using s(3) g by (auto simp: buf_store_def set_pipe_def bind_eq_Some_conv)
  have inv3: "sched_inv ?st3 rs ss" by (rule sched_inv_same[OF inv e])
  have p3: "pipes ?st3 p = Some (b1\<lparr>pb_len := pb_len b1 + ?n\<rparr>)" by (simp add: set_pipe_def)
  show ?thesis
  proof (cases "0 \<le> pb_readpid b")
    case True
    then have i: "nat (pb_readpid b) \<in> set ss" using rd by (auto simp: reader_ok_def)
    from s(4) True obtain st4 b4 where r: "resume_process (nat (pb_readpid b)) ?st3 = Some st4" "st' = set_pipe p b4 st4"
      by (auto simp: wake_up_reader_def get_pipe_def p3 g(4) bind_eq_Some_conv)
    then show ?thesis using resume_core[OF inv3 i r(1)] e(1) by (simp add: set_pipe_def)
  next
    case False
    then show ?thesis using s(4) e(1) by (simp add: wake_up_reader_def get_pipe_def p3 g(4))
  qed
qed

section \<open>The result of a system call\<close>

definition entered :: "nat \<Rightarrow> regs \<Rightarrow> kstate \<Rightarrow> kstate" where
  "entered i r st = st\<lparr>procs := (procs st)[i := (procs st ! i)\<lparr>p_in_syscall := r_eax r\<rparr>]\<rparr>"

definition left :: "nat \<Rightarrow> int \<Rightarrow> kstate \<Rightarrow> kstate" where
  "left i e st = st\<lparr>procs := (procs st)[i := (procs st ! i)\<lparr>p_last_errno := e, p_in_syscall := 0\<rparr>]\<rparr>"

lemma syscall_result:
  assumes c: "current_process st = Some i" "i < length (procs st)" and n: "r_eax r \<noteq> SYSCALL_GETERRNO"
    and sw: "syscall_switch r (entered i r st) = Some (res, r1, st2)" and nb: "res \<noteq> - ESUSPEND"
    and c2: "current_process st2 = Some i" "i < length (procs st2)"
  shows "syscall se ia r st = Some (r1\<lparr>r_eax := of_int (if res < 0 then - 1 else res)\<rparr>, left i (if res < 0 then - res else 0) st2)"
proof -
  have b: "upd_proc i (\<lambda>p. p\<lparr>p_in_syscall := r_eax r\<rparr>) st = Some (entered i r st)"
    using c(2) by (simp add: upd_proc_def entered_def)
  have e: "store_errno (r_eax r) res st2 = Some (if res < 0 then - 1 else res,
      st2\<lparr>procs := (procs st2)[i := (procs st2 ! i)\<lparr>p_last_errno := if res < 0 then - res else 0\<rparr>]\<rparr>)"
    using n nb c2 by (auto simp: store_errno_def upd_cur_def upd_proc_def)
  have u: "upd_proc i (\<lambda>p. p\<lparr>p_in_syscall := 0\<rparr>) (st2\<lparr>procs := (procs st2)[i := (procs st2 ! i)\<lparr>p_last_errno := x\<rparr>]\<rparr>) = Some (left i x st2)" for x
    using c2(2) by (simp add: upd_proc_def left_def)
  have z: "- ESUSPEND \<noteq> (if res < 0 then - 1 else res)" using nb by (auto simp: ESUSPEND_def)
  show ?thesis
    by (subst syscall.simps) (use c(1) b sw e z u c2 in \<open>simp add: syscall_body_def Let_def left_def\<close>)
qed

text \<open>C32: The result of a system call: an error is reported as -1 in eax with the error number kept for the
  process, a success returns its value and clears the error number; in both cases the registers are
  otherwise those that the handler left, and the process is no longer inside a call. The next call of
  geterrno returns exactly that error number and does not change it.\<close>

theorem syscall_errno:
  assumes "current_process st = Some i" "i < length (procs st)" "r_eax r \<noteq> SYSCALL_GETERRNO"
    "syscall_switch r (entered i r st) = Some (res, r1, st2)" "res \<noteq> - ESUSPEND"
    "current_process st2 = Some i" "i < length (procs st2)"
  shows "\<exists>st3. syscall se ia r st = Some (r1\<lparr>r_eax := of_int (if res < 0 then - 1 else res)\<rparr>, st3) \<and>
     p_last_errno (procs st3 ! i) = (if res < 0 then - res else 0) \<and> p_in_syscall (procs st3 ! i) = 0 \<and>
     (\<forall>r'. r_eax r' = SYSCALL_GETERRNO \<longrightarrow> (\<exists>st4. syscall se ia r' st3 =
        Some (r'\<lparr>r_eax := of_int (if res < 0 then - res else 0)\<rparr>, st4) \<and> p_last_errno (procs st4 ! i) = (if res < 0 then - res else 0)))"
proof -
  define e where "e = (if res < 0 then - res else 0)"
  let ?st3 = "left i e st2"
  have s: "syscall se ia r st = Some (r1\<lparr>r_eax := of_int (if res < 0 then - 1 else res)\<rparr>, ?st3)"
    unfolding e_def by (rule syscall_result[OF assms])
  have p3: "procs ?st3 ! i = (procs st2 ! i)\<lparr>p_last_errno := e, p_in_syscall := 0\<rparr>" "current_process ?st3 = Some i" "i < length (procs ?st3)"
    using assms(6,7) by (simp_all add: left_def)
  have "\<exists>st4. syscall se ia r' ?st3 = Some (r'\<lparr>r_eax := of_int e\<rparr>, st4) \<and> p_last_errno (procs st4 ! i) = e"
    if r': "r_eax r' = SYSCALL_GETERRNO" for r'
  proof -
    have en: "- ESUSPEND \<noteq> e" by (auto simp: e_def ESUSPEND_def)
    have sw: "syscall_switch r' (entered i r' ?st3) = Some (e, r', entered i r' ?st3)"
      using r' p3 by (simp add: syscall_switch_def keep_def syscall_geterrno_def cur_def get_proc_def entered_def Let_def
        SYSCALL_GETERRNO_def SYSCALL_GETPID_def SYSCALL_EXIT_def SYSCALL_WRITE_def SYSCALL_READ_def)
    have b: "upd_proc i (\<lambda>p. p\<lparr>p_in_syscall := r_eax r'\<rparr>) ?st3 = Some (entered i r' ?st3)"
      using p3 by (simp add: upd_proc_def entered_def)
    have u: "upd_proc i (\<lambda>p. p\<lparr>p_in_syscall := 0\<rparr>) (entered i r' ?st3) = Some (?st3\<lparr>procs := (procs ?st3)[i := (procs ?st3 ! i)\<lparr>p_in_syscall := 0\<rparr>]\<rparr>)"
      using p3 by (simp add: upd_proc_def entered_def)
    have "syscall se ia r' ?st3 = Some (r'\<lparr>r_eax := of_int e\<rparr>, ?st3\<lparr>procs := (procs ?st3)[i := (procs ?st3 ! i)\<lparr>p_in_syscall := 0\<rparr>]\<rparr>)"
      by (subst syscall.simps) (use p3(2) b sw u en r' in \<open>simp add: syscall_body_def Let_def store_errno_def\<close>)
    then show ?thesis using p3 by simp
  qed
  then show ?thesis using s p3(1) unfolding e_def[symmetric] by simp
qed

text \<open>Closing a descriptor that is not open.\<close>

theorem syscall_errno_witness:
  "\<exists>st3. syscall 0 0 (zero_regs\<lparr>r_eax := SYSCALL_CLOSE\<rparr>) example_kstate = Some (zero_regs\<lparr>r_eax := - 1\<rparr>, st3) \<and> p_last_errno (procs st3 ! 1) = EBADF"
proof -
  let ?r = "zero_regs\<lparr>r_eax := SYSCALL_CLOSE\<rparr>" and ?e = "entered 1 (zero_regs\<lparr>r_eax := SYSCALL_CLOSE\<rparr>) example_kstate"
  have l: "1 < length (procs example_kstate)" by (simp add: example_kstate_def example_procs_def MAX_PROCESSES_def)
  have c: "current_process example_kstate = Some 1" by (simp add: example_kstate_def)
  have f: "p_filedesc (procs example_kstate ! 1) = replicate MAX_FDS 0"
    by (simp add: example_kstate_def example_procs_def MAX_PROCESSES_def zero_process_def)
  have "pmem (pgs example_kstate) = (\<lambda>_. 0)" "paging example_kstate = None" by (simp_all add: example_kstate_def)
  then have "arg ?r ?e 0 = Some (word32 [0, 0, 0, 0])"
    by (simp add: arg_def ptr_word_def vload32_def rd8_def phys_def entered_def)
  then have a: "arg ?r ?e 0 = Some 0" by (simp add: word32_def load32_def)
  have cu: "cur ?e = Some ((procs example_kstate ! 1)\<lparr>p_in_syscall := SYSCALL_CLOSE\<rparr>)"
    using l c by (simp add: cur_def get_proc_def entered_def)
  have "syscall_close 0 ?e = Some (- EBADF, ?e)"
    using cu f by (simp add: syscall_close_def bad_fd_def fd_get_def MAX_FDS_def)
  then have "syscall_switch ?r ?e = Some (- EBADF, ?r, ?e)"
    using a by (simp add: syscall_switch_def keep_def Let_def SYSCALL_GETPID_def SYSCALL_EXIT_def SYSCALL_WRITE_def SYSCALL_READ_def
      SYSCALL_GETERRNO_def SYSCALL_BRK_def SYSCALL_SEND_def SYSCALL_RECEIVE_def SYSCALL_CLOSE_def)
  from syscall_errno[OF c l _ this, of 0 0] show ?thesis
    using l c by (auto simp: SYSCALL_CLOSE_def SYSCALL_GETERRNO_def errno_defs entered_def)
qed

section \<open>From the key to the reader\<close>

text \<open>A process inside a call of \<open>read\<close> on a pipe, with valid arguments on its stack.\<close>

definition user_view :: "nat \<Rightarrow> kstate \<Rightarrow> kstate" where
  "user_view i st = st\<lparr>current_process := Some i, paging := Some (p_pdir (procs st ! i))\<rparr>"

definition in_read :: "kstate \<Rightarrow> nat \<Rightarrow> u32 \<Rightarrow> u32 \<Rightarrow> u32 \<Rightarrow> bool" where
  "in_read st i p buf count \<longleftrightarrow> (let q = procs st ! i; r = p_saved_regs q; u = user_view i st in
     p_in_syscall q \<noteq> 0 \<and> r_eax r = SYSCALL_READ \<and> arg r u 1 = Some buf \<and> arg r u 2 = Some count \<and> 0 < count \<and>
     valid_pointer u buf count = Some True \<and> paging_ok u \<and> (\<exists>pa. user_safe u buf [pa]) \<and>
     (\<exists>w fh. arg r u 0 = Some w \<and> 0 \<le> sint w \<and> sint w < int MAX_FDS \<and> length (p_filedesc q) = MAX_FDS \<and>
        p_filedesc q ! nat (sint w) \<noteq> 0 \<and> fhs st (p_filedesc q ! nat (sint w)) = Some fh \<and>
        fh_read fh = pipe_reader_read \<and> fh_p fh = Some p))"

lemma arg_frame:
  assumes "pgs st' = pgs st" "paging st' = paging st" shows "arg r st' n = arg r st n"
proof -
  have "rd8 st' = rd8 st" using read_bytes_frame(2)[OF assms] by (rule ext)
  then show ?thesis by (simp add: arg_def ptr_word_def)
qed

lemma valid_pointer_core:
  assumes "cur st' = Some q'" "cur st = Some q" "core q' = core (q\<lparr>p_in_syscall := n\<rparr>)"
  shows "valid_pointer st' a sz = valid_pointer st a sz"
  using core_fields(6-11)[OF assms(3)] assms(1,2) by (simp add: valid_pointer_def Let_def)

text \<open>A call of \<open>read\<close> that finds data in the pipe.\<close>

lemma read_call:
  assumes ok: "pipes_ok st" and b: "pipes st p = Some b" "pb_readpid b = - 1" and ct: "contents st p = [c]"
    and v: "valid_pointer st buf count = Some True" "0 < count" and us: "paging_ok st" "user_safe st buf [pa]"
    and q: "cur st = Some q" "0 \<le> fd" "fd < int MAX_FDS" "length (p_filedesc q) = MAX_FDS" "p_filedesc q ! nat fd \<noteq> 0"
    "fhs st (p_filedesc q ! nat fd) = Some fh" "fh_read fh = pipe_reader_read" "fh_p fh = Some p"
  obtains st' where "syscall_read fd buf count st = Some (1, st')" "contents st' p = []" "read_bytes st' buf 1 = Some [c]" "pipes_ok st'"
    "procs st' = procs st" "ready st' = ready st" "suspended st' = suspended st" "paging st' = paging st" "current_process st' = current_process st"
proof -
  have l: "unat (pb_len b) = 1" using length_contents[OF ok b(1)] ct by simp
  then have l0: "0 < pb_len b" by (metis gr0I unsigned_0 word_gt_0 zero_neq_one)
  have lp: "length [pa] = min (unat count) (unat (pb_len b))" using l v(2) by (simp add: word_less_nat_alt min_def)
  have n1: "1 \<le> unat count" using v(2) by (simp add: word_less_nat_alt)
  obtain st' where s: "pipe_reader_read_h fh buf count st = Some (sint (of_nat (length [pa]) :: u32), st')"
    "pipes_ok st'" "contents st' p = drop (unat count) (contents st p)" "\<forall>q. q \<noteq> p \<longrightarrow> contents st' q = contents st q"
    "pgs st' = (pgs st)\<lparr>pmem := lay (pmem (pgs st)) [pa] (take (unat count) (contents st p))\<rparr>"
    "read_bytes st' buf (length [pa]) = Some (take (unat count) (contents st p))"
    "procs st' = procs st" "ready st' = ready st" "suspended st' = suspended st" "paging st' = paging st"
    "current_process st' = current_process st" "fhs st' = fhs st"
    "\<exists>b'. pipes st' p = Some b' \<and> pb_readpid b' = - 1 \<and> pb_writing b' = pb_writing b \<and> pb_reading b' = pb_reading b"
    by (rule read_data_ok[OF ok b(1) q(8) b(2) l0 us lp])
  have nf: "nat fd < length (p_filedesc q)" using q(2,3,4) by simp
  have g: "fd_get fd st = Some (p_filedesc q ! nat fd)" using q(1) nf by (simp add: fd_get_def)
  have "syscall_read fd buf count st = Some (1, st')"
    using v(1) g q(2,3,5,6,7) s(1) by (simp add: syscall_read_def bad_fd_def get_fh_def)
  then show ?thesis using that[of st'] s ct n1 by simp
qed

text \<open>With nobody ready, the switch enters the call of the process that has just been woken.\<close>

lemma switch_into_call:
  assumes inv: "sched_inv st [i] ss" and c: "current_process st = None" and n: "p_in_syscall (procs st ! i) \<noteq> 0"
  shows "context_switch handler se ia r st = handler (p_saved_regs (procs st ! i)) (user_view i st)"
proof -
  note D = sched_invD[OF inv]
  have f: "pl_first (ready st) = Some i" using D(2) by (simp add: dlist_def)
  have i: "i < length (procs st)" using D(1) D(4)[of i] by simp
  show ?thesis using c f i n by (simp add: context_switch_def next_process_def get_proc_def enable_paging_def user_view_def Let_def)
qed

text \<open>The woken process makes its call again and gets the byte.\<close>

lemma woken_reader:
  assumes rd: "in_read st i p buf count" and inv: "sched_inv st [] ss" and i: "i \<in> set ss"
    and ok: "pipes_ok k" and b: "pipes k p = Some b" "pb_readpid b = - 1" and ct: "contents k p = [c]"
    and k: "map core (procs k) = map core (procs st)" "pgs k = pgs st" "fhs k = fhs st" "sched_inv k [i] ss'"
  obtains k' where "syscall se ia (p_saved_regs (procs st ! i)) (user_view i k) = Some ((p_saved_regs (procs st ! i))\<lparr>r_eax := 1\<rparr>, k')"
    "contents k' p = []" "read_bytes k' buf 1 = Some [c]" "sched_inv k' [i] ss'" "current_process k' = Some i" "pipes_ok k'"
    "p_in_syscall (procs k' ! i) = 0"
proof -
  let ?q = "procs st ! i" let ?r = "p_saved_regs ?q" and ?u = "user_view i k"
  let ?e = "entered i ?r ?u"
  have il: "i < length (procs st)" using sched_invD(1,5)[OF inv] i by auto
  have lk: "length (procs k) = length (procs st)" using k(1)[THEN arg_cong[where f = length]] by simp
  have co: "core (procs k ! i) = core ?q" using arg_cong[OF k(1), of "\<lambda>l. l ! i"] il lk by simp
  note cf = core_fields[OF co]
  obtain w fh pa where a: "arg ?r (user_view i st) 0 = Some w" "arg ?r (user_view i st) 1 = Some buf" "arg ?r (user_view i st) 2 = Some count" "0 < count"
    "valid_pointer (user_view i st) buf count = Some True" "paging_ok (user_view i st)" "user_safe (user_view i st) buf [pa]"
    "0 \<le> sint w" "sint w < int MAX_FDS" "length (p_filedesc ?q) = MAX_FDS" "p_filedesc ?q ! nat (sint w) \<noteq> 0"
    "fhs st (p_filedesc ?q ! nat (sint w)) = Some fh" "fh_read fh = pipe_reader_read" "fh_p fh = Some p" "r_eax ?r = SYSCALL_READ"
    using rd by (auto simp: in_read_def Let_def)
  have pe: "pgs ?e = pgs (user_view i st)" "paging ?e = paging (user_view i st)" by (simp_all add: entered_def user_view_def k(2) cf(3))
  note fr = read_bytes_frame[OF pe]
  have ce: "cur ?e = Some ((procs k ! i)\<lparr>p_in_syscall := SYSCALL_READ\<rparr>)" using il lk a(15) by (simp add: cur_def get_proc_def entered_def user_view_def)
  have cu: "cur (user_view i st) = Some ?q" using il by (simp add: cur_def get_proc_def user_view_def)
  have "core ((procs k ! i)\<lparr>p_in_syscall := SYSCALL_READ\<rparr>) = core (?q\<lparr>p_in_syscall := SYSCALL_READ\<rparr>)"
    using co by (cases "procs k ! i"; cases ?q) (simp add: core_def)
  then have v: "valid_pointer ?e buf count = Some True" using valid_pointer_core[OF ce cu] a(5) by simp
  have ek: "kernel_memarea ?e = kernel_memarea k" "pipes ?e = pipes k" "fhs ?e = fhs k" "bufs ?e = bufs k" "mboxes ?e = mboxes k"
    by (simp_all add: entered_def user_view_def)
  note po = pipes_ok_frame[OF ok ek]
  have us: "paging_ok ?e" "user_safe ?e buf [pa]" using fr(4,5) a(6,7) by simp_all
  have be: "pipes ?e p = Some b" "contents ?e p = [c]" using b(1) ek(2) po(2) ct by simp_all
  have fe: "length (p_filedesc ((procs k ! i)\<lparr>p_in_syscall := SYSCALL_READ\<rparr>)) = MAX_FDS"
    "p_filedesc ((procs k ! i)\<lparr>p_in_syscall := SYSCALL_READ\<rparr>) ! nat (sint w) \<noteq> 0"
    "fhs ?e (p_filedesc ((procs k ! i)\<lparr>p_in_syscall := SYSCALL_READ\<rparr>) ! nat (sint w)) = Some fh"
    using a(10-12) by (simp_all add: cf(5) ek(3) k(3))
  obtain s2 where s: "syscall_read (sint w) buf count ?e = Some (1, s2)" "contents s2 p = []" "read_bytes s2 buf 1 = Some [c]" "pipes_ok s2"
    "procs s2 = procs ?e" "ready s2 = ready ?e" "suspended s2 = suspended ?e" "paging s2 = paging ?e" "current_process s2 = current_process ?e"
    by (rule read_call[OF po(1) be(1) b(2) be(2) v a(4) us ce a(8,9) fe a(13,14)])
  have sw: "syscall_switch ?r ?e = Some (1, ?r, s2)"
    using s(1) a(1,2,3,15) arg_frame[OF pe] by (simp add: syscall_switch_def keep_def Let_def SYSCALL_GETPID_def SYSCALL_EXIT_def SYSCALL_WRITE_def SYSCALL_READ_def)
  have c2: "current_process s2 = Some i" "i < length (procs s2)" using s(5,9) il lk by (simp_all add: entered_def user_view_def)
  have res: "syscall se ia ?r ?u = Some (?r\<lparr>r_eax := of_int (if (1::int) < 0 then - 1 else 1)\<rparr>, left i (if (1::int) < 0 then - 1 else 0) s2)"
    by (rule syscall_result[OF _ _ _ sw _ c2]) (use il lk a(15) in \<open>simp_all add: user_view_def SYSCALL_READ_def SYSCALL_GETERRNO_def ESUSPEND_def\<close>)
  let ?k' = "left i 0 s2"
  have e': "kernel_memarea ?k' = kernel_memarea s2" "pipes ?k' = pipes s2" "fhs ?k' = fhs s2" "bufs ?k' = bufs s2" "mboxes ?k' = mboxes s2"
    "pgs ?k' = pgs s2" "paging ?k' = paging s2" by (simp_all add: left_def)
  have rb: "read_bytes ?k' buf 1 = Some [c]" unfolding read_bytes_frame(3)[OF e'(6,7)] by (rule s(3))
  have si: "sched_inv ?k' [i] ss'"
    by (rule sched_inv_cong[OF k(4)]) (use s(5,6,7) il lk in \<open>auto simp: left_def entered_def user_view_def nth_list_update alive_def\<close>)
  show ?thesis
    by (rule that[OF _ _ rb si]) (use res pipes_ok_frame[OF s(4) e'(1-5)] s(2) c2 in \<open>simp_all add: left_def\<close>)
qed

text \<open>C30: A key that gives a character, pressed while all processes wait: the character goes through the
  keyboard driver into the input pipe, the process that is blocked in a read of that pipe becomes
  ready and runs, its system call is made again, and it returns to user mode with the result 1 and
  exactly the typed character in its buffer; the pipe is empty again and the interrupt is
  acknowledged.\<close>

theorem keypress_reaches_reader:
  assumes "pipes_ok (kern m)" "sched_inv (kern m) [] ss" "i \<in> set ss" "current_process (kern m) = None"
    "input_pipe (kern m) = p" "p \<noteq> 0" "pipes (kern m) p = Some b" "pb_readpid b = int i" "contents (kern m) p = []"
    "in_read (kern m) i p buf count" "r_int_no r = INTERRUPT_KEYBOARD" "saw_break_code (keyb m) = 0"
    "key_event (ucast (io_in (ports m) (io_reads (ports m)) KEYBOARD_INPUT_PORT)) (abs_kbd (keyb m)) = Some (c, mods)" "c \<noteq> 0"
  shows "\<exists>m'. interrupt_handler se ia r m = Some (Returned ((p_saved_regs (procs (kern m) ! i))\<lparr>r_eax := 1\<rparr>) m') \<and>
    read_bytes (kern m') buf 1 = Some [c] \<and> contents (kern m') p = [] \<and> pipes_ok (kern m') \<and>
    current_process (kern m') = Some i \<and> sched_inv (kern m') [i] (remove1 i ss) \<and> abs_kbd (keyb m') = mods \<and>
    (\<exists>pre. io_out (ports m') = pre @ [(0x20, 0x20)])"
proof -
  let ?key = "io_in (ports m) (io_reads (ports m)) KEYBOARD_INPUT_PORT" and ?d1 = "snd (inb KEYBOARD_INPUT_PORT (ports m))"
  have k256: "(ucast ?key :: u32) < 256"
    using unsigned_less[of ?key, where 'a = nat] by (simp add: word_less_nat_alt unsigned_ucast_eq take_bit_eq_mod)
  obtain kb d2 where cv: "convert (ucast ?key) (keyb m) ?d1 = Some (ucast c, kb, d2)" "abs_kbd kb = mods"
    using convert_ok[OF k256 assms(12), of ?d1] assms(13) by auto
  have uu: "(ucast (ucast c :: u32) :: u8) = c" by (simp add: ucast_up_ucast_id is_up.rep_eq)
  have l0: "pb_len b = 0" using assms(9) length_contents[OF assms(1,7)] by (simp add: unsigned_eq_0_iff)
  have rdr: "reader_ok b ss" and nw: "unat (pb_len b) + length [c] < 2 ^ 32" and cg: "can_grow (kern m) b (length [c])"
    using assms(3,8) l0 pipes_okD(4)[OF assms(1,7)] by (auto simp: reader_ok_def can_grow_def word_le_nat_alt)
  obtain k1 where k1: "write_to_pipe p [c] (kern m) = Some k1" "pipes_ok k1" "contents k1 p = contents (kern m) p @ [c]"
    "\<forall>q. q \<noteq> p \<longrightarrow> contents k1 q = contents (kern m) q" "sched_inv k1 (woken b []) (still_suspended b ss)"
    "\<exists>b'. pipes k1 p = Some b' \<and> pb_readpid b' = - 1 \<and> pb_writing b' = pb_writing b \<and> pb_reading b' = pb_reading b \<and>
       unat (pb_len b') = unat (pb_len b) + length [c]"
    "pgs k1 = pgs (kern m)" "paging k1 = paging (kern m)" "current_process k1 = current_process (kern m)" "fhs k1 = fhs (kern m)"
    by (rule write_to_pipe_ok[OF assms(1,2,7) rdr nw cg])
  obtain b1 where b1: "pipes k1 p = Some b1" "pb_readpid b1 = - 1" using k1(6) by blast
  have inv1: "sched_inv k1 [i] (remove1 i ss)" using k1(5) assms(8) by (simp add: woken_def still_suspended_def)
  have mc: "map core (procs k1) = map core (procs (kern m))" by (rule write_to_pipe_core[OF assms(2,7) rdr k1(1)])
  have ct: "contents k1 p = [c]" using k1(3) assms(9) by simp
  obtain k' where k': "syscall se ia (p_saved_regs (procs (kern m) ! i)) (user_view i k1) = Some ((p_saved_regs (procs (kern m) ! i))\<lparr>r_eax := 1\<rparr>, k')"
    "contents k' p = []" "read_bytes k' buf 1 = Some [c]" "sched_inv k' [i] (remove1 i ss)" "current_process k' = Some i" "pipes_ok k'"
    "p_in_syscall (procs k' ! i) = 0"
    by (rule woken_reader[OF assms(10,2,3) k1(2) b1 ct mc k1(7,10) inv1])
  have il: "i < length (procs (kern m))" using sched_invD(1,5)[OF assms(2)] assms(3) by auto
  have lk: "length (procs k1) = length (procs (kern m))" using mc[THEN arg_cong[where f = length]] by simp
  have co: "core (procs k1 ! i) = core (procs (kern m) ! i)" using arg_cong[OF mc, of "\<lambda>l. l ! i"] il lk by simp
  have n: "p_in_syscall (procs k1 ! i) \<noteq> 0" using core_fields(4)[OF co] assms(10) by (simp add: in_read_def Let_def)
  have sw: "context_switch (syscall se ia) se ia r' k1 = Some ((p_saved_regs (procs (kern m) ! i))\<lparr>r_eax := 1\<rparr>, k')" for r'
    using switch_into_call[OF inv1 _ n, of "syscall se ia" se ia r'] k1(9) assms(4) core_fields(2)[OF co] k'(1) by simp
  let ?m' = "m\<lparr>kern := k', keyb := kb, ports := outb 0x20 0x20 d2\<rparr>"
  have kh: "keyboard_handler se ia r' m = Some ((p_saved_regs (procs (kern m) ! i))\<lparr>r_eax := 1\<rparr>, ?m')" for r'
    using cv(1) uu assms(5,6,14) k1(1) sw[of r'] by (simp add: keyboard_handler_def inb_def switch_process_def)
  then show ?thesis
    using assms(11) k' cv(2)
    by (simp add: interrupt_handler_def dispatch_def INTERRUPT_KEYBOARD_def INTERRUPT_TIMER_def end_of_interrupt_def outb_def)
qed

text \<open>
  The example: process 3 has one page of memory at 0x10000000, with a call of read(0, 0x10000100,
  10) on its stack, and waits for the keyboard.
\<close>

definition example_tables :: pages where
  "example_tables = set_entry 0x603000 3 10 (set_entry 0x603000 2 0x10000100 (set_entry 0x602000 0 0x603007 (set_entry 0x601000 64 0x602007
     \<lparr>page_end = PAGE_START, page_free = 0, npages = 0, pmem = (\<lambda>_. 0)\<rparr>)))"

lemma example_tables_get:
  assumes "page_aligned s" "j < 1024"
  shows "get_entry example_tables s j = (if s = 0x603000 \<and> j = 3 then 10 else if s = 0x603000 \<and> j = 2 then 0x10000100
     else if s = 0x602000 \<and> j = 0 then 0x603007 else if s = 0x601000 \<and> j = 64 then 0x602007 else 0)"
proof -
  have a: "page_aligned 0x603000" "page_aligned 0x602000" "page_aligned 0x601000" by (simp_all add: page_aligned_def)
  have z: "get_entry \<lparr>page_end = PAGE_START, page_free = 0, npages = 0, pmem = (\<lambda>_. 0)\<rparr> s j = 0" by (simp add: get_entry_def load32_def)
  show ?thesis unfolding example_tables_def using a assms z by (simp add: get_set_entry)
qed

definition example_blocked :: process where
  "example_blocked = zero_process\<lparr>p_pid := 3, p_exists := True, p_pdir := 0x601000, p_in_syscall := SYSCALL_READ,
     p_text_start := 0x10000000, p_text_end := 0x10001000, p_saved_regs := zero_regs\<lparr>r_eax := SYSCALL_READ, r_useresp := 0x10000000\<rparr>\<rparr>"

definition example_kbd :: kstate where
  "example_kbd = (case the (knew 32 example_pipe_state) of (h, st) \<Rightarrow> st\<lparr>fhs := [h \<mapsto> example_reader],
     pipes := (pipes st)(example_pipe \<mapsto> (the (pipes st example_pipe))\<lparr>pb_readpid := 3\<rparr>),
     procs := (replicate MAX_PROCESSES zero_process)[3 := example_blocked\<lparr>p_filedesc := (replicate MAX_FDS 0)[0 := h]\<rparr>],
     ready := \<lparr>pl_first = None, pl_last = None\<rparr>, suspended := \<lparr>pl_first = Some 3, pl_last = Some 3\<rparr>,
     current_process := None, input_pipe := example_pipe, pgs := example_tables\<rparr>)"

lemma example_kbd_eq:
  obtains h ma b where "example_kbd = example_pipe_state\<lparr>kernel_memarea := ma, fhs := [h \<mapsto> example_reader],
     pipes := (pipes example_pipe_state)(example_pipe \<mapsto> b\<lparr>pb_readpid := 3\<rparr>),
     procs := (replicate MAX_PROCESSES zero_process)[3 := example_blocked\<lparr>p_filedesc := (replicate MAX_FDS 0)[0 := h]\<rparr>],
     ready := \<lparr>pl_first = None, pl_last = None\<rparr>, suspended := \<lparr>pl_first = Some 3, pl_last = Some 3\<rparr>,
     current_process := None, input_pipe := example_pipe, pgs := example_tables\<rparr>" "h \<noteq> 0" "pipes example_pipe_state example_pipe = Some b"
    "pb_len b = 0" "pipes_ok example_kbd" "contents example_kbd example_pipe = []"
proof -
  let ?ma = "the (buddy_init 12 0x200000 (\<lambda>_. 0))"
  have "(case kmalloc ?ma 24 of None \<Rightarrow> False | Some (p, ma) \<Rightarrow> (case kmalloc ma BUFSIZE of None \<Rightarrow> False | Some (q, ma) \<Rightarrow> kmalloc ma 32 \<noteq> None))"
    by code_simp
  then have "knew 32 example_pipe_state \<noteq> None"
    by (auto simp: example_pipe_state_def new_pipe_def knew_def new_buf_def set_pipe_def example_kstate_def split: option.splits)
  then obtain h st where k: "knew 32 example_pipe_state = Some (h, st)" by auto
  have ok: "pipes_ok example_pipe_state" by (rule example_pipe_state_ok(1))
  then have hp: "heap_ok example_pipe_state" by (simp add: pipes_ok_def)
  obtain ma where m: "st = example_pipe_state\<lparr>kernel_memarea := ma\<rparr>" "kmalloc (kernel_memarea example_pipe_state) 32 = Some (h, ma)"
    "heap_ok st" "h \<notin> objs example_pipe_state" "h \<in> dom (allocated ma)" "h \<noteq> 0" by (rule knew_ok[OF hp k])
  obtain b where b: "pipes example_pipe_state example_pipe = Some b" "pb_len b = 0" using example_pipe_state_ok(4) by blast
  have f0: "fhs example_pipe_state = Map.empty"
  proof (rule new_pipe_ok[OF example_pipes_ok example_new_pipe])
    fix d ma B
    assume "example_pipe_state = example_kstate\<lparr>kernel_memarea := ma, pipes := (pipes example_kstate)(example_pipe \<mapsto> \<lparr>pb_reading = True,
      pb_writing = True, pb_alloc = BUFSIZE, pb_len = 0, pb_readpid = - 1, pb_data = d\<rparr>), bufs := B\<rparr>"
    from arg_cong[OF this, of fhs] show "fhs example_pipe_state = Map.empty" by (simp add: example_kstate_def)
  qed
  let ?st = "example_pipe_state\<lparr>kernel_memarea := ma, fhs := [h \<mapsto> example_reader],
     pipes := (pipes example_pipe_state)(example_pipe \<mapsto> b\<lparr>pb_readpid := 3\<rparr>),
     procs := (replicate MAX_PROCESSES zero_process)[3 := example_blocked\<lparr>p_filedesc := (replicate MAX_FDS 0)[0 := h]\<rparr>],
     ready := \<lparr>pl_first = None, pl_last = None\<rparr>, suspended := \<lparr>pl_first = Some 3, pl_last = Some 3\<rparr>,
     current_process := None, input_pipe := example_pipe, pgs := example_tables\<rparr>"
  have e: "example_kbd = ?st" unfolding example_kbd_def k m(1) by (simp add: b(1))
  have dm: "dom (pipes ?st) = dom (pipes example_pipe_state)" using b(1) by auto
  have "heap_ok ?st" using m(3-5) dm unfolding heap_ok_def objs_def m(1) by (auto simp: f0)
  then have "pipes_ok ?st" using ok b(1) unfolding pipes_ok_def by (auto split: if_splits)
  moreover have "contents ?st example_pipe = []" using b(2) by (simp add: contents_def)
  ultimately show ?thesis using that[OF e] m(6) b e by simp
qed

lemma example_page:
  assumes "paging st = Some 0x601000" "pgs st = example_tables" "off < 4096"
  shows "phys st (0x10000000 + off) = Some (0x603000 + off)"
proof -
  have u: "unat (0x10000000 + off) = 0x10000000 + unat off" using assms(3) by (simp add: unat_word_ariths word_less_nat_alt)
  have "(0x10000000 + unat off) mod 4096 = unat off" using assms(3) by (simp add: word_less_nat_alt mod_add_eq[symmetric])
  then have "unat ((0x10000000 + off) mod PAGE_SIZE) = unat off" by (simp add: PAGE_SIZE_def unat_mod u)
  then have "(0x10000000 + off) mod PAGE_SIZE = off" "0x10000000 + off - off = (0x10000000::u32)" by (simp_all only: unat_u32_inj) simp
  moreover have "lookup_page 0x601000 0x10000000 example_tables = Some (Some 0x603000)"
    by (simp add: lookup_page_def dirindex_def tblindex_def PAGE_SIZE_def example_tables_get page_aligned_def Let_def PAGE_PRESENT_def PAGE_ADDRESS_MASK_def)
  ultimately show ?thesis using assms by (simp add: phys_def)
qed

lemma example_arg:
  assumes "paging st = Some 0x601000" "pgs st = example_tables" "n < 3"
  shows "arg (zero_regs\<lparr>r_eax := SYSCALL_READ, r_useresp := 0x10000000\<rparr>) st n = Some (get_entry example_tables 0x603000 (of_nat n + 1))"
proof -
  have n: "n = 0 \<or> n = 1 \<or> n = 2" using assms(3) by auto
  note P = example_page[OF assms(1,2)]
  show ?thesis using n P[of 4] P[of 5] P[of 6] P[of 7] P[of 8] P[of 9] P[of 10] P[of 11] P[of 12] P[of 13] P[of 14] P[of 15]
    by (elim disjE) (simp_all add: arg_def ptr_word_def vload32_def rd8_def word32_def load32_def get_entry_def assms(2))
qed

lemma example_in_read: "in_read example_kbd 3 example_pipe 0x10000100 10" "sched_inv example_kbd [] [3]"
proof -
  obtain h ma b where e: "example_kbd = example_pipe_state\<lparr>kernel_memarea := ma, fhs := [h \<mapsto> example_reader],
     pipes := (pipes example_pipe_state)(example_pipe \<mapsto> b\<lparr>pb_readpid := 3\<rparr>),
     procs := (replicate MAX_PROCESSES zero_process)[3 := example_blocked\<lparr>p_filedesc := (replicate MAX_FDS 0)[0 := h]\<rparr>],
     ready := \<lparr>pl_first = None, pl_last = None\<rparr>, suspended := \<lparr>pl_first = Some 3, pl_last = Some 3\<rparr>,
     current_process := None, input_pipe := example_pipe, pgs := example_tables\<rparr>" "h \<noteq> 0" by (rule example_kbd_eq)
  have m: "3 < MAX_PROCESSES" by (simp add: MAX_PROCESSES_def)
  let ?q = "example_blocked\<lparr>p_filedesc := (replicate MAX_FDS 0)[0 := h]\<rparr>" and ?u = "user_view 3 example_kbd"
  let ?r = "zero_regs\<lparr>r_eax := SYSCALL_READ, r_useresp := 0x10000000\<rparr>"
  have q: "procs example_kbd ! 3 = ?q" "length (procs example_kbd) = MAX_PROCESSES" "fhs example_kbd h = Some example_reader" using m by (simp_all add: e(1))
  have u: "paging ?u = Some 0x601000" "pgs ?u = example_tables" "cur ?u = Some ?q"
    using q m by (simp_all add: user_view_def cur_def get_proc_def example_blocked_def) (simp add: e(1))
  have r: "p_saved_regs ?q = ?r" "p_in_syscall ?q = SYSCALL_READ" by (simp_all add: example_blocked_def)
  have a: "arg ?r ?u 0 = Some 0" "arg ?r ?u 1 = Some 0x10000100" "arg ?r ?u 2 = Some 10"
    using example_arg[OF u(1,2)] by (simp_all add: example_tables_get page_aligned_def)
  have v: "valid_pointer ?u 0x10000100 10 = Some True" using u(3) by (simp add: valid_pointer_def in_segment_def example_blocked_def Let_def)
  have pg: "paging_ok ?u" using u(1) by (simp add: paging_ok_def page_aligned_def)
  have tb: "tables example_tables 0x601000 \<subseteq> {0x602000}"
    by (auto simp: tables_def table_of_def example_tables_get page_aligned_def Let_def PAGE_ADDRESS_MASK_def split: if_splits)
  have us: "user_safe ?u 0x10000100 [0x603100]"
    using example_page[OF u(1,2), of "0x100"] tb by (auto simp: user_safe_def mapped_to_def table_pages_def u(1,2) page_of_def)
  have "length (p_filedesc ?q) = MAX_FDS" "p_filedesc ?q ! nat (sint (0::u32)) = h" by (simp_all add: MAX_FDS_def)
  then show "in_read example_kbd 3 example_pipe 0x10000100 10"
    unfolding in_read_def Let_def q(1) r using a v pg us q(3) e(2) by (auto simp: SYSCALL_READ_def MAX_FDS_def example_reader_def)
  have al: "alive (procs example_kbd ! i) = (i = 3)" "p_ready (procs example_kbd ! i) = False" "p_prev (procs example_kbd ! i) = None"
    "p_next (procs example_kbd ! i) = None" if "i < MAX_PROCESSES" for i
    using that m by (auto simp: e(1) nth_list_update alive_def zero_process_def example_blocked_def)
  have "set [3] = {i. i < MAX_PROCESSES \<and> alive (procs example_kbd ! i) \<and> \<not> p_ready (procs example_kbd ! i)}"
    "set [] = {i. i < MAX_PROCESSES \<and> alive (procs example_kbd ! i) \<and> p_ready (procs example_kbd ! i)}"
    using al m by auto
  then show "sched_inv example_kbd [] [3]"
    unfolding sched_inv_def using q(2) al[OF m] al(3,4) m by (simp add: dlist_def) (simp add: e(1))
qed

theorem keypress_reaches_reader_witness:
  "\<exists>m'. interrupt_handler 0 0 (zero_regs\<lparr>r_int_no := 33\<rparr>) (example_machine\<lparr>kern := example_kbd\<rparr>) =
     Some (Returned (zero_regs\<lparr>r_eax := 1, r_useresp := 0x10000000\<rparr>) m') \<and> read_bytes (kern m') 0x10000100 1 = Some [104] \<and>
     sched_inv (kern m') [3] []"
proof -
  let ?m = "example_machine\<lparr>kern := example_kbd\<rparr>"
  obtain h ma b where e: "example_kbd = example_pipe_state\<lparr>kernel_memarea := ma, fhs := [h \<mapsto> example_reader],
     pipes := (pipes example_pipe_state)(example_pipe \<mapsto> b\<lparr>pb_readpid := 3\<rparr>),
     procs := (replicate MAX_PROCESSES zero_process)[3 := example_blocked\<lparr>p_filedesc := (replicate MAX_FDS 0)[0 := h]\<rparr>],
     ready := \<lparr>pl_first = None, pl_last = None\<rparr>, suspended := \<lparr>pl_first = Some 3, pl_last = Some 3\<rparr>,
     current_process := None, input_pipe := example_pipe, pgs := example_tables\<rparr>" "h \<noteq> 0" "pipes example_pipe_state example_pipe = Some b"
    "pb_len b = 0" "pipes_ok example_kbd" "contents example_kbd example_pipe = []" by (rule example_kbd_eq)
  have f: "current_process (kern ?m) = None" "input_pipe (kern ?m) = example_pipe" "pipes (kern ?m) example_pipe = Some (b\<lparr>pb_readpid := 3\<rparr>)"
    "p_saved_regs (procs (kern ?m) ! 3) = zero_regs\<lparr>r_eax := SYSCALL_READ, r_useresp := 0x10000000\<rparr>"
    by (simp_all add: e(1) example_blocked_def MAX_PROCESSES_def)
  have ne: "example_pipe \<noteq> 0" by (rule new_pipe_ok[OF example_pipes_ok example_new_pipe])
  have "map_option fst (key_event 0x23 (abs_kbd \<lparr>kbd_status = 0, saw_break_code = 0\<rparr>)) = Some 104" by code_simp
  then obtain md where k: "key_event 0x23 (abs_kbd \<lparr>kbd_status = 0, saw_break_code = 0\<rparr>) = Some (104, md)" by auto
  have ky: "key_event (ucast (io_in (ports ?m) (io_reads (ports ?m)) KEYBOARD_INPUT_PORT)) (abs_kbd (keyb ?m)) = Some (104, md)"
    using k by (simp add: example_machine_def)
  have p: "pipes_ok (kern ?m)" "sched_inv (kern ?m) [] [3]" "contents (kern ?m) example_pipe = []" "in_read (kern ?m) 3 example_pipe 0x10000100 10"
    "saw_break_code (keyb ?m) = 0" using e(5,6) example_in_read by (simp_all add: example_machine_def)
  have r: "r_int_no (zero_regs\<lparr>r_int_no := 33\<rparr>) = INTERRUPT_KEYBOARD" "3 \<in> set [3::nat]" "pb_readpid (b\<lparr>pb_readpid := 3\<rparr>) = int 3" "(104::u8) \<noteq> 0"
    by (simp_all add: INTERRUPT_KEYBOARD_def)
  from keypress_reaches_reader[OF p(1,2) r(2) f(1,2) ne f(3) r(3) p(3,4) r(1) p(5) ky r(4), of 0 0] show ?thesis
    unfolding f(4) by auto
qed

end
