(* ===== verification/Fstool.thy ===== *)
theory Fstool
  imports Filesystem Pipe
begin

text \<open>
  The tool that builds file system images on the host, fstool.c. The files of the host are a
  function from paths to nodes: what \<open>opendir\<close>, \<open>stat\<close> and \<open>read\<close> find there. Memory that
  the tool does not initialise is given by the parameter \<open>noise\<close>. The tool ends with an error
  message (the result \<open>None\<close>) when the host reports an error. Of the lines that it prints while it
  works, the paths are kept. The memory of the host does not run out.
\<close>

section \<open>The host\<close>

record hstat =
  st_size :: nat
  st_mode :: u32
  st_mtime :: u32

datatype hnode = HFile hstat "u8 list" | HDir hstat "u8 list list" | HOther hstat

type_synonym host = "u8 list \<Rightarrow> hnode option"

section \<open>Output\<close>

text \<open>The output buffer: \<open>o_data\<close> holds the \<open>size\<close> bytes in use of the \<open>alloc\<close> bytes.\<close>

record outbuffer =
  o_alloc :: u32
  o_data :: "u8 list"

definition OUTPUT_INIT :: outbuffer where "OUTPUT_INIT = \<lparr>o_alloc = 1, o_data = []\<rparr>"

definition o_size :: "outbuffer \<Rightarrow> u32" where "o_size b = of_nat (length (o_data b))"

text \<open>The loop that doubles the allocation is the same as the one of pipes.\<close>

definition output_append :: "outbuffer \<Rightarrow> u8 list \<Rightarrow> outbuffer option" where
  "output_append b bs = do {
     let need = o_size b + of_nat (length bs);
     al \<leftarrow> (if need > o_alloc b then grow_alloc need (o_alloc b) else Some (o_alloc b));
     Some \<lparr>o_alloc = al, o_data = o_data b @ bs\<rparr> }"

text \<open>\<open>memcpy\<close> into the output.\<close>

definition output_put :: "outbuffer \<Rightarrow> nat \<Rightarrow> u8 list \<Rightarrow> outbuffer option" where
  "output_put b off bs = map_option (\<lambda>d. b\<lparr>o_data := d\<rparr>) (buf_put (o_data b) off bs)"

section \<open>Files\<close>

function copy_chunks :: "u8 list \<Rightarrow> outbuffer \<Rightarrow> outbuffer option" where
  "copy_chunks d out = (if d = [] then Some out else do {
     out1 \<leftarrow> output_append out (take 1024 d);
     copy_chunks (drop 1024 d) out1 })"
  by pat_completeness auto
termination by (relation "measure (\<lambda>(d, _). length d)") auto

declare copy_chunks.simps [simp del]

definition process_file :: "host \<Rightarrow> outbuffer \<Rightarrow> u8 list \<Rightarrow> outbuffer option" where
  "process_file host out path = (case host path of Some (HFile _ d) \<Rightarrow> copy_chunks d out | _ \<Rightarrow> None)"

definition ignore_file :: "u8 list \<Rightarrow> bool" where
  "ignore_file name \<longleftrightarrow> name = lit ''.'' \<or> name = lit ''..'' \<or> name = lit ''.svn''"

section \<open>Directories\<close>

record dirent =
  de_size :: u32
  de_type :: u32
  de_location :: u32
  de_mode :: u32
  de_mtime :: u32
  de_name :: "u8 list"

definition dirent_bytes :: "dirent \<Rightarrow> u8 list" where
  "dirent_bytes e = bytes32 (de_size e) @ bytes32 (de_type e) @ bytes32 (de_location e) @ bytes32 (de_mode e) @ bytes32 (de_mtime e) @ de_name e"

definition directory_bytes :: "dirent list \<Rightarrow> u8 list" where
  "directory_bytes es = bytes32 (of_nat (length es)) @ concat (map dirent_bytes es)"

text \<open>\<open>snprintf(fullpath, PATH_MAX, "%s/%s", path, name)\<close>, with the host's limit of 4096.\<close>

definition full_path :: "u8 list \<Rightarrow> u8 list \<Rightarrow> u8 list" where
  "full_path path name = take 4095 (path @ lit ''/'' @ name)"

text \<open>
  \<open>strncpy\<close> writes 255 bytes, so the last byte of the name keeps what the memory held.
\<close>

definition entry_name :: "u8 \<Rightarrow> u8 list \<Rightarrow> u8 list" where
  "entry_name j name = take 255 (name @ replicate 255 0) @ [j]"

definition stat_entry :: "u8 \<Rightarrow> u8 list \<Rightarrow> hnode \<Rightarrow> dirent option" where
  "stat_entry j name n = (case n of
       HFile s _ \<Rightarrow> Some \<lparr>de_size = of_nat (st_size s), de_type = TYPE_FILE, de_location = 0, de_mode = st_mode s, de_mtime = st_mtime s,
                          de_name = entry_name j name\<rparr>
     | HDir s _ \<Rightarrow> Some \<lparr>de_size = of_nat (st_size s), de_type = TYPE_DIR, de_location = 0, de_mode = st_mode s, de_mtime = st_mtime s,
                          de_name = entry_name j name\<rparr>
     | HOther s \<Rightarrow> None)"

text \<open>The loop over \<open>readdir\<close>.\<close>

primrec read_entries :: "host \<Rightarrow> (nat \<Rightarrow> u8) \<Rightarrow> u8 list \<Rightarrow> u8 list list \<Rightarrow> dirent list \<Rightarrow> dirent list option" where
  "read_entries host noise path [] es = Some es"
| "read_entries host noise path (n # ns) es = (if ignore_file n then read_entries host noise path ns es
     else do {
       node \<leftarrow> host (full_path path n);
       case stat_entry (noise (length es)) n node of
         Some e \<Rightarrow> read_entries host noise path ns (es @ [e])
       | None \<Rightarrow> read_entries host noise path ns es })"

text \<open>The name of an entry as a C string; it must end within the structure.\<close>

definition c_string :: "u8 list \<Rightarrow> u8 list option" where
  "c_string bs = (if 0 \<in> set bs then Some (takeWhile (\<lambda>c. c \<noteq> 0) bs) else None)"

text \<open>
  The loop over the entries, which writes their contents and notes where they are; \<open>rec\<close> stands for
  \<open>process_dir\<close>. The state has the output and the printed paths.
\<close>

primrec write_entries :: "(u8 list \<Rightarrow> outbuffer \<times> u8 list list \<Rightarrow> (outbuffer \<times> u8 list list) option) \<Rightarrow> host \<Rightarrow> u8 list \<Rightarrow> dirent list \<Rightarrow>
    outbuffer \<times> u8 list list \<Rightarrow> (dirent list \<times> outbuffer \<times> u8 list list) option" where
  "write_entries rec host path [] st = Some ([], st)"
| "write_entries rec host path (e # es) st = do {
     name \<leftarrow> c_string (de_name e);
     let full = full_path path name;
     let (out, printed) = st;
     let e1 = e\<lparr>de_location := o_size out\<rparr>;
     st1 \<leftarrow> (if de_type e = TYPE_DIR then rec full (out, printed @ [full])
             else map_option (\<lambda>o1. (o1, printed @ [full])) (process_file host out full));
     (es1, st2) \<leftarrow> write_entries rec host path es st1;
     Some (e1 # es1, st2) }"

lemma mono_bind_prod:
  assumes "mono_option A" "\<And>y z. mono_option (\<lambda>f. B f y z)"
  shows "mono_option (\<lambda>f. A f \<bind> (\<lambda>(y, z). B f y z))"
  by (rule bind_mono[OF assms(1)]) (use assms(2) in \<open>auto simp: case_prod_unfold\<close>)

lemma write_entries_mono [partial_function_mono]:
  assumes "\<And>p st. mono_option (\<lambda>f. H f p st)"
  shows "mono_option (\<lambda>f. write_entries (H f) host path es st)"
proof (induction es arbitrary: st)
  case Nil
  show ?case by (simp only: write_entries.simps) (rule partial_function_mono)
next
  case (Cons e es)
  obtain out printed where st: "st = (out, printed)" by (cases st)
  show ?case
    unfolding write_entries.simps Let_def st prod.case
    by (intro mono_bind_prod partial_function_mono Cons assms)
qed

partial_function (option) process_dir :: "host \<Rightarrow> (u32 \<Rightarrow> nat \<Rightarrow> u8) \<Rightarrow> u8 list \<Rightarrow> outbuffer \<times> u8 list list \<Rightarrow> (outbuffer \<times> u8 list list) option" where
  "process_dir host noise path st = (case host path of
       Some (HDir s names) \<Rightarrow> do {
         es \<leftarrow> read_entries host (noise (o_size (fst st))) path names [];
         let diroffset = length (o_data (fst st));
         out1 \<leftarrow> output_append (fst st) (directory_bytes es);
         r \<leftarrow> write_entries (process_dir host noise) host path es (out1, snd st);
         out3 \<leftarrow> output_put (fst (snd r)) diroffset (directory_bytes (fst r));
         Some (out3, snd (snd r)) }
     | _ \<Rightarrow> None)"
declare process_dir.simps [code]

section \<open>The commands\<close>

text \<open>
  \<open>fstool -build\<close>. The root entry is written before \<open>root.size\<close> is set, and its mode, its time and
  the end of its name are not initialised.
\<close>

definition noise_word :: "(nat \<Rightarrow> u8) \<Rightarrow> nat \<Rightarrow> u32" where
  "noise_word noise i = ucast (noise i) + push_bit 8 (ucast (noise (i + 1))) + push_bit 16 (ucast (noise (i + 2))) + push_bit 24 (ucast (noise (i + 3)))"

definition root_entry :: "(nat \<Rightarrow> u8) \<Rightarrow> dirent" where
  "root_entry noise = \<lparr>de_size = 0, de_type = TYPE_DIR, de_location = ENTRY_SIZE, de_mode = noise_word noise 0, de_mtime = noise_word noise 4,
     de_name = lit ''ROOT'' @ [0] @ map noise [8..<259]\<rparr>"

definition fstool_build :: "host \<Rightarrow> (u32 \<Rightarrow> nat \<Rightarrow> u8) \<Rightarrow> u8 list \<Rightarrow> (u8 list \<times> u8 list list) option" where
  "fstool_build host noise dir = do {
     out \<leftarrow> output_append OUTPUT_INIT (dirent_bytes (root_entry (noise 0)));
     (out1, printed) \<leftarrow> process_dir host noise dir (out, []);
     Some (o_data out1, printed) }"

text \<open>\<open>getdir\<close> and \<open>getfile\<close>, on the image in memory.\<close>

definition getdir :: "vmem \<Rightarrow> u32 \<Rightarrow> cptr \<Rightarrow> (int \<times> u32) option" where
  "getdir m data path = do {
     (r, e) \<leftarrow> get_directory_entry m data path;
     if 0 > r then Some (r, e)
     else do { t \<leftarrow> ent_type m e; Some (if TYPE_DIR \<noteq> t then - ENOTDIR else 0, e) } }"

definition getfile :: "vmem \<Rightarrow> u32 \<Rightarrow> cptr \<Rightarrow> (int \<times> u32) option" where
  "getfile m data path = do {
     (r, e) \<leftarrow> get_directory_entry m data path;
     if 0 > r then Some (r, e)
     else do { t \<leftarrow> ent_type m e; Some (if TYPE_FILE \<noteq> t then - EISDIR else 0, e) } }"

end
