(* ===== verification/Fstool_Correct.thy ===== *)
theory Fstool_Correct
  imports Fstool Filesystem_Correct Pipe_Correct
begin

text \<open>
  An image that fstool builds from a directory of the host represents that directory: what the
  kernel finds in the image is what the host has at the path.
\<close>

section \<open>Directories of the host as trees\<close>

definition name_ok :: "u8 list \<Rightarrow> bool" where
  "name_ok n \<longleftrightarrow> length n \<le> 254 \<and> 0 \<notin> set n"

abbreviation sub_path :: "u8 list \<Rightarrow> u8 list \<Rightarrow> u8 list" where "sub_path path n \<equiv> path @ lit ''/'' @ n"

text \<open>Devices, sockets and the like and the ignored names are not part of the tree.\<close>

definition kept :: "host \<Rightarrow> u8 list \<Rightarrow> u8 list \<Rightarrow> bool" where
  "kept host path n \<longleftrightarrow> \<not> ignore_file n \<and> (\<forall>s. host (sub_path path n) \<noteq> Some (HOther s))"

inductive host_tree :: "host \<Rightarrow> u8 list \<Rightarrow> fsnode \<Rightarrow> bool" for host where
  host_file: "\<lbrakk> host path = Some (HFile s d); st_size s = length d \<rbrakk> \<Longrightarrow> host_tree host path (FFile d)"
| host_dir: "\<lbrakk> host path = Some (HDir s names); map fst es = filter (kept host path) names;
     \<forall>n \<in> set names. length (sub_path path n) \<le> 4095 \<and> (\<not> ignore_file n \<longrightarrow> host (sub_path path n) \<noteq> None);
     \<forall>i < length es. name_ok (fst (es ! i)) \<and> host_tree host (sub_path path (fst (es ! i))) (snd (es ! i)) \<rbrakk> \<Longrightarrow> host_tree host path (FDir es)"

inductive_cases host_fileE: "host_tree host path (FFile d)"
inductive_cases host_dirE: "host_tree host path (FDir es)"

primrec img_size :: "fsnode \<Rightarrow> nat" where
  "img_size (FFile d) = length d"
| "img_size (FDir es) = 4 + 276 * length es + sum_list (map snd (map (map_prod id img_size) es))"

section \<open>Nodes in an image\<close>

definition matches :: "dirent \<Rightarrow> u8 list \<times> fsnode \<Rightarrow> bool" where
  "matches e x \<longleftrightarrow> name_ok (fst x) \<and> (\<exists>j. de_name e = entry_name j (fst x)) \<and>
     (case snd x of FFile d \<Rightarrow> de_type e = TYPE_FILE \<and> de_size e = of_nat (length d) | FDir _ \<Rightarrow> de_type e = TYPE_DIR)"

text \<open>\<open>stored k img loc n\<close>: the contents of \<open>n\<close> are at \<open>loc\<close>, and all that belongs to it at or after \<open>k\<close>.\<close>

inductive stored :: "nat \<Rightarrow> u8 list \<Rightarrow> nat \<Rightarrow> fsnode \<Rightarrow> bool" for k img where
  stored_file: "\<lbrakk> k \<le> loc; loc + length d \<le> length img; take (length d) (drop loc img) = d \<rbrakk> \<Longrightarrow> stored k img loc (FFile d)"
| stored_dir: "\<lbrakk> k \<le> loc; length ds = length es; loc + 4 + 276 * length es \<le> length img;
     take (4 + 276 * length es) (drop loc img) = directory_bytes ds;
     \<forall>i < length es. matches (ds ! i) (es ! i) \<and> stored k img (unat (de_location (ds ! i))) (snd (es ! i)) \<rbrakk> \<Longrightarrow> stored k img loc (FDir es)"

lemma take_drop_cong:
  assumes "\<forall>i. k \<le> i \<and> i < length img \<longrightarrow> img' ! i = img ! i" "length img \<le> length img'" "k \<le> off" "off + n \<le> length img"
  shows "take n (drop off img') = take n (drop off img)"
  using assms by (intro nth_equalityI) auto

lemma stored_mono:
  assumes "stored k img loc n" "\<forall>i. k \<le> i \<and> i < length img \<longrightarrow> img' ! i = img ! i" "length img \<le> length img'" "k' \<le> k"
  shows "stored k' img' loc n"
  using assms(1)
proof (induction rule: stored.induct)
  case (stored_file loc d)
  then show ?case using assms(2-4) take_drop_cong[OF assms(2,3), of loc "length d"] by (intro stored.stored_file) auto
next
  case (stored_dir loc ds es)
  have t: "take (4 + 276 * length es) (drop loc img') = directory_bytes ds"
    using take_drop_cong[OF assms(2,3) stored_dir.hyps(1), of "4 + 276 * length es"] stored_dir.hyps(3,4) by simp
  show ?case
    by (rule stored.stored_dir[OF _ stored_dir.hyps(2) _ t]) (use stored_dir.hyps(1,3) stored_dir.IH assms(3,4) in auto)
qed

section \<open>The output\<close>

lemma output_append_ok:
  assumes "0 < unat (o_alloc b)" "length (o_data b) + length bs \<le> 2 ^ 31"
  obtains al where "output_append b bs = Some \<lparr>o_alloc = al, o_data = o_data b @ bs\<rparr>" "0 < unat al"
proof -
  let ?need = "o_size b + of_nat (length bs)"
  have n: "?need = of_nat (length (o_data b) + length bs)" by (simp add: o_size_def)
  have u: "unat ?need \<le> 2 ^ 31" unfolding n using assms(2) by (simp add: unat_of_nat del: of_nat_add)
  show ?thesis
  proof (cases "?need > o_alloc b")
    case True
    obtain r where r: "grow_alloc ?need (o_alloc b) = Some r" using grow_alloc_returns[OF u assms(1)] by blast
    have "0 < unat r" using grow_alloc_ge[OF r] True assms(1) by (simp add: word_le_nat_alt word_less_nat_alt)
    then show ?thesis using that[of r] True r by (simp add: output_append_def)
  next
    case False
    then show ?thesis using that[of "o_alloc b"] assms(1) by (simp add: output_append_def)
  qed
qed

definition extends :: "outbuffer \<Rightarrow> outbuffer \<Rightarrow> fsnode \<Rightarrow> bool" where
  "extends out out' n \<longleftrightarrow> 0 < unat (o_alloc out') \<and> length (o_data out') = length (o_data out) + img_size n \<and>
     take (length (o_data out)) (o_data out') = o_data out \<and> stored (length (o_data out)) (o_data out') (length (o_data out)) n"

lemma copy_chunks_ok:
  assumes "0 < unat (o_alloc out)" "length (o_data out) + length d \<le> 2 ^ 31"
  shows "\<exists>al. copy_chunks d out = Some \<lparr>o_alloc = al, o_data = o_data out @ d\<rparr> \<and> 0 < unat al"
  using assms
proof (induction d out rule: copy_chunks.induct)
  case (1 d out)
  show ?case
  proof (cases "d = []")
    case True
    then show ?thesis using 1(2) by (cases out) (simp add: copy_chunks.simps)
  next
    case False
    obtain al where a: "output_append out (take 1024 d) = Some \<lparr>o_alloc = al, o_data = o_data out @ take 1024 d\<rparr>" "0 < unat al"
      by (rule output_append_ok[OF 1(2), of "take 1024 d"]) (use 1(3) in auto)
    have "length (o_data \<lparr>o_alloc = al, o_data = o_data out @ take 1024 d\<rparr>) + length (drop 1024 d) \<le> 2 ^ 31" using 1(3) by auto
    from 1(1)[OF False a(1) _ this] a(2) obtain al' where "copy_chunks (drop 1024 d) \<lparr>o_alloc = al, o_data = o_data out @ take 1024 d\<rparr> =
      Some \<lparr>o_alloc = al', o_data = o_data out @ d\<rparr>" "0 < unat al'" by auto
    then show ?thesis using False a(1) by (subst copy_chunks.simps) simp
  qed
qed

lemma process_file_ok:
  assumes "host_tree host path (FFile d)" "0 < unat (o_alloc out)" "length (o_data out) + length d \<le> 2 ^ 31"
  shows "\<exists>out'. process_file host out path = Some out' \<and> extends out out' (FFile d)"
proof -
  obtain al where "copy_chunks d out = Some \<lparr>o_alloc = al, o_data = o_data out @ d\<rparr>" "0 < unat al"
    using copy_chunks_ok[OF assms(2,3)] by blast
  moreover obtain s where "host path = Some (HFile s d)" using assms(1) by (rule host_fileE)
  moreover have "stored (length (o_data out)) (o_data out @ d) (length (o_data out)) (FFile d)" by (rule stored_file) auto
  ultimately show ?thesis by (simp add: process_file_def extends_def)
qed

section \<open>Entries\<close>

lemma entry_name_props:
  assumes "name_ok n"
  shows "length (entry_name j n) = 256" "c_string (entry_name j n) = Some n" "entry_name j n = n @ 0 # replicate (254 - length n) 0 @ [j]"
proof -
  have l: "length n \<le> 254" "0 \<notin> set n" using assms by (simp_all add: name_ok_def)
  have "255 - length n = Suc (254 - length n)" using l by simp
  then show e: "entry_name j n = n @ 0 # replicate (254 - length n) 0 @ [j]" using l by (simp add: entry_name_def)
  show "length (entry_name j n) = 256" using l by (simp add: e)
  have "takeWhile (\<lambda>c. c \<noteq> 0) (n @ 0 # replicate (254 - length n) 0 @ [j]) = n" using l(2) by (subst takeWhile_append2) auto
  then show "c_string (entry_name j n) = Some n" by (simp add: c_string_def e)
qed

lemma length_bytes32 [simp]: "length (bytes32 v) = 4" by (simp add: bytes32_def)

lemma length_dirent_bytes: "matches e x \<Longrightarrow> length (dirent_bytes e) = 276"
  using entry_name_props(1) by (auto simp: matches_def dirent_bytes_def)

lemma length_directory_bytes: "list_all2 matches ds es \<Longrightarrow> length (directory_bytes ds) = 4 + 276 * length es"
proof -
  assume a: "list_all2 matches ds es"
  then have "length (concat (map dirent_bytes ds)) = 276 * length es"
    by (induction rule: list_all2_induct) (simp_all add: length_dirent_bytes)
  then show ?thesis by (simp add: directory_bytes_def)
qed

lemma full_path_short: "length (sub_path path n) \<le> 4095 \<Longrightarrow> full_path path n = sub_path path n"
  by (simp add: full_path_def)

lemma read_entries_ok:
  assumes "\<forall>n \<in> set names. length (sub_path path n) \<le> 4095 \<and> (\<not> ignore_file n \<longrightarrow> host (sub_path path n) \<noteq> None)"
    "map fst es = filter (kept host path) names" "\<forall>x \<in> set es. name_ok (fst x) \<and> host_tree host (sub_path path (fst x)) (snd x)"
  shows "\<exists>ds. read_entries host nz path names acc = Some (acc @ ds) \<and> list_all2 matches ds es"
  using assms
proof (induction names arbitrary: es acc)
  case (Cons n names)
  have pl: "full_path path n = sub_path path n" using Cons.prems(1) by (intro full_path_short) simp
  have pr: "\<forall>n \<in> set names. length (sub_path path n) \<le> 4095 \<and> (\<not> ignore_file n \<longrightarrow> host (sub_path path n) \<noteq> None)" using Cons.prems(1) by simp
  show ?case
  proof (cases "kept host path n")
    case False
    then have es: "map fst es = filter (kept host path) names" using Cons.prems(2) by simp
    have "read_entries host nz path (n # names) acc = read_entries host nz path names acc"
      using False Cons.prems(1) pl by (auto simp: kept_def stat_entry_def split: hnode.splits)
    then show ?thesis using Cons.IH[OF pr es] Cons.prems(3) by simp
  next
    case True
    then obtain c es' where es: "es = (n, c) # es'" "map fst es' = filter (kept host path) names" using Cons.prems(2) by (cases es) auto
    have c: "name_ok n" "host_tree host (sub_path path n) c" using Cons.prems(3) by (simp_all add: es)
    have "\<exists>node e. host (sub_path path n) = Some node \<and> stat_entry (nz (length acc)) n node = Some e \<and> matches e (n, c)"
    proof (cases c)
      case (FFile d)
      then show ?thesis using c by (auto elim!: host_fileE simp: stat_entry_def matches_def)
    next
      case (FDir x)
      then show ?thesis using c by (auto elim!: host_dirE simp: stat_entry_def matches_def)
    qed
    then obtain node e where e: "host (sub_path path n) = Some node" "stat_entry (nz (length acc)) n node = Some e" "matches e (n, c)" by blast
    obtain ds where d: "read_entries host nz path names (acc @ [e]) = Some ((acc @ [e]) @ ds)" "list_all2 matches ds es'"
      using Cons.IH[OF pr es(2), of "acc @ [e]"] Cons.prems(3) by (auto simp: es(1))
    have "read_entries host nz path (n # names) acc = Some (acc @ (e # ds))" using True e(1,2) d(1) pl by (simp add: kept_def)
    then show ?thesis using d(2) e(3) es(1) by (intro exI[of _ "e # ds"]) simp
  qed
qed auto

section \<open>Building\<close>

text \<open>What the recursive call and the copying of files do for a child at \<open>full\<close>.\<close>

definition child_ok :: "(u8 list \<Rightarrow> outbuffer \<times> u8 list list \<Rightarrow> (outbuffer \<times> u8 list list) option) \<Rightarrow> host \<Rightarrow> u8 list \<Rightarrow> fsnode \<Rightarrow> bool" where
  "child_ok f host full c \<longleftrightarrow> (\<forall>out pr. 0 < unat (o_alloc out) \<and> length (o_data out) + img_size c \<le> 2 ^ 31 \<longrightarrow>
     (case c of FFile _ \<Rightarrow> \<exists>out'. process_file host out full = Some out' \<and> extends out out' c
      | FDir _ \<Rightarrow> \<exists>out' pr'. f full (out, pr) = Some (out', pr') \<and> extends out out' c))"

lemma nth_of_take: "take (length a) b = a \<Longrightarrow> i < length a \<Longrightarrow> b ! i = a ! i"
  by (metis nth_take)

lemma write_entries_ok:
  assumes "list_all2 matches ds es" "\<forall>x \<in> set es. length (sub_path path (fst x)) \<le> 4095 \<and> child_ok f host (sub_path path (fst x)) (snd x)"
    "0 < unat (o_alloc out)" "length (o_data out) + sum_list (map (\<lambda>x. img_size (snd x)) es) \<le> 2 ^ 31"
  shows "\<exists>ds' out' pr'. write_entries f host path ds (out, pr) = Some (ds', out', pr') \<and> 0 < unat (o_alloc out') \<and>
     length (o_data out') = length (o_data out) + sum_list (map (\<lambda>x. img_size (snd x)) es) \<and> take (length (o_data out)) (o_data out') = o_data out \<and>
     list_all2 (\<lambda>d x. matches d x \<and> stored (length (o_data out)) (o_data out') (unat (de_location d)) (snd x)) ds' es"
  using assms
proof (induction ds es arbitrary: out pr rule: list_all2_induct)
  case Nil
  then show ?case by simp
next
  case (Cons d ds x es)
  let ?n = "fst x" and ?c = "snd x" and ?L = "length (o_data out)"
  have m: "matches d x" by (rule Cons.hyps)
  then obtain j where nm: "name_ok ?n" "de_name d = entry_name j ?n" by (auto simp: matches_def)
  have cs: "c_string (de_name d) = Some ?n" using entry_name_props(2)[OF nm(1)] nm(2) by simp
  have fp: "full_path path ?n = sub_path path ?n" using Cons.prems(1) by (intro full_path_short) simp
  let ?full = "sub_path path ?n" and ?pr = "pr @ [sub_path path (fst x)]"
  have "child_ok f host ?full ?c" using Cons.prems(1) by simp
  moreover have "?L + img_size ?c \<le> 2 ^ 31" using Cons.prems(3) by simp
  ultimately have "\<exists>out1 pr1. (if de_type d = TYPE_DIR then f ?full (out, ?pr) else map_option (\<lambda>o1. (o1, ?pr)) (process_file host out ?full)) = Some (out1, pr1) \<and>
      extends out out1 ?c"
    using m Cons.prems(2) by (cases ?c) (auto simp: child_ok_def matches_def TYPE_DIR_def TYPE_FILE_def)
  then obtain out1 pr1 where o1: "(if de_type d = TYPE_DIR then f ?full (out, ?pr) else map_option (\<lambda>o1. (o1, ?pr)) (process_file host out ?full)) = Some (out1, pr1)"
    "extends out out1 ?c" by blast
  have x1: "0 < unat (o_alloc out1)" "length (o_data out1) = ?L + img_size ?c" "take ?L (o_data out1) = o_data out" "stored ?L (o_data out1) ?L ?c"
    using o1(2) by (simp_all add: extends_def)
  have le1: "length (o_data out1) + sum_list (map (\<lambda>x. img_size (snd x)) es) \<le> 2 ^ 31" using Cons.prems(3) x1(2) by simp
  obtain ds' out' pr' where w: "write_entries f host path ds (out1, pr1) = Some (ds', out', pr')" "0 < unat (o_alloc out')"
     "length (o_data out') = length (o_data out1) + sum_list (map (\<lambda>x. img_size (snd x)) es)" "take (length (o_data out1)) (o_data out') = o_data out1"
     "list_all2 (\<lambda>d x. matches d x \<and> stored (length (o_data out1)) (o_data out') (unat (de_location d)) (snd x)) ds' es"
    using Cons.IH[OF _ x1(1) le1, of pr1] Cons.prems(1) by auto
  let ?d = "d\<lparr>de_location := o_size out\<rparr>"
  have e: "write_entries f host path (d # ds) (out, pr) = Some (?d # ds', out', pr')" using cs fp o1(1) w(1) by simp
  have loc: "unat (de_location ?d) = ?L" using Cons.prems(3) by (simp add: o_size_def unat_of_nat)
  have ag: "\<forall>i. ?L \<le> i \<and> i < length (o_data out1) \<longrightarrow> o_data out' ! i = o_data out1 ! i" using nth_of_take[OF w(4)] by blast
  have st: "stored ?L (o_data out') ?L ?c" by (rule stored_mono[OF x1(4) ag]) (use w(3) in simp_all)
  have "list_all2 (\<lambda>d x. matches d x \<and> stored ?L (o_data out') (unat (de_location d)) (snd x)) ds' es"
    by (rule list_all2_mono[OF w(5)]) (use x1(2) in \<open>auto elim!: stored_mono\<close>)
  moreover have "matches ?d x" using m by (simp add: matches_def split: fsnode.splits)
  moreover have "take ?L (o_data out') = o_data out" using w(4) x1(2,3) by (metis le_add1 min.absorb1 take_take)
  ultimately show ?case using e w(2,3) x1(2) st loc by (intro exI[of _ "?d # ds'"] exI[of _ out'] exI[of _ pr']) simp
qed

lemma process_dir_ok:
  assumes "host_tree host path n"
  shows "child_ok (process_dir host noise) host path n"
  using assms
proof (induction rule: host_tree.induct)
  case (host_file path s d)
  have "host_tree host path (FFile d)" using host_file by (intro host_tree.host_file)
  then show ?case using process_file_ok by (auto simp: child_ok_def)
next
  case (host_dir path s names es)
  show ?case unfolding child_ok_def fsnode.case
  proof (intro allI impI)
    fix out :: outbuffer and pr assume a: "0 < unat (o_alloc out) \<and> length (o_data out) + img_size (FDir es) \<le> 2 ^ 31"
    let ?L = "length (o_data out)" and ?k = "4 + 276 * length es"
    have sz: "img_size (FDir es) = ?k + sum_list (map (\<lambda>x. img_size (snd x)) es)" by (simp add: comp_def)
    have ch: "\<forall>x \<in> set es. name_ok (fst x) \<and> host_tree host (sub_path path (fst x)) (snd x) \<and> child_ok (process_dir host noise) host (sub_path path (fst x)) (snd x)"
      using host_dir.IH by (metis in_set_conv_nth)
    have ne: "fst x \<in> set names" if "x \<in> set es" for x
    proof -
      have "fst x \<in> set (filter (kept host path) names)" using that host_dir.hyps(2) by (metis image_eqI list.set_map)
      then show ?thesis by simp
    qed
    have "\<forall>x \<in> set es. name_ok (fst x) \<and> host_tree host (sub_path path (fst x)) (snd x)" using ch by blast
    from read_entries_ok[OF host_dir.hyps(3,2) this, of "noise (o_size out)" "[]"]
    obtain ds where ds: "read_entries host (noise (o_size out)) path names [] = Some ds" "list_all2 matches ds es" by auto
    have ld: "length (directory_bytes ds) = ?k" by (rule length_directory_bytes[OF ds(2)])
    have "?L + length (directory_bytes ds) \<le> 2 ^ 31" using a sz ld by simp
    with a obtain al where o1: "output_append out (directory_bytes ds) = Some \<lparr>o_alloc = al, o_data = o_data out @ directory_bytes ds\<rparr>" "0 < unat al"
      using output_append_ok by blast
    let ?o1 = "\<lparr>o_alloc = al, o_data = o_data out @ directory_bytes ds\<rparr>"
    have l1: "length (o_data ?o1) = ?L + ?k" using ld by simp
    have x2: "\<forall>x \<in> set es. length (sub_path path (fst x)) \<le> 4095 \<and> child_ok (process_dir host noise) host (sub_path path (fst x)) (snd x)"
      using ch ne host_dir.hyps(3) by blast
    have a1: "0 < unat (o_alloc ?o1)" "length (o_data ?o1) + sum_list (map (\<lambda>x. img_size (snd x)) es) \<le> 2 ^ 31" using o1(2) a sz l1 by simp_all
    obtain ds' out' pr' where w: "write_entries (process_dir host noise) host path ds (?o1, pr) = Some (ds', out', pr')" "0 < unat (o_alloc out')"
     "length (o_data out') = length (o_data ?o1) + sum_list (map (\<lambda>x. img_size (snd x)) es)" "take (length (o_data ?o1)) (o_data out') = o_data ?o1"
     "list_all2 (\<lambda>d x. matches d x \<and> stored (length (o_data ?o1)) (o_data out') (unat (de_location d)) (snd x)) ds' es"
      using write_entries_ok[OF ds(2) x2 a1, of pr] by blast
    have m': "list_all2 matches ds' es" by (rule list_all2_mono[OF w(5)]) simp
    have ld': "length (directory_bytes ds') = ?k" by (rule length_directory_bytes[OF m'])
    let ?D = "take ?L (o_data out') @ directory_bytes ds' @ drop (?L + ?k) (o_data out')"
    have lo: "length (o_data out') = ?L + ?k + sum_list (map (\<lambda>x. img_size (snd x)) es)" using w(3) l1 by simp
    have put: "output_put out' ?L (directory_bytes ds') = Some (out'\<lparr>o_data := ?D\<rparr>)" using lo ld' by (simp add: output_put_def buf_put_def)
    have lD: "length ?D = length (o_data out')" using lo ld' by simp
    have ag: "\<forall>i. ?L + ?k \<le> i \<and> i < length (o_data out') \<longrightarrow> ?D ! i = o_data out' ! i"
      using lo ld' by (auto simp: nth_append)
    have tk: "take ?L (o_data out') = o_data out" using w(4) l1 by (metis append_eq_conv_conj le_add1 min.absorb1 outbuffer.select_convs(2) take_take)
    have "stored ?L ?D ?L (FDir es)"
    proof (rule stored_dir[of _ _ ds'])
      show "length ds' = length es" by (rule list_all2_lengthD[OF m'])
      show "?L + 4 + 276 * length es \<le> length ?D" using lD lo by simp
      show "take ?k (drop ?L ?D) = directory_bytes ds'" using lo ld' by simp
      show "\<forall>i < length es. matches (ds' ! i) (es ! i) \<and> stored ?L ?D (unat (de_location (ds' ! i))) (snd (es ! i))"
      proof (intro allI impI)
        fix i assume i: "i < length es"
        have "i < length ds'" using i list_all2_lengthD[OF m'] by simp
        from list_all2_nthD[OF w(5) this] have s: "matches (ds' ! i) (es ! i)"
          "stored (?L + ?k) (o_data out') (unat (de_location (ds' ! i))) (snd (es ! i))" using l1 by simp_all
        show "matches (ds' ! i) (es ! i) \<and> stored ?L ?D (unat (de_location (ds' ! i))) (snd (es ! i))"
          using s(1) stored_mono[OF s(2) ag] lD by simp
      qed
    qed simp
    then have "extends out (out'\<lparr>o_data := ?D\<rparr>) (FDir es)" using w(2) lD lo sz tk by (simp add: extends_def)
    moreover have "process_dir host noise path (out, pr) = Some (out'\<lparr>o_data := ?D\<rparr>, pr')"
      using host_dir.hyps(1) ds(1) o1(1) w(1) put by (subst process_dir.simps) simp
    ultimately show "\<exists>out' pr'. process_dir host noise path (out, pr) = Some (out', pr') \<and> extends out out' (FDir es)" by blast
  qed
qed

section \<open>Reading the image\<close>

text \<open>The image in memory at \<open>fs\<close>.\<close>

definition loaded :: "vmem \<Rightarrow> u32 \<Rightarrow> u8 list \<Rightarrow> bool" where
  "loaded m fs img \<longleftrightarrow> unat fs + length img < 2 ^ 32 \<and> (\<forall>i < length img. m (fs + of_nat i) = Some (img ! i))"

lemma word32_bytes32: "word32 (bytes32 v) = v"
  using split_bytes[of v] by (simp add: word32_def bytes32_def load32_def)

lemma loaded_byte: "loaded m fs img \<Longrightarrow> i < length img \<Longrightarrow> m (fs + of_nat i) = Some (img ! i)"
  by (simp add: loaded_def)

lemma take_drop_nth: "take n (drop off img) = bs \<Longrightarrow> off + n \<le> length img \<Longrightarrow> i < n \<Longrightarrow> bs ! i = img ! (off + i)"
  by auto

lemma loaded_word:
  assumes "loaded m fs img" "off + 4 \<le> length img" "take 4 (drop off img) = bytes32 v"
  shows "vload32 m (fs + of_nat off) = Some v"
proof -
  have b: "m (fs + of_nat off + of_nat i) = Some (bytes32 v ! i)" if "i < 4" for i
    using loaded_byte[OF assms(1), of "off + i"] take_drop_nth[OF assms(3,2) that] assms(2) that by (simp add: add.assoc)
  have "[bytes32 v ! 0, bytes32 v ! 1, bytes32 v ! 2, bytes32 v ! 3] = bytes32 v" by (simp add: bytes32_def numeral_nat)
  then have w: "word32 [bytes32 v ! 0, bytes32 v ! 1, bytes32 v ! 2, bytes32 v ! 3] = v" using word32_bytes32[of v] by simp
  show ?thesis using b[of 0] b[of 1] b[of 2] b[of 3] w by (simp add: vload32_def del: One_nat_def)
qed

lemma loaded_entry:
  assumes ld: "loaded m fs img" and off: "off + 276 \<le> length img" "take 276 (drop off img) = dirent_bytes d"
  shows "ent_size m (fs + of_nat off) = Some (de_size d)" "ent_type m (fs + of_nat off) = Some (de_type d)"
    "ent_location m (fs + of_nat off) = Some (de_location d)"
    "length (de_name d) = 256 \<Longrightarrow> i < 256 \<Longrightarrow> ent_name m (fs + of_nat off) i = Some (de_name d ! i)"
    "ent_mode m (fs + of_nat off) = Some (de_mode d)"
proof -
  have sub: "take n (drop (off + k) img) = take n (drop k (dirent_bytes d))" if "k + n \<le> 276" for k n
    using that off by (simp add: off(2)[symmetric] drop_take add.commute min_absorb1)
  have w: "take 4 (drop (off + 0) img) = bytes32 (de_size d)" "take 4 (drop (off + 4) img) = bytes32 (de_type d)"
    "take 4 (drop (off + 8) img) = bytes32 (de_location d)" "take 4 (drop (off + 12) img) = bytes32 (de_mode d)"
    using sub[of 0 4] sub[of 4 4] sub[of 8 4] sub[of 12 4] by (simp_all add: dirent_bytes_def)
  show "ent_size m (fs + of_nat off) = Some (de_size d)" using loaded_word[OF ld _ w(1)] off(1) by (simp add: ent_size_def)
  have a: "fs + of_nat off + 4 = fs + of_nat (off + 4)" "fs + of_nat off + 8 = fs + of_nat (off + 8)" "fs + of_nat off + 12 = fs + of_nat (off + 12)" by simp_all
  show "ent_type m (fs + of_nat off) = Some (de_type d)" unfolding ent_type_def a using loaded_word[OF ld _ w(2)] off(1) by simp
  show "ent_location m (fs + of_nat off) = Some (de_location d)" unfolding ent_location_def a using loaded_word[OF ld _ w(3)] off(1) by simp
  show "ent_mode m (fs + of_nat off) = Some (de_mode d)" unfolding ent_mode_def a using loaded_word[OF ld _ w(4)] off(1) by simp
  show "ent_name m (fs + of_nat off) i = Some (de_name d ! i)" if "length (de_name d) = 256" "i < 256"
  proof -
    have "dirent_bytes d ! (20 + i) = de_name d ! i" by (simp add: dirent_bytes_def nth_append)
    then have "img ! (off + (20 + i)) = de_name d ! i" using take_drop_nth[OF off(2,1), of "20 + i"] that(2) by simp
    moreover have "fs + of_nat off + 20 + of_nat i = fs + of_nat (off + (20 + i))" by simp
    moreover have "m (fs + of_nat (off + (20 + i))) = Some (img ! (off + (20 + i)))" by (rule loaded_byte[OF ld]) (use off(1) that(2) in simp)
    ultimately show ?thesis unfolding ent_name_def mem_ptr_def by (simp only:)
  qed
qed

lemma str_at_cong: "str_at s i bs \<Longrightarrow> (\<And>k. k \<le> i + length bs \<Longrightarrow> s k = t k) \<Longrightarrow> str_at t i bs"
  by (induction bs arbitrary: i) auto

lemma loaded_name:
  assumes "loaded m fs img" "off + 276 \<le> length img" "take 276 (drop off img) = dirent_bytes d" "matches d x"
  shows "str_at (ent_name m (fs + of_nat off)) 0 (fst x)"
proof -
  obtain j where j: "name_ok (fst x)" "de_name d = entry_name j (fst x)" using assms(4) by (auto simp: matches_def)
  have l: "length (de_name d) = 256" using entry_name_props(1)[OF j(1)] j(2) by simp
  note b = loaded_entry(4)[OF assms(1-3) l]
  have "str_at (arr (de_name d)) 0 (fst x)"
    unfolding j(2) entry_name_props(3)[OF j(1)] using j(1) by (intro str_at_arr0) (simp add: name_ok_def)
  moreover have "arr (de_name d) i = ent_name m (fs + of_nat off) i" if "i < 256" for i using b[OF that] that l by (simp add: arr_def)
  moreover have "length (fst x) < 256" using j(1) by (simp add: name_ok_def)
  ultimately show ?thesis using str_at_cong[of "arr (de_name d)" 0 "fst x" "ent_name m (fs + of_nat off)"] by simp
qed

lemma directory_bytes_entry:
  assumes "list_all2 matches ds es" "i < length ds"
  shows "take 276 (drop (4 + 276 * i) (directory_bytes ds)) = dirent_bytes (ds ! i)"
proof -
  have "take 276 (drop (276 * i) (concat (map dirent_bytes ds))) = dirent_bytes (ds ! i)"
    using assms
  proof (induction arbitrary: i rule: list_all2_induct)
    case (Cons d ds x es)
    then show ?case by (cases i) (simp_all add: length_dirent_bytes)
  qed simp
  then show ?thesis by (simp add: directory_bytes_def)
qed

text \<open>An entry that describes a stored node represents it.\<close>

lemma stored_represents:
  assumes ld: "loaded m fs img" and "stored k img loc n"
    and e: "ent_location m e = Some l" "unat l = loc" "ent_size m e = Some sz" "ent_mode m e = Some md"
      "case n of FFile d \<Rightarrow> ent_type m e = Some TYPE_FILE \<and> ent_size m e = Some (of_nat (length d)) | FDir _ \<Rightarrow> ent_type m e = Some TYPE_DIR"
  shows "represents m fs e n"
  using assms(2-)
proof (induction arbitrary: e l sz md rule: stored.induct)
  case (stored_file loc d)
  have fl: "fs + l = fs + of_nat loc" using stored_file.prems(2) by auto
  have d: "loc + length d < 2 ^ 32" using stored_file.hyps(2) ld by (simp add: loaded_def)
  show ?case
  proof (rule is_file[of _ _ "of_nat (length d)"])
    show "\<forall>i < length d. m (fs + l + of_nat i) = Some (d ! i)"
    proof (intro allI impI)
      fix i assume i: "i < length d"
      have "d ! i = img ! (loc + i)" by (rule take_drop_nth[OF stored_file.hyps(3,2) i])
      moreover have "fs + l + of_nat i = fs + of_nat (loc + i)" unfolding fl by simp
      moreover have "m (fs + of_nat (loc + i)) = Some (img ! (loc + i))" by (rule loaded_byte[OF ld]) (use stored_file.hyps(2) i in simp)
      ultimately show "m (fs + l + of_nat i) = Some (d ! i)" by (simp only:)
    qed
  qed (use stored_file.prems d in \<open>auto simp: TYPE_FILE_def TYPE_DIR_def unat_of_nat\<close>)
next
  case (stored_dir loc ds es)
  let ?n = "length es"
  have m: "list_all2 matches ds es" using stored_dir.hyps(2) stored_dir.IH by (simp add: list_all2_conv_all_nth)
  have fl: "fs + l = fs + of_nat loc" using stored_dir.prems(2) by auto
  have c4: "take 4 (drop loc img) = bytes32 (of_nat ?n)"
  proof -
    have "take 4 (drop loc img) = take 4 (take (4 + 276 * ?n) (drop loc img))" by (simp add: min_def)
    then show ?thesis using stored_dir.hyps(2,4) by (simp add: directory_bytes_def)
  qed
  have cnt: "dir_count m (fs + l) = Some (of_nat ?n)" unfolding dir_count_def fl by (rule loaded_word[OF ld _ c4]) (use stored_dir.hyps(3) in simp)
  have n32: "loc + 4 + 276 * ?n < 2 ^ 32 - unat fs" using stored_dir.hyps(3) conjunct1[OF ld[unfolded loaded_def]] by linarith
  show ?case
  proof (rule is_dir[OF _ stored_dir.prems(3,1,4) cnt])
    show "ent_type m e = Some TYPE_DIR" using stored_dir.prems(5) by simp
    show "?n = unat (of_nat ?n :: u32)" using n32 by (simp add: unat_of_nat)
    show "\<forall>i < ?n. dir_entry (fs + l) i \<noteq> 0 \<and> str_at (ent_name m (dir_entry (fs + l) i)) 0 (fst (es ! i)) \<and> represents m fs (dir_entry (fs + l) i) (snd (es ! i))"
    proof (intro allI impI)
      fix i assume i: "i < ?n"
      let ?o = "loc + 4 + 276 * i"
      have a: "dir_entry (fs + l) i = fs + of_nat ?o" unfolding dir_entry_def fl by (simp add: ENTRY_SIZE_def MAX_FILENAME_LEN_def)
      have o: "?o + 276 \<le> length img" using stored_dir.hyps(3) i by simp
      have "take 276 (drop (4 + 276 * i) (take (4 + 276 * ?n) (drop loc img))) = take 276 (drop ?o img)"
      proof -
        have "min 276 (4 + 276 * ?n - (4 + 276 * i)) = 276" using i by simp
        moreover have "4 + 276 * i + loc = ?o" by simp
        ultimately show ?thesis unfolding drop_take take_take drop_drop by (simp only:)
      qed
      then have t: "take 276 (drop ?o img) = dirent_bytes (ds ! i)"
        using directory_bytes_entry[OF m, of i] i stored_dir.hyps(2,4) by simp
      note E = loaded_entry[OF ld o t]
      have mt: "matches (ds ! i) (es ! i)" using stored_dir.IH i by blast
      have "unat (fs + of_nat ?o) = unat fs + ?o" using n32 i by (simp add: unat_word_ariths unat_of_nat)
      then have "fs + of_nat ?o \<noteq> 0" by (metis add_is_0 unsigned_0 zero_neq_numeral)
      moreover have "represents m fs (fs + of_nat ?o) (snd (es ! i))"
      proof -
        have c: "case snd (es ! i) of FFile d \<Rightarrow> ent_type m (fs + of_nat ?o) = Some TYPE_FILE \<and> ent_size m (fs + of_nat ?o) = Some (of_nat (length d))
            | FDir _ \<Rightarrow> ent_type m (fs + of_nat ?o) = Some TYPE_DIR"
          using E(1,2) mt by (cases "snd (es ! i)") (simp_all add: matches_def)
        have "\<forall>e l sz md. ent_location m e = Some l \<longrightarrow> unat l = unat (de_location (ds ! i)) \<longrightarrow> ent_size m e = Some sz \<longrightarrow> ent_mode m e = Some md \<longrightarrow>
            (case snd (es ! i) of FFile d \<Rightarrow> ent_type m e = Some TYPE_FILE \<and> ent_size m e = Some (of_nat (length d)) | FDir _ \<Rightarrow> ent_type m e = Some TYPE_DIR) \<longrightarrow>
            represents m fs e (snd (es ! i))" using stored_dir.IH i by blast
        then show ?thesis using E(1,3,5) c by blast
      qed
      ultimately show "dir_entry (fs + l) i \<noteq> 0 \<and> str_at (ent_name m (dir_entry (fs + l) i)) 0 (fst (es ! i)) \<and> represents m fs (dir_entry (fs + l) i) (snd (es ! i))"
        unfolding a using loaded_name[OF ld o t mt] by simp
    qed
  qed
qed

section \<open>Properties of the tool\<close>

lemma build_ok:
  assumes t: "host_tree host dir (FDir es)" and sz: "276 + img_size (FDir es) \<le> 2 ^ 31"
  obtains img pr where "fstool_build host noise dir = Some (img, pr)" "length img = 276 + img_size (FDir es)"
    "\<forall>m fs. loaded m fs img \<longrightarrow> represents m fs fs (FDir es)"
proof -
  let ?root = "root_entry (noise 0)"
  have lr: "length (dirent_bytes ?root) = 276" by (simp add: dirent_bytes_def root_entry_def lit_def)
  obtain al where o: "output_append OUTPUT_INIT (dirent_bytes ?root) = Some \<lparr>o_alloc = al, o_data = dirent_bytes ?root\<rparr>" "0 < unat al"
    using output_append_ok[of OUTPUT_INIT "dirent_bytes ?root"] lr by (auto simp: OUTPUT_INIT_def)
  let ?o = "\<lparr>o_alloc = al, o_data = dirent_bytes ?root\<rparr>"
  have "length (o_data ?o) + img_size (FDir es) \<le> 2 ^ 31" "0 < unat (o_alloc ?o)" using sz lr o(2) by simp_all
  with process_dir_ok[OF t, of noise] obtain out' pr where p: "process_dir host noise dir (?o, []) = Some (out', pr)" "extends ?o out' (FDir es)"
    unfolding child_ok_def fsnode.case by blast
  have x: "length (o_data out') = 276 + img_size (FDir es)" "take 276 (o_data out') = dirent_bytes ?root" "stored 276 (o_data out') 276 (FDir es)"
    using p(2) lr by (simp_all add: extends_def)
  have b: "fstool_build host noise dir = Some (o_data out', pr)" using o(1) p(1) by (simp add: fstool_build_def)
  have "represents m fs fs (FDir es)" if ld: "loaded m fs (o_data out')" for m fs
  proof -
    have "0 + 276 \<le> length (o_data out')" "take 276 (drop 0 (o_data out')) = dirent_bytes ?root" using x by simp_all
    note E = loaded_entry(1,2,3,5)[OF ld this]
    have E': "ent_type m fs = Some TYPE_DIR" "ent_location m fs = Some ENTRY_SIZE" using E(2,3) by (simp_all add: root_entry_def)
    have "unat ENTRY_SIZE = 276" by (simp add: ENTRY_SIZE_def MAX_FILENAME_LEN_def)
    then show ?thesis using stored_represents[OF ld x(3) E'(2)] E(1,4) E'(1) by simp
  qed
  then show ?thesis using that[OF b x(1)] by blast
qed

text \<open>C36: What fstool builds, the kernel reads: for every directory of the host whose names have at most
  254 characters and whose image stays below 2 GB, fstool -build succeeds and writes an image of
  exactly the size of its entries and files, and on this image, loaded anywhere in memory,
  get_directory_entry finds for every path what the host directory has there, with the contents of
  its files, and reports -ENOENT for all other paths.\<close>

theorem fstool_image_readable:
  assumes "host_tree host dir (FDir es)" "276 + img_size (FDir es) \<le> 2 ^ 31"
  shows "\<exists>img pr. fstool_build host noise dir = Some (img, pr) \<and> length img = 276 + img_size (FDir es) \<and>
    (\<forall>m fs path p. loaded m fs img \<and> str_at path 0 p \<longrightarrow> (case path_find (FDir es) p of
        None \<Rightarrow> \<exists>e. get_directory_entry m fs path = Some (- ENOENT, e)
      | Some n \<Rightarrow> \<exists>e. get_directory_entry m fs path = Some (0, e) \<and> represents m fs e n))"
proof -
  obtain img pr where i: "fstool_build host noise dir = Some (img, pr)" "length img = 276 + img_size (FDir es)"
    "\<forall>m fs. loaded m fs img \<longrightarrow> represents m fs fs (FDir es)" by (rule build_ok[where noise = noise, OF assms])
  show ?thesis using i get_directory_entry_ok by blast
qed

text \<open>A directory with a file, a subdirectory with a file, and a device, which is left out.\<close>

definition example_host :: host where
  "example_host p = (let s = \<lparr>st_size = 2, st_mode = 0x1A4, st_mtime = 9\<rparr> in
     if p = lit ''d'' then Some (HDir s [lit ''.'', lit ''..'', lit ''tty'', lit ''a'', lit ''sub''])
     else if p = lit ''d/a'' then Some (HFile s [7, 8]) else if p = lit ''d/tty'' then Some (HOther s)
     else if p = lit ''d/sub'' then Some (HDir s [lit ''b'']) else if p = lit ''d/sub/b'' then Some (HFile (s\<lparr>st_size := 1\<rparr>) [9]) else None)"

lemma example_host_tree: "host_tree example_host (lit ''d'') (FDir [(lit ''a'', FFile [7, 8]), (lit ''sub'', FDir [(lit ''b'', FFile [9])])])"
proof -
  have h: "example_host (lit ''d'') = Some (HDir \<lparr>st_size = 2, st_mode = 0x1A4, st_mtime = 9\<rparr> [lit ''.'', lit ''..'', lit ''tty'', lit ''a'', lit ''sub''])"
    "example_host (sub_path (lit ''d'') (lit ''a'')) = Some (HFile \<lparr>st_size = 2, st_mode = 0x1A4, st_mtime = 9\<rparr> [7, 8])"
    "example_host (sub_path (lit ''d'') (lit ''sub'')) = Some (HDir \<lparr>st_size = 2, st_mode = 0x1A4, st_mtime = 9\<rparr> [lit ''b''])"
    "example_host (sub_path (sub_path (lit ''d'') (lit ''sub'')) (lit ''b'')) = Some (HFile \<lparr>st_size = 1, st_mode = 0x1A4, st_mtime = 9\<rparr> [9])"
    "example_host (sub_path (lit ''d'') (lit ''tty'')) = Some (HOther \<lparr>st_size = 2, st_mode = 0x1A4, st_mtime = 9\<rparr>)"
    by (simp_all add: example_host_def lit_def of_char_def Let_def)
  have ig: "ignore_file (lit ''.'')" "ignore_file (lit ''..'')" "\<not> ignore_file (lit ''tty'')" "\<not> ignore_file (lit ''a'')" "\<not> ignore_file (lit ''sub'')" "\<not> ignore_file (lit ''b'')"
    by (simp_all add: ignore_file_def lit_def of_char_def)
  have nm: "name_ok (lit ''a'')" "name_ok (lit ''sub'')" "name_ok (lit ''b'')" by (simp_all add: name_ok_def lit_def of_char_def)
  have ln: "length (lit s) = length s" for s by (simp add: lit_def)
  have f: "host_tree example_host (sub_path (lit ''d'') (lit ''a'')) (FFile [7, 8])" by (rule host_file[where host = example_host, OF h(2)]) simp
  have b: "host_tree example_host (sub_path (sub_path (lit ''d'') (lit ''sub'')) (lit ''b'')) (FFile [9])" by (rule host_file[where host = example_host, OF h(4)]) simp
  have d: "host_tree example_host (sub_path (lit ''d'') (lit ''sub'')) (FDir [(lit ''b'', FFile [9])])"
    by (rule host_dir[where host = example_host, OF h(3)]) (use h(4) ig b nm in \<open>simp_all add: kept_def ln\<close>)
  show ?thesis
    by (rule host_dir[where host = example_host, OF h(1)]) (use h ig f d nm in \<open>auto simp: kept_def ln less_Suc_eq\<close>)
qed

theorem fstool_image_readable_witness:
  "\<exists>img pr. fstool_build example_host (\<lambda>_ _. 0xAA) (lit ''d'') = Some (img, pr) \<and> length img = 276 + (4 + 2 * 276 + 2 + (4 + 276 + 1)) \<and>
    (\<exists>e. get_directory_entry (\<lambda>a. list_get img (unat (a - 0x100000))) 0x100000 (arr (lit ''/sub/b'' @ [0])) = Some (0, e) \<and>
       represents (\<lambda>a. list_get img (unat (a - 0x100000))) 0x100000 e (FFile [9]))"
proof -
  let ?es = "[(lit ''a'', FFile [7, 8]), (lit ''sub'', FDir [(lit ''b'', FFile [9])])]"
  have sz: "img_size (FDir ?es) = 4 + 2 * 276 + 2 + (4 + 276 + 1)" by simp
  obtain img pr where i: "fstool_build example_host (\<lambda>_ _. 0xAA) (lit ''d'') = Some (img, pr)" "length img = 276 + img_size (FDir ?es)"
    "\<forall>m fs path p. loaded m fs img \<and> str_at path 0 p \<longrightarrow> (case path_find (FDir ?es) p of
        None \<Rightarrow> \<exists>e. get_directory_entry m fs path = Some (- ENOENT, e)
      | Some n \<Rightarrow> \<exists>e. get_directory_entry m fs path = Some (0, e) \<and> represents m fs e n)"
    using fstool_image_readable[OF example_host_tree, of "\<lambda>_ _. 0xAA"] by (auto simp: sz)
  have ld: "loaded (\<lambda>a. list_get img (unat (a - 0x100000))) 0x100000 img" using i(2) by (auto simp: loaded_def sz unat_of_nat)
  have s: "str_at (arr (lit ''/sub/b'' @ [0])) 0 (lit ''/sub/b'')" by code_simp
  have p: "path_find (FDir ?es) (lit ''/sub/b'') = Some (FFile [9])" by (simp add: path_find_def lit_def of_char_def)
  have "\<exists>e. get_directory_entry (\<lambda>a. list_get img (unat (a - 0x100000))) 0x100000 (arr (lit ''/sub/b'' @ [0])) = Some (0, e) \<and>
       represents (\<lambda>a. list_get img (unat (a - 0x100000))) 0x100000 e (FFile [9])"
    using i(3)[rule_format, OF conjI[OF ld s]] p by simp
  then show ?thesis using i(1,2) by (simp add: sz)
qed

end
