(* ===== verification/Shell.thy ===== *)
theory Shell
  imports Libc Screen
begin

text \<open>
  The shells, dsh.c and sh.c. A shell is seen from the kernel as a sequence of system calls and
  library calls with an effect outside the process, an \<open>action list\<close>; what the calls return is
  given by the parameter \<open>os\<close>, a function of all actions so far. \<open>malloc\<close> is taken to succeed.
\<close>

section \<open>Splitting a command line\<close>

text \<open>
  The loop of \<open>parse_command\<close>, with \<open>k\<close> positions left. The result is the line with terminators
  after the tokens, and \<open>argv\<close> as offsets into it.
\<close>

primrec parse_loop :: "int \<Rightarrow> nat \<Rightarrow> u8 list \<Rightarrow> nat list \<Rightarrow> nat \<Rightarrow> nat \<Rightarrow> nat \<Rightarrow> (u8 list \<times> nat list) option" where
  "parse_loop mx len line argv start pos 0 = Some (line, argv)"
| "parse_loop mx len line argv start pos (Suc k) = do {
     c \<leftarrow> list_get line pos;
     if c = 10 \<or> c = 32 \<or> pos = len then do {
       line1 \<leftarrow> list_put line pos 0;
       let argv1 = (if pos > start \<and> int (length argv) + 1 < mx then argv @ [start] else argv);
       parse_loop mx len line1 argv1 (pos + 1) (pos + 1) k }
     else parse_loop mx len line argv start (pos + 1) k }"

definition parse_command :: "u8 list \<Rightarrow> int \<Rightarrow> (u8 list \<times> nat list) option" where
  "parse_command line mx = do {
     len \<leftarrow> strlen (arr line);
     parse_loop mx len line [] 0 0 (len + 1) }"

text \<open>The arguments as strings.\<close>

definition argv_strings :: "u8 list \<Rightarrow> nat list \<Rightarrow> u8 list list" where
  "argv_strings line offs = map (\<lambda>off. takeWhile (\<lambda>c. c \<noteq> 0) (drop off line)) offs"

section \<open>Actions\<close>

datatype parg = PNum int | PStr "u8 list"

datatype action =
    Printf string "parg list" | Perror "u8 list" | Puts string | Write_out "u8 list"
  | Chdir "u8 list" | Getcwd | Stat "u8 list" | Getpid
  | Fork | Execve "u8 list" "u8 list list" | Waitpid int | Exit int

record os =
  os_result :: "action list \<Rightarrow> int"       \<comment> \<open>the result of the last action\<close>
  os_path :: "action list \<Rightarrow> u8 list"     \<comment> \<open>the path that a successful \<open>getcwd\<close> gives\<close>

text \<open>After \<open>exit\<close> and after a successful \<open>execve\<close> the program does nothing more.\<close>

definition ended :: "os \<Rightarrow> action list \<Rightarrow> bool" where
  "ended os tr = (tr \<noteq> [] \<and> (case List.last tr of Exit n \<Rightarrow> True | Execve f a \<Rightarrow> os_result os tr \<ge> 0 | _ \<Rightarrow> False))"

definition perform :: "os \<Rightarrow> action list \<Rightarrow> action \<Rightarrow> action list" where
  "perform os tr a = (if ended os tr then tr else tr @ [a])"

definition MAX_ARGS :: nat where "MAX_ARGS = 32"
definition DEFAULT_PATH :: string where "DEFAULT_PATH = ''/bin''"

abbreviation nl :: string where "nl \<equiv> [CHR 0x0A]"

text \<open>The program is started in a child; the shell waits for it.\<close>

definition run_program :: "os \<Rightarrow> u8 list \<Rightarrow> u8 list list \<Rightarrow> action list \<Rightarrow> action list" where
  "run_program os filename argv tr = (let tr1 = perform os tr Fork; pid = os_result os tr1 in
     if 0 > pid then perform os tr1 (Perror (lit ''fork''))
     else if 0 = pid then perform os (perform os (perform os tr1 (Execve filename argv)) (Perror (lit ''execve''))) (Exit 1)
     else (let tr2 = perform os tr1 (Waitpid pid) in
       if 0 > os_result os tr2 then perform os tr2 (Perror (lit ''waitpid'')) else tr2))"

text \<open>The built-in commands, common to both shells.\<close>

definition builtin_cd :: "os \<Rightarrow> u8 list list \<Rightarrow> action list \<Rightarrow> action list" where
  "builtin_cd os argv tr = (if 2 > length argv then perform os tr (Printf (''Usage: cd <path>'' @ nl) [])
     else (let tr1 = perform os tr (Chdir (argv ! 1)) in if 0 > os_result os tr1 then perform os tr1 (Perror (argv ! 1)) else tr1))"

definition builtin_pwd :: "os \<Rightarrow> action list \<Rightarrow> action list" where
  "builtin_pwd os tr = (let tr1 = perform os tr Getcwd in
     if os_result os tr1 = 0 then perform os tr1 (Perror (lit ''getcwd''))
     else perform os tr1 (Printf (''%s'' @ nl) [PStr (os_path os tr1)]))"

definition run_command :: "os \<Rightarrow> u8 list list \<Rightarrow> action list \<Rightarrow> action list" where
  "run_command os argv tr = (let cmdpath = take 1023 (lit DEFAULT_PATH @ lit ''/'' @ argv ! 0); tr1 = perform os tr (Stat cmdpath) in
     if 0 = os_result os tr1 then run_program os cmdpath argv tr1
     else perform os tr1 (Printf (''%s: command not found'' @ nl) [PStr (argv ! 0)]))"

text \<open>
  The choice of the command, with \<open>vars\<close> the actions before a program is run; the flag of the
  result is \<open>*done\<close>.
\<close>

definition dispatch_command :: "os \<Rightarrow> (action list \<Rightarrow> action list) \<Rightarrow> u8 list list \<Rightarrow> action list \<Rightarrow> bool \<times> action list" where
  "dispatch_command os vars argv tr = (
     if argv = [] then (False, tr)
     else if argv ! 0 = lit ''cd'' then (False, builtin_cd os argv tr)
     else if argv ! 0 = lit ''pwd'' then (False, builtin_pwd os tr)
     else if argv ! 0 = lit ''exit'' then (True, tr)
     else (False, run_command os argv (vars tr)))"

section \<open>The lines of the debug shell\<close>

text \<open>
  \<open>rm_chars\<close>: a character is left out when it or its successor, but not both, is one of the
  characters of \<open>key\<close>.
\<close>

definition rm_found :: "u8 list \<Rightarrow> u8 list \<Rightarrow> nat \<Rightarrow> bool" where
  "rm_found src key i \<longleftrightarrow> (\<exists>k \<in> set key. (src ! i = k) \<noteq> ((src @ [0]) ! (i + 1) = k))"

definition rm_chars :: "u8 list \<Rightarrow> u8 list \<Rightarrow> u8 list" where
  "rm_chars src key = map (\<lambda>i. src ! i) (filter (\<lambda>i. \<not> rm_found src key i) [0..<length src])"

text \<open>
  \<open>rm_consecutive_chars\<close> compares each character of the string with the pointer \<open>key\<close> (not with the
  character it points to); \<open>addr\<close> is that pointer.
\<close>

function rm_pass :: "u32 \<Rightarrow> u8 list \<Rightarrow> nat \<Rightarrow> bool \<Rightarrow> u8 list \<Rightarrow> u8 list \<times> bool" where
  "rm_pass addr key i found dest = (if i < length dest then
     (if scast (dest ! i) = addr then rm_pass addr key (i + 1) True (rm_chars dest key)
      else rm_pass addr key (i + 1) found dest) else (dest, found))"
  by pat_completeness auto
termination
proof (relation "measure (\<lambda>(addr, key, i, found, dest). length dest - i)")
  have "length (rm_chars dest key) \<le> length dest" for dest key
    using length_filter_le[of "\<lambda>i. \<not> rm_found dest key i" "[0..<length dest]"] by (simp add: rm_chars_def)
  then show "((addr, key, i + 1, True, rm_chars dest key), addr, key, i, found, dest) \<in> measure (\<lambda>(addr, key, i, found, dest). length dest - i)"
    if "i < length dest" "scast (dest ! i) = addr" for addr :: u32 and key i found dest
    using that by (simp add: diff_less_mono2 le_less_trans) (meson diff_le_mono diff_less_mono2 le_less_trans lessI)
qed auto

declare rm_pass.simps [simp del]

partial_function (option) rm_consecutive_chars :: "u32 \<Rightarrow> u8 list \<Rightarrow> u8 list \<Rightarrow> u8 list option" where
  "rm_consecutive_chars addr key dest = (let (dest1, found) = rm_pass addr key 0 False dest in
     if found then rm_consecutive_chars addr key dest1 else Some dest1)"
declare rm_consecutive_chars.simps [code]

text \<open>The tokens that start with a dollar sign are reported.\<close>

definition shell_variable :: "os \<Rightarrow> u8 list \<Rightarrow> u8 list \<Rightarrow> action list \<Rightarrow> action list" where
  "shell_variable os line a tr = (if a \<noteq> [] \<and> hd a = of_char CHR ''$'' then
     (let tr1 = perform os tr (Printf ''SHELL VARIABLE DETECTED: %s'' [PStr a]) in
      if length a > 1 \<and> a ! 1 = of_char CHR ''$'' then (let tr2 = perform os tr1 Getpid in perform os tr2 (Printf ''%d'' [PNum (os_result os tr2)]))
      else if a = lit ''$line'' then perform os tr1 (Printf (''buf:%s'' @ nl) [PStr line])
      else if a = lit ''$PATH'' then perform os tr1 (Printf (''%s'' @ nl) [PStr (lit DEFAULT_PATH)]) else tr1)
     else tr)"

text \<open>
  \<open>process_line\<close> works on a copy of the line at offset \<open>start\<close> of the input; the result is the
  input afterwards (unchanged here), the flag \<open>done\<close>, and the actions.
\<close>

definition dsh_line :: "os \<Rightarrow> u32 \<Rightarrow> u8 list \<Rightarrow> action list \<Rightarrow> (bool \<times> action list) option" where
  "dsh_line os addr line0 tr = do {
     line \<leftarrow> rm_consecutive_chars addr [8] line0;
     (line1, offs) \<leftarrow> parse_command (line @ [0]) (int MAX_ARGS);
     let argv = argv_strings line1 offs;
     Some (dispatch_command os (fold (shell_variable os (takeWhile (\<lambda>c. c \<noteq> 0) line1)) argv) argv tr) }"

definition process_line :: "os \<Rightarrow> u32 \<Rightarrow> u8 list \<Rightarrow> nat \<Rightarrow> action list \<Rightarrow> (u8 list \<times> bool \<times> action list) option" where
  "process_line os addr inp start tr = do {
     len \<leftarrow> strlen (arr (drop start inp));
     r \<leftarrow> dsh_line os addr (take len (drop start inp)) tr;
     Some (inp, r) }"

text \<open>\<open>prompt(NULL, NULL)\<close>.\<close>

definition prompt :: "os \<Rightarrow> action list \<Rightarrow> action list" where
  "prompt os tr = (let tr1 = perform os tr Getcwd in
     if os_result os tr1 = 0 then perform os (perform os tr1 (Perror (lit ''getcwd''))) (Puts ''$ '')
     else perform os tr1 (Printf ''rmos:%s$ '' [PStr (os_path os tr1)]))"

section \<open>The lines of the shell\<close>

definition BUFSIZE_nat :: nat where "BUFSIZE_nat = 1024"

definition peek :: "u8 list \<Rightarrow> int \<Rightarrow> u8 option" where
  "peek inp i = (if i < 0 then None else list_get inp (nat i))"

text \<open>
  The two editing loops of \<open>process_line\<close> in sh.c; \<open>out\<close> are the bytes written to \<open>tline\<close> so far, a
  block of \<open>BUFSIZE\<close> bytes. The first steps back when two backspaces follow, the second steps over one.
\<close>

function edit_back :: "u8 list \<Rightarrow> int \<Rightarrow> int \<Rightarrow> int \<Rightarrow> u8 list \<Rightarrow> u8 list option" where
  "edit_back inp start len pos out = (if pos \<le> len then
     (if length out < BUFSIZE_nat then do {
        c1 \<leftarrow> peek inp (start + pos + 1);
        two \<leftarrow> (if c1 = BACKSPACE then do { c2 \<leftarrow> peek inp (start + pos + 2); Some (c2 = BACKSPACE) } else Some False);
        let pos1 = (if two then pos - 3 else pos);
        c \<leftarrow> peek inp (start + pos1);
        edit_back inp start len (pos1 + 1) (out @ [c]) }
      else None)
     else Some out)"
  by pat_completeness auto
termination by (relation "measure (\<lambda>(inp, start, len, pos, out). BUFSIZE_nat - length out)") auto

function edit_over :: "u8 list \<Rightarrow> int \<Rightarrow> int \<Rightarrow> int \<Rightarrow> u8 list \<Rightarrow> u8 list option" where
  "edit_over inp start len pos out = (if pos \<le> len then
     (if length out < BUFSIZE_nat then do {
        c1 \<leftarrow> peek inp (start + pos + 1);
        let pos1 = (if c1 = BACKSPACE then pos + 2 else pos);
        c \<leftarrow> peek inp (start + pos1);
        edit_over inp start len (pos1 + 1) (out @ [c]) }
      else None)
     else Some out)"
  by pat_completeness auto
termination by (relation "measure (\<lambda>(inp, start, len, pos, out). BUFSIZE_nat - length out)") auto

declare edit_back.simps [simp del] edit_over.simps [simp del]

text \<open>\<open>memset\<close> and \<open>memmove\<close> of the edited text over the line.\<close>

definition put_line :: "u8 list \<Rightarrow> nat \<Rightarrow> nat \<Rightarrow> u8 list \<Rightarrow> u8 list option" where
  "put_line inp start len bs = do {
     kassert (start + len \<le> length inp \<and> start + length bs \<le> length inp);
     let inp1 = take start inp @ replicate len 0 @ drop (start + len) inp;
     Some (take start inp1 @ bs @ drop (start + length bs) inp1) }"

definition sh_process_line :: "os \<Rightarrow> u8 list \<Rightarrow> nat \<Rightarrow> action list \<Rightarrow> (u8 list \<times> bool \<times> action list) option" where
  "sh_process_line os inp start tr = do {
     len \<leftarrow> strlen (arr (drop start inp));
     t1 \<leftarrow> edit_back inp (int start) (int len) 0 [];
     inp1 \<leftarrow> put_line inp start len t1;
     len1 \<leftarrow> strlen (arr (drop start inp1));
     t2 \<leftarrow> edit_over inp1 (int start) (int len1) 0 [];
     inp2 \<leftarrow> put_line inp1 start len1 t2;
     (line, offs) \<leftarrow> parse_command (drop start inp2) (int MAX_ARGS);
     Some (take start inp2 @ line, dispatch_command os (\<lambda>tr. tr) (argv_strings line offs) tr) }"

section \<open>The main loop\<close>

type_synonym line_proc = "u8 list \<Rightarrow> nat \<Rightarrow> action list \<Rightarrow> (u8 list \<times> bool \<times> action list) option"

record shell =
  sh_input :: "u8 list"
  sh_pos :: nat
  sh_linestart :: nat
  sh_done :: bool
  sh_trace :: "action list"

text \<open>
  One character of the scan for line ends; \<open>proc\<close> is the \<open>process_line\<close> of the shell and \<open>pr\<close> what
  it prints as its prompt.
\<close>

definition scan_char :: "line_proc \<Rightarrow> (action list \<Rightarrow> action list) \<Rightarrow> shell \<Rightarrow> shell option" where
  "scan_char proc pr s = do {
     c \<leftarrow> list_get (sh_input s) (sh_pos s);
     if c = 10 then do {
       inp \<leftarrow> list_put (sh_input s) (sh_pos s) 0;
       (inp1, d, tr) \<leftarrow> proc inp (sh_linestart s) (sh_trace s);
       Some (s\<lparr>sh_input := inp1, sh_done := sh_done s \<or> d, sh_trace := pr tr, sh_linestart := sh_pos s + 1, sh_pos := sh_pos s + 1\<rparr>) }
     else Some (s\<lparr>sh_pos := sh_pos s + 1\<rparr>) }"

primrec scan :: "line_proc \<Rightarrow> (action list \<Rightarrow> action list) \<Rightarrow> nat \<Rightarrow> shell \<Rightarrow> shell option" where
  "scan proc pr 0 s = Some s"
| "scan proc pr (Suc n) s = do { s1 \<leftarrow> scan_char proc pr s; scan proc pr n s1 }"

text \<open>One round, after \<open>read\<close> has returned the bytes \<open>bs\<close>; writes outside the array have no result.\<close>

definition shell_round :: "os \<Rightarrow> line_proc \<Rightarrow> (action list \<Rightarrow> action list) \<Rightarrow> u8 list \<Rightarrow> shell \<Rightarrow> shell option" where
  "shell_round os proc pr bs s = do {
     kassert (sh_pos s + length bs < length (sh_input s));
     let inp = take (sh_pos s) (sh_input s) @ bs @ [0] @ drop (sh_pos s + length bs + 1) (sh_input s);
     s1 \<leftarrow> scan proc pr (length bs) (s\<lparr>sh_input := inp, sh_trace := perform os (sh_trace s) (Write_out bs)\<rparr>);
     let n = sh_pos s1 - sh_linestart s1;
     let inp2 = take n (drop (sh_linestart s1) (sh_input s1)) @ drop n (sh_input s1);
     let s2 = s1\<lparr>sh_input := inp2, sh_pos := n, sh_linestart := 0\<rparr>;
     Some (if sh_pos s2 \<ge> BUFSIZE_nat then s2\<lparr>sh_trace := perform os (sh_trace s2) (Printf ''Line too long; ignored'' []), sh_pos := 0\<rparr> else s2) }"

text \<open>
  The loop ends when a command has ended the shell or \<open>read\<close> has returned \<open>r\<close>, which is 0 or less;
  the list holds what it has returned before.
\<close>

primrec shell_loop :: "os \<Rightarrow> line_proc \<Rightarrow> (action list \<Rightarrow> action list) \<Rightarrow> u8 list list \<Rightarrow> int \<Rightarrow> shell \<Rightarrow> shell option" where
  "shell_loop os proc pr [] r s = Some (if \<not> sh_done s \<and> 0 > r then s\<lparr>sh_trace := perform os (sh_trace s) (Perror (lit ''read''))\<rparr> else s)"
| "shell_loop os proc pr (bs # bss) r s = (if sh_done s then Some s else do { s1 \<leftarrow> shell_round os proc pr bs s; shell_loop os proc pr bss r s1 })"

definition dsh_main :: "os \<Rightarrow> u32 \<Rightarrow> u8 list \<Rightarrow> u8 list list \<Rightarrow> int \<Rightarrow> shell option" where
  "dsh_main os addr inp reads r = shell_loop os (process_line os addr) (prompt os) reads r
     \<lparr>sh_input = inp, sh_pos = 0, sh_linestart = 0, sh_done = False, 
      sh_trace = prompt os [Getpid, Printf (''Dubug Shell started, pid = %d'' @ nl) [PNum (os_result os [Getpid])]]\<rparr>"

definition sh_main :: "os \<Rightarrow> u8 list \<Rightarrow> u8 list list \<Rightarrow> int \<Rightarrow> shell option" where
  "sh_main os inp reads r = shell_loop os (sh_process_line os) (\<lambda>tr. perform os tr (Printf ''$ '' [])) reads r
     \<lparr>sh_input = inp, sh_pos = 0, sh_linestart = 0, sh_done = False, 
      sh_trace = [Getpid, Printf (''Shell started, pid = %d'' @ nl) [PNum (os_result os [Getpid])], Printf ''$ '' []]\<rparr>"

end
