(* ===== verification/Fstool_Shell.thy ===== *)
theory Fstool_Shell
  imports Fstool Shell Libc_Correct
begin

text \<open>
  The rest of fstool.c: the commands that read an image (\<open>-dump\<close>, \<open>-get\<close> and \<open>-shell\<close>) and the
  choice of the command. The tool runs on the host, whose \<open>PATH_MAX\<close> is 4096; what it prints is
  given as bytes, with the meaning that theory Libc_Correct gives to formats. The messages of the
  host's \<open>strerror\<close> (by the numbers of constants.h, which differ from those of the host), the address at which the image is read and the former contents of local arrays
  are parameters.
\<close>

section \<open>Reading an image\<close>

text \<open>
  \<open>read_file\<close>: the buffer has \<open>al\<close> bytes, of which those of \<open>buf\<close> are in use; a read must fit, and
  \<open>allocated\<close>, which is larger than \<open>size\<close>, must not leave the range of an \<open>int\<close>.
\<close>

function read_chunks :: "u8 list \<Rightarrow> u8 list \<Rightarrow> nat \<Rightarrow> u8 list option" where
  "read_chunks d buf al = (if d = [] then Some buf else do {
     kassert (length buf + length (take 1024 d) \<le> al);
     kassert (al + length (take 1024 d) < 2 ^ 31);
     read_chunks (drop 1024 d) (buf @ take 1024 d) (al + length (take 1024 d)) })"
  by pat_completeness auto
termination by (relation "measure (\<lambda>(d, _, _). length d)") auto

declare read_chunks.simps [simp del]

definition read_file :: "host \<Rightarrow> u8 list \<Rightarrow> u8 list option" where
  "read_file host filename = (case host filename of Some (HFile _ d) \<Rightarrow> read_chunks d [] 1024 | _ \<Rightarrow> None)"

text \<open>The image at address \<open>base\<close>.\<close>

definition image_at :: "u32 \<Rightarrow> u8 list \<Rightarrow> vmem" where
  "image_at base img = (\<lambda>a. list_get img (unat (a - base)))"

section \<open>Dump\<close>

text \<open>A line of the dump: whether the entry is a directory, its size and its path.\<close>

type_synonym dump_entry = "bool \<times> u32 \<times> u8 list"

definition dump_line :: "dump_entry \<Rightarrow> u8 list" where
  "dump_line = (\<lambda>(d, sz, path). (if d then lit ''D'' else lit ''F'') @ lit '' '' @ padded False 8 (signed_str sz) @ lit '' '' @ path @ lit nl)"

text \<open>The loop over the entries; \<open>rec\<close> stands for \<open>dump_dir\<close>, and \<open>k\<close> entries are left.\<close>

primrec dump_entries :: "(u8 list \<Rightarrow> u32 \<Rightarrow> dump_entry list option) \<Rightarrow> vmem \<Rightarrow> u8 list \<Rightarrow> u32 \<Rightarrow> nat \<Rightarrow> nat \<Rightarrow> dump_entry list option" where
  "dump_entries rec m path dir i 0 = Some []"
| "dump_entries rec m path dir i (Suc k) = do {
     name \<leftarrow> cstr_bytes (ent_name m (dir_entry dir i));
     let fullpath = full_path path name;
     t \<leftarrow> ent_type m (dir_entry dir i);
     sz \<leftarrow> ent_size m (dir_entry dir i);
     sub \<leftarrow> (if TYPE_DIR = t then rec fullpath (dir_entry dir i) else Some []);
     rest \<leftarrow> dump_entries rec m path dir (i + 1) k;
     Some ((TYPE_DIR = t, sz, fullpath) # sub @ rest) }"

lemma dump_entries_mono [partial_function_mono]:
  assumes "\<And>p e. mono_option (\<lambda>f. H f p e)"
  shows "mono_option (\<lambda>f. dump_entries (H f) m path dir i k)"
proof (induction k arbitrary: i)
  case 0
  show ?case by (simp only: dump_entries.simps) (rule partial_function_mono)
next
  case (Suc k)
  show ?case unfolding dump_entries.simps Let_def by (intro partial_function_mono assms Suc)
qed

partial_function (option) dump_dir :: "vmem \<Rightarrow> u32 \<Rightarrow> u8 list \<Rightarrow> u32 \<Rightarrow> dump_entry list option" where
  "dump_dir m data path entry = do {
     loc \<leftarrow> ent_location m entry;
     count \<leftarrow> dir_count m (data + loc);
     dump_entries (dump_dir m data) m path (data + loc) 0 (unat count) }"
declare dump_dir.simps [code]

definition dump_image :: "vmem \<Rightarrow> u32 \<Rightarrow> u8 list option" where
  "dump_image m data = do { ls \<leftarrow> dump_dir m data [] data; Some (concat (map dump_line ls)) }"

section \<open>The interactive shell\<close>

definition HOST_PATH_MAX :: nat where "HOST_PATH_MAX = 4096"

text \<open>The command \<open>ls\<close>: the ten characters of the mode, and one line per entry.\<close>

definition mode_string :: "u32 \<Rightarrow> u32 \<Rightarrow> u8 list" where
  "mode_string t md = (if TYPE_DIR = t then lit ''d'' else lit ''-'') @
     map (\<lambda>(b, c). if bit md b then of_char c else of_char CHR ''-'')
       [(8, CHR ''r''), (7, CHR ''w''), (6, CHR ''x''), (5, CHR ''r''), (4, CHR ''w''), (3, CHR ''x''), (2, CHR ''r''), (1, CHR ''w''), (0, CHR ''x'')]"

definition ls_line :: "u32 \<Rightarrow> u32 \<Rightarrow> u32 \<Rightarrow> u8 list \<Rightarrow> u8 list" where
  "ls_line t md sz name = mode_string t md @ lit '' '' @
     (if TYPE_DIR = t then lit ''DIR  '' @ padded False 8 (signed_str sz) @ lit '' '' @ name @ lit ''/'' @ lit nl
      else lit ''FILE '' @ padded False 8 (signed_str sz) @ lit '' '' @ name @ lit nl)"

primrec ls_entries :: "vmem \<Rightarrow> u32 \<Rightarrow> nat \<Rightarrow> nat \<Rightarrow> u8 list option" where
  "ls_entries m dir i 0 = Some []"
| "ls_entries m dir i (Suc k) = do {
     t \<leftarrow> ent_type m (dir_entry dir i);
     md \<leftarrow> ent_mode m (dir_entry dir i);
     sz \<leftarrow> ent_size m (dir_entry dir i);
     name \<leftarrow> cstr_bytes (ent_name m (dir_entry dir i));
     rest \<leftarrow> ls_entries m dir (i + 1) k;
     Some (ls_line t md sz name @ rest) }"

text \<open>The bytes that \<open>fwrite\<close> takes from memory.\<close>

primrec mem_bytes :: "vmem \<Rightarrow> u32 \<Rightarrow> nat \<Rightarrow> u8 list option" where
  "mem_bytes m a 0 = Some []"
| "mem_bytes m a (Suc n) = do { b \<leftarrow> m a; bs \<leftarrow> mem_bytes m (a + 1) n; Some (b # bs) }"

text \<open>
  One command. \<open>cwd\<close> and \<open>abspath\<close> are the arrays of these names; the result is whether the shell
  ends, what is printed, and the new \<open>cwd\<close>.
\<close>

definition ls_command :: "(int \<Rightarrow> u8 list) \<Rightarrow> vmem \<Rightarrow> u32 \<Rightarrow> u8 list \<Rightarrow> u8 list \<Rightarrow> u8 list list \<Rightarrow> u8 list option" where
  "ls_command host_strerror m data abspath cwd argv = do {
     abs1 \<leftarrow> (if 2 \<le> length argv then relative_to_absolute abspath (arr cwd) (arr (argv ! 1 @ [0])) HOST_PATH_MAX
              else map_option snd (snprintf abspath HOST_PATH_MAX (arr (lit ''%s'' @ [0])) [Str (arr cwd)]));
     (r, entry) \<leftarrow> getdir m data (arr abs1);
     if 0 > r then Some (host_strerror (- r) @ lit nl)
     else do {
       loc \<leftarrow> ent_location m entry;
       count \<leftarrow> dir_count m (data + loc);
       ls_entries m (data + loc) 0 (unat count) } }"

definition cat_command :: "(int \<Rightarrow> u8 list) \<Rightarrow> vmem \<Rightarrow> u32 \<Rightarrow> u8 list \<Rightarrow> u8 list \<Rightarrow> u8 list list \<Rightarrow> u8 list option" where
  "cat_command host_strerror m data abspath cwd argv = do {
     abs1 \<leftarrow> relative_to_absolute abspath (arr cwd) (arr (argv ! 1 @ [0])) HOST_PATH_MAX;
     (r, entry) \<leftarrow> getfile m data (arr abs1);
     if 0 > r then Some (host_strerror (- r) @ lit nl)
     else do {
       loc \<leftarrow> ent_location m entry;
       sz \<leftarrow> ent_size m entry;
       mem_bytes m (data + loc) (unat sz) } }"

definition cd_command :: "(int \<Rightarrow> u8 list) \<Rightarrow> vmem \<Rightarrow> u32 \<Rightarrow> u8 list \<Rightarrow> u8 list \<Rightarrow> u8 list list \<Rightarrow> (u8 list \<times> u8 list) option" where
  "cd_command host_strerror m data abspath cwd argv = do {
     abs1 \<leftarrow> relative_to_absolute abspath (arr cwd) (arr (argv ! 1 @ [0])) HOST_PATH_MAX;
     (r, entry) \<leftarrow> getdir m data (arr abs1);
     if 0 > r then Some (host_strerror (- r) @ lit nl, cwd)
     else do {
       (_, cwd1) \<leftarrow> snprintf cwd HOST_PATH_MAX (arr (lit ''%s'' @ [0])) [Str (arr abs1)];
       Some ([], cwd1) } }"

definition help_text :: "u8 list" where
  "help_text = lit (''Commands:'' @ nl) @ lit (''ls [path]  - list directory contents (or . if no path)'' @ nl) @
     lit (''cat <path> - display contents of a file'' @ nl) @ lit (''cd <path>  - change current working directory'' @ nl) @
     lit (''pwd        - print current working directory'' @ nl) @ lit (''q          - quit fstool'' @ nl)"

definition fs_command :: "(int \<Rightarrow> u8 list) \<Rightarrow> vmem \<Rightarrow> u32 \<Rightarrow> u8 list \<Rightarrow> u8 list \<Rightarrow> u8 list list \<Rightarrow> (bool \<times> u8 list \<times> u8 list) option" where
  "fs_command host_strerror m data abspath cwd argv = (let argc = length argv in
     if 1 \<le> argc \<and> argv ! 0 = lit ''ls'' then map_option (\<lambda>out. (False, out, cwd)) (ls_command host_strerror m data abspath cwd argv)
     else if 2 = argc \<and> argv ! 0 = lit ''cat'' then map_option (\<lambda>out. (False, out, cwd)) (cat_command host_strerror m data abspath cwd argv)
     else if 2 = argc \<and> argv ! 0 = lit ''cd'' then map_option (\<lambda>(out, cwd1). (False, out, cwd1)) (cd_command host_strerror m data abspath cwd argv)
     else if 1 = argc \<and> argv ! 0 = lit ''pwd'' then do { path \<leftarrow> cstr_bytes (arr cwd); Some (False, path @ lit nl, cwd) }
     else if 1 = argc \<and> argv ! 0 = lit ''q'' then Some (True, [], cwd)
     else if 1 = argc \<and> argv ! 0 = lit ''help'' then Some (False, help_text, cwd)
     else Some (False, lit (''Invalid command'' @ nl), cwd))"

definition fs_prompt :: "u8 list \<Rightarrow> u8 list option" where
  "fs_prompt cwd = do { path \<leftarrow> cstr_bytes (arr cwd); Some (path @ lit '' > '') }"

text \<open>
  The loop over the lines that \<open>fgets\<close> gives; \<open>junk\<close> has the former contents of \<open>abspath\<close> and, behind
  the terminator, of \<open>line\<close>.
\<close>

primrec fs_shell_loop :: "(int \<Rightarrow> u8 list) \<Rightarrow> vmem \<Rightarrow> u32 \<Rightarrow> (nat \<Rightarrow> u8 list) \<Rightarrow> u8 list \<Rightarrow> u8 list list \<Rightarrow> (u8 list \<times> u8 list) option" where
  "fs_shell_loop host_strerror m data old cwd [] = Some ([], cwd)"
| "fs_shell_loop host_strerror m data old cwd (line # lines) = do {
     (line1, offs) \<leftarrow> parse_command (line @ [0]) 8;
     (quit, out, cwd1) \<leftarrow> fs_command host_strerror m data (old (length lines)) cwd (argv_strings line1 offs);
     if quit then Some (out, cwd1)
     else do {
       p \<leftarrow> fs_prompt cwd1;
       (rest, cwd2) \<leftarrow> fs_shell_loop host_strerror m data old cwd1 lines;
       Some (out @ p @ rest, cwd2) } }"

definition fs_shell :: "(int \<Rightarrow> u8 list) \<Rightarrow> vmem \<Rightarrow> u32 \<Rightarrow> (nat \<Rightarrow> u8 list) \<Rightarrow> u8 list \<Rightarrow> u8 list list \<Rightarrow> (u8 list \<times> u8 list) option" where
  "fs_shell host_strerror m data old old_cwd lines = do {
     (_, cwd) \<leftarrow> snprintf old_cwd HOST_PATH_MAX (arr (lit ''/'' @ [0])) [];
     p \<leftarrow> fs_prompt cwd;
     (rest, cwd1) \<leftarrow> fs_shell_loop host_strerror m data old cwd lines;
     Some (p @ rest, cwd1) }"

section \<open>The command line\<close>

text \<open>What the tool leaves: an image with the paths printed while it was built, or printed bytes.\<close>

datatype tool_result = Built "u8 list" "u8 list list" | Printed "u8 list" | Usage

definition get_command :: "(int \<Rightarrow> u8 list) \<Rightarrow> vmem \<Rightarrow> u32 \<Rightarrow> u8 list \<Rightarrow> u8 list option" where
  "get_command host_strerror m data path = do {
     (r, entry) \<leftarrow> get_directory_entry m data (arr (path @ [0]));
     if 0 > r then Some (lit ''Error: '' @ host_strerror (- r) @ lit nl)
     else do {
       t \<leftarrow> ent_type m entry; sz \<leftarrow> ent_size m entry; loc \<leftarrow> ent_location m entry;
       Some (lit ''Type '' @ signed_str t @ lit '' Size '' @ signed_str sz @ lit '' Location '' @ signed_str loc @ lit nl) } }"

definition fstool_main :: "(int \<Rightarrow> u8 list) \<Rightarrow> host \<Rightarrow> (u32 \<Rightarrow> nat \<Rightarrow> u8) \<Rightarrow> u32 \<Rightarrow> (nat \<Rightarrow> u8 list) \<Rightarrow> u8 list \<Rightarrow> u8 list list \<Rightarrow> u8 list list \<Rightarrow> tool_result option" where
  "fstool_main host_strerror host noise base old old_cwd lines argv = (let argc = length argv in
     if argc = 4 \<and> argv ! 1 = lit ''-build'' then do { (img, printed) \<leftarrow> fstool_build host noise (argv ! 3); Some (Built img printed) }
     else if argc = 3 \<and> argv ! 1 = lit ''-dump'' then do { img \<leftarrow> read_file host (argv ! 2); out \<leftarrow> dump_image (image_at base img) base; Some (Printed out) }
     else if argc = 4 \<and> argv ! 1 = lit ''-get'' then do { img \<leftarrow> read_file host (argv ! 2); out \<leftarrow> get_command host_strerror (image_at base img) base (argv ! 3); Some (Printed out) }
     else if argc = 3 \<and> argv ! 1 = lit ''-shell'' then do {
       img \<leftarrow> read_file host (argv ! 2);
       (out, _) \<leftarrow> fs_shell host_strerror (image_at base img) base old old_cwd lines;
       Some (Printed out) }
     else Some Usage)"

end
