(* ===== verification/Fstool_Shell_Correct.thy ===== *)
theory Fstool_Shell_Correct
  imports Fstool_Shell Fstool_Correct Shell_Correct
begin

text \<open>
  The dump of an image lists the tree that the image represents, and the interactive shell of fstool
  answers as a shell that works on the tree.
\<close>

section \<open>The tree in the order of the dump\<close>

lemma child_smaller: "e \<in> set es \<Longrightarrow> size (snd e) < size (FDir es)"
  by (induction es) auto

function tree_walk :: "u8 list \<Rightarrow> fsnode \<Rightarrow> (u8 list \<times> fsnode) list" where
  "tree_walk path (FFile d) = []"
| "tree_walk path (FDir es) = concat (map (\<lambda>e. (sub_path path (fst e), snd e) # tree_walk (sub_path path (fst e)) (snd e)) es)"
  by pat_completeness auto
termination by (relation "measure (size o snd)") (auto dest: child_smaller)

fun is_directory :: "fsnode \<Rightarrow> bool" where
  "is_directory (FFile d) = False" | "is_directory (FDir es) = True"

text \<open>A line of the dump for a node at a path; the size of a directory is whatever the host gave.\<close>

definition line_for :: "dump_entry \<Rightarrow> u8 list \<times> fsnode \<Rightarrow> bool" where
  "line_for l x \<longleftrightarrow> fst l = is_directory (snd x) \<and> snd (snd l) = fst x \<and> (\<forall>d. snd x = FFile d \<longrightarrow> unat (fst (snd l)) = length d)"

text \<open>What the fields of an entry say of the node it represents.\<close>

lemma represents_fields:
  assumes "represents m fs e n"
  obtains sz loc md where "ent_type m e = Some (if is_directory n then TYPE_DIR else TYPE_FILE)" "ent_size m e = Some sz" "ent_location m e = Some loc"
    "ent_mode m e = Some md" "\<forall>d. n = FFile d \<longrightarrow> unat sz = length d"
  using assms by (cases rule: represents.cases) auto

lemma type_differs [simp]: "TYPE_DIR \<noteq> TYPE_FILE" "TYPE_FILE \<noteq> TYPE_DIR" by (simp_all add: TYPE_DIR_def TYPE_FILE_def)

text \<open>The entries from \<open>i\<close> on.\<close>

lemma dump_entries_ok:
  assumes ent: "\<forall>i < length es. str_at (ent_name m (dir_entry dir i)) 0 (fst (es ! i)) \<and> represents m fs (dir_entry dir i) (snd (es ! i))"
    and sub: "\<And>i es'. i < length es \<Longrightarrow> snd (es ! i) = FDir es' \<Longrightarrow> \<exists>ls. rec (sub_path path (fst (es ! i))) (dir_entry dir i) = Some ls \<and>
      list_all2 line_for ls (tree_walk (sub_path path (fst (es ! i))) (FDir es'))"
    and short: "\<forall>i < length es. length (sub_path path (fst (es ! i))) \<le> 4095" and k: "i + k = length es"
  shows "\<exists>ls. dump_entries rec m path dir i k = Some ls \<and> list_all2 line_for ls (tree_walk path (FDir (drop i es)))"
  using k
proof (induction k arbitrary: i)
  case (Suc k)
  let ?e = "es ! i" and ?p = "sub_path path (fst (es ! i))"
  have i: "i < length es" and d: "drop i es = ?e # drop (Suc i) es" using Suc.prems by (simp_all add: Cons_nth_drop_Suc)
  have name: "cstr_bytes (ent_name m (dir_entry dir i)) = Some (fst ?e)" using ent i by (blast intro: str_bytes)
  have full: "full_path path (fst ?e) = ?p" using short i by (simp add: full_path_short)
  have r: "represents m fs (dir_entry dir i) (snd ?e)" using ent i by blast
  obtain sz loc md where f: "ent_type m (dir_entry dir i) = Some (if is_directory (snd ?e) then TYPE_DIR else TYPE_FILE)" "ent_size m (dir_entry dir i) = Some sz"
    "\<forall>d. snd ?e = FFile d \<longrightarrow> unat sz = length d" by (rule represents_fields[OF r])
  obtain rest where rest: "dump_entries rec m path dir (Suc i) k = Some rest" "list_all2 line_for rest (tree_walk path (FDir (drop (Suc i) es)))"
    using Suc.IH[of "Suc i"] Suc.prems by auto
  have "\<exists>ls. (if is_directory (snd ?e) then rec ?p (dir_entry dir i) else Some []) = Some ls \<and> list_all2 line_for ls (tree_walk ?p (snd ?e))"
    using sub[OF i] by (cases "snd ?e") simp_all
  then obtain ls where ls: "(if is_directory (snd ?e) then rec ?p (dir_entry dir i) else Some []) = Some ls" "list_all2 line_for ls (tree_walk ?p (snd ?e))" by blast
  have "dump_entries rec m path dir i (Suc k) = Some ((is_directory (snd ?e), sz, ?p) # ls @ rest)"
    using name f(1,2) ls(1) rest(1) by (simp add: full split: if_splits)
  moreover have "line_for (is_directory (snd ?e), sz, ?p) (?p, snd ?e)" using f(3) by (simp add: line_for_def)
  ultimately show ?case using ls(2) rest(2) d by (simp add: list_all2_appendI)
qed simp

lemma tree_walk_child: "i < length es \<Longrightarrow> x \<in> set (tree_walk (sub_path path (fst (es ! i))) (snd (es ! i))) \<Longrightarrow> x \<in> set (tree_walk path (FDir es))"
  by (auto intro!: bexI[of _ "es ! i"])

lemma dump_dir_ok:
  assumes "represents m fs e n" "n = FDir es" "\<forall>x \<in> set (tree_walk path n). length (fst x) \<le> 4095"
  shows "\<exists>ls. dump_dir m fs path e = Some ls \<and> list_all2 line_for ls (tree_walk path n)"
  using assms
proof (induction arbitrary: es path rule: represents.induct)
  case (is_dir e sz loc md cnt es')
  have sub: "\<exists>ls. dump_dir m fs (sub_path path (fst (es' ! i))) (dir_entry (fs + loc) i) = Some ls \<and>
      list_all2 line_for ls (tree_walk (sub_path path (fst (es' ! i))) (FDir es2))" if i: "i < length es'" and n: "snd (es' ! i) = FDir es2" for i es2
  proof -
    have "\<forall>x \<in> set (tree_walk (sub_path path (fst (es' ! i))) (snd (es' ! i))). length (fst x) \<le> 4095"
      using is_dir.prems(2) tree_walk_child[OF i] by blast
    then show ?thesis using is_dir.IH i n by metis
  qed
  have ent: "\<forall>i < length es'. str_at (ent_name m (dir_entry (fs + loc) i)) 0 (fst (es' ! i)) \<and> represents m fs (dir_entry (fs + loc) i) (snd (es' ! i))"
    using is_dir.IH by blast
  have short: "\<forall>i < length es'. length (sub_path path (fst (es' ! i))) \<le> 4095"
    using is_dir.prems(2) by (auto simp del: length_append)
  obtain ls where ls: "dump_entries (dump_dir m fs) m path (fs + loc) 0 (length es') = Some ls" "list_all2 line_for ls (tree_walk path (FDir es'))"
    using dump_entries_ok[where rec = "dump_dir m fs" and i = 0 and k = "length es'", OF ent sub short] by auto
  have "dump_dir m fs path e = Some ls" using is_dir.hyps ls(1) by (subst dump_dir.simps) simp
  then show ?case using ls(2) by blast
qed simp

section \<open>Build and dump\<close>

lemma read_chunks_ok: "length buf + 1024 \<le> al \<Longrightarrow> al + length d < 2 ^ 31 \<Longrightarrow> read_chunks d buf al = Some (buf @ d)"
proof (induction d buf al rule: read_chunks.induct)
  case (1 d buf al)
  show ?case
  proof (cases "d = []")
    case False
    then have "read_chunks (drop 1024 d) (buf @ take 1024 d) (al + length (take 1024 d)) = Some ((buf @ take 1024 d) @ drop 1024 d)"
      using 1 by (simp add: min_def)
    then show ?thesis using 1(2,3) False by (subst read_chunks.simps) (simp add: min_def)
  qed (subst read_chunks.simps, simp)
qed

lemma read_file_ok: "host f = Some (HFile s d) \<Longrightarrow> length d + 1024 < 2 ^ 31 \<Longrightarrow> read_file host f = Some d"
  by (simp add: read_file_def read_chunks_ok)

lemma image_at_loaded: "unat base + length img < 2 ^ 32 \<Longrightarrow> loaded (image_at base img) base img"
  by (auto simp: loaded_def image_at_def unat_of_nat)

text \<open>Paths that are short on the host are short in the image.\<close>

lemma tree_walk_prefix: "tree_walk (pre @ path) n = map (\<lambda>(p, x). (pre @ p, x)) (tree_walk path n)"
proof (induction path n arbitrary: pre rule: tree_walk.induct)
  case (2 path es)
  have "tree_walk (pre @ sub_path path (fst e)) (snd e) = map (\<lambda>(p, x). (pre @ p, x)) (tree_walk (sub_path path (fst e)) (snd e))" if "e \<in> set es" for e
    using 2[OF that] .
  then show ?case by (simp add: map_concat o_def cong: map_cong)
qed simp

lemma host_tree_short: "host_tree host path n \<Longrightarrow> x \<in> set (tree_walk path n) \<Longrightarrow> length (fst x) \<le> 4095"
proof (induction arbitrary: x rule: host_tree.induct)
  case (host_dir path s names es)
  then obtain e where e: "e \<in> set es" "x = (sub_path path (fst e), snd e) \<or> x \<in> set (tree_walk (sub_path path (fst e)) (snd e))" by auto
  then obtain i where i: "i < length es" "e = es ! i" by (metis in_set_conv_nth)
  have "fst e \<in> set names" using e(1) host_dir.hyps(2) by (metis filter_is_subset image_eqI image_set subsetD)
  then show ?case using e(2) host_dir.hyps(3) host_dir.IH i by (metis fst_conv)
qed simp

text \<open>C37: Building an image and dumping it lists the host's directory: for every directory of the host whose
  names have at most 254 characters and whose image has less than 2147482624 bytes, so that the int that counts the bytes allocated by
  read_file does not overflow, fstool -build writes an image,
  and fstool -dump of the file that holds it terminates and prints one line for each file and
  directory below the root, in the order of the host's directories with every directory before its
  contents, with the right letter, the absolute path in the image, and the length of every file.\<close>

theorem fstool_dump_lists:
  assumes "host_tree host dir (FDir es)" "276 + img_size (FDir es) < 2147482624" "unat base < 2 ^ 31"
  shows "\<exists>img printed. fstool_main se host noise base old old_cwd lines [prog, lit ''-build'', f, dir] = Some (Built img printed) \<and>
     (\<forall>host' s. host' f = Some (HFile s img) \<longrightarrow> (\<exists>ls. fstool_main se host' noise base old old_cwd lines [prog, lit ''-dump'', f] =
        Some (Printed (concat (map dump_line ls))) \<and> list_all2 line_for ls (tree_walk [] (FDir es))))"
proof -
  have sz: "276 + img_size (FDir es) \<le> 2 ^ 31" using assms(2) by simp
  obtain img pr where i: "fstool_build host noise dir = Some (img, pr)" "length img = 276 + img_size (FDir es)"
    "\<forall>m fs. loaded m fs img \<longrightarrow> represents m fs fs (FDir es)" by (rule build_ok[where noise = noise, OF assms(1) sz])
  have len: "length img + 1024 < 2 ^ 31" using i(2) assms(2) by (simp del: img_size.simps)
  have ld: "loaded (image_at base img) base img" using i(2) sz assms(3) by (intro image_at_loaded) (simp del: img_size.simps)
  have "length (fst x) \<le> 4095" if x: "x \<in> set (tree_walk [] (FDir es))" for x
  proof -
    have "(dir @ fst x, snd x) \<in> set (tree_walk dir (FDir es))" using tree_walk_prefix[of dir "[]" "FDir es"] x by force
    from host_tree_short[OF assms(1) this] show ?thesis by simp
  qed
  then obtain ls where ls: "dump_dir (image_at base img) base [] base = Some ls" "list_all2 line_for ls (tree_walk [] (FDir es))"
    using dump_dir_ok[of _ base base "FDir es" es "[]"] i(3) ld by blast
  have "fstool_main se host noise base old old_cwd lines [prog, lit ''-build'', f, dir] = Some (Built img pr)" using i(1) by (simp add: fstool_main_def)
  moreover have "fstool_main se host' noise base old old_cwd lines [prog, lit ''-dump'', f] = Some (Printed (concat (map dump_line ls)))"
    if "host' f = Some (HFile s img)" for host' s
    using read_file_ok[where host = host', OF that len] ls(1) by (simp add: fstool_main_def dump_image_def)
  ultimately show ?thesis using ls(2) by blast
qed

theorem fstool_dump_lists_witness:
  "\<exists>img printed ls. fstool_main (\<lambda>_. []) example_host (\<lambda>_ _. 0xAA) 0x100000 (\<lambda>_. []) [] [] [[], lit ''-build'', lit ''i'', lit ''d''] = Some (Built img printed) \<and>
     fstool_main (\<lambda>_. []) [lit ''i'' \<mapsto> HFile \<lparr>st_size = 0, st_mode = 0, st_mtime = 0\<rparr> img] (\<lambda>_ _. 0xAA) 0x100000 (\<lambda>_. []) [] [] [[], lit ''-dump'', lit ''i''] =
       Some (Printed (concat (map dump_line ls))) \<and> map (snd o snd) ls = [lit ''/a'', lit ''/sub'', lit ''/sub/b''] \<and> map fst ls = [False, True, False]"
proof -
  let ?es = "[(lit ''a'', FFile [7, 8]), (lit ''sub'', FDir [(lit ''b'', FFile [9])])]"
  have sz: "276 + img_size (FDir ?es) < 2147482624" "unat (0x100000 :: u32) < 2 ^ 31" by simp_all
  let ?host = "\<lambda>img. [lit ''i'' \<mapsto> HFile \<lparr>st_size = 0, st_mode = 0, st_mtime = 0\<rparr> img]"
  obtain img pr where b: "fstool_main (\<lambda>_. []) example_host (\<lambda>_ _. 0xAA) 0x100000 (\<lambda>_. []) [] [] [[], lit ''-build'', lit ''i'', lit ''d''] = Some (Built img pr)"
    and a: "\<forall>host' s. host' (lit ''i'') = Some (HFile s img) \<longrightarrow> (\<exists>ls. fstool_main (\<lambda>_. []) host' (\<lambda>_ _. 0xAA) 0x100000 (\<lambda>_. []) [] [] [[], lit ''-dump'', lit ''i''] =
        Some (Printed (concat (map dump_line ls))) \<and> list_all2 line_for ls (tree_walk [] (FDir ?es)))"
    using fstool_dump_lists[OF example_host_tree sz, where se = "\<lambda>_. []" and noise = "\<lambda>_ _. 0xAA" and old = "\<lambda>_. []" and old_cwd = "[]" and lines = "[]" and prog = "[]" and f = "lit ''i''"]
    by blast
  have h: "?host img (lit ''i'') = Some (HFile \<lparr>st_size = 0, st_mode = 0, st_mtime = 0\<rparr> img)" by simp
  from mp[OF spec[OF spec[OF a, of "?host img"]] h] obtain ls where r: "fstool_main (\<lambda>_. []) (?host img) (\<lambda>_ _. 0xAA) 0x100000 (\<lambda>_. []) [] [] [[], lit ''-dump'', lit ''i''] =
       Some (Printed (concat (map dump_line ls)))" "list_all2 line_for ls (tree_walk [] (FDir ?es))" by blast
  from r(2) have "map (snd o snd) ls = map fst (tree_walk [] (FDir ?es))" "map fst ls = map (is_directory o snd) (tree_walk [] (FDir ?es))"
    by (induction rule: list_all2_induct) (simp_all add: line_for_def)
  then have M: "map (snd o snd) ls = [lit ''/a'', lit ''/sub'', lit ''/sub/b'']" "map fst ls = [False, True, False]" by (simp_all add: lit_def)
  show ?thesis by (rule exI[of _ img], rule exI[of _ pr], rule exI[of _ ls]) (intro conjI b r(1) M)
qed

section \<open>Paths and trees\<close>

lemma comps_from_word: "slash \<notin> set c \<Longrightarrow> comps_from got (c @ rest) = comps_from (got @ c) rest"
  by (induction c arbitrary: got) auto

lemma comps_joined: "\<forall>c \<in> set ps. comp_ok c \<Longrightarrow> got \<noteq> [] \<or> ps = [] \<Longrightarrow> comps_from got (concat (map (\<lambda>c. slash # c) ps)) = (if got = [] then [] else [got]) @ ps"
proof (induction ps arbitrary: got)
  case (Cons c ps)
  have c: "comp_ok c" using Cons.prems(1) by simp
  then have "comps_from [] (c @ concat (map (\<lambda>c. slash # c) ps)) = c # ps"
    using Cons.IH[of c] Cons.prems(1) comps_from_word[of c "[]"] by (simp add: comp_ok_def)
  then show ?case using Cons.prems(2) by simp
qed simp

lemma comps_render: "\<forall>c \<in> set ps. comp_ok c \<Longrightarrow> comps (render ps) = ps"
proof (cases ps)
  case (Cons c qs)
  assume a: "\<forall>c \<in> set ps. comp_ok c"
  then have "comp_ok c" "\<forall>c \<in> set qs. comp_ok c" using Cons by simp_all
  then show ?thesis using comps_joined[of qs c] comps_from_word[of c "[]"] Cons by (simp add: render_def comp_ok_def)
qed (simp add: render_def)

lemma tree_find_walk:
  assumes "tree_find t qs = Some n" "qs \<noteq> []"
  shows "(path @ concat (map (\<lambda>c. slash # c) qs), n) \<in> set (tree_walk path t)"
  using assms
proof (induction t qs arbitrary: path rule: tree_find.induct)
  case (3 es c cs)
  then obtain x where x: "map_of es c = Some x" "tree_find x cs = Some n" by (auto split: option.splits)
  then have e: "(c, x) \<in> set es" by (simp add: map_of_SomeD)
  have l: "lit ''/'' = [slash]" by (simp add: lit_def of_char_def)
  show ?case
  proof (cases "cs = []")
    case True
    then show ?thesis using x e by (auto simp: l intro!: bexI[of _ "(c, x)"])
  next
    case False
    have "(sub_path path c @ concat (map (\<lambda>c. slash # c) cs), n) \<in> set (tree_walk (sub_path path c) x)"
      using "3.IH"[OF x(1,2) False, of "sub_path path c"] .
    then show ?thesis using e by (auto simp: l intro!: bexI[of _ "(c, x)"])
  qed
qed simp_all

lemma directory_path_short:
  assumes "\<forall>x \<in> set (tree_walk [] t). length (fst x) \<le> b" "0 < b" "\<forall>c \<in> set qs. comp_ok c" "path_find t (render qs) = Some (FDir es)"
  shows "length (render qs) \<le> b"
proof (cases "qs = []")
  case False
  have "tree_find t qs = Some (FDir es)" using assms(4) comps_render[OF assms(3)] by (auto simp: path_find_def split: option.splits fsnode.splits if_splits)
  from tree_find_walk[OF this False, of "[]"] show ?thesis using assms(1) False by (auto simp: render_def)
qed (use assms(2) in \<open>simp add: render_def\<close>)

section \<open>Lookups on the image\<close>

lemma getdir_ok:
  assumes "represents m fs fs (FDir es)" "str_at path 0 p"
  shows "case path_find (FDir es) p of None \<Rightarrow> \<exists>e. getdir m fs path = Some (- ENOENT, e)
     | Some (FFile d) \<Rightarrow> \<exists>e. getdir m fs path = Some (- ENOTDIR, e)
     | Some (FDir ds) \<Rightarrow> \<exists>e. getdir m fs path = Some (0, e) \<and> represents m fs e (FDir ds)"
  using get_directory_entry_ok[OF assms]
  by (auto simp: getdir_def ENOENT_def split: option.splits fsnode.splits elim!: represents_fileE represents_dirE) (auto intro: is_dir)

lemma getfile_ok:
  assumes "represents m fs fs (FDir es)" "str_at path 0 p"
  shows "case path_find (FDir es) p of None \<Rightarrow> \<exists>e. getfile m fs path = Some (- ENOENT, e)
     | Some (FFile d) \<Rightarrow> \<exists>e. getfile m fs path = Some (0, e) \<and> represents m fs e (FFile d)
     | Some (FDir ds) \<Rightarrow> \<exists>e. getfile m fs path = Some (- EISDIR, e)"
  using get_directory_entry_ok[OF assms]
  by (auto simp: getfile_def ENOENT_def split: option.splits fsnode.splits elim!: represents_fileE represents_dirE) (auto intro: is_file)

section \<open>A shell on the tree\<close>

text \<open>What \<open>ls\<close> prints for a directory: one line per entry, with the length of every file.\<close>

definition listing :: "(u8 list \<times> fsnode) list \<Rightarrow> u8 list \<Rightarrow> bool" where
  "listing es out \<longleftrightarrow> (\<exists>ms. list_all2 (\<lambda>(md, sz) e. \<forall>d. snd e = FFile d \<longrightarrow> unat sz = length d) ms es \<and>
     out = concat (map2 (\<lambda>(md, sz) e. ls_line (if is_directory (snd e) then TYPE_DIR else TYPE_FILE) md sz (fst e)) ms es))"

definition answer :: "(int \<Rightarrow> u8 list) \<Rightarrow> fsnode \<Rightarrow> u8 list list \<Rightarrow> u8 list list \<Rightarrow> u8 list \<Rightarrow> bool" where
  "answer se t ps ws out \<longleftrightarrow> (let at = (\<lambda>w. path_find t (render (resolve ps w))); msg = (\<lambda>e. se e @ lit nl) in
     if ws \<noteq> [] \<and> ws ! 0 = lit ''ls'' then (case (if 2 \<le> length ws then at (ws ! 1) else path_find t (render ps)) of
         None \<Rightarrow> out = msg ENOENT | Some (FFile d) \<Rightarrow> out = msg ENOTDIR | Some (FDir es) \<Rightarrow> listing es out)
     else if length ws = 2 \<and> ws ! 0 = lit ''cat'' then out = (case at (ws ! 1) of
         None \<Rightarrow> msg ENOENT | Some (FFile d) \<Rightarrow> d | Some (FDir es) \<Rightarrow> msg EISDIR)
     else if length ws = 2 \<and> ws ! 0 = lit ''cd'' then out = (case at (ws ! 1) of
         None \<Rightarrow> msg ENOENT | Some (FFile d) \<Rightarrow> msg ENOTDIR | Some (FDir es) \<Rightarrow> [])
     else if ws = [lit ''pwd''] then out = render ps @ lit nl
     else if ws = [lit ''help''] then out = help_text
     else out = lit (''Invalid command'' @ nl))"

definition cwd_after :: "fsnode \<Rightarrow> u8 list list \<Rightarrow> u8 list list \<Rightarrow> u8 list list" where
  "cwd_after t ps ws = (if length ws = 2 \<and> ws ! 0 = lit ''cd'' \<and> (\<exists>es. path_find t (render (resolve ps (ws ! 1))) = Some (FDir es))
     then resolve ps (ws ! 1) else ps)"

text \<open>A session: the lines, what is printed after the first prompt, and the directory at the end.\<close>

inductive session :: "(int \<Rightarrow> u8 list) \<Rightarrow> fsnode \<Rightarrow> u8 list list \<Rightarrow> u8 list list \<Rightarrow> u8 list \<Rightarrow> u8 list list \<Rightarrow> bool" for se t where
  session_end: "session se t ps [] [] ps"
| session_quit: "take 7 (words line) = [lit ''q''] \<Longrightarrow> session se t ps (line # lines) [] ps"
| session_line: "take 7 (words line) = ws \<Longrightarrow> ws \<noteq> [lit ''q''] \<Longrightarrow> answer se t ps ws out \<Longrightarrow> cwd_after t ps ws = qs \<Longrightarrow>
    session se t qs lines rest ps' \<Longrightarrow> session se t ps (line # lines) (out @ render qs @ lit '' > '' @ rest) ps'"

section \<open>The commands answer\<close>

lemma ls_entries_ok:
  assumes "\<forall>i < length es. str_at (ent_name m (dir_entry dir i)) 0 (fst (es ! i)) \<and> represents m fs (dir_entry dir i) (snd (es ! i))" "i + k = length es"
  shows "\<exists>out. ls_entries m dir i k = Some out \<and> listing (drop i es) out"
  using assms(2)
proof (induction k arbitrary: i)
  case 0
  then show ?case by (simp add: listing_def)
next
  case (Suc k)
  let ?e = "es ! i"
  have i: "i < length es" and d: "drop i es = ?e # drop (Suc i) es" using Suc.prems by (simp_all add: Cons_nth_drop_Suc)
  have name: "cstr_bytes (ent_name m (dir_entry dir i)) = Some (fst ?e)" using assms(1) i by (blast intro: str_bytes)
  have r: "represents m fs (dir_entry dir i) (snd ?e)" using assms(1) i by blast
  obtain sz loc md where f: "ent_type m (dir_entry dir i) = Some (if is_directory (snd ?e) then TYPE_DIR else TYPE_FILE)" "ent_size m (dir_entry dir i) = Some sz"
    "ent_mode m (dir_entry dir i) = Some md" "\<forall>d. snd ?e = FFile d \<longrightarrow> unat sz = length d" by (rule represents_fields[OF r])
  obtain rest ms where rest: "ls_entries m dir (Suc i) k = Some rest"
    "list_all2 (\<lambda>(md, sz) e. \<forall>d. snd e = FFile d \<longrightarrow> unat sz = length d) ms (drop (Suc i) es)"
    "rest = concat (map2 (\<lambda>(md, sz) e. ls_line (if is_directory (snd e) then TYPE_DIR else TYPE_FILE) md sz (fst e)) ms (drop (Suc i) es))"
    using Suc.IH[of "Suc i"] Suc.prems by (auto simp: listing_def)
  have "ls_entries m dir i (Suc k) = Some (ls_line (if is_directory (snd ?e) then TYPE_DIR else TYPE_FILE) md sz (fst ?e) @ rest)"
    using name f(1-3) rest(1) by simp
  moreover have "listing (drop i es) (ls_line (if is_directory (snd ?e) then TYPE_DIR else TYPE_FILE) md sz (fst ?e) @ rest)"
    unfolding listing_def d using f(4) rest(2,3) by (intro exI[of _ "(md, sz) # ms"]) simp
  ultimately show ?case by blast
qed

lemma mem_bytes_ok: "\<forall>i < length d. m (a + of_nat i) = Some (d ! i) \<Longrightarrow> mem_bytes m a (length d) = Some d"
proof (induction d arbitrary: a)
  case (Cons b d)
  have "\<forall>i < length d. m (a + 1 + of_nat i) = Some (d ! i)"
  proof (intro allI impI)
    fix i assume "i < length d"
    then show "m (a + 1 + of_nat i) = Some (d ! i)" using Cons.prems[rule_format, of "Suc i"] by (simp add: add.assoc)
  qed
  then show ?case using Cons.IH Cons.prems[rule_format, of 0] by simp
qed simp

lemma percent_s:
  assumes "str_at s 0 bs" "length str = mx" "length bs < mx" "mx \<le> 4096"
  shows "\<exists>n rest. snprintf str mx (arr (lit ''%s'' @ [0])) [Str s] = Some (n, bs @ 0 # rest) \<and> length (bs @ 0 # rest) = mx"
proof -
  have "lit ''%s'' = [0x25, 0x73]" by (simp add: lit_def conv_chars)
  then have f: "format (lit ''%s'') [Str s] = Some bs"
    using str_bytes[OF assms(1)] by (simp add: format.simps conv_chars field_str_def va_str_def is_digit_def padded_def width_def)
  have p: "str_at (arr (lit ''%s'' @ [0])) 0 (lit ''%s'')" by code_simp
  have "take (mx - 1) bs = bs" using assms(3) by simp
  then show ?thesis using vsnprintf_ok[OF p f assms(2)] assms(3,4) by (auto simp: snprintf_def)
qed

text \<open>The array \<open>cwd\<close> holds the path with components \<open>ps\<close>, which leaves room for an argument.\<close>

definition at_dir :: "u8 list list \<Rightarrow> u8 list \<Rightarrow> bool" where
  "at_dir ps cwd \<longleftrightarrow> (\<exists>rest. cwd = render ps @ 0 # rest) \<and> length cwd = HOST_PATH_MAX \<and> (\<forall>c \<in> set ps. comp_ok c) \<and> length (render ps) \<le> 3000"

definition arg_ok :: "u8 list \<Rightarrow> bool" where "arg_ok w \<longleftrightarrow> 0 \<notin> set w \<and> length w \<le> 1023"

lemma at_dirD:
  assumes "at_dir ps cwd"
  shows "str_at (arr cwd) 0 (render ps)" "\<forall>c \<in> set ps. comp_ok c" "length (render ps) \<le> 3000" "length cwd = HOST_PATH_MAX"
  using assms str_at_arr0[OF render_nonzero, of ps] by (auto simp: at_dir_def)

lemma resolve_path:
  assumes "at_dir ps cwd" "arg_ok w" "length ab = HOST_PATH_MAX"
  obtains abs1 where "relative_to_absolute ab (arr cwd) (arr (w @ [0])) HOST_PATH_MAX = Some abs1" "str_at (arr abs1) 0 (render (resolve ps w))"
proof -
  note D = at_dirD[OF assms(1)]
  have w: "str_at (arr (w @ [0])) 0 w" using assms(2) by (intro str_at_arr0) (simp add: arg_ok_def)
  have fit: "length (render ps) + length w + 2 \<le> length ab" using D(3) assms(2,3) by (simp add: arg_ok_def HOST_PATH_MAX_def)
  obtain rest where r: "relative_to_absolute ab (arr cwd) (arr (w @ [0])) (length ab) = Some (render (resolve ps w) @ 0 # rest)"
    using relative_to_absolute_ok[OF w D(1,2) fit] assms(3) by (auto simp: resolve_def HOST_PATH_MAX_def)
  have "0 \<notin> set (render (resolve ps w))" using assms(2) by (intro render_nonzero resolve_ok D(2)) (simp add: arg_ok_def)
  then show ?thesis using that r assms(3) str_at_arr0 by metis
qed

lemma ls_command_ok:
  assumes r: "represents m fs fs (FDir es)" and c: "at_dir ps cwd" and a: "length ab = HOST_PATH_MAX" and w: "\<forall>w \<in> set ws. arg_ok w" and ls: "ws \<noteq> []" "ws ! 0 = lit ''ls''"
  shows "\<exists>out. ls_command se m fs ab cwd ws = Some out \<and> answer se (FDir es) ps ws out"
proof -
  note D = at_dirD[OF c]
  let ?qs = "if 2 \<le> length ws then resolve ps (ws ! 1) else ps"
  obtain abs1 where abs1: "(if 2 \<le> length ws then relative_to_absolute ab (arr cwd) (arr (ws ! 1 @ [0])) HOST_PATH_MAX
      else map_option snd (snprintf ab HOST_PATH_MAX (arr (lit ''%s'' @ [0])) [Str (arr cwd)])) = Some abs1" "str_at (arr abs1) 0 (render ?qs)"
  proof (cases "2 \<le> length ws")
    case True
    then have "arg_ok (ws ! 1)" using w by simp
    then obtain abs1 where "relative_to_absolute ab (arr cwd) (arr (ws ! 1 @ [0])) HOST_PATH_MAX = Some abs1" "str_at (arr abs1) 0 (render (resolve ps (ws ! 1)))"
      by (rule resolve_path[OF c _ a])
    then show ?thesis using that[of abs1] True by simp
  next
    case False
    obtain n rest where "snprintf ab HOST_PATH_MAX (arr (lit ''%s'' @ [0])) [Str (arr cwd)] = Some (n, render ps @ 0 # rest)"
      using percent_s[OF D(1) a] D(3) by (auto simp: HOST_PATH_MAX_def)
    then show ?thesis using that[of "render ps @ 0 # rest"] False str_at_arr0[OF render_nonzero[OF D(2)], of rest] by simp
  qed
  have g: "case path_find (FDir es) (render ?qs) of None \<Rightarrow> \<exists>e. getdir m fs (arr abs1) = Some (- ENOENT, e)
     | Some (FFile d) \<Rightarrow> \<exists>e. getdir m fs (arr abs1) = Some (- ENOTDIR, e)
     | Some (FDir ds) \<Rightarrow> \<exists>e. getdir m fs (arr abs1) = Some (0, e) \<and> represents m fs e (FDir ds)" by (rule getdir_ok[OF r abs1(2)])
  have ans: "answer se (FDir es) ps ws out = (case path_find (FDir es) (render ?qs) of None \<Rightarrow> out = se ENOENT @ lit nl
      | Some (FFile d) \<Rightarrow> out = se ENOTDIR @ lit nl | Some (FDir ds) \<Rightarrow> listing ds out)" for out
    using ls by (simp add: answer_def Let_def)
  consider (none) "path_find (FDir es) (render ?qs) = None" | (fil) d where "path_find (FDir es) (render ?qs) = Some (FFile d)"
    | (dir) ds where "path_find (FDir es) (render ?qs) = Some (FDir ds)" by (metis fsnode.exhaust option.exhaust)
  then show ?thesis
  proof cases
    case none
    then show ?thesis using g abs1(1) unfolding ans ls_command_def by (auto simp: ENOENT_def)
  next
    case fil
    then show ?thesis using g abs1(1) unfolding ans ls_command_def by (auto simp: ENOTDIR_def)
  next
    case dir
    then obtain e where e: "getdir m fs (arr abs1) = Some (0, e)" "represents m fs e (FDir ds)" using g by auto
    from e(2) obtain loc cnt where l: "ent_location m e = Some loc" "dir_count m (fs + loc) = Some cnt" "length ds = unat cnt"
      "\<forall>i < length ds. str_at (ent_name m (dir_entry (fs + loc) i)) 0 (fst (ds ! i)) \<and> represents m fs (dir_entry (fs + loc) i) (snd (ds ! i))"
      by (auto elim!: represents_dirE)
    obtain out where "ls_entries m (fs + loc) 0 (length ds) = Some out" "listing ds out" using ls_entries_ok[OF l(4), of 0 "length ds"] by auto
    then show ?thesis using abs1(1) e(1) l(1-3) dir unfolding ans ls_command_def by simp
  qed
qed

lemma cat_command_ok:
  assumes r: "represents m fs fs (FDir es)" and c: "at_dir ps cwd" and a: "length ab = HOST_PATH_MAX" and w: "arg_ok (ws ! 1)"
  shows "cat_command se m fs ab cwd ws = Some (case path_find (FDir es) (render (resolve ps (ws ! 1))) of
     None \<Rightarrow> se ENOENT @ lit nl | Some (FFile d) \<Rightarrow> d | Some (FDir ds) \<Rightarrow> se EISDIR @ lit nl)"
proof -
  obtain abs1 where abs1: "relative_to_absolute ab (arr cwd) (arr (ws ! 1 @ [0])) HOST_PATH_MAX = Some abs1" "str_at (arr abs1) 0 (render (resolve ps (ws ! 1)))"
    by (rule resolve_path[OF c w a])
  note g = getfile_ok[OF r abs1(2)]
  show ?thesis
  proof (cases "\<exists>d. path_find (FDir es) (render (resolve ps (ws ! 1))) = Some (FFile d)")
    case True
    then obtain d e where d: "path_find (FDir es) (render (resolve ps (ws ! 1))) = Some (FFile d)" "getfile m fs (arr abs1) = Some (0, e)" "represents m fs e (FFile d)"
      using g by auto
    from d(3) obtain sz loc where f: "ent_size m e = Some sz" "ent_location m e = Some loc" "length d = unat sz" "\<forall>i < length d. m (fs + loc + of_nat i) = Some (d ! i)"
      by (auto elim!: represents_fileE)
    then show ?thesis using abs1(1) d(1,2) mem_bytes_ok[OF f(4)] by (simp add: cat_command_def)
  next
    case False
    then show ?thesis using g abs1(1) by (auto simp: cat_command_def ENOENT_def EISDIR_def split: option.splits fsnode.splits)
  qed
qed

lemma cd_command_ok:
  assumes r: "represents m fs fs (FDir es)" and c: "at_dir ps cwd" and a: "length ab = HOST_PATH_MAX" and w: "arg_ok (ws ! 1)"
    and short: "\<forall>x \<in> set (tree_walk [] (FDir es)). length (fst x) \<le> 3000" and cd: "length ws = 2" "ws ! 0 = lit ''cd''"
  shows "\<exists>cwd1. cd_command se m fs ab cwd ws = Some (case path_find (FDir es) (render (resolve ps (ws ! 1))) of
     None \<Rightarrow> se ENOENT @ lit nl | Some (FFile d) \<Rightarrow> se ENOTDIR @ lit nl | Some (FDir ds) \<Rightarrow> [], cwd1) \<and> at_dir (cwd_after (FDir es) ps ws) cwd1"
proof -
  obtain abs1 where abs1: "relative_to_absolute ab (arr cwd) (arr (ws ! 1 @ [0])) HOST_PATH_MAX = Some abs1" "str_at (arr abs1) 0 (render (resolve ps (ws ! 1)))"
    by (rule resolve_path[OF c w a])
  note g = getdir_ok[OF r abs1(2)]
  show ?thesis
  proof (cases "\<exists>ds. path_find (FDir es) (render (resolve ps (ws ! 1))) = Some (FDir ds)")
    case True
    then obtain ds e where d: "path_find (FDir es) (render (resolve ps (ws ! 1))) = Some (FDir ds)" "getdir m fs (arr abs1) = Some (0, e)" using g by auto
    have q: "\<forall>c \<in> set (resolve ps (ws ! 1)). comp_ok c" using w by (intro resolve_ok at_dirD(2)[OF c]) (simp add: arg_ok_def)
    have l: "length (render (resolve ps (ws ! 1))) \<le> 3000" using directory_path_short[OF short _ q d(1)] by simp
    obtain n rest where "snprintf cwd HOST_PATH_MAX (arr (lit ''%s'' @ [0])) [Str (arr abs1)] = Some (n, render (resolve ps (ws ! 1)) @ 0 # rest)"
      "length (render (resolve ps (ws ! 1)) @ 0 # rest) = HOST_PATH_MAX"
      using percent_s[OF abs1(2) at_dirD(4)[OF c]] l by (auto simp: HOST_PATH_MAX_def)
    moreover have "cwd_after (FDir es) ps ws = resolve ps (ws ! 1)" using d(1) cd by (simp add: cwd_after_def)
    ultimately show ?thesis using abs1(1) d q l by (auto simp: cd_command_def at_dir_def)
  next
    case False
    then have "cwd_after (FDir es) ps ws = ps" by (simp add: cwd_after_def)
    then show ?thesis using False g abs1(1) c by (auto simp: cd_command_def ENOENT_def ENOTDIR_def split: option.splits fsnode.splits)
  qed
qed

section \<open>The session\<close>

lemma fs_command_ok:
  assumes r: "represents m fs fs (FDir es)" and c: "at_dir ps cwd" and a: "length ab = HOST_PATH_MAX" and w: "\<forall>w \<in> set ws. arg_ok w"
    and short: "\<forall>x \<in> set (tree_walk [] (FDir es)). length (fst x) \<le> 3000"
  shows "if ws = [lit ''q''] then fs_command se m fs ab cwd ws = Some (True, [], cwd)
     else \<exists>out cwd1. fs_command se m fs ab cwd ws = Some (False, out, cwd1) \<and> answer se (FDir es) ps ws out \<and> at_dir (cwd_after (FDir es) ps ws) cwd1"
proof -
  have ne: "lit ''q'' \<noteq> lit ''ls''" "lit ''q'' \<noteq> lit ''cat''" "lit ''q'' \<noteq> lit ''cd''" "lit ''q'' \<noteq> lit ''pwd''" "lit ''cat'' \<noteq> lit ''ls''" "lit ''cd'' \<noteq> lit ''ls''"
    "lit ''cd'' \<noteq> lit ''cat''" "lit ''pwd'' \<noteq> lit ''ls''" "lit ''help'' \<noteq> lit ''ls''" "lit ''help'' \<noteq> lit ''pwd''" "lit ''help'' \<noteq> lit ''q''" by code_simp+
  have one: "length ws = 1 \<and> ws ! 0 = x \<longleftrightarrow> ws = [x]" for x by (cases ws) auto
  have len: "1 \<le> length ws \<longleftrightarrow> ws \<noteq> []" by (cases ws) simp_all
  have two: "arg_ok (ws ! 1)" if "length ws = 2" using w that by simp
  have path: "cstr_bytes (arr cwd) = Some (render ps)" by (rule str_bytes[OF at_dirD(1)[OF c]])
  consider (ls) "ws \<noteq> []" "ws ! 0 = lit ''ls''" | (cat) "length ws = 2" "ws ! 0 = lit ''cat''" | (cd) "length ws = 2" "ws ! 0 = lit ''cd''"
    | (other) "\<not> (ws \<noteq> [] \<and> ws ! 0 = lit ''ls'')" "\<not> (length ws = 2 \<and> ws ! 0 = lit ''cat'')" "\<not> (length ws = 2 \<and> ws ! 0 = lit ''cd'')" by blast
  then show ?thesis
  proof cases
    case ls
    then have "cwd_after (FDir es) ps ws = ps" "ws \<noteq> [lit ''q'']" using ne by (auto simp: cwd_after_def)
    then show ?thesis using ls_command_ok[OF r c a w ls, of se] ls len c by (auto simp: fs_command_def)
  next
    case cat
    then have "cwd_after (FDir es) ps ws = ps" "ws \<noteq> [lit ''q'']" "ws ! 0 \<noteq> lit ''ls''" using ne by (auto simp: cwd_after_def)
    moreover have "answer se (FDir es) ps ws (case path_find (FDir es) (render (resolve ps (ws ! 1))) of
       None \<Rightarrow> se ENOENT @ lit nl | Some (FFile d) \<Rightarrow> d | Some (FDir ds) \<Rightarrow> se EISDIR @ lit nl)" using cat ne by (simp add: answer_def Let_def)
    ultimately show ?thesis using cat_command_ok[OF r c a two[OF cat(1)], of se] cat c by (simp add: fs_command_def)
  next
    case cd
    then have q: "ws \<noteq> [lit ''q'']" "ws ! 0 \<noteq> lit ''ls''" "ws ! 0 \<noteq> lit ''cat''" using ne by auto
    moreover have "answer se (FDir es) ps ws (case path_find (FDir es) (render (resolve ps (ws ! 1))) of
       None \<Rightarrow> se ENOENT @ lit nl | Some (FFile d) \<Rightarrow> se ENOTDIR @ lit nl | Some (FDir ds) \<Rightarrow> [])" using cd ne by (simp add: answer_def Let_def)
    ultimately show ?thesis using cd_command_ok[OF r c a two[OF cd(1)] short cd, of se] cd by (auto simp: fs_command_def)
  next
    case other
    then have "cwd_after (FDir es) ps ws = ps" by (auto simp: cwd_after_def)
    then show ?thesis using other path c ne one[of "lit ''pwd''"] one[of "lit ''q''"] one[of "lit ''help''"] len
      by (auto simp: fs_command_def answer_def Let_def)
  qed
qed

lemma words_arg_ok:
  assumes "0 \<notin> set line" "length line \<le> 1023" "w \<in> set (words line)"
  shows "arg_ok w"
  using assms
proof (induction line rule: words.induct)
  case (1 s)
  show ?case
  proof (cases "dropWhile sep s")
    case Nil
    have "words s = []" by (subst words.simps) (simp only: Nil list.case)
    then show ?thesis using 1(4) by simp
  next
    case (Cons c t)
    have s: "set (c # t) \<subseteq> set s" "length (c # t) \<le> length s" using Cons by (metis set_dropWhileD subsetI, metis length_dropWhile_le)
    have d: "set (dropWhile (\<lambda>c. \<not> sep c) t) \<subseteq> set t" "length (dropWhile (\<lambda>c. \<not> sep c) t) \<le> length t" "set (takeWhile (\<lambda>c. \<not> sep c) t) \<subseteq> set t"
      "length (takeWhile (\<lambda>c. \<not> sep c) t) \<le> length t"
      by (auto dest: set_dropWhileD set_takeWhileD simp: length_dropWhile_le length_takeWhile_le)
    have "w = c # takeWhile (\<lambda>c. \<not> sep c) t \<or> w \<in> set (words (dropWhile (\<lambda>c. \<not> sep c) t))" using 1(4) Cons by (simp add: words.simps[of s])
    then show ?thesis
    proof
      assume "w = c # takeWhile (\<lambda>c. \<not> sep c) t"
      then show ?thesis using s d(3,4) 1(2,3) by (auto simp: arg_ok_def)
    next
      assume "w \<in> set (words (dropWhile (\<lambda>c. \<not> sep c) t))"
      then show ?thesis using 1(1)[OF Cons] s d(1,2) 1(2,3) by auto
    qed
  qed
qed

lemma fs_shell_loop_ok:
  assumes r: "represents m fs fs (FDir es)" and short: "\<forall>x \<in> set (tree_walk [] (FDir es)). length (fst x) \<le> 3000"
    and old: "\<And>k. length (old k) = HOST_PATH_MAX" and lines: "\<forall>line \<in> set lines. 0 \<notin> set line \<and> length line \<le> 1023" and c: "at_dir ps cwd"
  shows "\<exists>out cwd1 ps'. fs_shell_loop se m fs old cwd lines = Some (out, cwd1) \<and> session se (FDir es) ps lines out ps' \<and> at_dir ps' cwd1"
  using lines c
proof (induction lines arbitrary: ps cwd)
  case Nil
  then show ?case by (auto intro: session_end)
next
  case (Cons line lines)
  have line: "0 \<notin> set line" "length line \<le> 1023" using Cons.prems(1) by simp_all
  let ?ws = "take 7 (words line)"
  obtain line1 offs where p: "parse_command (line @ [0]) 8 = Some (line1, offs)" "argv_strings line1 offs = ?ws"
    using parse_command_ok[OF line(1), of "[]" 8] by auto
  have w: "\<forall>w \<in> set ?ws. arg_ok w" using words_arg_ok[OF line] by (meson in_set_takeD)
  note C = fs_command_ok[OF r Cons.prems(2) old w short, of se "length lines"]
  show ?case
  proof (cases "?ws = [lit ''q'']")
    case True
    then have "fs_shell_loop se m fs old cwd (line # lines) = Some ([], cwd)" using C p by simp
    then show ?thesis using session_quit[OF True] Cons.prems(2) by blast
  next
    case False
    let ?qs = "cwd_after (FDir es) ps ?ws"
    obtain out cwd1 where o: "fs_command se m fs (old (length lines)) cwd ?ws = Some (False, out, cwd1)" "answer se (FDir es) ps ?ws out" "at_dir ?qs cwd1"
      using C False by auto
    obtain rest cwd2 ps' where l: "fs_shell_loop se m fs old cwd1 lines = Some (rest, cwd2)" "session se (FDir es) ?qs lines rest ps'" "at_dir ps' cwd2"
      using Cons.IH[OF _ o(3)] Cons.prems(1) by auto
    have "fs_prompt cwd1 = Some (render ?qs @ lit '' > '')" using str_bytes[OF at_dirD(1)[OF o(3)]] by (simp add: fs_prompt_def)
    then have "fs_shell_loop se m fs old cwd (line # lines) = Some (out @ render ?qs @ lit '' > '' @ rest, cwd2)" using p o(1) l(1) by simp
    then show ?thesis using session_line[OF refl False o(2) refl l(2)] l(3) by blast
  qed
qed

text \<open>C38: The interactive shell of fstool refines a shell on the directory tree: for an image that represents a
  tree whose paths have at most 3000 characters, and for every series of lines of the length that fgets
  gives, the shell never leaves its arrays and prints the prompt with the working directory and, for
  each line, the answer that the tree determines: cat prints the contents of the file, ls the
  entries of the directory, pwd the path, and all report paths that are missing or of the wrong kind;
  cd moves to directories only, so the working directory is always a directory of the image.\<close>

theorem fs_shell_refines:
  assumes "represents m fs fs (FDir es)" "\<forall>x \<in> set (tree_walk [] (FDir es)). length (fst x) \<le> 3000"
    "\<forall>k. length (old k) = HOST_PATH_MAX" "length old_cwd = HOST_PATH_MAX" "\<forall>line \<in> set lines. 0 \<notin> set line \<and> length line \<le> 1023"
  shows "\<exists>out cwd ps rest. fs_shell se m fs old old_cwd lines = Some (lit ''/ > '' @ out, cwd) \<and> session se (FDir es) [] lines out ps \<and> cwd = render ps @ 0 # rest"
proof -
  have f: "str_at (arr (lit ''/'' @ [0])) 0 (lit ''/'')" "format (lit ''/'') [] = Some [slash]" by code_simp+
  have pos: "0 < HOST_PATH_MAX" "take (HOST_PATH_MAX - 1) [slash] = [slash]" by (simp_all add: HOST_PATH_MAX_def)
  obtain rest where s: "snprintf old_cwd HOST_PATH_MAX (arr (lit ''/'' @ [0])) [] = Some (1, [slash] @ 0 # rest)" "length ([slash] @ 0 # rest) = HOST_PATH_MAX"
    using vsnprintf_ok[OF f assms(4) pos(1)] pos(2) by (auto simp: snprintf_def)
  have c: "at_dir [] ([slash] @ 0 # rest)" using s(2) by (simp add: at_dir_def render_def)
  obtain out cwd1 ps' where l: "fs_shell_loop se m fs old ([slash] @ 0 # rest) lines = Some (out, cwd1)" "session se (FDir es) [] lines out ps'" "at_dir ps' cwd1"
    using fs_shell_loop_ok[OF assms(1,2) _ assms(5) c] assms(3) by blast
  have "fs_prompt ([slash] @ 0 # rest) = Some (lit ''/ > '')" using str_bytes[OF at_dirD(1)[OF c]] by (simp add: fs_prompt_def render_def lit_def of_char_def)
  then have "fs_shell se m fs old old_cwd lines = Some (lit ''/ > '' @ out, cwd1)" using s(1) l(1) by (simp add: fs_shell_def)
  then show ?thesis using l(2,3) by (auto simp: at_dir_def)
qed

theorem fs_shell_refines_witness:
  "\<exists>out cwd ps rest. fs_shell (\<lambda>_. []) example_fs 0x100 (\<lambda>_. replicate 4096 7) (replicate 4096 7) [lit ''cat a'', lit ''cd ..'', lit ''q'', lit ''ls''] =
     Some (lit ''/ > '' @ out, cwd) \<and> session (\<lambda>_. []) (FDir [([97], FFile [7, 8])]) [] [lit ''cat a'', lit ''cd ..'', lit ''q'', lit ''ls''] out ps \<and> cwd = render ps @ 0 # rest"
proof (rule fs_shell_refines[OF example_represents])
  show "\<forall>x \<in> set (tree_walk [] (FDir [([97], FFile [7, 8])])). length (fst x) \<le> 3000" by (simp add: lit_def)
  show "\<forall>line \<in> set [lit ''cat a'', lit ''cd ..'', lit ''q'', lit ''ls'']. 0 \<notin> set line \<and> length line \<le> 1023" by code_simp
qed (simp_all add: HOST_PATH_MAX_def)

end
