(* ===== verification/Fork_Correct.thy ===== *)
theory Fork_Correct
  imports Unixproc Page_Correct Process_Lists
begin

text \<open>
  What fork gives to the child: its own copy of the memory of the parent. The first part is about
  pages: copying a set of logical pages from one directory to another.
\<close>

section \<open>Copying one page\<close>

lemma page_of_offset:
  assumes "page_aligned p" "i < 4096"
  shows "page_of (p + of_nat i) = page_of p" "unat (p + of_nat i) = unat p + i"
proof -
  obtain k where k: "unat p = 4096 * k" using assms(1) by (auto simp: page_aligned_def)
  then have "k < 2 ^ 20" using unat_u32_less[of p] by simp
  then have "unat p + i < 2 ^ 32" using k assms(2) by simp
  then show u: "unat (p + of_nat i) = unat p + i" by (simp add: unat_word_ariths unat_of_nat)
  show "page_of (p + of_nat i) = page_of p" unfolding page_of_def u k using assms(2) by simp
qed

lemma copy_phys_upto:
  assumes "page_aligned p" "page_aligned q" "p \<noteq> q" "n \<le> 4096"
  shows "(\<forall>i < n. copy_phys p q n m (p + of_nat i) = m (q + of_nat i)) \<and>
    (\<forall>x. page_of x \<noteq> page_of p \<longrightarrow> copy_phys p q n m x = m x)"
  using assms(4)
proof (induction n)
  case (Suc n)
  let ?c = "copy_phys p q n m"
  have ne: "page_of p \<noteq> page_of q" using page_of_inj assms(1-3) by blast
  have n: "n < 4096" using Suc.prems by simp
  have step: "copy_phys p q (Suc n) m = ?c(p + of_nat n := ?c (q + of_nat n))" by (simp add: copy_phys_def)
  have qn: "?c (q + of_nat n) = m (q + of_nat n)" using Suc page_of_offset(1)[OF assms(2) n] ne by simp
  have inj: "p + of_nat i = p + of_nat n \<longleftrightarrow> i = n" if "i < 4096" for i
  proof
    assume "p + of_nat i = p + of_nat n"
    then have "unat (p + of_nat i) = unat (p + of_nat n)" by simp
    then show "i = n" unfolding page_of_offset(2)[OF assms(1) that] page_of_offset(2)[OF assms(1) n] by simp
  qed simp
  show ?case
  proof (intro conjI allI impI)
    fix i assume "i < Suc n"
    then show "copy_phys p q (Suc n) m (p + of_nat i) = m (q + of_nat i)"
      using Suc n qn inj[of i] unfolding step by (cases "i = n") auto
  next
    fix x assume "page_of x \<noteq> page_of p"
    then show "copy_phys p q (Suc n) m x = m x" using Suc page_of_offset(1)[OF assms(1) n] unfolding step by auto
  qed
qed (simp add: copy_phys_def)

text \<open>The physical page behind a logical page.\<close>

definition frame :: "pages \<Rightarrow> u32 \<Rightarrow> u32 \<Rightarrow> u32 option" where
  "frame st pdir l = map_option (\<lambda>e. e AND PAGE_ADDRESS_MASK) (translate st pdir l)"

lemma lookup_frame: "page_aligned l \<Longrightarrow> lookup_page pdir l st = Some (frame st pdir l)"
  by (simp add: lookup_page_translate frame_def)

lemma frame_aligned: "frame st pdir l = Some q \<Longrightarrow> page_aligned q"
  by (auto simp: frame_def PAGE_ADDRESS_MASK_def mask_aligned)

section \<open>Copying a set of pages\<close>

text \<open>
  Two address spaces that share no table, and a set of logical pages that the first one maps to
  live pages that are not tables of the second.
\<close>

definition two_spaces :: "u32 \<Rightarrow> u32 \<Rightarrow> pages \<Rightarrow> u32 set \<Rightarrow> bool" where
  "two_spaces src dst st A \<longleftrightarrow> page_pool st A \<and> dir_ok st A src \<and> dir_ok st A dst \<and>
     insert src (tables st src) \<inter> insert dst (tables st dst) = {}"

definition backed :: "u32 \<Rightarrow> u32 \<Rightarrow> u32 set \<Rightarrow> pages \<Rightarrow> u32 set \<Rightarrow> bool" where
  "backed src dst L st A \<longleftrightarrow> (\<forall>l \<in> L. page_aligned l \<and> (\<exists>q \<in> A - insert dst (tables st dst). frame st src l = Some q))"

text \<open>
  The pages \<open>L\<close> have been copied to new pages: nothing else is mapped in the new space, and no live
  page outside its tables has changed.
\<close>

definition copies :: "u32 \<Rightarrow> u32 \<Rightarrow> u32 set \<Rightarrow> (u32 \<Rightarrow> u32) \<Rightarrow> pages \<Rightarrow> u32 set \<Rightarrow> pages \<Rightarrow> u32 set \<Rightarrow> bool" where
  "copies src dst L pg st A st' A' \<longleftrightarrow> dir_ext dst st A st' A' \<and> inj_on pg L \<and> (\<forall>l \<in> L. page_aligned (pg l)) \<and>
     pg ` L \<subseteq> A' - A - insert dst (tables st' dst) \<and>
     (\<forall>l. page_aligned l \<longrightarrow> translate st' dst l =
        (if l \<in> L then Some (pg l OR PAGE_PRESENT OR PAGE_USER OR PAGE_READ_WRITE) else translate st dst l)) \<and>
     (\<forall>l \<in> L. \<forall>i < 4096. \<forall>q. frame st src l = Some q \<longrightarrow> pmem st' (pg l + of_nat i) = pmem st (q + of_nat i))"

lemma copiesD:
  assumes "copies src dst L pg st A st' A'"
  shows "dir_ext dst st A st' A'" "inj_on pg L" "\<And>l. l \<in> L \<Longrightarrow> page_aligned (pg l)" "pg ` L \<subseteq> A' - A - insert dst (tables st' dst)"
    "\<And>l. page_aligned l \<Longrightarrow> translate st' dst l =
        (if l \<in> L then Some (pg l OR PAGE_PRESENT OR PAGE_USER OR PAGE_READ_WRITE) else translate st dst l)"
    "\<And>l i q. l \<in> L \<Longrightarrow> i < 4096 \<Longrightarrow> frame st src l = Some q \<Longrightarrow> pmem st' (pg l + of_nat i) = pmem st (q + of_nat i)"
  using assms by (simp_all add: copies_def)

lemma same_on_offset:
  assumes "same_on A st st'" "p \<in> A" "page_aligned p" "i < 4096"
  shows "pmem st' (p + of_nat i) = pmem st (p + of_nat i)"
  using assms page_of_offset(1)[OF assms(3,4)] by (simp add: same_on_def)

lemma two_spaces_ext:
  assumes "two_spaces src dst st A" "dir_ext dst st A st' A'"
  shows "two_spaces src dst st' A'" "translate st' src l = translate st src l" "frame st' src l = frame st src l"
proof -
  have t: "page_pool st A" "dir_ok st A src" "dir_ok st A dst" "insert src (tables st src) \<inter> insert dst (tables st dst) = {}"
    using assms(1) by (simp_all add: two_spaces_def)
  note e = ext_isolated[OF t(1,3,2,4) assms(2)]
  show "two_spaces src dst st' A'" using e dir_extD(1,2)[OF assms(2)] by (simp add: two_spaces_def)
  show "translate st' src l = translate st src l" "frame st' src l = frame st src l" using e by (simp_all add: frame_def)
qed

lemma backed_ext:
  assumes "two_spaces src dst st A" "dir_ext dst st A st' A'" "backed src dst L st A"
  shows "backed src dst L st' A'"
proof -
  note d = dir_extD[OF assms(2)]
  show ?thesis unfolding backed_def
  proof (intro ballI conjI)
    fix l assume l: "l \<in> L"
    show "page_aligned l" using assms(3) l by (simp add: backed_def)
    obtain q where q: "q \<in> A - insert dst (tables st dst)" "frame st src l = Some q" using assms(3) l by (auto simp: backed_def)
    have "q \<in> A' - insert dst (tables st' dst)" using q(1) d(3,5) by blast
    then show "\<exists>q \<in> A' - insert dst (tables st' dst). frame st' src l = Some q"
      using q(2) two_spaces_ext(3)[OF assms(1,2)] by auto
  qed
qed

lemma copies_refl: "page_pool st A \<Longrightarrow> dir_ok st A dst \<Longrightarrow> copies src dst {} pg st A st A"
  by (simp add: copies_def dir_ext_refl)

lemma copies_union:
  assumes t: "two_spaces src dst st A" and b: "backed src dst M st A"
    and c: "copies src dst L pg st A s1 A1" and c': "copies src dst M pg' s1 A1 s2 A2" and LM: "L \<inter> M = {}"
  shows "copies src dst (L \<union> M) (\<lambda>l. if l \<in> L then pg l else pg' l) st A s2 A2"
proof -
  note C = copiesD[OF c] and D = copiesD[OF c']
  note e = dir_extD[OF C(1)] and f = dir_extD[OF D(1)]
  let ?pg = "\<lambda>l. if l \<in> L then pg l else pg' l"
  have img: "?pg ` (L \<union> M) = pg ` L \<union> pg' ` M" "pg ` L \<inter> pg' ` M = {}" using LM C(4) D(4) by auto
  have im: "?pg ` L = pg ` L" "?pg ` (M - L) = pg' ` M" "L - M = L" "M - L = M" using LM by auto
  have val: "?pg l = pg' l" if "l \<in> M" for l using that LM by auto
  have "inj_on ?pg L = inj_on pg L" "inj_on ?pg M = inj_on pg' M" by (rule inj_on_cong, simp) (rule inj_on_cong, rule val)
  then have inj: "inj_on ?pg (L \<union> M)" unfolding inj_on_Un im using C(2) D(2) img(2) im(1,2,4) by simp
  have sub: "?pg ` (L \<union> M) \<subseteq> A2 - A - insert dst (tables s2 dst)" unfolding img(1) using C(4) D(4) e(3) f(3,5) by blast
  have content: "pmem s2 (?pg l + of_nat i) = pmem st (q + of_nat i)" if l: "l \<in> L \<union> M" and i: "i < 4096" and q: "frame st src l = Some q" for l i q
  proof (cases "l \<in> L")
    case True
    then have "pg l \<in> A1 - insert dst (tables s1 dst)" using C(4) by blast
    from same_on_offset[OF f(6) this C(3)[OF True] i] show ?thesis using C(6)[OF True i q] True by simp
  next
    case False
    then have lM: "l \<in> M" using l by blast
    have "frame s1 src l = Some q" using q two_spaces_ext(3)[OF t C(1)] by simp
    note D(6)[OF lM i this]
    moreover have "q \<in> A - insert dst (tables st dst)" using b lM q by (auto simp: backed_def)
    then have "pmem s1 (q + of_nat i) = pmem st (q + of_nat i)" using same_on_offset[OF e(6) _ frame_aligned[OF q] i] by blast
    ultimately show ?thesis using False by simp
  qed
  have "translate s2 dst l = (if l \<in> L \<union> M then Some (?pg l OR PAGE_PRESENT OR PAGE_USER OR PAGE_READ_WRITE) else translate st dst l)"
    if "page_aligned l" for l using C(5)[OF that] D(5)[OF that] LM by auto
  moreover have "\<forall>l \<in> L \<union> M. page_aligned (?pg l)" using C(3) D(3) by auto
  ultimately show ?thesis unfolding copies_def using dir_ext_trans[OF C(1) D(1)] inj sub content by blast
qed

lemma dir_ext_pmem:
  assumes e: "dir_ext dst st A s A'" and p: "p \<in> A' - A - insert dst (tables s dst)"
    and m: "\<forall>x. page_of x \<noteq> page_of p \<longrightarrow> m x = pmem s x"
  shows "dir_ext dst st A (s\<lparr>pmem := m\<rparr>) A'" "translate (s\<lparr>pmem := m\<rparr>) dst l = translate s dst l"
    "tables (s\<lparr>pmem := m\<rparr>) dst = tables s dst"
proof -
  let ?s = "s\<lparr>pmem := m\<rparr>"
  note d = dir_extD[OF e] and dk = dir_okD[OF dir_extD(1,2)[OF e]]
  have man: "A' \<subseteq> managed s" by (rule page_poolD(1)[OF d(1)])
  then have al: "page_aligned p" using p managedD(1) by blast
  have so: "same_on (A' - {p}) s ?s" by (rule same_on_other[OF al man]) (simp add: m)
  have sd: "same_on (insert dst (tables s dst)) s ?s" "same_on {dst} s ?s" using dk p by (auto intro!: same_on_mono[OF so])
  show t: "translate ?s dst l = translate s dst l" by (rule translate_cong[OF dk(1) sd(1)])
  show tb: "tables ?s dst = tables s dst" by (rule tables_cong[OF dk(1) sd(2)])
  have "page_pool ?s A'" by (rule page_pool_frame[OF d(1)]) (use p m in blast)
  moreover have "dir_ok ?s A' dst" by (rule dir_ok_cong[OF d(2) dk(1) sd(2)]) (use dk in blast)
  moreover have "same_on (A - insert dst (tables st dst)) st ?s"
    by (rule same_on_trans[OF d(6) so]) (use d(3) p in blast)+
  ultimately show "dir_ext dst st A ?s A'" using e tb by (simp add: dir_ext_def)
qed

lemma copy_one:
  assumes t: "two_spaces src dst st A" and b: "backed src dst {l} st A" and r: "room (Suc (Suc k)) st"
  obtains page s1 s2 q A2 where "alloc_page st = (page, s1)" "map_page dst l page PAGE_USER PAGE_READ_WRITE s1 = Some s2"
    "lookup_page src l s2 = Some (Some q)" "room k (s2\<lparr>pmem := copy_phys page q 4096 (pmem s2)\<rparr>)"
    "copies src dst {l} (\<lambda>_. page) st A (s2\<lparr>pmem := copy_phys page q 4096 (pmem s2)\<rparr>) A2"
proof -
  have ok: "page_pool st A" "dir_ok st A dst" using t by (simp_all add: two_spaces_def)
  have l: "page_aligned l" using b by (simp add: backed_def)
  obtain q where q: "q \<in> A - insert dst (tables st dst)" "frame st src l = Some q" using b by (auto simp: backed_def)
  obtain p s1 where p: "alloc_page st = (p, s1)" "p \<notin> A" "page_aligned p"
    "page_pool s1 (insert p A)" "same_on A st s1" "room (Suc k) s1" "dir_ext dst st A s1 (insert p A)"
    "\<forall>l. translate s1 dst l = translate st dst l" "tables s1 dst = tables st dst"
    "\<forall>x. page_of x = page_of p \<longrightarrow> pmem s1 x = 0"
    by (rule alloc_page_ext[OF ok r])
  have fl: "PAGE_USER \<le> 7" "PAGE_READ_WRITE \<le> 7" by (simp_all add: PAGE_USER_def PAGE_READ_WRITE_def)
  obtain s2 A2 where m: "map_page dst l p PAGE_USER PAGE_READ_WRITE s1 = Some s2"
    "dir_ext dst s1 (insert p A) s2 A2" "room k s2"
    "\<forall>l'. page_aligned l' \<longrightarrow> translate s2 dst l' = (if l' = l then Some (p OR PAGE_PRESENT OR PAGE_USER OR PAGE_READ_WRITE) else translate s1 dst l')"
    "A2 - insert p A \<subseteq> tables s2 dst"
    by (rule map_page_ext[OF p(4) dir_extD(2)[OF p(7)] p(6) l p(3) fl])
  have e: "dir_ext dst st A s2 A2" by (rule dir_ext_trans[OF p(7) m(2)])
  have "frame s2 src l = Some q" using q(2) two_spaces_ext(3)[OF t e] by simp
  then have lk: "lookup_page src l s2 = Some (Some q)" using lookup_frame[OF l] by simp
  define s3 where "s3 = s2\<lparr>pmem := copy_phys p q 4096 (pmem s2)\<rparr>"
  have ne: "p \<noteq> q" using p(2) q(1) by blast
  note cp = copy_phys_upto[OF p(3) frame_aligned[OF q(2)] ne order_refl, of "pmem s2"]
  have pA: "p \<in> A2 - A - insert dst (tables s2 dst)"
    using p(2,9) dir_extD(3,5)[OF m(2)] dir_okD(2,3)[OF ok] by blast
  note x = dir_ext_pmem[OF e pA, of "copy_phys p q 4096 (pmem s2)", folded s3_def]
  have c: "pmem s3 (p + of_nat i) = pmem st (q + of_nat i)" if i: "i < 4096" for i
    using cp i same_on_offset[OF dir_extD(6)[OF e] q(1) frame_aligned[OF q(2)] i] by (simp add: s3_def)
  have "copies src dst {l} (\<lambda>_. p) st A s3 A2"
    unfolding copies_def using x cp c m(4) p(3,8) pA q(2) by auto
  moreover have "room k s3" using m(3) by (simp add: room_def s3_def)
  ultimately show ?thesis using that[OF p(1) m(1) lk] by (simp add: s3_def)
qed

section \<open>The loops of fork\<close>

definition pages_between :: "u32 \<Rightarrow> u32 \<Rightarrow> u32 set" where
  "pages_between lo hi = {l. page_aligned l \<and> lo \<le> l \<and> l < hi}"

lemma pages_between_step:
  assumes "page_aligned lo" "page_aligned hi" "lo < hi"
  shows "pages_between lo hi = insert lo (pages_between (lo + PAGE_SIZE) hi)" "lo \<notin> pages_between (lo + PAGE_SIZE) hi"
    "page_aligned (lo + PAGE_SIZE)" "unat (lo + PAGE_SIZE) = unat lo + 4096" "unat lo + 4096 \<le> unat hi"
proof -
  obtain a b where ab: "unat lo = 4096 * a" "unat hi = 4096 * b" using assms(1,2) by (auto simp: page_aligned_def elim!: dvdE)
  then have "a < b" using assms(3) by (simp add: word_less_nat_alt)
  then show le: "unat lo + 4096 \<le> unat hi" using ab by simp
  then show u: "unat (lo + PAGE_SIZE) = unat lo + 4096" using unat_u32_less[of hi] by (simp add: PAGE_SIZE_def unat_word_ariths)
  then show "page_aligned (lo + PAGE_SIZE)" using assms(1) by (simp add: page_aligned_def)
  show "lo \<notin> pages_between (lo + PAGE_SIZE) hi" using u by (simp add: pages_between_def word_le_nat_alt)
  have "lo \<le> l \<longleftrightarrow> l = lo \<or> lo + PAGE_SIZE \<le> l" if "page_aligned l" for l
    using that ab(1) u by (auto simp: word_le_nat_alt page_aligned_def simp flip: unat_u32_inj elim!: dvdE)
  then show "pages_between lo hi = insert lo (pages_between (lo + PAGE_SIZE) hi)"
    using assms by (auto simp: pages_between_def)
qed

lemma pages_between_empty: "\<not> lo < hi \<Longrightarrow> pages_between lo hi = {}"
  by (auto simp: pages_between_def)

lemma copy_loop_end:
  assumes "two_spaces src dst st A" "\<not> addr < to" "room k st"
  shows "\<exists>st' A' pg. copy_loop src dst addr to st = Some st' \<and> copies src dst (pages_between addr to) pg st A st' A' \<and> room k st'"
proof -
  have "copies src dst {} id st A st A" using assms(1) by (intro copies_refl) (simp_all add: two_spaces_def)
  moreover have "copy_loop src dst addr to st = Some st" using assms(2) by (subst copy_loop.simps) simp
  ultimately show ?thesis unfolding pages_between_empty[OF assms(2)] using assms(3) by blast
qed

lemma copy_loop_ok:
  assumes "two_spaces src dst st A" "backed src dst (pages_between addr to) st A" "page_aligned addr" "page_aligned to"
    "unat to - unat addr \<le> 4096 * n" "room (2 * n + k) st"
  shows "\<exists>st' A' pg. copy_loop src dst addr to st = Some st' \<and> copies src dst (pages_between addr to) pg st A st' A' \<and> room k st'"
  using assms
proof (induction n arbitrary: addr st A)
  case 0
  then have "\<not> addr < to" by (simp add: word_less_nat_alt)
  then show ?case by (rule copy_loop_end[OF 0(1)]) (use 0(6) in simp)
next
  case (Suc n)
  show ?case
  proof (cases "addr < to")
    case False
    then show ?thesis by (rule copy_loop_end[OF Suc.prems(1)]) (use Suc.prems(6) in \<open>simp add: room_def\<close>)
  next
    case True
    note P = pages_between_step[OF Suc.prems(3,4) True]
    have b: "backed src dst {addr} st A" "backed src dst (pages_between (addr + PAGE_SIZE) to) st A"
      using Suc.prems(2) P(1) by (simp_all add: backed_def)
    have r: "room (Suc (Suc (2 * n + k))) st" using Suc.prems(6) by (simp add: room_def)
    obtain page s1 s2 q A2 where s: "alloc_page st = (page, s1)" "map_page dst addr page PAGE_USER PAGE_READ_WRITE s1 = Some s2"
      "lookup_page src addr s2 = Some (Some q)" "room (2 * n + k) (s2\<lparr>pmem := copy_phys page q 4096 (pmem s2)\<rparr>)"
      "copies src dst {addr} (\<lambda>_. page) st A (s2\<lparr>pmem := copy_phys page q 4096 (pmem s2)\<rparr>) A2"
      by (rule copy_one[OF Suc.prems(1) b(1) r])
    define s3 where "s3 = s2\<lparr>pmem := copy_phys page q 4096 (pmem s2)\<rparr>"
    have c: "copies src dst {addr} (\<lambda>_. page) st A s3 A2" and rm: "room (2 * n + k) s3" using s(4,5) by (simp_all add: s3_def)
    note e = copiesD(1)[OF c]
    have "unat to - unat (addr + PAGE_SIZE) \<le> 4096 * n" using Suc.prems(5) P(4) by simp
    from Suc.IH[OF two_spaces_ext(1)[OF Suc.prems(1) e] backed_ext[OF Suc.prems(1) e b(2)] P(3) Suc.prems(4) this rm]
    obtain st' A' pg where i: "copy_loop src dst (addr + PAGE_SIZE) to s3 = Some st'"
      "copies src dst (pages_between (addr + PAGE_SIZE) to) pg s3 A2 st' A'" "room k st'" by blast
    have "copies src dst (insert addr (pages_between (addr + PAGE_SIZE) to)) (\<lambda>l. if l \<in> {addr} then page else pg l) st A st' A'"
      using copies_union[OF Suc.prems(1) b(2) c i(2)] P(2) by simp
    moreover have "copy_loop src dst addr to st = Some st'"
      using True s(1-3) i(1) by (subst copy_loop.simps) (simp add: s3_def)
    ultimately show ?thesis using i(3) unfolding P(1) by blast
  qed
qed

lemma map_low_ok:
  assumes "page_pool st A" "dir_ok st A pdir" "room (n + k) st" "page_aligned addr" "page_aligned to" "unat to - unat addr \<le> 4096 * n"
  shows "\<exists>st' A'. map_low pdir addr to st = Some st' \<and> dir_ext pdir st A st' A' \<and> room k st' \<and>
    (\<forall>l. page_aligned l \<longrightarrow> translate st' pdir l =
       (if l \<in> pages_between addr to then Some (l OR PAGE_PRESENT OR PAGE_USER OR PAGE_READ_ONLY) else translate st pdir l))"
  using assms
proof (induction n arbitrary: addr st A)
  case 0
  then have "\<not> addr < to" by (simp add: word_less_nat_alt)
  then show ?case using dir_ext_refl[OF 0(1,2)] 0(3) by (subst map_low.simps) (auto simp: pages_between_empty)
next
  case (Suc n)
  show ?case
  proof (cases "addr < to")
    case False
    then show ?thesis using dir_ext_refl[OF Suc.prems(1,2)] Suc.prems(3) by (subst map_low.simps) (auto simp: pages_between_empty room_def)
  next
    case True
    note P = pages_between_step[OF Suc.prems(4,5) True]
    have fl: "PAGE_USER \<le> 7" "PAGE_READ_ONLY \<le> 7" by (simp_all add: PAGE_USER_def PAGE_READ_ONLY_def)
    have r: "room (Suc (n + k)) st" using Suc.prems(3) by simp
    obtain s1 A1 where m: "map_page pdir addr addr PAGE_USER PAGE_READ_ONLY st = Some s1" "dir_ext pdir st A s1 A1" "room (n + k) s1"
      "\<forall>l. page_aligned l \<longrightarrow> translate s1 pdir l = (if l = addr then Some (addr OR PAGE_PRESENT OR PAGE_USER OR PAGE_READ_ONLY) else translate st pdir l)"
      "A1 - A \<subseteq> tables s1 pdir"
      by (rule map_page_ext[OF Suc.prems(1,2) r Suc.prems(4,4) fl])
    have le: "unat to - unat (addr + PAGE_SIZE) \<le> 4096 * n" using Suc.prems(6) P(4) by simp
    obtain s2 A2 where i: "map_low pdir (addr + PAGE_SIZE) to s1 = Some s2" "dir_ext pdir s1 A1 s2 A2" "room k s2"
      "\<forall>l. page_aligned l \<longrightarrow> translate s2 pdir l =
       (if l \<in> pages_between (addr + PAGE_SIZE) to then Some (l OR PAGE_PRESENT OR PAGE_USER OR PAGE_READ_ONLY) else translate s1 pdir l)"
      using Suc.IH[OF dir_extD(1,2)[OF m(2)] m(3) P(3) Suc.prems(5) le] by blast
    have "map_low pdir addr to st = Some s2" using True m(1) i(1) by (subst map_low.simps) simp
    then show ?thesis using i(3,4) m(4) dir_ext_trans[OF m(2) i(2)] P(1) by auto
  qed
qed

text \<open>The logical pages of a process, and how many bytes they have.\<close>

definition user_pages :: "process \<Rightarrow> u32 set" where
  "user_pages p = pages_between (p_text_start p) (p_text_end p) \<union> pages_between (p_data_start p) (p_data_end p) \<union>
     pages_between (p_stack_start p) (p_stack_end p)"

definition user_size :: "process \<Rightarrow> nat" where
  "user_size p = (unat (p_text_end p) - unat (p_text_start p)) + (unat (p_data_end p) - unat (p_data_start p)) +
     (unat (p_stack_end p) - unat (p_stack_start p))"

text \<open>
  The address space of a process as the kernel keeps it: the segments start and end at page borders,
  lie above the six megabytes that every process shares and do not overlap, and each page of
  them is mapped to a live page.
\<close>

definition space_ok :: "pages \<Rightarrow> u32 set \<Rightarrow> process \<Rightarrow> bool" where
  "space_ok g A p \<longleftrightarrow> page_pool g A \<and> dir_ok g A (p_pdir p) \<and>
     (\<forall>a \<in> {p_text_start p, p_text_end p, p_data_start p, p_data_end p, p_stack_start p, p_stack_end p}. page_aligned a) \<and>
     pages_between (p_text_start p) (p_text_end p) \<inter> pages_between (p_data_start p) (p_data_end p) = {} \<and>
     (pages_between (p_text_start p) (p_text_end p) \<union> pages_between (p_data_start p) (p_data_end p)) \<inter>
       pages_between (p_stack_start p) (p_stack_end p) = {} \<and>
     (\<forall>l \<in> user_pages p. 6 * MB \<le> l \<and> (\<exists>q \<in> A. frame g (p_pdir p) l = Some q))"

lemma copy_segment:
  assumes t: "two_spaces src dst st A" and b: "backed src dst (L \<union> pages_between lo hi) st A"
    and c: "copies src dst L pg st A s1 A1" and al: "page_aligned lo" "page_aligned hi" and d: "L \<inter> pages_between lo hi = {}"
    and r: "room (2 * ((unat hi - unat lo) div 4096) + k) s1"
  shows "\<exists>s2 A2 pg'. map_and_copy src dst lo hi s1 = Some s2 \<and> copies src dst (L \<union> pages_between lo hi) pg' st A s2 A2 \<and> room k s2"
proof -
  note e = copiesD(1)[OF c]
  have b': "backed src dst (pages_between lo hi) st A" using b by (simp add: backed_def)
  have "4096 dvd unat hi - unat lo" using al by (intro dvd_diff_nat) (simp_all add: page_aligned_def)
  then have n: "unat hi - unat lo \<le> 4096 * ((unat hi - unat lo) div 4096)" by simp
  obtain s2 A2 pg2 where s: "copy_loop src dst lo hi s1 = Some s2" "copies src dst (pages_between lo hi) pg2 s1 A1 s2 A2" "room k s2"
    using copy_loop_ok[OF two_spaces_ext(1)[OF t e] backed_ext[OF t e b'] al n r] by blast
  have "map_and_copy src dst lo hi s1 = Some s2" using s(1) al by (simp add: map_and_copy_def page_aligned_mod)
  then show ?thesis using copies_union[OF t b' c s(2) d] s(3) by blast
qed

lemma div_le_add: "a div c + b div c \<le> (a + b) div (c :: nat)"
  unfolding div_add1_eq[of a b c] by simp

lemma copy_space_ok:
  assumes t: "two_spaces (p_pdir p) pdir st A" and s: "space_ok g B p" and b: "backed (p_pdir p) pdir (user_pages p) st A"
    and r: "room (1536 + 2 * (user_size p div 4096)) st"
  obtains s1 A1 st' A' pg where "copy_space p pdir st = Some st'" "dir_ext pdir st A s1 A1"
    "\<forall>l. page_aligned l \<longrightarrow> translate s1 pdir l =
       (if l < 6 * MB then Some (l OR PAGE_PRESENT OR PAGE_USER OR PAGE_READ_ONLY) else translate st pdir l)"
    "copies (p_pdir p) pdir (user_pages p) pg s1 A1 st' A'"
proof -
  let ?n = "\<lambda>a b. (unat (b p) - unat (a p :: u32)) div 4096"
  let ?t = "?n p_text_start p_text_end" and ?d = "?n p_data_start p_data_end" and ?s = "?n p_stack_start p_stack_end"
  have al: "page_aligned (p_text_start p)" "page_aligned (p_text_end p)" "page_aligned (p_data_start p)" "page_aligned (p_data_end p)"
    "page_aligned (p_stack_start p)" "page_aligned (p_stack_end p)" using s by (simp_all add: space_ok_def)
  have d: "pages_between (p_text_start p) (p_text_end p) \<inter> pages_between (p_data_start p) (p_data_end p) = {}"
    "(pages_between (p_text_start p) (p_text_end p) \<union> pages_between (p_data_start p) (p_data_end p)) \<inter>
       pages_between (p_stack_start p) (p_stack_end p) = {}" using s by (simp_all add: space_ok_def)
  have "?t + ?d + ?s \<le> user_size p div 4096"
    unfolding user_size_def by (rule order_trans[OF add_right_mono[OF div_le_add] div_le_add])
  then have r1: "room (1536 + (2 * ?t + (2 * ?d + (2 * ?s + 0)))) st" using r by (simp add: room_def)
  have ok: "page_pool st A" "dir_ok st A pdir" using t by (simp_all add: two_spaces_def)
  have z: "page_aligned (0 * MB)" "page_aligned (6 * MB)" "unat (6 * MB) - unat (0 * MB) \<le> 4096 * 1536"
    by (simp_all add: page_aligned_def MB_def)
  obtain s1 A1 where m: "map_low pdir (0 * MB) (6 * MB) st = Some s1" "dir_ext pdir st A s1 A1" "room (2 * ?t + (2 * ?d + (2 * ?s + 0))) s1"
    "\<forall>l. page_aligned l \<longrightarrow> translate s1 pdir l =
       (if l \<in> pages_between (0 * MB) (6 * MB) then Some (l OR PAGE_PRESENT OR PAGE_USER OR PAGE_READ_ONLY) else translate st pdir l)"
    using map_low_ok[OF ok r1 z] by blast
  note t1 = two_spaces_ext(1)[OF t m(2)] and b1 = backed_ext[OF t m(2) b]
  have bs: "backed (p_pdir p) pdir ({} \<union> pages_between (p_text_start p) (p_text_end p)) s1 A1"
    "backed (p_pdir p) pdir ({} \<union> pages_between (p_text_start p) (p_text_end p) \<union> pages_between (p_data_start p) (p_data_end p)) s1 A1"
    "backed (p_pdir p) pdir ({} \<union> pages_between (p_text_start p) (p_text_end p) \<union> pages_between (p_data_start p) (p_data_end p) \<union>
       pages_between (p_stack_start p) (p_stack_end p)) s1 A1"
    using b1 by (auto simp: backed_def user_pages_def)
  have c0: "copies (p_pdir p) pdir {} id s1 A1 s1 A1" using copies_refl dir_extD(1,2)[OF m(2)] by blast
  obtain s2 A2 pg2 where c1: "map_and_copy (p_pdir p) pdir (p_text_start p) (p_text_end p) s1 = Some s2"
    "copies (p_pdir p) pdir ({} \<union> pages_between (p_text_start p) (p_text_end p)) pg2 s1 A1 s2 A2" "room (2 * ?d + (2 * ?s + 0)) s2"
    using copy_segment[OF t1 bs(1) c0 al(1,2) _ m(3)] by auto
  have dis: "({} \<union> pages_between (p_text_start p) (p_text_end p)) \<inter> pages_between (p_data_start p) (p_data_end p) = {}" using d(1) by simp
  obtain s3 A3 pg3 where c2: "map_and_copy (p_pdir p) pdir (p_data_start p) (p_data_end p) s2 = Some s3"
    "copies (p_pdir p) pdir ({} \<union> pages_between (p_text_start p) (p_text_end p) \<union> pages_between (p_data_start p) (p_data_end p)) pg3 s1 A1 s3 A3"
    "room (2 * ?s + 0) s3"
    using copy_segment[OF t1 bs(2) c1(2) al(3,4) dis c1(3)] by blast
  obtain s4 A4 pg4 where c3: "map_and_copy (p_pdir p) pdir (p_stack_start p) (p_stack_end p) s3 = Some s4"
    "copies (p_pdir p) pdir (user_pages p) pg4 s1 A1 s4 A4"
    using copy_segment[OF t1 bs(3) c2(2) al(5,6) _ c2(3)] d(2) by (auto simp: user_pages_def)
  have "copy_space p pdir st = Some s4" using m(1) c1(1) c2(1) c3(1) by (simp add: copy_space_def)
  moreover have "\<forall>l. page_aligned l \<longrightarrow> translate s1 pdir l =
       (if l < 6 * MB then Some (l OR PAGE_PRESENT OR PAGE_USER OR PAGE_READ_ONLY) else translate st pdir l)"
    using m(4) by (simp add: pages_between_def)
  ultimately show ?thesis using that m(2) c3(2) by blast
qed


end
