(* ===== verification/Fork_Process.thy ===== *)
theory Fork_Process
  imports Fork_Correct User_Memory
begin

text \<open>
  fork as a whole: the descriptors, the address space and the process structure of the child.
\<close>

section \<open>Descriptors\<close>

text \<open>Every descriptor of the parent counts once more in the handle it refers to.\<close>

definition shared :: "u32 list \<Rightarrow> (u32 \<Rightarrow> filehandle option) \<Rightarrow> u32 \<Rightarrow> filehandle option" where
  "shared fds F f = map_option (\<lambda>h. h\<lparr>refcount := refcount h + int (count_list (filter (\<lambda>f. f \<noteq> 0) fds) f)\<rparr>) (F f)"

lemma shared_Nil [simp]: "shared [] F = F"
proof
  fix f show "shared [] F f = F f" by (cases "F f") (simp_all add: shared_def)
qed

lemma shared_snoc:
  "shared (fds @ [f]) F = (if f = 0 then shared fds F else (shared fds F)(f := map_option (\<lambda>h. h\<lparr>refcount := refcount h + 1\<rparr>) (shared fds F f)))"
proof
  fix g show "shared (fds @ [f]) F g = (if f = 0 then shared fds F else (shared fds F)(f := map_option (\<lambda>h. h\<lparr>refcount := refcount h + 1\<rparr>) (shared fds F f))) g"
    by (cases "F g") (auto simp: shared_def)
qed

lemma share_fds_ok:
  assumes i: "i < length (procs st)" "c < length (procs st)" "i \<noteq> c" and fds: "length (p_filedesc (procs st ! i)) = MAX_FDS"
    and z: "p_filedesc (procs st ! c) = replicate MAX_FDS 0" and F: "\<forall>f \<in> set (p_filedesc (procs st ! i)). f \<noteq> 0 \<longrightarrow> fhs st f \<noteq> None"
  shows "share_fds i c st = Some (st\<lparr>procs := (procs st)[c := (procs st ! c)\<lparr>p_filedesc := p_filedesc (procs st ! i)\<rparr>],
    fhs := shared (p_filedesc (procs st ! i)) (fhs st)\<rparr>)"
proof -
  let ?d = "p_filedesc (procs st ! i)"
  define upto where "upto n = st\<lparr>procs := (procs st)[c := (procs st ! c)\<lparr>p_filedesc := take n ?d @ replicate (MAX_FDS - n) 0\<rparr>],
     fhs := shared (take n ?d) (fhs st)\<rparr>" for n
  have "\<exists>s. share_fds i c st = Some s \<and> s = upto MAX_FDS" unfolding share_fds_def
  proof (rule fold_opt_inv[where P = "\<lambda>n s. s = upto n"])
    have "(procs st ! c)\<lparr>p_filedesc := replicate MAX_FDS 0\<rparr> = procs st ! c" using z by simp
    then show "st = upto 0" by (simp add: upto_def list_update_id)
  next
    fix n s assume n: "n < MAX_FDS" and s: "s = upto n"
    let ?f = "?d ! n"
    have ps: "procs s ! i = procs st ! i" "length (procs s) = length (procs st)"
      "procs s ! c = (procs st ! c)\<lparr>p_filedesc := take n ?d @ replicate (MAX_FDS - n) 0\<rparr>" using i by (simp_all add: s upto_def)
    have tk: "take (Suc n) ?d = take n ?d @ [?f]" using n fds by (simp add: take_Suc_conv_app_nth)
    have rep: "replicate (MAX_FDS - n) (0::u32) = 0 # replicate (MAX_FDS - Suc n) 0" using n by (simp add: Suc_diff_Suc flip: replicate_Suc)
    have up: "(take n ?d @ replicate (MAX_FDS - n) 0)[n := ?f] = take (Suc n) ?d @ replicate (MAX_FDS - Suc n) 0"
      using n fds unfolding rep tk by (simp add: list_update_append)
    show "\<exists>s'. (do { p \<leftarrow> get_proc s i; f \<leftarrow> list_get (p_filedesc p) n;
       if f \<noteq> 0 then do { st1 \<leftarrow> proc_fd_set c n f s; fh \<leftarrow> get_fh st1 f; Some (set_fh f (fh\<lparr>refcount := refcount fh + 1\<rparr>) st1) }
       else Some s }) = Some s' \<and> s' = upto (Suc n)"
    proof (cases "?f = 0")
      case True
      have "take n ?d @ replicate (MAX_FDS - n) 0 = take (Suc n) ?d @ replicate (MAX_FDS - Suc n) 0" unfolding rep tk using True by simp
      then have "upto (Suc n) = s" unfolding s upto_def tk shared_snoc using True by simp
      then show ?thesis using ps i n fds True by (simp add: get_proc_def)
    next
      case False
      have "?f \<in> set ?d" using n fds by simp
      then obtain h where h: "shared (take n ?d) (fhs st) ?f = Some h" using F False by (auto simp: shared_def)
      have "proc_fd_set c n ?f s = Some (s\<lparr>procs := (procs st)[c := (procs st ! c)\<lparr>p_filedesc := take (Suc n) ?d @ replicate (MAX_FDS - Suc n) 0\<rparr>]\<rparr>)"
        using ps i up by (simp add: proc_fd_set_def upd_proc_ok) (simp add: s upto_def)
      moreover have "fhs s ?f = Some h" using h by (simp add: s upto_def)
      ultimately show ?thesis using ps i n fds False h unfolding upto_def tk shared_snoc
        by (simp add: get_proc_def get_fh_def set_fh_def s upto_def)
    qed
  qed
  then show ?thesis using fds by (simp add: upto_def)
qed

section \<open>Memory of a directory\<close>

lemma rd8_frame: "rd8 (enable_paging d st) x = map_option (\<lambda>q. pmem (pgs st) (q + x mod PAGE_SIZE)) (frame (pgs st) d (x - x mod PAGE_SIZE))"
  by (cases "frame (pgs st) d (x - x mod PAGE_SIZE)") (simp_all add: rd8_def phys_def enable_paging_def lookup_frame page_base_aligned)

lemma offset_in_page: "x mod PAGE_SIZE = of_nat (unat x mod 4096)" "unat x mod 4096 < 4096"
  by (simp_all add: PAGE_SIZE_def word_unat_eq_iff unat_mod unat_of_nat)

lemma phys_frame: "phys (enable_paging d st) x = map_option (\<lambda>q. q + x mod PAGE_SIZE) (frame (pgs st) d (x - x mod PAGE_SIZE))"
  by (cases "frame (pgs st) d (x - x mod PAGE_SIZE)") (simp_all add: phys_def enable_paging_def lookup_frame page_base_aligned)

text \<open>The logical addresses of a process.\<close>

definition user_addr :: "process \<Rightarrow> u32 \<Rightarrow> bool" where
  "user_addr p x \<longleftrightarrow> p_text_start p \<le> x \<and> x < p_text_end p \<or> p_data_start p \<le> x \<and> x < p_data_end p \<or>
     p_stack_start p \<le> x \<and> x < p_stack_end p"

lemma base_between:
  assumes "page_aligned lo" "lo \<le> x" "x < hi"
  shows "x - x mod PAGE_SIZE \<in> pages_between lo hi"
proof -
  have u: "unat (x - x mod PAGE_SIZE) = unat x - unat x mod 4096"
    by (simp add: PAGE_SIZE_def unat_sub word_le_nat_alt unat_mod)
  obtain k where k: "unat lo = 4096 * k" using assms(1) by (auto simp: page_aligned_def)
  have "4096 * k \<le> unat x - unat x mod 4096" using assms(2) k unfolding minus_mod_eq_mult_div
    by (simp add: word_le_nat_alt less_eq_div_iff_mult_less_eq mult.commute)
  moreover have "unat x - unat x mod 4096 < unat hi" using assms(3) by (simp add: word_less_nat_alt)
  ultimately show ?thesis using u k page_base_aligned by (simp add: pages_between_def word_le_nat_alt word_less_nat_alt)
qed

lemma user_addr_page:
  assumes "space_ok g A p" "user_addr p x" shows "x - x mod PAGE_SIZE \<in> user_pages p"
  using assms base_between unfolding user_addr_def user_pages_def space_ok_def by auto

lemma space_ok_ext:
  assumes s: "space_ok g A p" and g': "page_pool g' A'" "dir_ok g' A' (p_pdir p)" "A \<subseteq> A'" "\<forall>l. translate g' (p_pdir p) l = translate g (p_pdir p) l"
  shows "space_ok g' A' p"
proof -
  have f: "frame g' (p_pdir p) l = frame g (p_pdir p) l" for l using g'(4) by (simp add: frame_def)
  have "\<forall>l \<in> user_pages p. 6 * MB \<le> l \<and> (\<exists>q \<in> A. frame g (p_pdir p) l = Some q)" using s by (simp add: space_ok_def)
  then have "\<forall>l \<in> user_pages p. 6 * MB \<le> l \<and> (\<exists>q \<in> A'. frame g' (p_pdir p) l = Some q)" unfolding f using g'(3) by blast
  then show ?thesis using s g'(1,2) by (simp add: space_ok_def)
qed

text \<open>The directory that fork makes for the child.\<close>

lemma fork_space:
  assumes s: "space_ok g A p" and r: "room (1537 + 2 * (user_size p div 4096)) g"
  obtains pdir g1 g2 A' where "alloc_page g = (pdir, g1)" "copy_space p pdir g1 = Some g2" "space_ok g2 A' p" "space_ok g2 A' (p\<lparr>p_pdir := pdir\<rparr>)"
    "same_on A g g2" "\<And>l. translate g2 (p_pdir p) l = translate g (p_pdir p) l"
    "\<And>l. l \<in> user_pages p \<Longrightarrow> \<exists>q pg. frame g (p_pdir p) l = Some q \<and> q \<in> A \<and> frame g2 pdir l = Some pg \<and> pg \<notin> A \<and> page_aligned pg \<and>
        (\<forall>i < 4096. pmem g2 (pg + of_nat i) = pmem g (q + of_nat i))"
    "\<And>l. page_aligned l \<Longrightarrow> l \<notin> user_pages p \<Longrightarrow> translate g2 pdir l = (if l < 6 * MB then Some (l OR PAGE_PRESENT OR PAGE_USER OR PAGE_READ_ONLY) else None)"
proof -
  have ok: "page_pool g A" "dir_ok g A (p_pdir p)" using s by (simp_all add: space_ok_def)
  note dk = dir_okD[OF ok]
  have r': "room (Suc (1536 + 2 * (user_size p div 4096))) g" using r by simp
  obtain pdir g1 where a: "alloc_page g = (pdir, g1)" "pdir \<notin> A" "page_pool g1 (insert pdir A)" "same_on A g g1"
    "\<forall>l. translate g1 (p_pdir p) l = translate g (p_pdir p) l" "tables g1 (p_pdir p) = tables g (p_pdir p)" "dir_ok g1 (insert pdir A) (p_pdir p)"
    by (rule alloc_page_ext[OF ok r']) (use dir_extD(2) in blast)
  note nd = new_dir[OF ok(1) r' a(1)]
  have t: "two_spaces (p_pdir p) pdir g1 (insert pdir A)"
    using nd(1,2) a(2,3,6,7) dk by (auto simp: two_spaces_def)
  have fr: "frame g1 (p_pdir p) l = frame g (p_pdir p) l" for l using a(5) by (simp add: frame_def)
  have bk: "backed (p_pdir p) pdir (user_pages p) g1 (insert pdir A)"
    using s a(2) nd(2) unfolding backed_def fr by (auto simp: space_ok_def user_pages_def pages_between_def)
  obtain s1 A1 g2 A2 pg where c: "copy_space p pdir g1 = Some g2" "dir_ext pdir g1 (insert pdir A) s1 A1"
    "\<forall>l. page_aligned l \<longrightarrow> translate s1 pdir l =
       (if l < 6 * MB then Some (l OR PAGE_PRESENT OR PAGE_USER OR PAGE_READ_ONLY) else translate g1 pdir l)"
    "copies (p_pdir p) pdir (user_pages p) pg s1 A1 g2 A2"
    by (rule copy_space_ok[OF t s bk nd(4)])
  note C = copiesD[OF c(4)] and d1 = dir_extD[OF c(2)] and d2 = dir_extD[OF copiesD(1)[OF c(4)]]
  have A1: "A \<subseteq> A1" "A \<subseteq> A1 - insert pdir (tables s1 pdir)" using d1(3,5) a(2) nd(2) by auto
  have so1: "same_on A g s1" by (rule same_on_trans[OF a(4) d1(6)]) (use a(2) nd(2) in auto)
  have so: "same_on A g g2" by (rule same_on_trans[OF so1 d2(6)]) (use A1 in auto)
  have e: "dir_ext pdir g1 (insert pdir A) g2 A2" by (rule dir_ext_trans[OF c(2) C(1)])
  have tp: "translate g2 (p_pdir p) l = translate g (p_pdir p) l" for l using two_spaces_ext(2)[OF t e] a(5) by simp
  have t2: "two_spaces (p_pdir p) pdir g2 A2" by (rule two_spaces_ext(1)[OF t e])
  have sp: "space_ok g2 A2 p" by (rule space_ok_ext[OF s]) (use t2 tp A1(1) d2(3) in \<open>auto simp: two_spaces_def\<close>)
  have fl: "PAGE_USER \<le> 7" "PAGE_READ_WRITE \<le> 7" by (simp_all add: PAGE_USER_def PAGE_READ_WRITE_def)
  have al: "page_aligned l" if "l \<in> user_pages p" for l using that by (auto simp: user_pages_def pages_between_def)
  have fc: "frame g2 pdir l = Some (pg l)" if "l \<in> user_pages p" for l
    using C(5)[OF al[OF that]] that entry_present(2)[OF C(3)[OF that] fl] by (simp add: frame_def)
  have cont: "\<exists>q pg. frame g (p_pdir p) l = Some q \<and> q \<in> A \<and> frame g2 pdir l = Some pg \<and> pg \<notin> A \<and> page_aligned pg \<and>
        (\<forall>i < 4096. pmem g2 (pg + of_nat i) = pmem g (q + of_nat i))" if l: "l \<in> user_pages p" for l
  proof -
    obtain q where q: "q \<in> A" "frame g (p_pdir p) l = Some q" using s l by (auto simp: space_ok_def)
    have "frame s1 (p_pdir p) l = Some q" using q(2) fr two_spaces_ext(3)[OF t c(2)] by simp
    note m = C(6)[OF l _ this]
    have "pmem g2 (pg l + of_nat i) = pmem g (q + of_nat i)" if i: "i < 4096" for i
      using m[OF i] same_on_offset[OF so1 q(1) frame_aligned[OF q(2)] i] by simp
    moreover have "pg l \<notin> A" using C(4) l A1(1) by blast
    ultimately show ?thesis using q fc[OF l] C(3)[OF l] by blast
  qed
  have oth: "translate g2 pdir l = (if l < 6 * MB then Some (l OR PAGE_PRESENT OR PAGE_USER OR PAGE_READ_ONLY) else None)"
    if "page_aligned l" "l \<notin> user_pages p" for l using C(5)[OF that(1)] that(2) c(3) that(1) nd(3) by simp
  have "space_ok g2 A2 (p\<lparr>p_pdir := pdir\<rparr>)"
  proof -
    have up: "user_pages (p\<lparr>p_pdir := pdir\<rparr>) = user_pages p" by (simp add: user_pages_def)
    have "\<forall>l \<in> user_pages p. \<exists>q \<in> A2. frame g2 pdir l = Some q" using fc C(4) by auto
    then show ?thesis using s d2(1,2) unfolding space_ok_def up by auto
  qed
  then show ?thesis using that[OF a(1) c(1) sp _ so tp cont oth] by blast
qed

section \<open>fork\<close>

text \<open>The steps of fork, with the memory of the child already made.\<close>

lemma free_pid_found:
  assumes "length (procs st) = MAX_PROCESSES" "get_free_pid st = Some (int c)"
  shows "c < MAX_PROCESSES" "\<not> p_exists (procs st ! c)"
proof -
  obtain pid where p: "get_free_pid st = Some pid" "if \<forall>i. 0 < i \<and> i < MAX_PROCESSES \<longrightarrow> p_exists (procs st ! i) then pid = - 1
      else 0 < pid \<and> pid < int MAX_PROCESSES \<and> \<not> p_exists (procs st ! nat pid) \<and> (\<forall>i. 0 < i \<and> i < nat pid \<longrightarrow> p_exists (procs st ! i))"
    using get_free_pid_lowest[OF assms(1)] by (elim exE conjE)
  have pid: "pid = int c" using p(1) assms(2) by simp
  have "pid \<noteq> - 1" unfolding pid by simp
  then have "pid < int MAX_PROCESSES \<and> \<not> p_exists (procs st ! nat pid)" using p(2) by metis
  then show "c < MAX_PROCESSES" "\<not> p_exists (procs st ! c)" unfolding pid by simp_all
qed

lemma fork_steps:
  assumes s: "sched_inv st rs ss" and i: "current_process st = Some i" "i \<in> set rs" and c: "get_free_pid st = Some (int c)"
    and g: "alloc_page (pgs st) = (pdir, g1)" "copy_space (procs st ! i) pdir g1 = Some g2"
    and fds: "length (p_filedesc (procs st ! i)) = MAX_FDS" "\<forall>f \<in> set (p_filedesc (procs st ! i)). f \<noteq> 0 \<longrightarrow> fhs st f \<noteq> None"
  shows "\<exists>st'. syscall_fork r st = Some (int c, st') \<and> c \<noteq> i \<and> sched_inv st' (c # rs) ss \<and> pgs st' = g2 \<and> paging st' = Some (p_pdir (procs st ! i)) \<and>
     fhs st' = shared (p_filedesc (procs st ! i)) (fhs st) \<and>
     (\<forall>j < MAX_PROCESSES. j \<noteq> c \<longrightarrow> unlink (procs st' ! j) = unlink (procs st ! j)) \<and>
     (let p = procs st ! i in unlink (procs st' ! c) = zero_process\<lparr>p_pid := int c, p_parent_pid := p_pid p, p_exists := True, p_ready := True, p_pdir := pdir,
       p_text_start := p_text_start p, p_text_end := p_text_end p, p_data_start := p_data_start p, p_data_end := p_data_end p,
       p_stack_start := p_stack_start p, p_stack_end := p_stack_end p, p_filedesc := p_filedesc p, p_cwd := p_cwd p, p_saved_regs := r\<lparr>r_eax := 0\<rparr>\<rparr>)"
proof -
  note D = sched_invD[OF s]
  let ?p = "procs st ! i"
  have il: "i < MAX_PROCESSES" "alive ?p" using D(4)[of i] i(2) by auto
  have cl: "c < MAX_PROCESSES" "\<not> p_exists (procs st ! c)"
    by (rule free_pid_found[OF D(1) c])+
  have ne: "c \<noteq> i" using il(2) cl(2) by (auto simp: alive_def)
  define q0 where "q0 = zero_process\<lparr>p_pid := int c, p_parent_pid := p_pid ?p, p_exists := True\<rparr>"
  define q1 where "q1 = q0\<lparr>p_pdir := pdir, p_text_start := p_text_start ?p, p_text_end := p_text_end ?p, p_data_start := p_data_start ?p,
     p_data_end := p_data_end ?p, p_stack_start := p_stack_start ?p, p_stack_end := p_stack_end ?p\<rparr>"
  define q3 where "q3 = q1\<lparr>p_filedesc := p_filedesc ?p, p_saved_regs := r\<lparr>r_eax := 0\<rparr>, p_cwd := p_cwd ?p, p_ready := True\<rparr>"
  define st2 where "st2 = st\<lparr>procs := (procs st)[c := q1], pgs := g2, paging := Some (p_pdir ?p)\<rparr>"
  have u1: "upd_proc c (\<lambda>_. q0) st = Some (st\<lparr>procs := (procs st)[c := q0]\<rparr>)" using cl(1) D(1) by (simp add: upd_proc_ok)
  have n2: "new_child c (int c) ?p (st\<lparr>procs := (procs st)[c := q0]\<rparr>) = Some st2"
    using g cl(1) il(1) ne i(1) D(1)
    by (simp add: new_child_def new_page_def disable_paging_def upd_proc_ok on_pages_def cur_def get_proc_def enable_paging_def st2_def q1_def)
  define st3 where "st3 = st2\<lparr>procs := (procs st)[c := q1\<lparr>p_filedesc := p_filedesc ?p\<rparr>], fhs := shared (p_filedesc ?p) (fhs st)\<rparr>"
  have n3: "share_fds i c st2 = Some st3"
    using share_fds_ok[of i st2 c] fds il(1) cl(1) ne D(1) by (simp add: st2_def st3_def q1_def q0_def zero_process_def)
  define st4 where "st4 = st3\<lparr>procs := (procs st)[c := q3]\<rparr>"
  have u4: "upd_proc c (\<lambda>q. q\<lparr>p_saved_regs := r\<lparr>r_eax := 0\<rparr>, p_cwd := p_cwd (procs st3 ! i), p_ready := True\<rparr>) st3 = Some st4"
    using cl(1) ne D(1) by (simp add: upd_proc_ok st4_def st3_def st2_def q3_def)
  have na: "\<not> alive (procs st ! c)" using cl(2) by (simp add: alive_def)
  have q: "alive q3" "p_ready q3" "p_prev q3 = None" "p_next q3 = None" by (simp_all add: q3_def q1_def q0_def alive_def zero_process_def)
  have v: "procs st4 = (procs st)[c := q3]" "ready st4 = ready st" "suspended st4 = suspended st" by (simp_all add: st4_def st3_def st2_def)
  obtain l pr nx where a: "ready_add c st4 = Some (st4\<lparr>ready := l, procs := set_links pr nx (procs st4)\<rparr>)"
    "sched_inv (st4\<lparr>ready := l, procs := set_links pr nx (procs st4)\<rparr>) (c # rs) ss"
    by (rule ready_add_new[OF s cl(1) na q v])
  define st5 where "st5 = st4\<lparr>ready := l, procs := set_links pr nx (procs st4)\<rparr>"
  have "syscall_fork r st = Some (int c, st5)"
    using c i(1) il(1) D(1) u1 n2 n3 u4 a(1) unfolding st5_def
    by (simp add: syscall_fork_def get_proc_def flip: q0_def) (simp add: st3_def st2_def)
  moreover have "unlink (procs st5 ! j) = unlink ((procs st)[c := q3] ! j)" if "j < MAX_PROCESSES" for j
    using that D(1) by (simp add: st5_def v(1) unlink_def)
  moreover have "sched_inv st5 (c # rs) ss" "pgs st5 = g2" "paging st5 = Some (p_pdir ?p)" "fhs st5 = shared (p_filedesc ?p) (fhs st)"
    using a(2) by (simp_all add: st5_def st4_def st3_def st2_def)
  moreover have "unlink q3 = zero_process\<lparr>p_pid := int c, p_parent_pid := p_pid ?p, p_exists := True, p_ready := True, p_pdir := pdir,
       p_text_start := p_text_start ?p, p_text_end := p_text_end ?p, p_data_start := p_data_start ?p, p_data_end := p_data_end ?p,
       p_stack_start := p_stack_start ?p, p_stack_end := p_stack_end ?p, p_filedesc := p_filedesc ?p, p_cwd := p_cwd ?p, p_saved_regs := r\<lparr>r_eax := 0\<rparr>\<rparr>"
    by (simp add: q3_def q1_def q0_def unlink_def zero_process_def)
  ultimately show ?thesis using ne cl(1) D(1) by (intro exI[of _ st5]) (simp add: Let_def)
qed

lemma space_ok_unlink: "space_ok g A (unlink p) = space_ok g A p" "user_addr (unlink p) x = user_addr p x"
  by (simp_all add: space_ok_def user_pages_def user_addr_def unlink_def)

lemma copied_byte:
  assumes "frame g d (x - x mod PAGE_SIZE) = Some q" "frame (pgs st') d' (x - x mod PAGE_SIZE) = Some pg"
    "\<forall>i < 4096. pmem (pgs st') (pg + of_nat i) = pmem g (q + of_nat i)" "pgs st = g"
  shows "rd8 (enable_paging d' st') x = rd8 (enable_paging d st) x" "rd8 (enable_paging d st) x \<noteq> None"
  using assms offset_in_page[of x] unfolding rd8_frame by simp_all

lemma frames_apart:
  assumes "page_aligned a" "page_aligned b" "a \<noteq> b" shows "a + x mod PAGE_SIZE \<noteq> b + y mod PAGE_SIZE"
proof
  assume "a + x mod PAGE_SIZE = b + y mod PAGE_SIZE"
  then have "page_of (a + of_nat (unat x mod 4096)) = page_of (b + of_nat (unat y mod 4096))" unfolding offset_in_page by (rule arg_cong)
  then have "page_of a = page_of b" using page_of_offset(1)[OF assms(1)] page_of_offset(1)[OF assms(2)] offset_in_page(2) by simp
  then show False using page_of_inj[OF assms(1,2)] assms(3) by blast
qed

text \<open>C4: fork gives the caller a child that is a copy of it. With a free slot, the new process enters the
  front of the ready list with the registers of the caller except for the result 0; it has the
  working directory of the caller and its descriptors, whose handles count them. Every byte of its
  text, data and stack is the byte the caller has at the same address, in pages that were not live
  before, so that no address of the child shares memory with an address of the caller. The memory of
  the caller and every other live page keep their contents, and both address spaces are well-formed
  again.\<close>

theorem fork_copies_process:
  assumes s: "sched_inv st rs ss" and i: "current_process st = Some i" "i \<in> set rs" and c: "get_free_pid st = Some (int c)"
    and sp: "space_ok (pgs st) A (procs st ! i)" and rm: "room (1537 + 2 * (user_size (procs st ! i) div 4096)) (pgs st)"
    and fds: "length (p_filedesc (procs st ! i)) = MAX_FDS" "\<forall>f \<in> set (p_filedesc (procs st ! i)). f \<noteq> 0 \<longrightarrow> fhs st f \<noteq> None"
  shows "\<exists>st' A'. syscall_fork r st = Some (int c, st') \<and> sched_inv st' (c # rs) ss \<and>
     (let p = procs st ! i; q = procs st' ! c in
       p_parent_pid q = p_pid p \<and> p_filedesc q = p_filedesc p \<and> p_cwd q = p_cwd p \<and> p_saved_regs q = r\<lparr>r_eax := 0\<rparr> \<and>
       (\<forall>f h. f \<noteq> 0 \<and> fhs st f = Some h \<longrightarrow> fhs st' f = Some (h\<lparr>refcount := refcount h + int (count_list (p_filedesc p) f)\<rparr>)) \<and>
       (\<forall>x. user_addr p x \<longrightarrow> rd8 (enable_paging (p_pdir q) st') x = rd8 (enable_paging (p_pdir p) st) x \<and>
          rd8 (enable_paging (p_pdir p) st') x = rd8 (enable_paging (p_pdir p) st) x \<and> rd8 (enable_paging (p_pdir p) st) x \<noteq> None) \<and>
       (\<forall>x y. user_addr p x \<and> user_addr p y \<longrightarrow> phys (enable_paging (p_pdir q) st') x \<noteq> phys (enable_paging (p_pdir p) st') y) \<and>
       same_on A (pgs st) (pgs st') \<and> space_ok (pgs st') A' q \<and> space_ok (pgs st') A' (procs st' ! i))"
proof -
  let ?p = "procs st ! i"
  obtain pdir g1 g2 A' where g: "alloc_page (pgs st) = (pdir, g1)" "copy_space ?p pdir g1 = Some g2" "space_ok g2 A' ?p" "space_ok g2 A' (?p\<lparr>p_pdir := pdir\<rparr>)"
    "same_on A (pgs st) g2" "\<And>l. translate g2 (p_pdir ?p) l = translate (pgs st) (p_pdir ?p) l"
    "\<And>l. l \<in> user_pages ?p \<Longrightarrow> \<exists>q pg. frame (pgs st) (p_pdir ?p) l = Some q \<and> q \<in> A \<and> frame g2 pdir l = Some pg \<and> pg \<notin> A \<and> page_aligned pg \<and>
        (\<forall>i < 4096. pmem g2 (pg + of_nat i) = pmem (pgs st) (q + of_nat i))"
    by (rule fork_space[OF sp rm]) blast
  obtain st' where f: "syscall_fork r st = Some (int c, st')" "c \<noteq> i" "sched_inv st' (c # rs) ss" "pgs st' = g2"
     "fhs st' = shared (p_filedesc ?p) (fhs st)" "\<forall>j < MAX_PROCESSES. j \<noteq> c \<longrightarrow> unlink (procs st' ! j) = unlink (procs st ! j)"
     "unlink (procs st' ! c) = zero_process\<lparr>p_pid := int c, p_parent_pid := p_pid ?p, p_exists := True, p_ready := True, p_pdir := pdir,
       p_text_start := p_text_start ?p, p_text_end := p_text_end ?p, p_data_start := p_data_start ?p, p_data_end := p_data_end ?p,
       p_stack_start := p_stack_start ?p, p_stack_end := p_stack_end ?p, p_filedesc := p_filedesc ?p, p_cwd := p_cwd ?p, p_saved_regs := r\<lparr>r_eax := 0\<rparr>\<rparr>"
    using fork_steps[OF s i c g(1,2) fds, of r] unfolding Let_def by (elim exE conjE)
  define q where "q = procs st' ! c"
  have qf: "p_parent_pid q = p_pid ?p" "p_filedesc q = p_filedesc ?p" "p_cwd q = p_cwd ?p" "p_saved_regs q = r\<lparr>r_eax := 0\<rparr>" "p_pdir q = pdir"
    using arg_cong[OF f(7), of p_parent_pid] arg_cong[OF f(7), of p_filedesc] arg_cong[OF f(7), of p_cwd] arg_cong[OF f(7), of p_saved_regs]
      arg_cong[OF f(7), of p_pdir] by (simp_all add: unlink_def q_def)
  have "space_ok g2 A' (unlink q)" using g(4) unfolding q_def f(7) by (simp add: space_ok_def user_pages_def)
  then have sq: "space_ok (pgs st') A' q" by (simp add: space_ok_unlink f(4))
  have iM: "i < MAX_PROCESSES" using sched_invD(4)[OF s] i(2) by blast
  then have "unlink (procs st' ! i) = unlink ?p" using f(2,6) by auto
  then have sp': "space_ok (pgs st') A' (procs st' ! i)" using g(3) f(4) by (metis space_ok_unlink(1))
  have hs: "fhs st' f = Some (h\<lparr>refcount := refcount h + int (count_list (p_filedesc ?p) f)\<rparr>)" if "f \<noteq> 0" "fhs st f = Some h" for f h
  proof -
    have "count_list (filter (\<lambda>f. f \<noteq> 0) xs) f = count_list xs f" for xs using that(1) by (induction xs) auto
    then show ?thesis using that(2) by (simp add: f(5) shared_def)
  qed
  have fr: "frame g2 (p_pdir ?p) l = frame (pgs st) (p_pdir ?p) l" for l using g(6) by (simp add: frame_def)
  have pg: "x - x mod PAGE_SIZE \<in> user_pages ?p" if "user_addr ?p x" for x by (rule user_addr_page[OF sp that])
  have bytes: "rd8 (enable_paging (p_pdir q) st') x = rd8 (enable_paging (p_pdir ?p) st) x \<and>
       rd8 (enable_paging (p_pdir ?p) st') x = rd8 (enable_paging (p_pdir ?p) st) x \<and> rd8 (enable_paging (p_pdir ?p) st) x \<noteq> None" if x: "user_addr ?p x" for x
  proof -
    obtain w v where w: "frame (pgs st) (p_pdir ?p) (x - x mod PAGE_SIZE) = Some w" "w \<in> A" "frame g2 pdir (x - x mod PAGE_SIZE) = Some v"
      "\<forall>i < 4096. pmem g2 (v + of_nat i) = pmem (pgs st) (w + of_nat i)" using g(7)[OF pg[OF x]] by blast
    have "\<forall>i < 4096. pmem (pgs st') (w + of_nat i) = pmem (pgs st) (w + of_nat i)"
      using same_on_offset[OF g(5) w(2) frame_aligned[OF w(1)]] by (simp add: f(4))
    then show ?thesis using copied_byte[OF w(1) _ _ refl, of st' pdir v] copied_byte[OF w(1) _ _ refl, of st' "p_pdir ?p" w] w fr qf(5) f(4) by simp
  qed
  have apart: "phys (enable_paging (p_pdir q) st') x \<noteq> phys (enable_paging (p_pdir ?p) st') y" if x: "user_addr ?p x" and y: "user_addr ?p y" for x y
  proof -
    obtain v where v: "frame g2 pdir (x - x mod PAGE_SIZE) = Some v" "v \<notin> A" "page_aligned v" using g(7)[OF pg[OF x]] by blast
    obtain w where w: "frame (pgs st) (p_pdir ?p) (y - y mod PAGE_SIZE) = Some w" "w \<in> A" using g(7)[OF pg[OF y]] by blast
    have "v + x mod PAGE_SIZE \<noteq> w + y mod PAGE_SIZE" using frames_apart[OF v(3) frame_aligned[OF w(1)]] v(2) w(2) by blast
    then show ?thesis using v(1) w(1) fr by (simp add: phys_frame f(4) qf(5))
  qed
  have so: "same_on A (pgs st) (pgs st')" using g(5) f(4) by simp
  show ?thesis unfolding Let_def
    by (rule exI[of _ st'], rule exI[of _ A'], fold q_def) (intro conjI allI impI f(1,3) qf(1-4) so sq sp'; (use hs bytes apart in blast)?)
qed

text \<open>A process with one page of stack.\<close>

definition example_parent :: process where
  "example_parent = (example_procs ! 1)\<lparr>p_pdir := example_dir, p_stack_start := 0x20000000, p_stack_end := 0x20001000\<rparr>"

definition example_fork :: "pages \<Rightarrow> kstate" where
  "example_fork g = example_kstate\<lparr>procs := example_procs[1 := example_parent], pgs := g\<rparr>"

lemma example_space:
  obtains g A where "map_new_pages example_dir 0x20000000 1 example_pages = Some g" "space_ok g A example_parent" "room 2000 g"
proof -
  have "page_end example_pages = 0x601000"
    by (simp add: example_pages_def alloc_page_def pages_boot_def PAGE_START_def PAGE_SIZE_def Let_def)
  then have "room (2 * 1 + 2000) example_pages" by (simp add: room_def)
  then obtain g A pg where g: "map_new_loop example_dir 0x20000000 1 example_pages = Some g" "dir_ext example_dir example_pages {example_dir} g A" "room 2000 g"
    "new_pages example_dir 0x20000000 1 pg example_pages {example_dir} g A"
    using map_new_loop_ok[OF example_pages_ok(1,2), of 1 2000 "0x20000000"] by (auto simp: page_aligned_def)
  have m: "map_new_pages example_dir 0x20000000 1 example_pages = Some g" using g(1) by (simp add: map_new_pages_def PAGE_SIZE_def)
  have p: "p_pdir example_parent = example_dir" "p_text_start example_parent = 0" "p_text_end example_parent = 0" "p_data_start example_parent = 0"
    "p_data_end example_parent = 0" "p_stack_start example_parent = 0x20000000" "p_stack_end example_parent = 0x20001000"
    by (simp_all add: example_parent_def example_procs_def MAX_PROCESSES_def zero_process_def)
  have al: "page_aligned 0x20000000" "page_aligned 0x20001000" by (simp_all add: page_aligned_def)
  have "pages_between 0x20000000 0x20001000 = insert 0x20000000 (pages_between 0x20001000 0x20001000)"
    using pages_between_step(1)[OF al] by (simp add: PAGE_SIZE_def)
  then have one: "pages_between 0x20000000 0x20001000 = {0x20000000}" "pages_between 0 0 = {}" by (simp_all add: pages_between_empty)
  have q0: "pg 0 \<in> A" using g(4) by (auto simp: new_pages_def)
  then have "page_aligned (pg 0)" using page_poolD(1)[OF dir_extD(1)[OF g(2)]] managedD(1) by blast
  note q = q0 this
  have fl: "PAGE_USER \<le> 7" "PAGE_READ_WRITE \<le> 7" by (simp_all add: PAGE_USER_def PAGE_READ_WRITE_def)
  have "translate g example_dir 0x20000000 = Some (pg 0 OR PAGE_PRESENT OR PAGE_USER OR PAGE_READ_WRITE)"
    using g(4) al(1) by (simp add: new_pages_def)
  then have "frame g example_dir 0x20000000 = Some (pg 0)" using entry_present(2)[OF q(2) fl] by (simp add: frame_def)
  then have "space_ok g A example_parent"
    using dir_extD(1,2)[OF g(2)] q(1) al by (simp add: space_ok_def user_pages_def p one MB_def)
  then show ?thesis using that m g(3) by blast
qed

lemma example_parent_fields:
  "p_filedesc example_parent = replicate MAX_FDS 0" "user_size example_parent = 4096" "user_addr example_parent 0x20000ABC"
  "p_pid example_parent = 1" "p_pdir example_parent = example_dir"
  by (simp_all add: example_parent_def user_size_def user_addr_def example_procs_def MAX_PROCESSES_def zero_process_def)

lemma fourth_free:
  assumes "length ps = MAX_PROCESSES" "p_exists (ps ! 1)" "p_exists (ps ! 2)" "p_exists (ps ! 3)" "\<not> p_exists (ps ! 4)"
  shows "free_pid_loop ps 1 = Some 4"
  using assms by (simp add: free_pid_loop.simps MAX_PROCESSES_def eval_nat_numeral)

lemma example_fork_ok:
  "sched_inv (example_fork g) [1, 2] [3]" "get_free_pid (example_fork g) = Some (int 4)" "procs (example_fork g) ! 1 = example_parent"
  "current_process (example_fork g) = Some 1" "pgs (example_fork g) = g"
proof -
  have l: "length example_procs = MAX_PROCESSES" by (simp add: example_procs_def)
  have m: "1 < MAX_PROCESSES" by (simp add: MAX_PROCESSES_def)
  show p: "procs (example_fork g) ! 1 = example_parent" using l m by (simp add: example_fork_def)
  show "current_process (example_fork g) = Some 1" "pgs (example_fork g) = g" by (simp_all add: example_fork_def example_kstate_def)
  have at: "procs (example_fork g) ! j = (if j = 1 then example_parent else example_procs ! j)" for j
    using l m by (simp add: example_fork_def)
  have eq: "alive example_parent = alive (example_procs ! 1)" "p_ready example_parent = p_ready (example_procs ! 1)"
    "p_prev example_parent = p_prev (example_procs ! 1)" "p_next example_parent = p_next (example_procs ! 1)" "p_exists example_parent = p_exists (example_procs ! 1)"
    by (simp_all add: example_parent_def alive_def)
  have k: "procs example_kstate = example_procs" by (simp add: example_kstate_def)
  show "sched_inv (example_fork g) [1, 2] [3]"
  proof (rule sched_inv_cong[OF example_inv])
    show "\<forall>j < length (procs example_kstate). alive (procs (example_fork g) ! j) = alive (procs example_kstate ! j) \<and>
       p_ready (procs (example_fork g) ! j) = p_ready (procs example_kstate ! j) \<and>
       p_prev (procs (example_fork g) ! j) = p_prev (procs example_kstate ! j) \<and> p_next (procs (example_fork g) ! j) = p_next (procs example_kstate ! j)"
      unfolding at k using eq by simp
  qed (simp_all add: example_fork_def k)
  have ex: "p_exists (procs (example_fork g) ! j) = (j \<in> {1, 2, 3})" if "j < MAX_PROCESSES" for j
    unfolding at using that eq(5) example_procs_nth(6)[OF that] example_procs_nth(6)[OF m] by auto
  have "free_pid_loop (procs (example_fork g)) 1 = Some 4"
    by (rule fourth_free) (use ex l in \<open>simp_all add: MAX_PROCESSES_def\<close>, simp add: example_fork_def)
  then show "get_free_pid (example_fork g) = Some (int 4)" by (simp add: get_free_pid_def MAX_PROCESSES_def)
qed

theorem fork_copies_process_witness:
  "\<exists>g st'. map_new_pages example_dir 0x20000000 1 example_pages = Some g \<and> syscall_fork zero_regs (example_fork g) = Some (4, st') \<and>
     p_parent_pid (procs st' ! 4) = 1 \<and>
     rd8 (enable_paging (p_pdir (procs st' ! 4)) st') 0x20000ABC = rd8 (enable_paging example_dir (example_fork g)) 0x20000ABC"
proof -
  obtain g A where g: "map_new_pages example_dir 0x20000000 1 example_pages = Some g" "space_ok g A example_parent" "room 2000 g" by (rule example_space)
  note E = example_fork_ok and P = example_parent_fields
  have r: "room (1537 + 2 * (user_size (procs (example_fork g) ! 1) div 4096)) (pgs (example_fork g))" using g(3) unfolding E P by (simp add: room_def)
  have sp: "space_ok (pgs (example_fork g)) A (procs (example_fork g) ! 1)" using g(2) unfolding E .
  obtain st' where "syscall_fork zero_regs (example_fork g) = Some (int 4, st')" "p_parent_pid (procs st' ! 4) = p_pid example_parent"
    "\<forall>x. user_addr example_parent x \<longrightarrow> rd8 (enable_paging (p_pdir (procs st' ! 4)) st') x = rd8 (enable_paging (p_pdir example_parent) (example_fork g)) x"
    using fork_copies_process[OF E(1,4) _ E(2) sp r, of zero_regs] unfolding Let_def E(3) P(1) by auto
  then show ?thesis using g(1) P(3-5) by auto
qed

end
