(* ===== verification/Programs.thy ===== *)
theory Programs
  imports Syscall
begin

text \<open>
  The user programs cat.c, ls.c, find.c, echo.c, pwd.c, kill.c, hello.c, halt.c and daemon.c with the
  functions of libc.c that they call and that make system calls themselves. A program is a function
  of the system calls it makes, the record \<open>calls\<close>, over a world \<open>'w\<close>; the calls of the kernel are one
  instance. Strings are lists of bytes without the terminator. The result of a program is its exit
  status; \<open>None\<close> says that it does not end normally.
\<close>

section \<open>System calls as a program sees them\<close>

text \<open>
  \<open>read\<close> also gives the bytes that are then in the buffer, \<open>getdent\<close> the name of the entry, \<open>stat\<close> the
  mode and the size; \<open>c_junk\<close> is what a local array holds at first.
\<close>

record 'w calls =
  c_open :: "u8 list \<Rightarrow> int \<Rightarrow> 'w \<Rightarrow> (int \<times> 'w) option"
  c_read :: "int \<Rightarrow> nat \<Rightarrow> 'w \<Rightarrow> (int \<times> u8 list \<times> 'w) option"
  c_write :: "int \<Rightarrow> u8 list \<Rightarrow> 'w \<Rightarrow> (int \<times> 'w) option"
  c_close :: "int \<Rightarrow> 'w \<Rightarrow> (int \<times> 'w) option"
  c_getdent :: "int \<Rightarrow> 'w \<Rightarrow> (int \<times> u8 list \<times> 'w) option"
  c_stat :: "u8 list \<Rightarrow> 'w \<Rightarrow> (int \<times> u32 \<times> u32 \<times> 'w) option"
  c_getcwd :: "'w \<Rightarrow> (u8 list option \<times> 'w) option"
  c_chdir :: "u8 list \<Rightarrow> 'w \<Rightarrow> (int \<times> 'w) option"
  c_fork :: "'w \<Rightarrow> (int \<times> 'w) option"
  c_getpid :: "'w \<Rightarrow> (int \<times> 'w) option"
  c_kill :: "int \<Rightarrow> 'w \<Rightarrow> (int \<times> 'w) option"
  c_halt :: "'w \<Rightarrow> (int \<times> 'w) option"
  c_geterrno :: "'w \<Rightarrow> (int \<times> 'w) option"
  c_junk :: "nat \<Rightarrow> 'w \<Rightarrow> u8 list"

definition STDIN_FILENO :: int where "STDIN_FILENO = 0"
definition STDOUT_FILENO :: int where "STDOUT_FILENO = 1"
definition STDERR_FILENO :: int where "STDERR_FILENO = 2"

abbreviation cstr :: "u8 list \<Rightarrow> varg" where "cstr s \<equiv> Str (arr (s @ [0]))"
abbreviation eol :: string where "eol \<equiv> [CHR 0x0A]"

section \<open>Output\<close>

definition u_printf :: "'w calls \<Rightarrow> string \<Rightarrow> varg list \<Rightarrow> 'w \<Rightarrow> 'w option" where
  "u_printf C fmt args w = do {
     bs \<leftarrow> printf_output (c_junk C 4096 w) (arr (lit fmt @ [0])) args;
     (_, w1) \<leftarrow> c_write C STDOUT_FILENO bs w;
     Some w1 }"

definition puts :: "'w calls \<Rightarrow> string \<Rightarrow> 'w \<Rightarrow> 'w option" where
  "puts C s w = do {
     (_, w1) \<leftarrow> c_write C STDOUT_FILENO (lit s) w;
     Some w1 }"

definition perror :: "'w calls \<Rightarrow> u8 list \<Rightarrow> 'w \<Rightarrow> 'w option" where
  "perror C s w = do {
     (e, w1) \<leftarrow> c_geterrno C w;
     msg \<leftarrow> strerror e;
     if s \<noteq> [] then u_printf C (''%s: %s'' @ eol) [cstr s, cstr (lit msg)] w1
     else u_printf C (''%s'' @ eol) [cstr s, cstr (lit msg)] w1 }"

section \<open>Directories\<close>

text \<open>A \<open>DIR\<close> is its descriptor; \<open>malloc\<close> is taken to succeed.\<close>

definition opendir :: "'w calls \<Rightarrow> u8 list \<Rightarrow> 'w \<Rightarrow> (int option \<times> 'w) option" where
  "opendir C filename w = do {
     (fd, w1) \<leftarrow> c_open C filename OPEN_DIRECTORY w;
     Some (if 0 > fd then None else Some fd, w1) }"

definition readdir :: "'w calls \<Rightarrow> int \<Rightarrow> 'w \<Rightarrow> (u8 list option \<times> 'w) option" where
  "readdir C fd w = do {
     (r, name, w1) \<leftarrow> c_getdent C fd w;
     Some (if 1 \<noteq> r then None else Some name, w1) }"

definition closedir :: "'w calls \<Rightarrow> int \<Rightarrow> 'w \<Rightarrow> 'w option" where
  "closedir C fd w = do { (_, w1) \<leftarrow> c_close C fd w; Some w1 }"

text \<open>\<open>snprintf(fullpath, PATH_MAX, "%s/%s", path, entry->d_name)\<close>\<close>

definition entry_path :: "'w calls \<Rightarrow> u8 list \<Rightarrow> u8 list \<Rightarrow> 'w \<Rightarrow> u8 list option" where
  "entry_path C path name w = do {
     (_, buf) \<leftarrow> snprintf (c_junk C PATH_MAX w) PATH_MAX (arr (lit ''%s/%s'' @ [0])) [cstr path, cstr name];
     Some (takeWhile (\<lambda>c. c \<noteq> 0) buf) }"

section \<open>cat, echo, pwd, hello, halt and kill\<close>

text \<open>The loop of cat: the result is that of the last \<open>read\<close>.\<close>

partial_function (option) cat_loop :: "'w calls \<Rightarrow> int \<Rightarrow> 'w \<Rightarrow> (int \<times> 'w) option" where
  "cat_loop C fd w = do {
     (r, bs, w1) \<leftarrow> c_read C fd 20 w;
     if 0 < r then do {
       (_, w2) \<leftarrow> c_write C STDOUT_FILENO (take (nat r) bs) w1;
       cat_loop C fd w2 }
     else Some (r, w1) }"
declare cat_loop.simps [code]

definition cat_main :: "'w calls \<Rightarrow> u8 list list \<Rightarrow> 'w \<Rightarrow> (int \<times> 'w) option" where
  "cat_main C argv w = (if 2 > length argv then do {
       w1 \<leftarrow> u_printf C (''Usage: cat <filename>'' @ eol) [] w;
       Some (- 1, w1) }
     else do {
       (fd, w1) \<leftarrow> c_open C (argv ! 1) 0 w;
       if 0 > fd then do {
         w2 \<leftarrow> perror C (argv ! 1) w1;
         Some (- 1, w2) }
       else do {
         (r, w2) \<leftarrow> cat_loop C fd w1;
         if 0 > r then do {
           w3 \<leftarrow> perror C (lit ''read'') w2;
           Some (- 1, w3) }
         else do {
           (_, w3) \<leftarrow> c_close C fd w2;
           Some (0, w3) } } })"

primrec echo_args :: "'w calls \<Rightarrow> u8 list list \<Rightarrow> 'w \<Rightarrow> 'w option" where
  "echo_args C [] w = Some w"
| "echo_args C (a # as) w = do {
     w1 \<leftarrow> u_printf C ''%s'' [cstr a] w;
     w2 \<leftarrow> u_printf C '' '' [] w1;
     echo_args C as w2 }"

definition echo_main :: "'w calls \<Rightarrow> u8 list list \<Rightarrow> 'w \<Rightarrow> (int \<times> 'w) option" where
  "echo_main C argv w = do {
     w1 \<leftarrow> echo_args C (drop 1 argv) w;
     w2 \<leftarrow> u_printf C eol [] w1;
     Some (0, w2) }"

definition pwd_main :: "'w calls \<Rightarrow> 'w \<Rightarrow> (int \<times> 'w) option" where
  "pwd_main C w = do {
     (p, w1) \<leftarrow> c_getcwd C w;
     w2 \<leftarrow> (case p of None \<Rightarrow> perror C (lit ''getcwd'') w1 | Some path \<Rightarrow> u_printf C (''%s'' @ eol) [cstr path] w1);
     Some (0, w2) }"

definition hello_main :: "'w calls \<Rightarrow> 'w \<Rightarrow> (int \<times> 'w) option" where
  "hello_main C w = do { w1 \<leftarrow> puts C (''Hello, world!'' @ eol) w; Some (0, w1) }"

definition halt_main :: "'w calls \<Rightarrow> 'w \<Rightarrow> (int \<times> 'w) option" where
  "halt_main C w = do {
     w1 \<leftarrow> puts C ''Halting...'' w;
     (_, w2) \<leftarrow> c_halt C w1;
     Some (0, w2) }"

text \<open>
  The loop of kill runs to \<open>argc\<close> included, with \<open>k\<close> rounds left; \<open>argv[argc]\<close> is a null pointer, which
  \<open>atoi\<close> reads.
\<close>

primrec kill_loop :: "'w calls \<Rightarrow> u8 list list \<Rightarrow> nat \<Rightarrow> nat \<Rightarrow> 'w \<Rightarrow> (int \<times> 'w) option" where
  "kill_loop C argv i 0 w = Some (0, w)"
| "kill_loop C argv i (Suc k) w = do {
     s \<leftarrow> list_get argv i;
     n \<leftarrow> atoi (arr (s @ [0]));
     (r, w1) \<leftarrow> c_kill C n w;
     if - 1 = r then do {
       w2 \<leftarrow> perror C (lit ''kill'') w1;
       Some (1, w2) }
     else kill_loop C argv (i + 1) k w1 }"

definition kill_main :: "'w calls \<Rightarrow> u8 list list \<Rightarrow> 'w \<Rightarrow> (int \<times> 'w) option" where
  "kill_main C argv w = (if length argv < 2 then do {
       w1 \<leftarrow> puts C ''Usage: kill [pid] ...'' w;
       Some (1, w1) }
     else kill_loop C argv 1 (length argv) w)"

section \<open>ls and find\<close>

definition S_IFDIR :: u32 where "S_IFDIR = 0x4000"

text \<open>The ten letters of the mode.\<close>

definition mode_letters :: "u32 \<Rightarrow> varg list" where
  "mode_letters mode = map (\<lambda>(bits, c). Word (if mode AND bits \<noteq> 0 then of_char c else 45))
     [(S_IFDIR, CHR ''d''), (0x100, CHR ''r''), (0x80, CHR ''w''), (0x40, CHR ''x''), (0x20, CHR ''r''), (0x10, CHR ''w''), (8, CHR ''x''),
      (4, CHR ''r''), (2, CHR ''w''), (1, CHR ''x'')]"

definition ls_entry :: "'w calls \<Rightarrow> u8 list \<Rightarrow> u8 list \<Rightarrow> 'w \<Rightarrow> 'w option" where
  "ls_entry C path name w = do {
     full \<leftarrow> entry_path C path name w;
     (r, mode, sz, w1) \<leftarrow> c_stat C full w;
     if 0 > r then perror C full w1
     else do {
       w2 \<leftarrow> u_printf C ''%c%c%c%c%c%c%c%c%c%c '' (mode_letters mode) w1;
       if mode AND S_IFDIR \<noteq> 0 then u_printf C (''DIR  %-8d %s/'' @ eol) [Word sz, cstr name] w2
       else u_printf C (''FILE %-8d %s'' @ eol) [Word sz, cstr name] w2 } }"

partial_function (option) ls_loop :: "'w calls \<Rightarrow> u8 list \<Rightarrow> int \<Rightarrow> 'w \<Rightarrow> 'w option" where
  "ls_loop C path dir w = do {
     (e, w1) \<leftarrow> readdir C dir w;
     case e of
       None \<Rightarrow> Some w1
     | Some name \<Rightarrow> do {
         w2 \<leftarrow> ls_entry C path name w1;
         ls_loop C path dir w2 } }"
declare ls_loop.simps [code]

definition ls_main :: "'w calls \<Rightarrow> u8 list list \<Rightarrow> 'w \<Rightarrow> (int \<times> 'w) option" where
  "ls_main C argv w = do {
     let path = (if 2 \<le> length argv then argv ! 1 else lit ''.'');
     (d, w1) \<leftarrow> opendir C path w;
     case d of
       None \<Rightarrow> do {
         w2 \<leftarrow> perror C path w1;
         Some (- 1, w2) }
     | Some dir \<Rightarrow> do {
         w2 \<leftarrow> ls_loop C path dir w1;
         w3 \<leftarrow> closedir C dir w2;
         Some (0, w3) } }"

text \<open>\<open>find\<close> calls itself inside its loop; the argument says whether the call starts or its loop goes on.\<close>

datatype find_state = Find "u8 list" | Find_loop "u8 list" int

partial_function (option) find_c :: "'w calls \<Rightarrow> find_state \<Rightarrow> 'w \<Rightarrow> (int \<times> 'w) option" where
  "find_c C s w = (case s of
     Find path \<Rightarrow> do {
       (d, w1) \<leftarrow> opendir C path w;
       case d of
         None \<Rightarrow> do {
           w2 \<leftarrow> perror C path w1;
           Some (- 1, w2) }
       | Some dir \<Rightarrow> find_c C (Find_loop path dir) w1 }
   | Find_loop path dir \<Rightarrow> do {
       (e, w1) \<leftarrow> readdir C dir w;
       case e of
         None \<Rightarrow> do {
           w2 \<leftarrow> closedir C dir w1;
           Some (0, w2) }
       | Some name \<Rightarrow> do {
           full \<leftarrow> entry_path C path name w1;
           w2 \<leftarrow> u_printf C (''%s'' @ eol) [cstr full] w1;
           (r, mode, sz, w3) \<leftarrow> c_stat C full w2;
           if 0 > r then do {
             w4 \<leftarrow> perror C full w3;
             find_c C (Find_loop path dir) w4 }
           else if mode AND S_IFDIR \<noteq> 0 then do {
             (x, w4) \<leftarrow> find_c C (Find full) w3;
             if 0 \<noteq> x then Some (- 1, w4) else find_c C (Find_loop path dir) w4 }
           else find_c C (Find_loop path dir) w3 } })"
declare find_c.simps [code]

definition find_main :: "'w calls \<Rightarrow> u8 list list \<Rightarrow> 'w \<Rightarrow> (int \<times> 'w) option" where
  "find_main C argv w = find_c C (Find (if 2 \<le> length argv then argv ! 1 else lit ''.'')) w"

section \<open>daemon\<close>

text \<open>\<open>Inl n\<close>: the process has called \<open>exit(n)\<close>; \<open>Inr pid\<close>: \<open>daemon_init\<close> returns.\<close>

definition daemon_init :: "'w calls \<Rightarrow> 'w \<Rightarrow> ((int + int) \<times> 'w) option" where
  "daemon_init C w = do {
     (pid, w1) \<leftarrow> c_fork C w;
     if pid < 0 then Some (Inl 1, w1)
     else if pid > 0 then do {
       (p, w2) \<leftarrow> c_getpid C w1;
       w3 \<leftarrow> u_printf C (''parent pid: %d'' @ eol) [Word (of_int p)] w2;
       Some (Inl 0, w3) }
     else do {
       (p, w2) \<leftarrow> c_getpid C w1;
       w3 \<leftarrow> u_printf C (''child pid: %d'' @ eol) [Word (of_int p)] w2;
       (r, w4) \<leftarrow> c_chdir C (lit ''/'') w3;
       if r < 0 then Some (Inl 1, w4)
       else do {
         (_, w5) \<leftarrow> c_close C STDIN_FILENO w4;
         (_, w6) \<leftarrow> c_close C STDOUT_FILENO w5;
         (_, w7) \<leftarrow> c_close C STDERR_FILENO w6;
         Some (Inr pid, w7) } } }"

section \<open>The calls of the kernel\<close>

text \<open>
  The handlers of the kernel as calls of the running process, which keeps the string or the bytes it
  passes at address \<open>ub\<close> of its memory. The stubs in calls.s are assembly; like the dispatcher they
  leave the error number of a failed call in the process and return -1.
\<close>

definition call_result :: "u32 \<Rightarrow> (int \<times> kstate) option \<Rightarrow> (int \<times> kstate) option" where
  "call_result call_no x = do { (r, st) \<leftarrow> x; store_errno call_no r st }"

definition k_open :: "u32 \<Rightarrow> u8 list \<Rightarrow> int \<Rightarrow> kstate \<Rightarrow> (int \<times> kstate) option" where
  "k_open ub path flags st = do {
     st1 \<leftarrow> write_bytes ub (path @ [0]) st;
     call_result SYSCALL_OPEN (syscall_open ub flags st1) }"

definition k_read :: "u32 \<Rightarrow> int \<Rightarrow> nat \<Rightarrow> kstate \<Rightarrow> (int \<times> u8 list \<times> kstate) option" where
  "k_read ub fd n st = do {
     (r, st1) \<leftarrow> call_result SYSCALL_READ (syscall_read fd ub (of_nat n) st);
     bs \<leftarrow> read_bytes st1 ub n;
     Some (r, bs, st1) }"

definition k_write :: "u32 \<Rightarrow> int \<Rightarrow> u8 list \<Rightarrow> kstate \<Rightarrow> (int \<times> kstate) option" where
  "k_write ub fd bs st = do {
     st1 \<leftarrow> write_bytes ub bs st;
     call_result SYSCALL_WRITE (syscall_write fd ub (of_nat (length bs)) st1) }"

definition k_close :: "int \<Rightarrow> kstate \<Rightarrow> (int \<times> kstate) option" where
  "k_close fd st = call_result SYSCALL_CLOSE (syscall_close fd st)"

text \<open>A name, a path or the bytes of a structure that the kernel has written, up to the terminator.\<close>

definition k_string :: "u32 \<Rightarrow> nat \<Rightarrow> kstate \<Rightarrow> u8 list option" where
  "k_string a n st = do { bs \<leftarrow> read_bytes st a n; Some (takeWhile (\<lambda>c. c \<noteq> 0) bs) }"

definition k_getdent :: "u32 \<Rightarrow> int \<Rightarrow> kstate \<Rightarrow> (int \<times> u8 list \<times> kstate) option" where
  "k_getdent ub fd st = do {
     (r, st1) \<leftarrow> call_result SYSCALL_GETDENT (syscall_getdent fd ub st);
     name \<leftarrow> k_string (ub + 4) (NAME_MAX + 1) st1;
     Some (r, name, st1) }"

text \<open>The structure for \<open>stat\<close> is at \<open>sb\<close>.\<close>

definition k_stat :: "u32 \<Rightarrow> u32 \<Rightarrow> u8 list \<Rightarrow> kstate \<Rightarrow> (int \<times> u32 \<times> u32 \<times> kstate) option" where
  "k_stat ub sb path st = do {
     st1 \<leftarrow> write_bytes ub (path @ [0]) st;
     (r, st2) \<leftarrow> call_result SYSCALL_STAT (syscall_stat ub sb st1);
     mode \<leftarrow> ptr_word st2 sb;
     sz \<leftarrow> ptr_word st2 (sb + 12);
     Some (r, mode, sz, st2) }"

definition k_getcwd :: "u32 \<Rightarrow> kstate \<Rightarrow> (u8 list option \<times> kstate) option" where
  "k_getcwd ub st = do {
     (r, st1) \<leftarrow> call_result SYSCALL_GETCWD (map_option (\<lambda>(p, st). (sint p, st)) (syscall_getcwd ub (of_nat PATH_MAX) st));
     path \<leftarrow> k_string ub PATH_MAX st1;
     Some (if r = 0 then None else Some path, st1) }"

definition k_chdir :: "u32 \<Rightarrow> u8 list \<Rightarrow> kstate \<Rightarrow> (int \<times> kstate) option" where
  "k_chdir ub path st = do {
     st1 \<leftarrow> write_bytes ub (path @ [0]) st;
     call_result SYSCALL_CHDIR (syscall_chdir ub st1) }"

definition kernel_calls :: "u32 \<Rightarrow> u32 \<Rightarrow> regs \<Rightarrow> kstate calls" where
  "kernel_calls ub sb r = \<lparr>c_open = k_open ub, c_read = k_read ub, c_write = k_write ub, c_close = k_close, c_getdent = k_getdent ub,
     c_stat = k_stat ub sb, c_getcwd = k_getcwd ub, c_chdir = k_chdir ub,
     c_fork = (\<lambda>st. call_result SYSCALL_FORK (syscall_fork r st)), c_getpid = (\<lambda>st. call_result SYSCALL_GETPID (syscall_getpid st)),
     c_kill = (\<lambda>pid st. call_result SYSCALL_KILL (syscall_kill pid st)), c_halt = (\<lambda>st. None),
     c_geterrno = (\<lambda>st. call_result SYSCALL_GETERRNO (syscall_geterrno st)), c_junk = local_array\<rparr>"

end
