(* ===== verification/Files_Correct.thy ===== *)
theory Files_Correct
  imports Programs Filesystem_Correct Pipe_Correct
begin

text \<open>
  The file calls of the kernel on an image that represents a tree: \<open>open\<close> finds the file of the tree,
  reads deliver its contents in order, and \<open>close\<close> leaves nothing behind. A program runs in a state in
  which its buffer is in memory of its own and apart from the image.
\<close>

section \<open>Reading the image\<close>

text \<open>What a memory represents, every larger memory represents.\<close>

lemma map_leD: "m \<subseteq>\<^sub>m m' \<Longrightarrow> m a = Some v \<Longrightarrow> m' a = Some v"
  by (metis domI map_le_def)

lemma vload32_mono: "m \<subseteq>\<^sub>m m' \<Longrightarrow> vload32 m a = Some v \<Longrightarrow> vload32 m' a = Some v"
  by (auto simp: vload32_def bind_eq_Some_conv map_leD)

lemma str_at_mono: "m \<subseteq>\<^sub>m m' \<Longrightarrow> str_at (mem_ptr m a) i bs \<Longrightarrow> str_at (mem_ptr m' a) i bs"
  by (induction bs arbitrary: i) (auto simp: mem_ptr_def map_leD)

lemma represents_mono:
  assumes le: "m \<subseteq>\<^sub>m m'" and r: "represents m fs e t"
  shows "represents m' fs e t"
  using r
proof (induction rule: represents.induct)
  case (is_file e sz loc md d)
  have "\<forall>i < length d. m' (fs + loc + of_nat i) = Some (d ! i)" using is_file.hyps(6) map_leD[OF le] by simp
  then show ?case using is_file.hyps vload32_mono[OF le] by (intro represents.is_file[of m' e sz loc md d fs]) (simp_all add: ent_type_def ent_size_def ent_location_def ent_mode_def)
next
  case (is_dir e sz loc md cnt es)
  then show ?case using vload32_mono[OF le] str_at_mono[OF le]
    by (intro represents.is_dir[of m' e sz loc md fs cnt es]) (simp_all add: ent_type_def ent_size_def ent_location_def ent_mode_def dir_count_def ent_name_def)
qed

text \<open>A lookup that succeeds in a memory succeeds in every larger one.\<close>

lemma strlen_from_mono: "strlen_from s i = Some n \<Longrightarrow> s \<subseteq>\<^sub>m s' \<Longrightarrow> strlen_from s' i = Some n"
proof (induction rule: strlen_from.raw_induct[rotated, consumes 1, case_names step])
  case (step rec s i n)
  then obtain c where c: "s i = Some c" "if c \<noteq> 0 then rec s (i + 1) = Some n else i = n" by (auto simp: bind_eq_Some_conv split: if_splits)
  have "s' i = Some c" by (rule map_leD[OF step.prems c(1)])
  then show ?case using c(2) step by (subst strlen_from.simps) (auto split: if_splits)
qed

lemma strncmp_from_mono: "strncmp_from s t i k = Some r \<Longrightarrow> s \<subseteq>\<^sub>m s' \<Longrightarrow> strncmp_from s' t i k = Some r"
  by (induction k arbitrary: i) (auto simp: bind_eq_Some_conv dest: map_leD split: if_splits)

lemma ent_name_mono: "m \<subseteq>\<^sub>m m' \<Longrightarrow> ent_name m e \<subseteq>\<^sub>m ent_name m' e"
  by (auto simp: ent_name_def mem_ptr_def map_le_def dom_def)

lemma lookup_loop_mono:
  assumes le: "m \<subseteq>\<^sub>m m'"
  shows "lookup_loop m dir name len i k = Some e \<Longrightarrow> lookup_loop m' dir name len i k = Some e"
proof (induction k arbitrary: i)
  case (Suc k)
  let ?s = "ent_name m (dir_entry dir i)" and ?s' = "ent_name m' (dir_entry dir i)"
  note nm = ent_name_mono[OF le, of "dir_entry dir i"]
  obtain n where n: "strlen ?s = Some n" using Suc.prems by (auto simp: bind_eq_Some_conv)
  then have n': "strlen ?s' = Some n" using strlen_from_mono[OF _ nm] by (simp add: strlen_def)
  show ?case
  proof (cases "n = len")
    case True
    then obtain r where r: "strncmp ?s name len = Some r" using Suc.prems n by (auto simp: bind_eq_Some_conv)
    then have "strncmp ?s' name len = Some r" using strncmp_from_mono[OF _ nm] by (simp add: strncmp_def)
    then show ?thesis using Suc n n' r True by (auto split: if_splits)
  qed (use Suc n n' in auto)
qed simp

lemma path_loop_mono:
  assumes le: "m \<subseteq>\<^sub>m m'"
  shows "path_loop m fs path len e dir start pos k = Some x \<Longrightarrow> path_loop m' fs path len e dir start pos k = Some x"
proof (induction k arbitrary: e dir start pos)
  case (Suc k)
  have lk: "lookup m' dir nm n = Some e" if "lookup m dir nm n = Some e" for dir nm n e
    using that lookup_loop_mono[OF le] vload32_mono[OF le] by (auto simp: lookup_def dir_count_def bind_eq_Some_conv)
  obtain c where c: "path pos = Some c" using Suc.prems by (auto simp: bind_eq_Some_conv)
  show ?case
  proof (cases "(c = 0x2F \<or> pos = len) \<and> pos > start")
    case False
    then show ?thesis using Suc.prems Suc.IH c by (auto split: if_splits)
  next
    case True
    then obtain e1 where e1: "lookup m dir (ptr_add path start) (pos - start) = Some e1" using Suc.prems c by (auto simp: bind_eq_Some_conv)
    note e1' = lk[OF e1]
    show ?thesis
    proof (cases "e1 = 0")
      case False
      then obtain t where t: "ent_type m e1 = Some t" using Suc.prems c True e1 by (auto simp: bind_eq_Some_conv)
      then have t': "ent_type m' e1 = Some t" using vload32_mono[OF le] by (simp add: ent_type_def)
      show ?thesis
      proof (cases "t = TYPE_DIR")
        case isd: True
        then obtain loc where l: "ent_location m e1 = Some loc" using Suc.prems c True e1 False t by (auto simp: bind_eq_Some_conv)
        then have "ent_location m' e1 = Some loc" using vload32_mono[OF le] by (simp add: ent_location_def)
        then show ?thesis using Suc.prems Suc.IH c True e1 e1' False t t' isd l by simp
      next
        case nd: False
        then show ?thesis using Suc.prems Suc.IH c True e1 e1' False t t' by (simp split: if_splits)
      qed
    qed (use Suc.prems c True e1 e1' in simp)
  qed
qed simp

lemma get_directory_entry_mono:
  assumes le: "m \<subseteq>\<^sub>m m'" and g: "get_directory_entry m fs path = Some x"
  shows "get_directory_entry m' fs path = Some x"
proof -
  obtain loc len where l: "vload32 m (fs + 8) = Some loc" "strlen path = Some len" "path_loop m fs path len fs (fs + loc) 0 0 (len + 1) = Some x"
    using g by (auto simp: get_directory_entry_def ent_location_def bind_eq_Some_conv simp del: path_loop.simps)
  from path_loop_mono[OF le l(3)] vload32_mono[OF le l(1)] l(2) show ?thesis
    by (simp add: get_directory_entry_def ent_location_def del: path_loop.simps)
qed

lemma sint_small: "k < 2 ^ 31 \<Longrightarrow> sint (of_nat k :: u32) = int k"
  by (subst signed_of_nat) (simp add: signed_take_bit_int_eq_self)

lemma restrict_le: "m |` R \<subseteq>\<^sub>m m"
  by (auto simp: map_le_def restrict_map_def)

lemma read_bytes_list:
  assumes "\<forall>i < length xs. rd8 st (a + of_nat i) = Some (xs ! i)"
  shows "read_bytes st a (length xs) = Some xs"
  using assms
proof (induction xs arbitrary: a)
  case (Cons x xs)
  have "rd8 st a = Some x" using spec[OF Cons.prems, of 0] by simp
  moreover have "\<forall>i < length xs. rd8 st (a + 1 + of_nat i) = Some (xs ! i)"
  proof (intro allI impI)
    fix i assume "i < length xs"
    then show "rd8 st (a + 1 + of_nat i) = Some (xs ! i)" using spec[OF Cons.prems, of "Suc i"] by (simp add: add.assoc)
  qed
  ultimately show ?case using Cons.IH by simp
qed simp

lemma read_bytes_take: "read_bytes st a n = Some bs \<Longrightarrow> k \<le> n \<Longrightarrow> read_bytes st a k = Some (take k bs)"
proof (induction n arbitrary: a k bs)
  case (Suc n)
  then show ?case by (cases k) (auto simp: bind_eq_Some_conv)
qed simp

section \<open>The state of a running program\<close>

text \<open>
  \<open>pas\<close> are the physical addresses of the buffer at \<open>ub\<close>, \<open>R\<close> the logical addresses of the image.
\<close>

definition program_runs :: "u32 \<Rightarrow> u32 list \<Rightarrow> u32 set \<Rightarrow> nat \<Rightarrow> kstate \<Rightarrow> bool" where
  "program_runs ub pas R i st \<longleftrightarrow> current_process st = Some i \<and> i < length (procs st) \<and> length (p_filedesc (procs st ! i)) = MAX_FDS \<and>
     user_range (procs st ! i) ub (length pas) \<and> paging_ok st \<and> user_safe st ub pas \<and> (\<forall>a \<in> R. \<forall>pa \<in> set pas. phys st a \<noteq> Some pa)"

text \<open>What a program changes: its buffer, its descriptors and error number, file handles, heap and screen.\<close>

definition kst :: "kstate \<Rightarrow> nat \<Rightarrow> bytemem \<Rightarrow> int \<Rightarrow> u32 list \<Rightarrow> (u32 \<Rightarrow> filehandle option) \<Rightarrow> memarea \<Rightarrow> vga \<Rightarrow> kstate" where
  "kst st i m err fds F ma v = st\<lparr>procs := (procs st)[i := (procs st ! i)\<lparr>p_last_errno := err, p_filedesc := fds\<rparr>], fhs := F,
     kernel_memarea := ma, console := v, pgs := (pgs st)\<lparr>pmem := m\<rparr>\<rparr>"

definition outside :: "u32 list \<Rightarrow> kstate \<Rightarrow> bytemem \<Rightarrow> bool" where
  "outside pas st m \<longleftrightarrow> (\<forall>x. x \<notin> set pas \<longrightarrow> m x = pmem (pgs st) x)"

lemma kst_self:
  assumes "program_runs ub pas R i st"
  shows "st = kst st i (pmem (pgs st)) (p_last_errno (procs st ! i)) (p_filedesc (procs st ! i)) (fhs st) (kernel_memarea st) (console st)"
    "outside pas st (pmem (pgs st))"
  using assms by (simp_all add: kst_def outside_def list_update_id)

lemma kst_simps [simp]:
  "current_process (kst st i m err fds F ma v) = current_process st" "fhs (kst st i m err fds F ma v) = F"
  "kernel_memarea (kst st i m err fds F ma v) = ma" "console (kst st i m err fds F ma v) = v" "pmem (pgs (kst st i m err fds F ma v)) = m"
  "filesystem (kst st i m err fds F ma v) = filesystem st" "paging (kst st i m err fds F ma v) = paging st" "junk (kst st i m err fds F ma v) = junk st"
  "pipes (kst st i m err fds F ma v) = pipes st" "bufs (kst st i m err fds F ma v) = bufs st" "mboxes (kst st i m err fds F ma v) = mboxes st"
  by (simp_all add: kst_def)

lemma set_pmem_kst: "set_pmem m' (kst st i m err fds F ma v) = kst st i m' err fds F ma v"
  by (simp add: kst_def set_pmem_def)

lemma kst_cur:
  assumes "program_runs ub pas R i st"
  shows "cur (kst st i m err fds F ma v) = Some ((procs st ! i)\<lparr>p_last_errno := err, p_filedesc := fds\<rparr>)"
    "upd_cur (\<lambda>p. p\<lparr>p_last_errno := err'\<rparr>) (kst st i m err fds F ma v) = Some (kst st i m err' fds F ma v)"
    "upd_cur (\<lambda>p. p\<lparr>p_filedesc := fds'\<rparr>) (kst st i m err fds F ma v) = Some (kst st i m err fds' F ma v)"
proof -
  have "current_process st = Some i" "i < length (procs st)" using assms by (simp_all add: program_runs_def)
  then show "cur (kst st i m err fds F ma v) = Some ((procs st ! i)\<lparr>p_last_errno := err, p_filedesc := fds\<rparr>)"
    "upd_cur (\<lambda>p. p\<lparr>p_last_errno := err'\<rparr>) (kst st i m err fds F ma v) = Some (kst st i m err' fds F ma v)"
    "upd_cur (\<lambda>p. p\<lparr>p_filedesc := fds'\<rparr>) (kst st i m err fds F ma v) = Some (kst st i m err fds' F ma v)"
    by (simp_all add: cur_def get_proc_def upd_cur_def upd_proc_ok kst_def) (cases st; cases "procs st ! i"; simp)+
qed

lemma kst_set_fh: "set_fh f h (kst st i m err fds F ma v) = kst st i m err fds (F(f \<mapsto> h)) ma v"
  by (simp add: set_fh_def kst_def)

lemma kst_mem:
  assumes p: "program_runs ub pas R i st" and m: "outside pas st m"
  shows "phys (kst st i m err fds F ma v) a = phys st a" "paging_ok (kst st i m err fds F ma v)" "user_safe (kst st i m err fds F ma v) ub pas"
    "a \<in> R \<Longrightarrow> rd8 (kst st i m err fds F ma v) a = rd8 st a"
proof -
  have ok: "paging_ok st" "user_safe st ub pas" using p by (simp_all add: program_runs_def)
  have t: "\<forall>x. page_of x \<in> table_pages st \<longrightarrow> m x = pmem (pgs st) x" using m ok(2) by (auto simp: outside_def user_safe_def)
  let ?k = "kst st i m err fds F ma v"
  have g: "pgs ?k = pgs (set_pmem m st)" "paging ?k = paging (set_pmem m st)" by (simp_all add: kst_def set_pmem_def)
  note fr = read_bytes_frame[OF g] and ph = phys_set_pmem[OF ok(1) t]
  show P: "phys ?k a = phys st a" for a using fr(1) ph(1) by simp
  show "paging_ok ?k" using fr(4) ph(3) by simp
  have "user_safe (set_pmem m st) ub pas" using ok(2) ph(1,2) by (simp add: user_safe_def mapped_to_def)
  then show "user_safe ?k ub pas" using fr(5) by simp
  show "rd8 ?k a = rd8 st a" if "a \<in> R"
  proof -
    have "pa \<notin> set pas" if "phys st a = Some pa" for pa using p that \<open>a \<in> R\<close> by (auto simp: program_runs_def)
    then show ?thesis using m by (cases "phys st a") (simp_all add: rd8_def P outside_def)
  qed
qed

lemma kst_write:
  assumes p: "program_runs ub pas R i st" and m: "outside pas st m" and n: "length bs \<le> length pas"
  obtains m' where "\<forall>err fds F ma v. write_bytes ub bs (kst st i m err fds F ma v) = Some (kst st i m' err fds F ma v)" "outside pas st m'"
    "\<forall>err fds F ma v. read_bytes (kst st i m' err fds F ma v) ub (length bs) = Some bs"
proof -
  let ?ps = "take (length bs) pas"
  have l: "length bs = length ?ps" using n by simp
  have u: "user_safe (kst st i m err fds F ma v) ub ?ps" for err fds F ma v by (rule user_safe_take[OF kst_mem(3)[OF p m]])
  show ?thesis
  proof (rule that[of "lay m ?ps bs"])
    show "\<forall>err fds F ma v. write_bytes ub bs (kst st i m err fds F ma v) = Some (kst st i (lay m ?ps bs) err fds F ma v)"
      using write_bytes_ok[OF kst_mem(2)[OF p m] u l] by (simp add: set_pmem_kst)
    show "\<forall>err fds F ma v. read_bytes (kst st i (lay m ?ps bs) err fds F ma v) ub (length bs) = Some bs"
      using write_bytes_state(5)[OF kst_mem(2)[OF p m] u l] by (simp add: set_pmem_kst)
    show "outside pas st (lay m ?ps bs)" unfolding outside_def
    proof (intro allI impI)
      fix x assume x: "x \<notin> set pas"
      then have "x \<notin> set ?ps" using in_set_takeD by fast
      then show "lay m ?ps bs x = pmem (pgs st) x" using m x by (simp add: lay_other outside_def)
    qed
  qed
qed

lemma kst_read_any:
  assumes p: "program_runs ub pas R i st" and m: "outside pas st m" and n: "n \<le> length pas"
  shows "\<exists>bs. length bs = n \<and> read_bytes (kst st i m err fds F ma v) ub n = Some bs"
proof -
  have "mapped_to (kst st i m err fds F ma v) ub (take n pas)" using user_safe_take[OF kst_mem(3)[OF p m]] by (simp add: user_safe_def)
  from read_bytes_ok[OF this] show ?thesis using n by simp
qed

lemma kst_valid:
  assumes p: "program_runs ub pas R i st" and n: "n \<le> length pas"
  shows "valid_pointer (kst st i m err fds F ma v) ub (of_nat n) = Some True" "unat (of_nat n :: u32) = n"
proof -
  have r: "user_range (procs st ! i) ub (length pas)" using p by (simp add: program_runs_def)
  have "n < 2 ^ 32" using user_range_bound[OF r] n by simp
  then show u: "unat (of_nat n :: u32) = n" by (simp add: unat_of_nat)
  have r': "user_range ((procs st ! i)\<lparr>p_last_errno := err, p_filedesc := fds\<rparr>) ub n" using user_range_sub[OF r n] by (simp add: user_range_def)
  show "valid_pointer (kst st i m err fds F ma v) ub (of_nat n) = Some True"
  proof (cases "n = 0")
    case False
    then have "(of_nat n :: u32) \<noteq> 0" using u by (metis unsigned_0)
    from valid_pointer_iff[OF kst_cur(1)[OF p] this] show ?thesis using r' u by simp
  qed (simp add: valid_pointer_zero)
qed

lemma kst_errno:
  assumes "program_runs ub pas R i st" "0 \<le> res" "call_no \<noteq> SYSCALL_GETERRNO"
  shows "store_errno call_no res (kst st i m err fds F ma v) = Some (res, kst st i m 0 fds F ma v)"
proof -
  have "current_process st = Some i" using assms(1) by (simp add: program_runs_def)
  then show ?thesis using assms(2,3) kst_cur(2)[OF assms(1)] by (auto simp: store_errno_def ESUSPEND_def)
qed

lemma kst_fd:
  assumes "program_runs ub pas R i st" "k < length fds" "length fds = MAX_FDS" "fds ! k \<noteq> 0"
  shows "bad_fd (int k) (kst st i m err fds F ma v) = Some False" "fd_get (int k) (kst st i m err fds F ma v) = Some (fds ! k)"
  using assms(2-4) kst_cur(1)[OF assms(1)] by (simp_all add: bad_fd_def fd_get_def)

section \<open>The calls\<close>

text \<open>Writing to the screen.\<close>

lemma k_write_screen:
  assumes p: "program_runs ub pas R i st" and m: "outside pas st m" and n: "length bs \<le> length pas" "length bs < 2 ^ 31"
    and h: "1 < length fds" "length fds = MAX_FDS" "fds ! 1 \<noteq> 0" "F (fds ! 1) = Some g" "fh_write g = screen_write"
    and w: "write_to_screen bs v = Some v'"
  shows "\<exists>m'. outside pas st m' \<and> k_write ub STDOUT_FILENO bs (kst st i m err fds F ma v) = Some (int (length bs), kst st i m' 0 fds F ma v')"
proof -
  obtain m' where m': "\<forall>err fds F ma v. write_bytes ub bs (kst st i m err fds F ma v) = Some (kst st i m' err fds F ma v)" "outside pas st m'"
    "\<forall>err fds F ma v. read_bytes (kst st i m' err fds F ma v) ub (length bs) = Some bs" by (rule kst_write[OF p m n(1)])
  note V = kst_valid[OF p n(1)] and D = kst_fd[OF p h(1-3)]
  have s: "sint (of_nat (length bs) :: u32) = int (length bs)" by (rule sint_small[OF n(2)])
  have "kst st i m' err fds F ma v\<lparr>console := v'\<rparr> = kst st i m' err fds F ma v'" by (simp add: kst_def)
  then have "syscall_write 1 ub (of_nat (length bs)) (kst st i m' err fds F ma v) = Some (int (length bs), kst st i m' err fds F ma v')"
    using V D h(4,5) m'(3) w s by (simp add: syscall_write_def get_fh_def screen_write_h_def)
  then show ?thesis using m'(1,2) kst_errno[OF p, of "int (length bs)" SYSCALL_WRITE]
    by (intro exI[of _ m']) (simp add: k_write_def STDOUT_FILENO_def call_result_def SYSCALL_WRITE_def SYSCALL_GETERRNO_def)
qed

text \<open>A handle of an open file.\<close>

definition file_handle :: "u32 \<Rightarrow> nat \<Rightarrow> filehandle" where
  "file_handle e pos = \<lparr>fh_type = FH_FILE, refcount = 1, fh_write = file_write, fh_read = file_read, fh_destroy = file_destroy,
     fh_p = None, fh_entry = Some e, fh_pos = Some (of_nat pos), fh_entryno = Some 0\<rparr>"

text \<open>Reading a file.\<close>

lemma file_read_ok:
  assumes p: "program_runs ub pas R i st" and m: "outside pas st m" and n: "n \<le> length pas" "n < 2 ^ 31"
    and h: "F f = Some (file_handle e pos)" and img: "represents (rd8 st |` R) (filesystem st) e (FFile d)"
    and pos: "pos \<le> length d" "length d < 2 ^ 31"
  defines "k \<equiv> min n (length d - pos)"
  shows "\<exists>m'. outside pas st m' \<and> file_read_h f ub (of_nat n) (kst st i m err fds F ma v) =
       Some (int k, kst st i m' err fds (F(f \<mapsto> file_handle e (pos + k))) ma v) \<and>
     (\<forall>err fds F ma v. read_bytes (kst st i m' err fds F ma v) ub k = Some (take n (drop pos d)))"
proof -
  let ?s = "kst st i m err fds F ma v" and ?fs = "filesystem st" and ?mem = "rd8 st |` R"
  obtain sz loc where r: "ent_size ?mem e = Some sz" "ent_location ?mem e = Some loc" "length d = unat sz" "\<forall>j < length d. ?mem (?fs + loc + of_nat j) = Some (d ! j)"
    using img by (auto elim: represents_fileE)
  have sub: "?mem \<subseteq>\<^sub>m rd8 ?s" unfolding map_le_def using kst_mem(4)[OF p m] by (auto simp: restrict_map_def)
  have sz: "ent_size (rd8 ?s) e = Some sz" "ent_location (rd8 ?s) e = Some loc" using r(1,2) vload32_mono[OF sub] by (simp_all add: ent_size_def ent_location_def)
  have u: "unat (of_nat pos :: u32) = pos" "unat (of_nat n :: u32) = n" using pos n(2) by (simp_all add: unat_of_nat)
  show ?thesis
  proof (cases "pos = length d")
    case True
    have ge: "sz \<le> of_nat pos" using u(1) r(3) True by (simp add: word_le_nat_alt)
    have k: "k = 0" "F(f \<mapsto> file_handle e (pos + k)) = F" using True h by (simp_all add: k_def fun_upd_idem)
    have "file_read_h f ub (of_nat n) ?s = Some (0, ?s)" using h sz ge by (simp add: file_read_h_def get_fh_def file_handle_def)
    then show ?thesis using m k True by (intro exI[of _ m]) simp
  next
    case False
    then have lt: "pos < length d" using pos(1) by simp
    then have ge: "\<not> sz \<le> of_nat pos" using u(1) r(3) by (simp add: word_le_nat_alt)
    define bs where "bs = take n (drop pos d)"
    have k: "k = length bs" "k \<le> length pas" using n(1) by (auto simp: k_def bs_def)
    have s: "unat (of_nat pos + of_nat n :: u32) = pos + n" using pos n(2) u by (simp add: unat_word_ariths)
    have d: "unat (sz - of_nat pos) = length d - pos" using lt r(3) u(1) by (simp add: unat_sub word_le_nat_alt)
    define w :: u32 where "w = (if of_nat pos + of_nat n > sz then sz - of_nat pos else of_nat n)"
    have "unat w = k" unfolding w_def using s d r(3) u(2) lt by (auto simp: word_less_nat_alt k_def)
    then have "of_nat (unat w) = (of_nat k :: u32)" by (rule arg_cong)
    then have c: "(if of_nat pos + of_nat n > sz then sz - of_nat pos else of_nat n :: u32) = of_nat k" unfolding w_def[symmetric] by simp
    have uk: "unat (of_nat k :: u32) = k" "sint (of_nat k :: u32) = int k" using n(2) by (simp_all add: k_def unat_of_nat sint_small)
    have "\<forall>j < length bs. rd8 ?s (?fs + loc + of_nat pos + of_nat j) = Some (bs ! j)"
    proof (intro allI impI)
      fix j assume j: "j < length bs"
      then have "pos + j < length d" by (auto simp: bs_def)
      then have "rd8 ?s (?fs + loc + of_nat (pos + j)) = Some (d ! (pos + j))" using r(4) map_leD[OF sub] by blast
      then show "rd8 ?s (?fs + loc + of_nat pos + of_nat j) = Some (bs ! j)" using j pos(1) by (simp add: bs_def add.assoc nth_drop)
    qed
    then have rb: "read_bytes ?s (?fs + loc + of_nat pos) k = Some bs" using read_bytes_list k(1) by simp
    obtain m' where m': "\<forall>err fds F ma v. write_bytes ub bs (kst st i m err fds F ma v) = Some (kst st i m' err fds F ma v)" "outside pas st m'"
      "\<forall>err fds F ma v. read_bytes (kst st i m' err fds F ma v) ub (length bs) = Some bs" by (rule kst_write[OF p m]) (use k in auto)
    have hp: "(file_handle e pos)\<lparr>fh_pos := Some (of_nat pos + of_nat k)\<rparr> = file_handle e (pos + k)" by (simp add: file_handle_def)
    have "file_read_h f ub (of_nat n) ?s = Some (int k, kst st i m' err fds (F(f \<mapsto> file_handle e (pos + k))) ma v)"
      using h sz ge c rb uk m'(1) unfolding file_read_h_def get_fh_def kst_simps hp[symmetric]
      by (simp add: file_handle_def kst_set_fh)
    then show ?thesis using m'(2,3) k(1) by (intro exI[of _ m']) (simp add: bs_def)
  qed
qed

lemma k_read_file:
  assumes p: "program_runs ub pas R i st" and m: "outside pas st m" and n: "n \<le> length pas" "n < 2 ^ 31"
    and fd: "q < length fds" "length fds = MAX_FDS" "fds ! q \<noteq> 0" "F (fds ! q) = Some (file_handle e pos)"
    and img: "represents (rd8 st |` R) (filesystem st) e (FFile d)" and pos: "pos \<le> length d" "length d < 2 ^ 31"
  defines "k \<equiv> min n (length d - pos)"
  shows "\<exists>m' bs. outside pas st m' \<and> k_read ub (int q) n (kst st i m err fds F ma v) =
       Some (int k, bs, kst st i m' 0 fds (F(fds ! q \<mapsto> file_handle e (pos + k))) ma v) \<and> take k bs = take n (drop pos d)"
proof -
  let ?F = "F(fds ! q \<mapsto> file_handle e (pos + k))"
  obtain m' where m': "outside pas st m'" "file_read_h (fds ! q) ub (of_nat n) (kst st i m err fds F ma v) = Some (int k, kst st i m' err fds ?F ma v)"
    "\<forall>err fds F ma v. read_bytes (kst st i m' err fds F ma v) ub k = Some (take n (drop pos d))"
    using file_read_ok[where F = F and f = "fds ! q", OF p m n fd(4) img pos] unfolding k_def by blast
  have "syscall_read (int q) ub (of_nat n) (kst st i m err fds F ma v) = Some (int k, kst st i m' err fds ?F ma v)"
    using kst_valid[OF p n(1)] kst_fd[OF p fd(1-3)] fd(4) m'(2) by (simp add: syscall_read_def get_fh_def) (simp add: file_handle_def)
  moreover obtain bs where "length bs = n" "read_bytes (kst st i m' 0 fds ?F ma v) ub n = Some bs" using kst_read_any[OF p m'(1) n(1)] by blast
  moreover from read_bytes_take[OF this(2), of k] have "take k bs = take n (drop pos d)" using m'(3) by (simp add: k_def)
  ultimately show ?thesis using m'(1) kst_errno[OF p, of "int k" SYSCALL_READ]
    by (intro exI[of _ m'] exI[of _ bs]) (simp add: k_read_def call_result_def SYSCALL_READ_def SYSCALL_GETERRNO_def)
qed

text \<open>Closing it.\<close>

lemma heap_kst: "heap_ok (kst st i m err fds F ma v) = heap_ok (st\<lparr>fhs := F, kernel_memarea := ma\<rparr>)"
  by (simp add: heap_ok_def objs_def)

lemma heap_upd: "heap_ok (st\<lparr>fhs := F, kernel_memarea := ma\<rparr>) \<Longrightarrow> F f \<noteq> None \<Longrightarrow> heap_ok (st\<lparr>fhs := F(f \<mapsto> h), kernel_memarea := ma\<rparr>)"
proof -
  assume h: "heap_ok (st\<lparr>fhs := F, kernel_memarea := ma\<rparr>)" and "F f \<noteq> None"
  then have "dom (F(f \<mapsto> h)) = dom F" by auto
  then show ?thesis using h by (simp add: heap_ok_def objs_def)
qed

lemma k_close_file:
  assumes p: "program_runs ub pas R i st" and fd: "q < length fds" "length fds = MAX_FDS" "fds ! q \<noteq> 0" "F (fds ! q) = Some (file_handle e pos)"
    and heap: "heap_ok (st\<lparr>fhs := F, kernel_memarea := ma\<rparr>)"
  shows "\<exists>ma'. k_close (int q) (kst st i m err fds F ma v) = Some (0, kst st i m 0 (fds[q := 0]) (F(fds ! q := None)) ma' v) \<and>
     heap_ok (st\<lparr>fhs := F(fds ! q := None), kernel_memarea := ma'\<rparr>)"
proof -
  let ?f = "fds ! q" and ?h = "(file_handle e pos)\<lparr>refcount := 0\<rparr>"
  define s1 where "s1 = kst st i m err fds (F(?f \<mapsto> ?h)) ma v"
  have h1: "heap_ok s1" unfolding s1_def heap_kst by (rule heap_upd[OF heap]) (use fd(4) in simp)
  have o: "?f \<in> objs s1" "?f \<in> dom (fhs s1)" by (auto simp: s1_def objs_def)
  obtain ma' where d: "kdelete ?f s1 = Some (s1\<lparr>kernel_memarea := ma', pipes := (pipes s1)(?f := None), fhs := (fhs s1)(?f := None),
     bufs := (bufs s1)(?f := None), mboxes := (mboxes s1)(?f := None)\<rparr>)"
    "heap_ok (s1\<lparr>kernel_memarea := ma', pipes := (pipes s1)(?f := None), fhs := (fhs s1)(?f := None), bufs := (bufs s1)(?f := None), mboxes := (mboxes s1)(?f := None)\<rparr>)"
    by (rule kdelete_ok[OF h1 o(1)])
  have n: "pipes st ?f = None" "bufs st ?f = None" "mboxes st ?f = None" using heap_okD(4)[OF h1 o(2)] by (auto simp: s1_def domIff)
  have eq: "s1\<lparr>kernel_memarea := ma', pipes := (pipes s1)(?f := None), fhs := (fhs s1)(?f := None), bufs := (bufs s1)(?f := None), mboxes := (mboxes s1)(?f := None)\<rparr> =
     kst st i m err fds (F(?f := None)) ma' v"
    using n by (simp add: s1_def fun_upd_idem) (simp add: kst_def)
  have "close_filehandle ?f (kst st i m err fds F ma v) = Some (kst st i m err fds (F(?f := None)) ma' v)"
    using fd(4) d(1) unfolding eq by (simp add: close_filehandle_def get_fh_def kst_set_fh s1_def file_handle_def call_destroy_def file_destroy_h_def)
  moreover have "fd_set q 0 (kst st i m err fds (F(?f := None)) ma' v) = Some (kst st i m err (fds[q := 0]) (F(?f := None)) ma' v)"
    using kst_cur(1,3)[OF p] fd(1) by (simp add: fd_set_def)
  ultimately have "syscall_close (int q) (kst st i m err fds F ma v) = Some (0, kst st i m err (fds[q := 0]) (F(?f := None)) ma' v)"
    using kst_fd[OF p fd(1-3)] by (simp add: syscall_close_def)
  then show ?thesis using kst_errno[OF p, of 0 SYSCALL_CLOSE] d(2) unfolding eq heap_kst
    by (intro exI[of _ ma']) (simp add: k_close_def call_result_def SYSCALL_CLOSE_def SYSCALL_GETERRNO_def)
qed

text \<open>Opening it: the path is resolved from the working directory and found in the tree.\<close>

definition resolved :: "u8 list list \<Rightarrow> u8 list \<Rightarrow> u8 list" where
  "resolved bs path = render (resolve bs path)"

lemma read_bytes_Cons: "read_bytes st a (Suc n) = Some (x # xs) \<longleftrightarrow> rd8 st a = Some x \<and> read_bytes st (a + 1) n = Some xs"
  by (auto simp: bind_eq_Some_conv)

lemma str_at_bytes:
  assumes "read_bytes st a (length bs + 1) = Some (bs @ [0])" "0 \<notin> set bs"
  shows "str_at (mem_ptr (rd8 st) a) 0 bs"
proof -
  have "read_bytes st (a + of_nat k) (Suc (length bs)) = Some (bs @ [0]) \<Longrightarrow> 0 \<notin> set bs \<Longrightarrow> str_at (mem_ptr (rd8 st) a) k bs" for k
  proof (induction bs arbitrary: k)
    case (Cons b bs)
    have e: "a + of_nat k + 1 = a + of_nat (Suc k)" by simp
    have "rd8 st (a + of_nat k) = Some b" "read_bytes st (a + of_nat (Suc k)) (Suc (length bs)) = Some (bs @ [0])"
      using Cons.prems(1) unfolding list.size append_Cons add_Suc_right add_0_right read_bytes_Cons e by auto
    then show ?case using Cons.IH[of "Suc k"] Cons.prems(2) by (simp add: mem_ptr_def del: read_bytes.simps of_nat_Suc)
  qed (auto simp: mem_ptr_def bind_eq_Some_conv)
  from this[of 0] assms show ?thesis by simp
qed

lemma string_in_buffer:
  assumes p: "program_runs ub pas R i st" and seg: "segments_mapped st (procs st ! i)" "segments_below (procs st ! i)"
    and m: "outside pas st m" and path: "0 \<notin> set path" "length path + 1 \<le> length pas"
    and r: "read_bytes (kst st i m err fds F ma v) ub (length path + 1) = Some (path @ [0])"
  shows "valid_string (kst st i m err fds F ma v) ub = Some True" "str_at (mem_ptr (rd8 (kst st i m err fds F ma v)) ub) 0 path"
proof -
  let ?s = "kst st i m err fds F ma v" and ?q = "(procs st ! i)\<lparr>p_last_errno := err, p_filedesc := fds\<rparr>"
  show s: "str_at (mem_ptr (rd8 ?s) ub) 0 path" by (rule str_at_bytes[OF r path(1)])
  have ur: "user_range ?q a n = user_range (procs st ! i) a n" for a n by (simp add: user_range_def)
  have sm: "segments_mapped ?s ?q" "segments_below ?q" using seg kst_mem(1)[OF p m] by (simp_all add: segments_mapped_def segments_below_def ur)
  have "user_range (procs st ! i) ub (Suc (length path))" using p path(2) user_range_sub by (auto simp: program_runs_def)
  moreover have "rd8 ?s (ub + of_nat (length path)) = Some 0" using str_at_end[OF s] by (simp add: mem_ptr_def)
  moreover have "rd8 ?s (ub + of_nat j) \<noteq> Some 0" if "j < length path" for j
    using str_at_nth[OF s that] path(1) nth_mem[OF that] by (auto simp: mem_ptr_def)
  ultimately have "is_string ?s ?q ub (length path)" by (simp add: is_string_def ur)
  then show "valid_string ?s ub = Some True" using valid_string_loop_ok[OF kst_cur(1)[OF p] sm, of 0 ub] by (auto simp: valid_string_def)
qed

lemma resolved_nonzero: "0 \<notin> set path \<Longrightarrow> \<forall>c \<in> set bs. comp_ok c \<Longrightarrow> 0 \<notin> set (resolved bs path)"
  unfolding resolved_def by (intro render_nonzero resolve_ok)

lemma find_fd_ok: "find_fd fds < length fds \<Longrightarrow> fds ! find_fd fds = 0"
  by (induction fds) auto

lemma k_open_file:
  assumes p: "program_runs ub pas R i st" and seg: "segments_mapped st (procs st ! i)" "segments_below (procs st ! i)"
    and m: "outside pas st m" and path: "0 \<notin> set path" "length path + 1 \<le> length pas"
    and cwd: "str_at (arr (p_cwd (procs st ! i))) 0 (render bs)" "\<forall>c \<in> set bs. comp_ok c" "length (render bs) + length path + 2 \<le> PATH_MAX"
    and img: "represents (rd8 st |` R) (filesystem st) (filesystem st) (FDir es)" and found: "path_find (FDir es) (resolved bs path) = Some (FFile d)"
    and fds: "find_fd fds < MAX_FDS" "length fds = MAX_FDS" and fl: "flags \<noteq> OPEN_DIRECTORY"
    and heap: "heap_ok (st\<lparr>fhs := F, kernel_memarea := ma\<rparr>)" "kmalloc ma 36 = Some (f, ma')"
  shows "\<exists>m' e. outside pas st m' \<and> represents (rd8 st |` R) (filesystem st) e (FFile d) \<and> f \<noteq> 0 \<and> F f = None \<and>
     k_open ub path flags (kst st i m err fds F ma v) =
       Some (int (find_fd fds), kst st i m' 0 (fds[find_fd fds := f]) (F(f \<mapsto> file_handle e 0)) ma' v) \<and>
     heap_ok (st\<lparr>fhs := F(f \<mapsto> file_handle e 0), kernel_memarea := ma'\<rparr>)"
proof -
  have le: "length (path @ [0]) \<le> length pas" using path(2) by simp
  obtain m' where m': "\<forall>err fds F ma v. write_bytes ub (path @ [0]) (kst st i m err fds F ma v) = Some (kst st i m' err fds F ma v)" "outside pas st m'"
    "\<forall>err fds F ma v. read_bytes (kst st i m' err fds F ma v) ub (length (path @ [0])) = Some (path @ [0])"
    by (rule kst_write[OF p m le])
  define s where "s = kst st i m' err fds F ma v"
  have rb: "read_bytes s ub (length path + 1) = Some (path @ [0])" using m'(3) by (simp add: s_def)
  note str = string_in_buffer[OF p seg m'(2) path rb[unfolded s_def], folded s_def]
  have c: "cur s = Some ((procs st ! i)\<lparr>p_last_errno := err, p_filedesc := fds\<rparr>)" unfolding s_def by (rule kst_cur(1)[OF p])
  have "length (local_array PATH_MAX s) = PATH_MAX" "PATH_MAX < 2147483600" by (simp_all add: local_array_def PATH_MAX_def)
  then obtain rest where ab: "abs_path ub s = Some (resolved bs path @ 0 # rest)"
    using relative_to_absolute_ok[OF str(2) cwd(1,2), of "local_array PATH_MAX s"] cwd(3) c by (auto simp: abs_path_def resolved_def resolve_def)
  have nz: "0 \<notin> set (resolved bs path)" by (rule resolved_nonzero[OF path(1) cwd(2)])
  have pa: "str_at (arr (resolved bs path @ 0 # rest)) 0 (resolved bs path)" by (rule str_at_arr0[OF nz])
  let ?m = "rd8 st |` R"
  have sub: "?m \<subseteq>\<^sub>m rd8 s" unfolding map_le_def s_def using kst_mem(4)[OF p m'(2)] by (auto simp: restrict_map_def)
  obtain e where e: "get_directory_entry ?m (filesystem st) (arr (resolved bs path @ 0 # rest)) = Some (0, e)" "represents ?m (filesystem st) e (FFile d)"
    using get_directory_entry_ok[OF img pa] found by auto
  have ge: "get_directory_entry (rd8 s) (filesystem st) (arr (resolved bs path @ 0 # rest)) = Some (0, e)" by (rule get_directory_entry_mono[OF sub e(1)])
  have "ent_type ?m e = Some TYPE_FILE" using e(2) by (auto elim: represents_fileE)
  then have ty: "ent_type (rd8 s) e = Some TYPE_FILE" using vload32_mono[OF sub] by (simp add: ent_type_def)
  have kn: "knew 36 s = Some (f, kst st i m' err fds F ma' v)" using heap(2) by (simp add: knew_def s_def kst_def)
  obtain ma2 where k: "f \<notin> objs s" "f \<noteq> 0" "heap_ok (kst st i m' err fds F ma' v)" "f \<in> dom (allocated ma2)" "kst st i m' err fds F ma' v = s\<lparr>kernel_memarea := ma2\<rparr>"
    by (rule knew_ok[OF _ kn]) (use heap(1) in \<open>auto simp: s_def heap_kst\<close>)
  have ma2: "ma2 = ma'" using arg_cong[OF k(5), of kernel_memarea] by simp
  have fn: "F f = None" "pipes st f = None" "bufs st f = None" "mboxes st f = None" using k(1) by (auto simp: s_def objs_def)
  have hp: "heap_ok (st\<lparr>fhs := F(f \<mapsto> file_handle e 0), kernel_memarea := ma'\<rparr>)"
    using k(3,4) fn unfolding heap_kst ma2 heap_ok_def objs_def by auto
  define h0 where "h0 = \<lparr>fh_type = FH_FILE, refcount = 1, fh_write = file_write, fh_read = file_read, fh_destroy = file_destroy,
     fh_p = None, fh_entry = None, fh_pos = None, fh_entryno = None\<rparr>"
  have nf: "new_file FH_FILE s = Some (f, kst st i m' err fds (F(f \<mapsto> h0)) ma' v)" using kn by (simp add: new_file_def kst_set_fh h0_def)
  have he: "h0\<lparr>fh_entry := Some e, fh_pos := Some 0, fh_entryno := Some 0\<rparr> = file_handle e 0" by (simp add: h0_def file_handle_def)
  have fs: "fd_set (find_fd fds) f (kst st i m' err fds (F(f \<mapsto> file_handle e 0)) ma' v) =
      Some (kst st i m' err (fds[find_fd fds := f]) (F(f \<mapsto> file_handle e 0)) ma' v)"
    using kst_cur(1,3)[OF p] fds by (simp add: fd_set_def)
  have "syscall_open ub flags s = Some (int (find_fd fds), kst st i m' err (fds[find_fd fds := f]) (F(f \<mapsto> file_handle e 0)) ma' v)"
    using str(1) c fds ab ge ty nf fl fs by (simp add: syscall_open_def TYPE_FILE_def TYPE_DIR_def get_fh_def kst_set_fh he Let_def s_def)
  then have "k_open ub path flags (kst st i m err fds F ma v) =
       Some (int (find_fd fds), kst st i m' 0 (fds[find_fd fds := f]) (F(f \<mapsto> file_handle e 0)) ma' v)"
    using m'(1) kst_errno[OF p, of "int (find_fd fds)" SYSCALL_OPEN] by (simp add: k_open_def call_result_def s_def SYSCALL_OPEN_def SYSCALL_GETERRNO_def)
  then show ?thesis using m'(2) e(2) k(2) fn(1) hp by blast
qed

end
