(* ===== verification/Programs_Correct.thy ===== *)
theory Programs_Correct
  imports Files_Correct
begin

text \<open>
  Programs on the calls they make. The locale \<open>file_calls\<close> is what cat relies on; the kernel provides it.
\<close>

section \<open>Output in pieces\<close>

text \<open>Writing does not depend on where the hardware shows the cursor.\<close>

definition blind :: "(vga \<Rightarrow> vga option) \<Rightarrow> bool" where
  "blind g \<longleftrightarrow> (\<forall>v h l. g (v\<lparr>cursor_hi := h, cursor_lo := l\<rparr>) = map_option (\<lambda>v. v\<lparr>cursor_hi := h, cursor_lo := l\<rparr>) (g v))"

lemma blindD: "blind g \<Longrightarrow> g (v\<lparr>cursor_hi := h, cursor_lo := l\<rparr>) = map_option (\<lambda>v. v\<lparr>cursor_hi := h, cursor_lo := l\<rparr>) (g v)"
  by (simp add: blind_def)

lemma blind_bind: "blind f \<Longrightarrow> blind g \<Longrightarrow> blind (\<lambda>v. Option.bind (f v) g)"
  unfolding blind_def by (auto simp: map_option_bind split: Option.bind_splits)

lemma blind_fold: "(\<And>x. blind (f x)) \<Longrightarrow> blind (fold_opt f xs)"
proof (induction xs)
  case (Cons x xs)
  then show ?case using blind_bind[of "f x" "fold_opt f xs"] by simp
qed (simp add: blind_def)

lemma blind_set_c: "blind (set_c i c)"
  by (auto simp: blind_def set_c_def list_get_def list_put_def)

lemma blind_copy_cell: "blind (copy_cell i j)"
  by (auto simp: blind_def copy_cell_def list_get_def list_put_def)

lemma blind_scroll: "blind scroll"
proof -
  have "blind (\<lambda>v. Some (v\<lparr>ypos := ypos v - 1\<rparr>))" by (simp add: blind_def)
  then show ?thesis unfolding scroll_def by (intro blind_bind blind_fold blind_copy_cell blind_set_c)
qed

lemma blind_write_char: "blind (write_char c)"
proof -
  have a: "blind (\<lambda>v. set_c (cell_index v) x v)" for x using blind_set_c by (simp add: blind_def cell_index_def)
  have b: "blind (\<lambda>v. set_c (cell_index (v\<lparr>xpos := xpos v - 1\<rparr>)) x (v\<lparr>xpos := xpos v - 1\<rparr>))" for x
    using blind_bind[of "\<lambda>v. Some (v\<lparr>xpos := xpos v - 1\<rparr>)", OF _ a[of x]] by (simp add: blind_def)
  have "blind (\<lambda>v. Some (if xpos v \<ge> 80 then v\<lparr>xpos := 0, ypos := ypos v + 1\<rparr> else v))" by (simp add: blind_def)
  moreover have "blind (\<lambda>v. if ypos v \<ge> 25 then scroll v else Some v)" using blind_scroll by (simp add: blind_def)
  ultimately have "blind (\<lambda>v. Option.bind (Some (if xpos v \<ge> 80 then v\<lparr>xpos := 0, ypos := ypos v + 1\<rparr> else v)) (\<lambda>v. if ypos v \<ge> 25 then scroll v else Some v))"
    by (rule blind_bind)
  then have w: "blind wrap_line" unfolding wrap_line_def Let_def by simp
  have "blind (\<lambda>v. if c = 10 then Some (v\<lparr>xpos := 0, ypos := ypos v + 1\<rparr>)
        else if c = 9 then Some (v\<lparr>xpos := xpos v + (8 - xpos v mod 8)\<rparr>)
        else if c = BACKSPACE \<and> xpos v \<noteq> 0 then set_c (cell_index (v\<lparr>xpos := xpos v - 1\<rparr>)) 0 (v\<lparr>xpos := xpos v - 1\<rparr>)
        else Option.bind (set_c (cell_index v) c v) (\<lambda>v'. Some (v'\<lparr>xpos := xpos v' + 1\<rparr>)))" (is "blind ?f")
    using b[of 0] blind_bind[OF a[of c], of "\<lambda>v. Some (v\<lparr>xpos := xpos v + 1\<rparr>)"] unfolding blind_def by auto
  moreover have "write_char c = (\<lambda>v. Option.bind (?f v) wrap_line)" by (rule ext) (simp add: write_char_eq Let_def)
  ultimately show ?thesis using blind_bind[OF _ w] by simp
qed

lemma write_to_screen_append:
  assumes "write_to_screen a v = Some v'"
  shows "write_to_screen (a @ b) v = write_to_screen b v'"
proof -
  obtain t where t: "fold_opt write_char a v = Some t" "v' = move_cursor (xpos t) (ypos t) t" using assms by (auto simp: write_to_screen_def bind_eq_Some_conv)
  note B = blindD[OF blind_fold[of write_char, OF blind_write_char]]
  show ?thesis using t(1) unfolding t(2) by (cases "fold_opt write_char b t") (simp_all add: write_to_screen_def move_cursor_def Let_def B)
qed

section \<open>cat\<close>

text \<open>
  What cat relies on: while a file is open, with the bytes \<open>rest\<close> still to read and \<open>out\<close> written so far,
  \<open>read\<close> delivers the next bytes and \<open>write\<close> appends to the output.
\<close>

locale file_calls =
  fixes C :: "'w calls"
    and opened :: "int \<Rightarrow> u8 list \<Rightarrow> u8 list \<Rightarrow> 'w \<Rightarrow> bool"
    and closed :: "u8 list \<Rightarrow> 'w \<Rightarrow> bool"
  assumes read_law: "opened fd rest out w \<Longrightarrow> n \<le> 20 \<Longrightarrow> \<exists>bs w'. c_read C fd n w = Some (int (min n (length rest)), bs, w') \<and>
      take (min n (length rest)) bs = take n rest \<and> opened fd (drop n rest) out w'"
    and write_law: "opened fd rest out w \<Longrightarrow> bs \<noteq> [] \<Longrightarrow> length bs \<le> 20 \<Longrightarrow>
      \<exists>w'. c_write C STDOUT_FILENO bs w = Some (int (length bs), w') \<and> opened fd rest (out @ bs) w'"
    and close_law: "opened fd rest out w \<Longrightarrow> \<exists>w'. c_close C fd w = Some (0, w') \<and> closed out w'"
begin

lemma cat_loop_copies: "opened fd rest out w \<Longrightarrow> \<exists>w'. cat_loop C fd w = Some (0, w') \<and> opened fd [] (out @ rest) w'"
proof (induction "length rest" arbitrary: rest out w rule: less_induct)
  case less
  obtain bs w1 where r: "c_read C fd 20 w = Some (int (min 20 (length rest)), bs, w1)" "take (min 20 (length rest)) bs = take 20 rest" "opened fd (drop 20 rest) out w1"
    using read_law[OF less.prems, of 20] by auto
  show ?case
  proof (cases "rest = []")
    case True
    then show ?thesis using r by (subst cat_loop.simps) simp
  next
    case False
    obtain w2 where w2: "c_write C STDOUT_FILENO (take 20 rest) w1 = Some (int (length (take 20 rest)), w2)" "opened fd (drop 20 rest) (out @ take 20 rest) w2"
      using write_law[OF r(3), of "take 20 rest"] False by auto
    obtain w' where "cat_loop C fd w2 = Some (0, w')" "opened fd [] ((out @ take 20 rest) @ drop 20 rest) w'"
      using less.hyps[OF _ w2(2)] False by auto
    then show ?thesis using r(1,2) w2(1) False by (subst cat_loop.simps) simp
  qed
qed

lemma cat_copies:
  assumes "length argv \<ge> 2" "c_open C (argv ! 1) 0 w = Some (fd, w1)" "0 \<le> fd" "opened fd d [] w1"
  shows "\<exists>w'. cat_main C argv w = Some (0, w') \<and> closed d w'"
proof -
  obtain w2 where l: "cat_loop C fd w1 = Some (0, w2)" "opened fd [] d w2" using cat_loop_copies[OF assms(4)] by auto
  obtain w3 where "c_close C fd w2 = Some (0, w3)" "closed d w3" using close_law[OF l(2)] by blast
  then show ?thesis using assms(1-3) l(1) by (simp add: cat_main_def)
qed

end

text \<open>The kernel, for a program that started in state \<open>st\<close> with the screen as its standard output.\<close>

definition shown :: "u8 list \<Rightarrow> vga \<Rightarrow> vga \<Rightarrow> bool" where
  "shown out v v' \<longleftrightarrow> (if out = [] then v' = v else write_to_screen out v = Some v')"

definition out_screen :: "nat \<Rightarrow> kstate \<Rightarrow> bool" where
  "out_screen i st \<longleftrightarrow> (\<exists>g. p_filedesc (procs st ! i) ! 1 \<noteq> 0 \<and> fhs st (p_filedesc (procs st ! i) ! 1) = Some g \<and> fh_write g = screen_write)"

definition k_opened :: "u32 \<Rightarrow> u32 list \<Rightarrow> u32 set \<Rightarrow> nat \<Rightarrow> kstate \<Rightarrow> int \<Rightarrow> u8 list \<Rightarrow> u8 list \<Rightarrow> kstate \<Rightarrow> bool" where
  "k_opened ub pas R i st fd rest out st' \<longleftrightarrow> program_runs ub pas R i st \<and> 20 \<le> length pas \<and> out_screen i st \<and>
     (\<exists>q f e pos d m err ma v. fd = int q \<and> q < MAX_FDS \<and> p_filedesc (procs st ! i) ! q = 0 \<and> f \<noteq> 0 \<and> fhs st f = None \<and> outside pas st m \<and>
        represents (rd8 st |` R) (filesystem st) e (FFile d) \<and> pos \<le> length d \<and> length d < 2 ^ 31 \<and> rest = drop pos d \<and>
        shown out (console st) v \<and> vga_ok v \<and> heap_ok (st\<lparr>fhs := (fhs st)(f \<mapsto> file_handle e pos), kernel_memarea := ma\<rparr>) \<and>
        st' = kst st i m err ((p_filedesc (procs st ! i))[q := f]) ((fhs st)(f \<mapsto> file_handle e pos)) ma v)"

definition k_closed :: "u32 list \<Rightarrow> nat \<Rightarrow> kstate \<Rightarrow> u8 list \<Rightarrow> kstate \<Rightarrow> bool" where
  "k_closed pas i st out st' \<longleftrightarrow> (\<exists>m ma v. outside pas st m \<and> shown out (console st) v \<and>
     heap_ok (st\<lparr>kernel_memarea := ma\<rparr>) \<and> st' = kst st i m 0 (p_filedesc (procs st ! i)) (fhs st) ma v)"

lemma k_openedE:
  assumes "k_opened ub pas R i st fd rest out st'"
  obtains q f e pos d m err ma v where "program_runs ub pas R i st" "20 \<le> length pas" "out_screen i st" "fd = int q" "q < MAX_FDS"
    "p_filedesc (procs st ! i) ! q = 0" "f \<noteq> 0" "fhs st f = None" "outside pas st m" "represents (rd8 st |` R) (filesystem st) e (FFile d)"
    "pos \<le> length d" "length d < 2 ^ 31" "rest = drop pos d" "shown out (console st) v" "vga_ok v"
    "heap_ok (st\<lparr>fhs := (fhs st)(f \<mapsto> file_handle e pos), kernel_memarea := ma\<rparr>)"
    "st' = kst st i m err ((p_filedesc (procs st ! i))[q := f]) ((fhs st)(f \<mapsto> file_handle e pos)) ma v"
    "length ((p_filedesc (procs st ! i))[q := f]) = MAX_FDS"
  using assms unfolding k_opened_def by (elim exE conjE) (simp add: program_runs_def)

lemma k_opened_read:
  assumes o: "k_opened ub pas R i st fd rest out st'" and n: "n \<le> 20"
  shows "\<exists>bs st''. k_read ub fd n st' = Some (int (min n (length rest)), bs, st'') \<and> take (min n (length rest)) bs = take n rest \<and>
     k_opened ub pas R i st fd (drop n rest) out st''"
proof -
  let ?fds = "p_filedesc (procs st ! i)"
  obtain q f e pos d m err ma v where k: "program_runs ub pas R i st" "20 \<le> length pas" "out_screen i st" "fd = int q" "q < MAX_FDS" "?fds ! q = 0" "f \<noteq> 0"
    "fhs st f = None" "outside pas st m" "represents (rd8 st |` R) (filesystem st) e (FFile d)" "pos \<le> length d" "length d < 2 ^ 31" "rest = drop pos d"
    "shown out (console st) v" "vga_ok v" "heap_ok (st\<lparr>fhs := (fhs st)(f \<mapsto> file_handle e pos), kernel_memarea := ma\<rparr>)"
    "st' = kst st i m err (?fds[q := f]) ((fhs st)(f \<mapsto> file_handle e pos)) ma v" "length (?fds[q := f]) = MAX_FDS" by (rule k_openedE[OF o])
  let ?k = "min n (length d - pos)" let ?F = "\<lambda>p. (fhs st)(f \<mapsto> file_handle e p)"
  have n': "n \<le> length pas" "n < 2 ^ 31" using n k(2) by simp_all
  have at: "?fds[q := f] ! q = f" "q < length (?fds[q := f])" using k(5,18) by simp_all
  obtain m' bs where r: "outside pas st m'" "k_read ub (int q) n st' = Some (int ?k, bs, kst st i m' 0 (?fds[q := f]) (?F (pos + ?k)) ma v)"
    "take ?k bs = take n (drop pos d)"
    using k_read_file[where fds = "?fds[q := f]" and F = "?F pos" and q = q and e = e and err = err and ma = ma and v = v, OF k(1,9) n' at(2) k(18) _ _ k(10-12)]
    unfolding at(1) k(17) using k(7) by auto
  have h: "heap_ok (st\<lparr>fhs := ?F (pos + ?k), kernel_memarea := ma\<rparr>)" using heap_upd[OF k(16), of f] by simp
  have "drop n rest = drop (pos + ?k) d" "pos + ?k \<le> length d" using k(11,13) by (auto simp: min_def add.commute)
  then have "k_opened ub pas R i st fd (drop n rest) out (kst st i m' 0 (?fds[q := f]) (?F (pos + ?k)) ma v)"
    using k(1-8,10,12,14,15) r(1) h unfolding k_opened_def by blast
  then show ?thesis using r(2,3) k(4,13) by auto
qed

lemma k_opened_write:
  assumes o: "k_opened ub pas R i st fd rest out st'" and bs: "bs \<noteq> []" "length bs \<le> 20"
  shows "\<exists>st''. k_write ub STDOUT_FILENO bs st' = Some (int (length bs), st'') \<and> k_opened ub pas R i st fd rest (out @ bs) st''"
proof -
  let ?fds = "p_filedesc (procs st ! i)"
  obtain q f e pos d m err ma v where k: "program_runs ub pas R i st" "20 \<le> length pas" "out_screen i st" "fd = int q" "q < MAX_FDS" "?fds ! q = 0" "f \<noteq> 0"
    "fhs st f = None" "outside pas st m" "represents (rd8 st |` R) (filesystem st) e (FFile d)" "pos \<le> length d" "length d < 2 ^ 31" "rest = drop pos d"
    "shown out (console st) v" "vga_ok v" "heap_ok (st\<lparr>fhs := (fhs st)(f \<mapsto> file_handle e pos), kernel_memarea := ma\<rparr>)"
    "st' = kst st i m err (?fds[q := f]) ((fhs st)(f \<mapsto> file_handle e pos)) ma v" "length (?fds[q := f]) = MAX_FDS" by (rule k_openedE[OF o])
  let ?F = "(fhs st)(f \<mapsto> file_handle e pos)"
  obtain g where g: "?fds ! 1 \<noteq> 0" "fhs st (?fds ! 1) = Some g" "fh_write g = screen_write" using k(3) by (auto simp: out_screen_def)
  have q1: "q \<noteq> 1" "?fds ! 1 \<noteq> f" using k(6,8) g(1,2) by auto
  obtain t where t: "fold_opt write_char bs v = Some t" "vga_ok t" using write_chars_ok[OF k(15)] by blast
  define v' where "v' = move_cursor (xpos t) (ypos t) t"
  have w: "write_to_screen bs v = Some v'" using t(1) by (simp add: write_to_screen_def v'_def)
  have ok: "vga_ok v'" using t(2) by (simp add: v'_def vga_ok_def move_cursor_def Let_def)
  have fd1: "1 < length (?fds[q := f])" "?fds[q := f] ! 1 = ?fds ! 1" using k(18) q1 by (simp_all add: MAX_FDS_def)
  have n: "length bs \<le> length pas" "length bs < 2 ^ 31" using bs(2) k(2) by simp_all
  have F1: "?F (?fds[q := f] ! 1) = Some g" "?fds[q := f] ! 1 \<noteq> 0" using g q1 unfolding fd1(2) by simp_all
  obtain m' where r: "outside pas st m'" "k_write ub STDOUT_FILENO bs st' = Some (int (length bs), kst st i m' 0 (?fds[q := f]) ?F ma v')"
    using k_write_screen[where F = ?F and err = err and ma = ma, OF k(1,9) n fd1(1) k(18) F1(2,1) g(3) w] unfolding k(17) by blast
  have "shown (out @ bs) (console st) v'"
    using k(14) w bs(1) write_to_screen_append[of out "console st" v bs] by (auto simp: shown_def split: if_splits)
  then have "k_opened ub pas R i st fd rest (out @ bs) (kst st i m' 0 (?fds[q := f]) ?F ma v')"
    using k(1-8,10-13,16) r(1) ok unfolding k_opened_def by blast
  then show ?thesis using r(2) by blast
qed

lemma k_opened_close:
  assumes o: "k_opened ub pas R i st fd rest out st'"
  shows "\<exists>st''. k_close fd st' = Some (0, st'') \<and> k_closed pas i st out st''"
proof -
  let ?fds = "p_filedesc (procs st ! i)"
  obtain q f e pos d m err ma v where k: "program_runs ub pas R i st" "20 \<le> length pas" "out_screen i st" "fd = int q" "q < MAX_FDS" "?fds ! q = 0" "f \<noteq> 0"
    "fhs st f = None" "outside pas st m" "represents (rd8 st |` R) (filesystem st) e (FFile d)" "pos \<le> length d" "length d < 2 ^ 31" "rest = drop pos d"
    "shown out (console st) v" "vga_ok v" "heap_ok (st\<lparr>fhs := (fhs st)(f \<mapsto> file_handle e pos), kernel_memarea := ma\<rparr>)"
    "st' = kst st i m err (?fds[q := f]) ((fhs st)(f \<mapsto> file_handle e pos)) ma v" "length (?fds[q := f]) = MAX_FDS" by (rule k_openedE[OF o])
  let ?F = "(fhs st)(f \<mapsto> file_handle e pos)"
  have at: "?fds[q := f] ! q = f" "q < length (?fds[q := f])" using k(5,18) by simp_all
  have b: "(?F)(f := None) = fhs st" "(?fds[q := f])[q := 0] = ?fds" using k(6,8) by (auto simp: fun_upd_idem list_update_id[of ?fds q, unfolded k(6)])
  obtain ma' where c: "k_close (int q) st' = Some (0, kst st i m 0 ?fds (fhs st) ma' v)" "heap_ok (st\<lparr>fhs := fhs st, kernel_memarea := ma'\<rparr>)"
    using k_close_file[where fds = "?fds[q := f]" and F = ?F and q = q and err = err and m = m and v = v, OF k(1) at(2) k(18) _ _ k(16)]
    unfolding at(1) b k(17) using k(7) by auto
  then show ?thesis using k(4,9,14) unfolding k_closed_def by auto
qed

interpretation kf: file_calls "kernel_calls ub sb r" "k_opened ub pas R i st" "k_closed pas i st" for ub sb r pas R i st
  by unfold_locales (auto simp: kernel_calls_def intro: k_opened_read k_opened_write k_opened_close)

section \<open>cat on the kernel\<close>

text \<open>cat prints files. When the path, resolved from the working directory of the process, names a file of
  the tree that the image represents, cat ends with status 0 after it has written exactly the bytes of
  the file to the screen; it leaves the process table as it was but for the error number 0, no
  descriptor or file handle stays behind, and no memory outside its buffer has changed.\<close>

lemma cat_prints_file:
  assumes p: "program_runs ub pas R i st" and seg: "segments_mapped st (procs st ! i)" "segments_below (procs st ! i)"
    and argv: "2 \<le> length argv" "0 \<notin> set (argv ! 1)" "length (argv ! 1) + 1 \<le> length pas" "20 \<le> length pas"
    and cwd: "str_at (arr (p_cwd (procs st ! i))) 0 (render bs)" "\<forall>c \<in> set bs. comp_ok c" "length (render bs) + length (argv ! 1) + 2 \<le> PATH_MAX"
    and img: "represents (rd8 st |` R) (filesystem st) (filesystem st) (FDir es)"
    and found: "path_find (FDir es) (resolved bs (argv ! 1)) = Some (FFile d)" "length d < 2 ^ 31"
    and out: "out_screen i st" "vga_ok (console st)"
    and free: "find_fd (p_filedesc (procs st ! i)) < MAX_FDS" "kmalloc (kernel_memarea st) 36 \<noteq> None" "heap_ok st"
  shows "\<exists>st'. cat_main (kernel_calls ub sb r) argv st = Some (0, st') \<and>
     (if d = [] then console st' = console st else write_to_screen d (console st) = Some (console st')) \<and>
     procs st' = (procs st)[i := (procs st ! i)\<lparr>p_last_errno := 0\<rparr>] \<and> fhs st' = fhs st \<and> heap_ok st' \<and>
     (\<forall>x. x \<notin> set pas \<longrightarrow> pmem (pgs st') x = pmem (pgs st) x)"
proof -
  let ?fds = "p_filedesc (procs st ! i)" let ?q = "find_fd ?fds"
  obtain f ma where f: "kmalloc (kernel_memarea st) 36 = Some (f, ma)" using free(2) by auto
  have l: "length ?fds = MAX_FDS" using p by (simp add: program_runs_def)
  note self = kst_self[OF p]
  have h0: "heap_ok (st\<lparr>fhs := fhs st, kernel_memarea := kernel_memarea st\<rparr>)" using free(3) by simp
  have nd: "(0 :: int) \<noteq> OPEN_DIRECTORY" by (simp add: OPEN_DIRECTORY_def)
  obtain m e where o: "outside pas st m" "represents (rd8 st |` R) (filesystem st) e (FFile d)" "f \<noteq> 0" "fhs st f = None"
    "k_open ub (argv ! 1) 0 st = Some (int ?q, kst st i m 0 (?fds[?q := f]) ((fhs st)(f \<mapsto> file_handle e 0)) ma (console st))"
    "heap_ok (st\<lparr>fhs := (fhs st)(f \<mapsto> file_handle e 0), kernel_memarea := ma\<rparr>)"
    using k_open_file[OF p seg self(2) argv(2,3) cwd img found(1) free(1) l nd h0 f, of "p_last_errno (procs st ! i)" "console st"]
    unfolding self(1)[symmetric] by blast
  have "k_opened ub pas R i st (int ?q) d [] (kst st i m 0 (?fds[?q := f]) ((fhs st)(f \<mapsto> file_handle e 0)) ma (console st))"
    unfolding k_opened_def using p argv(4) out free(1) find_fd_ok[of ?fds] l o found(2) by (fastforce simp: shown_def)
  from kf.cat_copies[where w = st and sb = sb and r = r, OF argv(1) _ _ this] obtain st' where c: "cat_main (kernel_calls ub sb r) argv st = Some (0, st')" "k_closed pas i st d st'"
    using o(5) by (auto simp: kernel_calls_def)
  then show ?thesis
    unfolding k_closed_def
  proof (elim exE conjE)
    fix m ma v assume k: "outside pas st m" "shown d (console st) v" "heap_ok (st\<lparr>kernel_memarea := ma\<rparr>)" "st' = kst st i m 0 ?fds (fhs st) ma v"
    have "procs st' = (procs st)[i := (procs st ! i)\<lparr>p_last_errno := 0\<rparr>]" by (simp add: k(4) kst_def)
    moreover have "heap_ok st'" using k(3) unfolding k(4) heap_kst by simp
    ultimately show ?thesis using c(1) k by (auto simp: shown_def outside_def)
  qed
qed

text \<open>An example: a process whose standard output is the screen, and the image with one file in memory.\<close>

definition example_cat_process :: process where
  "example_cat_process = (example_procs ! 1)\<lparr>p_stack_start := 0x20000000, p_stack_end := 0x20001000, p_cwd := [47, 0],
     p_filedesc := (replicate MAX_FDS 0)[1 := fst (the (kmalloc (kernel_memarea example_kstate) 36))]\<rparr>"

definition example_cat :: kstate where
  "example_cat = example_kstate\<lparr>procs := example_procs[1 := example_cat_process], filesystem := 0x100, console := example_vga,
     fhs := [fst (the (kmalloc (kernel_memarea example_kstate) 36)) \<mapsto> \<lparr>fh_type = FH_SCREEN, refcount = 1, fh_write = screen_write, fh_read = screen_read,
       fh_destroy = screen_destroy, fh_p = None, fh_entry = None, fh_pos = None, fh_entryno = None\<rparr>],
     kernel_memarea := snd (the (kmalloc (kernel_memarea example_kstate) 36)),
     pgs := (pgs example_kstate)\<lparr>pmem := (\<lambda>a. if unat (a - 0x100) < length example_image then example_image ! unat (a - 0x100) else 0)\<rparr>\<rparr>"

definition example_buffer :: "u32 list" where "example_buffer = map (\<lambda>k. 0x20000000 + of_nat k) [0..<64]"

definition example_cat_area :: "u32 set" where "example_cat_area = {a. unat (a - 0x100) < length example_image}"

lemma example_cat_heap: "heap_ok example_cat" "kmalloc (kernel_memarea example_cat) 36 \<noteq> None"
  "fst (the (kmalloc (kernel_memarea example_kstate) 36)) \<noteq> 0"
proof -
  let ?ma = "kernel_memarea example_kstate"
  have ma: "?ma = the (buddy_init 12 0x200000 (\<lambda>_. 0))" by (simp add: example_kstate_def)
  have "(case kmalloc (the (buddy_init 12 0x200000 (\<lambda>_. 0))) 36 of None \<Rightarrow> False | Some (p, ma) \<Rightarrow> kmalloc ma 36 \<noteq> None)" by code_simp
  then obtain f ma1 where k: "kmalloc ?ma 36 = Some (f, ma1)" "kmalloc ma1 36 \<noteq> None" unfolding ma by (auto split: option.splits)
  then show "kmalloc (kernel_memarea example_cat) 36 \<noteq> None" by (simp add: example_cat_def)
  have h: "heap_ok example_kstate" using example_pipes_ok by (simp add: pipes_ok_def)
  have "knew 36 example_kstate = Some (f, example_kstate\<lparr>kernel_memarea := ma1\<rparr>)" using k(1) by (simp add: knew_def)
  then obtain ma2 where n: "example_kstate\<lparr>kernel_memarea := ma1\<rparr> = example_kstate\<lparr>kernel_memarea := ma2\<rparr>" "heap_ok (example_kstate\<lparr>kernel_memarea := ma1\<rparr>)"
    "f \<in> dom (allocated ma2)" "f \<noteq> 0" by (rule knew_ok[OF h]) blast
  have "ma1 = ma2" using arg_cong[OF n(1), of kernel_memarea] by simp
  then show "heap_ok example_cat" using n(2,3) k(1) by (auto simp: heap_ok_def objs_def example_cat_def example_kstate_def)
  show "fst (the (kmalloc ?ma 36)) \<noteq> 0" using n(4) k(1) by simp
qed

lemma example_cat_runs:
  "program_runs 0x20000000 example_buffer example_cat_area 1 example_cat" "procs example_cat ! 1 = example_cat_process" "paging example_cat = None"
proof -
  have l: "length example_procs = MAX_PROCESSES" "1 < MAX_PROCESSES" by (simp_all add: example_procs_def MAX_PROCESSES_def)
  show p: "procs example_cat ! 1 = example_cat_process" using l by (simp add: example_cat_def)
  show g: "paging example_cat = None" by (simp add: example_cat_def example_kstate_def)
  have ph: "phys example_cat a = Some a" for a by (simp add: phys_def g)
  have inj: "inj_on (\<lambda>k. (0x20000000 :: u32) + of_nat k) {0..<64}"
  proof (rule inj_onI)
    fix x y :: nat assume "x \<in> {0..<64}" "y \<in> {0..<64}" and e: "(0x20000000 :: u32) + of_nat x = 0x20000000 + of_nat y"
    then have "unat (of_nat x :: u32) = unat (of_nat y :: u32)" by simp
    then show "x = y" using \<open>x \<in> {0..<64}\<close> \<open>y \<in> {0..<64}\<close> by (simp add: unat_of_nat)
  qed
  then have us: "user_safe example_cat 0x20000000 example_buffer"
    by (simp add: user_safe_def mapped_to_def ph table_pages_def g example_buffer_def distinct_map)
  have "a \<notin> set example_buffer" if a: "a \<in> example_cat_area" for a
  proof
    assume "a \<in> set example_buffer"
    then obtain k where k: "k < 64" "a = 0x20000000 + of_nat k" by (auto simp: example_buffer_def)
    have "unat (a - 0x100) = 0x1FFFFF00 + k" using k(1) unfolding k(2) by (simp add: unat_word_ariths unat_of_nat)
    moreover have "length example_image \<le> 1000" by code_simp
    ultimately show False using a by (simp add: example_cat_area_def)
  qed
  then have d: "phys example_cat a \<noteq> Some b" if "a \<in> example_cat_area" "b \<in> set example_buffer" for a b using that by (auto simp: ph)
  have c: "current_process example_cat = Some 1" "length (procs example_cat) = MAX_PROCESSES" using l by (simp_all add: example_cat_def example_kstate_def)
  have u: "user_range example_cat_process 0x20000000 (length example_buffer)" by (simp add: example_cat_process_def user_range_def example_buffer_def)
  have f: "length (p_filedesc example_cat_process) = MAX_FDS" by (simp add: example_cat_process_def)
  have k: "paging_ok example_cat" by (simp add: paging_ok_def g)
  show "program_runs 0x20000000 example_buffer example_cat_area 1 example_cat"
    unfolding program_runs_def p using us l d c u f k by auto
qed

lemma example_cat_prints:
  "\<exists>st'. cat_main (kernel_calls 0x20000000 0x20000800 zero_regs) [lit ''cat'', lit ''a''] example_cat = Some (0, st') \<and>
     write_to_screen [7, 8] example_vga = Some (console st')"
proof -
  note P = example_cat_runs
  have seg: "segments_mapped example_cat (procs example_cat ! 1)" "segments_below (procs example_cat ! 1)"
    unfolding P(2) by (simp_all add: segments_mapped_def phys_def P(3) segments_below_def example_cat_process_def example_procs_def MAX_PROCESSES_def zero_process_def)
  have pm: "pmem (pgs example_cat) x = (if unat (x - 0x100) < length example_image then example_image ! unat (x - 0x100) else 0)" for x
    by (simp add: example_cat_def)
  have rd: "rd8 example_cat |` example_cat_area = example_fs"
    by (rule ext) (simp add: rd8_def phys_def P(3) restrict_map_def example_cat_area_def example_fs_def list_get_def pm)
  have fs: "filesystem example_cat = 0x100" "console example_cat = example_vga" by (simp_all add: example_cat_def)
  have img: "represents (rd8 example_cat |` example_cat_area) (filesystem example_cat) (filesystem example_cat) (FDir [([97], FFile [7, 8])])"
    unfolding rd fs by (rule example_represents)
  have a: "[lit ''cat'', lit ''a''] ! 1 = [97]" by (simp add: lit_def of_char_def)
  have cw: "p_cwd (procs example_cat ! 1) = [47, 0]" unfolding P(2) by (simp add: example_cat_process_def)
  have r: "str_at (arr (p_cwd (procs example_cat ! 1))) 0 (render [])" unfolding cw by code_simp
  have f: "path_find (FDir [([97], FFile [7, 8])]) (resolved [] ([lit ''cat'', lit ''a''] ! 1)) = Some (FFile [7, 8])" unfolding a by code_simp
  have fds: "p_filedesc example_cat_process = (replicate MAX_FDS 0)[1 := fst (the (kmalloc (kernel_memarea example_kstate) 36))]" by (simp add: example_cat_process_def)
  have o: "out_screen 1 example_cat" unfolding out_screen_def P(2) fds using example_cat_heap(3) by (simp add: example_cat_def MAX_FDS_def)
  have ff: "find_fd (p_filedesc (procs example_cat ! 1)) < MAX_FDS" unfolding P(2) fds by (simp add: MAX_FDS_def eval_nat_numeral)
  have nums: "2 \<le> length [lit ''cat'', lit ''a'']" "0 \<notin> set ([lit ''cat'', lit ''a''] ! 1)" "length ([lit ''cat'', lit ''a''] ! 1) + 1 \<le> length example_buffer"
    "20 \<le> length example_buffer" "\<forall>c \<in> set []. comp_ok c" "length (render []) + length ([lit ''cat'', lit ''a''] ! 1) + 2 \<le> PATH_MAX"
    unfolding a by (simp_all add: example_buffer_def render_def PATH_MAX_def)
  have v: "vga_ok (console example_cat)" unfolding fs by (rule example_vga_ok(1))
  show ?thesis
    using cat_prints_file[OF P(1) seg nums(1-4) r nums(5,6) img f _ o v ff example_cat_heap(2,1), of "0x20000800" zero_regs] by (auto simp: fs)
qed

end
