(* ===== verification/Invariant.thy ===== *)
theory Invariant
  imports Mailbox_Correct
begin

text \<open>
  The invariant of the whole kernel. Besides the process lists, the heap, the pipes and the
  mailboxes it describes how processes wait: every suspended process is blocked in a call to read,
  receive or waitpid and is registered with what will wake it, and only suspended processes are.
  The operations of the kernel keep it; the system calls follow in the next theory.
\<close>

section \<open>Partial correctness\<close>

text \<open>\<open>ret m Q\<close>: if \<open>m\<close> returns, its result satisfies \<open>Q\<close>.\<close>

definition ret :: "'a option \<Rightarrow> ('a \<Rightarrow> bool) \<Rightarrow> bool" where
  "ret m Q \<longleftrightarrow> (\<forall>x. m = Some x \<longrightarrow> Q x)"

lemma ret_simps [simp]:
  "ret None Q" "ret (Some x) Q \<longleftrightarrow> Q x" "ret (Option.bind a f) Q \<longleftrightarrow> ret a (\<lambda>x. ret (f x) Q)"
  "ret (if c then m else n) Q \<longleftrightarrow> (if c then ret m Q else ret n Q)" "ret (kassert b) R \<longleftrightarrow> (b \<longrightarrow> R ())"
  "ret (list_get xs i) S \<longleftrightarrow> (i < length xs \<longrightarrow> S (xs ! i))"
  "ret (map_option g o1) T \<longleftrightarrow> ret o1 (\<lambda>x. T (g x))"
  by (auto simp: ret_def bind_eq_Some_conv kassert_def list_get_def)

lemma ret_trivial [simp]: "ret m (\<lambda>x. True)"
  by (simp add: ret_def)

lemma ret_mono: "ret m P \<Longrightarrow> (\<And>x. m = Some x \<Longrightarrow> P x \<Longrightarrow> Q x) \<Longrightarrow> ret m Q"
  by (auto simp: ret_def)

lemma retI: "(\<And>x. m = Some x \<Longrightarrow> Q x) \<Longrightarrow> ret m Q"
  by (simp add: ret_def)

lemma retD: "ret m Q \<Longrightarrow> m = Some x \<Longrightarrow> Q x"
  by (simp add: ret_def)

lemma ret_conj: "ret m P \<Longrightarrow> ret m Q \<Longrightarrow> ret m (\<lambda>x. P x \<and> Q x)"
  by (simp add: ret_def)

lemma ret_fold: "P s \<Longrightarrow> (\<And>x s. x \<in> set xs \<Longrightarrow> P s \<Longrightarrow> ret (f x s) P) \<Longrightarrow> ret (fold_opt f xs s) P"
proof (induction xs arbitrary: s)
  case (Cons x xs)
  have "ret (f x s) P" using Cons.prems by simp
  then show ?case using Cons.IH Cons.prems(2) by (auto elim!: ret_mono)
qed simp

section \<open>Hidden processes\<close>

text \<open>
  While a process is being created or removed its entry does not count; \<open>h\<close> is the process in
  question, if there is one.
\<close>

definition hid :: "nat option \<Rightarrow> process list \<Rightarrow> process list" where
  "hid h ps = (case h of None \<Rightarrow> ps | Some i \<Rightarrow> ps[i := (ps ! i)\<lparr>p_exists := False\<rparr>])"

definition vis :: "nat option \<Rightarrow> kstate \<Rightarrow> kstate" where
  "vis h st = st\<lparr>procs := hid h (procs st)\<rparr>"

lemma hid_simps [simp]:
  "hid None ps = ps" "length (hid h ps) = length ps"
  by (simp_all add: hid_def split: option.splits)

lemma vis_None [simp]: "vis None st = st"
  by (simp add: vis_def)

lemma hid_nth: "k < length ps \<Longrightarrow> hid h ps ! k = (if h = Some k then (ps ! k)\<lparr>p_exists := False\<rparr> else ps ! k)"
  by (auto simp: hid_def nth_list_update split: option.splits)

lemma alive_hid: "k < length ps \<Longrightarrow> alive (hid h ps ! k) \<longleftrightarrow> h \<noteq> Some k \<and> alive (ps ! k)"
  by (simp add: hid_nth alive_def)

lemma hid_fields [simp]:
  assumes "k < length ps"
  shows "p_ready (hid h ps ! k) = p_ready (ps ! k)" "p_prev (hid h ps ! k) = p_prev (ps ! k)" "p_next (hid h ps ! k) = p_next (ps ! k)"
    "p_mailbox (hid h ps ! k) = p_mailbox (ps ! k)" "p_mailbox_size (hid h ps ! k) = p_mailbox_size (ps ! k)"
    "p_mailbox_alloc (hid h ps ! k) = p_mailbox_alloc (ps ! k)"
  using assms by (simp_all add: hid_nth)

section \<open>The invariant\<close>

definition live :: "nat option \<Rightarrow> kstate \<Rightarrow> nat \<Rightarrow> bool" where
  "live h st i \<longleftrightarrow> i < MAX_PROCESSES \<and> h \<noteq> Some i \<and> alive (procs st ! i)"

definition susp :: "nat option \<Rightarrow> kstate \<Rightarrow> nat \<Rightarrow> bool" where
  "susp h st i \<longleftrightarrow> live h st i \<and> \<not> p_ready (procs st ! i)"

text \<open>Why process \<open>i\<close> waits.\<close>

definition waits_pipe :: "kstate \<Rightarrow> nat \<Rightarrow> bool" where
  "waits_pipe st i \<longleftrightarrow> p_in_syscall (procs st ! i) = SYSCALL_READ \<and> (\<exists>p b. pipes st p = Some b \<and> pb_readpid b = int i)"

definition waits_message :: "kstate \<Rightarrow> nat \<Rightarrow> bool" where
  "waits_message st i \<longleftrightarrow> p_in_syscall (procs st ! i) = SYSCALL_RECEIVE \<and> p_receive_blocked (procs st ! i)"

definition waits_child :: "kstate \<Rightarrow> nat \<Rightarrow> bool" where
  "waits_child st i \<longleftrightarrow> p_in_syscall (procs st ! i) = SYSCALL_WAITPID \<and> (\<exists>j < MAX_PROCESSES. p_waiting_on (procs st ! i) = int j \<and>
     alive (procs st ! j) \<and> p_parent_pid (procs st ! j) = int i)"

definition proc_ok :: "nat \<Rightarrow> process \<Rightarrow> bool" where
  "proc_ok i p \<longleftrightarrow> (alive p \<longrightarrow> p_pid p = int i) \<and> length (p_filedesc p) = MAX_FDS \<and> - 1 \<le> p_parent_pid p \<and> p_parent_pid p < int MAX_PROCESSES"

definition wait_inv :: "nat option \<Rightarrow> kstate \<Rightarrow> bool" where
  "wait_inv h st \<longleftrightarrow>
     (\<forall>i < MAX_PROCESSES. proc_ok i (procs st ! i)) \<and>
     (\<forall>i. susp h st i \<longrightarrow> waits_pipe st i \<or> waits_message st i \<or> waits_child st i) \<and>
     (\<forall>p b. pipes st p = Some b \<and> pb_readpid b \<noteq> - 1 \<longrightarrow> (\<exists>i. pb_readpid b = int i \<and> susp h st i \<and> p_in_syscall (procs st ! i) = SYSCALL_READ)) \<and>
     (\<forall>p q b c. pipes st p = Some b \<and> pipes st q = Some c \<and> pb_readpid b = pb_readpid c \<and> pb_readpid b \<noteq> - 1 \<longrightarrow> p = q) \<and>
     (\<forall>i < MAX_PROCESSES. p_receive_blocked (procs st ! i) \<longrightarrow> susp h st i \<and> p_in_syscall (procs st ! i) = SYSCALL_RECEIVE) \<and>
     (\<forall>i < MAX_PROCESSES. current_process st \<noteq> Some i \<and> p_in_syscall (procs st ! i) = SYSCALL_WAITPID \<and> 0 \<le> p_waiting_on (procs st ! i) \<longrightarrow> susp h st i) \<and>
     (\<forall>i. live h st i \<and> current_process st \<noteq> Some i \<and> p_in_syscall (procs st ! i) \<noteq> 0 \<longrightarrow>
        r_eax (p_saved_regs (procs st ! i)) = p_in_syscall (procs st ! i) \<and> p_in_syscall (procs st ! i) \<noteq> SYSCALL_KILL)"

lemma wait_invD:
  assumes "wait_inv h st"
  shows "i < MAX_PROCESSES \<Longrightarrow> proc_ok i (procs st ! i)"
    "susp h st i \<Longrightarrow> waits_pipe st i \<or> waits_message st i \<or> waits_child st i"
    "pipes st p = Some b \<Longrightarrow> pb_readpid b \<noteq> - 1 \<Longrightarrow> \<exists>i. pb_readpid b = int i \<and> susp h st i \<and> p_in_syscall (procs st ! i) = SYSCALL_READ"
    "pipes st p = Some b \<Longrightarrow> pipes st q = Some c \<Longrightarrow> pb_readpid b = pb_readpid c \<Longrightarrow> pb_readpid b \<noteq> - 1 \<Longrightarrow> p = q"
    "i < MAX_PROCESSES \<Longrightarrow> p_receive_blocked (procs st ! i) \<Longrightarrow> susp h st i \<and> p_in_syscall (procs st ! i) = SYSCALL_RECEIVE"
    "i < MAX_PROCESSES \<Longrightarrow> current_process st \<noteq> Some i \<Longrightarrow> p_in_syscall (procs st ! i) = SYSCALL_WAITPID \<Longrightarrow>
       0 \<le> p_waiting_on (procs st ! i) \<Longrightarrow> susp h st i"
    "live h st i \<Longrightarrow> current_process st \<noteq> Some i \<Longrightarrow> p_in_syscall (procs st ! i) \<noteq> 0 \<Longrightarrow>
       r_eax (p_saved_regs (procs st ! i)) = p_in_syscall (procs st ! i) \<and> p_in_syscall (procs st ! i) \<noteq> SYSCALL_KILL"
  using assms unfolding wait_inv_def by blast+

lemma wait_invI:
  assumes "\<And>i. i < MAX_PROCESSES \<Longrightarrow> proc_ok i (procs st ! i)"
    "\<And>i. susp h st i \<Longrightarrow> waits_pipe st i \<or> waits_message st i \<or> waits_child st i"
    "\<And>p b. pipes st p = Some b \<Longrightarrow> pb_readpid b \<noteq> - 1 \<Longrightarrow> \<exists>i. pb_readpid b = int i \<and> susp h st i \<and> p_in_syscall (procs st ! i) = SYSCALL_READ"
    "\<And>p q b c. pipes st p = Some b \<Longrightarrow> pipes st q = Some c \<Longrightarrow> pb_readpid b = pb_readpid c \<Longrightarrow> pb_readpid b \<noteq> - 1 \<Longrightarrow> p = q"
    "\<And>i. i < MAX_PROCESSES \<Longrightarrow> p_receive_blocked (procs st ! i) \<Longrightarrow> susp h st i \<and> p_in_syscall (procs st ! i) = SYSCALL_RECEIVE"
    "\<And>i. i < MAX_PROCESSES \<Longrightarrow> current_process st \<noteq> Some i \<Longrightarrow> p_in_syscall (procs st ! i) = SYSCALL_WAITPID \<Longrightarrow>
       0 \<le> p_waiting_on (procs st ! i) \<Longrightarrow> susp h st i"
    "\<And>i. live h st i \<Longrightarrow> current_process st \<noteq> Some i \<Longrightarrow> p_in_syscall (procs st ! i) \<noteq> 0 \<Longrightarrow>
       r_eax (p_saved_regs (procs st ! i)) = p_in_syscall (procs st ! i) \<and> p_in_syscall (procs st ! i) \<noteq> SYSCALL_KILL"
  shows "wait_inv h st"
  using assms unfolding wait_inv_def by blast

lemma live_less: "live h st i \<Longrightarrow> i < MAX_PROCESSES" "susp h st i \<Longrightarrow> i < MAX_PROCESSES"
  by (simp_all add: live_def susp_def)

definition kernel_inv :: "nat option \<Rightarrow> kstate \<Rightarrow> bool" where
  "kernel_inv h st \<longleftrightarrow> (\<exists>rs ss. sched_inv (vis h st) rs ss) \<and> pipes_ok st \<and> mail_ok (vis h st) \<and> wait_inv h st \<and>
     (\<forall>i. current_process st = Some i \<longrightarrow> live h st i)"

text \<open>Between interrupts the running process is ready and in no call.\<close>

definition quiet :: "kstate \<Rightarrow> bool" where
  "quiet st \<longleftrightarrow> kernel_inv None st \<and>
     (\<forall>i. current_process st = Some i \<longrightarrow> p_ready (procs st ! i) \<and> p_in_syscall (procs st ! i) = 0)"

text \<open>Inside a call of the running process.\<close>

definition in_call :: "nat \<Rightarrow> u32 \<Rightarrow> kstate \<Rightarrow> bool" where
  "in_call i c st \<longleftrightarrow> kernel_inv None st \<and> current_process st = Some i \<and> p_ready (procs st ! i) \<and> p_in_syscall (procs st ! i) = c \<and> c \<noteq> SYSCALL_KILL"

lemma kernel_inv_length: "kernel_inv h st \<Longrightarrow> length (procs st) = MAX_PROCESSES"
  by (auto simp: kernel_inv_def sched_inv_def vis_def)

lemma susp_vis: "length (procs st) = MAX_PROCESSES \<Longrightarrow> sched_inv (vis h st) rs ss \<Longrightarrow> i \<in> set ss \<longleftrightarrow> susp h st i"
  using sched_invD(5)[of "vis h st" rs ss i] by (auto simp: susp_def live_def vis_def alive_hid)

section \<open>What the invariant depends on\<close>

definition pcore :: "process \<Rightarrow> bool \<times> bool \<times> nat option \<times> nat option \<times> int \<times> u32 \<times> int \<times> int \<times> bool \<times> u32 \<times> nat \<times> nat \<times> nat \<times> u32" where
  "pcore p = (alive p, p_ready p, p_prev p, p_next p, p_pid p, p_in_syscall p, p_waiting_on p, p_parent_pid p, p_receive_blocked p,
     p_mailbox p, p_mailbox_size p, p_mailbox_alloc p, length (p_filedesc p), r_eax (p_saved_regs p))"

definition kcore where
  "kcore st = (map pcore (procs st), current_process st, ready st, suspended st, kernel_memarea st, pipes st, bufs st, mboxes st, dom (fhs st))"

lemma kcoreD:
  assumes "kcore st' = kcore st"
  shows "length (procs st') = length (procs st)" "k < length (procs st) \<Longrightarrow> pcore (procs st' ! k) = pcore (procs st ! k)"
    "current_process st' = current_process st" "ready st' = ready st" "suspended st' = suspended st" "kernel_memarea st' = kernel_memarea st"
    "pipes st' = pipes st" "bufs st' = bufs st" "mboxes st' = mboxes st" "dom (fhs st') = dom (fhs st)"
proof -
  have m: "map pcore (procs st') = map pcore (procs st)" using assms by (simp add: kcore_def)
  show l: "length (procs st') = length (procs st)" using m map_eq_imp_length_eq by blast
  show "pcore (procs st' ! k) = pcore (procs st ! k)" if "k < length (procs st)" using m that l by (metis nth_map)
qed (use assms in \<open>simp_all add: kcore_def\<close>)

lemma pcoreD:
  assumes "pcore p = pcore q"
  shows "alive p = alive q" "p_ready p = p_ready q" "p_prev p = p_prev q" "p_next p = p_next q" "p_pid p = p_pid q"
    "p_in_syscall p = p_in_syscall q" "p_waiting_on p = p_waiting_on q" "p_parent_pid p = p_parent_pid q"
    "p_receive_blocked p = p_receive_blocked q" "p_mailbox p = p_mailbox q" "p_mailbox_size p = p_mailbox_size q"
    "p_mailbox_alloc p = p_mailbox_alloc q" "length (p_filedesc p) = length (p_filedesc q)" "r_eax (p_saved_regs p) = r_eax (p_saved_regs q)"
  using assms by (simp_all add: pcore_def)

lemma heap_ok_cong:
  assumes "kernel_memarea st' = kernel_memarea st" "pipes st' = pipes st" "bufs st' = bufs st" "mboxes st' = mboxes st" "dom (fhs st') = dom (fhs st)"
  shows "heap_ok st' = heap_ok st"
  using assms by (simp add: heap_ok_def objs_def)

lemma wait_inv_cong:
  assumes len: "length (procs st) = MAX_PROCESSES" and c: "kcore st' = kcore st" and w: "wait_inv h st"
  shows "wait_inv h st'"
proof -
  note C = kcoreD[OF c]
  have P: "i < MAX_PROCESSES \<Longrightarrow> pcore (procs st' ! i) = pcore (procs st ! i)" for i using C(2) len by simp
  note F = pcoreD[OF P]
  have li: "live h st' i = live h st i" "susp h st' i = susp h st i" for i using F by (auto simp: live_def susp_def)
  have wt: "i < MAX_PROCESSES \<Longrightarrow> (waits_pipe st' i \<or> waits_message st' i \<or> waits_child st' i) = (waits_pipe st i \<or> waits_message st i \<or> waits_child st i)" for i
    using F C(7) by (auto simp: waits_pipe_def waits_message_def waits_child_def)
  have pk: "i < MAX_PROCESSES \<Longrightarrow> proc_ok i (procs st' ! i) = proc_ok i (procs st ! i)" for i using F by (simp add: proc_ok_def)
  note W = wait_invD[OF w]
  show ?thesis
  proof (rule wait_invI)
    fix i
    show "proc_ok i (procs st' ! i)" if "i < MAX_PROCESSES" using W(1)[OF that] pk[OF that] by simp
    show "waits_pipe st' i \<or> waits_message st' i \<or> waits_child st' i" if "susp h st' i"
      using that W(2)[of i] wt[of i] live_less(2)[of h st i] unfolding li by blast
    show "susp h st' i \<and> p_in_syscall (procs st' ! i) = SYSCALL_RECEIVE" if "i < MAX_PROCESSES" "p_receive_blocked (procs st' ! i)"
      using W(5)[OF that(1)] that F li by simp
    show "susp h st' i" if "i < MAX_PROCESSES" "current_process st' \<noteq> Some i" "p_in_syscall (procs st' ! i) = SYSCALL_WAITPID"
      "0 \<le> p_waiting_on (procs st' ! i)" using W(6)[of i] that F[OF that(1)] C(3) li by simp
    show "r_eax (p_saved_regs (procs st' ! i)) = p_in_syscall (procs st' ! i) \<and> p_in_syscall (procs st' ! i) \<noteq> SYSCALL_KILL"
      if "live h st' i" "current_process st' \<noteq> Some i" "p_in_syscall (procs st' ! i) \<noteq> 0"
      using W(7)[of i] that F[of i] live_less(1)[of h st i] C(3) li by simp
  next
    fix p b assume "pipes st' p = Some b" "pb_readpid b \<noteq> - 1"
    then obtain i where "pb_readpid b = int i" "susp h st i" "p_in_syscall (procs st ! i) = SYSCALL_READ" using W(3) C(7) by metis
    then show "\<exists>i. pb_readpid b = int i \<and> susp h st' i \<and> p_in_syscall (procs st' ! i) = SYSCALL_READ" using F(6) li live_less(2) by metis
  next
    fix p q b c assume "pipes st' p = Some b" "pipes st' q = Some c" "pb_readpid b = pb_readpid c" "pb_readpid b \<noteq> - 1"
    then show "p = q" using W(4)[of p b q c] C(7) by simp
  qed
qed

lemma box_ok_cong:
  "mboxes st' = mboxes st \<Longrightarrow> p_mailbox q = p_mailbox p \<Longrightarrow> p_mailbox_size q = p_mailbox_size p \<Longrightarrow> p_mailbox_alloc q = p_mailbox_alloc p \<Longrightarrow>
    box_ok st' q = box_ok st p"
  by (simp add: box_ok_def)

lemma heap_ok_vis [simp]: "heap_ok (vis h st) = heap_ok st"
  by (simp add: vis_def heap_ok_def objs_def)

definition same_box :: "process \<Rightarrow> process \<Rightarrow> bool" where
  "same_box p q \<longleftrightarrow> alive q = alive p \<and> p_mailbox q = p_mailbox p \<and> p_mailbox_size q = p_mailbox_size p \<and> p_mailbox_alloc q = p_mailbox_alloc p"

lemma mail_ok_same:
  assumes m: "mail_ok (vis h st)" and heap: "heap_ok st'" and b: "mboxes st' = mboxes st" "length (procs st') = length (procs st)"
    and same: "\<And>i. i < length (procs st) \<Longrightarrow> same_box (procs st ! i) (procs st' ! i)"
  shows "mail_ok (vis h st')"
proof -
  note M = mail_okD[OF m] and S = same[unfolded same_box_def]
  have "box_ok (vis h st') (procs (vis h st') ! i)" if "i < length (procs (vis h st'))" "alive (procs (vis h st') ! i)" for i
  proof -
    have i: "i < length (procs st)" "alive (hid h (procs st) ! i)" using that S[of i] b(2) by (simp_all add: vis_def alive_hid)
    have "box_ok (vis h st') (procs (vis h st') ! i) = box_ok (vis h st) (procs (vis h st) ! i)"
      by (rule box_ok_cong) (use i(1) S[OF i(1)] b in \<open>simp_all add: vis_def\<close>)
    then show ?thesis using M(2)[of i] i by (simp add: vis_def)
  qed
  moreover have "p_mailbox (procs (vis h st') ! i) = 0" if "i < length (procs (vis h st'))" "j < length (procs (vis h st'))" "i \<noteq> j"
    "alive (procs (vis h st') ! i)" "alive (procs (vis h st') ! j)" "p_mailbox (procs (vis h st') ! i) = p_mailbox (procs (vis h st') ! j)" for i j
    using M(3)[of i j] that S[of i] S[of j] b(2) by (simp add: vis_def alive_hid)
  ultimately show ?thesis using heap unfolding mail_ok_def heap_ok_vis by blast
qed

lemma mail_ok_cong:
  assumes c: "kcore st' = kcore st" and m: "mail_ok (vis h st)"
  shows "mail_ok (vis h st')"
proof -
  note C = kcoreD[OF c]
  have "heap_ok st'" using mail_okD(1)[OF m] heap_ok_cong[of st' st] C by simp
  then show ?thesis by (rule mail_ok_same[OF m _ C(9,1)]) (use pcoreD[OF C(2)] in \<open>simp add: same_box_def\<close>)
qed

lemma kernel_inv_cong:
  assumes c: "kcore st' = kcore st" and k: "kernel_inv h st"
  shows "kernel_inv h st'"
proof -
  note C = kcoreD[OF c] and len = kernel_inv_length[OF k]
  obtain rs ss where s: "sched_inv (vis h st) rs ss" using k by (auto simp: kernel_inv_def)
  have "sched_inv (vis h st') rs ss"
    by (rule sched_inv_cong[OF s]) (use C pcoreD[OF C(2)] in \<open>auto simp: vis_def alive_hid\<close>)
  moreover have "pipes_ok st'" using k C heap_ok_cong[of st' st] unfolding kernel_inv_def pipes_ok_def by simp
  moreover have "live h st' i = live h st i" for i using pcoreD(1)[OF C(2)[of i]] len by (auto simp: live_def)
  ultimately show ?thesis using k wait_inv_cong[OF len c] mail_ok_cong[OF c] C(3) unfolding kernel_inv_def by metis
qed

lemma in_call_cong:
  assumes c: "kcore st' = kcore st" and k: "in_call i n st"
  shows "in_call i n st'"
proof -
  have i: "i < length (procs st)" using k kernel_inv_length[of None st] live_less(1)[of None st i] by (auto simp: in_call_def kernel_inv_def)
  show ?thesis using k kernel_inv_cong[OF c] pcoreD[OF kcoreD(2)[OF c i]] kcoreD(3)[OF c] by (simp add: in_call_def)
qed

section \<open>Operations that do not touch it\<close>

lemma kcore_simps [simp]:
  "kcore (st\<lparr>pgs := g\<rparr>) = kcore st" "kcore (st\<lparr>console := v\<rparr>) = kcore st" "kcore (st\<lparr>paging := x\<rparr>) = kcore st"
  "kcore (st\<lparr>timer_ticks := t\<rparr>) = kcore st" "kcore (st\<lparr>input_pipe := b\<rparr>) = kcore st"
  "kcore (enable_paging d st) = kcore st" "kcore (disable_paging st) = kcore st"
  by (simp_all add: kcore_def enable_paging_def disable_paging_def)

lemma kcore_set_fh: "fhs st f \<noteq> None \<Longrightarrow> kcore (set_fh f x st) = kcore st"
  by (auto simp: kcore_def set_fh_def)

lemma kcore_upd_proc: "i < length (procs st) \<Longrightarrow> pcore q = pcore (procs st ! i) \<Longrightarrow> kcore (st\<lparr>procs := (procs st)[i := q]\<rparr>) = kcore st"
  by (auto simp: kcore_def map_update list_update_same_conv)

lemma same_upd_proc: "(\<And>p. pcore (f p) = pcore p) \<Longrightarrow> ret (upd_proc i f st) (\<lambda>st'. kcore st' = kcore st)"
  by (auto simp: upd_proc_def list_put_def kcore_upd_proc)

lemma same_upd_cur: "(\<And>p. pcore (f p) = pcore p) \<Longrightarrow> ret (upd_cur f st) (\<lambda>st'. kcore st' = kcore st)"
  unfolding upd_cur_def ret_simps by (rule retI) (rule same_upd_proc)

lemma same_fd_set: "ret (fd_set fd f st) (\<lambda>st'. kcore st' = kcore st)"
proof (rule retI)
  fix st' assume "fd_set fd f st = Some st'"
  then obtain i where i: "current_process st = Some i" "i < length (procs st)" "fd < length (p_filedesc (procs st ! i))"
    and st': "st' = st\<lparr>procs := (procs st)[i := (procs st ! i)\<lparr>p_filedesc := (p_filedesc (procs st ! i))[fd := f]\<rparr>]\<rparr>"
    by (auto simp: fd_set_def cur_def get_proc_def upd_cur_def upd_proc_def bind_eq_Some_conv list_get_def list_put_def split: if_splits)
  show "kcore st' = kcore st" unfolding st' by (rule kcore_upd_proc) (simp_all add: i pcore_def alive_def)
qed

lemma same_proc_fd_set: "ret (proc_fd_set i fd f st) (\<lambda>st'. kcore st' = kcore st)"
  unfolding proc_fd_set_def by (rule same_upd_proc) (simp add: pcore_def alive_def)

lemma same_wr8: "ret (wr8 a v st) (\<lambda>st'. kcore st' = kcore st)"
  by (auto simp: wr8_def intro!: retI split: Option.bind_splits)

lemma same_write_bytes: "ret (write_bytes a bs st) (\<lambda>st'. kcore st' = kcore st)"
proof (induction bs arbitrary: a st)
  case (Cons b bs)
  show ?case unfolding write_bytes.simps ret_simps by (rule ret_mono[OF same_wr8]) (use Cons[of "a + 1"] in metis)
qed simp

lemma same_on_pages: "ret (on_pages f st) (\<lambda>st'. kcore st' = kcore st)"
  by (auto simp: on_pages_def intro!: retI split: Option.bind_splits)

lemma same_kprintf: "ret (kprintf fmt args st) (\<lambda>st'. kcore st' = kcore st)"
  by (auto simp: kprintf_def intro!: retI split: Option.bind_splits)

lemma same_new_page: "new_page st = (a, st') \<Longrightarrow> kcore st' = kcore st"
  by (auto simp: new_page_def split: prod.splits)

section \<open>The heap\<close>

lemma kernel_invD:
  assumes "kernel_inv h st"
  shows "\<exists>rs ss. sched_inv (vis h st) rs ss" "pipes_ok st" "mail_ok (vis h st)" "wait_inv h st"
    "current_process st = Some i \<Longrightarrow> live h st i" "heap_ok st"
  using assms by (auto simp: kernel_inv_def pipes_ok_def)

lemma wait_inv_frame:
  assumes "procs st' = procs st" "current_process st' = current_process st" "pipes st' = pipes st" "wait_inv h st"
  shows "wait_inv h st'"
  using assms(4) unfolding wait_inv_def susp_def live_def waits_pipe_def waits_message_def waits_child_def assms(1-3) .

text \<open>New and deleted objects other than pipes and mailboxes.\<close>

lemma kernel_inv_objects:
  assumes k: "kernel_inv h st" and st': "st' = st\<lparr>kernel_memarea := ma, fhs := F, bufs := B\<rparr>" and heap: "heap_ok st'"
    and B: "\<And>p b. pipes st p = Some b \<Longrightarrow> B (pb_data b) = bufs st (pb_data b)"
  shows "kernel_inv h st'"
proof -
  note K = kernel_invD[OF k]
  have "pipes_ok st'" using K(2) heap B unfolding pipes_ok_def st' by simp
  moreover have "mail_ok (vis h st')"
  proof -
    have "heap_ok (vis h st')" using heap by simp
    moreover have "box_ok (vis h st') p = box_ok (vis h st) p" for p by (rule box_ok_cong) (simp_all add: vis_def st')
    ultimately show ?thesis using K(3) unfolding mail_ok_def by (simp add: vis_def st')
  qed
  moreover have "wait_inv h st'" by (rule wait_inv_frame[OF _ _ _ K(4)]) (simp_all add: st')
  moreover have "\<exists>rs ss. sched_inv (vis h st') rs ss" using K(1) sched_inv_same[of "vis h st" _ _ "vis h st'"] by (auto simp: vis_def st')
  ultimately show ?thesis using K(5) by (simp add: kernel_inv_def st' live_def)
qed

definition same_procs :: "kstate \<Rightarrow> kstate \<Rightarrow> bool" where
  "same_procs st st' \<longleftrightarrow> procs st' = procs st \<and> current_process st' = current_process st \<and> mboxes st' = mboxes st"

lemma new_handle_inv:
  assumes k: "kernel_inv h st"
  shows "ret (knew n st) (\<lambda>(f, st'). kernel_inv h (set_fh f x st') \<and> same_procs st (set_fh f x st'))"
proof (rule retI, clarify)
  fix f st1 assume "knew n st = Some (f, st1)"
  then obtain ma where m: "st1 = st\<lparr>kernel_memarea := ma\<rparr>" "kmalloc (kernel_memarea st) n = Some (f, ma)" "heap_ok st1"
    "f \<notin> objs st" "f \<in> dom (allocated ma)" "f \<noteq> 0" by (rule knew_ok[OF kernel_invD(6)[OF k]])
  have "heap_ok (set_fh f x st1)" using m(3,4,5) unfolding heap_ok_def objs_def set_fh_def m(1) by auto
  then have "kernel_inv h (set_fh f x st1)"
    using kernel_inv_objects[OF k, where st' = "set_fh f x st1" and ma = ma and F = "(fhs st)(f \<mapsto> x)" and B = "bufs st"] by (simp add: m(1) set_fh_def)
  then show "kernel_inv h (set_fh f x st1) \<and> same_procs st (set_fh f x st1)" by (simp add: same_procs_def m(1) set_fh_def)
qed

lemma new_buf_inv:
  assumes k: "kernel_inv h st"
  shows "ret (new_buf n st) (\<lambda>(p, st'). kernel_inv h st' \<and> same_procs st st' \<and> (\<forall>q b. pipes st q = Some b \<longrightarrow> pb_data b \<noteq> p))"
proof (rule retI, clarify)
  fix p st' assume "new_buf n st = Some (p, st')"
  then obtain ma d where m: "st' = st\<lparr>kernel_memarea := ma, bufs := (bufs st)(p \<mapsto> d)\<rparr>" "heap_ok st'" "p \<notin> objs st"
    by (rule new_buf_ok[OF kernel_invD(6)[OF k]]) blast
  have ne: "pb_data b \<noteq> p" if "pipes st q = Some b" for q b
    using pipes_okD(2)[OF kernel_invD(2)[OF k] that] m(3) by (auto simp: objs_def)
  have "kernel_inv h st'"
    by (rule kernel_inv_objects[OF k, where st' = st' and ma = ma and F = "fhs st" and B = "(bufs st)(p \<mapsto> d)"]) (use m ne in \<open>auto simp: fun_upd_def\<close>)
  then show "kernel_inv h st' \<and> same_procs st st' \<and> (\<forall>q b. pipes st q = Some b \<longrightarrow> pb_data b \<noteq> p)" using ne by (simp add: same_procs_def m(1))
qed

lemma delete_object_inv:
  assumes k: "kernel_inv h st" and f: "f \<in> dom (fhs st) \<or> f \<in> dom (bufs st)" and d: "\<And>p b. pipes st p = Some b \<Longrightarrow> pb_data b \<noteq> f"
  shows "ret (kdelete f st) (\<lambda>st'. kernel_inv h st' \<and> same_procs st st')"
proof (rule retI)
  fix st' assume e: "kdelete f st = Some st'"
  note H = kernel_invD(6)[OF k]
  have o: "f \<in> objs st" using f by (auto simp: objs_def)
  obtain ma where m: "st' = st\<lparr>kernel_memarea := ma, pipes := (pipes st)(f := None), fhs := (fhs st)(f := None),
     bufs := (bufs st)(f := None), mboxes := (mboxes st)(f := None)\<rparr>" "heap_ok st'"
    by (rule kdelete_ok[OF H o]) (use e in auto)
  have n: "pipes st f = None" "mboxes st f = None" using f heap_okD(4,5)[OF H] by auto
  have e: "st' = st\<lparr>kernel_memarea := ma, fhs := (fhs st)(f := None), bufs := (bufs st)(f := None)\<rparr>"
    using n by (simp add: m(1) fun_upd_idem)
  have "kernel_inv h st'"
    by (rule kernel_inv_objects[OF k e m(2)]) (use d in auto)
  then show "kernel_inv h st' \<and> same_procs st st'" by (simp add: same_procs_def e)
qed

section \<open>Lists with a hidden process\<close>

text \<open>The list operations do not look at \<open>p_exists\<close>.\<close>

lemma hid_update: "(\<And>p b. f (p\<lparr>p_exists := b\<rparr>) = (f p)\<lparr>p_exists := b\<rparr>) \<Longrightarrow> k < length ps \<Longrightarrow>
    (hid h ps)[k := f (hid h ps ! k)] = hid h (ps[k := f (ps ! k)])"
  by (auto simp: hid_def nth_list_update list_update_swap split: option.splits)

lemma set_prev_hid: "set_prev k v (hid h ps) = map_option (hid h) (set_prev k v ps)"
  using hid_update[of "\<lambda>p. p\<lparr>p_prev := v\<rparr>" k ps h] by (cases "k < length ps") (auto simp: set_prev_def list_get_def)

lemma set_next_hid: "set_next k v (hid h ps) = map_option (hid h) (set_next k v ps)"
  using hid_update[of "\<lambda>p. p\<lparr>p_next := v\<rparr>" k ps h] by (cases "k < length ps") (auto simp: set_next_def list_get_def)

lemma list_add_hid: "list_add ll k (hid h ps) = map_option (\<lambda>(l, qs). (l, hid h qs)) (list_add ll k ps)"
  by (auto simp: list_add_def set_prev_hid set_next_hid option.map_comp split: option.splits Option.bind_splits)

lemma list_remove_hid: "list_remove ll k (hid h ps) = map_option (\<lambda>(l, qs). (l, hid h qs)) (list_remove ll k ps)"
proof (cases "k < length ps")
  case True
  let ?p = "ps ! k"
  let ?r1 = "case p_next ?p of None \<Rightarrow> Some ps | Some n \<Rightarrow> set_prev n (p_prev ?p) ps"
  have e1: "(case p_next ?p of None \<Rightarrow> Some (hid h ps) | Some n \<Rightarrow> set_prev n (p_prev ?p) (hid h ps)) = map_option (hid h) ?r1"
    by (simp add: set_prev_hid split: option.splits)
  have "list_get (hid h ps) k = Some (hid h ps ! k)" using True by simp
  note get = list_get_Some[OF True] this hid_fields[OF True]
  show ?thesis
  proof (cases ?r1)
    case None
    show ?thesis unfolding list_remove_def get Let_def bind.bind_lunit e1 None by simp
  next
    case (Some ps1)
    then have k: "k < length ps1"
      using True by (auto simp: set_prev_def bind_eq_Some_conv list_get_def list_put_def split: option.splits if_splits)
    let ?q = "ps1 ! k"
    let ?r2 = "case p_prev ?q of None \<Rightarrow> Some ps1 | Some q \<Rightarrow> set_next q (p_next ?q) ps1"
    have e2: "(case p_prev ?q of None \<Rightarrow> Some (hid h ps1) | Some q \<Rightarrow> set_next q (p_next ?q) (hid h ps1)) = map_option (hid h) ?r2"
      by (simp add: set_next_hid split: option.splits)
    have "list_get (hid h ps1) k = Some (hid h ps1 ! k)" using k by simp
    note get1 = list_get_Some[OF k] this hid_fields[OF k]
    have e3: "Option.bind (map_option (hid h) m) (\<lambda>ps2. Option.bind (set_next k None ps2) (\<lambda>ps3. Option.bind (set_prev k None ps3) (\<lambda>ps4. Some (ll', ps4)))) =
      map_option (\<lambda>(l, qs). (l, hid h qs)) (Option.bind m (\<lambda>ps2. Option.bind (set_next k None ps2) (\<lambda>ps3. Option.bind (set_prev k None ps3) (\<lambda>ps4. Some (ll', ps4)))))"
      for m and ll' :: processlist
    proof (cases m)
      case (Some ps2)
      then show ?thesis
      proof (cases "set_next k None ps2")
        case (Some ps3)
        then show ?thesis using \<open>m = Some ps2\<close> by (cases "set_prev k None ps3") (simp_all add: set_next_hid set_prev_hid)
      qed (simp add: set_next_hid)
    qed simp
    show ?thesis unfolding list_remove_def get get1 Let_def bind.bind_lunit e1 Some option.map(2) e2 e3 ..
  qed
qed (simp add: list_remove_def list_get_def)

text \<open>They change nothing but the links.\<close>

lemma set_prev_unlink: "set_prev k v ps = Some qs \<Longrightarrow> map unlink qs = map unlink ps"
  by (auto simp: set_prev_def bind_eq_Some_conv list_get_def list_put_def map_update unlink_def list_update_same_conv split: if_splits)

lemma set_next_unlink: "set_next k v ps = Some qs \<Longrightarrow> map unlink qs = map unlink ps"
  by (auto simp: set_next_def bind_eq_Some_conv list_get_def list_put_def map_update unlink_def list_update_same_conv split: if_splits)

lemma list_add_unlink: "list_add ll k ps = Some (l, qs) \<Longrightarrow> map unlink qs = map unlink ps"
  by (auto simp: list_add_def bind_eq_Some_conv dest!: set_prev_unlink set_next_unlink split: option.splits)

lemma list_remove_unlink: "list_remove ll k ps = Some (l, qs) \<Longrightarrow> map unlink qs = map unlink ps"
  by (auto simp: list_remove_def Let_def bind_eq_Some_conv dest!: set_prev_unlink set_next_unlink split: option.splits)

definition relinked :: "nat \<Rightarrow> bool \<Rightarrow> kstate \<Rightarrow> kstate \<Rightarrow> bool" where
  "relinked j b st st' \<longleftrightarrow> (\<exists>l l' ps. st' = st\<lparr>ready := l, suspended := l', procs := ps\<rparr> \<and>
     map unlink ps = map unlink ((procs st)[j := (procs st ! j)\<lparr>p_ready := b\<rparr>]))"

lemma relinkedD:
  assumes "relinked j b st st'"
  shows "length (procs st') = length (procs st)" "current_process st' = current_process st" "pipes st' = pipes st" "mboxes st' = mboxes st"
    "kernel_memarea st' = kernel_memarea st" "fhs st' = fhs st" "bufs st' = bufs st"
    "k < length (procs st) \<Longrightarrow> unlink (procs st' ! k) = unlink (if k = j then (procs st ! j)\<lparr>p_ready := b\<rparr> else procs st ! k)"
proof -
  obtain l l' ps where st': "st' = st\<lparr>ready := l, suspended := l', procs := ps\<rparr>"
    and m: "map unlink ps = map unlink ((procs st)[j := (procs st ! j)\<lparr>p_ready := b\<rparr>])" using assms by (auto simp: relinked_def)
  show len: "length (procs st') = length (procs st)" using arg_cong[OF m, of length] by (simp add: st')
  show "unlink (procs st' ! k) = unlink (if k = j then (procs st ! j)\<lparr>p_ready := b\<rparr> else procs st ! k)" if "k < length (procs st)"
  proof -
    have "unlink (ps ! k) = map unlink ((procs st)[j := (procs st ! j)\<lparr>p_ready := b\<rparr>]) ! k"
      unfolding m[symmetric] using that len by (simp add: st')
    then show ?thesis using that by (auto simp: st' nth_list_update)
  qed
qed (use assms in \<open>auto simp: relinked_def\<close>)

lemma unlinkD:
  assumes "unlink p = unlink q"
  shows "p_exists p = p_exists q" "p_exited p = p_exited q" "alive p = alive q" "p_ready p = p_ready q" "p_pid p = p_pid q"
    "p_in_syscall p = p_in_syscall q" "p_waiting_on p = p_waiting_on q" "p_parent_pid p = p_parent_pid q"
    "p_receive_blocked p = p_receive_blocked q" "p_mailbox p = p_mailbox q" "p_mailbox_size p = p_mailbox_size q"
    "p_mailbox_alloc p = p_mailbox_alloc q" "p_filedesc p = p_filedesc q" "p_saved_regs p = p_saved_regs q" "p_pdir p = p_pdir q"
  using arg_cong[OF assms, of p_exists] arg_cong[OF assms, of p_exited] arg_cong[OF assms, of p_ready] arg_cong[OF assms, of p_pid]
    arg_cong[OF assms, of p_in_syscall] arg_cong[OF assms, of p_waiting_on] arg_cong[OF assms, of p_parent_pid]
    arg_cong[OF assms, of p_receive_blocked] arg_cong[OF assms, of p_mailbox] arg_cong[OF assms, of p_mailbox_size]
    arg_cong[OF assms, of p_mailbox_alloc] arg_cong[OF assms, of p_filedesc] arg_cong[OF assms, of p_saved_regs] arg_cong[OF assms, of p_pdir]
  by (simp_all add: unlink_def alive_def)

lemma vis_select [simp]: "ready (vis h st) = ready st" "suspended (vis h st) = suspended st" "procs (vis h st) = hid h (procs st)"
  by (simp_all add: vis_def)

lemma resume_hid:
  assumes "h \<noteq> Some j"
  shows "resume_process j (vis h st) = map_option (vis h) (resume_process j st)"
proof (cases "j < length (procs st)")
  case True
  let ?ps = "(procs st)[j := (procs st ! j)\<lparr>p_ready := True\<rparr>]"
  have at: "hid h (procs st) ! j = procs st ! j" using assms True by (simp add: hid_nth)
  have u: "(hid h (procs st))[j := (procs st ! j)\<lparr>p_ready := True\<rparr>] = hid h ?ps"
    using hid_update[of "\<lambda>p. p\<lparr>p_ready := True\<rparr>" j "procs st" h] True at by simp
  show ?thesis
    using True at u
    by (auto simp: resume_process_def get_proc_def upd_proc_ok suspended_remove_def ready_add_def list_remove_hid list_add_hid kassert_def
        vis_def option.map_comp split: Option.bind_splits prod.splits)
qed (simp add: resume_process_def get_proc_def list_get_def)

lemma resume_relinked: "resume_process j st = Some st' \<Longrightarrow> relinked j True st st'"
proof -
  assume "resume_process j st = Some st'"
  then obtain l1 ps1 l2 ps2 where j: "j < length (procs st)" and a: "list_remove (suspended st) j ((procs st)[j := (procs st ! j)\<lparr>p_ready := True\<rparr>]) = Some (l1, ps1)"
    "list_add (ready st) j ps1 = Some (l2, ps2)" "st' = st\<lparr>procs := ps2, suspended := l1, ready := l2\<rparr>"
    by (auto simp: resume_process_def get_proc_def upd_proc_def suspended_remove_def ready_add_def bind_eq_Some_conv list_get_def list_put_def split: if_splits)
  then show ?thesis using list_remove_unlink[OF a(1)] list_add_unlink[OF a(2)]
    unfolding relinked_def by (intro exI[of _ l2] exI[of _ l1] exI[of _ ps2]) simp
qed

lemma resume_sched:
  assumes s: "sched_inv (vis h st) rs ss" and j: "susp h st j" and r: "resume_process j st = Some st'"
  shows "\<exists>rs ss. sched_inv (vis h st') rs ss"
proof -
  have "length (procs st) = MAX_PROCESSES" using sched_invD(1)[OF s] by simp
  then have "j \<in> set ss" using susp_vis[OF _ s] j by simp
  then obtain st1 where s1: "resume_process j (vis h st) = Some st1" "sched_inv st1 (j # rs) (remove1 j ss)"
    by (rule resume_process_ok[OF s])
  have "h \<noteq> Some j" using j by (simp add: susp_def live_def)
  then have "st1 = vis h st'" using s1(1) resume_hid r by simp
  then show ?thesis using s1(2) by blast
qed

section \<open>Waking a process\<close>

text \<open>The pipes matter only through the readers they remember.\<close>

definition readers :: "kstate \<Rightarrow> (u32 \<times> int) set" where
  "readers st = {(p, pb_readpid b) | p b. pipes st p = Some b \<and> pb_readpid b \<noteq> - 1}"

lemma readers_iff: "(p, x) \<in> readers st \<longleftrightarrow> (\<exists>b. pipes st p = Some b \<and> pb_readpid b = x \<and> x \<noteq> - 1)"
  by (auto simp: readers_def)

lemma readersI: "pipes st p = Some b \<Longrightarrow> pb_readpid b \<noteq> - 1 \<Longrightarrow> (p, pb_readpid b) \<in> readers st"
  by (auto simp: readers_def)

lemma waits_pipe_readers: "waits_pipe st i \<longleftrightarrow> p_in_syscall (procs st ! i) = SYSCALL_READ \<and> (\<exists>p. (p, int i) \<in> readers st)"
proof -
  have "int i \<noteq> - 1" by simp
  then show ?thesis unfolding waits_pipe_def readers_def by force
qed

lemma wait_inv_readersD:
  assumes "wait_inv h st"
  shows "(p, x) \<in> readers st \<Longrightarrow> \<exists>i. x = int i \<and> susp h st i \<and> p_in_syscall (procs st ! i) = SYSCALL_READ"
    "(p, x) \<in> readers st \<Longrightarrow> (q, x) \<in> readers st \<Longrightarrow> p = q"
  using wait_invD(3,4)[OF assms] by (auto simp: readers_def)

lemma wait_inv_readersI:
  assumes "\<And>i. i < MAX_PROCESSES \<Longrightarrow> proc_ok i (procs st ! i)"
    "\<And>i. susp h st i \<Longrightarrow> waits_pipe st i \<or> waits_message st i \<or> waits_child st i"
    "\<And>p x. (p, x) \<in> readers st \<Longrightarrow> \<exists>i. x = int i \<and> susp h st i \<and> p_in_syscall (procs st ! i) = SYSCALL_READ"
    "\<And>p q x. (p, x) \<in> readers st \<Longrightarrow> (q, x) \<in> readers st \<Longrightarrow> p = q"
    "\<And>i. i < MAX_PROCESSES \<Longrightarrow> p_receive_blocked (procs st ! i) \<Longrightarrow> susp h st i \<and> p_in_syscall (procs st ! i) = SYSCALL_RECEIVE"
    "\<And>i. i < MAX_PROCESSES \<Longrightarrow> current_process st \<noteq> Some i \<Longrightarrow> p_in_syscall (procs st ! i) = SYSCALL_WAITPID \<Longrightarrow>
       0 \<le> p_waiting_on (procs st ! i) \<Longrightarrow> susp h st i"
    "\<And>i. live h st i \<Longrightarrow> current_process st \<noteq> Some i \<Longrightarrow> p_in_syscall (procs st ! i) \<noteq> 0 \<Longrightarrow>
       r_eax (p_saved_regs (procs st ! i)) = p_in_syscall (procs st ! i) \<and> p_in_syscall (procs st ! i) \<noteq> SYSCALL_KILL"
  shows "wait_inv h st"
proof (rule wait_invI[OF assms(1,2)])
  fix p b assume "pipes st p = Some b" "pb_readpid b \<noteq> - 1"
  then show "\<exists>i. pb_readpid b = int i \<and> susp h st i \<and> p_in_syscall (procs st ! i) = SYSCALL_READ" using assms(3) readersI by blast
next
  fix p q b c assume "pipes st p = Some b" "pipes st q = Some c" "pb_readpid b = pb_readpid c" "pb_readpid b \<noteq> - 1"
  then show "p = q" using assms(4)[of p "pb_readpid b" q] readersI[of st p b] readersI[of st q c] by simp
qed (assumption | rule assms(5-7))+

lemma wait_inv_same_readers:
  assumes w: "wait_inv h st" and s: "procs st' = procs st" "current_process st' = current_process st" "readers st' = readers st"
  shows "wait_inv h st'"
proof -
  have l: "live h st' = live h st" "susp h st' = susp h st" by (simp_all add: fun_eq_iff live_def susp_def s(1))
  show ?thesis
  proof (rule wait_inv_readersI, unfold l s)
    show "waits_pipe st' i \<or> waits_message st' i \<or> waits_child st' i" if "susp h st i" for i
      using wait_invD(2)[OF w that] unfolding waits_pipe_readers waits_message_def waits_child_def s .
  qed (rule wait_invD[OF w] wait_inv_readersD[OF w]; assumption)+
qed

lemmas syscall_numbers = SYSCALL_READ_def SYSCALL_RECEIVE_def SYSCALL_WAITPID_def SYSCALL_KILL_def SYSCALL_EXIT_def

lemma wait_inv_wake:
  assumes w: "wait_inv h st" and i: "susp h st i"
    and other: "\<And>k. k < MAX_PROCESSES \<Longrightarrow> k \<noteq> i \<Longrightarrow> unlink (procs st' ! k) = unlink (procs st ! k)"
    and at: "alive (procs st' ! i)" "proc_ok i (procs st' ! i)" "p_in_syscall (procs st' ! i) = p_in_syscall (procs st ! i)"
      "p_parent_pid (procs st' ! i) = p_parent_pid (procs st ! i)" "p_saved_regs (procs st' ! i) = p_saved_regs (procs st ! i)"
      "p_ready (procs st' ! i)" "\<not> p_receive_blocked (procs st' ! i)"
      "p_in_syscall (procs st ! i) = SYSCALL_WAITPID \<Longrightarrow> p_waiting_on (procs st' ! i) < 0"
    and c: "current_process st' = current_process st" and r: "readers st' = readers st - {(p, int i) | p. True}"
  shows "wait_inv h st'"
proof (rule wait_inv_readersI)
  note W = wait_invD[OF w] and R = wait_inv_readersD[OF w] and O = unlinkD[OF other]
  have live: "live h st' k = live h st k" for k using O(3)[of k] at(1) i by (cases "k = i") (auto simp: live_def susp_def)
  have susp: "susp h st' k \<longleftrightarrow> susp h st k \<and> k \<noteq> i" for k using live[of k] O(4)[of k] at(6) live_less by (auto simp: susp_def)
  have call: "k < MAX_PROCESSES \<Longrightarrow> p_in_syscall (procs st' ! k) = p_in_syscall (procs st ! k)" for k using O(6)[of k] at(3) by (cases "k = i") auto
  have al: "k < MAX_PROCESSES \<Longrightarrow> alive (procs st' ! k) = alive (procs st ! k)" for k using live[of k] O(3)[of k] i at(1)
    by (cases "k = i") (auto simp: susp_def live_def)
  fix k
  show "proc_ok k (procs st' ! k)" if "k < MAX_PROCESSES"
    using W(1)[OF that] at(2) O(3,5,8,13)[OF that] by (cases "k = i") (simp_all add: proc_ok_def)
  show "waits_pipe st' k \<or> waits_message st' k \<or> waits_child st' k" if "susp h st' k"
  proof -
    have k: "susp h st k" "k \<noteq> i" "k < MAX_PROCESSES" using that susp live_less by blast+
    have par: "j < MAX_PROCESSES \<Longrightarrow> p_parent_pid (procs st' ! j) = p_parent_pid (procs st ! j)" for j using O(8)[of j] at(4) by (cases "j = i") auto
    consider "waits_pipe st k" | "waits_message st k" | "waits_child st k" using W(2)[OF k(1)] by blast
    then show ?thesis
    proof cases
      case 1
      then have "waits_pipe st' k" using call[OF k(3)] r k(2) unfolding waits_pipe_readers by auto
      then show ?thesis by blast
    next
      case 2
      then have "waits_message st' k" using call[OF k(3)] O(9)[OF k(3,2)] unfolding waits_message_def by simp
      then show ?thesis by blast
    next
      case 3
      then have "waits_child st' k" using call[OF k(3)] O(7)[OF k(3,2)] al par unfolding waits_child_def by metis
      then show ?thesis by blast
    qed
  qed
  show "susp h st' k \<and> p_in_syscall (procs st' ! k) = SYSCALL_RECEIVE" if "k < MAX_PROCESSES" "p_receive_blocked (procs st' ! k)"
    using W(5)[of k] that O(9)[OF that(1)] call[OF that(1)] at(7) susp[of k] by (cases "k = i") auto
  show "susp h st' k" if "k < MAX_PROCESSES" "current_process st' \<noteq> Some k" "p_in_syscall (procs st' ! k) = SYSCALL_WAITPID"
    "0 \<le> p_waiting_on (procs st' ! k)"
    using W(6)[of k] that O(7)[OF that(1)] call[OF that(1)] at(8) c susp[of k] by (cases "k = i") auto
  show "r_eax (p_saved_regs (procs st' ! k)) = p_in_syscall (procs st' ! k) \<and> p_in_syscall (procs st' ! k) \<noteq> SYSCALL_KILL"
    if "live h st' k" "current_process st' \<noteq> Some k" "p_in_syscall (procs st' ! k) \<noteq> 0"
  proof -
    have k: "k < MAX_PROCESSES" using live_less(1)[OF that(1)] .
    have "p_saved_regs (procs st' ! k) = p_saved_regs (procs st ! k)" using O(14)[OF k] at(5) by (cases "k = i") auto
    then show ?thesis using W(7)[of k] that live[of k] call[OF k] c by simp
  qed
next
  note R = wait_inv_readersD[OF w] and O = unlinkD[OF other]
  fix p x assume px: "(p, x) \<in> readers st'"
  then obtain k where k: "x = int k" "susp h st k" "p_in_syscall (procs st ! k) = SYSCALL_READ" "k \<noteq> i" using R(1)[of p x] r by auto
  have km: "k < MAX_PROCESSES" using live_less(2)[OF k(2)] .
  show "\<exists>i. x = int i \<and> susp h st' i \<and> p_in_syscall (procs st' ! i) = SYSCALL_READ"
    using k O(3,4,6)[OF km k(4)] by (auto simp: susp_def live_def)
  fix q assume "(q, x) \<in> readers st'"
  then show "p = q" using R(2)[of p x q] px r by auto
qed

lemma relinked_objects:
  assumes ok: "pipes_ok st" "mail_ok (vis h st)" and r: "relinked j b st st'"
  shows "pipes_ok st'" "mail_ok (vis h st')"
proof -
  note R = relinkedD[OF r]
  show "pipes_ok st'" by (rule pipes_ok_frame[OF ok(1)]) (use R in auto)
  then have "heap_ok st'" by (simp add: pipes_ok_def)
  then show "mail_ok (vis h st')"
    by (rule mail_ok_same[OF ok(2) _ R(4,1)]) (use unlinkD(3,10-12)[OF R(8)] in \<open>simp add: same_box_def split: if_splits\<close>)
qed

lemma relinked_rest:
  assumes k: "kernel_inv h st" and r: "relinked j b st st'"
  shows "pipes_ok st'" "mail_ok (vis h st')" "current_process st' = Some i \<Longrightarrow> live h st' i"
proof -
  note R = relinkedD[OF r] and K = kernel_invD[OF k] and len = kernel_inv_length[OF k]
  show "pipes_ok st'" "mail_ok (vis h st')" using relinked_objects[OF K(2,3) r] by blast+
  have "alive (procs st' ! i) = alive (procs st ! i)" if "i < length (procs st)" using unlinkD(3)[OF R(8)[OF that]] by (auto split: if_splits)
  then show "live h st' i" if "current_process st' = Some i" using K(5)[of i] that R(2) len by (simp add: live_def)
qed

text \<open>What waking others leaves of the processes.\<close>

definition woke :: "kstate \<Rightarrow> kstate \<Rightarrow> bool" where
  "woke st st' \<longleftrightarrow> current_process st' = current_process st \<and> mboxes st' = mboxes st \<and> length (procs st') = length (procs st) \<and>
     (\<forall>k < length (procs st). unlink ((procs st' ! k)\<lparr>p_ready := True\<rparr>) = unlink ((procs st ! k)\<lparr>p_ready := True\<rparr>) \<and>
        (p_ready (procs st ! k) \<longrightarrow> p_ready (procs st' ! k)))"

lemma woke_refl: "same_procs st st' \<Longrightarrow> woke st st'"
  by (simp add: woke_def same_procs_def)

lemma woke_trans: "woke st st1 \<Longrightarrow> woke st1 st2 \<Longrightarrow> woke st st2"
  by (simp add: woke_def)

lemma wokeD:
  assumes "woke st st'" "k < length (procs st)"
  shows "p_exists (procs st' ! k) = p_exists (procs st ! k)" "alive (procs st' ! k) = alive (procs st ! k)" "p_pid (procs st' ! k) = p_pid (procs st ! k)"
    "p_in_syscall (procs st' ! k) = p_in_syscall (procs st ! k)" "p_waiting_on (procs st' ! k) = p_waiting_on (procs st ! k)"
    "p_parent_pid (procs st' ! k) = p_parent_pid (procs st ! k)" "p_mailbox (procs st' ! k) = p_mailbox (procs st ! k)"
    "p_filedesc (procs st' ! k) = p_filedesc (procs st ! k)" "p_ready (procs st ! k) \<Longrightarrow> p_ready (procs st' ! k)"
proof -
  have e: "unlink ((procs st' ! k)\<lparr>p_ready := True\<rparr>) = unlink ((procs st ! k)\<lparr>p_ready := True\<rparr>)" using assms by (simp add: woke_def)
  show "p_exists (procs st' ! k) = p_exists (procs st ! k)" "alive (procs st' ! k) = alive (procs st ! k)" "p_pid (procs st' ! k) = p_pid (procs st ! k)"
    "p_in_syscall (procs st' ! k) = p_in_syscall (procs st ! k)" "p_waiting_on (procs st' ! k) = p_waiting_on (procs st ! k)"
    "p_parent_pid (procs st' ! k) = p_parent_pid (procs st ! k)" "p_mailbox (procs st' ! k) = p_mailbox (procs st ! k)"
    "p_filedesc (procs st' ! k) = p_filedesc (procs st ! k)"
    using unlinkD[OF e] by simp_all
qed (use assms in \<open>simp add: woke_def\<close>)

lemma relinked_woke: "relinked j True st st' \<Longrightarrow> woke st st'"
proof -
  assume r: "relinked j True st st'"
  note R = relinkedD[OF r]
  have "unlink ((procs st' ! k)\<lparr>p_ready := True\<rparr>) = unlink ((procs st ! k)\<lparr>p_ready := True\<rparr>) \<and> (p_ready (procs st ! k) \<longrightarrow> p_ready (procs st' ! k))"
    if "k < length (procs st)" for k
  proof -
    have u: "unlink (p\<lparr>p_ready := True\<rparr>) = (unlink p)\<lparr>p_ready := True\<rparr>" for p by (simp add: unlink_def)
    show ?thesis using R(8)[OF that] unlinkD(4)[OF R(8)[OF that]] by (auto simp: u split: if_splits)
  qed
  then show ?thesis using R(1,2,4) by (simp add: woke_def)
qed

lemma pipes_ok_struct:
  assumes ok: "pipes_ok st" and b: "pipes st p = Some b" and b': "pb_data b' = pb_data b" "pb_alloc b' = pb_alloc b" "pb_len b' \<le> pb_alloc b"
  shows "pipes_ok (st\<lparr>pipes := (pipes st)(p \<mapsto> b')\<rparr>)"
proof -
  obtain d where d: "bufs st (pb_data b) = Some d" "length d = unat (pb_alloc b)" using pipes_okD(2)[OF ok b] by blast
  show ?thesis
    by (rule pipes_ok_frame(1)[OF pipes_ok_upd(1)[OF ok b b' d(2)]]) (use d(1) in \<open>simp_all add: fun_upd_idem\<close>)
qed

lemma wake_up_reader_inv:
  assumes k: "kernel_inv h st"
  shows "ret (wake_up_reader p st) (\<lambda>st'. kernel_inv h st' \<and> woke st st' \<and> fhs st' = fhs st \<and>
    (\<exists>b. pipes st p = Some b \<and> pipes st' = (pipes st)(p \<mapsto> b\<lparr>pb_readpid := - 1\<rparr>)))"
proof (rule retI)
  fix st' assume e: "wake_up_reader p st = Some st'"
  then obtain b where b: "pipes st p = Some b" by (auto simp: wake_up_reader_def get_pipe_def bind_eq_Some_conv)
  note K = kernel_invD[OF k]
  show "kernel_inv h st' \<and> woke st st' \<and> fhs st' = fhs st \<and> (\<exists>b. pipes st p = Some b \<and> pipes st' = (pipes st)(p \<mapsto> b\<lparr>pb_readpid := - 1\<rparr>))"
  proof (cases "pb_readpid b = - 1")
    case True
    then have "st' = st" "b\<lparr>pb_readpid := - 1\<rparr> = b" using e b by (auto simp: wake_up_reader_def get_pipe_def)
    then show ?thesis using k b woke_refl[of st st] by (auto simp: same_procs_def fun_upd_idem)
  next
    case False
    then obtain i where i: "pb_readpid b = int i" "susp h st i" "p_in_syscall (procs st ! i) = SYSCALL_READ"
      using wait_invD(3)[OF K(4) b] by auto
    obtain st1 b1 where s0: "resume_process i st = Some st1" "pipes st1 p = Some b1" "st' = set_pipe p (b1\<lparr>pb_readpid := - 1\<rparr>) st1"
      using e b i(1) by (auto simp: wake_up_reader_def get_pipe_def bind_eq_Some_conv)
    note r = resume_relinked[OF s0(1)]
    have s1: "resume_process i st = Some st1" "st' = set_pipe p (b\<lparr>pb_readpid := - 1\<rparr>) st1" using s0 relinkedD(3)[OF r] b by simp_all
    note R = relinkedD[OF r] and rest = relinked_rest[OF k r]
    have len: "length (procs st) = MAX_PROCESSES" by (rule kernel_inv_length[OF k])
    obtain rs ss where s: "sched_inv (vis h st1) rs ss" using resume_sched[OF _ i(2) s1(1)] K(1) by blast
    have pr: "procs st' = procs st1" "current_process st' = current_process st" "fhs st' = fhs st"
      "pipes st' = (pipes st)(p \<mapsto> b\<lparr>pb_readpid := - 1\<rparr>)" using R by (simp_all add: s1(2) set_pipe_def)
    have im: "i < length (procs st)" using live_less(2)[OF i(2)] len by simp
    note U = unlinkD[OF R(8)[OF im], simplified]
    have w: "wait_inv h st'"
    proof (rule wait_inv_wake[OF K(4) i(2)])
      show "unlink (procs st' ! k) = unlink (procs st ! k)" if "k < MAX_PROCESSES" "k \<noteq> i" for k using R(8)[of k] that len pr by simp
      show "alive (procs st' ! i)" using U(3) i(2) pr by (simp add: susp_def live_def)
      show "proc_ok i (procs st' ! i)" using wait_invD(1)[OF K(4) live_less(2)[OF i(2)]] U pr by (simp add: proc_ok_def)
      show "\<not> p_receive_blocked (procs st' ! i)"
        using wait_invD(5)[OF K(4) live_less(2)[OF i(2)]] i(3) U pr by (auto simp: syscall_numbers)
      show "p_waiting_on (procs st' ! i) < 0" if "p_in_syscall (procs st ! i) = SYSCALL_WAITPID" using that i(3) by (simp add: syscall_numbers)
      show "readers st' = readers st - {(p, int i) |p. True}"
      proof (rule set_eqI, clarify)
        fix q x
        have pi: "(p, int i) \<in> readers st" using readersI[OF b] i(1) by simp
        show "(q, x) \<in> readers st' \<longleftrightarrow> (q, x) \<in> readers st - {(p, int i) |p. True}"
        proof (cases "q = p")
          case True
          then show ?thesis using b i(1) pr(4) by (simp add: readers_def)
        next
          case False
          then have "x \<noteq> int i" if "(q, x) \<in> readers st" using that pi wait_inv_readersD(2)[OF K(4)] by blast
          then show ?thesis using False pr(4) by (auto simp: readers_def)
        qed
      qed
    qed (use U pr in simp_all)
    have "pipes_ok st'"
      using pipes_ok_struct[OF rest(1), of p b "b\<lparr>pb_readpid := - 1\<rparr>"] b R(3) pipes_okD(3)[OF K(2) b] by (simp add: s1(2) set_pipe_def)
    moreover have "\<exists>rs ss. sched_inv (vis h st') rs ss" using sched_inv_same[OF s, of "vis h st'"] by (auto simp: s1(2) set_pipe_def)
    moreover have "mail_ok (vis h st')"
    proof -
      have "heap_ok st'" using \<open>pipes_ok st'\<close> by (simp add: pipes_ok_def)
      moreover have "box_ok (vis h st') q = box_ok (vis h st1) q" for q by (rule box_ok_cong) (simp_all add: vis_def s1(2) set_pipe_def)
      ultimately show ?thesis using rest(2) unfolding mail_ok_def by (simp add: pr)
    qed
    moreover have "live h st' j" if "current_process st' = Some j" for j using rest(3)[of j] that pr R(2) by (simp add: live_def)
    ultimately have "kernel_inv h st'" using w by (simp add: kernel_inv_def)
    then show ?thesis using relinked_woke[OF r] pr b by (auto simp: woke_def R(2) s1(2) set_pipe_def)
  qed
qed

section \<open>Pipes\<close>

text \<open>Changes to pipes that keep their readers.\<close>

lemma kernel_inv_pipes:
  assumes k: "kernel_inv h st" and st': "st' = st\<lparr>kernel_memarea := ma, pipes := P, bufs := B, fhs := F\<rparr>"
    and ok: "pipes_ok st'" and r: "readers st' = readers st"
  shows "kernel_inv h st'"
proof -
  note K = kernel_invD[OF k]
  have "mail_ok (vis h st')"
  proof -
    have "heap_ok st'" using ok by (simp add: pipes_ok_def)
    moreover have "box_ok (vis h st') q = box_ok (vis h st) q" for q by (rule box_ok_cong) (simp_all add: vis_def st')
    ultimately show ?thesis using K(3) unfolding mail_ok_def by (simp add: st')
  qed
  moreover have "wait_inv h st'" by (rule wait_inv_same_readers[OF K(4) _ _ r]) (simp_all add: st')
  moreover have "\<exists>rs ss. sched_inv (vis h st') rs ss" using K(1) sched_inv_same[of "vis h st" _ _ "vis h st'"] by (auto simp: st')
  ultimately show ?thesis using K(5) ok by (simp add: kernel_inv_def st' live_def)
qed

lemma new_pipe_inv:
  assumes k: "kernel_inv h st"
  shows "ret (new_pipe st) (\<lambda>(p, st'). kernel_inv h st' \<and> same_procs st st')"
proof (rule retI, clarify)
  fix p st' assume e: "new_pipe st = Some (p, st')"
  obtain d ma B where st': "st' = st\<lparr>kernel_memarea := ma, pipes := (pipes st)(p \<mapsto> \<lparr>pb_reading = True, pb_writing = True,
      pb_alloc = BUFSIZE, pb_len = 0, pb_readpid = - 1, pb_data = d\<rparr>), bufs := B\<rparr>" and ok: "pipes_ok st'" and p: "pipes st p = None"
    by (rule new_pipe_ok[OF kernel_invD(2)[OF k] e]) blast
  have r: "readers st' = readers st" using p by (auto simp: set_eq_iff readers_iff st')
  have "kernel_inv h st'" by (rule kernel_inv_pipes[OF k _ ok r, where F = "fhs st"]) (simp add: st')
  then show "kernel_inv h st' \<and> same_procs st st'" by (simp add: same_procs_def st')
qed

lemma set_pipe_inv:
  assumes k: "kernel_inv h st" and b: "pipes st p = Some b" "pb_data b' = pb_data b" "pb_alloc b' = pb_alloc b" "pb_len b' \<le> pb_alloc b"
    "pb_readpid b' = pb_readpid b"
  shows "kernel_inv h (set_pipe p b' st)" "same_procs st (set_pipe p b' st)"
proof -
  have ok: "pipes_ok (set_pipe p b' st)" using pipes_ok_struct[OF kernel_invD(2)[OF k] b(1-4)] by (simp add: set_pipe_def)
  have r: "readers (set_pipe p b' st) = readers st" using b by (auto simp: readers_def set_pipe_def split: if_splits)
  show "kernel_inv h (set_pipe p b' st)"
    by (rule kernel_inv_pipes[OF k _ ok r, where F = "fhs st" and B = "bufs st" and ma = "kernel_memarea st"]) (simp add: set_pipe_def)
qed (simp add: same_procs_def set_pipe_def)

text \<open>Bytes of a buffer may change, its length does not.\<close>

lemma buf_change_inv:
  assumes k: "kernel_inv h st" and d: "bufs st q = Some d" "length d' = length d"
  shows "kernel_inv h (st\<lparr>bufs := (bufs st)(q \<mapsto> d')\<rparr>)"
proof (rule kernel_inv_pipes[OF k, where F = "fhs st" and P = "pipes st" and ma = "kernel_memarea st"])
  let ?st = "st\<lparr>bufs := (bufs st)(q \<mapsto> d')\<rparr>"
  note ok = kernel_invD(2)[OF k]
  have "heap_ok ?st" using kernel_invD(6)[OF k] d(1) unfolding heap_ok_def objs_def by auto
  moreover have "(\<exists>e. bufs ?st (pb_data b) = Some e \<and> length e = unat (pb_alloc b)) \<and> pb_len b \<le> pb_alloc b \<and> 1024 \<le> pb_alloc b"
    if "pipes ?st p = Some b" for p b using pipes_okD[OF ok, of p b] that d by auto
  moreover have "p = r" if "pipes ?st p = Some b" "pipes ?st r = Some c" "pb_data b = pb_data c" for p r b c
    using pipes_ok_inj[OF ok, of p b r c] that by simp
  ultimately show "pipes_ok ?st" unfolding pipes_ok_def by blast
qed (simp_all add: readers_def)

lemma buf_put_length: "buf_put d off bs = Some d' \<Longrightarrow> length d' = length d \<and> off + length bs \<le> length d"
  by (auto simp: buf_put_def split: if_splits)

lemma buf_store_inv:
  assumes k: "kernel_inv h st"
  shows "ret (buf_store q off bs st) (\<lambda>st'. kernel_inv h st' \<and> same_procs st st' \<and> pipes st' = pipes st \<and> fhs st' = fhs st \<and>
    (\<exists>d. bufs st q = Some d \<and> off + length bs \<le> length d))"
proof (rule retI)
  fix st' assume "buf_store q off bs st = Some st'"
  then obtain d d' where d: "bufs st q = Some d" "buf_put d off bs = Some d'" "st' = st\<lparr>bufs := (bufs st)(q \<mapsto> d')\<rparr>"
    by (auto simp: buf_store_def bind_eq_Some_conv)
  note len = buf_put_length[OF d(2)]
  show "kernel_inv h st' \<and> same_procs st st' \<and> pipes st' = pipes st \<and> fhs st' = fhs st \<and> (\<exists>d. bufs st q = Some d \<and> off + length bs \<le> length d)"
    using buf_change_inv[OF k d(1), of d'] len d by (simp add: same_procs_def)
qed

lemma buf_move_inv:
  assumes k: "kernel_inv h st"
  shows "ret (buf_move q doff s soff n st) (\<lambda>st'. kernel_inv h st' \<and> same_procs st st' \<and> pipes st' = pipes st \<and> fhs st' = fhs st)"
proof (rule retI)
  fix st' assume "buf_move q doff s soff n st = Some st'"
  then obtain bs d d' where d: "bufs st q = Some d" "buf_put d doff bs = Some d'" "st' = st\<lparr>bufs := (bufs st)(q \<mapsto> d')\<rparr>"
    by (auto simp: buf_move_def bind_eq_Some_conv)
  show "kernel_inv h st' \<and> same_procs st st' \<and> pipes st' = pipes st \<and> fhs st' = fhs st"
    using buf_change_inv[OF k d(1), of d'] buf_put_length[OF d(2)] d by (simp add: same_procs_def)
qed

end
