(* ===== verification/Invariant_Calls.thy ===== *)
theory Invariant_Calls
  imports Invariant
begin

text \<open>
  The system calls and the switch of processes keep the invariant of the kernel. Pipes and handles
  come first, then the calls that block, the creation and the end of processes, and the dispatcher.
\<close>

section \<open>Writing and closing\<close>

lemma grow_pipe_inv:
  assumes k: "kernel_inv h st" and b: "pipes st p = Some b" and gt: "pb_len b + count > pb_alloc b"
  shows "ret (grow_pipe p count st) (\<lambda>st'. kernel_inv h st' \<and> same_procs st st' \<and> fhs st' = fhs st)"
proof (rule retI)
  fix st' assume e: "grow_pipe p count st = Some st'"
  obtain ma al nd B where s: "st' = st\<lparr>kernel_memarea := ma, pipes := (pipes st)(p \<mapsto> b\<lparr>pb_alloc := al, pb_data := nd\<rparr>), bufs := B\<rparr>" "pipes_ok st'"
    by (rule grow_pipe_ok[OF kernel_invD(2)[OF k] b gt e]) blast
  have r: "readers st' = readers st" using b by (auto simp: set_eq_iff readers_iff s(1))
  have "kernel_inv h st'" by (rule kernel_inv_pipes[OF k _ s(2) r, where F = "fhs st"]) (simp add: s(1))
  then show "kernel_inv h st' \<and> same_procs st st' \<and> fhs st' = fhs st" by (simp add: same_procs_def s(1))
qed

lemma write_to_pipe_inv:
  assumes k: "kernel_inv h st"
  shows "ret (write_to_pipe p buf st) (\<lambda>st'. kernel_inv h st' \<and> woke st st' \<and> fhs st' = fhs st)"
proof (rule retI)
  fix st' assume e: "write_to_pipe p buf st = Some st'"
  let ?n = "of_nat (length buf) :: u32"
  obtain b st1 b1 st2 where s: "pipes st p = Some b" "(if pb_len b + ?n > pb_alloc b then grow_pipe p ?n st else Some st) = Some st1"
    "pipes st1 p = Some b1" "buf_store (pb_data b1) (unat (pb_len b1)) buf st1 = Some st2"
    and w: "wake_up_reader p (set_pipe p (b1\<lparr>pb_len := pb_len b1 + ?n\<rparr>) st2) = Some st'" (is "wake_up_reader p ?st3 = _")
    using e by (auto simp: write_to_pipe_def get_pipe_def Let_def bind_eq_Some_conv)
  have "kernel_inv h st1 \<and> same_procs st st1 \<and> fhs st1 = fhs st"
  proof (cases "pb_len b + ?n > pb_alloc b")
    case True
    then show ?thesis using retD[OF grow_pipe_inv[OF k s(1) True], of st1] s(2) by simp
  next
    case False
    then show ?thesis using s(2) k by (simp add: same_procs_def)
  qed
  then have k1: "kernel_inv h st1" "same_procs st st1" "fhs st1 = fhs st" by blast+
  obtain d where k2: "kernel_inv h st2" "same_procs st1 st2" "pipes st2 = pipes st1" "fhs st2 = fhs st1"
    "bufs st1 (pb_data b1) = Some d" "unat (pb_len b1) + length buf \<le> length d"
    using retD[OF buf_store_inv[OF k1(1)] s(4)] by blast
  have "length d = unat (pb_alloc b1)" using pipes_okD(2)[OF kernel_invD(2)[OF k1(1)] s(3)] k2(5) by simp
  then have fit: "unat (pb_len b1) + length buf \<le> unat (pb_alloc b1)" using k2(6) by simp
  then have "unat (pb_len b1 + ?n) = unat (pb_len b1) + length buf"
    using unat_u32_less[of "pb_alloc b1"] by (simp add: unat_word_ariths unat_of_nat)
  then have le: "pb_len b1 + ?n \<le> pb_alloc b1" using fit by (simp add: word_le_nat_alt)
  have k3: "kernel_inv h ?st3" "same_procs st2 ?st3"
    by (rule set_pipe_inv[OF k2(1), of p b1]; use s(3) k2(3) le in simp)+
  have "kernel_inv h st'" "woke ?st3 st'" "fhs st' = fhs ?st3" using retD[OF wake_up_reader_inv[OF k3(1)] w] by blast+
  then show "kernel_inv h st' \<and> woke st st' \<and> fhs st' = fhs st"
    using woke_trans[OF woke_refl, of st ?st3] k1 k2 k3 by (auto simp: same_procs_def set_pipe_def)
qed

lemma check_buffer_free_inv:
  assumes k: "kernel_inv h st"
  shows "ret (check_buffer_free p st) (\<lambda>st'. kernel_inv h st' \<and> same_procs st st' \<and> fhs st' = fhs st)"
proof (rule retI)
  fix st' assume e: "check_buffer_free p st = Some st'"
  then obtain b where b: "pipes st p = Some b" by (auto simp: check_buffer_free_def get_pipe_def bind_eq_Some_conv)
  note K = kernel_invD[OF k]
  show "kernel_inv h st' \<and> same_procs st st' \<and> fhs st' = fhs st"
  proof (cases "\<not> pb_reading b \<and> \<not> pb_writing b")
    case False
    then show ?thesis using e b k by (auto simp: check_buffer_free_def get_pipe_def same_procs_def)
  next
    case True
    obtain st1 where s: "pb_readpid b = - 1" "kdelete (pb_data b) st = Some st1" "kdelete p st1 = Some st'"
      using e b True by (auto simp: check_buffer_free_def get_pipe_def bind_eq_Some_conv kassert_def split: if_splits)
    obtain d where d: "bufs st (pb_data b) = Some d" using pipes_okD(2)[OF K(2) b] by blast
    have no: "pipes st (pb_data b) = None" "fhs st (pb_data b) = None" "mboxes st (pb_data b) = None"
      "fhs st p = None" "bufs st p = None" "mboxes st p = None"
      using heap_okD(5)[OF K(6), of "pb_data b"] heap_okD(3)[OF K(6), of p] d b by auto
    have o1: "pb_data b \<in> objs st" using d by (auto simp: objs_def)
    obtain ma1 where m1: "st1 = st\<lparr>kernel_memarea := ma1, bufs := (bufs st)(pb_data b := None)\<rparr>" "heap_ok st1"
      by (rule kdelete_ok[OF K(6) o1]) (use s(2) no in \<open>simp add: fun_upd_idem\<close>)
    have o2: "p \<in> objs st1" using b by (auto simp: objs_def m1(1))
    obtain ma2 where m2: "st' = st\<lparr>kernel_memarea := ma2, pipes := (pipes st)(p := None), bufs := (bufs st)(pb_data b := None)\<rparr>" "heap_ok st'"
      by (rule kdelete_ok[OF m1(2) o2]) (use s(3) no in \<open>simp add: m1(1) fun_upd_idem, blast\<close>)
    have "(\<exists>e. bufs st' (pb_data c) = Some e \<and> length e = unat (pb_alloc c)) \<and> pb_len c \<le> pb_alloc c \<and> 1024 \<le> pb_alloc c"
      if c: "pipes st' q = Some c" for q c
      using pipes_okD[OF K(2), of q c] pipes_ok_inj[OF K(2) b, of q c] c by (auto simp: m2(1) split: if_splits)
    moreover have "q = r" if "pipes st' q = Some c" "pipes st' r = Some c'" "pb_data c = pb_data c'" for q r c c'
      using pipes_ok_inj[OF K(2), of q c r c'] that by (auto simp: m2(1) split: if_splits)
    ultimately have ok: "pipes_ok st'" using m2(2) unfolding pipes_ok_def by blast
    have r: "readers st' = readers st" using b s(1) by (auto simp: set_eq_iff readers_iff m2(1))
    have "kernel_inv h st'" by (rule kernel_inv_pipes[OF k _ ok r, where F = "fhs st"]) (simp add: m2(1))
    then show ?thesis by (simp add: same_procs_def m2(1))
  qed
qed

lemma delete_handle_inv:
  assumes k: "kernel_inv h st" and f: "fhs st f \<noteq> None"
  shows "ret (kdelete f st) (\<lambda>st'. kernel_inv h st' \<and> same_procs st st')"
proof (rule delete_object_inv[OF k])
  note K = kernel_invD[OF k]
  show "f \<in> dom (fhs st) \<or> f \<in> dom (bufs st)" using f by auto
  fix p b assume "pipes st p = Some b"
  then have "pb_data b \<in> dom (bufs st)" using pipes_okD(2)[OF K(2)] by blast
  then show "pb_data b \<noteq> f" using f heap_okD(5)[OF K(6)] by blast
qed

lemma writer_destroy_inv:
  assumes k: "kernel_inv h st"
  shows "ret (pipe_writer_destroy_h f st) (\<lambda>st'. kernel_inv h st' \<and> woke st st')"
proof (rule retI)
  fix st' assume e: "pipe_writer_destroy_h f st = Some st'"
  obtain fh p b st1 st2 where s: "fhs st f = Some fh" "pipes st p = Some b" "wake_up_reader p (set_pipe p (b\<lparr>pb_writing := False\<rparr>) st) = Some st1"
    "check_buffer_free p st1 = Some st2" "kdelete f st2 = Some st'"
    using e by (auto simp: pipe_writer_destroy_h_def get_fh_def get_pipe_def bind_eq_Some_conv kassert_def split: if_splits)
  let ?s0 = "set_pipe p (b\<lparr>pb_writing := False\<rparr>) st"
  have k0: "kernel_inv h ?s0" "same_procs st ?s0"
    by (rule set_pipe_inv[OF k s(2)]; use pipes_okD(3)[OF kernel_invD(2)[OF k] s(2)] in simp)+
  have k1: "kernel_inv h st1" "woke ?s0 st1" "fhs st1 = fhs ?s0" using retD[OF wake_up_reader_inv[OF k0(1)] s(3)] by blast+
  have k2: "kernel_inv h st2" "same_procs st1 st2" "fhs st2 = fhs st1" using retD[OF check_buffer_free_inv[OF k1(1)] s(4)] by blast+
  have f: "fhs st2 f \<noteq> None" using k2(3) k1(3) s(1) by (simp add: set_pipe_def)
  have "kernel_inv h st'" "same_procs st2 st'" using retD[OF delete_handle_inv[OF k2(1) f] s(5)] by blast+
  then show "kernel_inv h st' \<and> woke st st'"
    using woke_trans[OF woke_trans[OF woke_refl[OF k0(2)] k1(2)] woke_refl, of st'] k2(2) by (simp add: same_procs_def)
qed

lemma reader_destroy_inv:
  assumes k: "kernel_inv h st"
  shows "ret (pipe_reader_destroy_h f st) (\<lambda>st'. kernel_inv h st' \<and> woke st st')"
proof (rule retI)
  fix st' assume e: "pipe_reader_destroy_h f st = Some st'"
  obtain fh p b st1 where s: "fhs st f = Some fh" "pipes st p = Some b" "check_buffer_free p (set_pipe p (b\<lparr>pb_reading := False\<rparr>) st) = Some st1"
    "kdelete f st1 = Some st'"
    using e by (auto simp: pipe_reader_destroy_h_def get_fh_def get_pipe_def bind_eq_Some_conv kassert_def split: if_splits)
  let ?s0 = "set_pipe p (b\<lparr>pb_reading := False\<rparr>) st"
  have k0: "kernel_inv h ?s0" "same_procs st ?s0"
    by (rule set_pipe_inv[OF k s(2)]; use pipes_okD(3)[OF kernel_invD(2)[OF k] s(2)] in simp)+
  have k1: "kernel_inv h st1" "same_procs ?s0 st1" "fhs st1 = fhs ?s0" using retD[OF check_buffer_free_inv[OF k0(1)] s(3)] by blast+
  have f: "fhs st1 f \<noteq> None" using k1(3) s(1) by (simp add: set_pipe_def)
  have "kernel_inv h st'" "same_procs st1 st'" using retD[OF delete_handle_inv[OF k1(1) f] s(4)] by blast+
  then show "kernel_inv h st' \<and> woke st st'" using k0(2) k1(2) woke_refl[of st st'] by (simp add: same_procs_def)
qed

lemma close_filehandle_inv:
  assumes k: "kernel_inv h st"
  shows "ret (close_filehandle f st) (\<lambda>st'. kernel_inv h st' \<and> woke st st')"
proof (rule retI)
  fix st' assume e: "close_filehandle f st = Some st'"
  then obtain fh where fh: "fhs st f = Some fh" by (auto simp: close_filehandle_def get_fh_def bind_eq_Some_conv)
  let ?s1 = "set_fh f (fh\<lparr>refcount := refcount fh - 1\<rparr>) st"
  have k1: "kernel_inv h ?s1" by (rule kernel_inv_cong[OF kcore_set_fh k]) (simp add: fh)
  have sp: "woke st ?s1" by (rule woke_refl) (simp add: same_procs_def set_fh_def)
  have d: "ret (call_destroy x f ?s1) (\<lambda>st'. kernel_inv h st' \<and> woke ?s1 st')" for x
    unfolding call_destroy_def screen_destroy_h_def file_destroy_h_def
    by (cases x) (auto simp: set_fh_def intro!: writer_destroy_inv[OF k1, simplified set_fh_def] reader_destroy_inv[OF k1, simplified set_fh_def]
        ret_mono[OF delete_handle_inv[OF k1, simplified set_fh_def]] woke_refl)
  have "kernel_inv h st' \<and> woke ?s1 st'"
    using e fh k1 retD[OF d] woke_refl[of ?s1 ?s1] by (auto simp: close_filehandle_def get_fh_def Let_def same_procs_def bind_eq_Some_conv kassert_def split: if_splits)
  then show "kernel_inv h st' \<and> woke st st'" using woke_trans[OF sp] by blast
qed

end
