(* ===== verification/Invariant_Block.thy ===== *)
theory Invariant_Block
  imports Invariant_Calls
begin

text \<open>
  The system calls of a running process keep the invariant: the ones that suspend it, which
  register it with what will wake it, and the ones that do not touch the process lists.
\<close>

section \<open>Suspending the running process\<close>

lemma suspend_relinked: "suspend_process j st = Some st' \<Longrightarrow> relinked j False st st'"
proof -
  assume "suspend_process j st = Some st'"
  then obtain l1 ps1 l2 ps2 where j: "j < length (procs st)" and a: "list_remove (ready st) j ((procs st)[j := (procs st ! j)\<lparr>p_ready := False\<rparr>]) = Some (l1, ps1)"
    "list_add (suspended st) j ps1 = Some (l2, ps2)" "st' = st\<lparr>procs := ps2, ready := l1, suspended := l2\<rparr>"
    by (auto simp: suspend_process_def get_proc_def upd_proc_def ready_remove_def suspended_add_def bind_eq_Some_conv list_get_def list_put_def split: if_splits)
  then show ?thesis using list_remove_unlink[OF a(1)] list_add_unlink[OF a(2)]
    unfolding relinked_def by (intro exI[of _ l1] exI[of _ l2] exI[of _ ps2]) simp
qed

lemma in_callD:
  assumes "in_call i n st"
  shows "kernel_inv None st" "current_process st = Some i" "p_ready (procs st ! i)" "p_in_syscall (procs st ! i) = n" "n \<noteq> SYSCALL_KILL"
    "live None st i" "i < length (procs st)" "i < MAX_PROCESSES" "alive (procs st ! i)" "p_pid (procs st ! i) = int i"
proof -
  show k: "kernel_inv None st" "current_process st = Some i" "p_ready (procs st ! i)" "p_in_syscall (procs st ! i) = n" "n \<noteq> SYSCALL_KILL"
    using assms by (simp_all add: in_call_def)
  show l: "live None st i" using kernel_invD(5)[OF k(1,2)] .
  show m: "i < MAX_PROCESSES" "alive (procs st ! i)" using l by (simp_all add: live_def)
  show "i < length (procs st)" using m kernel_inv_length[OF k(1)] by simp
  show "p_pid (procs st ! i) = int i" using wait_invD(1)[OF kernel_invD(4)[OF k(1)] m(1)] m(2) by (simp add: proc_ok_def)
qed

text \<open>The running process, suspended for a reason that the state records.\<close>

lemma wait_inv_block:
  assumes w: "wait_inv None st" and i: "live None st i" "p_ready (procs st ! i)" "p_in_syscall (procs st ! i) = n"
    and c: "current_process st = Some i" "current_process st' = Some i"
    and other: "\<And>k. k < MAX_PROCESSES \<Longrightarrow> k \<noteq> i \<Longrightarrow> unlink (procs st' ! k) = unlink (procs st ! k)"
    and at: "alive (procs st' ! i)" "proc_ok i (procs st' ! i)" "p_in_syscall (procs st' ! i) = n" "\<not> p_ready (procs st' ! i)"
      "p_parent_pid (procs st' ! i) = p_parent_pid (procs st ! i)" "p_receive_blocked (procs st' ! i) \<Longrightarrow> n = SYSCALL_RECEIVE"
    and why: "waits_pipe st' i \<or> waits_message st' i \<or> waits_child st' i"
    and r: "readers st' = readers st \<union> X" "X \<subseteq> {(p, int i)}" "X \<noteq> {} \<Longrightarrow> n = SYSCALL_READ"
  shows "wait_inv None st'"
proof (rule wait_inv_readersI)
  note W = wait_invD[OF w] and R = wait_inv_readersD[OF w] and O = unlinkD[OF other]
  have live: "live None st' k = live None st k" for k using O(3)[of k] at(1) i by (cases "k = i") (auto simp: live_def)
  have susp: "susp None st' k \<longleftrightarrow> susp None st k \<or> k = i" for k using live[of k] O(4)[of k] at(4) i live_less by (cases "k = i") (auto simp: susp_def)
  have call: "k < MAX_PROCESSES \<Longrightarrow> p_in_syscall (procs st' ! k) = p_in_syscall (procs st ! k)" for k using O(6)[of k] at(3) i(3) by (cases "k = i") auto
  have al: "k < MAX_PROCESSES \<Longrightarrow> alive (procs st' ! k) = alive (procs st ! k)" for k using live[of k] by (simp add: live_def)
  have ns: "\<not> susp None st i" using i by (simp add: susp_def)
  fix k
  show "proc_ok k (procs st' ! k)" if "k < MAX_PROCESSES"
    using W(1)[OF that] at(2) O(3,5,8,13)[OF that] by (cases "k = i") (simp_all add: proc_ok_def)
  show "waits_pipe st' k \<or> waits_message st' k \<or> waits_child st' k" if "susp None st' k"
  proof (cases "k = i")
    case False
    then have k: "susp None st k" "k \<noteq> i" "k < MAX_PROCESSES" using that susp live_less by blast+
    have par: "j < MAX_PROCESSES \<Longrightarrow> p_parent_pid (procs st' ! j) = p_parent_pid (procs st ! j)" for j using O(8)[of j] at(5) by (cases "j = i") auto
    consider "waits_pipe st k" | "waits_message st k" | "waits_child st k" using W(2)[OF k(1)] by blast
    then show ?thesis
    proof cases
      case 1
      then have "waits_pipe st' k" using call[OF k(3)] r(1) unfolding waits_pipe_readers by auto
      then show ?thesis by blast
    next
      case 2
      then have "waits_message st' k" using call[OF k(3)] O(9)[OF k(3,2)] unfolding waits_message_def by simp
      then show ?thesis by blast
    next
      case 3
      then have "waits_child st' k" using call[OF k(3)] O(7)[OF k(3,2)] al par unfolding waits_child_def by metis
      then show ?thesis by blast
    qed
  qed (use why in simp)
  show "susp None st' k \<and> p_in_syscall (procs st' ! k) = SYSCALL_RECEIVE" if "k < MAX_PROCESSES" "p_receive_blocked (procs st' ! k)"
    using W(5)[of k] that O(9)[OF that(1)] call[OF that(1)] at(3,6) susp[of k] by (cases "k = i") auto
  show "susp None st' k" if "k < MAX_PROCESSES" "current_process st' \<noteq> Some k" "p_in_syscall (procs st' ! k) = SYSCALL_WAITPID"
    "0 \<le> p_waiting_on (procs st' ! k)"
    using W(6)[of k] that O(7)[OF that(1)] call[OF that(1)] c susp[of k] by (cases "k = i") auto
  show "r_eax (p_saved_regs (procs st' ! k)) = p_in_syscall (procs st' ! k) \<and> p_in_syscall (procs st' ! k) \<noteq> SYSCALL_KILL"
    if "live None st' k" "current_process st' \<noteq> Some k" "p_in_syscall (procs st' ! k) \<noteq> 0"
  proof -
    have k: "k < MAX_PROCESSES" "k \<noteq> i" using live_less(1)[OF that(1)] that(2) c by auto
    then show ?thesis using W(7)[of k] that live[of k] call[OF k(1)] O(14)[OF k] c by simp
  qed
  have old: "(q, int i) \<notin> readers st" for q using R(1)[of q "int i"] ns by auto
  show "\<exists>i. x = int i \<and> susp None st' i \<and> p_in_syscall (procs st' ! i) = SYSCALL_READ" if rd: "(q, x) \<in> readers st'" for q x
  proof (cases "(q, x) \<in> X")
    case True
    then show ?thesis using r(2,3) susp[of i] at(3) by auto
  next
    case False
    then obtain m where m: "x = int m" "susp None st m" "p_in_syscall (procs st ! m) = SYSCALL_READ" using rd r(1) R(1)[of q x] by auto
    then show ?thesis using susp[of m] call[OF live_less(2)[OF m(2)]] by auto
  qed
  show "q = q'" if "(q, x) \<in> readers st'" "(q', x) \<in> readers st'" for q q' x
  proof -
    have "y = p \<and> z = int i" if "(y, z) \<in> X" for y z using that r(2) by auto
    then show ?thesis using that R(2)[of q x q'] old r(1) by blast
  qed
qed

lemma block_inv:
  assumes call: "in_call i n st"
    and st1: "st1 = st\<lparr>procs := (procs st)[i := (procs st ! i)\<lparr>p_receive_blocked := b, p_waiting_on := x\<rparr>], pipes := P\<rparr>"
    and ok: "pipes_ok st1" and r: "readers st1 = readers st \<union> X" "X \<subseteq> {(p, int i)}" "X \<noteq> {} \<Longrightarrow> n = SYSCALL_READ"
    and b: "b \<Longrightarrow> n = SYSCALL_RECEIVE" and why: "waits_pipe st1 i \<or> waits_message st1 i \<or> waits_child st1 i"
    and e: "suspend_process i st1 = Some st'"
  shows "kernel_inv None st'" "current_process st' = Some i" "\<not> p_ready (procs st' ! i)" "p_in_syscall (procs st' ! i) = n"
proof -
  note C = in_callD[OF call] and K = kernel_invD[OF in_callD(1)[OF call]]
  note rel = suspend_relinked[OF e] note R = relinkedD[OF rel]
  let ?q = "(procs st ! i)\<lparr>p_receive_blocked := b, p_waiting_on := x\<rparr>"
  obtain rs ss where s: "sched_inv st rs ss" using K(1) by auto
  have s1: "sched_inv st1 rs ss" by (rule sched_inv_cong[OF s]) (use C(7) in \<open>auto simp: st1 nth_list_update alive_def\<close>)
  have irs: "i \<in> set rs" using sched_invD(4)[OF s] C by simp
  have sch: "\<exists>rs ss. sched_inv (vis None st') rs ss" using suspend_process_ok[OF s1 irs] e by (metis option.inject vis_None)
  have m1: "mail_ok (vis None st1)"
    by (rule mail_ok_same[OF K(3)]) (use ok C(7) in \<open>auto simp: st1 pipes_ok_def same_box_def nth_list_update alive_def\<close>)
  note objs = relinked_objects[OF ok m1 rel]
  have pi: "procs st1 ! i = ?q" "length (procs st1) = length (procs st)" using C(7) by (simp_all add: st1)
  have U: "unlink (procs st' ! i) = unlink (?q\<lparr>p_ready := False\<rparr>)" using R(8)[of i] C(7) pi by simp
  have o: "unlink (procs st' ! k) = unlink (procs st ! k)" if "k < MAX_PROCESSES" "k \<noteq> i" for k
    using R(8)[of k] that pi kernel_inv_length[OF C(1)] by (simp add: st1)
  show cp: "current_process st' = Some i" using R(2) C(2) by (simp add: st1)
  show nr: "\<not> p_ready (procs st' ! i)" "p_in_syscall (procs st' ! i) = n" using unlinkD(4,6)[OF U] C(4) by simp_all
  have rd: "readers st' = readers st1" using R(3) by (simp add: readers_def)
  have lv: "live None st' i" using unlinkD(3)[OF U] C(8,9) by (simp add: live_def alive_def)
  have wy: "waits_pipe st' i \<or> waits_message st' i \<or> waits_child st' i"
  proof -
    have al: "alive (procs st' ! j) = alive (procs st1 ! j)" "p_parent_pid (procs st' ! j) = p_parent_pid (procs st1 ! j)" if "j < MAX_PROCESSES" for j
      using unlinkD(3,8)[OF R(8)[of j]] that pi kernel_inv_length[OF C(1)] by (auto split: if_splits)
    show ?thesis using why unlinkD(6,7,9)[OF U] pi al unfolding waits_pipe_readers waits_message_def waits_child_def rd by auto
  qed
  have "wait_inv None st'"
    by (rule wait_inv_block[OF K(4) C(6,3,4,2) cp o _ _ nr(2,1) _ _ wy _ r(2,3)])
      (use unlinkD[OF U] wait_invD(1)[OF K(4) C(8)] C(9) b r(1) rd in \<open>auto simp: proc_ok_def alive_def\<close>)
  then show "kernel_inv None st'" using sch objs lv cp unfolding kernel_inv_def by simp
qed


section \<open>The result of a handler\<close>

text \<open>
  The state in which a handler of call \<open>n\<close> of process \<open>i\<close> leaves the kernel: the process is still the
  running one and, unless it has been suspended, ready; or it has ended.
\<close>

definition left_call :: "nat \<Rightarrow> u32 \<Rightarrow> int \<Rightarrow> kstate \<Rightarrow> bool" where
  "left_call i n res st \<longleftrightarrow> kernel_inv None st \<and>
     (if current_process st = Some i
      then p_in_syscall (procs st ! i) = n \<and> (res \<noteq> - ESUSPEND \<or> n = SYSCALL_WAITPID \<longrightarrow> p_ready (procs st ! i) = (res \<noteq> - ESUSPEND))
      else current_process st = None \<and> res = - ESUSPEND)"

lemma left_callI: "in_call i n st \<Longrightarrow> (n = SYSCALL_WAITPID \<Longrightarrow> res \<noteq> - ESUSPEND) \<Longrightarrow> left_call i n res st"
  using in_callD[of i n st] by (auto simp: left_call_def)

lemma block_left:
  assumes "kernel_inv None st'" "current_process st' = Some i" "\<not> p_ready (procs st' ! i)" "p_in_syscall (procs st' ! i) = n"
  shows "left_call i n (- ESUSPEND) st'"
  using assms by (simp add: left_call_def)

section \<open>Operations inside a call\<close>

lemma in_call_procs: "in_call i n st \<Longrightarrow> kernel_inv None st' \<Longrightarrow> same_procs st st' \<Longrightarrow> in_call i n st'"
  by (simp add: in_call_def same_procs_def)

lemma in_call_woke:
  assumes c: "in_call i n st" and k: "kernel_inv None st'" and w: "woke st st'"
  shows "in_call i n st'"
  using in_callD[OF c] wokeD[OF w in_callD(7)[OF c]] k w by (simp add: in_call_def woke_def)

text \<open>Operations on the heap, the pages and the screen keep \<open>in_call\<close>.\<close>

lemma call_same: "in_call i n st \<Longrightarrow> ret m (\<lambda>st'. kcore st' = kcore st) \<Longrightarrow> ret m (in_call i n)"
  by (auto simp: ret_def intro: in_call_cong)

lemma call_handle:
  assumes c: "in_call i n st"
  shows "ret (knew m st) (\<lambda>(f, st'). in_call i n (set_fh f x st'))"
  by (rule ret_mono[OF new_handle_inv[OF in_callD(1)[OF c], where x = x]]) (auto intro: in_call_procs[OF c])

lemma call_new_pipe:
  assumes c: "in_call i n st" shows "ret (new_pipe st) (\<lambda>(p, st'). in_call i n st')"
  by (rule ret_mono[OF new_pipe_inv[OF in_callD(1)[OF c]]]) (auto intro: in_call_procs[OF c])

lemma call_close:
  assumes c: "in_call i n st" shows "ret (close_filehandle f st) (in_call i n)"
  by (rule ret_mono[OF close_filehandle_inv[OF in_callD(1)[OF c]]]) (auto intro: in_call_woke[OF c])

lemma call_write_to_pipe:
  assumes c: "in_call i n st" shows "ret (write_to_pipe p bs st) (in_call i n)"
  by (rule ret_mono[OF write_to_pipe_inv[OF in_callD(1)[OF c]]]) (auto intro: in_call_woke[OF c])

lemma call_buf_move:
  assumes c: "in_call i n st" shows "ret (buf_move q d s o1 m st) (\<lambda>st'. in_call i n st' \<and> pipes st' = pipes st)"
  by (rule ret_mono[OF buf_move_inv[OF in_callD(1)[OF c]]]) (auto intro: in_call_procs[OF c])

lemma call_set_pipe:
  assumes c: "in_call i n st" and b: "pipes st p = Some b" "pb_data b' = pb_data b" "pb_alloc b' = pb_alloc b" "pb_len b' \<le> pb_alloc b"
    "pb_readpid b' = pb_readpid b"
  shows "in_call i n (set_pipe p b' st)"
  using set_pipe_inv[OF in_callD(1)[OF c] b] in_call_procs[OF c] by blast

lemma call_set_fh: "in_call i n st \<Longrightarrow> fhs st f \<noteq> None \<Longrightarrow> in_call i n (set_fh f x st)"
  by (rule in_call_cong[OF kcore_set_fh])

lemmas call_write_bytes = call_same[OF _ same_write_bytes]
lemmas call_fd_set = call_same[OF _ same_fd_set]
lemmas call_on_pages = call_same[OF _ same_on_pages]
lemmas call_kprintf = call_same[OF _ same_kprintf]

end
