(* ===== verification/Invariant_Handlers.thy ===== *)
theory Invariant_Handlers
  imports Invariant_Block
begin

text \<open>
  Every handler of a system call but kill leaves the kernel in a state that \<open>left_call\<close> describes.
  Handlers that create or end processes follow in the next theory.
\<close>

section \<open>Sequencing\<close>

lemma ret_bind: "ret a P \<Longrightarrow> (\<And>x. P x \<Longrightarrow> ret (f x) Q) \<Longrightarrow> ret (Option.bind a f) Q"
  by (auto simp: ret_def bind_eq_Some_conv)

lemma ret_bind_any: "(\<And>x. a = Some x \<Longrightarrow> ret (f x) Q) \<Longrightarrow> ret (Option.bind a f) Q"
  by (auto simp: ret_def bind_eq_Some_conv)

lemma ret_bind_pair: "ret a (\<lambda>(x, y). P x y) \<Longrightarrow> (\<And>x y. P x y \<Longrightarrow> ret (f x y) Q) \<Longrightarrow> ret (Option.bind a (\<lambda>(x, y). f x y)) Q"
  by (auto simp: ret_def bind_eq_Some_conv)

lemma ret_bind_any_pair: "(\<And>x y. a = Some (x, y) \<Longrightarrow> ret (f x y) Q) \<Longrightarrow> ret (Option.bind a (\<lambda>(x, y). f x y)) Q"
  by (auto simp: ret_def bind_eq_Some_conv)

lemma ret_if: "(c \<Longrightarrow> ret m Q) \<Longrightarrow> (\<not> c \<Longrightarrow> ret n Q) \<Longrightarrow> ret (if c then m else n) Q"
  by simp

lemma ret_Some: "Q x \<Longrightarrow> ret (Some x) Q"
  by simp

lemma left_pair: "left_call i n res st \<Longrightarrow> (\<lambda>(res, st). left_call i n res st) (res, st)"
  by simp

text \<open>A result that is an error code, or any result of a call other than waitpid.\<close>

abbreviation leaves :: "nat \<Rightarrow> u32 \<Rightarrow> (int \<times> kstate) option \<Rightarrow> bool" where
  "leaves i n m \<equiv> ret m (\<lambda>(res, st). left_call i n res st)"

lemma leave: "in_call i n st \<Longrightarrow> n \<noteq> SYSCALL_WAITPID \<Longrightarrow> leaves i n (Some (res, st))"
  by (simp add: left_callI)

lemma ret_case_prod: "(\<And>a b. x = (a, b) \<Longrightarrow> ret (f a b) Q) \<Longrightarrow> ret (case x of (a, b) \<Rightarrow> f a b) Q"
  by (cases x) simp

section \<open>File descriptors and pipes\<close>

lemma new_reader_call: "in_call i n st \<Longrightarrow> ret (new_pipe_reader p st) (\<lambda>(f, st'). in_call i n st')"
  unfolding new_pipe_reader_def by (rule ret_bind_pair[OF call_handle]) simp_all

lemma new_writer_call: "in_call i n st \<Longrightarrow> ret (new_pipe_writer p st) (\<lambda>(f, st'). in_call i n st')"
  unfolding new_pipe_writer_def by (rule ret_bind_pair[OF call_handle]) simp_all

lemma new_file_call: "in_call i n st \<Longrightarrow> ret (new_file t st) (\<lambda>(f, st'). in_call i n st')"
  unfolding new_file_def by (rule ret_bind_pair[OF call_handle]) simp_all

text \<open>The rules of the calls, the most specific first.\<close>

lemmas call_rules = leave ret_if ret_bind[OF call_close] ret_bind[OF call_fd_set] ret_bind[OF call_write_bytes] ret_bind[OF call_write_to_pipe]
  ret_bind[OF call_same[OF _ same_upd_cur]] ret_bind[OF call_on_pages] ret_bind[OF call_kprintf] ret_bind_pair[OF call_new_pipe]
  ret_bind_pair[OF new_reader_call] ret_bind_pair[OF new_writer_call] ret_bind_pair[OF new_file_call] ret_case_prod ret_bind_any_pair ret_bind_any

lemma close_leaves:
  assumes c: "in_call i n st" and n: "n \<noteq> SYSCALL_WAITPID"
  shows "leaves i n (syscall_close fd st)"
  unfolding syscall_close_def by (rule call_rules c n | assumption)+

lemma dup2_leaves:
  assumes c: "in_call i n st" and n: "n \<noteq> SYSCALL_WAITPID"
  shows "leaves i n (syscall_dup2 a b st)"
  unfolding syscall_dup2_def get_fh_def
  by (rule ret_bind[where P = "in_call i n", OF ret_if] call_rules c n call_close call_set_fh ret_Some | assumption | simp)+

lemma pipe_leaves:
  assumes c: "in_call i n st" and n: "n \<noteq> SYSCALL_WAITPID"
  shows "leaves i n (syscall_pipe f st)"
  unfolding syscall_pipe_def Let_def by (rule call_rules c n | assumption)+

section \<open>Reading and writing\<close>

lemma write_leaves:
  assumes c: "in_call i n st" and n: "n \<noteq> SYSCALL_WAITPID"
  shows "leaves i n (syscall_write fd buf count st)"
proof -
  have s: "leaves i n (screen_write_h bs st)" for bs
    unfolding screen_write_h_def by (rule call_rules c n in_call_cong[OF kcore_simps(2)] | assumption)+
  have p: "leaves i n (pipe_writer_write_h fh bs st)" for fh bs
    unfolding pipe_writer_write_h_def by (rule ret_bind[OF call_write_to_pipe[OF c]] leave n ret_bind_any | assumption)+
  have x: "leaves i n (Some (res, st))" for res by (rule leave[OF c n])
  show ?thesis unfolding syscall_write_def pipe_reader_write_h_def file_write_h_def
    by (rule ret_if ret_bind_any x s p | (simp only: write_fun.case split: write_fun.splits, intro conjI impI))+
qed

text \<open>A handle stays in place while bytes are written to memory.\<close>

lemma call_advance:
  assumes c: "in_call i n st" and w: "write_bytes buf bs st = Some st'" and f: "fhs st f = Some z"
  shows "in_call i n st'" "in_call i n (set_fh f y st')" "fhs st' f \<noteq> None"
proof -
  have k: "kcore st' = kcore st" using retD[OF same_write_bytes w] .
  show "in_call i n st'" by (rule in_call_cong[OF k c])
  show "fhs st' f \<noteq> None" using kcoreD(10)[OF k] f by (metis domI domIff)
  then show "in_call i n (set_fh f y st')" using call_set_fh \<open>in_call i n st'\<close> by blast
qed

lemma file_read_leaves:
  assumes c: "in_call i n st" and n: "n \<noteq> SYSCALL_WAITPID"
  shows "leaves i n (file_read_h f buf count st)"
proof (rule retI)
  fix x assume "file_read_h f buf count st = Some x"
  then show "case x of (res, st') \<Rightarrow> left_call i n res st'"
    using c n call_advance(2)[OF c] by (auto simp: file_read_h_def get_fh_def bind_eq_Some_conv Let_def intro!: left_callI split: if_splits)
qed

lemma pipe_read_leaves:
  assumes c: "in_call i SYSCALL_READ st"
  shows "leaves i SYSCALL_READ (pipe_reader_read_h fh buf count st)"
proof (rule retI)
  let ?n = SYSCALL_READ
  fix x assume e: "pipe_reader_read_h fh buf count st = Some x"
  have n: "?n \<noteq> SYSCALL_WAITPID" by (simp add: syscall_numbers)
  note C = in_callD[OF c] and K = kernel_invD[OF in_callD(1)[OF c]]
  obtain p b where b: "fh_p fh = Some p" "pipes st p = Some b" using e by (auto simp: pipe_reader_read_h_def get_pipe_def bind_eq_Some_conv)
  define copy where "copy = (if count < pb_len b then count else pb_len b)"
  have cl: "copy \<le> pb_len b" by (auto simp: copy_def)
  consider (stay) res where "x = (res, st)"
    | (data) bs st1 st2 where "write_bytes buf bs st = Some st1" "x = (sint copy, set_pipe p (b\<lparr>pb_len := pb_len b - copy\<rparr>) st2)"
        "st2 = st1 \<or> (\<exists>d s1 s2 m k. buf_move d s1 s2 m k st1 = Some st2)"
    | (block) st1 where "pb_readpid b = - 1" "suspend_process i (set_pipe p (b\<lparr>pb_readpid := int i\<rparr>) st) = Some st1" "x = (- ESUSPEND, st1)"
    using e b C(2,7,10) unfolding pipe_reader_read_h_def Let_def
    by (auto simp: get_pipe_def get_proc_def bind_eq_Some_conv copy_def[symmetric] split: if_split_asm) blast+
  then show "case x of (res, st') \<Rightarrow> left_call i ?n res st'"
  proof cases
    case stay
    then show ?thesis using left_callI[OF c] n by simp
  next
    case data
    have k1: "kcore st1 = kcore st" using retD[OF same_write_bytes data(1)] .
    have c1: "in_call i ?n st1" "pipes st1 = pipes st" using in_call_cong[OF k1 c] kcoreD(7)[OF k1] by blast+
    have c2: "in_call i ?n st2" "pipes st2 p = Some b" using data(3) c1 retD[OF call_buf_move[OF c1(1)]] b(2) by auto
    have "pb_len b - copy \<le> pb_alloc b" using pipes_okD(3)[OF K(2) b(2)] cl word_sub_le[of copy "pb_len b"] by simp
    then have "in_call i ?n (set_pipe p (b\<lparr>pb_len := pb_len b - copy\<rparr>) st2)" using call_set_pipe[OF c2] by simp
    then show ?thesis using data(2) left_callI n by simp
  next
    case block
    let ?st1 = "set_pipe p (b\<lparr>pb_readpid := int i\<rparr>) st"
    have r: "readers ?st1 = readers st \<union> {(p, int i)}" using b(2) block(1) by (auto simp: set_eq_iff readers_iff set_pipe_def)
    have ok: "pipes_ok ?st1" using pipes_ok_struct[OF K(2) b(2)] pipes_okD(3)[OF K(2) b(2)] by (simp add: set_pipe_def)
    have nb: "\<not> p_receive_blocked (procs st ! i)" using wait_invD(5)[OF K(4) C(8)] C(3) by (auto simp: susp_def)
    have "(procs st ! i)\<lparr>p_receive_blocked := False\<rparr> = procs st ! i" using nb by (cases "procs st ! i") simp
    then have st1: "?st1 = st\<lparr>procs := (procs st)[i := (procs st ! i)\<lparr>p_receive_blocked := False, p_waiting_on := p_waiting_on (procs st ! i)\<rparr>],
       pipes := (pipes st)(p \<mapsto> b\<lparr>pb_readpid := int i\<rparr>)\<rparr>" by (simp add: set_pipe_def)
    have "waits_pipe ?st1 i" using r C(4) by (auto simp: waits_pipe_readers set_pipe_def)
    then have "left_call i ?n (- ESUSPEND) st1"
      by (intro block_left block_inv[OF c st1 ok r, where st' = st1] block(2)) auto
    then show ?thesis using block(3) by simp
  qed
qed

lemma read_leaves:
  assumes c: "in_call i SYSCALL_READ st"
  shows "leaves i SYSCALL_READ (syscall_read fd buf count st)"
proof -
  have n: "SYSCALL_READ \<noteq> SYSCALL_WAITPID" by (simp add: syscall_numbers)
  have x: "leaves i SYSCALL_READ (Some (res, st))" for res by (rule leave[OF c n])
  show ?thesis unfolding syscall_read_def screen_read_h_def pipe_writer_read_h_def
    by (rule ret_if ret_bind_any x file_read_leaves[OF c n] pipe_read_leaves[OF c] | (simp only: read_fun.case split: read_fun.splits, intro conjI impI))+
qed

section \<open>Files\<close>

lemma stat_leaves:
  assumes c: "in_call i n st" and n: "n \<noteq> SYSCALL_WAITPID"
  shows "leaves i n (syscall_stat path buf st)"
  unfolding syscall_stat_def by (rule call_rules c n | assumption)+

lemma open_leaves:
  assumes c: "in_call i n st" and n: "n \<noteq> SYSCALL_WAITPID"
  shows "leaves i n (syscall_open path flags st)"
  unfolding syscall_open_def Let_def get_fh_def by (rule call_rules c n call_set_fh | assumption | simp)+

lemma getdent_leaves:
  assumes c: "in_call i n st" and n: "n \<noteq> SYSCALL_WAITPID"
  shows "leaves i n (syscall_getdent fd entry st)"
proof (rule retI)
  fix x assume e: "syscall_getdent fd entry st = Some x"
  have twice: "in_call i n (set_fh f y st2)" if "write_bytes a bs st = Some st1" "write_bytes a' bs' st1 = Some st2" "fhs st f = Some z"
    for a bs a' bs' st1 st2 f y z
    using call_advance(1,3)[OF c that(1,3)] call_advance(2)[OF _ that(2)] by blast
  show "case x of (res, st') \<Rightarrow> left_call i n res st'"
    using e n c twice
    by (auto simp: syscall_getdent_def get_fh_def bind_eq_Some_conv Let_def intro!: left_callI split: if_splits)
qed

lemma chdir_leaves:
  assumes c: "in_call i n st" and n: "n \<noteq> SYSCALL_WAITPID"
  shows "leaves i n (syscall_chdir path st)"
  unfolding syscall_chdir_def by (rule call_rules c n | assumption | simp add: pcore_def alive_def)+

lemma getcwd_leaves:
  assumes c: "in_call i n st" and n: "n \<noteq> SYSCALL_WAITPID"
  shows "ret (syscall_getcwd buf sz st) (\<lambda>(a, st'). left_call i n (sint a) st')"
proof -
  have x: "ret (Some (a, st')) (\<lambda>(a, st'). left_call i n (sint a) st')" if "in_call i n st'" for a st' using left_callI[OF that] n by simp
  show ?thesis unfolding syscall_getcwd_def by (rule x c ret_if ret_bind[OF call_write_bytes] ret_bind_any_pair ret_bind_any | assumption)+
qed

section \<open>Fields of the running process\<close>

text \<open>The running process may change what it waits for and the number of its call.\<close>

lemma sched_vis_cong:
  assumes "sched_inv (vis h st) rs ss" "ready st' = ready st" "suspended st' = suspended st" "length (procs st') = length (procs st)"
    "\<And>m. m < length (procs st) \<Longrightarrow> alive (procs st' ! m) = alive (procs st ! m) \<and> p_ready (procs st' ! m) = p_ready (procs st ! m) \<and>
       p_prev (procs st' ! m) = p_prev (procs st ! m) \<and> p_next (procs st' ! m) = p_next (procs st ! m)"
  shows "sched_inv (vis h st') rs ss"
  by (rule sched_inv_cong[OF assms(1)]) (use assms(2-5) in \<open>auto simp: alive_hid\<close>)

lemma kernel_inv_current:
  assumes k: "kernel_inv h st" and i: "current_process st = Some i" "p_ready (procs st ! i)"
  shows "kernel_inv h (st\<lparr>procs := (procs st)[i := (procs st ! i)\<lparr>p_waiting_on := x, p_in_syscall := c\<rparr>]\<rparr>)"
proof -
  define st' where st': "st' = st\<lparr>procs := (procs st)[i := (procs st ! i)\<lparr>p_waiting_on := x, p_in_syscall := c\<rparr>]\<rparr>"
  note K = kernel_invD[OF k] and len = kernel_inv_length[OF k]
  have li: "live h st i" "i < length (procs st)" using K(5)[OF i(1)] len by (simp_all add: live_def)
  have F: "alive (procs st' ! m) = alive (procs st ! m)" "p_ready (procs st' ! m) = p_ready (procs st ! m)" "p_pid (procs st' ! m) = p_pid (procs st ! m)"
    "p_filedesc (procs st' ! m) = p_filedesc (procs st ! m)" "p_parent_pid (procs st' ! m) = p_parent_pid (procs st ! m)"
    "p_receive_blocked (procs st' ! m) = p_receive_blocked (procs st ! m)" for m
    using li(2) by (cases "m = i"; simp add: st' alive_def)+
  have G: "m \<noteq> i \<Longrightarrow> procs st' ! m = procs st ! m" for m by (simp add: st')
  have L: "live h st' = live h st" "susp h st' = susp h st" "readers st' = readers st"
    by (simp_all add: fun_eq_iff live_def susp_def F) (simp add: readers_def st')
  have ns: "\<not> susp h st i" using i by (simp add: susp_def)
  note W = wait_invD[OF K(4)] and R = wait_inv_readersD[OF K(4)]
  have "wait_inv h st'"
  proof (rule wait_inv_readersI, unfold L)
    fix m
    show "proc_ok m (procs st' ! m)" if "m < MAX_PROCESSES" using W(1)[OF that] unfolding proc_ok_def F .
    show "waits_pipe st' m \<or> waits_message st' m \<or> waits_child st' m" if "susp h st m"
    proof -
      have "m \<noteq> i" using that ns by blast
      then show ?thesis using W(2)[OF that] G[of m] F unfolding waits_pipe_readers waits_message_def waits_child_def L by metis
    qed
    show "susp h st m \<and> p_in_syscall (procs st' ! m) = SYSCALL_RECEIVE" if "m < MAX_PROCESSES" "p_receive_blocked (procs st' ! m)"
      using W(5)[OF that(1)] that(2) G[of m] F(6)[of m] ns by (metis (no_types))
    show "susp h st m" if "m < MAX_PROCESSES" "current_process st' \<noteq> Some m" "p_in_syscall (procs st' ! m) = SYSCALL_WAITPID" "0 \<le> p_waiting_on (procs st' ! m)"
      using W(6)[of m] that i(1) by (cases "m = i") (simp_all add: st')
    show "r_eax (p_saved_regs (procs st' ! m)) = p_in_syscall (procs st' ! m) \<and> p_in_syscall (procs st' ! m) \<noteq> SYSCALL_KILL"
      if "live h st m" "current_process st' \<noteq> Some m" "p_in_syscall (procs st' ! m) \<noteq> 0"
      using W(7)[of m] that i(1) by (cases "m = i") (simp_all add: st')
  next
    fix p y assume p: "(p, y) \<in> readers st"
    then obtain m where m: "y = int m" "susp h st m" "p_in_syscall (procs st ! m) = SYSCALL_READ" using R(1) by blast
    then have "m \<noteq> i" using ns by blast
    then show "\<exists>m. y = int m \<and> susp h st m \<and> p_in_syscall (procs st' ! m) = SYSCALL_READ" using m G[of m] by metis
  qed (rule R(2))
  moreover have "pipes_ok st'" by (rule pipes_ok_frame[OF K(2)]) (simp_all add: st')
  moreover have "mail_ok (vis h st')"
    by (rule mail_ok_same[OF K(3)]) (use K(6) heap_ok_cong[of st' st] li(2) in \<open>auto simp: st' same_box_def nth_list_update alive_def\<close>)
  moreover have "\<exists>rs ss. sched_inv (vis h st') rs ss"
  proof -
    obtain rs ss where s: "sched_inv (vis h st) rs ss" using K(1) by blast
    have "sched_inv (vis h st') rs ss" by (rule sched_vis_cong[OF s]) (use li(2) in \<open>auto simp: st' nth_list_update alive_def\<close>)
    then show ?thesis by blast
  qed
  ultimately have "kernel_inv h st'" using i(1) li(1) L(1) by (simp add: kernel_inv_def st')
  then show ?thesis by (simp add: st')
qed

lemma call_waiting: "in_call i n st \<Longrightarrow> ret (upd_proc i (\<lambda>p. p\<lparr>p_waiting_on := x\<rparr>) st) (in_call i n)"
proof (rule retI)
  fix st' assume c: "in_call i n st" and "upd_proc i (\<lambda>p. p\<lparr>p_waiting_on := x\<rparr>) st = Some st'"
  note C = in_callD[OF c]
  have st': "st' = st\<lparr>procs := (procs st)[i := (procs st ! i)\<lparr>p_waiting_on := x, p_in_syscall := n\<rparr>]\<rparr>"
    using \<open>upd_proc i _ st = Some st'\<close> C(4,7) by (cases "procs st ! i") (simp add: upd_proc_ok)
  show "in_call i n st'" using kernel_inv_current[OF C(1,2,3), where x = x and c = n] C unfolding in_call_def st' by simp
qed

section \<open>Waiting for a child\<close>

lemma waitpid_leaves:
  assumes c: "in_call i SYSCALL_WAITPID st"
  shows "leaves i SYSCALL_WAITPID (syscall_waitpid pid status st)"
proof (rule retI)
  let ?n = SYSCALL_WAITPID
  fix x assume e: "syscall_waitpid pid status st = Some x"
  have out: "left_call i ?n res st'" if "in_call i ?n st'" "- 100 < res" for res st' using left_callI[OF that(1)] that(2) by (simp add: ESUSPEND_def)
  show "case x of (res, st') \<Rightarrow> left_call i ?n res st'"
  proof (cases "0 > pid \<or> int MAX_PROCESSES \<le> pid")
    case True
    then show ?thesis using e out[OF c] by (auto simp: syscall_waitpid_def ECHILD_def split: if_splits)
  next
    case False
    note C = in_callD[OF c]
    obtain st1 where s1: "upd_proc i (\<lambda>p. p\<lparr>p_waiting_on := - 1\<rparr>) st = Some st1" "st1 = st\<lparr>procs := (procs st)[i := (procs st ! i)\<lparr>p_waiting_on := - 1\<rparr>]\<rparr>"
      using C(7) by (simp add: upd_proc_ok)
    have c1: "in_call i ?n st1" using retD[OF call_waiting[OF c] s1(1)] .
    note C1 = in_callD[OF c1] and K1 = kernel_invD[OF in_callD(1)[OF c1]]
    have j: "nat pid < MAX_PROCESSES" "int (nat pid) = pid" using False by auto
    let ?q = "procs st1 ! nat pid"
    have g: "get_proc st1 (nat pid) = Some ?q" "get_proc st1 i = Some (procs st1 ! i)" using j C1(7) kernel_inv_length[OF C1(1)] by (simp_all add: get_proc_def)
    note e1 = e[unfolded syscall_waitpid_def if_not_P[OF False] C(2) bind.bind_lunit s1(1) g C1(10)]
    consider "x = (- ECHILD, st1)"
      | (reap) st2 st3 where "p_exited ?q" "kcore st2 = kcore st1" "upd_proc (nat pid) (\<lambda>p. p\<lparr>p_exists := False\<rparr>) st2 = Some st3" "x = (pid, st3)"
      | (block) st2 st3 where "p_exists ?q" "p_parent_pid ?q = int i" "\<not> p_exited ?q" "upd_proc i (\<lambda>p. p\<lparr>p_waiting_on := pid\<rparr>) st1 = Some st2"
          "suspend_process i st2 = Some st3" "x = (- ESUSPEND, st3)"
      using e1 retD[OF same_write_bytes] by (auto simp: bind_eq_Some_conv split: if_splits) blast
    then show ?thesis
    proof cases
      case 1
      then show ?thesis using out[OF c1] by (simp add: ECHILD_def)
    next
      case reap
      have l2: "nat pid < length (procs st2)" using kcoreD(1)[OF reap(2)] j kernel_inv_length[OF C1(1)] by simp
      have "\<not> alive (procs st2 ! nat pid)" using pcoreD(1)[OF kcoreD(2)[OF reap(2)]] l2 kcoreD(1)[OF reap(2)] reap(1) by (simp add: alive_def)
      then have "kcore st3 = kcore st2" using reap(3) l2 kcore_upd_proc[of "nat pid" st2] by (auto simp: upd_proc_ok pcore_def alive_def)
      then show ?thesis using reap(2,4) out[OF in_call_cong[OF _ c1], of st3 pid] False by simp
    next
      case block
      have st2: "st2 = st1\<lparr>procs := (procs st1)[i := (procs st1 ! i)\<lparr>p_receive_blocked := False, p_waiting_on := pid\<rparr>], pipes := pipes st1\<rparr>"
      proof -
        have "\<not> p_receive_blocked (procs st1 ! i)" using wait_invD(5)[OF K1(4) C1(8)] C1(3) by (auto simp: susp_def)
        then have "(procs st1 ! i)\<lparr>p_receive_blocked := False\<rparr> = procs st1 ! i" by (cases "procs st1 ! i") simp
        moreover have "st2 = st1\<lparr>procs := (procs st1)[i := (procs st1 ! i)\<lparr>p_waiting_on := pid\<rparr>]\<rparr>" using block(4) C1(7) by (auto simp: upd_proc_ok)
        ultimately show ?thesis by simp
      qed
      have ok: "pipes_ok st2" by (rule pipes_ok_frame[OF K1(2)]) (simp_all add: st2)
      have "waits_child st2 i"
        unfolding waits_child_def using block(1-3) j C1(4,7) by (auto simp: st2 alive_def nth_list_update intro!: exI[of _ "nat pid"])
      then have "left_call i ?n (- ESUSPEND) st3"
        by (intro block_left block_inv[OF c1 st2 ok, of "{}" 0 st3] block(5)) (auto simp: st2 readers_def)
      then show ?thesis using block(6) by simp
    qed
  qed
qed

end
