(* ===== verification/Invariant_Mail.thy ===== *)
theory Invariant_Mail
  imports Invariant_Handlers
begin

text \<open>
  The calls on messages keep the invariant, also when the addressee has ended and is not yet
  waited for: its mailbox has been freed, and its address may belong to another process by then.
\<close>

section \<open>Mailboxes\<close>

lemma call_mail:
  assumes c: "in_call i n st" and j: "j < length (procs st)"
    and st': "st' = st\<lparr>kernel_memarea := ma, mboxes := B, procs := (procs st)[j := (procs st ! j)\<lparr>p_mailbox_alloc := a, p_mailbox_size := s, p_mailbox := m\<rparr>]\<rparr>"
    and ok: "mail_ok st'"
  shows "in_call i n st'"
proof -
  note C = in_callD[OF c] and K = kernel_invD[OF in_callD(1)[OF c]] and len = kernel_inv_length[OF in_callD(1)[OF c]]
  have F: "alive (procs st' ! k) = alive (procs st ! k)" "p_ready (procs st' ! k) = p_ready (procs st ! k)" "p_pid (procs st' ! k) = p_pid (procs st ! k)"
    "p_filedesc (procs st' ! k) = p_filedesc (procs st ! k)" "p_parent_pid (procs st' ! k) = p_parent_pid (procs st ! k)"
    "p_receive_blocked (procs st' ! k) = p_receive_blocked (procs st ! k)" "p_in_syscall (procs st' ! k) = p_in_syscall (procs st ! k)"
    "p_waiting_on (procs st' ! k) = p_waiting_on (procs st ! k)" "p_saved_regs (procs st' ! k) = p_saved_regs (procs st ! k)"
    "p_prev (procs st' ! k) = p_prev (procs st ! k)" "p_next (procs st' ! k) = p_next (procs st ! k)" for k
    using j by (cases "k = j"; simp add: st' alive_def)+
  have G: "current_process st' = current_process st" "pipes st' = pipes st" "bufs st' = bufs st" "readers st' = readers st"
    by (simp_all add: st' readers_def)
  have L: "live None st' = live None st" "susp None st' = susp None st" by (simp_all add: fun_eq_iff live_def susp_def F)
  have "wait_inv None st'" using K(4)
    unfolding wait_inv_def L waits_pipe_def waits_message_def waits_child_def F G proc_ok_def .
  moreover have "pipes_ok st'" using K(2) mail_okD(1)[OF ok] unfolding pipes_ok_def G by blast
  moreover have "\<exists>rs ss. sched_inv (vis None st') rs ss"
  proof -
    obtain rs ss where s: "sched_inv (vis None st) rs ss" using K(1) by blast
    have "sched_inv (vis None st') rs ss" by (rule sched_vis_cong[OF s]) (simp_all add: F, simp_all add: st')
    then show ?thesis by blast
  qed
  ultimately have "kernel_inv None st'" using C(2,6) ok L(1) G(1) by (simp add: kernel_inv_def)
  then show ?thesis using C by (simp add: in_call_def F G)
qed

text \<open>Objects that are not mailboxes of live processes may come and go.\<close>

lemma mail_ok_dead:
  assumes ok: "mail_ok st" and j: "j < length (procs st)" "\<not> alive (procs st ! j)" "\<not> alive q"
    and st': "procs st' = (procs st)[j := q]" "heap_ok st'" and B: "\<And>a box. mboxes st a = Some box \<Longrightarrow> mboxes st' a = Some box"
  shows "mail_ok st'"
proof -
  have "box_ok st' (procs st' ! i)" if "i < length (procs st')" "alive (procs st' ! i)" for i
  proof -
    have i: "i \<noteq> j" using that j(1,3) by (auto simp: st'(1))
    then have "box_ok st (procs st ! i)" using mail_okD(2)[OF ok, of i] that by (simp add: st'(1))
    then show ?thesis using i B by (auto simp: st'(1) box_ok_def split: if_splits)
  qed
  moreover have "p_mailbox (procs st' ! i) = 0" if "i < length (procs st')" "k < length (procs st')" "i \<noteq> k" "alive (procs st' ! i)" "alive (procs st' ! k)"
    "p_mailbox (procs st' ! i) = p_mailbox (procs st' ! k)" for i k
    using mail_okD(3)[OF ok, of i k] that j by (cases "i = j"; cases "k = j") (simp_all add: st'(1))
  ultimately show ?thesis using st'(2) unfolding mail_ok_def by blast
qed

lemma slot_call:
  assumes c: "in_call i n st" and j: "j < length (procs st)"
  shows "ret (mailbox_slot j st) (\<lambda>(room, st'). in_call i n st')"
proof (rule retI, clarify)
  fix room st' assume e: "mailbox_slot j st = Some (room, st')"
  note K = kernel_invD[OF in_callD(1)[OF c]]
  have ok: "mail_ok st" using K(3) by simp
  let ?p = "procs st ! j"
  let ?st = "\<lambda>ma B a s m. st\<lparr>kernel_memarea := ma, mboxes := B, procs := (procs st)[j := ?p\<lparr>p_mailbox_alloc := a, p_mailbox_size := s, p_mailbox := m\<rparr>]\<rparr>"
  consider (new) mb st1 where "p_mailbox ?p = 0" "knew 8288 st = Some (mb, st1)"
      "st' = st1\<lparr>mboxes := (mboxes st1)(mb \<mapsto> replicate 8 (junk_message st1)), procs := (procs st1)[j := (procs st1 ! j)\<lparr>p_mailbox_alloc := 8, p_mailbox_size := 1, p_mailbox := mb\<rparr>]\<rparr>"
    | (more) "p_mailbox ?p \<noteq> 0" "p_mailbox_size ?p < p_mailbox_alloc ?p" "st' = ?st (kernel_memarea st) (mboxes st) (p_mailbox_alloc ?p) (p_mailbox_size ?p + 1) (p_mailbox ?p)"
    | (full) "st' = st"
    using e j by (auto simp: mailbox_slot_def get_proc_def new_mailbox_def bind_eq_Some_conv upd_proc_def list_get_def list_put_def split: if_splits)
  then show "in_call i n st'"
  proof cases
    case new
    obtain ma where m: "st1 = st\<lparr>kernel_memarea := ma\<rparr>" "kmalloc (kernel_memarea st) 8288 = Some (mb, ma)" "heap_ok st1" "mb \<notin> objs st" "mb \<in> dom (allocated ma)" "mb \<noteq> 0"
      by (rule knew_ok[OF K(6) new(2)])
    let ?box = "replicate 8 (junk_message st1)"
    have st': "st' = ?st ma ((mboxes st)(mb \<mapsto> ?box)) 8 1 mb" by (simp add: new(3) m(1))
    have h: "heap_ok st'" using m(3,4,5) by (auto simp: st' m(1) heap_ok_def objs_def)
    have fresh: "mb \<notin> dom (mboxes st)" using m(4) by (auto simp: objs_def)
    have "mail_ok st'"
    proof (cases "alive ?p")
      case True
      show ?thesis
        by (rule mail_ok_upd(1)[OF ok j True, of "?p\<lparr>p_mailbox_alloc := 8, p_mailbox_size := 1, p_mailbox := mb\<rparr>" mb ?box])
          (use True m(6) h fresh in \<open>auto simp: st' alive_def junk_message_def local_array_def\<close>)
    next
      case False
      show ?thesis
        by (rule mail_ok_dead[OF ok j False, of "?p\<lparr>p_mailbox_alloc := 8, p_mailbox_size := 1, p_mailbox := mb\<rparr>"])
          (use False h fresh in \<open>auto simp: st' alive_def\<close>)
    qed
    then show ?thesis by (rule call_mail[OF c j st'])
  next
    case more
    let ?q = "?p\<lparr>p_mailbox_alloc := p_mailbox_alloc ?p, p_mailbox_size := p_mailbox_size ?p + 1, p_mailbox := p_mailbox ?p\<rparr>"
    have h: "heap_ok st'" using K(6) by (simp add: more(3) heap_ok_def objs_def)
    have "mail_ok st'"
    proof (cases "alive ?p")
      case True
      obtain box where b: "mboxes st (p_mailbox ?p) = Some box" "length box = 8" "p_mailbox_alloc ?p = 8" "\<forall>x \<in> set box. length (msg_data x) = 1024"
        using mail_okD(2)[OF ok j True] more(1) by (auto simp: box_ok_def)
      show ?thesis
        by (rule mail_ok_upd(1)[OF ok j True, of ?q "p_mailbox ?p" box]) (use True more(1,2) b h in \<open>auto simp: more(3) alive_def\<close>)
    next
      case False
      show ?thesis by (rule mail_ok_dead[OF ok j False, of ?q]) (use False h in \<open>auto simp: more(3) alive_def\<close>)
    qed
    then show ?thesis by (rule call_mail[OF c j more(3)])
  qed (use c in simp)
qed

lemma store_call:
  assumes c: "in_call i n st" and bs: "length bs \<le> 1024"
  shows "ret (store_message j from tag bs st) (in_call i n)"
proof (rule retI)
  fix st' assume e: "store_message j from tag bs st = Some st'"
  note K = kernel_invD[OF in_callD(1)[OF c]]
  have ok: "mail_ok st" using K(3) by simp
  let ?p = "procs st ! j" let ?m = "p_mailbox ?p" let ?k = "p_mailbox_size ?p - 1"
  obtain box where j: "j < length (procs st)" and box: "mboxes st ?m = Some box" "?k < length box"
    and st': "st' = st\<lparr>mboxes := (mboxes st)(?m \<mapsto> box[?k := \<lparr>msg_from = from, msg_tag = tag, msg_size = of_nat (length bs),
       msg_data = bs @ drop (length bs) (msg_data (box ! ?k))\<rparr>])\<rparr>" (is "st' = st\<lparr>mboxes := (mboxes st)(?m \<mapsto> box[?k := ?new])\<rparr>")
    using e by (auto simp: store_message_def get_proc_def list_get_def list_put_def Let_def bind_eq_Some_conv split: if_splits)
  have h: "heap_ok st'" using K(6) box(1) by (auto simp: st' heap_ok_def objs_def)
  have len: "\<forall>x \<in> set (box[?k := ?new]). length (msg_data x) = 1024" if all: "\<forall>x \<in> set box. length (msg_data x) = 1024"
  proof
    fix x assume "x \<in> set (box[?k := ?new])"
    then have "x \<in> set box \<or> x = ?new" using set_update_subset_insert[of box ?k ?new] by blast
    moreover have "length (msg_data ?new) = 1024" using all bs nth_mem[OF box(2)] by simp
    ultimately show "length (msg_data x) = 1024" using all by metis
  qed
  define box' where "box' = box[?k := ?new]"
  have b': "mboxes st' = (mboxes st)(?m \<mapsto> box')" "length box' = length box" "procs st' = procs st" by (simp_all add: box'_def st')
  have "box_ok st' (procs st ! k)" if k: "k < length (procs st)" "alive (procs st ! k)" for k
  proof (cases "p_mailbox (procs st ! k) = ?m")
    case True
    then show ?thesis using mail_okD(2)[OF ok k] len[folded box'_def] box(1) b' by (auto simp: box_ok_def split: if_splits)
  next
    case False
    then show ?thesis using mail_okD(2)[OF ok k] b' by (simp add: box_ok_def)
  qed
  then have m: "mail_ok st'" using h mail_okD(3)[OF ok] unfolding mail_ok_def b'(3) by blast
  show "in_call i n st'"
    by (rule call_mail[OF c j, where ma = "kernel_memarea st" and a = "p_mailbox_alloc ?p" and s = "p_mailbox_size ?p" and m = ?m, OF _ m]) (simp add: st')
qed

lemma wake_receiver_call:
  assumes c: "in_call i n st"
  shows "ret (wake_receiver j st) (in_call i n)"
proof (rule retI)
  fix st' assume e: "wake_receiver j st = Some st'"
  note C = in_callD[OF c] and K = kernel_invD[OF in_callD(1)[OF c]] and len = kernel_inv_length[OF in_callD(1)[OF c]]
  have j: "j < length (procs st)" using e by (auto simp: wake_receiver_def get_proc_def list_get_def split: if_splits)
  show "in_call i n st'"
  proof (cases "p_receive_blocked (procs st ! j)")
    case False
    then show ?thesis using e j c by (simp add: wake_receiver_def get_proc_def)
  next
    case True
    have sj: "susp None st j" "p_in_syscall (procs st ! j) = SYSCALL_RECEIVE" using wait_invD(5)[OF K(4) _ True] j len by auto
    have ij: "i \<noteq> j" using sj(1) C(3) by (auto simp: susp_def)
    obtain st1 where s1: "resume_process j st = Some st1" "upd_proc j (\<lambda>p. p\<lparr>p_receive_blocked := False\<rparr>) st1 = Some st'"
      using e j True by (auto simp: wake_receiver_def get_proc_def bind_eq_Some_conv)
    note rel = resume_relinked[OF s1(1)] note R = relinkedD[OF rel] and rest = relinked_rest[OF C(1) rel]
    obtain rs ss where s: "sched_inv (vis None st1) rs ss" using resume_sched[OF _ sj(1) s1(1)] K(1) by blast
    let ?q = "(procs st1 ! j)\<lparr>p_receive_blocked := False\<rparr>"
    have st': "st' = st1\<lparr>procs := (procs st1)[j := ?q]\<rparr>" using s1(2) j R(1) by (simp add: upd_proc_ok)
    have U: "unlink (procs st1 ! k) = unlink (if k = j then (procs st ! j)\<lparr>p_ready := True\<rparr> else procs st ! k)" if "k < MAX_PROCESSES" for k
      using R(8)[of k] that len by simp
    have jm: "j < MAX_PROCESSES" using j len by simp
    note Uj = unlinkD[OF U[OF jm], simplified]
    have at: "procs st' ! j = ?q" using j R(1) by (simp add: st')
    have readers_same: "readers st' = readers st" using R(3) by (simp add: st' readers_def)
    have w: "wait_inv None st'"
    proof (rule wait_inv_wake[OF K(4) sj(1)])
      show "unlink (procs st' ! k) = unlink (procs st ! k)" if "k < MAX_PROCESSES" "k \<noteq> j" for k using U[OF that(1)] that(2) by (simp add: st')
      show "alive (procs st' ! j)" using sj(1) Uj(3) unfolding at by (simp add: susp_def live_def alive_def)
      show "proc_ok j (procs st' ! j)" using wait_invD(1)[OF K(4) jm] Uj unfolding at by (simp add: proc_ok_def alive_def)
      have "(p, int j) \<notin> readers st" for p using wait_inv_readersD(1)[OF K(4), of p "int j"] sj(2) by (auto simp: syscall_numbers)
      then show "readers st' = readers st - {(p, int j) |p. True}" using readers_same by auto
    qed (use Uj sj(2) R(2) j R(1) in \<open>simp_all add: st' syscall_numbers\<close>)
    have p: "pipes_ok st'" by (rule pipes_ok_frame[OF rest(1)]) (simp_all add: st')
    have mo: "mail_ok (vis None st')"
      by (rule mail_ok_same[OF rest(2)]) (use p j R(1) in \<open>auto simp: st' pipes_ok_def same_box_def nth_list_update alive_def\<close>)
    have so: "sched_inv (vis None st') rs ss"
      by (rule sched_vis_cong[OF s]) (use j R(1) in \<open>auto simp: st' nth_list_update alive_def\<close>)
    have cur: "current_process st' = Some i" "procs st' ! i = procs st1 ! i" using R(2) C(2) ij by (simp_all add: st')
    note Ui = unlinkD[OF U[OF C(8)]]
    have "live None st' i" using Ui(3) C(8,9) ij cur by (simp add: live_def)
    then have "kernel_inv None st'" using mo so w p cur(1) unfolding kernel_inv_def by auto
    then show ?thesis using Ui(4,6) C cur ij by (simp add: in_call_def)
  qed
qed

section \<open>The calls\<close>

lemma send_leaves:
  assumes c: "in_call i n st" and n: "n \<noteq> SYSCALL_WAITPID"
  shows "leaves i n (syscall_send to tag data sz st)"
proof (rule retI)
  fix x assume e: "syscall_send to tag data sz st = Some x"
  consider (stay) res where "x = (res, st)"
    | (full) st1 where "nat to < length (procs st)" "mailbox_slot (nat to) st = Some (False, st1)" "x = (- ENOMEM, st1)"
    | (sent) st1 st2 st3 fr bs where "nat to < length (procs st)" "mailbox_slot (nat to) st = Some (True, st1)" "sz \<le> 1024" "read_bytes st1 data (unat sz) = Some bs"
        "store_message (nat to) fr tag bs st1 = Some st2" "wake_receiver (nat to) st2 = Some st3" "x = (0, st3)"
    using e by (auto simp: syscall_send_def get_proc_def list_get_def MAX_MESSAGE_SIZE_def bind_eq_Some_conv not_less split: if_splits)
  then show "case x of (res, st') \<Rightarrow> left_call i n res st'"
  proof cases
    case stay
    then show ?thesis using left_callI[OF c] n by simp
  next
    case full
    then show ?thesis using retD[OF slot_call[OF c full(1)] full(2)] left_callI n by simp
  next
    case sent
    have c1: "in_call i n st1" using retD[OF slot_call[OF c sent(1)] sent(2)] by simp
    have "length bs \<le> 1024" using read_bytes_length[OF sent(4)] sent(3) by (simp add: word_le_nat_alt)
    then have "in_call i n st2" using retD[OF store_call[OF c1] sent(5)] by blast
    then have "in_call i n st3" using retD[OF wake_receiver_call sent(6)] by blast
    then show ?thesis using sent(7) left_callI n by simp
  qed
qed

lemma receive_leaves:
  assumes c: "in_call i SYSCALL_RECEIVE st"
  shows "leaves i SYSCALL_RECEIVE (syscall_receive msg block st)"
proof (rule retI)
  let ?n = SYSCALL_RECEIVE let ?p = "procs st ! i"
  fix x assume e: "syscall_receive msg block st = Some x"
  have n: "?n \<noteq> SYSCALL_WAITPID" by (simp add: syscall_numbers)
  note C = in_callD[OF c] and K = kernel_invD[OF in_callD(1)[OF c]]
  let ?k = "p_mailbox_size ?p - 1"
  consider (stay) res where "x = (res, st)"
    | (data) box bs st1 where "p_mailbox_size ?p > 0" "mboxes st (p_mailbox ?p) = Some box" "write_bytes msg bs st = Some st1" "p_mailbox_size ?p \<le> length box"
        "x = (0, st1\<lparr>mboxes := (mboxes st1)(p_mailbox ?p \<mapsto> take ?k (drop 1 box) @ drop ?k box), procs := (procs st1)[i := (procs st1 ! i)\<lparr>p_mailbox_size := ?k\<rparr>]\<rparr>)"
    | (block) st1 where "suspend_process i (st\<lparr>procs := (procs st)[i := ?p\<lparr>p_receive_blocked := True\<rparr>]\<rparr>) = Some st1" "x = (- ESUSPEND, st1)"
    using e C(2,7) by (auto simp: syscall_receive_def get_proc_def list_get_def list_put_def upd_proc_def kassert_def Let_def bind_eq_Some_conv split: if_splits)
  then show "case x of (res, st') \<Rightarrow> left_call i ?n res st'"
  proof cases
    case stay
    then show ?thesis using left_callI[OF c] n by simp
  next
    case data
    have k1: "kcore st1 = kcore st" using retD[OF same_write_bytes data(3)] .
    have c1: "in_call i ?n st1" by (rule in_call_cong[OF k1 c])
    note C1 = in_callD[OF c1] and K1 = kernel_invD[OF in_callD(1)[OF c1]]
    have ok: "mail_ok st1" using K1(3) by simp
    let ?q = "procs st1 ! i" let ?box = "take ?k (drop 1 box) @ drop ?k box"
    have q: "p_mailbox ?q = p_mailbox ?p" "p_mailbox_size ?q = p_mailbox_size ?p" "mboxes st1 (p_mailbox ?p) = Some box"
      using pcoreD(10,11)[OF kcoreD(2)[OF k1 C(7)]] kcoreD(9)[OF k1] data(2) by simp_all
    have b: "p_mailbox ?p \<noteq> 0" "length box = 8" "p_mailbox_alloc ?q = 8" "\<forall>x \<in> set box. length (msg_data x) = 1024"
      using mail_okD(2)[OF ok C1(7,9)] q data(1) by (auto simp: box_ok_def split: if_splits)
    let ?d = "?q\<lparr>p_mailbox_alloc := p_mailbox_alloc ?q, p_mailbox_size := ?k, p_mailbox := p_mailbox ?q\<rparr>"
    define st2 where "st2 = st1\<lparr>kernel_memarea := kernel_memarea st1, mboxes := (mboxes st1)(p_mailbox ?p \<mapsto> ?box), procs := (procs st1)[i := ?d]\<rparr>"
    have h: "heap_ok st2" using K1(6) q(3) by (auto simp: st2_def heap_ok_def objs_def)
    have data_len: "\<forall>x \<in> set ?box. length (msg_data x) = 1024"
      using b(4) by (auto dest!: in_set_takeD in_set_dropD)
    have "mail_ok st2"
      by (rule mail_ok_upd(1)[OF ok C1(7,9), of ?d "p_mailbox ?p" ?box, OF _ _ b(1) _ _ _ data_len])
        (use C1(9) q b data(4) h in \<open>simp_all add: st2_def alive_def\<close>)
    then have "in_call i ?n st2" using call_mail[OF c1 C1(7) st2_def] by blast
    moreover have "x = (0, st2)" using data(5) by (simp add: st2_def)
    ultimately show ?thesis using left_callI n by simp
  next
    case block
    let ?st1 = "st\<lparr>procs := (procs st)[i := ?p\<lparr>p_receive_blocked := True\<rparr>]\<rparr>"
    have st1: "?st1 = st\<lparr>procs := (procs st)[i := ?p\<lparr>p_receive_blocked := True, p_waiting_on := p_waiting_on ?p\<rparr>], pipes := pipes st\<rparr>" by simp
    have ok: "pipes_ok ?st1" by (rule pipes_ok_frame[OF K(2)]) simp_all
    have "waits_message ?st1 i" using C(4,7) by (simp add: waits_message_def)
    then have "left_call i ?n (- ESUSPEND) st1"
      by (intro block_left block_inv[OF c st1 ok, of "{}" 0 st1] block(1)) (auto simp: readers_def)
    then show ?thesis using block(2) by simp
  qed
qed

lemma brk_leaves:
  assumes c: "in_call i n st" and n: "n \<noteq> SYSCALL_WAITPID"
  shows "leaves i n (syscall_brk e st)"
  unfolding syscall_brk_def Let_def
  by (rule call_rules c n in_call_cong[OF kcore_simps(6)] in_call_cong[OF kcore_simps(7)] | assumption | simp add: pcore_def alive_def)+

lemma getpid_leaves:
  assumes c: "in_call i n st" and n: "n \<noteq> SYSCALL_WAITPID"
  shows "leaves i n (syscall_getpid st)" "leaves i n (syscall_geterrno st)"
  unfolding syscall_getpid_def syscall_geterrno_def by (rule call_rules c n)+

end
