(* ===== verification/Invariant_Life.thy ===== *)
theory Invariant_Life
  imports Invariant_Mail
begin

text \<open>
  The creation and the end of processes. A new process stays hidden until it enters the ready list;
  a process that ends is hidden from the moment it leaves its list until it is dead.
\<close>

section \<open>Hiding and revealing a process\<close>

lemma wait_inv_one:
  assumes w: "wait_inv h st" and hs: "h = None \<or> h = Some c" "h' = None \<or> h' = Some c"
    and other: "\<And>k. k < MAX_PROCESSES \<Longrightarrow> k \<noteq> c \<Longrightarrow> unlink (procs st' ! k) = unlink (procs st ! k)"
    and r: "readers st' = readers st" and cur: "\<And>k. k \<noteq> c \<Longrightarrow> current_process st' = Some k \<longleftrightarrow> current_process st = Some k"
    and ns: "\<not> susp h st c" "\<not> susp h' st' c" and ok: "c < MAX_PROCESSES \<Longrightarrow> proc_ok c (procs st' ! c)"
    and at: "\<not> p_receive_blocked (procs st' ! c)" "\<not> (p_in_syscall (procs st' ! c) = SYSCALL_WAITPID \<and> 0 \<le> p_waiting_on (procs st' ! c))"
      "live h' st' c \<Longrightarrow> p_in_syscall (procs st' ! c) = 0"
    and child: "\<And>k. susp h st k \<Longrightarrow> p_in_syscall (procs st ! k) = SYSCALL_WAITPID \<Longrightarrow> p_waiting_on (procs st ! k) = int c \<Longrightarrow>
      alive (procs st ! c) \<Longrightarrow> p_parent_pid (procs st ! c) = int k \<Longrightarrow> alive (procs st' ! c) \<and> p_parent_pid (procs st' ! c) = int k"
  shows "wait_inv h' st'"
proof (rule wait_inv_readersI)
  note W = wait_invD[OF w] and R = wait_inv_readersD[OF w] and O = unlinkD[OF other]
  have live: "k \<noteq> c \<Longrightarrow> live h' st' k = live h st k" for k using O(3)[of k] hs by (auto simp: live_def)
  have susp: "susp h' st' k = susp h st k" for k using live[of k] O(4)[of k] ns live_less by (cases "k = c") (auto simp: susp_def)
  have nc: "susp h st k \<Longrightarrow> k \<noteq> c \<and> k < MAX_PROCESSES" for k using ns(1) live_less by blast
  fix k
  show "proc_ok k (procs st' ! k)" if "k < MAX_PROCESSES"
    using W(1)[OF that] ok O(3,5,8,13)[OF that] that by (cases "k = c") (simp_all add: proc_ok_def)
  show "waits_pipe st' k \<or> waits_message st' k \<or> waits_child st' k" if k': "susp h' st' k"
  proof -
    have s: "susp h st k" using k' susp by blast
    note k = nc[OF s, THEN conjunct2] nc[OF s, THEN conjunct1]
    consider "waits_pipe st k" | "waits_message st k" | "waits_child st k" using W(2)[OF s] by blast
    then show ?thesis
    proof cases
      case 1
      then have "waits_pipe st' k" using O(6)[OF k] r unfolding waits_pipe_readers by simp
      then show ?thesis by blast
    next
      case 2
      then have "waits_message st' k" using O(6,9)[OF k] unfolding waits_message_def by simp
      then show ?thesis by blast
    next
      case 3
      then obtain j where j: "j < MAX_PROCESSES" "p_waiting_on (procs st ! k) = int j" "alive (procs st ! j)" "p_parent_pid (procs st ! j) = int k"
        and call: "p_in_syscall (procs st ! k) = SYSCALL_WAITPID" by (auto simp: waits_child_def)
      have "alive (procs st' ! j) \<and> p_parent_pid (procs st' ! j) = int k"
        using child[OF s call] j O(3,8)[OF j(1)] by (cases "j = c") simp_all
      then have "waits_child st' k" using j(1,2) call O(6,7)[OF k] unfolding waits_child_def by auto
      then show ?thesis by blast
    qed
  qed
  show "susp h' st' k \<and> p_in_syscall (procs st' ! k) = SYSCALL_RECEIVE" if "k < MAX_PROCESSES" "p_receive_blocked (procs st' ! k)"
    using W(5)[OF that(1)] that(2) O(6,9)[OF that(1)] at(1) susp[of k] by (cases "k = c") auto
  show "susp h' st' k" if "k < MAX_PROCESSES" "current_process st' \<noteq> Some k" "p_in_syscall (procs st' ! k) = SYSCALL_WAITPID"
    "0 \<le> p_waiting_on (procs st' ! k)"
    using W(6)[OF that(1)] that O(6,7)[OF that(1)] at(2) cur[of k] susp[of k] by (cases "k = c") auto
  show "r_eax (p_saved_regs (procs st' ! k)) = p_in_syscall (procs st' ! k) \<and> p_in_syscall (procs st' ! k) \<noteq> SYSCALL_KILL"
    if "live h' st' k" "current_process st' \<noteq> Some k" "p_in_syscall (procs st' ! k) \<noteq> 0"
    using W(7)[of k] that live[of k] O(6,14)[OF live_less(1)[OF that(1)]] at(3) cur[of k] by (cases "k = c") auto
next
  note R = wait_inv_readersD[OF w] and O = unlinkD[OF other]
  fix p x assume p: "(p, x) \<in> readers st'"
  then obtain k where k: "x = int k" "susp h st k" "p_in_syscall (procs st ! k) = SYSCALL_READ" using R(1) r by blast
  have nc: "k < MAX_PROCESSES" "k \<noteq> c" using k(2) ns(1) live_less by blast+
  have "susp h' st' k" using k(2) O(3,4)[OF nc] hs nc by (auto simp: susp_def live_def)
  then show "\<exists>i. x = int i \<and> susp h' st' i \<and> p_in_syscall (procs st' ! i) = SYSCALL_READ" using k O(6)[OF nc] by auto
  show "p = q" if "(q, x) \<in> readers st'" for q using R(2) p that r by blast
qed

text \<open>The lists, when one process that is in none of them changes.\<close>

lemma sched_inv_dead:
  assumes s: "sched_inv st rs ss" and l: "ready st' = ready st" "suspended st' = suspended st" "length (procs st') = length (procs st)"
    and other: "\<And>k. k < length (procs st) \<Longrightarrow> k \<noteq> c \<Longrightarrow> procs st' ! k = procs st ! k"
    and c: "c < length (procs st) \<Longrightarrow> \<not> alive (procs st ! c) \<and> \<not> alive (procs st' ! c) \<and> p_prev (procs st' ! c) = None \<and> p_next (procs st' ! c) = None"
  shows "sched_inv st' rs ss"
proof -
  note D = sched_invD[OF s]
  have nc: "c \<notin> set rs" "c \<notin> set ss" using D(1,4,5) c by auto
  have m: "k < MAX_PROCESSES \<and> alive (procs st' ! k) \<longleftrightarrow> k < MAX_PROCESSES \<and> alive (procs st ! k)" for k
    using c other[of k] D(1) by (cases "k = c") auto
  have q: "k < MAX_PROCESSES \<and> alive (procs st ! k) \<Longrightarrow> procs st' ! k = procs st ! k" for k using c other[of k] D(1) by (cases "k = c") auto
  have qr: "procs st' ! k = procs st ! k" if "k \<in> set rs \<or> k \<in> set ss" for k using that D(4,5)[of k] q[of k] by blast
  have "dlist (procs st') (ready st') rs" unfolding l(1) by (rule dlist_same_links[OF D(2) l(3)]) (use qr in simp)
  moreover have "dlist (procs st') (suspended st') ss" unfolding l(2) by (rule dlist_same_links[OF D(3) l(3)]) (use qr in simp)
  moreover have "k \<in> set rs \<longleftrightarrow> k < MAX_PROCESSES \<and> alive (procs st' ! k) \<and> p_ready (procs st' ! k)" for k using D(4)[of k] m[of k] q[of k] by metis
  then have "set rs = {i. i < MAX_PROCESSES \<and> alive (procs st' ! i) \<and> p_ready (procs st' ! i)}" by blast
  moreover have "k \<in> set ss \<longleftrightarrow> k < MAX_PROCESSES \<and> alive (procs st' ! k) \<and> \<not> p_ready (procs st' ! k)" for k using D(5)[of k] m[of k] q[of k] by metis
  then have "set ss = {i. i < MAX_PROCESSES \<and> alive (procs st' ! i) \<and> \<not> p_ready (procs st' ! i)}" by blast
  moreover have "p_prev (procs st' ! k) = None \<and> p_next (procs st' ! k) = None" if "k < MAX_PROCESSES" "\<not> alive (procs st' ! k)" for k
    using D(6)[of k] that m[of k] c other[of k] D(1) by (cases "k = c") auto
  ultimately show ?thesis using l(3) D(1) by (simp add: sched_inv_def)
qed

lemma mail_ok_hidden:
  assumes m: "mail_ok (vis h st)" and h: "h = None \<or> h = Some c" and st': "heap_ok st'" "mboxes st' = mboxes st" "length (procs st') = length (procs st)"
    and other: "\<And>k. k < length (procs st) \<Longrightarrow> k \<noteq> c \<Longrightarrow> same_box (procs st ! k) (procs st' ! k)"
  shows "mail_ok (vis (Some c) st')"
proof -
  note M = mail_okD[OF m] and S = other[unfolded same_box_def]
  have al: "k < length (procs st) \<Longrightarrow> alive (hid (Some c) (procs st') ! k) \<Longrightarrow> k \<noteq> c \<and> alive (hid h (procs st) ! k)" for k
    using S[of k] st'(3) h by (auto simp: alive_hid)
  have "box_ok (vis (Some c) st') (procs (vis (Some c) st') ! k)" if "k < length (procs (vis (Some c) st'))" "alive (procs (vis (Some c) st') ! k)" for k
  proof -
    have k: "k < length (procs st)" "k \<noteq> c" "alive (hid h (procs st) ! k)" using that al[of k] st'(3) by auto
    have "box_ok (vis (Some c) st') (procs (vis (Some c) st') ! k) = box_ok (vis h st) (procs (vis h st) ! k)"
      by (rule box_ok_cong) (use k(1) S[OF k(1,2)] st' in \<open>simp_all add: vis_def\<close>)
    then show ?thesis using M(2)[of k] k by simp
  qed
  moreover have "p_mailbox (procs (vis (Some c) st') ! i) = 0" if "i < length (procs (vis (Some c) st'))" "j < length (procs (vis (Some c) st'))" "i \<noteq> j"
    "alive (procs (vis (Some c) st') ! i)" "alive (procs (vis (Some c) st') ! j)"
    "p_mailbox (procs (vis (Some c) st') ! i) = p_mailbox (procs (vis (Some c) st') ! j)" for i j
    using M(3)[of i j] that al[of i] al[of j] S[of i] S[of j] st'(3) by simp
  ultimately show ?thesis using st'(1) unfolding mail_ok_def heap_ok_vis by blast
qed

text \<open>A free slot of the table is taken.\<close>

lemma embryo_inv:
  assumes k: "kernel_inv None st" and c: "c < MAX_PROCESSES" "\<not> p_exists (procs st ! c)"
    and q: "p_prev q = None" "p_next q = None" "p_in_syscall q = 0" "\<not> p_receive_blocked q" "proc_ok c q"
  shows "kernel_inv (Some c) (st\<lparr>procs := (procs st)[c := q]\<rparr>)" (is "kernel_inv _ ?st")
proof -
  note K = kernel_invD[OF k] and len = kernel_inv_length[OF k]
  have dead: "\<not> alive (procs st ! c)" using c(2) by (simp add: alive_def)
  have at: "procs ?st ! c = q" using c(1) len by simp
  have cc: "current_process st \<noteq> Some c" using K(5)[of c] dead by (auto simp: live_def)
  have "wait_inv (Some c) ?st"
    by (rule wait_inv_one[OF K(4), where c = c]) (use q dead c len in \<open>auto simp: susp_def live_def readers_def SYSCALL_WAITPID_def\<close>)
  moreover have "mail_ok (vis (Some c) ?st)"
    by (rule mail_ok_hidden[OF K(3)]) (use K(6) heap_ok_cong[of ?st st] in \<open>auto simp: same_box_def\<close>)
  moreover have "pipes_ok ?st" by (rule pipes_ok_frame[OF K(2)]) simp_all
  moreover have "\<exists>rs ss. sched_inv (vis (Some c) ?st) rs ss"
  proof -
    obtain rs ss where s: "sched_inv st rs ss" using K(1) by auto
    have "sched_inv (vis (Some c) ?st) rs ss"
      by (rule sched_inv_dead[OF s, of _ c]) (use dead q c len in \<open>auto simp: hid_nth alive_def\<close>)
    then show ?thesis by blast
  qed
  moreover have "live (Some c) ?st i" if "current_process ?st = Some i" for i using K(5)[of i] that cc by (auto simp: live_def)
  ultimately show ?thesis unfolding kernel_inv_def by blast
qed

text \<open>The new process becomes ready.\<close>

lemma admit_inv:
  assumes k: "kernel_inv (Some c) st" and c: "c < MAX_PROCESSES" "alive (procs st ! c)" "p_mailbox (procs st ! c) = 0" "p_mailbox_size (procs st ! c) = 0"
      "p_in_syscall (procs st ! c) = 0"
    and e: "ready_add c (st\<lparr>procs := (procs st)[c := (procs st ! c)\<lparr>p_saved_regs := r, p_cwd := w, p_ready := True\<rparr>]\<rparr>) = Some st'"
  shows "kernel_inv None st'" "current_process st' = current_process st" "length (procs st') = length (procs st)"
    "j \<noteq> c \<Longrightarrow> j < MAX_PROCESSES \<Longrightarrow> unlink (procs st' ! j) = unlink (procs st ! j)"
proof -
  note K = kernel_invD[OF k] and len = kernel_inv_length[OF k]
  let ?q = "(procs st ! c)\<lparr>p_saved_regs := r, p_cwd := w, p_ready := True\<rparr>" let ?ps = "(procs st)[c := ?q]"
  obtain rs ss where s: "sched_inv (vis (Some c) st) rs ss" using K(1) by blast
  note D = sched_invD[OF s]
  have cl: "c < length (procs st)" using c(1) len by simp
  have lk: "p_prev ?q = None" "p_next ?q = None" using D(6)[of c] c(1) cl by (simp_all add: alive_hid)
  have q: "alive ?q" "p_ready ?q" using c(2) by (simp_all add: alive_def)
  define s1 where "s1 = st\<lparr>procs := ?ps\<rparr>"
  have v: "procs s1 = (procs (vis (Some c) st))[c := ?q]" "ready s1 = ready (vis (Some c) st)" "suspended s1 = suspended (vis (Some c) st)"
    by (simp_all add: s1_def vis_def hid_def)
  have na: "\<not> alive (procs (vis (Some c) st) ! c)" using cl by (simp add: vis_def alive_hid)
  obtain l pr nx where a: "ready_add c s1 = Some (s1\<lparr>ready := l, procs := set_links pr nx (procs s1)\<rparr>)"
    "sched_inv (s1\<lparr>ready := l, procs := set_links pr nx (procs s1)\<rparr>) (c # rs) ss"
    by (rule ready_add_new[OF s c(1) na q lk v])
  define ps where "ps = set_links pr nx ?ps"
  have st': "st' = st\<lparr>ready := l, procs := ps\<rparr>" using e a(1) by (simp add: ps_def s1_def)
  have lp: "length ps = length (procs st)" by (simp add: ps_def)
  have U: "unlink (ps ! j) = unlink (?ps ! j)" if "j < length (procs st)" for j
    using arg_cong[OF set_links_unlink[of pr nx ?ps], of "\<lambda>l. l ! j"] that lp by (simp add: ps_def)
  note Uc = unlinkD[OF U[OF cl]]
  show "current_process st' = current_process st" "length (procs st') = length (procs st)" by (simp_all add: st' lp)
  show O: "unlink (procs st' ! j) = unlink (procs st ! j)" if "j \<noteq> c" "j < MAX_PROCESSES" for j using U[of j] that len by (simp add: st')
  have al: "j < MAX_PROCESSES \<Longrightarrow> alive (ps ! j) \<longleftrightarrow> alive (hid (Some c) (procs st) ! j) \<or> j = c" for j
    using unlinkD(3)[OF U[of j]] c(2) cl len by (cases "j = c") (simp_all add: hid_nth alive_def)
  have rd: "j < MAX_PROCESSES \<Longrightarrow> p_ready (ps ! j) \<longleftrightarrow> p_ready (procs st ! j) \<or> j = c" for j
    using unlinkD(4)[OF U[of j]] cl len by (cases "j = c") simp_all
  have "sched_inv st' (c # rs) ss" using a(2) by (simp add: st' ps_def s1_def)
  moreover have p: "pipes_ok st'" by (rule pipes_ok_frame[OF K(2)]) (simp_all add: st')
  moreover have "mail_ok st'"
  proof -
    have sb: "same_box (procs st ! j) (ps ! j)" if "j < length (procs st)" for j
      using unlinkD(3,10-12)[OF U[OF that]] cl by (cases "j = c") (auto simp: same_box_def alive_def)
    have m: "mail_ok (vis (Some c) st')" by (rule mail_ok_same[OF K(3)]) (use p sb lp in \<open>simp_all add: st' pipes_ok_def\<close>)
    have z: "p_mailbox (ps ! c) = 0" "p_mailbox_size (ps ! c) = 0" using Uc(10,11) c(3,4) cl by simp_all
    have "box_ok st' (ps ! j)" if "j < length ps" "alive (ps ! j)" for j
    proof (cases "j = c")
      case False
      then have "box_ok (vis (Some c) st') (ps ! j)" using mail_okD(2)[OF m, of j] that by (simp add: st' alive_hid hid_nth)
      then show ?thesis using box_ok_cong[of "vis (Some c) st'" st' "ps ! j" "ps ! j"] by (simp add: vis_def)
    qed (simp add: box_ok_def z)
    moreover have "p_mailbox (ps ! i) = 0" if "i < length ps" "j < length ps" "i \<noteq> j" "alive (ps ! i)" "alive (ps ! j)" "p_mailbox (ps ! i) = p_mailbox (ps ! j)" for i j
      using mail_okD(3)[OF m, of i j] that z by (cases "i = c"; cases "j = c") (simp_all add: st' alive_hid hid_nth)
    ultimately show ?thesis using p unfolding mail_ok_def pipes_ok_def st' by simp
  qed
  moreover have "wait_inv None st'"
  proof (rule wait_inv_one[OF K(4), where c = c])
    have at: "procs st' ! c = ps ! c" by (simp add: st')
    have qc: "?ps ! c = ?q" using cl by simp
    show "\<not> susp None st' c" "\<not> susp (Some c) st c" using rd[OF c(1)] by (simp_all add: susp_def live_def st')
    have old: "\<not> susp (Some c) st c" by (simp add: susp_def live_def)
    show "\<not> p_receive_blocked (procs st' ! c)" using wait_invD(5)[OF K(4) c(1)] old Uc(9) qc at by auto
    show "proc_ok c (procs st' ! c)" using wait_invD(1)[OF K(4) c(1)] Uc(3,5,8,13) qc at by (simp add: proc_ok_def alive_def)
    show "p_in_syscall (procs st' ! c) = 0" "\<not> (p_in_syscall (procs st' ! c) = SYSCALL_WAITPID \<and> 0 \<le> p_waiting_on (procs st' ! c))"
      using Uc(6) qc c(5) at by (simp_all add: syscall_numbers)
    show "alive (procs st' ! c) \<and> p_parent_pid (procs st' ! c) = int j" if "p_parent_pid (procs st ! c) = int j" for j
      using that al[OF c(1)] Uc(8) qc at by simp
  qed (use O in \<open>auto simp: st' readers_def\<close>)
  moreover have "live None st' i" if "current_process st' = Some i" for i
    using K(5)[of i] that al[of i] len by (auto simp: live_def st' alive_hid)
  ultimately show "kernel_inv None st'" unfolding kernel_inv_def by auto
qed

end
