(* ===== verification/Invariant_Fork.thy ===== *)
theory Invariant_Fork
  imports Invariant_Life
begin

text \<open>fork, vfork, the first process and execve keep the invariant.\<close>

section \<open>Copying a process\<close>

lemma ret_kcore_bind:
  assumes "ret m (\<lambda>st1. kcore st1 = kcore st)" "\<And>st1. kcore st1 = kcore st \<Longrightarrow> ret (f st1) (\<lambda>st'. kcore st' = kcore st1)"
  shows "ret (Option.bind m f) (\<lambda>st'. kcore st' = kcore st)"
  using assms by (auto simp: ret_def bind_eq_Some_conv)

lemma same_new_child: "ret (new_child child pid p st) (\<lambda>st'. kcore st' = kcore st)"
proof (rule retI)
  fix st' assume "new_child child pid p st = Some st'"
  then obtain pdir st2 st3 st4 f d where s: "new_page (disable_paging st) = (pdir, st2)" "upd_proc child f st2 = Some st3" "\<And>p. pcore (f p) = pcore p"
    "on_pages (copy_space p pdir) st3 = Some st4" "st' = enable_paging d st4"
    by (auto simp: new_child_def bind_eq_Some_conv pcore_def alive_def split: prod.splits)
  show "kcore st' = kcore st"
    using same_new_page[OF s(1)] retD[OF same_upd_proc s(2)] s(3) retD[OF same_on_pages s(4)] s(5) by simp
qed

lemma same_share_fds: "ret (share_fds parent child st) (\<lambda>st'. kcore st' = kcore st)"
  unfolding share_fds_def
proof (rule ret_fold)
  fix fd and s :: kstate assume s: "kcore s = kcore st"
  have a: "ret (proc_fd_set child fd f s \<bind> (\<lambda>st1. get_fh st1 f \<bind> (\<lambda>fh. Some (set_fh f (fh\<lparr>refcount := refcount fh + 1\<rparr>) st1)))) (\<lambda>st'. kcore st' = kcore st)" for f
  proof (rule retI)
    fix st' assume "proc_fd_set child fd f s \<bind> (\<lambda>st1. get_fh st1 f \<bind> (\<lambda>fh. Some (set_fh f (fh\<lparr>refcount := refcount fh + 1\<rparr>) st1))) = Some st'"
    then obtain st1 fh where a: "proc_fd_set child fd f s = Some st1" "fhs st1 f = Some fh" "st' = set_fh f (fh\<lparr>refcount := refcount fh + 1\<rparr>) st1"
      by (auto simp: bind_eq_Some_conv get_fh_def)
    show "kcore st' = kcore st" using retD[OF same_proc_fd_set a(1)] kcore_set_fh[of st1 f] a(2,3) s by simp
  qed
  show "ret (get_proc s parent \<bind> (\<lambda>p. list_get (p_filedesc p) fd \<bind> (\<lambda>f. if f \<noteq> 0 then proc_fd_set child fd f s \<bind>
     (\<lambda>st1. get_fh st1 f \<bind> (\<lambda>fh. Some (set_fh f (fh\<lparr>refcount := refcount fh + 1\<rparr>) st1))) else Some s))) (\<lambda>st'. kcore st' = kcore st)"
    by (rule ret_bind_any, rule ret_bind_any, rule ret_if, rule a, simp add: s)
qed simp

lemma free_pid_slot:
  assumes "length (procs st) = MAX_PROCESSES" "get_free_pid st = Some pid" "\<not> pid < 0"
  shows "nat pid < MAX_PROCESSES" "\<not> p_exists (procs st ! nat pid)" "int (nat pid) = pid"
proof -
  obtain k where "free_pid_loop (procs st) 1 = Some k" "k < MAX_PROCESSES \<longrightarrow> \<not> p_exists (procs st ! k)"
    using free_pid_loop_ok[OF assms(1), of 1] by (auto simp: MAX_PROCESSES_def)
  then show "nat pid < MAX_PROCESSES" "\<not> p_exists (procs st ! nat pid)" "int (nat pid) = pid"
    using assms(2,3) by (auto simp: get_free_pid_def split: if_splits)
qed

text \<open>A new process from its slot to the ready list, with everything between that does not touch the lists.\<close>

lemma birth_inv:
  assumes k: "kernel_inv None st" and c: "c < MAX_PROCESSES" "\<not> p_exists (procs st ! c)"
    and q: "q = zero_process\<lparr>p_pid := int c, p_parent_pid := x, p_exists := True\<rparr>" "- 1 \<le> x" "x < int MAX_PROCESSES"
    and st1: "st1 = st\<lparr>procs := (procs st)[c := q]\<rparr>" and s3: "kcore st3 = kcore st1"
    and e: "ready_add c (st3\<lparr>procs := (procs st3)[c := (procs st3 ! c)\<lparr>p_saved_regs := r, p_cwd := w, p_ready := True\<rparr>]\<rparr>) = Some st'"
  shows "kernel_inv None st'" "current_process st' = current_process st"
    "j \<noteq> c \<Longrightarrow> j < MAX_PROCESSES \<Longrightarrow> p_ready (procs st' ! j) = p_ready (procs st ! j) \<and> p_in_syscall (procs st' ! j) = p_in_syscall (procs st ! j)"
proof -
  have len: "length (procs st) = MAX_PROCESSES" by (rule kernel_inv_length[OF k])
  have k1: "kernel_inv (Some c) st1"
    unfolding st1 by (rule embryo_inv[OF k c]) (use q c in \<open>auto simp: zero_process_def proc_ok_def MAX_FDS_def\<close>)
  have k3: "kernel_inv (Some c) st3" by (rule kernel_inv_cong[OF s3 k1])
  have "procs st1 ! c = q" using c(1) len by (simp add: st1)
  then have at: "alive (procs st3 ! c)" "p_mailbox (procs st3 ! c) = 0" "p_mailbox_size (procs st3 ! c) = 0" "p_in_syscall (procs st3 ! c) = 0"
    using pcoreD(1,6,10,11)[OF kcoreD(2)[OF s3, of c]] c(1) len q(1) by (simp_all add: st1 alive_def zero_process_def)
  note A = admit_inv[OF k3 c(1) at e]
  show "kernel_inv None st'" "current_process st' = current_process st" using A(1,2) kcoreD(3)[OF s3] by (simp_all add: st1)
  show "p_ready (procs st' ! j) = p_ready (procs st ! j) \<and> p_in_syscall (procs st' ! j) = p_in_syscall (procs st ! j)" if "j \<noteq> c" "j < MAX_PROCESSES"
    using unlinkD(4,6)[OF A(4)[OF that]] pcoreD(2,6)[OF kcoreD(2)[OF s3, of j]] that len by (simp add: st1)
qed

lemma parent_range:
  assumes "in_call i n st" shows "- 1 \<le> p_pid (procs st ! i)" "p_pid (procs st ! i) < int MAX_PROCESSES"
  using in_callD(8,10)[OF assms] by simp_all

lemma fork_leaves:
  assumes c: "in_call i n st" and n: "n \<noteq> SYSCALL_WAITPID"
  shows "leaves i n (syscall_fork r st)"
proof (rule retI)
  fix x assume e: "syscall_fork r st = Some x"
  note C = in_callD[OF c] and len = kernel_inv_length[OF in_callD(1)[OF c]]
  obtain pid where pid: "get_free_pid st = Some pid" using e by (auto simp: syscall_fork_def bind_eq_Some_conv)
  show "case x of (res, st') \<Rightarrow> left_call i n res st'"
  proof (cases "pid < 0")
    case True
    then show ?thesis using e pid left_callI[OF c] n by (auto simp: syscall_fork_def)
  next
    case False
    note S = free_pid_slot[OF len pid False]
    let ?c = "nat pid" let ?q = "zero_process\<lparr>p_pid := int ?c, p_parent_pid := p_pid (procs st ! i), p_exists := True\<rparr>"
    let ?st1 = "st\<lparr>procs := (procs st)[?c := ?q]\<rparr>"
    have u: "upd_proc ?c (\<lambda>_. zero_process\<lparr>p_pid := pid, p_parent_pid := p_pid (procs st ! i), p_exists := True\<rparr>) st = Some ?st1"
      using S(1,3) len by (simp add: upd_proc_ok)
    obtain st2 st3 st4 st5 w where s: "new_child ?c pid (procs st ! i) ?st1 = Some st2" "share_fds i ?c st2 = Some st3"
      "upd_proc ?c (\<lambda>q. q\<lparr>p_saved_regs := r\<lparr>r_eax := 0\<rparr>, p_cwd := w, p_ready := True\<rparr>) st3 = Some st4" "ready_add ?c st4 = Some st5" "x = (pid, st5)"
      using e pid False C(2,7) u by (auto simp: syscall_fork_def get_proc_def Let_def bind_eq_Some_conv)
    have s3: "kcore st3 = kcore ?st1" using retD[OF same_new_child s(1)] retD[OF same_share_fds s(2)] by simp
    have "?c < length (procs st3)" using kcoreD(1)[OF s3] S(1) len by simp
    then have e5: "ready_add ?c (st3\<lparr>procs := (procs st3)[?c := (procs st3 ! ?c)\<lparr>p_saved_regs := r\<lparr>r_eax := 0\<rparr>, p_cwd := w, p_ready := True\<rparr>]\<rparr>) = Some st5"
      using s(3,4) by (simp add: upd_proc_ok)
    note B = birth_inv[OF C(1) S(1,2) refl parent_range[OF c] refl s3 e5]
    have "i \<noteq> ?c" using C(9) S(2) by (auto simp: alive_def)
    then have "in_call i n st5" using B(1,2) B(3)[of i] C by (simp add: in_call_def)
    then show ?thesis using s(5) left_callI n by simp
  qed
qed

lemma vfork_leaves:
  assumes c: "in_call i n st" and n: "n \<noteq> SYSCALL_WAITPID"
  shows "leaves i n (syscall_vfork r st)"
proof (rule retI)
  fix x assume e: "syscall_vfork r st = Some x"
  note C = in_callD[OF c] and len = kernel_inv_length[OF in_callD(1)[OF c]]
  obtain pid where pid: "get_free_pid st = Some pid" using e by (auto simp: syscall_vfork_def bind_eq_Some_conv)
  show "case x of (res, st') \<Rightarrow> left_call i n res st'"
  proof (cases "pid < 0")
    case True
    then show ?thesis using e pid left_callI[OF c] n by (auto simp: syscall_vfork_def)
  next
    case False
    note S = free_pid_slot[OF len pid False]
    let ?c = "nat pid" let ?q = "zero_process\<lparr>p_pid := int ?c, p_parent_pid := p_pid (procs st ! i), p_exists := True\<rparr>"
    have ne: "i \<noteq> ?c" using C(9) S(2) by (auto simp: alive_def)
    let ?p = "(procs st ! i)\<lparr>p_waiting_on := - 1\<rparr>"
    let ?st0 = "st\<lparr>procs := (procs st)[i := ?p]\<rparr>"
    let ?st1 = "?st0\<lparr>procs := (procs ?st0)[?c := ?q]\<rparr>"
    have c0: "in_call i n ?st0" using retD[OF call_waiting[OF c, of "- 1"]] C(7) by (simp add: upd_proc_ok)
    note C0 = in_callD[OF c0]
    have u: "upd_proc ?c (\<lambda>_. zero_process\<lparr>p_pid := pid, p_parent_pid := p_pid (procs st ! i), p_exists := True\<rparr>) st = Some (st\<lparr>procs := (procs st)[?c := ?q]\<rparr>)"
      "upd_proc i (\<lambda>p. p\<lparr>p_waiting_on := - 1\<rparr>) (st\<lparr>procs := (procs st)[?c := ?q]\<rparr>) = Some ?st1"
      using S(1,3) len C(7) ne by (simp_all add: upd_proc_ok list_update_swap)
    obtain st2 st3 st4 st5 st6 q5 p5 where s: "new_child ?c pid (procs st ! i) ?st1 = Some st2" "share_fds i ?c st2 = Some st3"
      "upd_proc ?c (\<lambda>q. q\<lparr>p_saved_regs := r\<lparr>r_eax := 0\<rparr>, p_ready := True\<rparr>) st3 = Some st4" "ready_add ?c st4 = Some st5"
      "vfork_debug q5 p5 st5 = Some st6" "x = (pid, st6)"
      using e pid False C(2,7) u by (auto simp: syscall_vfork_def get_proc_def Let_def bind_eq_Some_conv)
    have s3: "kcore st3 = kcore ?st1" using retD[OF same_new_child s(1)] retD[OF same_share_fds s(2)] by simp
    have "?c < length (procs st3)" using kcoreD(1)[OF s3] S(1) len by simp
    then have e5: "ready_add ?c (st3\<lparr>procs := (procs st3)[?c := (procs st3 ! ?c)\<lparr>p_saved_regs := r\<lparr>r_eax := 0\<rparr>, p_cwd := p_cwd (procs st3 ! ?c), p_ready := True\<rparr>]\<rparr>) = Some st5"
      using s(3,4) by (simp add: upd_proc_ok)
    have S0: "\<not> p_exists (procs ?st0 ! ?c)" using S(2) ne by simp
    note B = birth_inv[OF C0(1) S(1) S0 refl parent_range[OF c] refl s3 e5]
    have "in_call i n st5" using B(1,2) B(3)[of i] C0 ne by (simp add: in_call_def)
    moreover have "kcore st6 = kcore st5"
      by (rule retD[OF _ s(5)]) (unfold vfork_debug_def Let_def, (rule ret_kcore_bind same_kprintf)+)
    ultimately show ?thesis using s(6) left_callI n in_call_cong by simp
  qed
qed

section \<open>The first process\<close>

lemma kernel_inv_same_ret: "kernel_inv h st \<Longrightarrow> ret m (\<lambda>st'. kcore st' = kcore st) \<Longrightarrow> ret m (kernel_inv h)"
  by (auto simp: ret_def intro: kernel_inv_cong)

text \<open>What \<open>start_process\<close> keeps of the new process while it gives it pages and handles.\<close>

definition unborn :: "nat \<Rightarrow> kstate \<Rightarrow> bool" where
  "unborn c st \<longleftrightarrow> kernel_inv (Some c) st \<and> current_process st = None \<and> alive (procs st ! c) \<and> p_mailbox (procs st ! c) = 0 \<and>
     p_mailbox_size (procs st ! c) = 0 \<and> p_in_syscall (procs st ! c) = 0"

lemma unborn_cong:
  assumes "unborn c st" "c < MAX_PROCESSES" "kcore st' = kcore st" shows "unborn c st'"
proof -
  have k: "kernel_inv (Some c) st" using assms(1) by (simp add: unborn_def)
  have "c < length (procs st)" using assms(2) kernel_inv_length[OF k] by simp
  then show ?thesis using assms(1) kernel_inv_cong[OF assms(3) k] kcoreD(3)[OF assms(3)] pcoreD(1,6,10,11)[OF kcoreD(2)[OF assms(3)]]
    by (simp add: unborn_def)
qed

lemma unborn_procs: "unborn c st \<Longrightarrow> kernel_inv (Some c) st' \<Longrightarrow> same_procs st st' \<Longrightarrow> unborn c st'"
  by (simp add: unborn_def same_procs_def)

lemma unborn_same: "unborn c st \<Longrightarrow> c < MAX_PROCESSES \<Longrightarrow> ret m (\<lambda>st'. kcore st' = kcore st) \<Longrightarrow> ret m (unborn c)"
  by (auto simp: ret_def intro: unborn_cong)

lemma unborn_pipe: "unborn c st \<Longrightarrow> ret (new_pipe st) (\<lambda>(p, st'). unborn c st')"
  using new_pipe_inv[of "Some c" st] unborn_procs[of c st] by (fastforce simp: ret_def unborn_def)

lemma unborn_handle: "unborn c st \<Longrightarrow> ret (knew m st) (\<lambda>(f, st'). unborn c (set_fh f x st'))"
  using new_handle_inv[of "Some c" st m x] unborn_procs[of c st] by (fastforce simp: ret_def unborn_def)

lemma unborn_reader: "unborn c st \<Longrightarrow> ret (new_pipe_reader p st) (\<lambda>(f, st'). unborn c st')"
  unfolding new_pipe_reader_def by (rule ret_bind_pair[OF unborn_handle]) simp_all

lemma unborn_screen: "unborn c st \<Longrightarrow> ret (new_screen_handle st) (\<lambda>(f, st'). unborn c st')"
  unfolding new_screen_handle_def by (rule ret_bind_pair[OF unborn_handle]) simp_all

lemma kcore_upd_at:
  assumes "kcore s = kcore s'" "pcore p = pcore q"
  shows "kcore (s\<lparr>procs := (procs s)[c := p]\<rparr>) = kcore (s'\<lparr>procs := (procs s')[c := q]\<rparr>)"
  using assms by (simp add: kcore_def map_update)

text \<open>The last steps of \<open>start_process\<close>.\<close>

lemma unborn_ready:
  assumes b: "unborn c st" and c: "c < MAX_PROCESSES"
  shows "ret (do { st1 \<leftarrow> upd_proc c (\<lambda>p. p\<lparr>p_cwd := cwd, p_saved_regs := init_regs (p_stack_end p) sa, p_ready := True\<rparr>) st;
        st2 \<leftarrow> ready_add c st1; Some (pid, st2) }) (\<lambda>(pid, st'). kernel_inv None st' \<and> current_process st' = None)"
proof (rule retI)
  fix y assume y: "do { st1 \<leftarrow> upd_proc c (\<lambda>p. p\<lparr>p_cwd := cwd, p_saved_regs := init_regs (p_stack_end p) sa, p_ready := True\<rparr>) st;
        st2 \<leftarrow> ready_add c st1; Some (pid, st2) } = Some y"
  have k: "kernel_inv (Some c) st" using b by (simp add: unborn_def)
  have cl: "c < length (procs st)" using c kernel_inv_length[OF k] by simp
  have sw: "p\<lparr>p_cwd := cwd, p_saved_regs := r, p_ready := True\<rparr> = p\<lparr>p_saved_regs := r, p_cwd := cwd, p_ready := True\<rparr>" for p :: process and r by simp
  obtain st' where a: "ready_add c (st\<lparr>procs := (procs st)[c := (procs st ! c)\<lparr>p_saved_regs := init_regs (p_stack_end (procs st ! c)) sa,
      p_cwd := cwd, p_ready := True\<rparr>]\<rparr>) = Some st'" "y = (pid, st')"
    using y cl by (auto simp: upd_proc_ok bind_eq_Some_conv sw)
  show "case y of (pid, st') \<Rightarrow> kernel_inv None st' \<and> current_process st' = None"
    using admit_inv(1,2)[OF k c _ _ _ _ a(1)] b a(2) by (simp add: unborn_def)
qed

lemma start_process_inv:
  assumes k: "kernel_inv None st" and none: "current_process st = None"
  shows "ret (start_process cs ce sa st) (\<lambda>(pid, st'). kernel_inv None st' \<and> current_process st' = None)"
proof -
  note len = kernel_inv_length[OF k]
  have later: "ret (start_process cs ce sa st) (\<lambda>(pid, st'). kernel_inv None st' \<and> current_process st' = None)"
    if pid: "get_free_pid st = Some pid" "\<not> pid < 0" for pid
  proof -
    note S = free_pid_slot[OF len pid]
    let ?c = "nat pid"
    let ?q = "zero_process\<lparr>p_pid := pid, p_exists := True, p_stack_start := PROCESS_STACK_BASE - PROCESS_STACK_SIZE, p_stack_end := PROCESS_STACK_BASE\<rparr>"
    let ?f = "\<lambda>p. p\<lparr>p_data_start := PROCESS_DATA_BASE, p_data_end := PROCESS_DATA_BASE, p_text_start := PROCESS_TEXT_BASE,
         p_text_end := PROCESS_TEXT_BASE, p_parent_pid := - 1, p_waiting_on := - 1, p_exit_status := 255\<rparr>"
    let ?st1 = "st\<lparr>procs := (procs st)[?c := ?q]\<rparr>"
    have cl: "?c < length (procs st)" using S(1) len by simp
    have u: "upd_proc ?c (\<lambda>_. ?q) st = Some ?st1" using cl by (simp add: upd_proc_ok)
    obtain pdir st2 where np: "new_page ?st1 = (pdir, st2)" by fastforce
    have s2: "kcore st2 = kcore ?st1" by (rule same_new_page[OF np])
    have set: "unborn ?c st7" if s7: "upd_proc ?c ?f st6 = Some st7" and s6: "kcore st6 = kcore ?st1" for st6 st7
    proof -
      have st7: "st7 = st6\<lparr>procs := (procs st6)[?c := ?f (procs st6 ! ?c)]\<rparr>" using s7 kcoreD(1)[OF s6] cl by (simp add: upd_proc_ok)
      have "pcore (procs st6 ! ?c) = pcore ?q" using kcoreD(2)[OF s6, of ?c] cl by simp
      then have p: "pcore (?f (procs st6 ! ?c)) = pcore (?f ?q)" by (simp add: pcore_def alive_def)
      have "kcore st7 = kcore (?st1\<lparr>procs := (procs ?st1)[?c := ?f ?q]\<rparr>)" unfolding st7 by (rule kcore_upd_at[OF s6 p])
      then have s: "kcore st7 = kcore (st\<lparr>procs := (procs st)[?c := ?f ?q]\<rparr>)" by simp
      have "kernel_inv (Some ?c) (st\<lparr>procs := (procs st)[?c := ?f ?q]\<rparr>)"
        by (rule embryo_inv[OF k S(1,2)]) (use S(3) in \<open>auto simp: zero_process_def proc_ok_def MAX_FDS_def\<close>)
      then have "unborn ?c (st\<lparr>procs := (procs st)[?c := ?f ?q]\<rparr>)" using cl none by (simp add: unborn_def alive_def zero_process_def)
      then show ?thesis by (rule unborn_cong[OF _ S(1) s])
    qed
    have same: "ret m (\<lambda>s'. kcore s' = kcore ?st1)" if "kcore s = kcore ?st1" "ret m (\<lambda>s'. kcore s' = kcore s)" for m s using that by simp
    note rules = unborn_ready[OF _ S(1)] ret_bind_pair[OF unborn_pipe] ret_bind_pair[OF unborn_reader] ret_bind_pair[OF unborn_screen]
      ret_bind[OF unborn_same[OF _ S(1) same_proc_fd_set]] ret_bind[OF same[OF _ same_on_pages]]
    have pd: "pcore (p\<lparr>p_pdir := d\<rparr>) = pcore p" for p d by (simp add: pcore_def alive_def)
    show ?thesis
      unfolding start_process_def pid(1) bind.bind_lunit if_not_P[OF pid(2)] Let_def u np prod.case
      by (assumption | rule rules ret_bind[OF same[OF s2 same_upd_proc[OF pd]]] ret_bind_any_pair ret_bind_any set)+
  qed
  show ?thesis
  proof (rule retI)
    fix x assume e: "start_process cs ce sa st = Some x"
    obtain pid where pid: "get_free_pid st = Some pid" using e by (auto simp: start_process_def bind_eq_Some_conv)
    show "case x of (pid, st') \<Rightarrow> kernel_inv None st' \<and> current_process st' = None"
      using later[OF pid] retD[OF _ e] e pid k none by (cases "pid < 0") (auto simp: start_process_def)
  qed
qed

end
