(* ===== verification/Invariant_Exec.thy ===== *)
theory Invariant_Exec
  imports Invariant_Fork
begin

text \<open>execve keeps the invariant: the buffer of the arguments lives in the kernel heap until the new program is loaded.\<close>

definition argbuf :: "nat \<Rightarrow> u32 \<Rightarrow> u32 \<Rightarrow> kstate \<Rightarrow> bool" where
  "argbuf i n a st \<longleftrightarrow> in_call i n st \<and> a \<in> dom (bufs st) \<and> (\<forall>p b. pipes st p = Some b \<longrightarrow> pb_data b \<noteq> a)"

lemma argbuf_cong: "argbuf i n a st \<Longrightarrow> kcore st' = kcore st \<Longrightarrow> argbuf i n a st'"
  using in_call_cong[of st' st i n] kcoreD(7,8)[of st' st] by (simp add: argbuf_def)

lemma argbuf_same: "argbuf i n a st \<Longrightarrow> ret m (\<lambda>st'. kcore st' = kcore st) \<Longrightarrow> ret m (argbuf i n a)"
  by (auto simp: ret_def intro: argbuf_cong)

lemma argbuf_new:
  assumes c: "in_call i n st"
  shows "ret (new_buf m st) (\<lambda>(a, st'). argbuf i n a st')"
proof (rule retI, clarify)
  fix a st' assume e: "new_buf m st = Some (a, st')"
  have k: "kernel_inv None st'" "same_procs st st'" "\<forall>q b. pipes st q = Some b \<longrightarrow> pb_data b \<noteq> a"
    using retD[OF new_buf_inv[OF in_callD(1)[OF c]] e] by simp_all
  have "a \<in> dom (bufs st')" "pipes st' = pipes st" using e by (auto simp: new_buf_def knew_def bind_eq_Some_conv)
  then show "argbuf i n a st'" using in_call_procs[OF c k(1,2)] k(3) by (simp add: argbuf_def)
qed

lemma argbuf_store:
  assumes a: "argbuf i n a st"
  shows "ret (buf_store q off bs st) (argbuf i n a)"
proof (rule retI)
  fix st' assume e: "buf_store q off bs st = Some st'"
  have c: "in_call i n st" using a by (simp add: argbuf_def)
  have k: "kernel_inv None st'" "same_procs st st'" "pipes st' = pipes st" using retD[OF buf_store_inv[OF in_callD(1)[OF c]] e] by simp_all
  have "dom (bufs st) \<subseteq> dom (bufs st')" using e by (auto simp: buf_store_def bind_eq_Some_conv)
  then show "argbuf i n a st'" using a in_call_procs[OF c k(1,2)] k(3) by (auto simp: argbuf_def)
qed

lemma argbuf_copy:
  assumes a: "argbuf i n a st"
  shows "ret (copy_args argv argc a sz st) (argbuf i n a)"
  unfolding copy_args_def ret_simps Let_def
proof (rule ret_fold)
  show "argbuf i n a (snd (sz, st))" using a by simp
next
  fix argno and s :: "u32 \<times> kstate" assume s: "argbuf i n a (snd s)"
  obtain pos s1 where p: "s = (pos, s1)" by (cases s)
  have s1: "argbuf i n a s1" using s by (simp add: p)
  show "ret (case s of (pos, st) \<Rightarrow> ptr_word st (argv + of_nat argno * 4) \<bind> (\<lambda>b. strlen (mem_ptr (rd8 st) b) \<bind> (\<lambda>m.
      read_bytes st b (unat (of_nat m + 1 :: u32)) \<bind> (\<lambda>bs. buf_store a (unat (pos - (of_nat m + 1))) bs st \<bind> (\<lambda>st1.
      buf_store a (8 + argno * 4) (bytes32 (PROCESS_STACK_BASE - sz + (pos - (of_nat m + 1)))) st1 \<bind> (\<lambda>st2. Some (pos - (of_nat m + 1), st2)))))))
     (\<lambda>x. argbuf i n a (snd x))"
    unfolding p prod.case
    by (assumption | rule s1 ret_bind[OF argbuf_store] ret_bind_any ret_Some | simp only: snd_conv)+
qed

text \<open>Loading the program changes pages and the bounds of the text only.\<close>

lemma same_load_text:
  assumes "load_text i entry td pos st = Some y" shows "kcore (snd y) = kcore st"
  using assms
proof (induction rule: load_text.raw_induct[rotated, consumes 1, case_names step])
  case (step load i entry td pos st y)
  obtain sz where sz: "ent_size (rd8 st) entry = Some sz" using step.hyps by (auto simp: bind_eq_Some_conv)
  show ?case
  proof (cases "pos < sz")
    case True
    obtain te st1 m st4 pd where s: "upd_proc i (p_text_end_update (\<lambda>_. te)) st = Some st1"
      "on_pages (map_page pd te (fst (new_page st1)) PAGE_USER PAGE_READ_WRITE) ((snd (new_page st1))\<lparr>pgs := m\<rparr>) = Some st4"
      "load i entry td (pos + PAGE_SIZE) st4 = Some y"
      using step.hyps sz True by (auto simp: bind_eq_Some_conv Let_def case_prod_beta)
    have "pcore (p_text_end_update (\<lambda>_. te) p) = pcore p" for p by (simp add: pcore_def alive_def)
    then have "kcore st1 = kcore st" using retD[OF same_upd_proc s(1)] by blast
    then show ?thesis using same_new_page[OF prod.collapse[symmetric], of st1] retD[OF same_on_pages s(2)] step.IH[OF s(3)] by simp
  qed (use step.hyps sz in auto)
qed

lemma exec_replace_call:
  assumes a: "argbuf i n a st"
  shows "ret (exec_replace i entry a sz st) (\<lambda>(r, st'). in_call i n st')"
proof -
  have del: "ret (kdelete a s) (in_call i n)" if "argbuf i n a s" for s
  proof -
    have c: "in_call i n s" "a \<in> dom (bufs s)" "\<And>p b. pipes s p = Some b \<Longrightarrow> pb_data b \<noteq> a" using that by (auto simp: argbuf_def)
    have "ret (kdelete a s) (\<lambda>s'. kernel_inv None s' \<and> same_procs s s')" by (rule delete_object_inv[OF in_callD(1)[OF c(1)]]) (use c in auto)
    then show ?thesis by (rule ret_mono) (use in_call_procs[OF c(1)] in blast)
  qed
  have lt: "ret (load_text i entry t 0 s) (\<lambda>(pos, s'). argbuf i n a s')" if "argbuf i n a s" for t s
    by (rule retI) (use that same_load_text in \<open>auto intro: argbuf_cong\<close>)
  have on: "ret (on_pages g s) (argbuf i n a)" if "argbuf i n a s" for g s by (rule argbuf_same[OF that same_on_pages])
  have up: "ret (upd_proc i (\<lambda>p. p\<lparr>p_text_start := w, p_text_end := x, p_data_start := y, p_data_end := z\<rparr>) s) (argbuf i n a)"
    "ret (upd_proc i (\<lambda>p. p\<lparr>p_text_end := p_text_start p + w\<rparr>) s) (argbuf i n a)" if "argbuf i n a s" for s w x y z
    by (rule argbuf_same[OF that same_upd_proc], simp add: pcore_def alive_def)+
  have wr: "ret (write_bytes b bs s) (argbuf i n a)" if "argbuf i n a s" for b bs s by (rule argbuf_same[OF that same_write_bytes])
  have pg: "argbuf i n a (disable_paging s)" "argbuf i n a (enable_paging d s)" if "argbuf i n a s" for d s
    by (rule argbuf_cong[OF that], simp)+
  have out: "ret (Some (x, s)) (\<lambda>(r, st'). in_call i n st')" if "in_call i n s" for x :: regs and s using that by simp
  show ?thesis unfolding exec_replace_def Let_def
    by (assumption | rule a pg out ret_bind[OF on] ret_bind[OF up(1)] ret_bind[OF up(2)] ret_bind[OF wr] ret_bind[OF del] ret_bind_pair[OF lt] ret_bind_any)+
qed

lemma execve_leaves:
  assumes c: "in_call i n st" and n: "n \<noteq> SYSCALL_WAITPID" and i: "current_process st = Some i"
  shows "ret (syscall_execve f argv r st) (\<lambda>(res, r', st'). left_call i n res st' \<and> (res = - ESUSPEND \<longrightarrow> r' = r))"
proof -
  let ?Q = "\<lambda>(res, r', st'). left_call i n res st' \<and> (res = - ESUSPEND \<longrightarrow> r' = r)"
  have stay: "ret (Some (res, r, s)) ?Q" if "in_call i n s" for res s using left_callI[OF that] n by simp
  have fin: "ret (Some (0, r', s)) ?Q" if "in_call i n s" for r' s using left_callI[OF that] n by (simp add: ESUSPEND_def)
  show ?thesis unfolding syscall_execve_def i bind.bind_lunit Let_def
    by (assumption | rule c stay fin ret_if ret_bind_pair[OF argbuf_new[OF c]] ret_bind[OF argbuf_copy] ret_bind[OF argbuf_store]
      ret_bind_pair[OF exec_replace_call] ret_bind_any_pair ret_bind_any)+
qed

end
