(* ===== verification/Invariant_Kill.thy ===== *)
theory Invariant_Kill
  imports Invariant_Exec
begin

text \<open>
  The end of the running process, by exit or by a page fault. From the moment it leaves the ready
  list until it is dead it is the hidden process.
\<close>

section \<open>Leaving the ready list\<close>

lemma leave_ready_sched:
  assumes s: "sched_inv st rs ss" and i: "i \<in> set rs" and e: "ready_remove i st = Some st'"
  shows "sched_inv (vis (Some i) st') (remove1 i rs) ss" "map unlink (procs st') = map unlink (procs st)"
    "st' = st\<lparr>ready := ready st', procs := procs st'\<rparr>"
proof -
  note D = sched_invD[OF s]
  obtain l pr nx where a: "list_remove (ready st) i (procs st) = Some (l, set_links pr nx (procs st))" "dlist (set_links pr nx (procs st)) l (remove1 i rs)"
    "pr i = None" "nx i = None" "\<forall>j. j \<notin> set rs \<longrightarrow> pr j = prevs (procs st) j \<and> nx j = nexts (procs st) j" by (rule list_remove_ok[OF D(2) i])
  let ?ps = "set_links pr nx (procs st)"
  have st': "st' = st\<lparr>ready := l, procs := ?ps\<rparr>" using e a(1) by (simp add: ready_remove_def)
  show "map unlink (procs st') = map unlink (procs st)" by (simp add: st' set_links_unlink)
  show "st' = st\<lparr>ready := ready st', procs := procs st'\<rparr>" by (simp add: st')
  have im: "i < MAX_PROCESSES" "p_ready (procs st ! i)" "i \<notin> set ss" using i D(4,5)[of i] by auto
  have dr: "distinct rs" using D(2) by (simp add: dlist_def)
  have lk: "p_prev (hid (Some i) ?ps ! x) = pr x" "p_next (hid (Some i) ?ps ! x) = nx x" "alive (hid (Some i) ?ps ! x) \<longleftrightarrow> x \<noteq> i \<and> alive (procs st ! x)"
    "p_ready (hid (Some i) ?ps ! x) = p_ready (procs st ! x)" if "x < MAX_PROCESSES" for x
    using that D(1) by (simp_all add: alive_hid) auto
  have old: "pr x = p_prev (procs st ! x) \<and> nx x = p_next (procs st ! x)" if "x \<notin> set rs" for x using a(5) that by (simp add: prevs_def nexts_def)
  have "x < MAX_PROCESSES" if "x \<in> set (remove1 i rs)" for x using that D(4)[of x] set_remove1_subset[of i rs] by blast
  then have "dlist (hid (Some i) ?ps) l (remove1 i rs)"
    by (intro dlist_same_links[OF a(2)]) (use D(1) in auto)
  moreover have "dlist (hid (Some i) ?ps) (suspended st) ss"
  proof (rule dlist_same_links[OF D(3)])
    show "\<forall>x \<in> set ss. p_prev (hid (Some i) ?ps ! x) = p_prev (procs st ! x) \<and> p_next (hid (Some i) ?ps ! x) = p_next (procs st ! x)"
    proof
      fix x assume "x \<in> set ss"
      then have "x < MAX_PROCESSES" "x \<notin> set rs" using D(4,5)[of x] by auto
      then show "p_prev (hid (Some i) ?ps ! x) = p_prev (procs st ! x) \<and> p_next (hid (Some i) ?ps ! x) = p_next (procs st ! x)" using lk(1,2)[of x] old[of x] by simp
    qed
  qed (simp add: set_links_def)
  moreover have "x \<in> set (remove1 i rs) \<longleftrightarrow> x < MAX_PROCESSES \<and> alive (hid (Some i) ?ps ! x) \<and> p_ready (hid (Some i) ?ps ! x)" for x
    using D(4)[of x] lk(3,4)[of x] dr by (auto simp: set_remove1_eq)
  then have "set (remove1 i rs) = {x. x < MAX_PROCESSES \<and> alive (hid (Some i) ?ps ! x) \<and> p_ready (hid (Some i) ?ps ! x)}" by blast
  moreover have "x \<in> set ss \<longleftrightarrow> x < MAX_PROCESSES \<and> alive (hid (Some i) ?ps ! x) \<and> \<not> p_ready (hid (Some i) ?ps ! x)" for x
    using D(5)[of x] lk(3,4)[of x] im by auto
  then have "set ss = {x. x < MAX_PROCESSES \<and> alive (hid (Some i) ?ps ! x) \<and> \<not> p_ready (hid (Some i) ?ps ! x)}" by blast
  moreover have "p_prev (hid (Some i) ?ps ! x) = None \<and> p_next (hid (Some i) ?ps ! x) = None" if "x < MAX_PROCESSES" "\<not> alive (hid (Some i) ?ps ! x)" for x
    using lk[OF that(1)] that a(3,4) old[of x] D(4)[of x] D(6)[of x] by (cases "x = i") auto
  ultimately show "sched_inv (vis (Some i) st') (remove1 i rs) ss" using D(1) by (simp add: sched_inv_def st')
qed

lemma hide_inv:
  assumes k: "kernel_inv None st" and i: "current_process st = Some i" "p_ready (procs st ! i)" "p_in_syscall (procs st ! i) \<noteq> SYSCALL_WAITPID"
    and e: "ready_remove i (st\<lparr>paging := None, current_process := None\<rparr>) = Some st'"
  shows "kernel_inv (Some i) st'" "current_process st' = None" "mboxes st' = mboxes st" "length (procs st') = length (procs st)"
    "k < length (procs st) \<Longrightarrow> unlink (procs st' ! k) = unlink (procs st ! k)"
proof -
  note K = kernel_invD[OF k] and len = kernel_inv_length[OF k]
  let ?st = "st\<lparr>paging := None, current_process := None\<rparr>"
  obtain rs ss where s: "sched_inv st rs ss" using K(1) by auto
  have li: "live None st i" using K(5)[OF i(1)] .
  have im: "i < MAX_PROCESSES" "alive (procs st ! i)" using li by (simp_all add: live_def)
  have s1: "sched_inv ?st rs ss" by (rule sched_inv_same[OF s]) simp_all
  have irs: "i \<in> set rs" using sched_invD(4)[OF s, of i] im i(2) by simp
  note L = leave_ready_sched[OF s1 irs e]
  show len': "length (procs st') = length (procs st)" using arg_cong[OF L(2), of length] by simp
  have U: "unlink (procs st' ! k) = unlink (procs st ! k)" if "k < length (procs st)" for k
    using arg_cong[OF L(2), of "\<lambda>l. l ! k"] that len' by simp
  then show "k < length (procs st) \<Longrightarrow> unlink (procs st' ! k) = unlink (procs st ! k)" .
  have st': "current_process st' = None" "mboxes st' = mboxes st" "pipes st' = pipes st" "fhs st' = fhs st" "bufs st' = bufs st" "kernel_memarea st' = kernel_memarea st"
    by (subst L(3), simp)+
  then show "current_process st' = None" "mboxes st' = mboxes st" by blast+
  have p: "pipes_ok st'" by (rule pipes_ok_frame[OF K(2)]) (simp_all add: st')
  note F = unlinkD[OF U]
  have nb: "\<not> p_receive_blocked (procs st ! i)" using wait_invD(5)[OF K(4) im(1)] i(2) by (auto simp: susp_def)
  have il: "i < length (procs st)" using im(1) len by simp
  have "wait_inv (Some i) st'"
  proof (rule wait_inv_one[OF K(4), where c = i])
    show "current_process st' = Some x \<longleftrightarrow> current_process st = Some x" if "x \<noteq> i" for x using st'(1) i(1) that by simp
    show "\<not> susp None st i" using i(2) by (simp add: susp_def)
    show "proc_ok i (procs st' ! i)" using wait_invD(1)[OF K(4) im(1)] F(3,5,8,13)[OF il] by (simp add: proc_ok_def)
  qed (use U len F[OF il] nb i(3) st'(3) in \<open>auto simp: susp_def live_def readers_def\<close>)
  moreover have "mail_ok (vis (Some i) st')"
    by (rule mail_ok_hidden[OF K(3)]) (use p st'(2) len' F(3,10,11,12) in \<open>auto simp: pipes_ok_def same_box_def\<close>)
  ultimately show "kernel_inv (Some i) st'" using L(1) p st'(1) unfolding kernel_inv_def by auto
qed

section \<open>What the process owned\<close>

lemma close_all_inv:
  assumes k: "kernel_inv h st"
  shows "ret (close_all i st) (\<lambda>st'. kernel_inv h st' \<and> woke st st')"
  unfolding close_all_def
proof (rule ret_fold)
  show "kernel_inv h st \<and> woke st st" using k by (simp add: woke_def)
next
  fix fd and s :: kstate assume s: "kernel_inv h s \<and> woke st s"
  have "ret (close_filehandle f s) (\<lambda>s'. kernel_inv h s' \<and> woke st s')" for f
    by (rule ret_mono[OF close_filehandle_inv]) (use s woke_trans[of st s] in auto)
  then show "ret (get_proc s i \<bind> (\<lambda>p. list_get (p_filedesc p) fd \<bind> (\<lambda>f. if f \<noteq> 0 then close_filehandle f s else Some s))) (\<lambda>s'. kernel_inv h s' \<and> woke st s')"
    by (intro ret_bind_any ret_if) (simp_all add: s)
qed

lemma free_mailbox_inv:
  assumes k: "kernel_inv (Some i) st" and m: "m \<in> dom (mboxes st)" and own: "\<And>j. live (Some i) st j \<Longrightarrow> p_mailbox (procs st ! j) \<noteq> m"
  shows "ret (kdelete m st) (\<lambda>st'. kernel_inv (Some i) st' \<and> procs st' = procs st \<and> current_process st' = current_process st)"
proof (rule retI)
  fix st' assume e: "kdelete m st = Some st'"
  note K = kernel_invD[OF k] and H = heap_okD[OF kernel_invD(6)[OF k]] and len = kernel_inv_length[OF k]
  have o: "m \<in> objs st" using m by (auto simp: objs_def)
  obtain ma where a: "st' = st\<lparr>kernel_memarea := ma, pipes := (pipes st)(m := None), fhs := (fhs st)(m := None), bufs := (bufs st)(m := None), mboxes := (mboxes st)(m := None)\<rparr>"
    and h: "heap_ok st'" by (rule kdelete_ok[OF K(6) o]) (use e in auto)
  have "pipes st m = None" "fhs st m = None" "bufs st m = None" using H(3-5)[of m] m by auto
  then have st': "st' = st\<lparr>kernel_memarea := ma, mboxes := (mboxes st)(m := None)\<rparr>" by (simp add: a fun_upd_idem)
  have "box_ok (vis (Some i) st') (hid (Some i) (procs st) ! j)" if j: "j < length (procs st)" "alive (hid (Some i) (procs st) ! j)" for j
  proof -
    have "live (Some i) st j" using j len by (auto simp: live_def alive_hid)
    then have "p_mailbox (hid (Some i) (procs st) ! j) \<noteq> m" using own j(1) by simp
    then show ?thesis using mail_okD(2)[OF K(3), of j] j by (auto simp: box_ok_def vis_def st' split: if_splits)
  qed
  then have mo: "mail_ok (vis (Some i) st')" using K(3) h unfolding mail_ok_def by (simp add: st')
  have p: "pipes_ok st'" using K(2) h unfolding pipes_ok_def st' by simp
  have w: "wait_inv (Some i) st'" by (rule wait_inv_same_readers[OF K(4)]) (simp_all add: st' readers_def)
  have "\<exists>rs ss. sched_inv (vis (Some i) st') rs ss" using K(1) sched_inv_same[of "vis (Some i) st" _ _ "vis (Some i) st'"] by (auto simp: st')
  then have "kernel_inv (Some i) st'" using mo p w K(5) by (simp add: kernel_inv_def st' live_def)
  then show "kernel_inv (Some i) st' \<and> procs st' = procs st \<and> current_process st' = current_process st" by (simp add: st')
qed

text \<open>The children of the hidden process become orphans; nobody else waits for them.\<close>

lemma orphan_inv:
  assumes k: "kernel_inv (Some i) st" and c: "c < MAX_PROCESSES" "p_parent_pid (procs st ! c) = int i"
  shows "kernel_inv (Some i) (st\<lparr>procs := (procs st)[c := (procs st ! c)\<lparr>p_parent_pid := - 1\<rparr>]\<rparr>)" (is "kernel_inv _ ?st")
proof -
  note K = kernel_invD[OF k] and len = kernel_inv_length[OF k]
  define st' where st': "st' = ?st"
  have cl: "c < length (procs st)" using c(1) len by simp
  have F: "alive (procs st' ! m) = alive (procs st ! m)" "p_ready (procs st' ! m) = p_ready (procs st ! m)" "p_pid (procs st' ! m) = p_pid (procs st ! m)"
    "p_filedesc (procs st' ! m) = p_filedesc (procs st ! m)" "p_receive_blocked (procs st' ! m) = p_receive_blocked (procs st ! m)"
    "p_in_syscall (procs st' ! m) = p_in_syscall (procs st ! m)" "p_waiting_on (procs st' ! m) = p_waiting_on (procs st ! m)"
    "p_saved_regs (procs st' ! m) = p_saved_regs (procs st ! m)" for m
    using cl by (cases "m = c"; simp add: st' alive_def)+
  have par: "p_parent_pid (procs st' ! m) = (if m = c then - 1 else p_parent_pid (procs st ! m))" for m using cl by (simp add: st')
  have G: "current_process st' = current_process st" "pipes st' = pipes st" "readers st' = readers st" by (simp_all add: st' readers_def)
  have L: "live (Some i) st' = live (Some i) st" "susp (Some i) st' = susp (Some i) st" by (simp_all add: fun_eq_iff live_def susp_def F)
  have "wait_inv (Some i) st'"
  proof (rule wait_inv_readersI, unfold L F G)
    fix m
    show "proc_ok m (procs st' ! m)" if "m < MAX_PROCESSES" using wait_invD(1)[OF K(4) that] unfolding proc_ok_def F par by (auto simp: MAX_PROCESSES_def)
    show "waits_pipe st' m \<or> waits_message st' m \<or> waits_child st' m" if "susp (Some i) st m"
    proof -
      have "m \<noteq> i" using that by (auto simp: susp_def live_def)
      then have "waits_child st m \<Longrightarrow> waits_child st' m" using c(2) unfolding waits_child_def F par by (metis of_nat_eq_iff)
      then show ?thesis using wait_invD(2)[OF K(4) that] unfolding waits_pipe_readers waits_message_def F G by blast
    qed
  qed (rule wait_invD[OF K(4)] wait_inv_readersD[OF K(4)]; assumption)+
  moreover have "pipes_ok st'" by (rule pipes_ok_frame[OF K(2)]) (simp_all add: st')
  moreover have "mail_ok (vis (Some i) st')"
    by (rule mail_ok_same[OF K(3)]) (use K(6) heap_ok_cong[of st' st] cl in \<open>auto simp: st' same_box_def nth_list_update alive_def\<close>)
  moreover have "\<exists>rs ss. sched_inv (vis (Some i) st') rs ss"
  proof -
    obtain rs ss where s: "sched_inv (vis (Some i) st) rs ss" using K(1) by blast
    have "sched_inv (vis (Some i) st') rs ss" by (rule sched_vis_cong[OF s]) (use cl in \<open>auto simp: st' nth_list_update alive_def\<close>)
    then show ?thesis by blast
  qed
  ultimately have "kernel_inv (Some i) st'" using K(5) by (simp add: kernel_inv_def G L)
  then show ?thesis by (simp add: st')
qed

definition orphaned :: "nat \<Rightarrow> kstate \<Rightarrow> kstate \<Rightarrow> bool" where
  "orphaned i st st' \<longleftrightarrow> current_process st' = current_process st \<and> length (procs st') = length (procs st) \<and>
     alive (procs st' ! i) = alive (procs st ! i) \<and> p_pid (procs st' ! i) = p_pid (procs st ! i)"

lemma orphan_children_inv:
  assumes k: "kernel_inv (Some i) st"
  shows "ret (orphan_children (int i) st) (\<lambda>st'. kernel_inv (Some i) st' \<and> orphaned i st st')"
  unfolding orphan_children_def
proof (rule ret_fold)
  show "kernel_inv (Some i) st \<and> orphaned i st st" using k by (simp add: orphaned_def)
next
  fix c and s :: kstate assume c: "c \<in> set [0..<MAX_PROCESSES]" and s: "kernel_inv (Some i) s \<and> orphaned i st s"
  have cl: "c < MAX_PROCESSES" "c < length (procs s)" using c kernel_inv_length[of "Some i" s] s by auto
  show "ret (get_proc s c \<bind> (\<lambda>p. if int i = p_parent_pid p then upd_proc c (\<lambda>p. p\<lparr>p_parent_pid := - 1\<rparr>) s else Some s)) (\<lambda>s'. kernel_inv (Some i) s' \<and> orphaned i st s')"
  proof (rule ret_bind_any, rule ret_if)
    fix p assume "get_proc s c = Some p" "int i = p_parent_pid p"
    then have "p_parent_pid (procs s ! c) = int i" using cl by (simp add: get_proc_def)
    then show "ret (upd_proc c (\<lambda>p. p\<lparr>p_parent_pid := - 1\<rparr>) s) (\<lambda>s'. kernel_inv (Some i) s' \<and> orphaned i st s')"
      using orphan_inv[of i s c] s cl by (cases "c = i") (auto simp: upd_proc_ok orphaned_def alive_def)
  qed (use s in simp)
qed

section \<open>Death\<close>

text \<open>Nobody waits for process \<open>i\<close>.\<close>

definition unawaited :: "nat \<Rightarrow> kstate \<Rightarrow> bool" where
  "unawaited i st \<longleftrightarrow> (\<forall>k. susp (Some i) st k \<and> p_in_syscall (procs st ! k) = SYSCALL_WAITPID \<and> p_waiting_on (procs st ! k) = int i \<longrightarrow>
     p_parent_pid (procs st ! i) \<noteq> int k)"

lemma alive_gone: "\<not> alive (p\<lparr>p_exists := False\<rparr>)"
  by (simp add: alive_def)

lemma bury_inv:
  assumes k: "kernel_inv (Some i) st" and i: "i < MAX_PROCESSES" and none: "current_process st = None" and u: "unawaited i st"
    and q: "\<not> alive q" "p_prev q = p_prev (procs st ! i)" "p_next q = p_next (procs st ! i)" "p_receive_blocked q = p_receive_blocked (procs st ! i)"
      "p_in_syscall q = p_in_syscall (procs st ! i)" "p_waiting_on q = p_waiting_on (procs st ! i)" "p_filedesc q = p_filedesc (procs st ! i)"
      "p_parent_pid q = p_parent_pid (procs st ! i)"
  shows "kernel_inv None (st\<lparr>procs := (procs st)[i := q]\<rparr>)" (is "kernel_inv None ?st")
proof -
  note K = kernel_invD[OF k] and len = kernel_inv_length[OF k]
  have il: "i < length (procs st)" using i len by simp
  have ns: "\<not> susp (Some i) st i" by (simp add: susp_def live_def)
  have at: "\<not> p_receive_blocked q" "\<not> (p_in_syscall q = SYSCALL_WAITPID \<and> 0 \<le> p_waiting_on q)"
    using wait_invD(5,6)[OF K(4) i] ns none q(4-6) by auto
  have "wait_inv None ?st"
  proof (rule wait_inv_one[OF K(4), where c = i])
    show "alive (procs ?st ! i) \<and> p_parent_pid (procs ?st ! i) = int j" if "susp (Some i) st j" "p_in_syscall (procs st ! j) = SYSCALL_WAITPID"
      "p_waiting_on (procs st ! j) = int i" "p_parent_pid (procs st ! i) = int j" for j
      using u that unfolding unawaited_def by blast
    show "proc_ok i (procs ?st ! i)" using wait_invD(1)[OF K(4) i] q(1,7,8) il by (simp add: proc_ok_def)
  qed (use il at q(1) ns in \<open>auto simp: readers_def susp_def live_def\<close>)
  moreover have "pipes_ok ?st" by (rule pipes_ok_frame[OF K(2)]) simp_all
  moreover have "mail_ok ?st"
  proof -
    have a: "x < length (procs st) \<Longrightarrow> alive (procs ?st ! x) \<Longrightarrow> x \<noteq> i \<and> alive (hid (Some i) (procs st) ! x) \<and> procs ?st ! x = procs st ! x" for x
      using q(1) il by (cases "x = i") (simp_all add: alive_hid)
    have "box_ok ?st (procs ?st ! x)" if x: "x < length (procs st)" "alive (procs ?st ! x)" for x
    proof -
      have "box_ok ?st (procs ?st ! x) = box_ok (vis (Some i) st) (hid (Some i) (procs st) ! x)"
        by (rule box_ok_cong) (use a[OF x] x(1) in \<open>simp_all add: vis_def\<close>)
      then show ?thesis using mail_okD(2)[OF K(3), of x] a[OF x] x(1) by simp
    qed
    moreover have "p_mailbox (procs ?st ! x) = 0" if "x < length (procs st)" "y < length (procs st)" "x \<noteq> y" "alive (procs ?st ! x)" "alive (procs ?st ! y)"
      "p_mailbox (procs ?st ! x) = p_mailbox (procs ?st ! y)" for x y
      using mail_okD(3)[OF K(3), of x y] a[of x] a[of y] that by simp
    moreover have "heap_ok ?st" using K(6) heap_ok_cong[of ?st st] by simp
    ultimately show ?thesis unfolding mail_ok_def by simp
  qed
  moreover have "\<exists>rs ss. sched_inv ?st rs ss"
  proof -
    obtain rs ss where s: "sched_inv (vis (Some i) st) rs ss" using K(1) by blast
    have "sched_inv ?st rs ss"
      by (rule sched_inv_dead[OF s, of _ i]) (use q(1-3) il sched_invD(6)[OF s, of i] i in \<open>auto simp: hid_nth alive_gone\<close>)
    then show ?thesis by blast
  qed
  ultimately show ?thesis using none by (simp add: kernel_inv_def)
qed

text \<open>The parent that waits for \<open>i\<close> is woken.\<close>

lemma wake_parent_inv:
  assumes k: "kernel_inv (Some i) st" and none: "current_process st = None" and j: "j < length (procs st)"
    and w: "p_in_syscall (procs st ! j) = SYSCALL_WAITPID" "0 \<le> p_waiting_on (procs st ! j)"
    and e: "resume_process j (st\<lparr>procs := (procs st)[j := (procs st ! j)\<lparr>p_waiting_on := - 1\<rparr>]\<rparr>) = Some st'"
  shows "kernel_inv (Some i) st'" "current_process st' = None" "j \<noteq> i" "length (procs st') = length (procs st)"
    "m < length (procs st) \<Longrightarrow> m \<noteq> j \<Longrightarrow> unlink (procs st' ! m) = unlink (procs st ! m)" "p_waiting_on (procs st' ! j) = - 1"
proof -
  note K = kernel_invD[OF k] and len = kernel_inv_length[OF k]
  let ?st1 = "st\<lparr>procs := (procs st)[j := (procs st ! j)\<lparr>p_waiting_on := - 1\<rparr>]\<rparr>"
  have jm: "j < MAX_PROCESSES" using j len by simp
  have sj: "susp (Some i) st j" using wait_invD(6)[OF K(4) jm _ w] none by simp
  then show ji: "j \<noteq> i" by (auto simp: susp_def live_def)
  note rel = resume_relinked[OF e] note R = relinkedD[OF rel]
  show l': "length (procs st') = length (procs st)" "current_process st' = None" using R(1,2) none by simp_all
  have U: "unlink (procs st' ! m) = unlink (if m = j then (procs st ! j)\<lparr>p_waiting_on := - 1, p_ready := True\<rparr> else procs st ! m)" if "m < length (procs st)" for m
    using R(8)[of m] that j by simp
  then show O: "unlink (procs st' ! m) = unlink (procs st ! m)" if "m < length (procs st)" "m \<noteq> j" for m using that by simp
  note Uj = unlinkD[OF U[OF j], simplified]
  show wj: "p_waiting_on (procs st' ! j) = - 1" using Uj(7) .
  obtain rs ss where s: "sched_inv (vis (Some i) st) rs ss" using K(1) by blast
  have s1: "sched_inv (vis (Some i) ?st1) rs ss" by (rule sched_vis_cong[OF s]) (use j in \<open>auto simp: nth_list_update alive_def\<close>)
  have "susp (Some i) ?st1 j" using sj j by (simp add: susp_def live_def alive_def)
  then have sch: "\<exists>rs ss. sched_inv (vis (Some i) st') rs ss" using resume_sched[OF s1 _ e] by blast
  have p1: "pipes_ok ?st1" by (rule pipes_ok_frame[OF K(2)]) simp_all
  have m1: "mail_ok (vis (Some i) ?st1)"
    by (rule mail_ok_same[OF K(3)]) (use p1 j in \<open>auto simp: pipes_ok_def same_box_def nth_list_update alive_def\<close>)
  note objs = relinked_objects[OF p1 m1 rel]
  have rd: "readers st' = readers st" using R(3) by (simp add: readers_def)
  have "wait_inv (Some i) st'"
  proof (rule wait_inv_wake[OF K(4) sj])
    show "unlink (procs st' ! m) = unlink (procs st ! m)" if "m < MAX_PROCESSES" "m \<noteq> j" for m using O[of m] that len by simp
    have "(p, int j) \<notin> readers st" for p using wait_inv_readersD(1)[OF K(4), of p "int j"] w(1) by (auto simp: syscall_numbers)
    then show "readers st' = readers st - {(p, int j) |p. True}" using rd by auto
    show "alive (procs st' ! j)" using sj Uj(3) by (simp add: susp_def live_def alive_def)
    show "proc_ok j (procs st' ! j)" using wait_invD(1)[OF K(4) jm] Uj(3,5,8,13) by (simp add: proc_ok_def alive_def)
    show "\<not> p_receive_blocked (procs st' ! j)" using wait_invD(5)[OF K(4) jm] w(1) Uj(9) by (auto simp: syscall_numbers)
  qed (use Uj wj l' none in simp_all)
  then show "kernel_inv (Some i) st'" using sch objs l'(2) by (simp add: kernel_inv_def)
qed

text \<open>The last two steps of \<open>kill_process\<close>: the process is released or becomes a zombie.\<close>

lemma release_inv:
  assumes k: "kernel_inv (Some i) st" and none: "current_process st = None" and a: "i < MAX_PROCESSES" "p_pid (procs st ! i) = int i"
  shows "ret (release_or_wake i st \<bind> upd_proc i (\<lambda>p. p\<lparr>p_exited := True\<rparr>)) (\<lambda>st'. kernel_inv None st' \<and> current_process st' = None)"
proof (rule retI)
  fix st' assume "release_or_wake i st \<bind> upd_proc i (\<lambda>p. p\<lparr>p_exited := True\<rparr>) = Some st'"
  then obtain st1 where s: "release_or_wake i st = Some st1" "upd_proc i (\<lambda>p. p\<lparr>p_exited := True\<rparr>) st1 = Some st'" by (auto simp: bind_eq_Some_conv)
  have il: "i < length (procs st)" using a(1) kernel_inv_length[OF k] by simp
  let ?p = "procs st ! i" let ?j = "nat (p_parent_pid ?p)"
  consider (free) "p_parent_pid ?p = - 1" "st1 = st\<lparr>procs := (procs st)[i := ?p\<lparr>p_exists := False\<rparr>]\<rparr>"
    | (wake) "0 \<le> p_parent_pid ?p" "?j < length (procs st)" "p_in_syscall (procs st ! ?j) = SYSCALL_WAITPID" "p_waiting_on (procs st ! ?j) = int i"
        "resume_process ?j (st\<lparr>procs := (procs st)[?j := (procs st ! ?j)\<lparr>p_waiting_on := - 1\<rparr>]\<rparr>) = Some st1"
    | (zombie) "0 \<le> p_parent_pid ?p" "?j < length (procs st)" "\<not> (p_in_syscall (procs st ! ?j) = SYSCALL_WAITPID \<and> p_waiting_on (procs st ! ?j) = int i)" "st1 = st"
  proof (cases "p_parent_pid ?p = - 1")
    case True
    then have "st1 = st\<lparr>procs := (procs st)[i := ?p\<lparr>p_exists := False\<rparr>]\<rparr>" using s(1) il by (simp add: release_or_wake_def get_proc_def upd_proc_ok)
    then show ?thesis using True free by blast
  next
    case False
    have r: "kassert (0 \<le> p_parent_pid ?p) \<bind> (\<lambda>_. get_proc st ?j \<bind> (\<lambda>q. if p_in_syscall q = SYSCALL_WAITPID \<and> p_pid ?p = p_waiting_on q
        then upd_proc ?j (\<lambda>q. q\<lparr>p_waiting_on := - 1\<rparr>) st \<bind> resume_process ?j else Some st)) = Some st1"
      using s(1) il False by (simp add: release_or_wake_def get_proc_def Let_def)
    then have j: "0 \<le> p_parent_pid ?p" "?j < length (procs st)" by (auto simp: kassert_def get_proc_def list_get_def bind_eq_Some_conv split: if_splits)
    define q where "q = procs st ! ?j"
    show ?thesis
    proof (cases "p_in_syscall q = SYSCALL_WAITPID \<and> p_waiting_on q = int i")
      case True
      then have "p_pid ?p = p_waiting_on q" using a(2) by simp
      then have "resume_process ?j (st\<lparr>procs := (procs st)[?j := q\<lparr>p_waiting_on := - 1\<rparr>]\<rparr>) = Some st1"
        using r j True by (simp add: kassert_def get_proc_def upd_proc_ok q_def)
      then show ?thesis using wake j True unfolding q_def by blast
    next
      case no: False
      then have "\<not> (p_in_syscall q = SYSCALL_WAITPID \<and> p_pid ?p = p_waiting_on q)" using a(2) by metis
      then have "st1 = st" using r j by (auto simp: kassert_def get_proc_def q_def split: if_splits)
      then show ?thesis using zombie j no unfolding q_def by blast
    qed
  qed
  then show "kernel_inv None st' \<and> current_process st' = None"
  proof cases
    case free
    have st': "st' = st\<lparr>procs := (procs st)[i := ?p\<lparr>p_exists := False, p_exited := True\<rparr>]\<rparr>" using s(2) il by (simp add: free(2) upd_proc_ok)
    have "unawaited i st" using free(1) by (simp add: unawaited_def)
    then have "kernel_inv None st'" unfolding st' by (rule bury_inv[OF k a(1) none]) (simp_all add: alive_def)
    then show ?thesis by (simp add: st' none)
  next
    case wake
    have w0: "0 \<le> p_waiting_on (procs st ! ?j)" using wake(4) by simp
    note W = wake_parent_inv[OF k none wake(2,3) w0 wake(5)]
    have pi: "p_parent_pid (procs st1 ! i) = p_parent_pid ?p" using unlinkD(8)[OF W(5)[OF il]] W(3) by simp
    have "unawaited i st1" unfolding unawaited_def pi using W(6) wake(1) by auto
    then have "kernel_inv None (st1\<lparr>procs := (procs st1)[i := (procs st1 ! i)\<lparr>p_exited := True\<rparr>]\<rparr>)" by (rule bury_inv[OF W(1) a(1) W(2)]) (simp_all add: alive_def)
    then show ?thesis using s(2) il W(2,4) by (auto simp: upd_proc_ok)
  next
    case zombie
    have "unawaited i st" unfolding unawaited_def using zombie(1,3) by auto
    then have "kernel_inv None (st\<lparr>procs := (procs st)[i := ?p\<lparr>p_exited := True\<rparr>]\<rparr>)" by (rule bury_inv[OF k a(1) none]) (simp_all add: alive_def)
    then show ?thesis using s(2) il none zombie(4) by (auto simp: upd_proc_ok)
  qed
qed

lemma kill_current_inv:
  assumes k: "kernel_inv None st" and i: "current_process st = Some i" "p_ready (procs st ! i)" "p_in_syscall (procs st ! i) \<noteq> SYSCALL_WAITPID"
  shows "ret (kill_process i st) (\<lambda>st'. kernel_inv None st' \<and> current_process st' = None)"
proof (rule retI)
  fix st' assume e: "kill_process i st = Some st'"
  note K = kernel_invD[OF k] and len = kernel_inv_length[OF k]
  have im: "i < MAX_PROCESSES" "alive (procs st ! i)" using K(5)[OF i(1)] by (simp_all add: live_def)
  have il: "i < length (procs st)" using im(1) len by simp
  have pid: "p_pid (procs st ! i) = int i" using wait_invD(1)[OF K(4) im(1)] im(2) by (simp add: proc_ok_def)
  obtain st3 st4 where s3: "ready_remove i (st\<lparr>paging := None, current_process := None\<rparr>) = Some st3" and s4: "close_all i st3 = Some st4"
    using e i(1,2) il by (auto simp: kill_process_def Let_def disable_paging_def get_proc_def bind_eq_Some_conv)
  note H = hide_inv[OF k i s3]
  have c4: "kernel_inv (Some i) st4" "woke st3 st4" using retD[OF close_all_inv[OF H(1)] s4] by blast+
  have i3: "i < length (procs st3)" using il H(4) by simp
  note U3 = unlinkD[OF H(5)] note W4 = wokeD[OF c4(2)]
  let ?p = "procs st4 ! i"
  have l4: "length (procs st4) = length (procs st)" "current_process st4 = None" "mboxes st4 = mboxes st"
    using c4(2) H(2-4) by (simp_all add: woke_def)
  have p4: "p_pid ?p = int i" "p_mailbox ?p = p_mailbox (procs st ! i)" using W4(3,7)[OF i3] U3(5,10)[OF il] pid by simp_all
  obtain st8 st9 st10 where s8: "kcore st8 = kcore st4" and s9: "(if p_mailbox ?p \<noteq> 0 then kdelete (p_mailbox ?p) st8 else Some st8) = Some st9"
    and s10: "orphan_children (int i) st9 = Some st10" and s12: "release_or_wake i st10 \<bind> upd_proc i (\<lambda>p. p\<lparr>p_exited := True\<rparr>) = Some st'"
  proof -
    obtain a b c d st5 st6 st7 st8 st9 st10 where "on_pages a st4 = Some st5" "on_pages b st5 = Some st6" "on_pages c st6 = Some st7" "on_pages d st7 = Some st8"
      and r: "(if p_mailbox ?p \<noteq> 0 then kdelete (p_mailbox ?p) st8 else Some st8) = Some st9" "orphan_children (p_pid ?p) st9 = Some st10"
      "release_or_wake i st10 \<bind> upd_proc i (\<lambda>p. p\<lparr>p_exited := True\<rparr>) = Some st'"
      using e i(1,2) il s3 s4 l4(1) by (auto simp: kill_process_def Let_def disable_paging_def get_proc_def bind_eq_Some_conv)
    then have "kcore st8 = kcore st4" using retD[OF same_on_pages] by metis
    then show ?thesis using that r p4(1) by simp
  qed
  have k8: "kernel_inv (Some i) st8" by (rule kernel_inv_cong[OF s8 c4(1)])
  have c8: "current_process st8 = None" "mboxes st8 = mboxes st" "length (procs st8) = length (procs st)" using kcoreD(1,3,9)[OF s8] l4 by simp_all
  have F8: "p_mailbox (procs st8 ! x) = p_mailbox (procs st ! x)" "alive (procs st8 ! x) = alive (procs st ! x)" "p_pid (procs st8 ! x) = p_pid (procs st ! x)"
    if "x < length (procs st)" for x
    using pcoreD(1,5,10)[OF kcoreD(2)[OF s8, of x]] that l4(1) H(4) W4(2,3,7)[of x] U3(3,5,10)[OF that] by simp_all
  have k9: "kernel_inv (Some i) st9 \<and> procs st9 = procs st8 \<and> current_process st9 = None"
  proof (cases "p_mailbox ?p = 0")
    case False
    have "box_ok st (procs st ! i)" using mail_okD(2)[OF K(3), of i] il im(2) by simp
    then have d: "p_mailbox ?p \<in> dom (mboxes st8)" using False p4(2) c8(2) by (auto simp: box_ok_def)
    have o: "p_mailbox (procs st8 ! x) \<noteq> p_mailbox ?p" if "live (Some i) st8 x" for x
    proof -
      have x: "x < length (procs st)" "x \<noteq> i" "alive (procs st ! x)" using that F8(2)[of x] len by (auto simp: live_def)
      show ?thesis using mail_okD(3)[OF K(3), of i x] x il im(2) F8(1)[OF x(1)] False p4(2) by auto
    qed
    have "kdelete (p_mailbox ?p) st8 = Some st9" using s9 False by simp
    from retD[OF free_mailbox_inv[OF k8 d o] this] show ?thesis using c8(1) by simp
  qed (use s9 k8 c8(1) in simp)
  then have k9': "kernel_inv (Some i) st9" "procs st9 = procs st8" "current_process st9 = None" by blast+
  have k10: "kernel_inv (Some i) st10" "orphaned i st9 st10" using retD[OF orphan_children_inv[OF k9'(1)] s10] by blast+
  have "current_process st10 = None" "p_pid (procs st10 ! i) = int i" using k10(2) k9' F8(3)[OF il] pid by (simp_all add: orphaned_def)
  then show "kernel_inv None st' \<and> current_process st' = None" using retD[OF release_inv[OF k10(1) _ im(1)] s12] by blast
qed

lemma exit_leaves:
  assumes c: "in_call i n st" and n: "n \<noteq> SYSCALL_WAITPID"
  shows "leaves i n (syscall_exit status st)"
proof (rule retI)
  fix x assume e: "syscall_exit status st = Some x"
  note C = in_callD[OF c]
  obtain st1 st2 where s: "upd_proc i (\<lambda>p. p\<lparr>p_exit_status := status\<rparr>) (disable_paging st) = Some st1" "kill_process i st1 = Some st2" "x = (- ESUSPEND, st2)"
    using e C(2) by (auto simp: syscall_exit_def bind_eq_Some_conv)
  have "pcore (p\<lparr>p_exit_status := status\<rparr>) = pcore p" for p by (simp add: pcore_def alive_def)
  then have k1: "kcore st1 = kcore st" using retD[OF same_upd_proc s(1)] by simp
  note C1 = in_callD[OF in_call_cong[OF k1 c]]
  have "kernel_inv None st2 \<and> current_process st2 = None" using retD[OF kill_current_inv[OF C1(1,2,3)] s(2)] C1(4) n by simp
  then show "case x of (res, st') \<Rightarrow> left_call i n res st'" by (simp add: s(3) left_call_def)
qed

end
