(* ===== verification/Invariant_Kernel.thy ===== *)
theory Invariant_Kernel
  imports Invariant_Kill Interrupts_Correct
begin

text \<open>
  The dispatcher of system calls, the switch of processes and the handler of interrupts keep the
  invariant, \<open>kmain\<close> establishes it, and so it holds in every state that the kernel reaches between
  interrupts. The kill system call is left out: it may end a process that a pipe still has
  registered as its reader. Between interrupts the programs run and change the memory of the pages.
\<close>

section \<open>The switch statement\<close>

lemma ret_keep: "ret (keep r m) Q \<longleftrightarrow> ret m (\<lambda>(res, st). Q (res, r, st))"
  by (auto simp: keep_def ret_def)

abbreviation out_call :: "nat \<Rightarrow> u32 \<Rightarrow> regs \<Rightarrow> int \<times> regs \<times> kstate \<Rightarrow> bool" where
  "out_call i n r \<equiv> \<lambda>(res, r', st'). left_call i n res st' \<and> (res = - ESUSPEND \<longrightarrow> r' = r)"

lemma keep_leaves: "leaves i n m \<Longrightarrow> ret (keep r m) (out_call i n r)"
  unfolding ret_keep by (erule ret_mono) auto

lemma syscall_switch_leaves:
  assumes c: "in_call i (r_eax r) st"
  shows "ret (syscall_switch r st) (out_call i (r_eax r) r)"
proof -
  let ?n = "r_eax r"
  have kill: "?n \<noteq> SYSCALL_KILL" using in_callD(5)[OF c] .
  have w: "?n = m \<Longrightarrow> m \<noteq> SYSCALL_WAITPID \<Longrightarrow> ?n \<noteq> SYSCALL_WAITPID" for m by simp
  have other: "ret (kprintf f a st \<bind> (\<lambda>st1. Some (- ENOSYS, r, st1))) (out_call i ?n r)" if n: "?n \<noteq> SYSCALL_WAITPID" for f a
    by (rule ret_bind[OF call_kprintf[OF c]]) (use left_callI n in auto)
  have cwd: "ret (keep r (map_option (\<lambda>(p, st). (sint p, st)) (syscall_getcwd x y st))) (out_call i ?n r)" if "?n \<noteq> SYSCALL_WAITPID" for x y
    by (rule keep_leaves) (use ret_mono[OF getcwd_leaves[OF c that]] in \<open>auto simp: case_prod_beta\<close>)
  have ne: "m \<noteq> SYSCALL_WAITPID" if "m \<in> {SYSCALL_GETPID, SYSCALL_EXIT, SYSCALL_WRITE, SYSCALL_GETERRNO, SYSCALL_BRK, SYSCALL_SEND, SYSCALL_CLOSE, SYSCALL_PIPE,
      SYSCALL_DUP2, SYSCALL_FORK, SYSCALL_EXECVE, SYSCALL_STAT, SYSCALL_OPEN, SYSCALL_GETDENT, SYSCALL_CHDIR, SYSCALL_GETCWD, SYSCALL_VFORK}" for m
    using that by (auto simp: SYSCALL_GETPID_def SYSCALL_EXIT_def SYSCALL_WRITE_def SYSCALL_GETERRNO_def SYSCALL_BRK_def SYSCALL_SEND_def SYSCALL_CLOSE_def
      SYSCALL_PIPE_def SYSCALL_DUP2_def SYSCALL_FORK_def SYSCALL_EXECVE_def SYSCALL_STAT_def SYSCALL_OPEN_def SYSCALL_GETDENT_def SYSCALL_CHDIR_def SYSCALL_GETCWD_def
      SYSCALL_VFORK_def SYSCALL_WAITPID_def)
  have rd: "ret (keep r (syscall_read x y z st)) (out_call i ?n r)" if "?n = SYSCALL_READ" for x y z
    using keep_leaves[OF read_leaves] c that by simp
  have rc: "ret (keep r (syscall_receive x y st)) (out_call i ?n r)" if "?n = SYSCALL_RECEIVE" for x y
    using keep_leaves[OF receive_leaves] c that by simp
  have wp: "ret (keep r (syscall_waitpid x y st)) (out_call i ?n r)" if "?n = SYSCALL_WAITPID" for x y
    using keep_leaves[OF waitpid_leaves] c that by simp
  show ?thesis unfolding syscall_switch_def Let_def
    by (rule ret_if | rule rd rc wp, assumption | rule cwd | rule other, assumption | rule ret_bind_any |
        rule execve_leaves[OF c _ in_callD(2)[OF c]] |
        rule keep_leaves[OF getpid_leaves(1)[OF c]] keep_leaves[OF getpid_leaves(2)[OF c]] keep_leaves[OF exit_leaves[OF c]] keep_leaves[OF write_leaves[OF c]]
          keep_leaves[OF brk_leaves[OF c]] keep_leaves[OF send_leaves[OF c]] keep_leaves[OF close_leaves[OF c]] keep_leaves[OF pipe_leaves[OF c]]
          keep_leaves[OF dup2_leaves[OF c]] keep_leaves[OF fork_leaves[OF c]] keep_leaves[OF vfork_leaves[OF c]] keep_leaves[OF stat_leaves[OF c]]
          keep_leaves[OF open_leaves[OF c]] keep_leaves[OF getdent_leaves[OF c]] keep_leaves[OF chdir_leaves[OF c]] |
        simp only: ne insert_iff simp_thms | simp add: kill)+
qed

section \<open>Switching\<close>

text \<open>What \<open>context_switch\<close> and \<open>syscall\<close> expect.\<close>

definition may_switch :: "regs \<Rightarrow> kstate \<Rightarrow> bool" where
  "may_switch r st \<longleftrightarrow> kernel_inv None st \<and> (\<forall>i. current_process st = Some i \<longrightarrow>
     (p_in_syscall (procs st ! i) \<noteq> 0 \<longrightarrow> r_eax r = p_in_syscall (procs st ! i) \<and> p_in_syscall (procs st ! i) \<noteq> SYSCALL_KILL) \<and>
     (p_in_syscall (procs st ! i) = SYSCALL_WAITPID \<longrightarrow> \<not> p_ready (procs st ! i)))"

definition may_call :: "regs \<Rightarrow> kstate \<Rightarrow> bool" where
  "may_call r st \<longleftrightarrow> kernel_inv None st \<and> (\<exists>i. current_process st = Some i \<and> p_ready (procs st ! i)) \<and> r_eax r \<noteq> SYSCALL_KILL"

lemma next_ready:
  assumes s: "sched_inv st rs ss" and c: "\<And>i. current_process st = Some i \<Longrightarrow> i \<in> set rs" and n: "next_process st = Some (Some j)"
  shows "j \<in> set rs"
proof (cases "current_process st")
  case None
  then have "hd_opt rs None = Some j" using n sched_invD(2)[OF s] by (simp add: next_process_def dlist_def)
  then show ?thesis by (cases rs) simp_all
next
  case (Some i)
  then obtain k where k: "k < length rs" "i = rs ! k" using c by (metis in_set_conv_nth)
  then have "j = rs ! (Suc k mod length rs)" using next_process_cyclic[OF s k(1)] n Some by simp
  moreover have "Suc k mod length rs < length rs" using k(1) by (intro mod_less_divisor) auto
  ultimately show ?thesis by simp
qed

text \<open>The running process is put away with its registers and another one, or none, is taken.\<close>

definition put_away :: "regs \<Rightarrow> kstate \<Rightarrow> process list" where
  "put_away r st = (case current_process st of Some i \<Rightarrow> (procs st)[i := (procs st ! i)\<lparr>p_saved_regs := r\<rparr>] | None \<Rightarrow> procs st)"

lemma put_away_length [simp]: "length (put_away r st) = length (procs st)"
  by (simp add: put_away_def split: option.splits)

lemma put_away_nth:
  "m < length (procs st) \<Longrightarrow> put_away r st ! m = (if current_process st = Some m then (procs st ! m)\<lparr>p_saved_regs := r\<rparr> else procs st ! m)"
  by (cases "current_process st") (auto simp: put_away_def nth_list_update)

lemma swap_inv:
  assumes m: "may_switch r st" and j: "\<And>j. nxt = Some j \<Longrightarrow> live None st j"
  shows "kernel_inv None (st\<lparr>procs := put_away r st, current_process := nxt\<rparr>)"
proof -
  have k: "kernel_inv None st" using m by (simp add: may_switch_def)
  note K = kernel_invD[OF k] and len = kernel_inv_length[OF k]
  define st' where st': "st' = st\<lparr>procs := put_away r st, current_process := nxt\<rparr>"
  have F: "alive (procs st' ! m) = alive (procs st ! m)" "p_ready (procs st' ! m) = p_ready (procs st ! m)" "p_pid (procs st' ! m) = p_pid (procs st ! m)"
    "p_filedesc (procs st' ! m) = p_filedesc (procs st ! m)" "p_receive_blocked (procs st' ! m) = p_receive_blocked (procs st ! m)"
    "p_in_syscall (procs st' ! m) = p_in_syscall (procs st ! m)" "p_waiting_on (procs st' ! m) = p_waiting_on (procs st ! m)"
    "p_parent_pid (procs st' ! m) = p_parent_pid (procs st ! m)" "p_prev (procs st' ! m) = p_prev (procs st ! m)" "p_next (procs st' ! m) = p_next (procs st ! m)"
    "same_box (procs st ! m) (procs st' ! m)" if "m < MAX_PROCESSES" for m
    using that len by (simp_all add: st' put_away_nth alive_def same_box_def)
  have regs: "p_saved_regs (procs st' ! m) = (if current_process st = Some m then r else p_saved_regs (procs st ! m))" if "m < MAX_PROCESSES" for m
    using that len by (simp add: st' put_away_nth)
  have L: "live None st' = live None st" "susp None st' = susp None st" "readers st' = readers st"
    using F by (auto simp: fun_eq_iff live_def susp_def readers_def st')
  note W = wait_invD[OF K(4)] and R = wait_inv_readersD[OF K(4)]
  have "wait_inv None st'"
  proof (rule wait_inv_readersI, unfold L)
    fix x
    show "proc_ok x (procs st' ! x)" if "x < MAX_PROCESSES" using W(1)[OF that] F[OF that] by (simp add: proc_ok_def)
    show "waits_pipe st' x \<or> waits_message st' x \<or> waits_child st' x" if "susp None st x"
      using W(2)[OF that] F(5-7)[OF live_less(2)[OF that]] F(1,8) unfolding waits_pipe_readers waits_message_def waits_child_def L by metis
    show "susp None st x \<and> p_in_syscall (procs st' ! x) = SYSCALL_RECEIVE" if "x < MAX_PROCESSES" "p_receive_blocked (procs st' ! x)"
      using W(5)[OF that(1)] that F(5,6)[OF that(1)] by simp
    show "susp None st x" if x: "x < MAX_PROCESSES" "p_in_syscall (procs st' ! x) = SYSCALL_WAITPID" "0 \<le> p_waiting_on (procs st' ! x)"
      using W(6)[OF x(1)] x F(6,7)[OF x(1)] m K(5)[of x] by (cases "current_process st = Some x") (auto simp: may_switch_def susp_def)
    show "r_eax (p_saved_regs (procs st' ! x)) = p_in_syscall (procs st' ! x) \<and> p_in_syscall (procs st' ! x) \<noteq> SYSCALL_KILL"
      if x: "live None st x" "p_in_syscall (procs st' ! x) \<noteq> 0"
      using W(7)[OF x(1)] x F(6)[OF live_less(1)[OF x(1)]] regs[OF live_less(1)[OF x(1)]] m by (cases "current_process st = Some x") (auto simp: may_switch_def)
  next
    fix p y assume "(p, y) \<in> readers st"
    then obtain x where x: "y = int x" "susp None st x" "p_in_syscall (procs st ! x) = SYSCALL_READ" using R(1) by blast
    then show "\<exists>x. y = int x \<and> susp None st x \<and> p_in_syscall (procs st' ! x) = SYSCALL_READ" using F(6)[OF live_less(2)[OF x(2)]] by auto
  qed (rule R(2))
  moreover have p: "pipes_ok st'" by (rule pipes_ok_frame[OF K(2)]) (simp_all add: st')
  moreover have "mail_ok (vis None st')"
    by (rule mail_ok_same[OF K(3)]) (use p F(11) len in \<open>auto simp: pipes_ok_def\<close>, simp_all add: st')
  moreover have "\<exists>rs ss. sched_inv (vis None st') rs ss"
  proof -
    obtain rs ss where s: "sched_inv (vis None st) rs ss" using K(1) by blast
    have "sched_inv (vis None st') rs ss" by (rule sched_vis_cong[OF s]) (use F len in simp_all, simp_all add: st')
    then show ?thesis by blast
  qed
  moreover have "live None st' x" if "current_process st' = Some x" for x using j[of x] that L(1) by (simp add: st')
  ultimately show ?thesis unfolding st'[symmetric] kernel_inv_def by blast
qed

lemma context_switch_quiet:
  assumes H: "\<And>r st y. may_call r st \<Longrightarrow> handler r st = Some y \<Longrightarrow> quiet (snd y)" and m: "may_switch r st"
    and e: "context_switch handler se ia r st = Some y"
  shows "quiet (snd y)"
proof -
  have k: "kernel_inv None st" using m by (simp add: may_switch_def)
  note K = kernel_invD[OF k] and len = kernel_inv_length[OF k]
  define ps where "ps = put_away r st"
  define c where "c = (case current_process st of Some i \<Rightarrow> if p_ready (procs st ! i) then Some i else None | None \<Rightarrow> None)"
  define st2 where "st2 = st\<lparr>procs := ps, current_process := c\<rparr>"
  have il: "i < length (procs st)" if "current_process st = Some i" for i using K(5)[OF that] len by (simp add: live_def)
  obtain nxt where nx: "next_process st2 = Some nxt" and out: "(case nxt of Some j \<Rightarrow> do {
         q \<leftarrow> get_proc (st2\<lparr>current_process := nxt\<rparr>) j;
         let r1 = p_saved_regs q;
         let st4 = enable_paging (p_pdir q) (st2\<lparr>current_process := nxt\<rparr>);
         if p_in_syscall q \<noteq> 0 then handler r1 st4 else Some (r1, st4) }
     | None \<Rightarrow> Some (init_regs se ia, st2\<lparr>current_process := nxt\<rparr>)) = Some y"
  proof (cases "current_process st")
    case None
    then have "st2 = st" by (simp add: st2_def ps_def put_away_def c_def)
    then show ?thesis using that e None by (auto simp: context_switch_def bind_eq_Some_conv Let_def)
  next
    case (Some i)
    then have u: "upd_proc i (\<lambda>p. p\<lparr>p_saved_regs := r\<rparr>) st = Some (st\<lparr>procs := ps\<rparr>)" "get_proc (st\<lparr>procs := ps\<rparr>) i = Some ((procs st ! i)\<lparr>p_saved_regs := r\<rparr>)"
      using il by (simp_all add: upd_proc_ok ps_def put_away_def get_proc_def)
    have "(if \<not> p_ready ((procs st ! i)\<lparr>p_saved_regs := r\<rparr>) then st\<lparr>procs := ps, current_process := None\<rparr> else st\<lparr>procs := ps\<rparr>) = st2"
      using Some by (simp add: st2_def c_def)
    then show ?thesis using that e Some u by (auto simp: context_switch_def bind_eq_Some_conv Let_def)
  qed
  have F: "p_ready (ps ! x) = p_ready (procs st ! x)" "p_in_syscall (ps ! x) = p_in_syscall (procs st ! x)" "alive (ps ! x) = alive (procs st ! x)" "length ps = length (procs st)"
    if "x < length (procs st)" for x using that by (simp_all add: ps_def put_away_nth alive_def)
  obtain rs ss where s: "sched_inv st rs ss" using K(1) by auto
  have s2: "sched_inv st2 rs ss"
    by (rule sched_inv_cong[OF s]) (auto simp: st2_def ps_def put_away_nth alive_def)
  have nr: "j \<in> set rs" if "nxt = Some j" for j
  proof (rule next_ready[OF s2])
    show "i \<in> set rs" if "current_process st2 = Some i" for i
      using that sched_invD(4)[OF s, of i] K(5)[of i] by (auto simp: st2_def c_def live_def split: option.splits if_splits)
  qed (use nx that in simp)
  have lj: "live None st j" "p_ready (procs st ! j)" "j < length (procs st)" if "nxt = Some j" for j
    using nr[OF that] sched_invD(4)[OF s, of j] len by (auto simp: live_def)
  let ?st3 = "st\<lparr>procs := ps, current_process := nxt\<rparr>"
  have k3: "kernel_inv None ?st3" unfolding ps_def by (rule swap_inv[OF m lj(1)])
  show ?thesis
  proof (cases nxt)
    case None
    then show ?thesis using out k3 by (auto simp: st2_def quiet_def)
  next
    case (Some j)
    let ?q = "ps ! j" let ?st4 = "enable_paging (p_pdir ?q) ?st3"
    have k4: "kernel_inv None ?st4" by (rule kernel_inv_cong[OF _ k3]) simp
    have o: "(if p_in_syscall ?q \<noteq> 0 then handler (p_saved_regs ?q) ?st4 else Some (p_saved_regs ?q, ?st4)) = Some y"
      using out Some lj(3)[OF Some] F(4)[OF lj(3)[OF Some]] by (auto simp: st2_def get_proc_def Let_def split: if_splits)
    have r4: "current_process ?st4 = Some j" "procs ?st4 = ps" by (simp_all add: Some enable_paging_def)
    have rj: "p_ready ?q" "p_in_syscall ?q = p_in_syscall (procs st ! j)" using F(1,2)[OF lj(3)[OF Some]] lj(2)[OF Some] by simp_all
    show ?thesis
    proof (cases "p_in_syscall ?q = 0")
      case True
      then have "snd y = ?st4" using o by auto
      then show ?thesis using k4 r4 rj(1) True by (simp add: quiet_def)
    next
      case False
      have "r_eax (p_saved_regs ?q) \<noteq> SYSCALL_KILL"
      proof (cases "current_process st = Some j")
        case True
        then show ?thesis using m False rj(2) lj(3)[OF Some] by (auto simp: may_switch_def ps_def put_away_nth)
      next
        case no: False
        have "?q = procs st ! j" using no lj(3)[OF Some] by (simp add: ps_def put_away_nth)
        then show ?thesis using wait_invD(7)[OF K(4) lj(1)[OF Some] no] False by auto
      qed
      then have "may_call (p_saved_regs ?q) ?st4" using k4 r4 rj(1) by (simp add: may_call_def)
      then show ?thesis using H o False by simp
    qed
  qed
qed

section \<open>System calls\<close>

lemma store_errno_same: "ret (store_errno n res st) (\<lambda>(res', st'). kcore st' = kcore st \<and> (res' = - ESUSPEND \<longleftrightarrow> res = - ESUSPEND))"
proof -
  have u: "ret (upd_cur (\<lambda>p. p\<lparr>p_last_errno := x\<rparr>) st) (\<lambda>st'. kcore st' = kcore st)" for x by (rule same_upd_cur) (simp add: pcore_def alive_def)
  show ?thesis unfolding store_errno_def
    by (rule ret_if ret_bind[OF u] ret_Some | simp add: ESUSPEND_def)+
qed

lemma left_call_cong:
  assumes l: "left_call i n res st" and c: "kcore st' = kcore st"
  shows "left_call i n res st'"
proof -
  have k: "kernel_inv None st" using l by (simp add: left_call_def)
  have "current_process st = Some i \<Longrightarrow> i < length (procs st)" using kernel_invD(5)[OF k, of i] kernel_inv_length[OF k] by (simp add: live_def)
  then show ?thesis using l kernel_inv_cong[OF c k] kcoreD(3)[OF c] pcoreD(2,6)[OF kcoreD(2)[OF c, of i]] by (auto simp: left_call_def split: if_splits)
qed

lemma syscall_body_quiet:
  assumes H: "\<And>r st y. may_switch r st \<Longrightarrow> cs r st = Some y \<Longrightarrow> quiet (snd y)" and m: "may_call r st" and e: "syscall_body cs r st = Some y"
  shows "quiet (snd y)"
proof -
  obtain i where k: "kernel_inv None st" and i: "current_process st = Some i" "p_ready (procs st ! i)" and n: "r_eax r \<noteq> SYSCALL_KILL"
    using m by (auto simp: may_call_def)
  let ?n = "r_eax r"
  have il: "i < length (procs st)" using kernel_invD(5)[OF k i(1)] kernel_inv_length[OF k] by (simp add: live_def)
  let ?st1 = "st\<lparr>procs := (procs st)[i := (procs st ! i)\<lparr>p_in_syscall := ?n\<rparr>]\<rparr>"
  have c1: "in_call i ?n ?st1"
    using kernel_inv_current[OF k i, where x = "p_waiting_on (procs st ! i)" and c = ?n] i il n by (simp add: in_call_def)
  obtain res r1 st2 res1 st3 where s: "syscall_switch r ?st1 = Some (res, r1, st2)" "store_errno ?n res st2 = Some (res1, st3)"
    and out: "(if - ESUSPEND = res1 then cs r1 st3 else do {
       st4 \<leftarrow> upd_proc i (\<lambda>p. p\<lparr>p_in_syscall := 0\<rparr>) st3;
       let r2 = r1\<lparr>r_eax := of_int res1\<rparr>;
       if current_process st4 \<noteq> Some i then cs r2 st4 else Some (r2, st4) }) = Some y"
    using e i(1) il by (auto simp: syscall_body_def upd_proc_ok bind_eq_Some_conv)
  have l2: "left_call i ?n res st2" "res = - ESUSPEND \<longrightarrow> r1 = r" using retD[OF syscall_switch_leaves[OF c1] s(1)] by simp_all
  have k3: "kcore st3 = kcore st2" "res1 = - ESUSPEND \<longleftrightarrow> res = - ESUSPEND" using retD[OF store_errno_same s(2)] by simp_all
  have l3: "left_call i ?n res st3" by (rule left_call_cong[OF l2(1) k3(1)])
  show ?thesis
  proof (cases "res = - ESUSPEND")
    case True
    then have "may_switch r1 st3" using l3 l2(2) n by (auto simp: left_call_def may_switch_def split: if_splits)
    then show ?thesis using H out True k3(2) by simp
  next
    case False
    then have c: "kernel_inv None st3" "current_process st3 = Some i" "p_ready (procs st3 ! i)" using l3 by (auto simp: left_call_def split: if_splits)
    have i3: "i < length (procs st3)" using kernel_invD(5)[OF c(1,2)] kernel_inv_length[OF c(1)] by (simp add: live_def)
    let ?st4 = "st3\<lparr>procs := (procs st3)[i := (procs st3 ! i)\<lparr>p_in_syscall := 0\<rparr>]\<rparr>"
    have "snd y = ?st4" using out False k3(2) c(2) i3 by (auto simp: upd_proc_ok Let_def)
    then show ?thesis using kernel_inv_current[OF c, where x = "p_waiting_on (procs st3 ! i)" and c = 0] c(2,3) i3 by (simp add: quiet_def)
  qed
qed

lemma syscall_quiet:
  assumes "syscall se ia r st = Some y" "may_call r st" shows "quiet (snd y)"
  using assms
proof (induction rule: syscall.raw_induct[rotated, consumes 1, case_names step])
  case (step f se ia r st y)
  have "quiet (snd z)" if "may_switch r' st'" "context_switch (f se ia) se ia r' st' = Some z" for r' st' z
    using context_switch_quiet[OF _ that] step.IH by blast
  then show ?case using syscall_body_quiet[OF _ step.prems step.hyps] by blast
qed

section \<open>Interrupts\<close>

lemma quiet_may_switch: "quiet st \<Longrightarrow> may_switch r st"
  by (auto simp: quiet_def may_switch_def SYSCALL_WAITPID_def)

lemma quiet_cong:
  assumes q: "quiet st" and c: "kcore st' = kcore st" shows "quiet st'"
proof -
  have k: "kernel_inv None st" using q by (simp add: quiet_def)
  have "i < length (procs st)" if "current_process st = Some i" for i using kernel_invD(5)[OF k that] kernel_inv_length[OF k] by (simp add: live_def)
  then show ?thesis using q kernel_inv_cong[OF c k] kcoreD(3)[OF c] pcoreD(2,6)[OF kcoreD(2)[OF c]] by (simp add: quiet_def)
qed

lemma quiet_woke:
  assumes q: "quiet st" and k: "kernel_inv None st'" and w: "woke st st'" shows "quiet st'"
proof -
  have k0: "kernel_inv None st" using q by (simp add: quiet_def)
  have "i < length (procs st)" if "current_process st = Some i" for i using kernel_invD(5)[OF k0 that] kernel_inv_length[OF k0] by (simp add: live_def)
  then show ?thesis using q k w wokeD(4,9)[OF w] by (simp add: quiet_def woke_def)
qed

lemma switch_process_quiet: "may_switch r (kern m) \<Longrightarrow> switch_process se ia r m = Some (r', m') \<Longrightarrow> quiet (kern m')"
  using context_switch_quiet[of "syscall se ia", OF syscall_quiet] by (fastforce simp: switch_process_def bind_eq_Some_conv)

text \<open>An interrupt other than the kill system call.\<close>

definition no_kill :: "regs \<Rightarrow> bool" where
  "no_kill r \<longleftrightarrow> (r_int_no r = INTERRUPT_SYSCALL \<longrightarrow> r_eax r \<noteq> SYSCALL_KILL)"

lemma timer_quiet: "quiet (kern m) \<Longrightarrow> timer_handler se ia r m = Some (r', m') \<Longrightarrow> quiet (kern m')"
  unfolding timer_handler_def by (erule switch_process_quiet[rotated], rule quiet_may_switch, erule quiet_cong) simp

lemma keyboard_quiet:
  assumes q: "quiet (kern m)" and e: "keyboard_handler se ia r m = Some (r', m')"
  shows "quiet (kern m')"
proof -
  have w: "ret (if c \<and> d then write_to_pipe p bs (kern m) else Some (kern m)) quiet" for c d p bs
  proof (rule ret_if)
    have k: "kernel_inv None (kern m)" using q by (simp add: quiet_def)
    show "ret (write_to_pipe p bs (kern m)) quiet" by (rule ret_mono[OF write_to_pipe_inv[OF k]]) (use quiet_woke[OF q] in blast)
  qed (use q in simp)
  have "ret (keyboard_handler se ia r m) (\<lambda>x. quiet (kern (snd x)))"
    unfolding keyboard_handler_def Let_def
  proof (rule ret_case_prod, rule ret_bind_any, rule ret_case_prod, rule ret_case_prod, rule ret_bind[OF w], rule retI, clarsimp)
    fix d1 kb d2 k1 r' m' assume k1: "quiet k1" and sw: "switch_process se ia r (m\<lparr>kern := k1, keyb := kb, ports := outb 0x20 0x20 d2\<rparr>) = Some (r', m')"
    show "quiet (kern m')" by (rule switch_process_quiet[OF quiet_may_switch sw]) (simp add: k1)
  qed
  from retD[OF this e] show ?thesis by simp
qed

lemma page_fault_quiet:
  assumes q: "quiet (kern m)" and i: "current_process (kern m) = Some i" and e: "page_fault se ia i r m = Some (r', m')"
  shows "quiet (kern m')"
proof -
  obtain k1 k2 f a where s: "kprintf f a (kern m) = Some k1" "kill_process i k1 = Some k2" "switch_process se ia r (m\<lparr>kern := k2\<rparr>) = Some (r', m')"
    using e by (auto simp: page_fault_def bind_eq_Some_conv)
  have k1: "kcore k1 = kcore (kern m)" using retD[OF same_kprintf s(1)] .
  have q1: "quiet k1" "current_process k1 = Some i" using quiet_cong[OF q k1] kcoreD(3)[OF k1] i by simp_all
  have "p_in_syscall (procs k1 ! i) \<noteq> SYSCALL_WAITPID" using q1 by (simp add: quiet_def SYSCALL_WAITPID_def)
  then have "kernel_inv None k2 \<and> current_process k2 = None" using retD[OF kill_current_inv s(2)] q1 by (simp add: quiet_def)
  then have "may_switch r k2" by (simp add: may_switch_def)
  then show ?thesis using switch_process_quiet[OF _ s(3)] by simp
qed

lemma syscall_interrupt_quiet:
  assumes q: "quiet (kern m)" and nk: "r_eax r \<noteq> SYSCALL_KILL" and e: "syscall se ia r (kern m) = Some (r', k1)"
  shows "quiet k1"
proof -
  have "\<exists>i. current_process (kern m) = Some i" using e by (subst (asm) syscall.simps) (auto simp: syscall_body_def bind_eq_Some_conv)
  then have "may_call r (kern m)" using q nk by (auto simp: may_call_def quiet_def)
  then show ?thesis using syscall_quiet[OF e] by simp
qed

lemma dispatch_quiet:
  assumes q: "quiet (kern m)" and nk: "no_kill r" and e: "dispatch se ia r m = Some (Returned r' m')"
  shows "quiet (kern m')"
proof -
  have u: "current_process (kern m) = Some i" if "user_fault x m = Some (Some i)" for i x
    using that by (auto simp: user_fault_def bind_eq_Some_conv split: option.splits if_splits)
  consider (timer) "timer_handler se ia r m = Some (r', m')" | (key) "keyboard_handler se ia r m = Some (r', m')"
    | (call) k1 where "r_int_no r = INTERRUPT_SYSCALL" "syscall se ia r (kern m) = Some (r', k1)" "m' = m\<lparr>kern := k1\<rparr>"
    | (fault) i where "current_process (kern m) = Some i" "page_fault se ia i r m = Some (r', m')" | (none) "m' = m"
    using e u unfolding dispatch_def Let_def
    by (cases "r_int_no r = INTERRUPT_TIMER"; cases "r_int_no r = INTERRUPT_KEYBOARD"; cases "r_int_no r = INTERRUPT_SYSCALL")
      (auto simp: bind_eq_Some_conv split: option.split_asm if_split_asm)
  then show ?thesis
  proof cases
    case call
    then show ?thesis using syscall_interrupt_quiet[OF q _ call(2)] nk by (simp add: no_kill_def)
  qed (use q timer_quiet keyboard_quiet page_fault_quiet in blast)+
qed

lemma interrupt_quiet:
  assumes q: "quiet (kern m)" and nk: "no_kill r" and e: "interrupt_handler se ia r m = Some (Returned r' m')"
  shows "quiet (kern m')"
proof -
  let ?r = "r\<lparr>fstate := take 27 (fpustate m)\<rparr>"
  have nk': "no_kill ?r" using nk by (simp add: no_kill_def)
  obtain o1 where d: "dispatch se ia ?r m = Some o1" using e by (auto simp: interrupt_handler_def bind_eq_Some_conv)
  show ?thesis
  proof (cases o1)
    case (Returned r1 m1)
    then have "kern m' = kern m1" using e d by (auto simp: interrupt_handler_def)
    then show ?thesis using dispatch_quiet[OF q nk' d[unfolded Returned]] by simp
  qed (use e d in \<open>simp add: interrupt_handler_def\<close>)
qed

section \<open>The start of the kernel\<close>

text \<open>The kernel as the boot loader leaves it: all its variables are zero.\<close>

definition kernel_loaded :: "kstate \<Rightarrow> bool" where
  "kernel_loaded st \<longleftrightarrow> procs st = replicate MAX_PROCESSES zero_process \<and> current_process st = None \<and>
     ready st = \<lparr>pl_first = None, pl_last = None\<rparr> \<and> suspended st = \<lparr>pl_first = None, pl_last = None\<rparr> \<and>
     pipes st = Map.empty \<and> fhs st = Map.empty \<and> bufs st = Map.empty \<and> mboxes st = Map.empty"

lemma kernel_loaded_inv:
  assumes "kernel_loaded st" and b: "buddy_ok ma"
  shows "kernel_inv None (st\<lparr>kernel_memarea := ma\<rparr>)"
proof -
  define st' where "st' = st\<lparr>kernel_memarea := ma\<rparr>"
  have L: "procs st' = replicate MAX_PROCESSES zero_process" "current_process st' = None" "ready st' = \<lparr>pl_first = None, pl_last = None\<rparr>"
    "suspended st' = \<lparr>pl_first = None, pl_last = None\<rparr>" "pipes st' = Map.empty" "fhs st' = Map.empty" "bufs st' = Map.empty" "mboxes st' = Map.empty" "kernel_memarea st' = ma"
    using assms(1) by (simp_all add: kernel_loaded_def st'_def)
  have z: "\<not> alive zero_process" by (simp add: alive_def zero_process_def)
  have h: "heap_ok st'" using b by (simp add: heap_ok_def objs_def L)
  have "sched_inv st' [] []" using z by (auto simp: sched_inv_def dlist_def L zero_process_def)
  moreover have "pipes_ok st'" using h by (simp add: pipes_ok_def L)
  moreover have "mail_ok st'" using h z by (simp add: mail_ok_def L)
  moreover have "wait_inv None st'"
    using z by (auto simp: wait_inv_def susp_def live_def L) (auto simp: proc_ok_def zero_process_def MAX_PROCESSES_def SYSCALL_WAITPID_def)
  ultimately have "kernel_inv None st'" using L(2) by (auto simp: kernel_inv_def)
  then show ?thesis by (simp add: st'_def)
qed

lemma kmain_quiet:
  assumes l: "kernel_loaded (kern m)"
  shows "ret (kmain a mb m) (\<lambda>m'. quiet (kern m') \<and> current_process (kern m') = None)"
proof (rule retI)
  fix m' assume e: "kmain a mb m = Some m'"
  then obtain ma v k2 f ags md pid k4 b where ma: "kmalloc_init (a_heap a) = Some ma"
    and k2: "kprintf f ags ((kern m)\<lparr>kernel_memarea := ma, console := v\<rparr>) = Some k2"
    and st: "start_process (a_code_start a) (a_code_end a) (a_launch_shell a) (k2\<lparr>filesystem := md\<rparr>) = Some (pid, k4)" and m': "kern m' = k4\<lparr>input_pipe := b\<rparr>"
    by (auto simp: kmain_def bind_eq_Some_conv Let_def kassert_def split: prod.splits if_split_asm)
  have "buddy_ok ma" using buddy_init_inv[of 22 "0x200000" "a_heap a"] ma
    by (auto simp: kmalloc_init_def KERNEL_MEM_BASE_def KERNEL_MEM_SIZEPOW2_def DEFAULT_LOWER_def)
  then have "kernel_inv None ((kern m)\<lparr>kernel_memarea := ma\<rparr>)" by (rule kernel_loaded_inv[OF l])
  then have "kernel_inv None ((kern m)\<lparr>kernel_memarea := ma, console := v\<rparr>)" by (rule kernel_inv_cong[rotated]) simp
  then have "kernel_inv None k2" by (rule kernel_inv_cong[OF retD[OF same_kprintf k2]])
  then have k3: "kernel_inv None (k2\<lparr>filesystem := md\<rparr>)" by (rule kernel_inv_cong[rotated]) (simp add: kcore_def)
  have "current_process (k2\<lparr>filesystem := md\<rparr>) = None" using kcoreD(3)[OF retD[OF same_kprintf k2]] l by (simp add: kernel_loaded_def)
  then have "kernel_inv None k4 \<and> current_process k4 = None" using retD[OF start_process_inv[OF k3] st] by simp
  then show "quiet (kern m') \<and> current_process (kern m') = None" using kernel_inv_cong[of "k4\<lparr>input_pipe := b\<rparr>" k4] by (simp add: quiet_def m')
qed

section \<open>Every run\<close>

text \<open>
  What a program can do to memory in user mode: at most change the memory of the pages. Memory below
  \<open>PAGE_START\<close> is mapped for the supervisor or read-only in every address space.
\<close>

definition user_writes :: "bytemem \<Rightarrow> bytemem \<Rightarrow> bool" where
  "user_writes bm bm' \<longleftrightarrow> (\<forall>a < PAGE_START. bm' a = bm a)"

text \<open>
  The states of the machine in user mode, from \<open>m\<close> on: the programs run, which changes the memory of
  the pages, the floating point state and the address of the last fault, or an interrupt with
  whatever registers they have then is handled. A run ends when a handler does not return.
\<close>

inductive kernel_runs :: "u32 \<Rightarrow> u32 \<Rightarrow> machine \<Rightarrow> machine \<Rightarrow> bool" for se ia m where
  start: "kernel_runs se ia m m"
| program: "kernel_runs se ia m m1 \<Longrightarrow> user_writes (pmem (pgs (kern m1))) bm \<Longrightarrow>
    kernel_runs se ia m (m1\<lparr>kern := (kern m1)\<lparr>pgs := (pgs (kern m1))\<lparr>pmem := bm\<rparr>\<rparr>, fpustate := f, cr2 := c\<rparr>)"
| interrupt: "kernel_runs se ia m m1 \<Longrightarrow> no_kill r \<Longrightarrow> interrupt_handler se ia r m1 = Some (Returned r' m') \<Longrightarrow> kernel_runs se ia m m'"

inductive_cases kernel_runsE: "kernel_runs se ia m m'"

lemma program_quiet: "quiet k \<Longrightarrow> quiet (k\<lparr>pgs := g\<rparr>)"
  by (erule quiet_cong) (simp add: kcore_def)

lemma runs_quiet: "kernel_runs se ia m m' \<Longrightarrow> quiet (kern m) \<Longrightarrow> quiet (kern m')"
  by (induction rule: kernel_runs.induct) (auto intro: interrupt_quiet program_quiet)

end
