(* ===== verification/Buddy_Room.thy ===== *)
theory Buddy_Room
  imports Kmalloc
begin

text \<open>
  When the buddy allocator has room. Because free buddies are always merged, a part of the area
  that holds no used block lies in one free block; so a request fails only when the used blocks
  reach into every part of the area of the size that is asked for.
\<close>

section \<open>Parts of the area that hold no used block\<close>

lemma aligned_next: "2 ^ k dvd e \<Longrightarrow> c * 2 ^ k < e \<Longrightarrow> (c + 1) * 2 ^ k \<le> (e :: nat)"
proof -
  assume "2 ^ k dvd e" and lt: "c * 2 ^ k < e"
  then obtain d where d: "e = d * 2 ^ k" by (auto elim: dvdE simp: mult.commute)
  then have "c < d" using lt by simp
  then show ?thesis unfolding d by (intro mult_le_mono1) simp
qed

lemma aligned_prev: "2 ^ k dvd p \<Longrightarrow> p < (c + 1) * 2 ^ k \<Longrightarrow> p \<le> c * 2 ^ k" for p :: nat
proof -
  assume "2 ^ k dvd p" and lt: "p < (c + 1) * 2 ^ k"
  then obtain d where d: "p = d * 2 ^ k" by (auto elim: dvdE simp: mult.commute)
  then have "d < c + 1" using lt mult_less_cancel2 by blast
  then show ?thesis unfolding d by (intro mult_le_mono1) simp
qed

definition part_unused :: "layout \<Rightarrow> nat \<Rightarrow> nat \<Rightarrow> bool" where
  "part_unused L k c \<longleftrightarrow> (\<forall>p m. L p = Some (m, True) \<longrightarrow> (c + 1) * 2 ^ k \<le> p \<or> p + 2 ^ m \<le> c * 2 ^ k)"

lemma part_unused_halves: "part_unused L (Suc k) c \<Longrightarrow> part_unused L k (2 * c) \<and> part_unused L k (2 * c + 1)"
  unfolding part_unused_def by (fastforce simp: algebra_simps)

lemma unused_part_free:
  assumes wf: "wf_layout lo up L" and co: "coalesced up L" and k: "lo \<le> k" "k \<le> up"
    and c: "c < 2 ^ (up - k)" and un: "part_unused L k c"
  shows "\<exists>p j. L p = Some (j, False) \<and> k \<le> j \<and> p \<le> c * 2 ^ k \<and> (c + 1) * 2 ^ k \<le> p + 2 ^ j"
  using k c un
proof (induction k arbitrary: c rule: nat_induct_at_least)
  case base
  have "c * 2 ^ lo < 2 ^ (up - lo) * 2 ^ lo" using base by simp
  then have "c * 2 ^ lo < 2 ^ up" using base by (simp add: power_add[symmetric])
  then obtain q j v where q: "L q = Some (j, v)" "q \<le> c * 2 ^ lo" "c * 2 ^ lo < q + 2 ^ j" by (rule wf_layout_cover[OF wf])
  note b = wf_layoutD[OF wf q(1)]
  have "2 ^ lo dvd q + 2 ^ j" using b(1,3) by (meson dvd_add dvd_trans le_imp_power_dvd)
  then have "(c + 1) * 2 ^ lo \<le> q + 2 ^ j" using q(3) by (rule aligned_next)
  moreover have "\<not> v"
  proof
    assume v
    then have "(c + 1) * 2 ^ lo \<le> q \<or> q + 2 ^ j \<le> c * 2 ^ lo" using base(3) q(1) by (auto simp: part_unused_def)
    moreover have "c * 2 ^ lo < (c + 1) * 2 ^ lo" by simp
    ultimately show False using q(2,3) by linarith
  qed
  ultimately show ?case using q b(1) by auto
next
  case (Suc k)
  have k: "k < up" using Suc.prems by simp
  have "2 ^ (up - k) = (2::nat) * 2 ^ (up - Suc k)" using k by (simp add: Suc_diff_Suc[symmetric] del: Suc_diff_Suc)
  then have c: "2 * c < 2 ^ (up - k)" "2 * c + 1 < 2 ^ (up - k)" using Suc.prems(2) by simp_all
  note un = part_unused_halves[OF Suc.prems(3)]
  obtain p1 j1 where 1: "L p1 = Some (j1, False)" "k \<le> j1" "p1 \<le> 2 * c * 2 ^ k" "(2 * c + 1) * 2 ^ k \<le> p1 + 2 ^ j1"
    using Suc.IH[OF _ c(1)] un k by auto
  obtain p2 j2 where 2: "L p2 = Some (j2, False)" "k \<le> j2" "p2 \<le> (2 * c + 1) * 2 ^ k" "(2 * c + 1 + 1) * 2 ^ k \<le> p2 + 2 ^ j2"
    using Suc.IH[OF _ c(2)] un k by auto
  note b1 = wf_layoutD[OF wf 1(1)] and b2 = wf_layoutD[OF wf 2(1)]
  show ?case
  proof (cases "j1 = k \<and> j2 = k")
    case True
    then have "p1 = 2 * c * 2 ^ k" "p2 = p1 + 2 ^ k" using 1 2 by (simp_all add: algebra_simps)
    then have "buddy_of p1 k = p2" by (simp add: buddy_of_def)
    then show ?thesis using co 1(1) 2(1) True k by (auto simp: coalesced_def)
  next
    case False
    then consider "Suc k \<le> j1" | "Suc k \<le> j2" using 1(2) 2(2) by linarith
    then show ?thesis
    proof cases
      case j: 1
      have "2 ^ Suc k dvd p1 + 2 ^ j1" using b1(3) j by (meson dvd_add dvd_trans le_imp_power_dvd)
      moreover have "c * 2 ^ Suc k < p1 + 2 ^ j1" using \<open>(2 * c + 1) * 2 ^ k \<le> p1 + 2 ^ j1\<close>
        by (rule order_less_le_trans[rotated]) (simp add: algebra_simps)
      ultimately show ?thesis using aligned_next[of "Suc k" "p1 + 2 ^ j1" c] 1 j by (intro exI[of _ p1] exI[of _ j1]) simp
    next
      case j: 2
      have "2 ^ Suc k dvd p2" using b2(3) j by (meson dvd_trans le_imp_power_dvd)
      moreover have "p2 < (c + 1) * 2 ^ Suc k" using 2(3) by (rule order_le_less_trans) (simp add: algebra_simps)
      ultimately have "p2 \<le> c * 2 ^ Suc k" by (rule aligned_prev)
      then show ?thesis using j 2 by (intro exI[of _ p2] exI[of _ j2]) (simp add: algebra_simps)
    qed
  qed
qed

section \<open>Counting used blocks\<close>

text \<open>With fewer used blocks than parts, and none larger than a part, some part is unused.\<close>

lemma unused_part_exists:
  assumes wf: "wf_layout lo up L" and k: "k \<le> up" and small: "\<And>p m. used_of L p = Some m \<Longrightarrow> m \<le> k"
    and few: "card (dom (used_of L)) < 2 ^ (up - k)" and fin: "finite (dom (used_of L))"
  obtains c where "c < 2 ^ (up - k)" "part_unused L k c"
proof -
  let ?f = "\<lambda>p. p div 2 ^ k"
  have "card (?f ` dom (used_of L)) < card {..<2 ^ (up - k) :: nat}" using card_image_le[OF fin, of ?f] few by simp
  then have "\<not> {..<2 ^ (up - k)} \<subseteq> ?f ` dom (used_of L)" using card_mono[OF finite_imageI[OF fin]] by (meson not_le)
  then obtain c where c: "c < 2 ^ (up - k)" "c \<notin> ?f ` dom (used_of L)" by auto
  have "part_unused L k c"
    unfolding part_unused_def
  proof (intro allI impI)
    fix p m assume p: "L p = Some (m, True)"
    then have u: "used_of L p = Some m" by (simp add: used_of_def)
    have m: "2 ^ m dvd p" "m \<le> k" using wf_layoutD(3)[OF wf p] small[OF u] by simp_all
    have "c \<noteq> p div 2 ^ k" using c(2) u by blast
    then consider "c + 1 \<le> p div 2 ^ k" | "p div 2 ^ k + 1 \<le> c" by linarith
    then show "(c + 1) * 2 ^ k \<le> p \<or> p + 2 ^ m \<le> c * 2 ^ k"
    proof cases
      case 1
      then have "(c + 1) * 2 ^ k \<le> p div 2 ^ k * 2 ^ k" by (rule mult_le_mono1)
      then show ?thesis using div_times_less_eq_dividend[of p "2 ^ k"] by linarith
    next
      case 2
      have d: "2 ^ m dvd c * 2 ^ k" using m(2) by (simp add: le_imp_power_dvd)
      have "p < (p div 2 ^ k + 1) * 2 ^ k" using dividend_less_div_times[of "2 ^ k" p] by (simp add: algebra_simps)
      also have "\<dots> \<le> c * 2 ^ k" using 2 by (rule mult_le_mono1)
      finally have lt: "p < c * 2 ^ k" .
      obtain d where "p = d * 2 ^ m" using m(1) by (auto elim: dvdE simp: mult.commute)
      then show ?thesis using aligned_next[OF d, of d] lt by (simp add: algebra_simps)
    qed
  qed
  then show ?thesis using that c(1) by blast
qed

text \<open>At most \<open>c\<close> blocks are used, none larger than \<open>2 ^ k\<close>.\<close>

definition light :: "nat \<Rightarrow> nat \<Rightarrow> memarea \<Rightarrow> bool" where
  "light k c ma \<longleftrightarrow> buddy_ok ma \<and> lower ma \<le> k \<and> k \<le> upper ma \<and> (\<forall>p m. used_of (layout_of ma) p = Some m \<longrightarrow> m \<le> k) \<and>
     finite (dom (used_of (layout_of ma))) \<and> card (dom (used_of (layout_of ma))) \<le> c"

lemma light_room:
  assumes l: "light k c ma" and n: "unat n < 2 ^ k" and c: "c < 2 ^ (upper ma - k)"
  shows "has_room ma n"
proof -
  have ok: "buddy_ok ma" and k: "lower ma \<le> k" "k \<le> upper ma" and small: "\<And>p m. used_of (layout_of ma) p = Some m \<Longrightarrow> m \<le> k"
    and fin: "finite (dom (used_of (layout_of ma)))" and few: "card (dom (used_of (layout_of ma))) < 2 ^ (upper ma - k)"
    using l c by (auto simp: light_def)
  have wf: "wf_layout (lower ma) (upper ma) (layout_of ma)" and co: "coalesced (upper ma) (layout_of ma)" and ao: "area_ok ma"
    using ok by (simp_all add: buddy_ok_def buddy_inv_def)
  obtain d where d: "d < 2 ^ (upper ma - k)" "part_unused (layout_of ma) k d" by (rule unused_part_exists[OF wf k(2) small few fin])
  obtain p j where p: "layout_of ma p = Some (j, False)" "k \<le> j" using unused_part_free[OF wf co k d] by blast
  have "(2 :: nat) ^ k \<le> 2 ^ j" using p(2) by (intro power_increasing) simp_all
  then have "unat n < 2 ^ j" using n by linarith
  then show ?thesis using p(1) by (auto simp: has_room_def)
qed

lemma light_alloc:
  assumes l: "light k c ma" and n: "unat n < 2 ^ k" and c: "c < 2 ^ (upper ma - k)"
  obtains p ma' where "kmalloc ma n = Some (p, ma')" "light k (Suc c) ma'" "upper ma' = upper ma"
    "buddy_ok ma" "p \<noteq> 0" "p \<notin> dom (allocated ma)" "dom (allocated ma') = insert p (dom (allocated ma))"
proof -
  have ok: "buddy_ok ma" and k: "lower ma \<le> k" "k \<le> upper ma" and ao: "area_ok ma" using l by (simp_all add: light_def buddy_ok_def buddy_inv_def)
  note m = mforsize_le[OF ao n k]
  obtain j b ma' where a: "buddy_alloc False ma n = Some (b + mem ma, ma')" "mforsize ma n = Some j" "buddy_ok ma'" "same_area ma ma'"
    "used_of (layout_of ma) (unat b) = None" "used_of (layout_of ma') = (used_of (layout_of ma))(unat b \<mapsto> j)"
    using buddy_alloc_layout[OF ok m(1) light_room[OF l n c], of False] by blast
  have "light k (Suc c) ma'"
    using l m(2) a card_insert_le_m1[of "Suc c"] by (auto simp: light_def same_area_def card_insert_if)
  then show ?thesis using that a kmalloc_eq[OF ok, of n] ok km.alloc_fresh[OF ok] km.alloc_not_null[OF ok] km.alloc_dom[OF ok]
    by (simp add: same_area_def)
qed

lemma light_init:
  assumes "8 \<le> k" "k \<le> 22"
  obtains ma where "kmalloc_init hp = Some ma" "light k 0 ma" "upper ma = 22" "dom (allocated ma) = {}"
proof -
  obtain ma where ma: "kmalloc_init hp = Some ma" "buddy_ok ma" "upper ma = 22" "lower ma = 8" "layout_of ma = [0 \<mapsto> (22, False)]"
    using buddy_init_inv[of 22 "0x200000" hp] by (auto simp: kmalloc_init_def KERNEL_MEM_BASE_def KERNEL_MEM_SIZEPOW2_def DEFAULT_LOWER_def)
  have u: "used_of (layout_of ma) = Map.empty" using ma(5) by (auto simp: used_of_def)
  then have "light k 0 ma" "allocated ma = Map.empty" using ma assms by (auto simp: light_def allocated_def)
  then show ?thesis using that[OF ma(1)] ma(3) by simp
qed

text \<open>The same counts over the regions that clients hold.\<close>

lemma light_allocated:
  assumes ok: "buddy_ok ma" and k: "lower ma \<le> k" "k \<le> upper ma" and small: "\<And>p s. allocated ma p = Some s \<Longrightarrow> s \<le> 2 ^ k"
  shows "light k (card (dom (allocated ma))) ma"
proof -
  let ?U = "used_of (layout_of ma)" and ?g = "\<lambda>p. of_nat p + mem ma"
  have wf: "wf_layout (lower ma) (upper ma) (layout_of ma)" and ao: "area_ok ma" using ok by (simp_all add: buddy_ok_def buddy_inv_def)
  have lt: "p < 2 ^ upper ma" if "?U p = Some m" for p m
    using that wf_layoutD(4)[OF wf] by (auto simp: used_of_def split: option.splits bool.splits)
  have al: "allocated ma (?g p) = Some (2 ^ m)" if "?U p = Some m" for p m using allocated_eq[OF ao lt[OF that]] that by simp
  have fin: "finite (dom ?U)" by (rule finite_subset[of _ "{..<2 ^ upper ma}"]) (use lt in auto)
  have inj: "inj_on ?g (dom ?U)"
  proof (rule inj_onI)
    fix p q assume "p \<in> dom ?U" "q \<in> dom ?U" and e: "?g p = ?g q"
    then have "p < 2 ^ 32" "q < 2 ^ 32" using lt area_okD(6)[OF ao] by fastforce+
    then have "unat (of_nat p :: u32) = p" "unat (of_nat q :: u32) = q" by (simp_all add: unat_of_nat)
    then show "p = q" using e by (metis add_right_cancel)
  qed
  have "card (dom ?U) \<le> card (dom (allocated ma))"
    by (rule card_inj_on_le[OF inj]) (use al in auto)
  moreover have "m \<le> k" if "?U p = Some m" for p m using small[OF al[OF that]] by simp
  ultimately show ?thesis using ok k fin by (auto simp: light_def)
qed

text \<open>C12: The kernel heap cannot be fragmented beyond its size: a request of less than 2^k bytes is
  served whenever fewer regions are live than the area has parts of 2^k bytes and none of them is
  larger than such a part, in whatever order regions have been allocated and released before. (With
  as many live regions of 2^k bytes as there are parts the area is full.)\<close>

theorem buddy_alloc_few:
  assumes "area_reach ma" "lower ma \<le> k" "k \<le> upper ma" "\<forall>p s. allocated ma p = Some s \<longrightarrow> s \<le> 2 ^ k"
    "card (dom (allocated ma)) < 2 ^ (upper ma - k)" "unat n < 2 ^ k"
  shows "\<exists>p ma'. kmalloc ma n = Some (p, ma') \<and> p \<noteq> 0 \<and> p \<notin> dom (allocated ma)"
proof -
  have "light k (card (dom (allocated ma))) ma" using light_allocated[OF area_reach_ok[OF assms(1)] assms(2,3)] assms(4) by blast
  then show ?thesis by (rule light_alloc[OF _ assms(6,5)]) blast
qed

theorem buddy_alloc_few_witness: "\<exists>p ma'. kmalloc example_area1 200 = Some (p, ma') \<and> p \<noteq> 0x1000"
proof -
  have a: "allocated example_area1 = [0x1000 \<mapsto> 256]"
    using buddy_alloc_cases[OF area_reach_ok[OF example_area_reach] example_area1_alloc] example_allocated by auto
  have s: "\<forall>p s. allocated example_area1 p = Some s \<longrightarrow> s \<le> 2 ^ 8" by (simp add: a)
  have "lower example_area1 = 8" "upper example_area1 = 10" by code_simp+
  then show ?thesis using buddy_alloc_few[OF example_area1_reach _ _ s, of 200] by (auto simp: a)
qed

end
