(* ===== verification/Boot.thy ===== *)
theory Boot
  imports Invariant_Kernel Buddy_Room Libc_Correct
begin

text \<open>
  The kernel starts: from the state in which the boot loader leaves the machine, \<open>kmain\<close> enters user
  mode with the first process ready, unless one of its two assertions about the modules fails, and
  every state that the kernel reaches afterwards keeps the invariant.
\<close>

section \<open>Tables, screen and banner\<close>

lemma setup_segmentation_total:
  assumes "length (gdt s) = NUM_SEGMENTS"
  shows "\<exists>s'. setup_segmentation ga ta ih s = Some s'"
  using assms by (simp add: setup_segmentation_def gdt_set_gate_def Let_def NUM_SEGMENTS_def)

lemma setup_interrupts_total:
  assumes "length hs = 49"
  shows "\<exists>t. setup_interrupts hs ia = Some t"
proof -
  obtain t where t: "fold_opt (\<lambda>i idt. do { h \<leftarrow> list_get hs i; idt_set_gate (of_nat i) h 0x08 0x8E idt }) [0..<48] (replicate 256 zero_gate) = Some t"
    "gates_upto hs 48 t" using gates_loop[OF assms, of 48] by auto
  then have "unat (48::u8) < length t" by (simp add: gates_upto_def)
  then show ?thesis using t(1) assms by (simp add: setup_interrupts_def idt_set_gate_def)
qed

lemma vga_ok_move_cursor [simp]: "vga_ok (move_cursor x y v) = vga_ok v"
  by (simp add: vga_ok_def move_cursor_def Let_def)

lemma clear_screen_total:
  assumes "vga_ok v"
  shows "\<exists>v'. clear_screen v = Some v' \<and> vga_ok v'"
proof -
  let ?P = "\<lambda>_ t. vga_ok t"
  have row: "\<exists>t'. fold_opt (\<lambda>x. set_c (of_nat (y * SCREEN_WIDTH + x)) 32) [0..<SCREEN_WIDTH] t = Some t' \<and> vga_ok t'"
    if y: "y < SCREEN_HEIGHT" and t: "vga_ok t" for y t
  proof (rule fold_opt_inv[where P = ?P])
    fix x u assume x: "x < SCREEN_WIDTH" and u: "vga_ok u"
    have "y * 80 + x < 2000" using x y by (simp add: SCREEN_WIDTH_def SCREEN_HEIGHT_def)
    then have "unat (of_nat (y * SCREEN_WIDTH + x) :: u32) < length (screen u)" using u unfolding unat_of_nat by (simp add: SCREEN_WIDTH_def vga_ok_def)
    then show "\<exists>u'. set_c (of_nat (y * SCREEN_WIDTH + x)) 32 u = Some u' \<and> vga_ok u'" using u by (simp add: set_c_ok vga_ok_def)
  qed (rule t)
  have "\<exists>t. fold_opt (\<lambda>y. fold_opt (\<lambda>x. set_c (of_nat (y * SCREEN_WIDTH + x)) 32) [0..<SCREEN_WIDTH]) [0..<SCREEN_HEIGHT] v = Some t \<and> vga_ok t"
    by (rule fold_opt_inv[where P = ?P]) (use assms row in auto)
  then show ?thesis by (auto simp: clear_screen_def simp del: of_nat_add of_nat_mult)
qed

lemma kprintf_total:
  assumes v: "vga_ok (console st)" and f: "str_at (arr (lit fmt @ [0])) 0 (lit fmt)" and o: "format (lit fmt) args = Some out" "length out < 4096"
  shows "\<exists>v'. kprintf fmt args st = Some (st\<lparr>console := v'\<rparr>) \<and> vga_ok v'"
proof -
  obtain rest where r: "vsnprintf (local_array 4096 st) 4096 (arr (lit fmt @ [0])) args = Some (int (length out), take 4095 out @ 0 # rest)"
    "length (take 4095 out @ 0 # rest) = 4096"
    using vsnprintf_ok[OF f o(1), of "local_array 4096 st" 4096] o(2) by (auto simp: local_array_def)
  then have "printf_output (local_array 4096 st) (arr (lit fmt @ [0])) args = Some out" using o(2) by (simp add: printf_output_def)
  moreover obtain v' where "fold_opt write_char out (console st) = Some v'" "vga_ok v'" using write_chars_ok[OF v] by blast
  ultimately show ?thesis by (auto simp: kprintf_def write_to_screen_def)
qed

text \<open>What \<open>kmain\<close> prints.\<close>

definition banner_format :: string where
  "banner_format = ''%s'' @ newline @ ''%s'' @ newline @ ''%s'' @ newline @ newline @ newline @ newline"

definition banner_args :: "varg list" where
  "banner_args = [Str (arr (lit VERSION @ [0])), Str (arr (lit COPYRIGHT @ [0])), Str (arr (lit DISCLAIMER @ [0]))]"

lemma banner_text: "(case format (lit banner_format) banner_args of Some out \<Rightarrow> length out < 4096 | None \<Rightarrow> False)" by code_simp

lemma banner_str: "str_at (arr (lit banner_format @ [0])) 0 (lit banner_format)" by code_simp

lemma banner_total:
  assumes "vga_ok (console st)"
  shows "\<exists>v'. kprintf banner_format banner_args st = Some (st\<lparr>console := v'\<rparr>) \<and> vga_ok v'"
proof -
  obtain out where "format (lit banner_format) banner_args = Some out" "length out < 4096" using banner_text by (auto split: option.splits)
  then show ?thesis using kprintf_total[OF assms banner_str] by simp
qed

section \<open>Pages\<close>

text \<open>No page has been freed yet, and the next page is aligned.\<close>

definition fresh_pages :: "pages \<Rightarrow> bool" where
  "fresh_pages g \<longleftrightarrow> page_free g = 0 \<and> page_end g mod PAGE_SIZE = 0"

lemma aligned_step: "a mod PAGE_SIZE = 0 \<Longrightarrow> (a + PAGE_SIZE) mod PAGE_SIZE = 0"
proof -
  assume "a mod PAGE_SIZE = 0"
  then have "4096 dvd unat a" using page_aligned_mod[of a] by (simp add: page_aligned_def)
  then have "4096 dvd (unat a + 4096) mod 2 ^ 32" by (intro dvd_mod) simp_all
  then show ?thesis using page_aligned_mod[of "a + PAGE_SIZE"] by (simp add: page_aligned_def PAGE_SIZE_def unat_word_ariths)
qed

lemma fresh_set_entry [simp]: "fresh_pages (set_entry t i v g) = fresh_pages g"
  by (simp add: fresh_pages_def set_entry_def)

lemma fresh_alloc: "fresh_pages g \<Longrightarrow> \<exists>a g'. alloc_page g = (a, g') \<and> a mod PAGE_SIZE = 0 \<and> fresh_pages g'"
  by (simp add: fresh_pages_def alloc_page_def aligned_step)

lemma fresh_map_page:
  assumes "fresh_pages g" "l mod PAGE_SIZE = 0" "p mod PAGE_SIZE = 0"
  shows "\<exists>g'. map_page pdir l p a w g = Some g' \<and> fresh_pages g'"
proof -
  obtain d g' where "alloc_page g = (d, g')" "fresh_pages g'" using fresh_alloc[OF assms(1)] by blast
  then show ?thesis using assms by (simp add: map_page_def Let_def)
qed

lemma fresh_identity_map:
  assumes "fresh_pages g" "l mod PAGE_SIZE = 0" "unat stop + 4096 \<le> 2 ^ 32"
  shows "\<exists>g'. identity_map pdir l stop a w g = Some g' \<and> fresh_pages g'"
  using assms(1,2)
proof (induction "unat stop - unat l" arbitrary: l g rule: less_induct)
  case less
  show ?case
  proof (cases "l < stop")
    case True
    obtain g1 where g1: "map_page pdir l l a w g = Some g1" "fresh_pages g1" using fresh_map_page[OF less.prems(1,2,2)] by blast
    have l: "unat l < unat stop" using True by (simp add: word_less_nat_alt)
    then have "unat (l + PAGE_SIZE) = unat l + 4096" using assms(3) by (simp add: unat_word_ariths PAGE_SIZE_def)
    then have "unat stop - unat (l + PAGE_SIZE) < unat stop - unat l" using l by simp
    from less.hyps[OF this g1(2) aligned_step[OF less.prems(2)]] show ?thesis using True g1(1) by (subst identity_map.simps) simp
  qed (use less.prems in \<open>subst identity_map.simps, simp\<close>)
qed

lemma fresh_map_new:
  assumes "fresh_pages g" "base mod PAGE_SIZE = 0"
  shows "\<exists>g'. map_new_loop pdir base n g = Some g' \<and> fresh_pages g' \<and> (base + of_nat n * PAGE_SIZE) mod PAGE_SIZE = 0"
proof (induction n)
  case (Suc n)
  from Suc.IH obtain g1 where g1: "map_new_loop pdir base n g = Some g1" "fresh_pages g1" "(base + of_nat n * PAGE_SIZE) mod PAGE_SIZE = 0"
    by (elim exE conjE)
  obtain p g2 where g2: "alloc_page g1 = (p, g2)" "p mod PAGE_SIZE = 0" "fresh_pages g2" using fresh_alloc[OF g1(2)] by (elim exE conjE)
  have "base + of_nat (Suc n) * PAGE_SIZE = base + of_nat n * PAGE_SIZE + PAGE_SIZE" by (simp only: of_nat_Suc distrib_right mult_1 add_ac)
  then have "(base + of_nat (Suc n) * PAGE_SIZE) mod PAGE_SIZE = 0" using aligned_step[OF g1(3)] by (simp only:)
  moreover obtain g3 where "map_page pdir (base + of_nat n * PAGE_SIZE) p PAGE_USER PAGE_READ_WRITE g2 = Some g3" "fresh_pages g3"
    using fresh_map_page[OF g2(3) g1(3) g2(2)] by blast
  ultimately show ?case using g1(1) g2(1) by (simp del: of_nat_Suc)
qed (use assms in simp)

lemma fresh_map_new_pages:
  "fresh_pages g \<Longrightarrow> base mod PAGE_SIZE = 0 \<Longrightarrow> \<exists>g'. map_new_pages pdir base n g = Some g' \<and> fresh_pages g'"
  using fresh_map_new[of g base pdir "unat n"] by (auto simp: map_new_pages_def)

section \<open>Total correctness\<close>

text \<open>\<open>gives m Q\<close>: \<open>m\<close> returns, and its result satisfies \<open>Q\<close>.\<close>

definition gives :: "'a option \<Rightarrow> ('a \<Rightarrow> bool) \<Rightarrow> bool" where
  "gives m Q \<longleftrightarrow> (\<exists>x. m = Some x \<and> Q x)"

lemma gives_bind: "gives m P \<Longrightarrow> (\<And>x. P x \<Longrightarrow> gives (f x) Q) \<Longrightarrow> gives (Option.bind m f) Q"
  by (auto simp: gives_def)

lemma gives_bind_pair: "gives m (\<lambda>(x, y). P x y) \<Longrightarrow> (\<And>x y. P x y \<Longrightarrow> gives (f x y) Q) \<Longrightarrow> gives (Option.bind m (\<lambda>(x, y). f x y)) Q"
  by (fastforce simp: gives_def)

lemma gives_Some: "Q x \<Longrightarrow> gives (Some x) Q"
  by (simp add: gives_def)

section \<open>The first process\<close>

text \<open>The state while the first process is made: its entry, the file handles, the pipes and the number of regions on the heap.\<close>

definition making :: "process \<Rightarrow> (u32 \<Rightarrow> filehandle option) \<Rightarrow> (u32 \<Rightarrow> pipe_buffer option) \<Rightarrow> nat \<Rightarrow> kstate \<Rightarrow> bool" where
  "making q F P c st \<longleftrightarrow> procs st = (replicate MAX_PROCESSES zero_process)[1 := q] \<and> ready st = \<lparr>pl_first = None, pl_last = None\<rparr> \<and>
     light 11 c (kernel_memarea st) \<and> upper (kernel_memarea st) = 22 \<and> fresh_pages (pgs st) \<and>
     fhs st = F \<and> pipes st = P \<and> dom F \<subseteq> dom (allocated (kernel_memarea st))"

lemma one_process: "1 < MAX_PROCESSES" by (simp add: MAX_PROCESSES_def)

lemma making_get_proc: "making q F P c st \<Longrightarrow> gives (get_proc st 1) (\<lambda>p. p = q)"
  using one_process by (simp add: gives_def making_def get_proc_def)

lemma making_upd_proc: "making q F P c st \<Longrightarrow> gives (upd_proc 1 f st) (making (f q) F P c)"
  using one_process by (simp add: gives_def making_def upd_proc_def)

lemma making_new_page: "making q F P c st \<Longrightarrow> making q F P c (snd (new_page st))"
  using fresh_alloc[of "pgs st"] by (auto simp: making_def new_page_def)

lemma making_on_pages:
  assumes "making q F P c st" "\<And>g. fresh_pages g \<Longrightarrow> \<exists>g'. f g = Some g' \<and> fresh_pages g'"
  shows "gives (on_pages f st) (making q F P c)"
proof -
  have "fresh_pages (pgs st)" using assms(1) by (simp add: making_def)
  then obtain g where "f (pgs st) = Some g" "fresh_pages g" using assms(2) by blast
  then show ?thesis using assms(1) by (simp add: gives_def on_pages_def making_def)
qed

lemma making_identity:
  "making q F P c st \<Longrightarrow> l mod PAGE_SIZE = 0 \<Longrightarrow> unat stop + 4096 \<le> 2 ^ 32 \<Longrightarrow> gives (on_pages (identity_map pdir l stop a w) st) (making q F P c)"
  by (erule making_on_pages) (rule fresh_identity_map)

lemma making_map_new: "making q F P c st \<Longrightarrow> base mod PAGE_SIZE = 0 \<Longrightarrow> gives (on_pages (map_new_pages pdir base n) st) (making q F P c)"
  by (erule making_on_pages) (rule fresh_map_new_pages)

lemma making_knew:
  assumes m: "making q F P c st" and c: "c < 2048" and n: "unat n < 2048"
  obtains f st' where "knew n st = Some (f, st')" "making q F P (Suc c) st'" "f \<noteq> 0" "f \<notin> dom F" "f \<in> dom (allocated (kernel_memarea st'))"
    "bufs st' = bufs st"
proof -
  have l: "light 11 c (kernel_memarea st)" "upper (kernel_memarea st) = 22" using m by (simp_all add: making_def)
  obtain f ma' where a: "kmalloc (kernel_memarea st) n = Some (f, ma')" "light 11 (Suc c) ma'" "upper ma' = 22" "f \<noteq> 0"
    "f \<notin> dom (allocated (kernel_memarea st))" "dom (allocated ma') = insert f (dom (allocated (kernel_memarea st)))"
    by (rule light_alloc[OF l(1), of n]) (use n c l(2) in auto)
  have "f \<notin> dom F" "dom F \<subseteq> dom (allocated ma')" using a(5,6) m by (auto simp: making_def)
  then show ?thesis using that[of f "st\<lparr>kernel_memarea := ma'\<rparr>"] a m by (simp add: knew_def making_def)
qed

lemma making_new_pipe:
  assumes m: "making q F Map.empty c st" and c: "c < 2047"
  shows "gives (new_pipe st) (\<lambda>(b, st'). \<exists>d. making q F [b \<mapsto> \<lparr>pb_reading = True, pb_writing = True, pb_alloc = BUFSIZE, pb_len = 0,
     pb_readpid = - 1, pb_data = d\<rparr>] (Suc (Suc c)) st' \<and> b \<noteq> 0)"
proof -
  obtain b st1 where b: "knew 24 st = Some (b, st1)" "making q F Map.empty (Suc c) st1" "b \<noteq> 0" by (rule making_knew[OF m, of 24]) (use c in auto)
  obtain d st2 where d: "knew BUFSIZE st1 = Some (d, st2)" "making q F Map.empty (Suc (Suc c)) st2"
    by (rule making_knew[OF b(2), of BUFSIZE]) (use c in \<open>auto simp: BUFSIZE_def\<close>)
  then show ?thesis using b by (auto simp: gives_def new_pipe_def new_buf_def set_pipe_def making_def)
qed

lemma making_handle:
  assumes m: "making q F P c st" and c: "c < 2048"
  shows "gives (knew 36 st \<bind> (\<lambda>(f, st1). Some (f, set_fh f x st1))) (\<lambda>(f, st'). making q (F(f \<mapsto> x)) P (Suc c) st' \<and> f \<noteq> 0 \<and> f \<notin> dom F)"
proof -
  obtain f st1 where "knew 36 st = Some (f, st1)" "making q F P (Suc c) st1" "f \<noteq> 0" "f \<notin> dom F" "f \<in> dom (allocated (kernel_memarea st1))"
    by (rule making_knew[OF m c, of 36]) auto
  then show ?thesis by (auto simp: gives_def set_fh_def making_def)
qed

definition reader_handle :: "u32 \<Rightarrow> filehandle" where
  "reader_handle p = \<lparr>fh_type = FH_PIPE_READER, refcount = 1, fh_write = pipe_reader_write, fh_read = pipe_reader_read,
     fh_destroy = pipe_reader_destroy, fh_p = Some p, fh_entry = None, fh_pos = None, fh_entryno = None\<rparr>"

definition screen_handle :: filehandle where
  "screen_handle = \<lparr>fh_type = FH_SCREEN, refcount = 1, fh_write = screen_write, fh_read = screen_read,
     fh_destroy = screen_destroy, fh_p = None, fh_entry = None, fh_pos = None, fh_entryno = None\<rparr>"

lemmas making_reader = making_handle[where x = "reader_handle p" for p, folded new_pipe_reader_def[folded reader_handle_def]]
lemmas making_screen = making_handle[where x = screen_handle, folded new_screen_handle_def[folded screen_handle_def]]

lemma root_cwd: "gives (snprintf (replicate PATH_MAX 0) PATH_MAX (arr (lit ''/'' @ [0])) []) (\<lambda>(n, cwd). \<exists>rest. cwd = lit ''/'' @ 0 # rest \<and> length cwd = PATH_MAX)"
proof -
  have f: "format (lit ''/'') [] = Some (lit ''/'')" "str_at (arr (lit ''/'' @ [0])) 0 (lit ''/'')" by code_simp+
  show ?thesis using vsnprintf_ok[OF f(2,1), of "replicate PATH_MAX 0" PATH_MAX] by (auto simp: gives_def snprintf_def PATH_MAX_def lit_def)
qed

text \<open>The first process as \<open>start_process\<close> leaves it.\<close>

definition first_process :: "u32 \<Rightarrow> u32 \<Rightarrow> u32 \<Rightarrow> u32 \<Rightarrow> u8 list \<Rightarrow> u32 \<Rightarrow> process" where
  "first_process pd h0 h1 h2 cwd start = zero_process\<lparr>p_pid := 1, p_exists := True, p_stack_start := PROCESS_STACK_BASE - PROCESS_STACK_SIZE,
     p_stack_end := PROCESS_STACK_BASE, p_pdir := pd, p_data_start := PROCESS_DATA_BASE, p_data_end := PROCESS_DATA_BASE,
     p_text_start := PROCESS_TEXT_BASE, p_text_end := PROCESS_TEXT_BASE, p_parent_pid := - 1, p_waiting_on := - 1, p_exit_status := 255,
     p_filedesc := (replicate MAX_FDS 0)[0 := h0, 1 := h1, 2 := h2], p_cwd := cwd,
     p_saved_regs := init_regs PROCESS_STACK_BASE start, p_ready := True\<rparr>"

definition started :: "u32 \<Rightarrow> u32 \<Rightarrow> kstate \<Rightarrow> bool" where
  "started start b st \<longleftrightarrow> (\<exists>pd h0 h1 h2 cwd d rest.
     procs st = (replicate MAX_PROCESSES zero_process)[1 := first_process pd h0 h1 h2 cwd start] \<and>
     ready st = \<lparr>pl_first = Some 1, pl_last = Some 1\<rparr> \<and> cwd = lit ''/'' @ 0 # rest \<and> 0 \<notin> {h0, h1, h2, b} \<and>
     fhs st h0 = Some (reader_handle b) \<and> fhs st h1 = Some screen_handle \<and> fhs st h2 = Some screen_handle \<and>
     pipes st b = Some \<lparr>pb_reading = True, pb_writing = True, pb_alloc = BUFSIZE, pb_len = 0, pb_readpid = - 1, pb_data = d\<rparr>)"

lemma making_ready:
  assumes "making q F P c st"
  shows "gives (ready_add 1 st) (\<lambda>st'. procs st' = (replicate MAX_PROCESSES zero_process)[1 := q] \<and>
     ready st' = \<lparr>pl_first = Some 1, pl_last = Some 1\<rparr> \<and> fhs st' = F \<and> pipes st' = P)"
  using assms by (simp add: gives_def making_def ready_add_def list_add_def)

lemma startedI:
  assumes "fhs st = [h0 \<mapsto> reader_handle b, h1 \<mapsto> screen_handle, h2 \<mapsto> screen_handle]"
    "pipes st = [b \<mapsto> \<lparr>pb_reading = True, pb_writing = True, pb_alloc = BUFSIZE, pb_len = 0, pb_readpid = - 1, pb_data = d\<rparr>]"
    "h1 \<notin> dom [h0 \<mapsto> reader_handle b]" "h2 \<notin> dom [h0 \<mapsto> reader_handle b, h1 \<mapsto> screen_handle]"
    "b \<noteq> 0" "h0 \<noteq> 0" "h1 \<noteq> 0" "h2 \<noteq> 0" "cwd = lit ''/'' @ 0 # rest" "ready st = \<lparr>pl_first = Some 1, pl_last = Some 1\<rparr>"
    "procs st = (replicate MAX_PROCESSES zero_process)[1 := q]" "q = first_process pd h0 h1 h2 cwd start"
  shows "\<exists>b. started start b st"
proof -
  have "fhs st h0 = Some (reader_handle b)" "fhs st h1 = Some screen_handle" "fhs st h2 = Some screen_handle" "0 \<notin> {h0, h1, h2, b}"
    using assms(1,3-8) by (auto split: if_splits)
  note F = this
  have "procs st = (replicate MAX_PROCESSES zero_process)[1 := first_process pd h0 h1 h2 cwd start]" using assms(11,12) by (simp only:)
  note F = conjI[OF this conjI[OF assms(10) conjI[OF assms(9) conjI[OF F(4) conjI[OF F(1) conjI[OF F(2) conjI[OF F(3)]]]]]]]
  have "pipes st b = Some \<lparr>pb_reading = True, pb_writing = True, pb_alloc = BUFSIZE, pb_len = 0, pb_readpid = - 1, pb_data = d\<rparr>" using assms(2) by simp
  from F[OF this] show ?thesis unfolding started_def by (intro exI)
qed

lemma start_process_starts:
  assumes m: "making zero_process Map.empty Map.empty 0 st" and code: "cs mod PAGE_SIZE = 0" "unat ce + 4096 \<le> 2 ^ 32"
  shows "gives (start_process cs ce start st) (\<lambda>(pid, st'). pid = 1 \<and> (\<exists>b. started start b st'))"
proof -
  have "\<not> p_exists (procs st ! 1)" "length (procs st) = MAX_PROCESSES"
    using m one_process by (simp_all add: making_def zero_process_def)
  then have pid: "get_free_pid st = Some 1"
    using one_process by (simp add: get_free_pid_def free_pid_loop.simps[of "procs st" "Suc 0"])
  have one: "nat 1 = 1" "(1 < (0::int)) = False" "0 * MB = 0" by simp_all
  have six: "unat (6 * MB) + 4096 \<le> 2 ^ 32" "(0 :: u32) mod PAGE_SIZE = 0" by (simp_all add: MB_def)
  have stack: "(PROCESS_STACK_BASE - PROCESS_STACK_SIZE) mod PAGE_SIZE = 0" by code_simp
  have cwd: "p_cwd q = replicate PATH_MAX 0 \<Longrightarrow>
      (\<And>x. \<exists>rest. snd x = lit ''/'' @ 0 # rest \<and> length (snd x) = PATH_MAX \<Longrightarrow> gives (f x) Q) \<Longrightarrow>
      gives (snprintf (p_cwd q) PATH_MAX (arr (lit ''/'' @ [0])) [] \<bind> f) Q" for q f Q
    by (simp only:) (rule gives_bind[OF root_cwd[unfolded case_prod_beta]])
  note pairs = making_new_pipe making_reader making_screen
  note pipe = gives_bind[OF pairs(1)[unfolded case_prod_beta]] and reader = gives_bind[OF pairs(2)[unfolded case_prod_beta]]
    and screen = gives_bind[OF pairs(3)[unfolded case_prod_beta]]
  show ?thesis
    unfolding start_process_def pid Option.bind.simps one if_False Let_def case_prod_beta proc_fd_set_def
    apply (rule gives_bind[OF making_upd_proc[OF m]])
    apply (rule gives_bind[OF making_upd_proc[OF making_new_page]], assumption)
    apply (rule gives_bind[OF making_identity[OF _ six(2,1)]], assumption)
    apply (rule gives_bind[OF making_identity[OF _ code]], assumption)
    apply (rule gives_bind[OF making_get_proc], assumption)
    apply (rule gives_bind[OF making_map_new], assumption, simp add: stack)
    apply (rule gives_bind[OF making_upd_proc], assumption)
    apply (rule pipe, assumption, simp, elim exE conjE)
    apply (rule reader, assumption, simp, elim conjE)
    apply (rule gives_bind[OF making_upd_proc], assumption)
    apply (rule screen, assumption, simp, elim conjE)
    apply (rule gives_bind[OF making_upd_proc], assumption)
    apply (rule screen, assumption, simp, elim conjE)
    apply (rule gives_bind[OF making_upd_proc], assumption)
    apply (rule gives_bind[OF making_get_proc], assumption)
    apply (rule cwd, simp add: zero_process_def, elim exE conjE)
    apply (rule gives_bind[OF making_upd_proc], assumption)
    apply (rule gives_bind[OF making_ready], assumption)
    apply (rule gives_Some)
    apply (unfold fst_conv snd_conv, elim conjE, rule conjI[OF refl], rule startedI, assumption+)
    apply (simp add: first_process_def zero_process_def)
    done
qed

section \<open>Boot\<close>

text \<open>
  The machine as the boot loader leaves it: the kernel is loaded, the cursor is on the screen, no
  page has been given out, and the list of modules has the length that the boot loader says. The
  linker aligns the code of the kernel to pages and puts it below the end of the address space.
\<close>

definition boots :: "addresses \<Rightarrow> multiboot \<Rightarrow> machine \<Rightarrow> bool" where
  "boots a mb m \<longleftrightarrow> kernel_loaded (kern m) \<and> vga_ok (console (kern m)) \<and>
     page_end (pgs (kern m)) = PAGE_START \<and> page_free (pgs (kern m)) = 0 \<and>
     length (gdt (segs m)) = NUM_SEGMENTS \<and> length (a_handlers a) = 49 \<and>
     length (mods_addr mb) = unat (mods_count mb) \<and>
     a_code_start a mod PAGE_SIZE = 0 \<and> unat (a_code_end a) + 4096 \<le> 2 ^ 32"

text \<open>There is exactly one module, the image of the file system, and it ends below 2 MB.\<close>

definition one_module :: "multiboot \<Rightarrow> bool" where
  "one_module mb \<longleftrightarrow> mods_count mb = 1 \<and> mod_end (mods_addr mb ! 0) < 2 * MB"

lemma kmain_one_module: "kmain a mb m = Some m' \<Longrightarrow> one_module mb"
  by (auto simp: kmain_def one_module_def bind_eq_Some_conv Let_def kassert_def list_get_def split: prod.splits if_split_asm)

lemma kmain_starts:
  assumes boots: "boots a mb m" and one: "one_module mb"
  shows "gives (kmain a mb m) (\<lambda>m'. quiet (kern m') \<and> current_process (kern m') = None \<and>
     started (a_launch_shell a) (input_pipe (kern m')) (kern m'))"
proof -
  have "mods_addr mb \<noteq> []" using boots one by (auto simp: boots_def one_module_def)
  note B = boots[unfolded boots_def] this one[unfolded one_module_def]
  obtain s where s: "setup_segmentation (a_gdt a) (a_tss a) (a_ih_stack a) (segs m) = Some s" using setup_segmentation_total B by blast
  obtain t tr' outs where t: "setup_interrupts (a_handlers a) (a_idt a) = Some (t, tr', outs)" using setup_interrupts_total B by (metis prod_cases3)
  obtain ma where ma: "kmalloc_init (a_heap a) = Some ma" "light 11 0 ma" "upper ma = 22" "dom (allocated ma) = {}" by (rule light_init[of 11 "a_heap a"]) auto
  obtain v where v: "clear_screen (console (kern m)) = Some v" "vga_ok v" using clear_screen_total B by blast
  let ?k1 = "(kern m)\<lparr>kernel_memarea := ma, console := v\<rparr>"
  obtain w where w: "kprintf banner_format banner_args ?k1 = Some (?k1\<lparr>console := w\<rparr>)" using banner_total[of ?k1] v(2) by auto
  let ?k3 = "(kern m)\<lparr>kernel_memarea := ma, console := w, filesystem := mod_start (mods_addr mb ! 0)\<rparr>"
  have "fresh_pages (pgs (kern m))" using B by (simp add: fresh_pages_def PAGE_START_def PAGE_SIZE_def)
  moreover have "(replicate MAX_PROCESSES zero_process)[1 := zero_process] = replicate MAX_PROCESSES zero_process"
    using one_process by (metis list_update_id nth_replicate)
  ultimately have "making zero_process Map.empty Map.empty 0 ?k3" using B ma by (simp add: making_def kernel_loaded_def)
  from start_process_starts[OF this, of "a_code_start a" "a_code_end a" "a_launch_shell a"] obtain k4 ib
    where st: "start_process (a_code_start a) (a_code_end a) (a_launch_shell a) ?k3 = Some (1, k4)" "started (a_launch_shell a) ib k4"
    using B by (fastforce simp: gives_def)
  then obtain pd h0 h1 h2 cwd where f: "procs k4 = (replicate MAX_PROCESSES zero_process)[1 := first_process pd h0 h1 h2 cwd (a_launch_shell a)]"
    "fhs k4 h0 = Some (reader_handle ib)" by (auto simp: started_def)
  let ?m' = "m\<lparr>segs := s, idt := t, idtr := tr', ports := fold (\<lambda>(p, v). outb p v) outs (ports m), kern := k4\<lparr>input_pipe := ib\<rparr>\<rparr>"
  have g: "get_proc k4 1 = Some (first_process pd h0 h1 h2 cwd (a_launch_shell a))" using f(1) one_process by (simp add: get_proc_def)
  have fd: "list_get (p_filedesc (first_process pd h0 h1 h2 cwd (a_launch_shell a))) 0 = Some h0" by (simp add: first_process_def MAX_FDS_def)
  have e: "kmain a mb m = Some ?m'"
    using B s t ma v w[unfolded banner_format_def banner_args_def] st(1) f g fd
    by (simp add: kmain_def Let_def get_fh_def reader_handle_def)
  have "quiet (kern ?m') \<and> current_process (kern ?m') = None" using retD[OF kmain_quiet e] B by blast
  then show ?thesis unfolding gives_def e using st(2) by (simp add: started_def)
qed

section \<open>From boot on\<close>


text \<open>The first timer interrupt when only process 1 is ready.\<close>

lemma first_tick:
  assumes "current_process (kern m) = None" "pl_first (ready (kern m)) = Some i" "i < length (procs (kern m))" "p_in_syscall (procs (kern m) ! i) = 0"
    "r_int_no r = INTERRUPT_TIMER"
  shows "\<exists>m'. interrupt_handler se ia r m = Some (Returned (p_saved_regs (procs (kern m) ! i)) m') \<and>
     current_process (kern m') = Some i \<and> paging (kern m') = Some (p_pdir (procs (kern m) ! i))"
proof -
  let ?k = "(kern m)\<lparr>timer_ticks := timer_ticks (kern m) + 1\<rparr>"
  let ?k' = "?k\<lparr>current_process := Some i, paging := Some (p_pdir (procs (kern m) ! i))\<rparr>"
  have "context_switch (syscall se ia) se ia x ?k = Some (p_saved_regs (procs (kern m) ! i), ?k')" for x
    using assms(1-4) by (simp add: context_switch_def next_process_def get_proc_def enable_paging_def Let_def)
  then show ?thesis using assms(5) by (simp add: interrupt_handler_def dispatch_def timer_handler_def switch_process_def INTERRUPT_TIMER_def)
qed

text \<open>A machine for the witnesses.\<close>

definition boot_addresses :: addresses where
  "boot_addresses = \<lparr>a_code_start = 0x100000, a_code_end = 0x120000, a_launch_shell = 0x101234, a_gdt = 0x130000, a_tss = 0x131000,
     a_ih_stack = 0x133000, a_idt = 0x134000, a_handlers = replicate 49 0x102000, a_heap = (\<lambda>_. 0)\<rparr>"

definition boot_multiboot :: multiboot where
  "boot_multiboot = \<lparr>mods_count = 1, mods_addr = [\<lparr>mod_start = 0x150000, mod_end = 0x160000\<rparr>]\<rparr>"

definition boot_machine :: machine where
  "boot_machine = example_machine\<lparr>kern := example_kstate\<lparr>procs := replicate MAX_PROCESSES zero_process, current_process := None,
     ready := \<lparr>pl_first = None, pl_last = None\<rparr>, suspended := \<lparr>pl_first = None, pl_last = None\<rparr>, console := example_vga\<rparr>,
     segs := (segs example_machine)\<lparr>gdt := replicate NUM_SEGMENTS (gdt_entry.make 0 0 0 0 0 0 0 0 0 0 0 0 0)\<rparr>\<rparr>"

lemma boot_machine_boots: "boots boot_addresses boot_multiboot boot_machine"
  using example_vga_ok(1)
  by (simp add: boots_def kernel_loaded_def boot_machine_def boot_addresses_def boot_multiboot_def example_kstate_def MB_def PAGE_SIZE_def)

lemma boot_one_module: "one_module boot_multiboot"
  by (simp add: one_module_def boot_multiboot_def MB_def)


section \<open>Properties\<close>

text \<open>C3: The kernel boots. In every state in which the boot loader can leave the machine with exactly one
  module that ends below 2 MB, kmain comes to its last instruction, enter_user_mode, with no
  running process and process 1 as the only process; its standard input is a new, empty pipe, which
  is also where the keyboard handler writes, and its standard output and error are the screen. The
  first timer interrupt enters process 1 at launch_shell, in user mode, on its own stack and in its
  own address space. With another number of modules, or a larger image, kmain stops at an
  assertion.\<close>

theorem kmain_boots:
  assumes "boots a mb m"
  shows "if mods_count mb = 1 \<and> mod_end (mods_addr mb ! 0) < 2 * MB then
     \<exists>m'. kmain a mb m = Some m' \<and> current_process (kern m') = None \<and>
     (\<forall>i < MAX_PROCESSES. p_exists (procs (kern m') ! i) = (i = 1)) \<and>
     (\<exists>h0 h1 h2 d. take 4 (p_filedesc (procs (kern m') ! 1)) = [h0, h1, h2, 0] \<and>
        fhs (kern m') h0 = Some (reader_handle (input_pipe (kern m'))) \<and> fhs (kern m') h1 = Some screen_handle \<and> fhs (kern m') h2 = Some screen_handle \<and>
        pipes (kern m') (input_pipe (kern m')) = Some \<lparr>pb_reading = True, pb_writing = True, pb_alloc = BUFSIZE, pb_len = 0, pb_readpid = - 1, pb_data = d\<rparr>) \<and>
     (\<forall>r. r_int_no r = INTERRUPT_TIMER \<longrightarrow> (\<exists>r' m''. interrupt_handler se ia r m' = Some (Returned r' m'') \<and>
        r_eip r' = a_launch_shell a \<and> r_cs r' = USER_CODE_SEGMENT OR RING_3 \<and> r_useresp r' = PROCESS_STACK_BASE \<and>
        current_process (kern m'') = Some 1 \<and> paging (kern m'') = Some (p_pdir (procs (kern m') ! 1))))
     else kmain a mb m = None"
proof (cases "one_module mb")
  case False
  then have "kmain a mb m = None" using kmain_one_module[of a mb m] by (cases "kmain a mb m") auto
  then show ?thesis using False by (simp add: one_module_def)
next
  case True
  then have c: "mods_count mb = 1 \<and> mod_end (mods_addr mb ! 0) < 2 * MB" by (simp add: one_module_def)
  obtain m' where k: "kmain a mb m = Some m'" "current_process (kern m') = None" "started (a_launch_shell a) (input_pipe (kern m')) (kern m')"
    using kmain_starts[OF assms True] by (auto simp: gives_def)
  then obtain pd h0 h1 h2 cwd d where f: "procs (kern m') = (replicate MAX_PROCESSES zero_process)[1 := first_process pd h0 h1 h2 cwd (a_launch_shell a)]"
    "ready (kern m') = \<lparr>pl_first = Some 1, pl_last = Some 1\<rparr>" "fhs (kern m') h0 = Some (reader_handle (input_pipe (kern m')))"
    "fhs (kern m') h1 = Some screen_handle" "fhs (kern m') h2 = Some screen_handle"
    "pipes (kern m') (input_pipe (kern m')) = Some \<lparr>pb_reading = True, pb_writing = True, pb_alloc = BUFSIZE, pb_len = 0, pb_readpid = - 1, pb_data = d\<rparr>"
    by (auto simp: started_def)
  let ?p = "first_process pd h0 h1 h2 cwd (a_launch_shell a)"
  have p: "procs (kern m') ! 1 = ?p" "length (procs (kern m')) = MAX_PROCESSES" using f(1) one_process by simp_all
  have q: "p_exists ?p" "p_in_syscall ?p = 0" "take 4 (p_filedesc ?p) = [h0, h1, h2, 0]" "p_saved_regs ?p = init_regs PROCESS_STACK_BASE (a_launch_shell a)"
    "\<not> p_exists zero_process" by (simp_all add: first_process_def zero_process_def MAX_FDS_def eval_nat_numeral)
  have e: "\<forall>i < MAX_PROCESSES. p_exists (procs (kern m') ! i) = (i = 1)" using f(1) q(1,5) one_process by (simp add: nth_list_update)
  have "take 4 (p_filedesc (procs (kern m') ! 1)) = [h0, h1, h2, 0]" unfolding p(1) by (rule q(3))
  then have fds: "\<exists>h0 h1 h2 d. take 4 (p_filedesc (procs (kern m') ! 1)) = [h0, h1, h2, 0] \<and>
        fhs (kern m') h0 = Some (reader_handle (input_pipe (kern m'))) \<and> fhs (kern m') h1 = Some screen_handle \<and> fhs (kern m') h2 = Some screen_handle \<and>
        pipes (kern m') (input_pipe (kern m')) = Some \<lparr>pb_reading = True, pb_writing = True, pb_alloc = BUFSIZE, pb_len = 0, pb_readpid = - 1, pb_data = d\<rparr>"
    using f(3-6) by (intro exI conjI)
  have tick: "\<exists>r' m''. interrupt_handler se ia r m' = Some (Returned r' m'') \<and>
        r_eip r' = a_launch_shell a \<and> r_cs r' = USER_CODE_SEGMENT OR RING_3 \<and> r_useresp r' = PROCESS_STACK_BASE \<and>
        current_process (kern m'') = Some 1 \<and> paging (kern m'') = Some (p_pdir (procs (kern m') ! 1))" if r: "r_int_no r = INTERRUPT_TIMER" for r
    using first_tick[OF k(2), of 1 r se ia] r f(2) p q(2,4) one_process by (auto simp: init_regs_def)
  show ?thesis unfolding if_P[OF c]
    by (intro exI[of _ m'] conjI k(1,2) e fds allI impI tick)
qed

theorem kmain_boots_witness:
  "\<exists>m'. kmain boot_addresses boot_multiboot boot_machine = Some m' \<and>
     (\<exists>r' m''. interrupt_handler 0 0 (zero_regs\<lparr>r_int_no := 32\<rparr>) m' = Some (Returned r' m'') \<and> r_eip r' = 0x101234)"
proof -
  obtain m' where k: "kmain boot_addresses boot_multiboot boot_machine = Some m'"
    and t: "\<forall>r. r_int_no r = INTERRUPT_TIMER \<longrightarrow> (\<exists>r' m''. interrupt_handler 0 0 r m' = Some (Returned r' m'') \<and> r_eip r' = a_launch_shell boot_addresses)"
    using kmain_boots[OF boot_machine_boots, of 0 0] boot_one_module[unfolded one_module_def] by (simp only: if_True simp_thms) blast
  have "r_int_no (zero_regs\<lparr>r_int_no := 32\<rparr>) = INTERRUPT_TIMER" by (simp add: INTERRUPT_TIMER_def)
  with t have "\<exists>r' m''. interrupt_handler 0 0 (zero_regs\<lparr>r_int_no := 32\<rparr>) m' = Some (Returned r' m'') \<and> r_eip r' = a_launch_shell boot_addresses" by blast
  then show ?thesis using k by (simp add: boot_addresses_def)
qed





end
