(* ===== verification/Spec2Isabelle.thy ===== *)
theory Spec2Isabelle
  imports Kmalloc Page_Correct Screen Process_Lists Validate Pipe_Correct Filesystem_Correct Mailbox_Correct Interrupts_Correct Fstool_Correct Shell_Correct Fstool_Shell_Correct Fork_Process Programs_Correct Boot
begin

text \<open>
  RhythmOS, a small UNIX-like kernel for the i386 with its C library, its shells and the tool that
  builds its file system image (src/src). This theory imports the whole development.

  \<^bold>\<open>The program.\<close> The boot loader enters \<open>kmain\<close> (main.c), which sets up segments
  (segmentation.c), interrupts (interrupts.c), the kernel heap (buddy.c) and pages (page.c), starts
  the first process (process.c) and waits for interrupts. Everything afterwards happens in
  \<open>interrupt_handler\<close>: the timer switches processes, the keyboard (keyboard.c) writes to a pipe
  (pipe.c), and interrupt 48 is a system call (syscall.c, filedesc.c, fscalls.c, unixproc.c). A call
  that must wait suspends its process with \<open>in_syscall\<close> set and is made again when the process is
  resumed; so \<open>context_switch\<close> and \<open>syscall\<close> call each other.

  \<^bold>\<open>How code is modelled.\<close> C functions are functions of the same name. Unsigned integers and
  everything that may wrap around are words of their width; an \<open>int\<close> is a number, with a test where
  it can overflow, and positions in an array or a string are natural numbers. Addresses are 32-bit words; physical memory is a function from addresses to bytes, and
  logical addresses go through the page tables in that memory. Kernel operations pass the record
  \<open>kstate\<close> (theory Kernel_State) and have an option as their result: \<open>None\<close> says that the C function
  does not return normally, because an assertion fails, an access is outside its object, a freed
  object is used, an \<open>int\<close> overflows, or a loop does not end. Error codes are ordinary results. Loops are recursive
  functions with a termination proof, or \<open>partial_function (option)\<close> where the code itself may loop
  forever; no fuel is used. Objects on the kernel heap are kept in maps from the addresses that
  \<open>kmalloc\<close> returns, and the variables of the kernel in fields, so memory as bytes is that of the
  pages from \<open>PAGE_START\<close> on. The one store of the kernel through an unchecked address, that of
  \<open>waitpid\<close>, has no result when it hits the memory below. What the code leaves uninitialised is a parameter (\<open>junk\<close>, \<open>noise\<close>), and so are
  linker addresses, the answers of the devices, the host file system of fstool, and what system
  calls return to a shell.

  \<^bold>\<open>Theories.\<close>
  \<^item> RPrelude: words, options, lists, bounded loops.
  \<^item> Buddy (buddy.c), with its proof in Buddy_Layout and Buddy_Correct, and the wrappers in
    Kmalloc; Buddy_Room: when a request is certain to be served. The contract of an allocator is the locale of theory Allocator, which buddy.c and page.c
    interpret.
  \<^item> Memory and Page (page.c), proof in Page_Correct: page tables are tables, address spaces are
    disjoint, pages are neither lost nor shared.
  \<^item> Screen (main.c): output stays in video memory.
  \<^item> Kernel_State (kernel.h, user.h, constants.h) and User_Memory: the state and accesses to user
    memory. Validate (syscall.c): which user pointers are accepted.
  \<^item> Process (process.c), proof in Process_Lists: the two process lists and the scheduler.
    Process_Life: start and end of processes.
  \<^item> Pipe (pipe.c, filedesc.c), proof in Pipe_Correct with the locale of theory Channel: a pipe is a
    first-in first-out channel of bytes, and a blocked reader is woken.
  \<^item> Libc (libc.c), proof in Libc_Correct: formatted output against a denotation of formats, numbers,
    memory.
  \<^item> Filesystem (filesystem.c), proof in Filesystem_Correct: lookups in the image against a tree;
    absolute paths. Fscalls (fscalls.c): the calls on files.
  \<^item> Unixproc (unixproc.c): fork, vfork, execve and waitpid; Fork_Correct and
    Fork_Process: the child of fork is a copy of its parent. Syscall (syscall.c): the other calls and
    the dispatcher; Mailbox_Correct: messages.
  \<^item> Keyboard (keyboard.c), proof in Keyboard_Correct against the legends of a US keyboard.
  \<^item> Segmentation (segmentation.c and the tables of interrupts.c).
  \<^item> Interrupts (interrupts.c, main.c): the machine, the handlers and \<open>kmain\<close>; Interrupts_Correct: from
    a key press to the process that reads it, preemption, error numbers.
  \<^item> Invariant and the theories Invariant_Block, Invariant_Mail, Invariant_Calls, Invariant_Life,
    Invariant_Fork, Invariant_Exec, Invariant_Kill, Invariant_Handlers and Invariant_Kernel: the
    invariant of the whole kernel (\<open>kernel_inv\<close>): process lists, heap objects, pipes, mailboxes, and
    that each suspended process waits in read, receive or waitpid and is registered with what wakes
    it. The rules \<open>ret\<close> state that an operation that returns leaves a property true; while a
    process is created or ends, it is hidden from the invariant. All handlers but kill keep the
    invariant: kill may end a process that a pipe still has as its reader (a finding). Programs
    that run in user mode and change the memory of the pages, and interrupts and calls, in any order,
    are the step relation \<open>kernel_runs\<close>. A run ends when a handler does not return, so the theorems
    say nothing of a \<open>waitpid\<close> that overwrites the kernel.
  \<^item> Boot: with one module below 2 MB \<open>kmain\<close> gets from the state the boot loader leaves to user mode,
    with the invariant and the first process ready, so that the theorems on \<open>kernel_runs\<close> are about
    runs that exist; otherwise it stops at an assertion.
  \<^item> Fstool (fstool.c), proof in Fstool_Correct: what the tool builds, the kernel finds. Fstool_Shell:
    its commands that read an image, proof in Fstool_Shell_Correct against the tree.
  \<^item> Shell (dsh.c, sh.c), proof in Shell_Correct: words and lines; both shells interpret the locale
    between the main loop and the command processor.
  \<^item> Programs (cat.c, ls.c, find.c, echo.c, pwd.c, kill.c, hello.c, halt.c, daemon.c, and printf, puts,
    perror and the directory functions of libc.c): programs as functions of the calls they make.
    Files_Correct: the calls of the kernel on files. Programs_Correct: cat on these calls, through a
    locale that the kernel interprets, prints the file.

  \<^bold>\<open>Not modelled.\<close> Assembly (start.s, calls.s, crtso.s), whose effect is that of the handlers and
  calls it leads to; reboot; hlt.c, which executes a privileged instruction, the endless loop of
  daemon.c, and the test programs (mptest, testbuddy); list.c, which does not compile; in libc.c strcat,
  which has no defined meaning, and the assertion message.
\<close>

end
